(* ===== verification/Sonatina_Prelude.thy ===== *)
theory Sonatina_Prelude
  imports Main "HOL-Library.Word"
begin

text \<open>
  Shared vocabulary of the development: how a Rust panic, a failed debug assertion and
  exhausted fuel are values, the two ways operations are sequenced (plain results and
  operations over a state), \<open>usize\<close> arithmetic with its overflow checks, and facts on
  lists and words that several components use.
\<close>

section \<open>Faults and results\<close>

text \<open>
  A function of the code either returns or panics. The model is of the build with debug
  assertions and overflow checks on, so a failed \<open>debug_assert!\<close> is a panic as well.
  \<open>Out_of_fuel\<close> is not an outcome of the code: it marks that a bounded run of a loop
  was cut off.
\<close>

datatype fault = Panic string | Out_of_fuel

fun rbind :: "fault + 'a \<Rightarrow> ('a \<Rightarrow> fault + 'b) \<Rightarrow> fault + 'b" where
  "rbind (Inl e) f = Inl e"
| "rbind (Inr x) f = f x"

definition assert_that :: "bool \<Rightarrow> string \<Rightarrow> fault + unit" where
  "assert_that c msg = (if c then Inr () else Inl (Panic msg))"

definition unwrap :: "'a option \<Rightarrow> fault + 'a" where
  "unwrap x = (case x of None \<Rightarrow> Inl (Panic ''unwrap on None'') | Some y \<Rightarrow> Inr y)"

definition index_list :: "'a list \<Rightarrow> nat \<Rightarrow> fault + 'a" where
  "index_list xs i = (if i < length xs then Inr (xs ! i) else Inl (Panic ''index out of bounds''))"

lemma rbind_eq_Inr [simp]: "rbind m f = Inr y \<longleftrightarrow> (\<exists>x. m = Inr x \<and> f x = Inr y)"
  by (cases m) auto

lemma rbind_assoc: "rbind (rbind m f) g = rbind m (\<lambda>x. rbind (f x) g)"
  by (cases m) simp_all

lemma rbind_eq_Inl: "rbind m f = Inl e \<longleftrightarrow> m = Inl e \<or> (\<exists>x. m = Inr x \<and> f x = Inl e)"
  by (cases m) auto

lemma rbind_cong [fundef_cong]:
  "m = m' \<Longrightarrow> (\<And>x. m' = Inr x \<Longrightarrow> f x = f' x) \<Longrightarrow> rbind m f = rbind m' f'"
  by (cases m') auto

lemma assert_that_eq_Inr [simp]: "assert_that c msg = Inr u \<longleftrightarrow> c"
  by (simp add: assert_that_def)

lemma assert_that_True [simp]: "assert_that True msg = Inr ()"
  by (simp add: assert_that_def)

lemma unwrap_Some [simp]: "unwrap (Some x) = Inr x"
  by (simp add: unwrap_def)

lemma unwrap_eq_Inr [simp]: "unwrap x = Inr y \<longleftrightarrow> x = Some y"
  by (simp add: unwrap_def split: option.splits)

lemma index_list_eq_Inr [simp]: "index_list xs i = Inr y \<longleftrightarrow> i < length xs \<and> xs ! i = y"
  by (simp add: index_list_def)

fun rmap :: "('a \<Rightarrow> fault + 'b) \<Rightarrow> 'a list \<Rightarrow> fault + 'b list" where
  "rmap f [] = Inr []"
| "rmap f (x # xs) = rbind (f x) (\<lambda>y. rbind (rmap f xs) (\<lambda>ys. Inr (y # ys)))"

lemma rmap_cong [fundef_cong]:
  "xs = ys \<Longrightarrow> (\<And>x. x \<in> set ys \<Longrightarrow> f x = g x) \<Longrightarrow> rmap f xs = rmap g ys"
  by (induction ys arbitrary: xs) auto

text \<open>A loop or recursion that may not end is \<open>None\<close> when it does not; seen from outside it is a fault.\<close>

definition ended :: "(fault + 'a) option \<Rightarrow> fault + 'a" where
  "ended r = (case r of None \<Rightarrow> Inl Out_of_fuel | Some x \<Rightarrow> x)"

lemma ended_simps [simp]: "ended (Some x) = x" "ended None = Inl Out_of_fuel"
  by (simp_all add: ended_def)

text \<open>A \<open>for\<close> loop over a list whose body may be such a recursion.\<close>

primrec for_each :: "('a \<Rightarrow> 's \<Rightarrow> (fault + 's) option) \<Rightarrow> 'a list \<Rightarrow> 's \<Rightarrow> (fault + 's) option" where
  "for_each f [] s = Some (Inr s)"
| "for_each f (x # xs) s = Option.bind (f x s) (\<lambda>r. case r of Inl e \<Rightarrow> Some (Inl e) | Inr s \<Rightarrow> for_each f xs s)"

lemma for_each_mono [partial_function_mono]:
  assumes "\<And>x s. mono_option (\<lambda>g. F g x s)"
  shows "mono_option (\<lambda>g. for_each (F g) xs s)"
proof (induction xs arbitrary: s)
  case (Cons x xs)
  have "mono_option (\<lambda>g. case r of Inl e \<Rightarrow> Some (Inl e) | Inr s \<Rightarrow> for_each (F g) xs s)" for r
    by (cases r) (simp_all add: Cons.IH option.const_mono)
  then show ?case unfolding for_each.simps by (intro bind_mono assms)
qed (simp add: option.const_mono)

section \<open>Operations over a state\<close>

text \<open>
  An operation that takes \<open>&mut self\<close> is a function from the state to a result holding
  the returned value and the new state.
\<close>

type_synonym ('s, 'a) op = "'s \<Rightarrow> fault + ('a \<times> 's)"

definition sret :: "'a \<Rightarrow> ('s, 'a) op" where
  "sret x = (\<lambda>s. Inr (x, s))"

definition sfail :: "string \<Rightarrow> ('s, 'a) op" where
  "sfail msg = (\<lambda>s. Inl (Panic msg))"

definition sbind :: "('s, 'a) op \<Rightarrow> ('a \<Rightarrow> ('s, 'b) op) \<Rightarrow> ('s, 'b) op" where
  "sbind m f = (\<lambda>s. rbind (m s) (\<lambda>(x, s'). f x s'))"

definition slift :: "fault + 'a \<Rightarrow> ('s, 'a) op" where
  "slift r = (\<lambda>s. rbind r (\<lambda>x. Inr (x, s)))"

lemma sret_apply [simp]: "sret x s = Inr (x, s)"
  by (simp add: sret_def)

lemma sfail_apply [simp]: "sfail msg s = Inl (Panic msg)"
  by (simp add: sfail_def)

lemma sbind_apply: "sbind m f s = rbind (m s) (\<lambda>(x, s'). f x s')"
  by (simp add: sbind_def)

lemma sbind_eq_Inr [simp]:
  "sbind m f s = Inr r \<longleftrightarrow> (\<exists>x s'. m s = Inr (x, s') \<and> f x s' = Inr r)"
  by (auto simp: sbind_def)

lemma slift_eq_Inr [simp]: "slift r s = Inr (x, s') \<longleftrightarrow> r = Inr x \<and> s' = s"
  by (auto simp: slift_def)

fun smap :: "('a \<Rightarrow> ('s, 'b) op) \<Rightarrow> 'a list \<Rightarrow> ('s, 'b list) op" where
  "smap f [] = sret []"
| "smap f (x # xs) = sbind (f x) (\<lambda>y. sbind (smap f xs) (\<lambda>ys. sret (y # ys)))"

section \<open>usize\<close>

text \<open>\<open>usize\<close> is a natural number below \<open>2^64\<close>; with overflow checks on, leaving the range panics.\<close>

definition usize_limit :: nat where
  "usize_limit = 2 ^ 64"

definition usize_add :: "nat \<Rightarrow> nat \<Rightarrow> fault + nat" where
  "usize_add a b = (if a + b < usize_limit then Inr (a + b) else Inl (Panic ''attempt to add with overflow''))"

definition usize_mul :: "nat \<Rightarrow> nat \<Rightarrow> fault + nat" where
  "usize_mul a b = (if a * b < usize_limit then Inr (a * b) else Inl (Panic ''attempt to multiply with overflow''))"

lemma usize_add_eq_Inr [simp]: "usize_add a b = Inr c \<longleftrightarrow> a + b < usize_limit \<and> c = a + b"
  by (auto simp: usize_add_def)

lemma usize_mul_eq_Inr [simp]: "usize_mul a b = Inr c \<longleftrightarrow> a * b < usize_limit \<and> c = a * b"
  by (auto simp: usize_mul_def)

text \<open>The \<open>checked_\<close> operations of the other unsigned types, with what their \<open>expect\<close> says.\<close>

definition u32_limit :: nat where
  "u32_limit = 2 ^ 32"

definition u64_limit :: nat where
  "u64_limit = 2 ^ 64"

definition checked_add :: "nat \<Rightarrow> string \<Rightarrow> nat \<Rightarrow> nat \<Rightarrow> fault + nat" where
  "checked_add limit msg a b = (if a + b < limit then Inr (a + b) else Inl (Panic msg))"

definition checked_mul :: "nat \<Rightarrow> string \<Rightarrow> nat \<Rightarrow> nat \<Rightarrow> fault + nat" where
  "checked_mul limit msg a b = (if a * b < limit then Inr (a * b) else Inl (Panic msg))"

definition checked_sub :: "string \<Rightarrow> nat \<Rightarrow> nat \<Rightarrow> fault + nat" where
  "checked_sub msg a b = (if b \<le> a then Inr (a - b) else Inl (Panic msg))"

lemma checked_add_eq_Inr [simp]: "checked_add limit msg a b = Inr c \<longleftrightarrow> a + b < limit \<and> c = a + b"
  by (auto simp: checked_add_def)

lemma checked_mul_eq_Inr [simp]: "checked_mul limit msg a b = Inr c \<longleftrightarrow> a * b < limit \<and> c = a * b"
  by (auto simp: checked_mul_def)

lemma checked_sub_eq_Inr [simp]: "checked_sub msg a b = Inr c \<longleftrightarrow> b \<le> a \<and> c = a - b"
  by (auto simp: checked_sub_def)

section \<open>Entity references\<close>

text \<open>
  The opaque references of the IR (newtypes over \<open>u32\<close>) are natural numbers; a
  \<open>SecondaryMap\<close>, which yields a default for a key never written, is a total function.
\<close>

type_synonym BlockId = nat
type_synonym InstId = nat
type_synonym ValueId = nat
type_synonym FuncRef = nat
type_synonym GlobalVariableRef = nat

end
