(* ===== verification/BigInt.thy ===== *)
theory BigInt
  imports Sonatina_Prelude "HOL-Library.Signed_Division"
begin

text \<open>
  \<open>crates/ir/src/bigint.rs\<close>: the signed 256-bit integer \<open>I256\<close> that every immediate is
  computed through, as a sign flag and a magnitude. \<open>U256\<close> is the 256-bit unsigned integer of
  \<open>primitive_types\<close>, read as \<open>256 word\<close>: its \<open>overflowing_\<close> operations wrap and its \<open>+\<close>
  panics on overflow. The lemmas relate the sign-magnitude form to the two's complement word
  (\<open>to_u256\<close>, \<open>from_u256\<close>) and to the integer it stands for (\<open>i256_int\<close>).
\<close>

unbundle bit_operations_syntax

section \<open>Representation\<close>

type_synonym U256 = "256 word"

datatype I256 = I256 (neg_flag: bool) (mag: U256)

datatype Ordering = Less | Equal | Greater

definition u256_add :: "U256 \<Rightarrow> U256 \<Rightarrow> fault + U256" where
  "u256_add a b = (if unat a + unat b < 2 ^ 256 then Inr (a + b) else Inl (Panic ''arithmetic operation overflow''))"

definition I256_MASK :: U256 where
  "I256_MASK = 0x7fffffffffffffffffffffffffffffffffffffffffffffffffffffffffffffff"

definition from_u256 :: "U256 \<Rightarrow> I256" where
  "from_u256 val =
     (let is_neg = (val AND I256_MASK \<noteq> val);
          magnitude = (if is_neg then NOT val + 1 else val)
      in I256 is_neg magnitude)"

definition to_u256 :: "I256 \<Rightarrow> fault + U256" where
  "to_u256 self = (if neg_flag self then u256_add (NOT (mag self)) 1 else Inr (mag self))"

definition i256_zero :: I256 where
  "i256_zero = from_u256 0"

definition i256_one :: I256 where
  "i256_one = from_u256 1"

definition from_usize :: "nat \<Rightarrow> I256" where
  "from_usize val = from_u256 (of_nat val)"

definition i256_is_zero :: "I256 \<Rightarrow> bool" where
  "i256_is_zero self = (mag self = 0)"

definition i256_is_positive :: "I256 \<Rightarrow> bool" where
  "i256_is_positive self = (\<not> neg_flag self \<and> \<not> i256_is_zero self)"

definition i256_is_negative :: "I256 \<Rightarrow> bool" where
  "i256_is_negative self = neg_flag self"

definition is_minimum :: "I256 \<Rightarrow> bool" where
  "is_minimum self = (neg_flag self \<and> mag self \<noteq> 0 \<and> mag self AND I256_MASK = 0)"

definition make_positive :: "U256 \<Rightarrow> I256" where
  "make_positive m = I256 False m"

definition make_negative :: "U256 \<Rightarrow> I256" where
  "make_negative m = I256 True m"

section \<open>Arithmetic\<close>

definition overflowing_add :: "I256 \<Rightarrow> I256 \<Rightarrow> fault + (I256 \<times> bool)" where
  "overflowing_add self rhs =
     rbind (to_u256 self) (\<lambda>a. rbind (to_u256 rhs) (\<lambda>b.
       Inr (from_u256 (a + b), 2 ^ 256 \<le> unat a + unat b)))"

definition overflowing_sub :: "I256 \<Rightarrow> I256 \<Rightarrow> fault + (I256 \<times> bool)" where
  "overflowing_sub self rhs =
     rbind (to_u256 self) (\<lambda>a. rbind (to_u256 rhs) (\<lambda>b.
       Inr (from_u256 (a - b), a < b)))"

definition overflowing_mul :: "I256 \<Rightarrow> I256 \<Rightarrow> fault + (I256 \<times> bool)" where
  "overflowing_mul self rhs =
     rbind (to_u256 self) (\<lambda>a. rbind (to_u256 rhs) (\<lambda>b.
       Inr (from_u256 (a * b), 2 ^ 256 \<le> unat a * unat b)))"

definition overflowing_div :: "I256 \<Rightarrow> I256 \<Rightarrow> fault + (I256 \<times> bool)" where
  "overflowing_div self rhs =
     (if i256_is_zero rhs then Inl (Panic ''attempt to divide by zero'')
      else if is_minimum self \<and> neg_flag rhs \<and> mag rhs = 1 then Inr (self, True)
      else let div_abs = mag self div mag rhs in
        Inr (if neg_flag self = neg_flag rhs then make_positive div_abs else make_negative div_abs,
             False))"

definition overflowing_rem :: "I256 \<Rightarrow> I256 \<Rightarrow> fault + (I256 \<times> bool)" where
  "overflowing_rem self rhs =
     (if i256_is_zero rhs then Inl (Panic ''attempt to divide by zero'')
      else if is_minimum self \<and> neg_flag rhs \<and> mag rhs = 1 then Inr (i256_zero, True)
      else let rem_abs = mag self mod mag rhs in
        Inr (if neg_flag self then make_negative rem_abs else make_positive rem_abs, False))"

definition i256_all_one :: "fault + I256" where
  "i256_all_one = rbind (overflowing_sub i256_zero i256_one) (\<lambda>(r, _). Inr r)"

section \<open>Bytes\<close>

text \<open>\<open>U256::from_big_endian\<close> and \<open>from_little_endian\<close> accept at most 32 bytes.\<close>

definition be_word :: "8 word list \<Rightarrow> U256" where
  "be_word bytes = foldl (\<lambda>acc b. push_bit 8 acc OR ucast b) 0 bytes"

definition from_be_bytes :: "8 word list \<Rightarrow> fault + I256" where
  "from_be_bytes bytes =
     rbind (assert_that (length bytes \<le> 32) ''slice longer than 32 bytes'')
       (\<lambda>_. Inr (from_u256 (be_word bytes)))"

definition from_le_bytes :: "8 word list \<Rightarrow> fault + I256" where
  "from_le_bytes bytes =
     rbind (assert_that (length bytes \<le> 32) ''slice longer than 32 bytes'')
       (\<lambda>_. Inr (from_u256 (be_word (rev bytes))))"

section \<open>Truncation and conversions\<close>

definition trunc_to_i1 :: "I256 \<Rightarrow> fault + bool" where
  "trunc_to_i1 self = rbind (to_u256 self) (\<lambda>w. Inr ((ucast w :: 32 word) AND 1 \<noteq> 0))"

definition trunc_to_i8 :: "I256 \<Rightarrow> fault + 8 word" where
  "trunc_to_i8 self = rbind (to_u256 self) (\<lambda>w. Inr (ucast (ucast w :: 32 word)))"

definition trunc_to_i16 :: "I256 \<Rightarrow> fault + 16 word" where
  "trunc_to_i16 self = rbind (to_u256 self) (\<lambda>w. Inr (ucast (ucast w :: 32 word)))"

definition trunc_to_i32 :: "I256 \<Rightarrow> fault + 32 word" where
  "trunc_to_i32 self = rbind (to_u256 self) (\<lambda>w. Inr (ucast w))"

definition trunc_to_i64 :: "I256 \<Rightarrow> fault + 64 word" where
  "trunc_to_i64 self = rbind (to_u256 self) (\<lambda>w. Inr (ucast w))"

definition trunc_to_i128 :: "I256 \<Rightarrow> fault + 128 word" where
  "trunc_to_i128 self = rbind (to_u256 self) (\<lambda>w. Inr (ucast w))"

text \<open>
  \<open>impl_from!\<close>: a signed primitive of width \<open>n\<close> is an \<open>n\<close>-bit word read by \<open>sint\<close>; its
  \<open>MIN\<close> is \<open>2^(n-1)\<close>, whose negation would overflow and is treated apart.
\<close>

definition from_signed :: "'a::len word \<Rightarrow> I256" where
  "from_signed val =
     (if \<not> sint val < 0 then I256 False (ucast val)
      else if sint val = - (2 ^ (LENGTH('a) - 1)) then I256 True (push_bit (LENGTH('a) - 1) 1)
      else I256 True (ucast (- val)))"

definition from_unsigned :: "'a::len word \<Rightarrow> I256" where
  "from_unsigned val = I256 False (ucast val)"

section \<open>Bit operations\<close>

definition i256_and :: "I256 \<Rightarrow> I256 \<Rightarrow> fault + I256" where
  "i256_and self rhs = rbind (to_u256 self) (\<lambda>a. rbind (to_u256 rhs) (\<lambda>b. Inr (from_u256 (a AND b))))"

definition i256_or :: "I256 \<Rightarrow> I256 \<Rightarrow> fault + I256" where
  "i256_or self rhs = rbind (to_u256 self) (\<lambda>a. rbind (to_u256 rhs) (\<lambda>b. Inr (from_u256 (a OR b))))"

definition i256_xor :: "I256 \<Rightarrow> I256 \<Rightarrow> fault + I256" where
  "i256_xor self rhs = rbind (to_u256 self) (\<lambda>a. rbind (to_u256 rhs) (\<lambda>b. Inr (from_u256 (a XOR b))))"

definition i256_not :: "I256 \<Rightarrow> fault + I256" where
  "i256_not self = rbind (to_u256 self) (\<lambda>a. Inr (from_u256 (NOT a)))"

definition i256_neg :: "I256 \<Rightarrow> fault + I256" where
  "i256_neg self =
     rbind (i256_not self) (\<lambda>n. rbind (overflowing_add n i256_one) (\<lambda>(r, _). Inr r))"

definition i256_shl :: "I256 \<Rightarrow> I256 \<Rightarrow> fault + I256" where
  "i256_shl self rhs =
     rbind (to_u256 rhs) (\<lambda>shift.
       if 256 \<le> shift then Inr i256_zero
       else rbind (to_u256 self) (\<lambda>a. Inr (from_u256 (push_bit (unat shift) a))))"

definition i256_shr :: "I256 \<Rightarrow> I256 \<Rightarrow> fault + I256" where
  "i256_shr self rhs =
     rbind (to_u256 rhs) (\<lambda>shift.
       if 256 \<le> shift then Inr i256_zero
       else rbind (to_u256 self) (\<lambda>a. Inr (from_u256 (drop_bit (unat shift) a))))"

section \<open>Order\<close>

definition u256_cmp :: "U256 \<Rightarrow> U256 \<Rightarrow> Ordering" where
  "u256_cmp a b = (if a < b then Less else if a = b then Equal else Greater)"

fun reverse_ordering :: "Ordering \<Rightarrow> Ordering" where
  "reverse_ordering Less = Greater"
| "reverse_ordering Equal = Equal"
| "reverse_ordering Greater = Less"

fun i256_cmp :: "I256 \<Rightarrow> I256 \<Rightarrow> Ordering" where
  "i256_cmp (I256 True a) (I256 True b) = reverse_ordering (u256_cmp a b)"
| "i256_cmp (I256 True a) (I256 False b) = Less"
| "i256_cmp (I256 False a) (I256 True b) = Greater"
| "i256_cmp (I256 False a) (I256 False b) = u256_cmp a b"

instantiation I256 :: linorder
begin

definition less_eq_I256 :: "I256 \<Rightarrow> I256 \<Rightarrow> bool" where
  "x \<le> y \<longleftrightarrow> i256_cmp x y \<noteq> Greater"

definition less_I256 :: "I256 \<Rightarrow> I256 \<Rightarrow> bool" where
  "x < y \<longleftrightarrow> i256_cmp x y = Less"

instance
proof
  fix x y z :: I256
  show "(x < y) = (x \<le> y \<and> \<not> y \<le> x)"
    by (cases x; cases y; cases "neg_flag x"; cases "neg_flag y")
      (auto simp: less_eq_I256_def less_I256_def u256_cmp_def)
  show "x \<le> x"
    by (cases x; cases "neg_flag x") (auto simp: less_eq_I256_def u256_cmp_def)
  show "x \<le> y \<Longrightarrow> y \<le> z \<Longrightarrow> x \<le> z"
    by (cases x; cases y; cases z; cases "neg_flag x"; cases "neg_flag y"; cases "neg_flag z")
      (auto simp: less_eq_I256_def u256_cmp_def split: if_splits)
  show "x \<le> y \<Longrightarrow> y \<le> x \<Longrightarrow> x = y"
    by (cases x; cases y; cases "neg_flag x"; cases "neg_flag y")
      (auto simp: less_eq_I256_def u256_cmp_def split: if_splits)
  show "x \<le> y \<or> y \<le> x"
    by (cases x; cases y; cases "neg_flag x"; cases "neg_flag y")
      (auto simp: less_eq_I256_def u256_cmp_def)
qed

end

section \<open>What an I256 stands for\<close>

text \<open>
  \<open>i256_int\<close> is the integer of the sign and magnitude; \<open>i256_ok\<close> says that the pair is the
  canonical form of a two's complement word, which leaves out "negative zero" and magnitudes
  past the range. \<open>be_bytes\<close> is \<open>U256::to_big_endian\<close> (its last \<open>n\<close> bytes).
\<close>

definition i256_int :: "I256 \<Rightarrow> int" where
  "i256_int i = (if neg_flag i then - uint (mag i) else uint (mag i))"

definition i256_ok :: "I256 \<Rightarrow> bool" where
  "i256_ok i \<longleftrightarrow> (if neg_flag i then 0 < uint (mag i) \<and> uint (mag i) \<le> 2 ^ 255 else uint (mag i) < 2 ^ 255)"

fun be_bytes :: "nat \<Rightarrow> U256 \<Rightarrow> 8 word list" where
  "be_bytes 0 w = []"
| "be_bytes (Suc n) w = be_bytes n (drop_bit 8 w) @ [ucast w]"

section \<open>Lemmas\<close>

lemma bit_top_iff:
  fixes u :: int
  assumes "0 \<le> u" "u < 2 * 2 ^ n"
  shows "bit u n \<longleftrightarrow> 2 ^ n \<le> u"
proof (cases "u < 2 ^ n")
  case True
  then show ?thesis using assms by (simp add: bit_iff_odd)
next
  case False
  then have "u div 2 ^ n = 1" using assms by (intro int_div_pos_eq [where r = "u - 2 ^ n"]) auto
  with False show ?thesis by (simp add: bit_iff_odd)
qed

lemma sint_alt:
  "sint (w :: 'a::len word) = (if uint w < 2 ^ (LENGTH('a) - 1) then uint w else uint w - 2 ^ LENGTH('a))"
proof -
  obtain n where n: "LENGTH('a) = Suc n" by (metis len_not_eq_0 not0_implies_Suc)
  have "uint w < 2 * 2 ^ n" using uint_lt2p[of w] n by simp
  then have "bit (uint w) n \<longleftrightarrow> 2 ^ n \<le> uint w" by (intro bit_top_iff) auto
  then show ?thesis
    using \<open>uint w < 2 * 2 ^ n\<close>
    by (simp add: sint_uint n signed_take_bit_eq_take_bit_minus take_bit_int_eq_self not_le)
qed

lemma I256_MASK_eq: "I256_MASK = mask 255"
  by (simp add: I256_MASK_def mask_eq_exp_minus_1)

lemma and_I256_MASK: "val AND I256_MASK = take_bit 255 val"
  by (simp add: I256_MASK_eq take_bit_eq_mask)

lemma and_I256_MASK_eq_self: "val AND I256_MASK = val \<longleftrightarrow> uint val < 2 ^ 255"
proof -
  have "take_bit 255 val = val \<longleftrightarrow> uint (take_bit 255 val) = uint val" by (rule word_uint_eq_iff)
  also have "\<dots> \<longleftrightarrow> uint val < 2 ^ 255" by (simp add: unsigned_take_bit_eq take_bit_int_eq_self_iff)
  finally show ?thesis by (simp add: and_I256_MASK)
qed

lemma from_u256_eq:
  "from_u256 val = (if uint val < 2 ^ 255 then I256 False val else I256 True (- val))"
  by (simp add: from_u256_def Let_def and_I256_MASK_eq_self minus_eq_not_plus_1)

lemma uint_pos_iff [simp]: "0 < uint w \<longleftrightarrow> uint w \<noteq> 0"
  using uint_ge_0[of w] by linarith

lemma uint_neq_neg [simp]: "0 < k \<Longrightarrow> uint w \<noteq> - k" "0 < k \<Longrightarrow> - uint w \<noteq> k"
  using uint_ge_0[of w] by linarith+

lemma neg_uint_le [simp]: "- uint a \<le> uint b" "uint a \<le> - uint b \<longleftrightarrow> uint a = 0 \<and> uint b = 0"
  using uint_ge_0[of a] uint_ge_0[of b] by linarith+

lemma uint_not_256: "uint (NOT (w :: U256)) = 2 ^ 256 - 1 - uint w"
proof -
  have "uint (- 1 - w) = uint (- 1 :: U256) - uint w"
    using uint_sub_lem [of w "- 1"] uint_lt2p[of w] by (simp add: unsigned_minus_1_eq_mask mask_eq_exp_minus_1)
  moreover have "NOT w = - 1 - w" by (simp add: not_eq_complement)
  ultimately show ?thesis by (simp add: unsigned_minus_1_eq_mask mask_eq_exp_minus_1)
qed

lemma u256_add_not_1: "u256_add (NOT w) 1 = (if w = 0 then Inl (Panic ''arithmetic operation overflow'') else Inr (- w))"
proof -
  have "unat (NOT w) + 1 < 2 ^ 256 \<longleftrightarrow> uint (NOT w) + 1 < 2 ^ 256"
    using of_nat_less_iff [of "unat (NOT w) + 1" "2 ^ 256", where 'a = int] by simp
  also have "\<dots> \<longleftrightarrow> w \<noteq> 0" using uint_ge_0[of w] by (auto simp: uint_not_256 word_uint_eq_iff)
  finally show ?thesis by (simp add: u256_add_def minus_eq_not_plus_1)
qed

lemma uint_uminus_256: "(w :: U256) \<noteq> 0 \<Longrightarrow> uint (- w) = 2 ^ 256 - uint w"
  using uint_lt2p[of w] by (simp add: uint_word_ariths word_neq_0_conv zmod_zminus1_eq_if word_uint_eq_iff)

lemma i256_ok_from_u256 [simp]: "i256_ok (from_u256 val)"
proof (cases "uint val < 2 ^ 255")
  case False
  then have "val \<noteq> 0" by auto
  with False show ?thesis using uint_lt2p[of val]
   by (simp add: from_u256_eq i256_ok_def uint_uminus_256)
qed (simp add: from_u256_eq i256_ok_def)

lemma i256_int_from_u256 [simp]: "i256_int (from_u256 val) = sint val"
proof (cases "uint val < 2 ^ 255")
  case False
  then have "val \<noteq> 0" by auto
  with False show ?thesis
   by (simp add: from_u256_eq i256_int_def uint_uminus_256 sint_alt)
qed (simp add: from_u256_eq i256_int_def sint_alt)

lemma to_u256_simps [simp]:
  "to_u256 (I256 False m) = Inr m"
  "to_u256 (I256 True m) = (if m = 0 then Inl (Panic ''arithmetic operation overflow'') else Inr (- m))"
  by (simp_all add: to_u256_def u256_add_not_1)

lemma to_u256_from_u256 [simp]: "to_u256 (from_u256 val) = Inr val"
proof (cases "uint val < 2 ^ 255")
  case False
  then have "val \<noteq> 0" by auto
  with False show ?thesis by (simp add: from_u256_eq)
qed (simp add: from_u256_eq)

lemma i256_ok_cases:
  assumes "i256_ok i"
  obtains w where "i = from_u256 w"
proof (cases i)
  case (I256 n m)
  show thesis
  proof (cases n)
    case True
    with assms I256 have m: "m \<noteq> 0" "uint m \<le> 2 ^ 255" by (auto simp: i256_ok_def)
    then have "from_u256 (- m) = i" using True I256
      by (simp add: from_u256_eq uint_uminus_256)
    then show thesis using that by metis
  next
    case False
    with assms I256 have "from_u256 m = i" by (simp add: i256_ok_def from_u256_eq)
    then show thesis using that by metis
  qed
qed

lemma i256_ok_iff: "i256_ok i \<longleftrightarrow> (\<exists>w. i = from_u256 w)"
  by (metis i256_ok_cases i256_ok_from_u256)

lemma from_u256_inject [simp]: "from_u256 a = from_u256 b \<longleftrightarrow> a = b"
  by (metis sum.inject(2) to_u256_from_u256)

lemma i256_int_eq_0: "i256_ok i \<Longrightarrow> i256_int i = 0 \<longleftrightarrow> i256_is_zero i"
  by (auto simp: i256_int_def i256_is_zero_def word_uint_eq_iff)

lemma is_minimum_iff: "i256_ok i \<Longrightarrow> is_minimum i \<longleftrightarrow> i256_int i = - (2 ^ 255)"
proof (elim i256_ok_cases)
  fix w assume i: "i = from_u256 w"
  show "is_minimum i \<longleftrightarrow> i256_int i = - (2 ^ 255)"
  proof (cases "uint w < 2 ^ 255")
    case True
    have "uint w \<noteq> - (2 ^ 255)" by (rule uint_neq_neg) simp
    with True show ?thesis by (simp add: i from_u256_eq is_minimum_def i256_int_def)
  next
    case False
    then have nz: "w \<noteq> 0" by auto
    have b: "uint (- w) \<le> 2 ^ 255" "0 < uint (- w)"
      using False nz uint_lt2p[of w] by (auto simp: uint_uminus_256)
    have "take_bit 255 (- w) = 0 \<longleftrightarrow> uint (- w) mod 2 ^ 255 = 0"
      unfolding word_uint_eq_iff unsigned_take_bit_eq by (simp add: take_bit_eq_mod)
    also have "\<dots> \<longleftrightarrow> uint (- w) = 2 ^ 255"
    proof (cases "uint (- w) = 2 ^ 255")
      case False
      with b have "uint (- w) mod 2 ^ 255 = uint (- w)" by simp
      with b False show ?thesis by simp
    qed simp
    finally show ?thesis using False nz by (simp add: i from_u256_eq is_minimum_def and_I256_MASK i256_int_def)
  qed
qed

lemma mag_eq_1_iff: "neg_flag j \<and> mag j = 1 \<longleftrightarrow> i256_int j = - 1"
  by (auto simp: i256_int_def word_uint_eq_iff split: if_splits)

lemma i256_int_div:
  "i256_int (if neg_flag i = neg_flag j then make_positive (mag i div mag j) else make_negative (mag i div mag j))
     = i256_int i sdiv i256_int j"
  by (auto simp: i256_int_def make_positive_def make_negative_def signed_divide_int_def uint_div sgn_if)

lemma i256_int_rem:
  "i256_int (if neg_flag i then make_negative (mag i mod mag j) else make_positive (mag i mod mag j))
     = i256_int i smod i256_int j"
  by (auto simp: i256_int_def make_positive_def make_negative_def signed_modulo_int_def signed_divide_int_def uint_mod sgn_if minus_div_mult_eq_mod minus_mult_div_eq_mod)

lemma i256_le_iff: "i256_ok x \<Longrightarrow> i256_ok y \<Longrightarrow> x \<le> y \<longleftrightarrow> i256_int x \<le> i256_int y"
  by (cases x; cases y; cases "neg_flag x"; cases "neg_flag y")
    (auto simp: less_eq_I256_def i256_int_def i256_ok_def u256_cmp_def word_le_def word_less_def word_uint_eq_iff split: if_splits)

lemma be_word_snoc: "be_word (xs @ [b]) = push_bit 8 (be_word xs) OR ucast b"
  by (simp add: be_word_def)

lemma be_word_be_bytes: "be_word (be_bytes n w) = take_bit (8 * n) w"
proof (induction n arbitrary: w)
  case 0
  then show ?case by (simp add: be_word_def)
next
  case (Suc n)
  show ?case
    by (rule bit_word_eqI) (auto simp add: be_word_snoc Suc.IH bit_simps le_diff_conv)
qed

lemma length_be_bytes [simp]: "length (be_bytes n w) = n"
  by (induction n arbitrary: w) auto

lemma drop_be_bytes: "drop k (be_bytes (k + n) w) = be_bytes n w"
  by (induction n arbitrary: w) auto

lemma overflowing_ops_from_u256 [simp]:
  "overflowing_add (from_u256 a) (from_u256 b) = Inr (from_u256 (a + b), 2 ^ 256 \<le> unat a + unat b)"
  "overflowing_sub (from_u256 a) (from_u256 b) = Inr (from_u256 (a - b), a < b)"
  "overflowing_mul (from_u256 a) (from_u256 b) = Inr (from_u256 (a * b), 2 ^ 256 \<le> unat a * unat b)"
  by (simp_all add: overflowing_add_def overflowing_sub_def overflowing_mul_def)

lemma bit_ops_from_u256 [simp]:
  "i256_and (from_u256 a) (from_u256 b) = Inr (from_u256 (a AND b))"
  "i256_or (from_u256 a) (from_u256 b) = Inr (from_u256 (a OR b))"
  "i256_xor (from_u256 a) (from_u256 b) = Inr (from_u256 (a XOR b))"
  "i256_not (from_u256 a) = Inr (from_u256 (NOT a))"
  by (simp_all add: i256_and_def i256_or_def i256_xor_def i256_not_def)

lemma i256_zero_one_ok [simp]: "i256_ok i256_zero" "i256_ok i256_one"
  by (simp_all add: i256_zero_def i256_one_def)

lemma i256_neg_from_u256 [simp]: "i256_neg (from_u256 a) = Inr (from_u256 (- a))"
  by (simp add: i256_neg_def i256_one_def minus_eq_not_plus_1)

lemma i256_shifts_from_u256 [simp]:
  "i256_shl (from_u256 a) (from_u256 s) = Inr (from_u256 (if 256 \<le> s then 0 else push_bit (unat s) a))"
  "i256_shr (from_u256 a) (from_u256 s) = Inr (from_u256 (if 256 \<le> s then 0 else drop_bit (unat s) a))"
  by (simp_all add: i256_shl_def i256_shr_def i256_zero_def)

lemma i256_all_one_eq [simp]: "i256_all_one = Inr (from_u256 (- 1))"
  by (simp add: i256_all_one_def i256_zero_def i256_one_def)

lemma i256_is_zero_from_u256 [simp]: "i256_is_zero (from_u256 w) \<longleftrightarrow> w = 0"
  by (simp add: i256_is_zero_def from_u256_eq)

lemma from_u256_uint_sint: "i256_ok i \<Longrightarrow> from_u256 (word_of_int (i256_int i)) = i"
  by (auto elim!: i256_ok_cases)

lemma sint_mod_256: "sint (a :: U256) mod 2 ^ 256 = uint a"
  using uint_lt2p [of a] by (auto simp: sint_alt)

lemma u256_carry:
  "2 ^ 256 \<le> unat (a :: U256) + unat b \<longleftrightarrow> 2 ^ 256 \<le> uint a + uint b"
  "2 ^ 256 \<le> unat (a :: U256) * unat b \<longleftrightarrow> 2 ^ 256 \<le> uint a * uint b"
  using of_nat_le_iff [of "2 ^ 256" "unat a + unat b", where 'a = int]
    of_nat_le_iff [of "2 ^ 256" "unat a * unat b", where 'a = int] by simp_all

lemma i256_ok_quotient:
  assumes "i256_ok i" and "i256_ok j" and "i256_int j \<noteq> 0"
    and "\<not> (i256_int i = - (2 ^ 255) \<and> i256_int j = - 1)"
  shows "i256_ok (if neg_flag i = neg_flag j then make_positive (mag i div mag j) else make_negative (mag i div mag j))
    \<longleftrightarrow> \<not> (\<bar>i256_int i\<bar> < \<bar>i256_int j\<bar> \<and> (i256_int i < 0 \<longleftrightarrow> \<not> i256_int j < 0))"
proof -
  have neg: "i256_int i < 0 \<longleftrightarrow> neg_flag i" "i256_int j < 0 \<longleftrightarrow> neg_flag j"
    using assms(1,2) by (auto simp: i256_int_def i256_ok_def split: if_splits)
  have abs: "\<bar>i256_int i\<bar> = uint (mag i)" "\<bar>i256_int j\<bar> = uint (mag j)"
    by (simp_all add: i256_int_def)
  have j: "0 < uint (mag j)" using assms(3) by (simp add: i256_int_def split: if_splits)
  have i: "uint (mag i) \<le> 2 ^ 255" "\<not> neg_flag i \<Longrightarrow> uint (mag i) < 2 ^ 255"
    using assms(1) by (auto simp: i256_ok_def split: if_splits)
  let ?q = "uint (mag i) div uint (mag j)"
  have q: "0 \<le> ?q" "?q \<le> uint (mag i)" using j uint_ge_0 [of "mag i"] int_div_le_self [of "uint (mag i)" "uint (mag j)"]
    by (cases "uint (mag i) = 0"; simp add: pos_imp_zdiv_nonneg_iff)+
  have q0: "?q = 0 \<longleftrightarrow> uint (mag i) < uint (mag j)" using j uint_ge_0 [of "mag i"]
    by (auto simp: zdiv_eq_0_iff)
  show ?thesis
  proof (cases "neg_flag i = neg_flag j")
    case True
    have "?q < 2 ^ 255"
    proof (rule ccontr)
      assume a: "\<not> ?thesis"
      with q i have m: "uint (mag i) = 2 ^ 255" "?q = uint (mag i)" by linarith+
      moreover have "(0::int) < 2 ^ 255" by simp
      ultimately have "uint (mag j) = 1"
        using j int_div_less_self [of "uint (mag i)" "uint (mag j)"] by linarith
      with m True i(2) assms(4) show False by (auto simp: i256_int_def)
    qed
    with True show ?thesis by (simp add: make_positive_def i256_ok_def uint_div neg)
  next
    case False
    then show ?thesis using q i(1) q0 by (auto simp: make_negative_def i256_ok_def uint_div neg abs)
  qed
qed

lemma overflowing_div_value:
  assumes "i256_ok i" and "i256_ok j" and "i256_int j \<noteq> 0"
  shows "\<exists>r. overflowing_div i j = Inr (r, i256_int i = - (2 ^ 255) \<and> i256_int j = - 1)
           \<and> i256_int r = (if i256_int i = - (2 ^ 255) \<and> i256_int j = - 1 then i256_int i
                           else i256_int i sdiv i256_int j)
           \<and> (i256_ok r \<longleftrightarrow> \<not> (\<bar>i256_int i\<bar> < \<bar>i256_int j\<bar> \<and> (i256_int i < 0 \<longleftrightarrow> \<not> i256_int j < 0)))"
proof (cases "i256_int i = - (2 ^ 255) \<and> i256_int j = - 1")
  case True
  with assms mag_eq_1_iff [of j] i256_int_eq_0 [of j] show ?thesis
    by (auto simp: overflowing_div_def is_minimum_iff)
next
  case False
  let ?r = "if neg_flag i = neg_flag j then make_positive (mag i div mag j) else make_negative (mag i div mag j)"
  have "overflowing_div i j = Inr (?r, False)"
    using False assms mag_eq_1_iff [of j]
    by (auto simp: overflowing_div_def i256_int_eq_0 is_minimum_iff Let_def)
  moreover have "i256_ok ?r \<longleftrightarrow> \<not> (\<bar>i256_int i\<bar> < \<bar>i256_int j\<bar> \<and> (i256_int i < 0 \<longleftrightarrow> \<not> i256_int j < 0))"
    using i256_ok_quotient [OF assms False] by simp
  moreover note i256_int_div [of i j]
  ultimately show ?thesis using False by (intro exI [where x = ?r]) auto
qed

lemma overflowing_rem_value:
  assumes "i256_ok i" and "i256_ok j" and "i256_int j \<noteq> 0"
  shows "\<exists>r. overflowing_rem i j = Inr (r, i256_int i = - (2 ^ 255) \<and> i256_int j = - 1)
           \<and> i256_int r = i256_int i smod i256_int j
           \<and> (i256_ok r \<longleftrightarrow> \<not> (i256_int i < 0 \<and> i256_int i smod i256_int j = 0 \<and> \<not> (i256_int i = - (2 ^ 255) \<and> i256_int j = - 1)))"
proof (cases "i256_int i = - (2 ^ 255) \<and> i256_int j = - 1")
  case True
  with assms mag_eq_1_iff [of j] i256_int_eq_0 [of j] show ?thesis
    by (auto simp: overflowing_rem_def is_minimum_iff i256_zero_def signed_modulo_int_def signed_divide_int_def)
next
  case False
  let ?r = "if neg_flag i then make_negative (mag i mod mag j) else make_positive (mag i mod mag j)"
  have "overflowing_rem i j = Inr (?r, False)"
    using False assms mag_eq_1_iff [of j]
    by (auto simp: overflowing_rem_def i256_int_eq_0 is_minimum_iff Let_def)
  moreover have "i256_ok ?r \<longleftrightarrow> \<not> (i256_int i < 0 \<and> i256_int ?r = 0)"
  proof -
    have neg: "i256_int i < 0 \<longleftrightarrow> neg_flag i"
      using assms(1) by (auto simp: i256_int_def i256_ok_def split: if_splits)
    have "0 < uint (mag j)" "uint (mag j) \<le> 2 ^ 255"
      using assms(2,3) by (auto simp: i256_int_def i256_ok_def split: if_splits)
    then have "uint (mag i) mod uint (mag j) < 2 ^ 255"
      by (meson order_less_le_trans pos_mod_bound)
    then show ?thesis unfolding neg by (auto simp: i256_ok_def i256_int_def make_negative_def make_positive_def uint_mod)
  qed
  moreover note i256_int_rem [of i j]
  ultimately show ?thesis using False by (intro exI [where x = ?r]) auto
qed

section \<open>Properties\<close>

text \<open>C38: the sign-magnitude form and the two's complement word determine each other: \<open>to_u256\<close>
  reads back every word \<open>from_u256\<close> stores, the stored form stands for the signed reading of
  the word, and every canonical value is the stored form of exactly one word.\<close>
theorem i256_roundtrip:
  "to_u256 (from_u256 w) = Inr w \<and> i256_ok (from_u256 w) \<and> i256_int (from_u256 w) = sint w
   \<and> (i256_ok i \<longleftrightarrow> (\<exists>!v. from_u256 v = i))"
  by (auto simp: i256_ok_iff)

text \<open>C26: on canonical operands the overflowing operations return the canonical form of the exact
  sum, difference and product wrapped to 256 bits; the flag is the carry, borrow
  or overflow of the unsigned words, not of the signed values: \<open>-1 + 3\<close> reports an overflow.\<close>
theorem overflowing_ops_wrap:
  assumes "i256_ok i" and "i256_ok j"
  shows "(\<exists>r. i256_ok r \<and> i256_int r = signed_take_bit 255 (i256_int i + i256_int j)
            \<and> overflowing_add i j = Inr (r, 2 ^ 256 \<le> i256_int i mod 2 ^ 256 + i256_int j mod 2 ^ 256))
       \<and> (\<exists>r. i256_ok r \<and> i256_int r = signed_take_bit 255 (i256_int i - i256_int j)
            \<and> overflowing_sub i j = Inr (r, i256_int i mod 2 ^ 256 < i256_int j mod 2 ^ 256))
       \<and> (\<exists>r. i256_ok r \<and> i256_int r = signed_take_bit 255 (i256_int i * i256_int j)
            \<and> overflowing_mul i j = Inr (r, 2 ^ 256 \<le> (i256_int i mod 2 ^ 256) * (i256_int j mod 2 ^ 256)))"
proof -
  from assms obtain a b where i: "i = from_u256 a" and j: "j = from_u256 b"
    by (auto elim!: i256_ok_cases)
  show ?thesis
    using sint_mod_256 [of a] sint_mod_256 [of b] u256_carry [of a b]
    by (simp add: i j sint_word_ariths word_less_def)
qed

theorem overflowing_ops_wrap_witness:
  "i256_ok (I256 True 1) \<and> i256_ok (I256 False 3)
   \<and> (\<exists>r. i256_ok r \<and> i256_int r = 2 \<and> overflowing_add (I256 True 1) (I256 False 3) = Inr (r, True))"
proof -
  have ok: "i256_ok (I256 True 1)" "i256_ok (I256 False 3)" by (simp_all add: i256_ok_def)
  from overflowing_ops_wrap [OF ok] ok show ?thesis
    by (simp add: i256_int_def signed_take_bit_int_eq_self)
qed

text \<open>C27: division by zero panics. Otherwise signed division truncates toward zero, with the one
  overflow \<open>MIN / -1\<close> returning its dividend. The sign of the result is set from the operands
  alone, so a quotient that rounds to zero with operands of opposite sign is the non-canonical
  negative zero.\<close>
theorem overflowing_div_correct:
  assumes "i256_ok i" and "i256_ok j"
  shows "(i256_int j = 0 \<longrightarrow> overflowing_div i j = Inl (Panic ''attempt to divide by zero''))
       \<and> (i256_int j \<noteq> 0 \<longrightarrow>
           (\<exists>r. overflowing_div i j = Inr (r, i256_int i = - (2 ^ 255) \<and> i256_int j = - 1)
             \<and> i256_int r = (if i256_int i = - (2 ^ 255) \<and> i256_int j = - 1 then i256_int i
                             else i256_int i sdiv i256_int j)
             \<and> (i256_ok r \<longleftrightarrow> \<not> (\<bar>i256_int i\<bar> < \<bar>i256_int j\<bar> \<and> (i256_int i < 0 \<longleftrightarrow> \<not> i256_int j < 0)))))"
proof (intro conjI impI)
  assume "i256_int j = 0"
  then show "overflowing_div i j = Inl (Panic ''attempt to divide by zero'')"
    using i256_int_eq_0 [OF assms(2)] by (simp add: overflowing_div_def)
qed (rule overflowing_div_value [OF assms])

theorem overflowing_div_correct_witness:
  "overflowing_div (I256 True 7) (I256 False 0) = Inl (Panic ''attempt to divide by zero'')
   \<and> overflowing_div (I256 True 7) (I256 False 2) = Inr (I256 True 3, False)
   \<and> (\<exists>r. overflowing_div (I256 True 7) (I256 False 2) = Inr (r, False) \<and> i256_int r = - 7 sdiv 2)"
proof -
  have ok: "i256_ok (I256 True 7)" "i256_ok (I256 False 2)" "i256_ok (I256 False 0)"
    by (simp_all add: i256_ok_def)
  have "i256_int (I256 True 7) = - 7" "i256_int (I256 False 2) = 2" "i256_int (I256 False 0) = 0"
    by (simp_all add: i256_int_def)
  with overflowing_div_correct [OF ok(1,2)] overflowing_div_correct [OF ok(1,3)] show ?thesis
    by (simp add: overflowing_div_def i256_is_zero_def is_minimum_def make_negative_def)
qed

text \<open>C30: the remainder has the sign of the dividend and is the truncated remainder; \<open>MIN % -1\<close>
  reports overflow and returns zero. A negative dividend that divides evenly leaves the
  non-canonical negative zero.\<close>
theorem overflowing_rem_correct:
  assumes "i256_ok i" and "i256_ok j" and "i256_int j \<noteq> 0"
  shows "\<exists>r. overflowing_rem i j = Inr (r, i256_int i = - (2 ^ 255) \<and> i256_int j = - 1)
           \<and> i256_int r = i256_int i smod i256_int j
           \<and> (i256_ok r \<longleftrightarrow> \<not> (i256_int i < 0 \<and> i256_int i smod i256_int j = 0 \<and> \<not> (i256_int i = - (2 ^ 255) \<and> i256_int j = - 1)))"
  using assms by (rule overflowing_rem_value)

theorem overflowing_rem_correct_witness:
  "\<exists>r. overflowing_rem (I256 True 7) (I256 False 2) = Inr (r, False) \<and> i256_int r = - 1"
proof -
  have ok: "i256_ok (I256 True 7)" "i256_ok (I256 False 2)" "i256_int (I256 False 2) \<noteq> 0"
    by (simp_all add: i256_ok_def i256_int_def)
  have "i256_int (I256 True 7) = - 7" "i256_int (I256 False 2) = 2" by (simp_all add: i256_int_def)
  with overflowing_rem_correct [OF ok] show ?thesis
    by (auto simp: signed_modulo_int_def signed_divide_int_def)
qed

text \<open>On canonical values the derived order is the order of the integers, and comparing equal
  is being equal.\<close>
theorem i256_order:
  assumes "i256_ok i" and "i256_ok j"
  shows "(i \<le> j \<longleftrightarrow> i256_int i \<le> i256_int j) \<and> (i < j \<longleftrightarrow> i256_int i < i256_int j)
       \<and> (i256_cmp i j = Equal \<longleftrightarrow> i256_int i = i256_int j) \<and> (i = j \<longleftrightarrow> i256_int i = i256_int j)"
proof -
  have eq: "i = j \<longleftrightarrow> i256_int i = i256_int j"
    using assms by (metis from_u256_uint_sint)
  have "i256_cmp i j = Equal \<longleftrightarrow> i = j"
    by (cases i; cases j; cases "neg_flag i"; cases "neg_flag j") (auto simp: u256_cmp_def)
  then show ?thesis using assms eq i256_le_iff [of i j] i256_le_iff [of j i]
    by (auto simp: less_le_not_le)
qed

theorem i256_order_witness: "I256 True 5 < I256 False 2 \<and> I256 True 5 < I256 True 4"
proof -
  have ok: "i256_ok (I256 True 5)" "i256_ok (I256 False 2)" "i256_ok (I256 True 4)"
    by (simp_all add: i256_ok_def)
  show ?thesis using i256_order [OF ok(1) ok(2)] i256_order [OF ok(1) ok(3)]
    by (simp add: i256_int_def)
qed

text \<open>Reading back the big-endian bytes of a word, or the little-endian ones, gives the value
  the word stands for; more than 32 bytes panic.\<close>
theorem i256_bytes_roundtrip:
  "from_be_bytes (be_bytes 32 w) = Inr (from_u256 w)
   \<and> from_le_bytes (rev (be_bytes 32 w)) = Inr (from_u256 w)
   \<and> (from_be_bytes bs = Inl (Panic ''slice longer than 32 bytes'') \<longleftrightarrow> 32 < length bs)"
proof -
  have "take_bit 256 w = w"
    by (rule bit_word_eqI) (simp add: bit_simps)
  then show ?thesis
    by (simp add: from_be_bytes_def from_le_bytes_def be_word_be_bytes assert_that_def)
qed

end
