(* ===== verification/Layout.thy ===== *)
theory Layout
  imports Sonatina_Prelude
begin

text \<open>
  \<open>crates/ir/src/layout.rs\<close>: the order of the blocks of a function and of the instructions of
  each block, kept as doubly linked lists threaded through two \<open>SecondaryMap\<close>s. The lists the
  pointers stand for are the abstraction: \<open>layout_view l bs ins\<close> says that \<open>l\<close> holds the blocks \<open>bs\<close>
  in this order, and in each block \<open>b\<close> the instructions \<open>ins b\<close>.
\<close>

section \<open>The layout and its operations\<close>

record BlockNode =
  b_prev :: "BlockId option"
  b_next :: "BlockId option"
  first_inst :: "InstId option"
  last_inst :: "InstId option"

record InstNode =
  i_block :: "BlockId option"
  i_prev :: "InstId option"
  i_next :: "InstId option"

record Layout =
  blocks :: "BlockId \<Rightarrow> BlockNode"
  insts :: "InstId \<Rightarrow> InstNode"
  entry_block :: "BlockId option"
  last_block :: "BlockId option"

definition block_node_default :: BlockNode where
  "block_node_default = \<lparr>b_prev = None, b_next = None, first_inst = None, last_inst = None\<rparr>"

definition inst_node_default :: InstNode where
  "inst_node_default = \<lparr>i_block = None, i_prev = None, i_next = None\<rparr>"

definition inst_node_with_block :: "BlockId \<Rightarrow> InstNode" where
  "inst_node_with_block block = \<lparr>i_block = Some block, i_prev = None, i_next = None\<rparr>"

definition layout_new :: Layout where
  "layout_new = \<lparr>blocks = (\<lambda>_. block_node_default), insts = (\<lambda>_. inst_node_default),
                 entry_block = None, last_block = None\<rparr>"

definition is_block_inserted :: "Layout \<Rightarrow> BlockId \<Rightarrow> bool" where
  "is_block_inserted l block \<longleftrightarrow> Some block = entry_block l \<or> blocks l block \<noteq> block_node_default"

definition is_inst_inserted :: "Layout \<Rightarrow> InstId \<Rightarrow> bool" where
  "is_inst_inserted l inst \<longleftrightarrow> insts l inst \<noteq> inst_node_default"

definition is_last_block :: "Layout \<Rightarrow> BlockId \<Rightarrow> bool" where
  "is_last_block l block \<longleftrightarrow> last_block l = Some block"

definition prev_block_of :: "Layout \<Rightarrow> BlockId \<Rightarrow> fault + BlockId option" where
  "prev_block_of l block = rbind (assert_that (is_block_inserted l block) ''block not inserted'')
     (\<lambda>_. Inr (b_prev (blocks l block)))"

definition next_block_of :: "Layout \<Rightarrow> BlockId \<Rightarrow> fault + BlockId option" where
  "next_block_of l block = rbind (assert_that (is_block_inserted l block) ''block not inserted'')
     (\<lambda>_. Inr (b_next (blocks l block)))"

definition first_inst_of :: "Layout \<Rightarrow> BlockId \<Rightarrow> fault + InstId option" where
  "first_inst_of l block = rbind (assert_that (is_block_inserted l block) ''block not inserted'')
     (\<lambda>_. Inr (first_inst (blocks l block)))"

definition last_inst_of :: "Layout \<Rightarrow> BlockId \<Rightarrow> fault + InstId option" where
  "last_inst_of l block = rbind (assert_that (is_block_inserted l block) ''block not inserted'')
     (\<lambda>_. Inr (last_inst (blocks l block)))"

definition is_block_empty :: "Layout \<Rightarrow> BlockId \<Rightarrow> fault + bool" where
  "is_block_empty l block = rbind (first_inst_of l block) (\<lambda>i. Inr (i = None))"

definition inst_block :: "Layout \<Rightarrow> InstId \<Rightarrow> fault + BlockId" where
  "inst_block l inst = rbind (assert_that (is_inst_inserted l inst) ''inst not inserted'')
     (\<lambda>_. unwrap (i_block (insts l inst)))"

definition is_first_inst :: "Layout \<Rightarrow> InstId \<Rightarrow> fault + bool" where
  "is_first_inst l inst = rbind (inst_block l inst) (\<lambda>block.
     rbind (first_inst_of l block) (\<lambda>i. Inr (i = Some inst)))"

definition prev_inst_of :: "Layout \<Rightarrow> InstId \<Rightarrow> fault + InstId option" where
  "prev_inst_of l inst = rbind (assert_that (is_inst_inserted l inst) ''inst not inserted'')
     (\<lambda>_. Inr (i_prev (insts l inst)))"

definition next_inst_of :: "Layout \<Rightarrow> InstId \<Rightarrow> fault + InstId option" where
  "next_inst_of l inst = rbind (assert_that (is_inst_inserted l inst) ''inst not inserted'')
     (\<lambda>_. Inr (i_next (insts l inst)))"

text \<open>Writes through \<open>&mut self.blocks[b]\<close> and \<open>&mut self.insts[i]\<close>.\<close>

definition upd_block :: "BlockId \<Rightarrow> (BlockNode \<Rightarrow> BlockNode) \<Rightarrow> Layout \<Rightarrow> Layout" where
  "upd_block b f l = l\<lparr>blocks := (blocks l)(b := f (blocks l b))\<rparr>"

definition upd_inst :: "InstId \<Rightarrow> (InstNode \<Rightarrow> InstNode) \<Rightarrow> Layout \<Rightarrow> Layout" where
  "upd_inst i f l = l\<lparr>insts := (insts l)(i := f (insts l i))\<rparr>"

definition append_block :: "BlockId \<Rightarrow> (Layout, unit) op" where
  "append_block block l =
     rbind (assert_that (\<not> is_block_inserted l block) ''block already inserted'') (\<lambda>_.
       let node = block_node_default;
           (l, node) = (case last_block l of
               Some lb \<Rightarrow> (upd_block lb (\<lambda>n. n\<lparr>b_next := Some block\<rparr>) l, node\<lparr>b_prev := Some lb\<rparr>)
             | None \<Rightarrow> (l\<lparr>entry_block := Some block\<rparr>, node));
           l = upd_block block (\<lambda>_. node) l
       in Inr ((), l\<lparr>last_block := Some block\<rparr>))"

definition insert_block_before :: "BlockId \<Rightarrow> BlockId \<Rightarrow> (Layout, unit) op" where
  "insert_block_before block before l =
     rbind (assert_that (is_block_inserted l before) ''before not inserted'') (\<lambda>_.
     rbind (assert_that (\<not> is_block_inserted l block) ''block already inserted'') (\<lambda>_.
       let node = block_node_default;
           (l, node) = (case b_prev (blocks l before) of
               Some prev \<Rightarrow> (upd_block prev (\<lambda>n. n\<lparr>b_next := Some block\<rparr>) l, node\<lparr>b_prev := Some prev\<rparr>)
             | None \<Rightarrow> (l\<lparr>entry_block := Some block\<rparr>, node));
           node = node\<lparr>b_next := Some before\<rparr>;
           l = upd_block before (\<lambda>n. n\<lparr>b_prev := Some block\<rparr>) l
       in Inr ((), upd_block block (\<lambda>_. node) l)))"

definition insert_block_after :: "BlockId \<Rightarrow> BlockId \<Rightarrow> (Layout, unit) op" where
  "insert_block_after block after l =
     rbind (assert_that (is_block_inserted l after) ''after not inserted'') (\<lambda>_.
     rbind (assert_that (\<not> is_block_inserted l block) ''block already inserted'') (\<lambda>_.
       let node = block_node_default;
           (l, node) = (case b_next (blocks l after) of
               Some nxt \<Rightarrow> (upd_block nxt (\<lambda>n. n\<lparr>b_prev := Some block\<rparr>) l, node\<lparr>b_next := Some nxt\<rparr>)
             | None \<Rightarrow> (l\<lparr>last_block := Some block\<rparr>, node));
           node = node\<lparr>b_prev := Some after\<rparr>;
           l = upd_block after (\<lambda>n. n\<lparr>b_next := Some block\<rparr>) l
       in Inr ((), upd_block block (\<lambda>_. node) l)))"

definition remove_block :: "BlockId \<Rightarrow> (Layout, unit) op" where
  "remove_block block l =
     rbind (assert_that (is_block_inserted l block) ''block not inserted'') (\<lambda>_.
       let l = (case (b_prev (blocks l block), b_next (blocks l block)) of
               (Some prev, Some nxt) \<Rightarrow>
                 upd_block nxt (\<lambda>n. n\<lparr>b_prev := Some prev\<rparr>) (upd_block prev (\<lambda>n. n\<lparr>b_next := Some nxt\<rparr>) l)
             | (Some prev, None) \<Rightarrow> (upd_block prev (\<lambda>n. n\<lparr>b_next := None\<rparr>) l)\<lparr>last_block := Some prev\<rparr>
             | (None, Some nxt) \<Rightarrow> (upd_block nxt (\<lambda>n. n\<lparr>b_prev := None\<rparr>) l)\<lparr>entry_block := Some nxt\<rparr>
             | (None, None) \<Rightarrow> l\<lparr>entry_block := None, last_block := None\<rparr>)
       in Inr ((), upd_block block (\<lambda>_. block_node_default) l))"

definition append_inst :: "InstId \<Rightarrow> BlockId \<Rightarrow> (Layout, unit) op" where
  "append_inst inst block l =
     rbind (assert_that (is_block_inserted l block) ''block not inserted'') (\<lambda>_.
     rbind (assert_that (\<not> is_inst_inserted l inst) ''inst already inserted'') (\<lambda>_.
       let node = inst_node_with_block block;
           (l, node) = (case last_inst (blocks l block) of
               Some li \<Rightarrow> (upd_inst li (\<lambda>n. n\<lparr>i_next := Some inst\<rparr>) l, node\<lparr>i_prev := Some li\<rparr>)
             | None \<Rightarrow> (upd_block block (\<lambda>n. n\<lparr>first_inst := Some inst\<rparr>) l, node));
           l = upd_block block (\<lambda>n. n\<lparr>last_inst := Some inst\<rparr>) l
       in Inr ((), upd_inst inst (\<lambda>_. node) l)))"

definition prepend_inst :: "InstId \<Rightarrow> BlockId \<Rightarrow> (Layout, unit) op" where
  "prepend_inst inst block l =
     rbind (assert_that (is_block_inserted l block) ''block not inserted'') (\<lambda>_.
     rbind (assert_that (\<not> is_inst_inserted l inst) ''inst already inserted'') (\<lambda>_.
       let node = inst_node_with_block block;
           (l, node) = (case first_inst (blocks l block) of
               Some fi \<Rightarrow> (upd_inst fi (\<lambda>n. n\<lparr>i_prev := Some inst\<rparr>) l, node\<lparr>i_next := Some fi\<rparr>)
             | None \<Rightarrow> (upd_block block (\<lambda>n. n\<lparr>last_inst := Some inst\<rparr>) l, node));
           l = upd_block block (\<lambda>n. n\<lparr>first_inst := Some inst\<rparr>) l
       in Inr ((), upd_inst inst (\<lambda>_. node) l)))"

definition insert_inst_before :: "InstId \<Rightarrow> InstId \<Rightarrow> (Layout, unit) op" where
  "insert_inst_before inst before l =
     rbind (assert_that (is_inst_inserted l before) ''before not inserted'') (\<lambda>_.
     rbind (assert_that (\<not> is_inst_inserted l inst) ''inst already inserted'') (\<lambda>_.
     rbind (unwrap (i_block (insts l before))) (\<lambda>block.
       let node = inst_node_with_block block;
           (l, node) = (case i_prev (insts l before) of
               Some prev \<Rightarrow> (upd_inst prev (\<lambda>n. n\<lparr>i_next := Some inst\<rparr>) l, node\<lparr>i_prev := Some prev\<rparr>)
             | None \<Rightarrow> (upd_block block (\<lambda>n. n\<lparr>first_inst := Some inst\<rparr>) l, node));
           node = node\<lparr>i_next := Some before\<rparr>;
           l = upd_inst before (\<lambda>n. n\<lparr>i_prev := Some inst\<rparr>) l
       in Inr ((), upd_inst inst (\<lambda>_. node) l))))"

definition insert_inst_after :: "InstId \<Rightarrow> InstId \<Rightarrow> (Layout, unit) op" where
  "insert_inst_after inst after l =
     rbind (assert_that (is_inst_inserted l after) ''after not inserted'') (\<lambda>_.
     rbind (assert_that (\<not> is_inst_inserted l inst) ''inst already inserted'') (\<lambda>_.
     rbind (unwrap (i_block (insts l after))) (\<lambda>block.
       let node = inst_node_with_block block;
           (l, node) = (case i_next (insts l after) of
               Some nxt \<Rightarrow> (upd_inst nxt (\<lambda>n. n\<lparr>i_prev := Some inst\<rparr>) l, node\<lparr>i_next := Some nxt\<rparr>)
             | None \<Rightarrow> (upd_block block (\<lambda>n. n\<lparr>last_inst := Some inst\<rparr>) l, node));
           node = node\<lparr>i_prev := Some after\<rparr>;
           l = upd_inst after (\<lambda>n. n\<lparr>i_next := Some inst\<rparr>) l
       in Inr ((), upd_inst inst (\<lambda>_. node) l))))"

definition remove_inst :: "InstId \<Rightarrow> (Layout, unit) op" where
  "remove_inst inst l =
     rbind (assert_that (is_inst_inserted l inst) ''inst not inserted'') (\<lambda>_.
     rbind (unwrap (i_block (insts l inst))) (\<lambda>block.
       let l = (case (i_prev (insts l inst), i_next (insts l inst)) of
               (Some prev, Some nxt) \<Rightarrow>
                 upd_inst nxt (\<lambda>n. n\<lparr>i_prev := Some prev\<rparr>) (upd_inst prev (\<lambda>n. n\<lparr>i_next := Some nxt\<rparr>) l)
             | (Some prev, None) \<Rightarrow>
                 upd_block block (\<lambda>n. n\<lparr>last_inst := Some prev\<rparr>) (upd_inst prev (\<lambda>n. n\<lparr>i_next := None\<rparr>) l)
             | (None, Some nxt) \<Rightarrow>
                 upd_block block (\<lambda>n. n\<lparr>first_inst := Some nxt\<rparr>) (upd_inst nxt (\<lambda>n. n\<lparr>i_prev := None\<rparr>) l)
             | (None, None) \<Rightarrow> upd_block block (\<lambda>n. n\<lparr>first_inst := None, last_inst := None\<rparr>) l)
       in Inr ((), upd_inst inst (\<lambda>_. inst_node_default) l)))"

text \<open>The iterators: one \<open>next()\<close> call, and what a \<open>collect\<close> of all of them gives when it ends.\<close>

definition block_iter_next :: "Layout \<Rightarrow> BlockId option \<Rightarrow> (BlockId \<times> BlockId option) option" where
  "block_iter_next l nxt = (case nxt of None \<Rightarrow> None | Some b \<Rightarrow> Some (b, b_next (blocks l b)))"

definition inst_iter_next :: "Layout \<Rightarrow> InstId option \<Rightarrow> (InstId \<times> InstId option) option" where
  "inst_iter_next l nxt = (case nxt of None \<Rightarrow> None | Some i \<Rightarrow> Some (i, i_next (insts l i)))"

partial_function (option) collect_iter :: "('st \<Rightarrow> ('a \<times> 'st) option) \<Rightarrow> 'st \<Rightarrow> 'a list option" where
  "collect_iter step st =
     (case step st of
        None \<Rightarrow> Some []
      | Some (x, st') \<Rightarrow> Option.bind (collect_iter step st') (\<lambda>xs. Some (x # xs)))"

definition iter_block :: "Layout \<Rightarrow> BlockId list option" where
  "iter_block l = collect_iter (block_iter_next l) (entry_block l)"

definition iter_inst :: "Layout \<Rightarrow> BlockId \<Rightarrow> fault + InstId list option" where
  "iter_inst l block = rbind (assert_that (is_block_inserted l block) ''block not inserted'')
     (\<lambda>_. Inr (collect_iter (inst_iter_next l) (first_inst (blocks l block))))"

section \<open>Doubly linked lists\<close>

definition hd_opt :: "'a list \<Rightarrow> 'a option" where
  "hd_opt xs = (case xs of [] \<Rightarrow> None | x # _ \<Rightarrow> Some x)"

definition last_opt :: "'a list \<Rightarrow> 'a option" where
  "last_opt xs = (if xs = [] then None else Some (last xs))"

lemma hd_opt_simps [simp]: "hd_opt [] = None" "hd_opt (x # xs) = Some x"
  by (simp_all add: hd_opt_def)

lemma last_opt_simps [simp]: "last_opt [] = None" "last_opt (xs @ [x]) = Some x" "last_opt [x] = Some x"
  "last_opt (xs @ x # y # ys) = last_opt (y # ys)" "last_opt (x # y # ys) = last_opt (y # ys)"
  by (simp_all add: last_opt_def)

lemma hd_opt_append: "hd_opt (xs @ ys) = (if xs = [] then hd_opt ys else hd_opt xs)"
  by (cases xs) simp_all

lemma last_opt_append: "last_opt (xs @ ys) = (if ys = [] then last_opt xs else last_opt ys)"
  by (simp add: last_opt_def)

lemma hd_opt_Some: "hd_opt xs = Some x \<longleftrightarrow> (\<exists>ys. xs = x # ys)"
  by (cases xs) auto

lemma last_opt_Some: "last_opt xs = Some x \<longleftrightarrow> (\<exists>ys. xs = ys @ [x])"
  by (cases xs rule: rev_cases) auto

lemma hd_opt_None [simp]: "hd_opt xs = None \<longleftrightarrow> xs = []"
  by (cases xs) auto

lemma last_opt_None [simp]: "last_opt xs = None \<longleftrightarrow> xs = []"
  by (cases xs rule: rev_cases) auto

text \<open>\<open>links nx pv p xs q\<close>: from a predecessor \<open>p\<close> to a successor \<open>q\<close>, the pointers run through \<open>xs\<close>.\<close>

fun links :: "('a \<Rightarrow> 'a option) \<Rightarrow> ('a \<Rightarrow> 'a option) \<Rightarrow> 'a option \<Rightarrow> 'a list \<Rightarrow> 'a option \<Rightarrow> bool" where
  "links nx pv p [] q \<longleftrightarrow> True"
| "links nx pv p (x # xs) q \<longleftrightarrow>
     pv x = p \<and> nx x = (case xs of [] \<Rightarrow> q | y # _ \<Rightarrow> Some y) \<and> links nx pv (Some x) xs q"

definition dll :: "('a \<Rightarrow> 'a option) \<Rightarrow> ('a \<Rightarrow> 'a option) \<Rightarrow> 'a list \<Rightarrow> bool" where
  "dll nx pv xs \<longleftrightarrow> distinct xs \<and> links nx pv None xs None"

lemma links_append:
  "links nx pv p (xs @ ys) q \<longleftrightarrow>
     links nx pv p xs (if ys = [] then q else hd_opt ys) \<and> links nx pv (if xs = [] then p else last_opt xs) ys q"
  by (induction nx pv p xs q rule: links.induct) (auto simp: last_opt_def split: list.splits)

lemma links_cong:
  "(\<And>x. x \<in> set xs \<Longrightarrow> nx x = nx' x \<and> pv x = pv' x) \<Longrightarrow> links nx pv p xs q \<longleftrightarrow> links nx' pv' p xs q"
  by (induction nx pv p xs q rule: links.induct) auto

lemma links_change_tail:
  assumes "links nx pv p xs q" "distinct xs"
    and "\<And>x. x \<in> set xs \<Longrightarrow> pv' x = pv x" "\<And>x. x \<in> set xs \<Longrightarrow> last_opt xs \<noteq> Some x \<Longrightarrow> nx' x = nx x"
    and "\<And>x. last_opt xs = Some x \<Longrightarrow> nx' x = q'"
  shows "links nx' pv' p xs q'"
proof (cases xs rule: rev_cases)
  case (snoc ys y)
  with assms(2-4) have "nx x = nx' x \<and> pv x = pv' x" if "x \<in> set ys" for x using that by fastforce
  then have "links nx pv p ys (Some y) \<longleftrightarrow> links nx' pv' p ys (Some y)" by (rule links_cong)
  with snoc assms(1,3,5) show ?thesis by (simp add: links_append)
qed simp

lemma links_change_head:
  assumes "links nx pv p xs q" "distinct xs"
    and "\<And>x. x \<in> set xs \<Longrightarrow> nx' x = nx x" "\<And>x. x \<in> set xs \<Longrightarrow> hd_opt xs \<noteq> Some x \<Longrightarrow> pv' x = pv x"
    and "\<And>x. hd_opt xs = Some x \<Longrightarrow> pv' x = p'"
  shows "links nx' pv' p' xs q"
proof (cases xs)
  case (Cons x ys)
  with assms(2-4) have "nx y = nx' y \<and> pv y = pv' y" if "y \<in> set ys" for y using that by fastforce
  then have "links nx pv (Some x) ys q \<longleftrightarrow> links nx' pv' (Some x) ys q" by (rule links_cong)
  with Cons assms(1,3,5) show ?thesis by simp
qed simp

lemma dll_Nil [simp]: "dll nx pv []"
  by (simp add: dll_def)

lemma dll_nth: "dll nx pv (as @ x # bs) \<Longrightarrow> nx x = hd_opt bs \<and> pv x = last_opt as"
  by (auto simp: dll_def links_append hd_opt_def split: list.splits)

lemma dll_insertI:
  assumes "dll nx pv (as @ bs)" and "x \<notin> set (as @ bs)"
    and "nx' x = hd_opt bs" "pv' x = last_opt as"
    and "\<And>a. last_opt as = Some a \<Longrightarrow> nx' a = Some x" "\<And>b. hd_opt bs = Some b \<Longrightarrow> pv' b = Some x"
    and nx: "\<And>y. y \<in> set (as @ bs) \<Longrightarrow> last_opt as \<noteq> Some y \<Longrightarrow> nx' y = nx y"
    and pv: "\<And>y. y \<in> set (as @ bs) \<Longrightarrow> hd_opt bs \<noteq> Some y \<Longrightarrow> pv' y = pv y"
  shows "dll nx' pv' (as @ x # bs)"
proof -
  from assms(1) have d: "distinct as" "distinct bs" "set as \<inter> set bs = {}"
    and l: "links nx pv None as (if bs = [] then None else hd_opt bs)" "links nx pv (if as = [] then None else last_opt as) bs None"
    by (auto simp: dll_def links_append)
  have "links nx' pv' None as (Some x)"
    using d(3) by (intro links_change_tail [OF l(1) d(1)] pv nx assms(5)) (auto simp: hd_opt_Some)
  moreover have "links nx' pv' (Some x) bs None"
    using d(3) by (intro links_change_head [OF l(2) d(2)] pv nx assms(6)) (auto simp: last_opt_Some)
  ultimately show ?thesis
    using assms(2-4) d unfolding dll_def links_append
    by (cases bs; cases as) auto
qed

lemma dll_removeI:
  assumes "dll nx pv (as @ x # bs)"
    and "\<And>a. last_opt as = Some a \<Longrightarrow> nx' a = hd_opt bs" "\<And>b. hd_opt bs = Some b \<Longrightarrow> pv' b = last_opt as"
    and nx: "\<And>y. y \<in> set (as @ bs) \<Longrightarrow> last_opt as \<noteq> Some y \<Longrightarrow> nx' y = nx y"
    and pv: "\<And>y. y \<in> set (as @ bs) \<Longrightarrow> hd_opt bs \<noteq> Some y \<Longrightarrow> pv' y = pv y"
  shows "dll nx' pv' (as @ bs)"
proof -
  from assms(1) have d: "distinct as" "distinct bs" "set as \<inter> set bs = {}"
    and l: "links nx pv None as (Some x)" "links nx pv (Some x) bs None"
    by (auto simp: dll_def links_append)
  have "links nx' pv' None as (hd_opt bs)"
    using d(3) by (intro links_change_tail [OF l(1) d(1)] pv nx assms(2)) (auto simp: hd_opt_Some)
  moreover have "links nx' pv' (last_opt as) bs None"
    using d(3) by (intro links_change_head [OF l(2) d(2)] pv nx assms(3)) (auto simp: last_opt_Some)
  ultimately show ?thesis
    using d unfolding dll_def links_append by auto
qed

lemma dll_cong: "(\<And>x. x \<in> set xs \<Longrightarrow> nx x = nx' x \<and> pv x = pv' x) \<Longrightarrow> dll nx pv xs \<longleftrightarrow> dll nx' pv' xs"
  unfolding dll_def using links_cong by metis

section \<open>The lists behind the pointers\<close>

definition blocks_view :: "Layout \<Rightarrow> BlockId list \<Rightarrow> bool" where
  "blocks_view l bs \<longleftrightarrow>
     dll (\<lambda>b. b_next (blocks l b)) (\<lambda>b. b_prev (blocks l b)) bs
   \<and> entry_block l = hd_opt bs \<and> last_block l = last_opt bs
   \<and> (\<forall>b. b \<notin> set bs \<longrightarrow> blocks l b = block_node_default)"

definition insts_view :: "Layout \<Rightarrow> (BlockId \<Rightarrow> InstId list) \<Rightarrow> bool" where
  "insts_view l ins \<longleftrightarrow>
     (\<forall>b. dll (\<lambda>i. i_next (insts l i)) (\<lambda>i. i_prev (insts l i)) (ins b)
        \<and> first_inst (blocks l b) = hd_opt (ins b) \<and> last_inst (blocks l b) = last_opt (ins b))
   \<and> (\<forall>i b. i_block (insts l i) = Some b \<longleftrightarrow> i \<in> set (ins b))
   \<and> (\<forall>i. i_block (insts l i) = None \<longrightarrow> insts l i = inst_node_default)"

definition layout_view :: "Layout \<Rightarrow> BlockId list \<Rightarrow> (BlockId \<Rightarrow> InstId list) \<Rightarrow> bool" where
  "layout_view l bs ins \<longleftrightarrow> blocks_view l bs \<and> insts_view l ins"

lemma layout_view_new: "layout_view layout_new [] (\<lambda>_. [])"
  by (simp add: layout_view_def blocks_view_def insts_view_def layout_new_def block_node_default_def inst_node_default_def)

lemma blocks_view_inserted: "blocks_view l bs \<Longrightarrow> is_block_inserted l b \<longleftrightarrow> b \<in> set bs"
proof
  assume v: "blocks_view l bs" and b: "b \<in> set bs"
  then obtain xs ys where bs: "bs = xs @ b # ys" by (meson split_list)
  with v have "b_prev (blocks l b) = last_opt xs" "entry_block l = hd_opt bs"
    by (auto simp: blocks_view_def dest: dll_nth)
  with bs show "is_block_inserted l b"
    by (cases xs rule: rev_cases) (auto simp: is_block_inserted_def block_node_default_def)
next
  assume v: "blocks_view l bs" and b: "is_block_inserted l b"
  show "b \<in> set bs"
  proof (rule ccontr)
    assume n: "b \<notin> set bs"
    from v n have d: "blocks l b = block_node_default" and e: "entry_block l = hd_opt bs"
      by (simp_all add: blocks_view_def)
    from b have "hd_opt bs = Some b" unfolding is_block_inserted_def d e by (metis (no_types))
    with n show False by (auto simp: hd_opt_Some)
  qed
qed

lemma insts_view_inserted:
  assumes "insts_view l ins"
  shows "is_inst_inserted l i \<longleftrightarrow> (\<exists>b. i \<in> set (ins b))"
proof (cases "i_block (insts l i)")
  case None
  with assms show ?thesis unfolding insts_view_def is_inst_inserted_def by (metis option.distinct(1))
next
  case (Some b)
  with assms have "i \<in> set (ins b)" by (simp add: insts_view_def)
  with Some show ?thesis by (auto simp: is_inst_inserted_def inst_node_default_def)
qed

lemma blocks_view_nth:
  "blocks_view l (xs @ b # ys) \<Longrightarrow> b_next (blocks l b) = hd_opt ys \<and> b_prev (blocks l b) = last_opt xs"
  unfolding blocks_view_def by (blast dest: dll_nth)

lemma insts_view_nth:
  "insts_view l ins \<Longrightarrow> ins b = xs @ i # ys \<Longrightarrow>
     i_next (insts l i) = hd_opt ys \<and> i_prev (insts l i) = last_opt xs \<and> i_block (insts l i) = Some b"
  unfolding insts_view_def by (metis dll_nth in_set_conv_decomp)

text \<open>What of the state each view depends on.\<close>

lemma blocks_viewI:
  assumes "dll (\<lambda>b. b_next (blocks l b)) (\<lambda>b. b_prev (blocks l b)) bs"
    and "entry_block l = hd_opt bs" "last_block l = last_opt bs"
    and "\<And>b. b \<notin> set bs \<Longrightarrow> blocks l b = block_node_default"
  shows "blocks_view l bs"
  using assms by (simp add: blocks_view_def)

lemma insts_view_same:
  assumes "insts_view l ins" "insts l' = insts l"
    and "\<And>b. first_inst (blocks l' b) = first_inst (blocks l b) \<and> last_inst (blocks l' b) = last_inst (blocks l b)"
  shows "insts_view l' ins"
  using assms by (simp add: insts_view_def)

lemma blocks_view_same:
  assumes "blocks_view l bs" "entry_block l' = entry_block l" "last_block l' = last_block l"
    and "\<And>b. b_next (blocks l' b) = b_next (blocks l b) \<and> b_prev (blocks l' b) = b_prev (blocks l b)"
    and "\<And>b. b \<notin> set bs \<Longrightarrow> blocks l' b = blocks l b"
  shows "blocks_view l' bs"
  using assms by (simp add: blocks_view_def)

lemma insert_block_view:
  assumes v: "layout_view l (xs @ ys) ins" and b: "b \<notin> set (xs @ ys)"
    and node: "blocks l' b = \<lparr>b_prev = last_opt xs, b_next = hd_opt ys, first_inst = None, last_inst = None\<rparr>"
    and nx: "\<And>a. last_opt xs = Some a \<Longrightarrow> hd_opt ys \<noteq> Some a \<Longrightarrow> blocks l' a = (blocks l a)\<lparr>b_next := Some b\<rparr>"
    and pv: "\<And>c. hd_opt ys = Some c \<Longrightarrow> blocks l' c = (blocks l c)\<lparr>b_prev := Some b\<rparr>"
    and other: "\<And>c. c \<noteq> b \<Longrightarrow> last_opt xs \<noteq> Some c \<Longrightarrow> hd_opt ys \<noteq> Some c \<Longrightarrow> blocks l' c = blocks l c"
    and ends: "entry_block l' = hd_opt (xs @ b # ys)" "last_block l' = last_opt (xs @ b # ys)"
    and insts: "insts l' = insts l"
  shows "layout_view l' (xs @ b # ys) ins"
proof -
  from v have bv: "blocks_view l (xs @ ys)" and iv: "insts_view l ins" by (simp_all add: layout_view_def)
  then have d: "dll (\<lambda>b. b_next (blocks l b)) (\<lambda>b. b_prev (blocks l b)) (xs @ ys)"
    and dflt: "\<And>c. c \<notin> set (xs @ ys) \<Longrightarrow> blocks l c = block_node_default"
    by (auto simp: blocks_view_def)
  have sep: "hd_opt ys \<noteq> Some a" if "last_opt xs = Some a" for a
    using d that by (auto simp: dll_def hd_opt_Some last_opt_Some)
  note nx = nx [OF _ sep]
  have mem: "c \<in> set (xs @ ys)" if "last_opt xs = Some c \<or> hd_opt ys = Some c" for c
    using that by (auto simp: hd_opt_Some last_opt_Some)
  have "blocks_view l' (xs @ b # ys)"
  proof (rule blocks_viewI)
    have other': "c \<in> set (xs @ ys) \<Longrightarrow> c \<noteq> b" for c using b by blast
    show "dll (\<lambda>b. b_next (blocks l' b)) (\<lambda>b. b_prev (blocks l' b)) (xs @ b # ys)"
    proof (rule dll_insertI [OF d b])
      fix y assume y: "y \<in> set (xs @ ys)"
      show "b_next (blocks l' y) = b_next (blocks l y)" if "last_opt xs \<noteq> Some y"
        using that pv [of y] other [of y] other' [OF y] by (cases "hd_opt ys = Some y") auto
      show "b_prev (blocks l' y) = b_prev (blocks l y)" if "hd_opt ys \<noteq> Some y"
        using that nx [of y] other [of y] other' [OF y] by (cases "last_opt xs = Some y") auto
    qed (auto simp: node nx pv)
    show "blocks l' c = block_node_default" if "c \<notin> set (xs @ b # ys)" for c
      using that mem [of c] dflt [of c] other [of c] by auto
  qed (fact ends)+
  moreover have "insts_view l' ins"
  proof (rule insts_view_same [OF iv insts])
    fix c
    have "blocks l b = block_node_default" using dflt b by blast
    then show "first_inst (blocks l' c) = first_inst (blocks l c) \<and> last_inst (blocks l' c) = last_inst (blocks l c)"
      using node nx [of c] pv [of c] other [of c] by (cases "c = b"; cases "last_opt xs = Some c"; cases "hd_opt ys = Some c")
        (auto simp: block_node_default_def)
  qed
  ultimately show ?thesis by (simp add: layout_view_def)
qed

lemmas upd_defs = upd_block_def upd_inst_def

lemma layout_view_blocks:
  assumes "layout_view l bs ins"
  shows "entry_block l = hd_opt bs" "last_block l = last_opt bs" "is_block_inserted l b \<longleftrightarrow> b \<in> set bs"
  using assms blocks_view_inserted [of l bs b] by (auto simp: layout_view_def blocks_view_def)

lemma layout_view_links:
  assumes "layout_view l (xs @ b # ys) ins"
  shows "b_next (blocks l b) = hd_opt ys" "b_prev (blocks l b) = last_opt xs"
  using assms blocks_view_nth [of l xs b ys] by (auto simp: layout_view_def)

lemma last_opt_Some_append [simp]: "last_opt xs = Some x \<Longrightarrow> hd_opt (xs @ ys) = hd_opt xs"
  by (auto simp: hd_opt_append)

lemma last_opt_append_Cons [simp]: "last_opt (xs @ x # ys) = last_opt (x # ys)"
  by (simp add: last_opt_append)

lemma last_opt_Cons: "last_opt (x # xs) = (case xs of [] \<Rightarrow> Some x | _ \<Rightarrow> last_opt xs)"
  by (cases xs) simp_all

text \<open>The two shapes in which the operations meet the lemma: at the front of the list and behind a node.\<close>

lemmas insert_block_view_front = insert_block_view [where xs = "[]", simplified]

lemma layout_view_distinct: "layout_view l bs ins \<Longrightarrow> distinct bs"
  by (simp add: layout_view_def blocks_view_def dll_def)

lemma last_opt_mem: "last_opt xs = Some x \<Longrightarrow> x \<in> set xs"
  by (auto simp: last_opt_Some)

lemma hd_opt_mem: "hd_opt xs = Some x \<Longrightarrow> x \<in> set xs"
  by (auto simp: hd_opt_Some)

lemma append_block_view:
  assumes "layout_view l bs ins" "b \<notin> set bs"
  shows "\<exists>l'. append_block b l = Inr ((), l') \<and> layout_view l' (bs @ [b]) ins"
proof -
  note e = layout_view_blocks [OF assms(1)]
  show ?thesis
  proof (cases "last_opt bs")
    case None
    with assms e show ?thesis
      by (simp add: append_block_def upd_defs)
        (rule insert_block_view_front [where l = l and ys = "[]", simplified]; simp add: block_node_default_def)
  next
    case (Some c)
    then have "c \<noteq> b" using assms(2) last_opt_mem by metis
    with Some assms e show ?thesis
      by (simp add: append_block_def upd_defs)
        (rule insert_block_view [where l = l and xs = bs and ys = "[]", simplified]; auto simp: block_node_default_def)
  qed
qed

lemma insert_block_before_view:
  assumes "layout_view l (xs @ c # ys) ins" "b \<notin> set (xs @ c # ys)"
  shows "\<exists>l'. insert_block_before b c l = Inr ((), l') \<and> layout_view l' (xs @ b # c # ys) ins"
proof -
  note e = layout_view_blocks [OF assms(1)] layout_view_links [OF assms(1)]
  show ?thesis
  proof (cases "last_opt xs")
    case None
    with assms e show ?thesis
      by (simp add: insert_block_before_def upd_defs)
        (rule insert_block_view_front [where l = l and ys = "c # ys"]; auto simp: block_node_default_def last_opt_Cons)
  next
    case (Some d)
    then have "d \<noteq> c" "d \<noteq> b" using assms(2) last_opt_mem [OF Some] layout_view_distinct [OF assms(1)] by auto
    with Some assms e show ?thesis
      by (simp add: insert_block_before_def upd_defs)
        (rule insert_block_view [where l = l and xs = xs and ys = "c # ys"]; auto simp: block_node_default_def last_opt_Cons)
  qed
qed

lemma insert_block_after_view:
  assumes "layout_view l (xs @ c # ys) ins" "b \<notin> set (xs @ c # ys)"
  shows "\<exists>l'. insert_block_after b c l = Inr ((), l') \<and> layout_view l' (xs @ c # b # ys) ins"
proof -
  note e = layout_view_blocks [OF assms(1)] layout_view_links [OF assms(1)]
  have h: "hd_opt (xs @ c # y # zs) = hd_opt (xs @ [c])" for y zs by (simp add: hd_opt_append)
  have hy: "hd_opt ys = Some y \<Longrightarrow> hd_opt (xs @ c # ys) = hd_opt (xs @ [c])" for y by (simp add: hd_opt_append)
  show ?thesis
  proof (cases "hd_opt ys")
    case None
    with assms e show ?thesis
      by (simp add: insert_block_after_def upd_defs)
        (rule insert_block_view [where l = l and xs = "xs @ [c]" and ys = "[]", simplified]; auto simp: h hy block_node_default_def)
  next
    case (Some d)
    then have "d \<noteq> c" "d \<noteq> b" using assms(2) hd_opt_mem [OF Some] layout_view_distinct [OF assms(1)] by auto
    with Some assms e show ?thesis
      by (simp add: insert_block_after_def upd_defs)
        (rule insert_block_view [where l = l and xs = "xs @ [c]" and ys = ys, simplified];
          auto simp: h hy block_node_default_def last_opt_Cons split: list.splits)
  qed
qed

lemma removed_block_view:
  assumes v: "layout_view l (xs @ b # ys) ins"
    and node: "blocks l' b = block_node_default"
    and nx: "\<And>a. last_opt xs = Some a \<Longrightarrow> blocks l' a = (blocks l a)\<lparr>b_next := hd_opt ys\<rparr>"
    and pv: "\<And>c. hd_opt ys = Some c \<Longrightarrow> blocks l' c = (blocks l c)\<lparr>b_prev := last_opt xs\<rparr>"
    and other: "\<And>c. c \<noteq> b \<Longrightarrow> last_opt xs \<noteq> Some c \<Longrightarrow> hd_opt ys \<noteq> Some c \<Longrightarrow> blocks l' c = blocks l c"
    and ends: "entry_block l' = hd_opt (xs @ ys)" "last_block l' = last_opt (xs @ ys)"
  shows "blocks_view l' (xs @ ys)"
    and "c \<noteq> b \<Longrightarrow> first_inst (blocks l' c) = first_inst (blocks l c) \<and> last_inst (blocks l' c) = last_inst (blocks l c)"
proof -
  from v have "blocks_view l (xs @ b # ys)" by (simp add: layout_view_def)
  then have d: "dll (\<lambda>b. b_next (blocks l b)) (\<lambda>b. b_prev (blocks l b)) (xs @ b # ys)"
    and dflt: "\<And>c. c \<notin> set (xs @ b # ys) \<Longrightarrow> blocks l c = block_node_default"
    by (auto simp: blocks_view_def)
  have dist: "b \<notin> set (xs @ ys)" "distinct (xs @ ys)" using layout_view_distinct [OF v] by auto
  show "blocks_view l' (xs @ ys)"
  proof (rule blocks_viewI)
    show "dll (\<lambda>b. b_next (blocks l' b)) (\<lambda>b. b_prev (blocks l' b)) (xs @ ys)"
    proof (rule dll_removeI [OF d])
      fix y assume y: "y \<in> set (xs @ ys)"
      with dist have "y \<noteq> b" by auto
      then show "b_next (blocks l' y) = b_next (blocks l y)" if "last_opt xs \<noteq> Some y"
        using that pv [of y] other [of y] by (cases "hd_opt ys = Some y") auto
      from \<open>y \<noteq> b\<close> show "b_prev (blocks l' y) = b_prev (blocks l y)" if "hd_opt ys \<noteq> Some y"
        using that nx [of y] other [of y] by (cases "last_opt xs = Some y") auto
    qed (auto simp: nx pv)
    show "blocks l' c = block_node_default" if "c \<notin> set (xs @ ys)" for c
      using that dflt [of c] other [of c] node last_opt_mem [of xs c] hd_opt_mem [of ys c] by (cases "c = b") auto
  qed (fact ends)+
  show "first_inst (blocks l' c) = first_inst (blocks l c) \<and> last_inst (blocks l' c) = last_inst (blocks l c)" if "c \<noteq> b"
    using that nx [of c] pv [of c] other [of c] by (cases "last_opt xs = Some c"; cases "hd_opt ys = Some c") auto
qed

text \<open>Removing a block does not look at its instructions; only an empty block leaves a well-formed layout.\<close>

definition block_removed :: "Layout \<Rightarrow> BlockId list \<Rightarrow> BlockId \<Rightarrow> Layout \<Rightarrow> bool" where
  "block_removed l bs b l' \<longleftrightarrow> blocks_view l' bs \<and> insts l' = insts l \<and>
     (\<forall>c. c \<noteq> b \<longrightarrow> first_inst (blocks l' c) = first_inst (blocks l c) \<and> last_inst (blocks l' c) = last_inst (blocks l c))"

lemma block_removedI:
  assumes "layout_view l (xs @ b # ys) ins" "blocks l' b = block_node_default"
    and "\<And>a. last_opt xs = Some a \<Longrightarrow> blocks l' a = (blocks l a)\<lparr>b_next := hd_opt ys\<rparr>"
    and "\<And>c. hd_opt ys = Some c \<Longrightarrow> blocks l' c = (blocks l c)\<lparr>b_prev := last_opt xs\<rparr>"
    and "\<And>c. c \<noteq> b \<Longrightarrow> last_opt xs \<noteq> Some c \<Longrightarrow> hd_opt ys \<noteq> Some c \<Longrightarrow> blocks l' c = blocks l c"
    and "entry_block l' = hd_opt (xs @ ys)" "last_block l' = last_opt (xs @ ys)" "insts l' = insts l"
  shows "block_removed l (xs @ ys) b l'"
  using removed_block_view [where l = l and l' = l' and xs = xs and ys = ys and b = b and ins = ins, OF assms(1-7)] assms(8)
  by (simp add: block_removed_def)

lemma remove_block_any:
  assumes v: "layout_view l (xs @ b # ys) ins"
  shows "\<exists>l'. remove_block b l = Inr ((), l') \<and> block_removed l (xs @ ys) b l'"
proof -
  note e = layout_view_blocks [OF v] layout_view_links [OF v]
    and rem = block_removedI [where l = l and xs = xs and ys = ys, OF v]
  have d: "distinct (xs @ b # ys)" using layout_view_distinct [OF v] .
  show ?thesis
  proof (cases "last_opt xs"; cases "hd_opt ys")
    assume *: "last_opt xs = None" "hd_opt ys = None"
    with e show ?thesis
      using block_removedI [where l = l and xs = "[]" and ys = "[]" and b = b and ins = ins] v
      by (auto simp: remove_block_def upd_defs)
  next
    fix c assume *: "last_opt xs = None" "hd_opt ys = Some c"
    then have "c \<noteq> b" using d hd_opt_mem [of ys c] by auto
    with * e show ?thesis
      by (simp add: remove_block_def upd_defs)
        (rule block_removedI [where l = l and xs = "[]" and ys = ys and b = b and ins = ins, simplified];
          use v in \<open>auto simp: last_opt_Cons split: list.splits\<close>)
  next
    fix a assume *: "last_opt xs = Some a" "hd_opt ys = None"
    then have "a \<noteq> b" using d last_opt_mem [of xs a] by auto
    with * e show ?thesis
      by (simp add: remove_block_def upd_defs)
        (rule block_removedI [where l = l and xs = xs and ys = "[]" and b = b and ins = ins, simplified];
          use v in \<open>auto\<close>)
  next
    fix a c assume *: "last_opt xs = Some a" "hd_opt ys = Some c"
    then have "a \<noteq> b" "c \<noteq> b" "a \<noteq> c" using d last_opt_mem [of xs a] hd_opt_mem [of ys c] by auto
    with * e show ?thesis
      by (simp add: remove_block_def upd_defs)
        (rule rem; auto simp: last_opt_append last_opt_Cons split: list.splits)
  qed
qed

lemma remove_block_view:
  assumes v: "layout_view l (xs @ b # ys) ins" and empty: "ins b = []"
  shows "\<exists>l'. remove_block b l = Inr ((), l') \<and> layout_view l' (xs @ ys) ins"
proof -
  obtain l' where l': "remove_block b l = Inr ((), l')" "block_removed l (xs @ ys) b l'" using remove_block_any [OF v] by blast
  have iv: "insts_view l ins" using v by (simp add: layout_view_def)
  have "blocks l' b = block_node_default"
    using l'(2) layout_view_distinct [OF v] by (simp add: block_removed_def blocks_view_def)
  then have "first_inst (blocks l' b) = first_inst (blocks l b) \<and> last_inst (blocks l' b) = last_inst (blocks l b)"
    using iv empty by (simp add: insts_view_def block_node_default_def)
  with l'(2) have "insts_view l' ins" by (intro insts_view_same [OF iv]) (auto simp: block_removed_def)
  with l' show ?thesis by (auto simp: layout_view_def block_removed_def)
qed

section \<open>The instruction lists\<close>

lemma insts_viewI:
  assumes "\<And>b. dll (\<lambda>i. i_next (insts l i)) (\<lambda>i. i_prev (insts l i)) (ins b)"
    and "\<And>b. first_inst (blocks l b) = hd_opt (ins b) \<and> last_inst (blocks l b) = last_opt (ins b)"
    and "\<And>i b. i_block (insts l i) = Some b \<longleftrightarrow> i \<in> set (ins b)"
    and "\<And>i. i_block (insts l i) = None \<Longrightarrow> insts l i = inst_node_default"
  shows "insts_view l ins"
  using assms by (simp add: insts_view_def)

lemma insts_view_disjoint: "insts_view l ins \<Longrightarrow> i \<in> set (ins b) \<Longrightarrow> i \<in> set (ins c) \<Longrightarrow> b = c"
  unfolding insts_view_def by (metis option.inject)

lemma layout_view_insts:
  assumes "layout_view l bs ins"
  shows "first_inst (blocks l b) = hd_opt (ins b)" "last_inst (blocks l b) = last_opt (ins b)"
    "is_inst_inserted l i \<longleftrightarrow> (\<exists>b. i \<in> set (ins b))" "ins b \<noteq> [] \<Longrightarrow> b \<in> set bs"
proof -
  from assms have v: "blocks_view l bs" "insts_view l ins" by (simp_all add: layout_view_def)
  then show f: "first_inst (blocks l b) = hd_opt (ins b)" "last_inst (blocks l b) = last_opt (ins b)"
    by (simp_all add: insts_view_def)
  show "is_inst_inserted l i \<longleftrightarrow> (\<exists>b. i \<in> set (ins b))" using insts_view_inserted [OF v(2)] .
  show "b \<in> set bs" if "ins b \<noteq> []"
  proof (rule ccontr)
    assume "b \<notin> set bs"
    with v(1) have "first_inst (blocks l b) = None" by (simp add: blocks_view_def block_node_default_def)
    with f(1) have "hd_opt (ins b) = None" by metis
    with that show False by simp
  qed
qed

lemma insert_inst_view:
  assumes v: "layout_view l bs ins" and xs: "ins b = xs @ ys" and b: "b \<in> set bs" and i: "\<And>c. i \<notin> set (ins c)"
    and node: "insts l' i = \<lparr>i_block = Some b, i_prev = last_opt xs, i_next = hd_opt ys\<rparr>"
    and nx: "\<And>a. last_opt xs = Some a \<Longrightarrow> hd_opt ys \<noteq> Some a \<Longrightarrow> insts l' a = (insts l a)\<lparr>i_next := Some i\<rparr>"
    and pv: "\<And>c. hd_opt ys = Some c \<Longrightarrow> insts l' c = (insts l c)\<lparr>i_prev := Some i\<rparr>"
    and other: "\<And>c. c \<noteq> i \<Longrightarrow> last_opt xs \<noteq> Some c \<Longrightarrow> hd_opt ys \<noteq> Some c \<Longrightarrow> insts l' c = insts l c"
    and ends: "first_inst (blocks l' b) = hd_opt (xs @ i # ys)" "last_inst (blocks l' b) = last_opt (xs @ i # ys)"
    and blk: "\<And>c. b_next (blocks l' c) = b_next (blocks l c) \<and> b_prev (blocks l' c) = b_prev (blocks l c)"
      "\<And>c. c \<noteq> b \<Longrightarrow> blocks l' c = blocks l c"
      "entry_block l' = entry_block l" "last_block l' = last_block l"
  shows "layout_view l' bs (ins(b := xs @ i # ys))"
proof -
  from v have bv: "blocks_view l bs" and iv: "insts_view l ins" by (simp_all add: layout_view_def)
  have bv': "blocks_view l' bs"
    using b by (intro blocks_view_same [OF bv]) (auto simp: blk(1,3,4) intro!: blk(2))
  have d: "dll (\<lambda>i. i_next (insts l i)) (\<lambda>i. i_prev (insts l i)) (ins c)" for c using iv by (simp add: insts_view_def)
  have d': "dll (\<lambda>i. i_next (insts l i)) (\<lambda>i. i_prev (insts l i)) (xs @ ys)" using d [of b] xs by simp
  have sep: "hd_opt ys \<noteq> Some a" if "last_opt xs = Some a" for a
    using d' that by (auto simp: dll_def hd_opt_Some last_opt_Some)
  note nx = nx [OF _ sep]
  have ib: "i_block (insts l' j) = (if j = i then Some b else i_block (insts l j))" for j
  proof (cases "j = i")
    case False
    with nx [of j] pv [of j] other [of j] show ?thesis
      by (cases "last_opt xs = Some j"; cases "hd_opt ys = Some j") auto
  qed (simp add: node)
  have "insts_view l' (ins(b := xs @ i # ys))"
  proof (rule insts_viewI)
    fix c
    show "dll (\<lambda>i. i_next (insts l' i)) (\<lambda>i. i_prev (insts l' i)) ((ins(b := xs @ i # ys)) c)"
    proof (cases "c = b")
      case True
      have "dll (\<lambda>i. i_next (insts l' i)) (\<lambda>i. i_prev (insts l' i)) (xs @ i # ys)"
      proof (rule dll_insertI [OF d'])
        show "i \<notin> set (xs @ ys)" using i [of b] xs by simp
        fix y assume "y \<in> set (xs @ ys)"
        then have "y \<noteq> i" using i [of b] xs by auto
        then show "i_next (insts l' y) = i_next (insts l y)" if "last_opt xs \<noteq> Some y"
          using that pv [of y] other [of y] by (cases "hd_opt ys = Some y") auto
        from \<open>y \<noteq> i\<close> show "i_prev (insts l' y) = i_prev (insts l y)" if "hd_opt ys \<noteq> Some y"
          using that nx [of y] other [of y] by (cases "last_opt xs = Some y") auto
      qed (auto simp: node nx pv)
      with True show ?thesis by simp
    next
      case False
      have "insts l' y = insts l y" if "y \<in> set (ins c)" for y
      proof -
        have "y \<notin> set (ins b)" using False that insts_view_disjoint [OF iv] by blast
        moreover have "y \<noteq> i" using that i by blast
        ultimately show ?thesis using xs other [of y] last_opt_mem [of xs y] hd_opt_mem [of ys y] by auto
      qed
      then show ?thesis
        using d [of c] False
          dll_cong [of "ins c" "\<lambda>i. i_next (insts l i)" "\<lambda>i. i_next (insts l' i)" "\<lambda>i. i_prev (insts l i)" "\<lambda>i. i_prev (insts l' i)"]
        by simp
    qed
    show "first_inst (blocks l' c) = hd_opt ((ins(b := xs @ i # ys)) c) \<and> last_inst (blocks l' c) = last_opt ((ins(b := xs @ i # ys)) c)"
      using ends blk(2) [of c] layout_view_insts [OF v, of c] by (cases "c = b") simp_all
    fix j
    have "i_block (insts l j) = Some c \<longleftrightarrow> j \<in> set (ins c)" using iv by (simp add: insts_view_def)
    then show "i_block (insts l' j) = Some c \<longleftrightarrow> j \<in> set ((ins(b := xs @ i # ys)) c)"
      using i xs unfolding ib by auto
  next
    fix j assume "i_block (insts l' j) = None"
    then have j: "j \<noteq> i" "i_block (insts l j) = None" by (auto simp: ib split: if_splits)
    then have "insts l j = inst_node_default" "j \<notin> set (ins b)"
      using iv unfolding insts_view_def by (metis option.distinct(1))+
    then show "insts l' j = inst_node_default"
      using xs j other [of j] last_opt_mem [of xs j] hd_opt_mem [of ys j] by auto
  qed
  with bv' show ?thesis by (simp add: layout_view_def)
qed

lemmas inst_defs = upd_defs inst_node_with_block_def

lemmas insert_inst_view_front = insert_inst_view [where xs = "[]", simplified]

lemma layout_view_inst_links:
  assumes "layout_view l bs ins" "ins b = xs @ i # ys"
  shows "i_next (insts l i) = hd_opt ys" "i_prev (insts l i) = last_opt xs" "i_block (insts l i) = Some b"
    "distinct (xs @ i # ys)" "b \<in> set bs"
proof -
  from assms(1) have iv: "insts_view l ins" by (simp add: layout_view_def)
  from insts_view_nth [OF iv assms(2)]
  show "i_next (insts l i) = hd_opt ys" "i_prev (insts l i) = last_opt xs" "i_block (insts l i) = Some b" by simp_all
  have "distinct (ins b)" using iv by (simp add: insts_view_def dll_def)
  then show "distinct (xs @ i # ys)" using assms(2) by simp
  show "b \<in> set bs" using layout_view_insts(4) [OF assms(1), of b] assms(2) by simp
qed

lemma append_inst_view:
  assumes v: "layout_view l bs ins" and b: "b \<in> set bs" and i: "\<forall>c. i \<notin> set (ins c)"
  shows "\<exists>l'. append_inst i b l = Inr ((), l') \<and> layout_view l' bs (ins(b := ins b @ [i]))"
proof -
  note e = layout_view_blocks(3) [OF v] layout_view_insts [OF v]
  show ?thesis
  proof (cases "last_opt (ins b)")
    case None
    with e b i show ?thesis
      by (simp add: append_inst_def inst_defs)
        (rule insert_inst_view_front [where l = l and ys = "[]" and ins = ins, simplified]; simp add: v)
  next
    case (Some c)
    then have "c \<noteq> i" using i last_opt_mem by metis
    with Some e b i show ?thesis
      by (simp add: append_inst_def inst_defs)
        (rule insert_inst_view [where l = l and xs = "ins b" and ys = "[]" and ins = ins, simplified]; auto simp: v)
  qed
qed

lemma prepend_inst_view:
  assumes v: "layout_view l bs ins" and b: "b \<in> set bs" and i: "\<forall>c. i \<notin> set (ins c)"
  shows "\<exists>l'. prepend_inst i b l = Inr ((), l') \<and> layout_view l' bs (ins(b := i # ins b))"
proof -
  note e = layout_view_blocks(3) [OF v] layout_view_insts [OF v]
  show ?thesis
  proof (cases "hd_opt (ins b)")
    case None
    with e b i show ?thesis
      by (simp add: prepend_inst_def inst_defs)
        (rule insert_inst_view_front [where l = l and ys = "[]" and ins = ins, simplified]; simp add: v)
  next
    case (Some c)
    then have "c \<noteq> i" using i hd_opt_mem by metis
    with Some e b i show ?thesis
      by (simp add: prepend_inst_def inst_defs)
        (rule insert_inst_view_front [where l = l and ys = "ins b" and ins = ins, simplified];
          auto simp: v last_opt_Cons split: list.splits)
  qed
qed

lemma insert_inst_before_view:
  assumes v: "layout_view l bs ins" and c: "ins b = xs @ c # ys" and i: "\<forall>c. i \<notin> set (ins c)"
  shows "\<exists>l'. insert_inst_before i c l = Inr ((), l') \<and> layout_view l' bs (ins(b := xs @ i # c # ys))"
proof -
  note e = layout_view_insts(3) [OF v] layout_view_inst_links [OF v c]
  have f: "first_inst (blocks l b) = hd_opt (xs @ c # ys)" "last_inst (blocks l b) = last_opt (xs @ c # ys)"
    using layout_view_insts(1,2) [OF v, of b] c by simp_all
  have m: "\<exists>b. c \<in> set (ins b)" "c \<noteq> i" using c spec [OF i, of b] by (auto intro: exI [of _ b])
  show ?thesis
  proof (cases "last_opt xs")
    case None
    with e f m c i show ?thesis
      by (simp add: insert_inst_before_def inst_defs)
        (rule insert_inst_view_front [where l = l and ys = "c # ys" and ins = ins, simplified];
          auto simp: v last_opt_Cons)
  next
    case (Some d)
    then have "d \<noteq> c" "d \<noteq> i" using last_opt_mem [OF Some] e(5) i c by (auto dest: spec [of _ b])
    with Some e f m c i show ?thesis
      by (simp add: insert_inst_before_def inst_defs)
        (rule insert_inst_view [where l = l and xs = xs and ys = "c # ys" and ins = ins, simplified];
          auto simp: v last_opt_Cons)
  qed
qed

lemma insert_inst_after_view:
  assumes v: "layout_view l bs ins" and c: "ins b = xs @ c # ys" and i: "\<forall>c. i \<notin> set (ins c)"
  shows "\<exists>l'. insert_inst_after i c l = Inr ((), l') \<and> layout_view l' bs (ins(b := xs @ c # i # ys))"
proof -
  note e = layout_view_insts(3) [OF v] layout_view_inst_links [OF v c]
  have f: "first_inst (blocks l b) = hd_opt (xs @ [c])" "last_inst (blocks l b) = last_opt (xs @ c # ys)"
    using layout_view_insts(1,2) [OF v, of b] c by (simp_all add: hd_opt_append)
  have h: "hd_opt (xs @ c # i # ys) = hd_opt (xs @ [c])" by (simp add: hd_opt_append)
  have m: "\<exists>b. c \<in> set (ins b)" "c \<noteq> i" using c spec [OF i, of b] by (auto intro: exI [of _ b])
  show ?thesis
  proof (cases "hd_opt ys")
    case None
    with e f m c i show ?thesis
      by (simp add: insert_inst_after_def inst_defs)
        (rule insert_inst_view [where l = l and xs = "xs @ [c]" and ys = "[]" and ins = ins, simplified];
          auto simp: v hd_opt_append)
  next
    case (Some d)
    then have "d \<noteq> c" "d \<noteq> i" using hd_opt_mem [OF Some] e(5) i c by (auto dest: spec [of _ b])
    with Some e f m c i show ?thesis
      by (simp add: insert_inst_after_def inst_defs)
        (rule insert_inst_view [where l = l and xs = "xs @ [c]" and ys = ys and ins = ins, simplified];
          auto simp: v h last_opt_Cons split: list.splits)
  qed
qed

lemma removed_inst_view:
  assumes v: "layout_view l bs ins" and xs: "ins b = xs @ i # ys"
    and node: "insts l' i = inst_node_default"
    and nx: "\<And>a. last_opt xs = Some a \<Longrightarrow> insts l' a = (insts l a)\<lparr>i_next := hd_opt ys\<rparr>"
    and pv: "\<And>c. hd_opt ys = Some c \<Longrightarrow> insts l' c = (insts l c)\<lparr>i_prev := last_opt xs\<rparr>"
    and other: "\<And>c. c \<noteq> i \<Longrightarrow> last_opt xs \<noteq> Some c \<Longrightarrow> hd_opt ys \<noteq> Some c \<Longrightarrow> insts l' c = insts l c"
    and ends: "first_inst (blocks l' b) = hd_opt (xs @ ys)" "last_inst (blocks l' b) = last_opt (xs @ ys)"
    and blk: "\<And>c. b_next (blocks l' c) = b_next (blocks l c) \<and> b_prev (blocks l' c) = b_prev (blocks l c)"
      "\<And>c. c \<noteq> b \<Longrightarrow> blocks l' c = blocks l c"
      "entry_block l' = entry_block l" "last_block l' = last_block l"
  shows "layout_view l' bs (ins(b := xs @ ys))"
proof -
  from v have bv: "blocks_view l bs" and iv: "insts_view l ins" by (simp_all add: layout_view_def)
  have b: "b \<in> set bs" and dist: "i \<notin> set xs" "i \<notin> set ys" using layout_view_inst_links [OF v xs] by auto
  have bv': "blocks_view l' bs"
    using b by (intro blocks_view_same [OF bv]) (auto simp: blk(1,3,4) intro!: blk(2))
  have d: "dll (\<lambda>i. i_next (insts l i)) (\<lambda>i. i_prev (insts l i)) (ins c)" for c using iv by (simp add: insts_view_def)
  have mem: "i_block (insts l j) = Some c \<longleftrightarrow> j \<in> set (ins c)" for j c using iv by (simp add: insts_view_def)
  have ib: "i_block (insts l' j) = (if j = i then None else i_block (insts l j))" for j
  proof (cases "j = i")
    case False
    with nx [of j] pv [of j] other [of j] show ?thesis
      by (cases "last_opt xs = Some j"; cases "hd_opt ys = Some j") auto
  qed (simp add: node inst_node_default_def)
  have "insts_view l' (ins(b := xs @ ys))"
  proof (rule insts_viewI)
    fix c
    show "dll (\<lambda>i. i_next (insts l' i)) (\<lambda>i. i_prev (insts l' i)) ((ins(b := xs @ ys)) c)"
    proof (cases "c = b")
      case True
      have "dll (\<lambda>i. i_next (insts l i)) (\<lambda>i. i_prev (insts l i)) (xs @ i # ys)" using d [of b] xs by simp
      then have "dll (\<lambda>i. i_next (insts l' i)) (\<lambda>i. i_prev (insts l' i)) (xs @ ys)"
      proof (rule dll_removeI)
        fix y assume "y \<in> set (xs @ ys)"
        then have "y \<noteq> i" using dist by auto
        then show "i_next (insts l' y) = i_next (insts l y)" if "last_opt xs \<noteq> Some y"
          using that pv [of y] other [of y] by (cases "hd_opt ys = Some y") auto
        from \<open>y \<noteq> i\<close> show "i_prev (insts l' y) = i_prev (insts l y)" if "hd_opt ys \<noteq> Some y"
          using that nx [of y] other [of y] by (cases "last_opt xs = Some y") auto
      qed (auto simp: nx pv)
      with True show ?thesis by simp
    next
      case False
      have "insts l' y = insts l y" if y: "y \<in> set (ins c)" for y
      proof -
        have "y \<notin> set (ins b)" using False that insts_view_disjoint [OF iv] by blast
        with xs show ?thesis using other [of y] last_opt_mem [of xs y] hd_opt_mem [of ys y] by auto
      qed
      then show ?thesis
        using d [of c] False
          dll_cong [of "ins c" "\<lambda>i. i_next (insts l i)" "\<lambda>i. i_next (insts l' i)" "\<lambda>i. i_prev (insts l i)" "\<lambda>i. i_prev (insts l' i)"]
        by simp
    qed
    show "first_inst (blocks l' c) = hd_opt ((ins(b := xs @ ys)) c) \<and> last_inst (blocks l' c) = last_opt ((ins(b := xs @ ys)) c)"
      using ends blk(2) [of c] layout_view_insts [OF v, of c] by (cases "c = b") simp_all
    fix j
    show "i_block (insts l' j) = Some c \<longleftrightarrow> j \<in> set ((ins(b := xs @ ys)) c)"
      using mem [of j c] mem [of i c] mem [of i b] xs dist unfolding ib by (cases "j = i"; cases "c = b") auto
  next
    fix j assume "i_block (insts l' j) = None"
    then consider "j = i" | "j \<noteq> i" "i_block (insts l j) = None" by (auto simp: ib split: if_splits)
    then show "insts l' j = inst_node_default"
    proof cases
      case 2
      then have "insts l j = inst_node_default" "j \<notin> set (ins b)"
        using iv unfolding insts_view_def by (metis option.distinct(1))+
      then show ?thesis using xs 2 other [of j] last_opt_mem [of xs j] hd_opt_mem [of ys j] by auto
    qed (simp add: node)
  qed
  with bv' show ?thesis by (simp add: layout_view_def)
qed

lemma remove_inst_view:
  assumes v: "layout_view l bs ins" and i: "ins b = xs @ i # ys"
  shows "\<exists>l'. remove_inst i l = Inr ((), l') \<and> layout_view l' bs (ins(b := xs @ ys))"
proof -
  note e = layout_view_insts(3) [OF v] layout_view_inst_links [OF v i]
  have f: "first_inst (blocks l b) = hd_opt (xs @ i # ys)" "last_inst (blocks l b) = last_opt (xs @ i # ys)"
    using layout_view_insts(1,2) [OF v, of b] i by simp_all
  have m: "\<exists>b. i \<in> set (ins b)" using i by (auto intro: exI [of _ b])
  show ?thesis
  proof (cases "last_opt xs"; cases "hd_opt ys")
    assume *: "last_opt xs = None" "hd_opt ys = None"
    with e f m i show ?thesis
      by (simp add: remove_inst_def inst_defs)
        (rule removed_inst_view [where l = l and xs = "[]" and ys = "[]" and ins = ins, simplified]; auto simp: v)
  next
    fix c assume *: "last_opt xs = None" "hd_opt ys = Some c"
    then have "c \<noteq> i" using e(5) hd_opt_mem [of ys c] by auto
    moreover obtain zs where "ys = c # zs" "xs = []" using * by (auto simp: hd_opt_Some)
    ultimately show ?thesis
      using e(1-4) f m i
      by (simp add: remove_inst_def inst_defs)
        (rule removed_inst_view [where l = l and xs = "[]" and ys = "c # zs" and i = i and ins = ins and bs = bs, OF v, simplified];
          simp)
  next
    fix a assume *: "last_opt xs = Some a" "hd_opt ys = None"
    then have "a \<noteq> i" using e(5) last_opt_mem [of xs a] by auto
    moreover obtain us where "xs = us @ [a]" "ys = []" using * by (auto simp: last_opt_Some)
    ultimately show ?thesis
      using e(1-4) f m i
      by (simp add: remove_inst_def inst_defs)
        (rule removed_inst_view [where l = l and xs = "us @ [a]" and ys = "[]" and i = i and ins = ins and bs = bs, OF v, simplified];
          simp add: hd_opt_append)
  next
    fix a c assume *: "last_opt xs = Some a" "hd_opt ys = Some c"
    then have "a \<noteq> i" "c \<noteq> i" "a \<noteq> c" using e(5) last_opt_mem [of xs a] hd_opt_mem [of ys c] by auto
    moreover obtain us zs where "xs = us @ [a]" "ys = c # zs" using * by (auto simp: last_opt_Some hd_opt_Some)
    ultimately show ?thesis
      using e(1-4) f m i
      by (simp add: remove_inst_def inst_defs)
        (rule removed_inst_view [where l = l and xs = "us @ [a]" and ys = "c # zs" and i = i and ins = ins and bs = bs, OF v, simplified];
          simp add: hd_opt_append)
  qed
qed

section \<open>Iteration\<close>

lemma collect_iter_links:
  assumes "\<And>x. step (Some x) = Some (x, nx x)" "step None = None"
  shows "links nx pv p xs None \<Longrightarrow> collect_iter step (hd_opt xs) = Some xs"
proof (induction xs arbitrary: p)
  case Nil
  show ?case by (subst collect_iter.simps) (simp add: assms)
next
  case (Cons x xs)
  from Cons.prems have "nx x = hd_opt xs" "links nx pv (Some x) xs None" by (simp_all add: hd_opt_def)
  from this(1) Cons.IH [OF this(2)] show ?case by (subst collect_iter.simps) (simp add: assms)
qed

lemma iter_block_view: "layout_view l bs ins \<Longrightarrow> iter_block l = Some bs"
  using collect_iter_links [of "block_iter_next l" "\<lambda>b. b_next (blocks l b)" "\<lambda>b. b_prev (blocks l b)" None bs]
  by (simp add: iter_block_def layout_view_def blocks_view_def block_iter_next_def dll_def)

lemma iter_inst_view: "layout_view l bs ins \<Longrightarrow> b \<in> set bs \<Longrightarrow> iter_inst l b = Inr (Some (ins b))"
  using collect_iter_links [of "inst_iter_next l" "\<lambda>i. i_next (insts l i)" "\<lambda>i. i_prev (insts l i)" None "ins b"]
    layout_view_blocks(3) [of l bs ins b]
  by (simp add: iter_inst_def layout_view_def insts_view_def inst_iter_next_def dll_def)

section \<open>Properties\<close>



text \<open>C34: the four ways to insert an instruction put it at the end or the front of the list of its
  block, which may be empty, or before or behind a given instruction, and touch no other block.\<close>
theorem inst_insertion_refines:
  assumes "layout_view l bs ins" and "b \<in> set bs" and "\<forall>d. i \<notin> set (ins d)"
  shows "(\<exists>l'. append_inst i b l = Inr ((), l') \<and> layout_view l' bs (ins(b := ins b @ [i])))
       \<and> (\<exists>l'. prepend_inst i b l = Inr ((), l') \<and> layout_view l' bs (ins(b := i # ins b)))
       \<and> (\<forall>xs c ys. ins b = xs @ c # ys \<longrightarrow>
            (\<exists>l'. insert_inst_before i c l = Inr ((), l') \<and> layout_view l' bs (ins(b := xs @ i # c # ys)))
          \<and> (\<exists>l'. insert_inst_after i c l = Inr ((), l') \<and> layout_view l' bs (ins(b := xs @ c # i # ys)))
          \<and> inst_block l c = Inr b \<and> prev_inst_of l c = Inr (last_opt xs) \<and> next_inst_of l c = Inr (hd_opt ys)
          \<and> append_inst c b l = Inl (Panic ''inst already inserted''))"
proof (intro conjI allI impI)
  show "\<exists>l'. append_inst i b l = Inr ((), l') \<and> layout_view l' bs (ins(b := ins b @ [i]))"
    "\<exists>l'. prepend_inst i b l = Inr ((), l') \<and> layout_view l' bs (ins(b := i # ins b))"
    using append_inst_view [OF assms] prepend_inst_view [OF assms] .
next
  fix xs c ys assume c: "ins b = xs @ c # ys"
  note k = layout_view_inst_links [OF assms(1) c]
  show "\<exists>l'. insert_inst_before i c l = Inr ((), l') \<and> layout_view l' bs (ins(b := xs @ i # c # ys))"
    "\<exists>l'. insert_inst_after i c l = Inr ((), l') \<and> layout_view l' bs (ins(b := xs @ c # i # ys))"
    using insert_inst_before_view [OF assms(1) c assms(3)] insert_inst_after_view [OF assms(1) c assms(3)] .
  have "is_inst_inserted l c" using layout_view_insts(3) [OF assms(1), of c] c by (auto intro: exI [of _ b])
  with k layout_view_blocks(3) [OF assms(1), of b] assms(2)
  show "inst_block l c = Inr b" "prev_inst_of l c = Inr (last_opt xs)" "next_inst_of l c = Inr (hd_opt ys)"
    "append_inst c b l = Inl (Panic ''inst already inserted'')"
    by (simp_all add: inst_block_def prev_inst_of_def next_inst_of_def append_inst_def assert_that_def)
qed

theorem inst_insertion_refines_witness:
  "\<exists>l1 l2 l3 ins. append_block 0 layout_new = Inr ((), l1) \<and> append_inst 5 0 l1 = Inr ((), l2)
     \<and> insert_inst_before 9 5 l2 = Inr ((), l3) \<and> layout_view l3 [0] ins \<and> ins 0 = [9, 5]"
proof -
  from append_block_view [OF layout_view_new, of 0] obtain l1 where
    l1: "append_block 0 layout_new = Inr ((), l1)" "layout_view l1 [0] (\<lambda>_. [])" by auto
  from inst_insertion_refines [OF l1(2), of 0 5] obtain l2 where
    l2: "append_inst 5 0 l1 = Inr ((), l2)" "layout_view l2 [0] ((\<lambda>_. [])(0 := [5]))" by auto
  have "\<exists>l3. insert_inst_before 9 5 l2 = Inr ((), l3) \<and> layout_view l3 [0] (((\<lambda>_. [])(0 := [5]))(0 := [] @ 9 # 5 # []))"
    using inst_insertion_refines [OF l2(2), of 0 9] by (auto simp: Cons_eq_append_conv)
  with l1 l2 show ?thesis by (metis append_Nil fun_upd_same)
qed

text \<open>C35: removing an instruction takes it out of its list and makes it insertable again. Removing a
  block always takes it out of the block order and changes no other block; the layout stays
  well-formed if the block was empty, while the instructions of a block that was not keep naming
  it: the code does not check, and its callers empty the block first.\<close>
theorem layout_removal_refines:
  assumes "layout_view l (xs @ b # ys) ins"
  shows "(\<exists>l'. remove_block b l = Inr ((), l') \<and> blocks_view l' (xs @ ys) \<and> \<not> is_block_inserted l' b
            \<and> (\<forall>c. c \<noteq> b \<longrightarrow> first_inst (blocks l' c) = hd_opt (ins c) \<and> last_inst (blocks l' c) = last_opt (ins c))
            \<and> (ins b = [] \<longrightarrow> layout_view l' (xs @ ys) ins)
            \<and> (\<forall>i \<in> set (ins b). inst_block l' i = Inr b))
       \<and> (\<forall>us i vs. ins b = us @ i # vs \<longrightarrow>
            (\<exists>l'. remove_inst i l = Inr ((), l') \<and> layout_view l' (xs @ b # ys) (ins(b := us @ vs)) \<and> \<not> is_inst_inserted l' i))"
proof (intro conjI allI impI)
  from remove_block_any [OF assms] obtain l' where l': "remove_block b l = Inr ((), l')" "block_removed l (xs @ ys) b l'" by blast
  have bv: "blocks_view l' (xs @ ys)" "insts l' = insts l" using l'(2) by (simp_all add: block_removed_def)
  have "layout_view l' (xs @ ys) ins" if "ins b = []" using remove_block_view [OF assms that] l'(1) by auto
  moreover have "\<not> is_block_inserted l' b"
    using blocks_view_inserted [OF bv(1), of b] layout_view_distinct [OF assms] by simp
  moreover have "inst_block l' i = Inr b" if "i \<in> set (ins b)" for i
  proof -
    from that obtain us vs where i: "ins b = us @ i # vs" by (meson split_list)
    have "is_inst_inserted l i" using layout_view_insts(3) [OF assms, of i] that by blast
    with layout_view_inst_links(3) [OF assms i] bv(2) show ?thesis by (simp add: inst_block_def is_inst_inserted_def)
  qed
  moreover have "first_inst (blocks l' c) = hd_opt (ins c) \<and> last_inst (blocks l' c) = last_opt (ins c)" if "c \<noteq> b" for c
    using l'(2) that layout_view_insts(1,2) [OF assms, of c] by (simp add: block_removed_def)
  ultimately show "\<exists>l'. remove_block b l = Inr ((), l') \<and> blocks_view l' (xs @ ys) \<and> \<not> is_block_inserted l' b
      \<and> (\<forall>c. c \<noteq> b \<longrightarrow> first_inst (blocks l' c) = hd_opt (ins c) \<and> last_inst (blocks l' c) = last_opt (ins c))
      \<and> (ins b = [] \<longrightarrow> layout_view l' (xs @ ys) ins) \<and> (\<forall>i \<in> set (ins b). inst_block l' i = Inr b)"
    using l'(1) bv(1) by blast
next
  fix us i vs assume i: "ins b = us @ i # vs"
  from remove_inst_view [OF assms i] obtain l' where
    l': "remove_inst i l = Inr ((), l')" "layout_view l' (xs @ b # ys) (ins(b := us @ vs))" by auto
  have "i \<notin> set (us @ vs)" using layout_view_inst_links(4) [OF assms i] by auto
  moreover have "i \<notin> set (ins c)" if "c \<noteq> b" for c
    using that insts_view_disjoint [of l ins i b c] assms i by (auto simp: layout_view_def)
  ultimately have "\<not> is_inst_inserted l' i" using layout_view_insts(3) [OF l'(2), of i] by auto
  with l' show "\<exists>l'. remove_inst i l = Inr ((), l') \<and> layout_view l' (xs @ b # ys) (ins(b := us @ vs)) \<and> \<not> is_inst_inserted l' i"
    by blast
qed

theorem layout_removal_refines_witness:
  "\<exists>l1 l2 l3 l4. append_block 7 layout_new = Inr ((), l1) \<and> append_inst 5 7 l1 = Inr ((), l2)
     \<and> remove_block 7 l2 = Inr ((), l3) \<and> inst_block l3 5 = Inr 7
     \<and> remove_inst 5 l2 = Inr ((), l4) \<and> layout_view l4 [7] (\<lambda>_. [])"
proof -
  from append_block_view [OF layout_view_new, of 7] obtain l1 where
    l1: "append_block 7 layout_new = Inr ((), l1)" "layout_view l1 [7] (\<lambda>_. [])" by auto
  from append_inst_view [OF l1(2), of 7 5] obtain l2 where
    l2: "append_inst 5 7 l1 = Inr ((), l2)" "layout_view l2 ([] @ 7 # []) ((\<lambda>_. [])(7 := [] @ 5 # []))" by auto
  have eq: "((\<lambda>_. [])(7 := [] @ 5 # []))(7 := [] @ []) = (\<lambda>_. [])" by (simp add: fun_eq_iff)
  from layout_removal_refines [OF l2(2)] obtain l3 where l3: "remove_block 7 l2 = Inr ((), l3)" "inst_block l3 5 = Inr 7" by auto
  have "\<exists>l4. remove_inst 5 l2 = Inr ((), l4) \<and> layout_view l4 ([] @ 7 # []) (((\<lambda>_. [])(7 := [] @ 5 # []))(7 := [] @ []))"
    using layout_removal_refines [OF l2(2)] by (metis fun_upd_same)
  then show ?thesis using l1(1) l2(1) l3 unfolding eq by auto
qed

text \<open>On a well-formed layout the iterators end; they yield every block, and every instruction
  of a block, once and in order.\<close>
theorem layout_iteration:
  assumes "layout_view l bs ins"
  shows "iter_block l = Some bs \<and> distinct bs
       \<and> (\<forall>b. iter_inst l b = (if b \<in> set bs then Inr (Some (ins b)) else Inl (Panic ''block not inserted'')))"
  using iter_block_view [OF assms] iter_inst_view [OF assms] layout_view_distinct [OF assms] layout_view_blocks(3) [OF assms]
  by (auto simp: iter_inst_def assert_that_def)

theorem layout_iteration_witness:
  "\<exists>l. append_block 4 layout_new = Inr ((), l) \<and> iter_block l = Some [4] \<and> iter_inst l 4 = Inr (Some [])"
proof -
  from append_block_view [OF layout_view_new, of 4] obtain l where
    l: "append_block 4 layout_new = Inr ((), l)" "layout_view l [4] (\<lambda>_. [])" by auto
  from layout_iteration [OF l(2)] l(1) show ?thesis by auto
qed

end
