(* ===== verification/IrTypes.thy ===== *)
theory IrTypes
  imports BigInt
begin

text \<open>
  \<open>crates/ir/src/types.rs\<close>, \<open>isa/mod.rs\<close> and \<open>isa/evm.rs\<close>: the IR types, the store that
  interns compound types, the partial order on types by which casts are checked, and the
  EVM's type layout. The store is a list of compounds (a reference is its index) with a reverse
  map and the struct names in order of definition.
\<close>

section \<open>Types\<close>

type_synonym CompoundTypeRef = nat

datatype IrType =
  Ty_I1 | Ty_I8 | Ty_I16 | Ty_I32 | Ty_I64 | Ty_I128 | Ty_I256 | Compound CompoundTypeRef | Unit

record StructData =
  struct_name :: string
  struct_fields :: "IrType list"
  packed :: bool

datatype CompoundType =
    Array IrType nat
  | Ptr IrType
  | Struct StructData
  | Func "IrType list" IrType

definition is_integral :: "IrType \<Rightarrow> bool" where
  "is_integral ty \<longleftrightarrow> ty \<in> {Ty_I1, Ty_I8, Ty_I16, Ty_I32, Ty_I64, Ty_I128, Ty_I256}"

definition is_compound :: "IrType \<Rightarrow> bool" where
  "is_compound ty = (case ty of Compound _ \<Rightarrow> True | _ \<Rightarrow> False)"

definition is_unit :: "IrType \<Rightarrow> bool" where
  "is_unit ty = (ty = Unit)"

definition ty_partial_cmp :: "IrType \<Rightarrow> IrType \<Rightarrow> Ordering option" where
  "ty_partial_cmp self rhs =
     (if self = rhs then Some Equal
      else if \<not> is_integral self \<or> \<not> is_integral rhs then None
      else case self of
          Ty_I1 \<Rightarrow> Some Less
        | Ty_I8 \<Rightarrow> if rhs = Ty_I1 then Some Greater else Some Less
        | Ty_I16 \<Rightarrow> if rhs \<in> {Ty_I1, Ty_I8} then Some Greater else Some Less
        | Ty_I32 \<Rightarrow> if rhs \<in> {Ty_I1, Ty_I8, Ty_I16} then Some Greater else Some Less
        | Ty_I64 \<Rightarrow> if rhs \<in> {Ty_I128, Ty_I256} then Some Less else Some Greater
        | Ty_I128 \<Rightarrow> if rhs = Ty_I256 then Some Less else Some Greater
        | Ty_I256 \<Rightarrow> Some Greater
        | _ \<Rightarrow> None)"

text \<open>The width in bits of an integral type (\<open>bits_for_ty\<close> of \<open>interpret/evm\<close>, 0 where it is unreachable).\<close>

fun ty_bits :: "IrType \<Rightarrow> nat" where
  "ty_bits Ty_I1 = 1"
| "ty_bits Ty_I8 = 8"
| "ty_bits Ty_I16 = 16"
| "ty_bits Ty_I32 = 32"
| "ty_bits Ty_I64 = 64"
| "ty_bits Ty_I128 = 128"
| "ty_bits Ty_I256 = 256"
| "ty_bits _ = 0"

lemma ty_partial_cmp_bits:
  "ty_partial_cmp a b =
     (if a = b then Some Equal
      else if \<not> is_integral a \<or> \<not> is_integral b then None
      else if ty_bits a < ty_bits b then Some Less else Some Greater)"
  by (cases a; cases b) (simp_all add: ty_partial_cmp_def is_integral_def)

lemma ty_bits_inject: "is_integral a \<Longrightarrow> is_integral b \<Longrightarrow> ty_bits a = ty_bits b \<Longrightarrow> a = b"
  by (auto simp: is_integral_def)

instantiation IrType :: order
begin

definition less_eq_IrType :: "IrType \<Rightarrow> IrType \<Rightarrow> bool" where
  "a \<le> b \<longleftrightarrow> ty_partial_cmp a b \<in> {Some Less, Some Equal}"

definition less_IrType :: "IrType \<Rightarrow> IrType \<Rightarrow> bool" where
  "a < b \<longleftrightarrow> ty_partial_cmp a b = Some Less"

instance
  by standard
    (auto simp: less_eq_IrType_def less_IrType_def ty_partial_cmp_bits dest: ty_bits_inject split: if_splits)

end

lemma ty_le_iff: "a \<le> b \<longleftrightarrow> a = b \<or> is_integral a \<and> is_integral b \<and> ty_bits a \<le> ty_bits b"
  by (auto simp: less_eq_IrType_def ty_partial_cmp_bits dest: ty_bits_inject)

section \<open>The type store\<close>

record TypeStore =
  compounds :: "CompoundType list"
  rev_types :: "CompoundType \<Rightarrow> CompoundTypeRef option"
  struct_types :: "(string \<times> CompoundTypeRef) list"

definition empty_store :: TypeStore where
  "empty_store = \<lparr>compounds = [], rev_types = Map.empty, struct_types = []\<rparr>"

definition lookup_struct :: "TypeStore \<Rightarrow> string \<Rightarrow> CompoundTypeRef option" where
  "lookup_struct s name = map_of (struct_types s) name"

definition make_compound :: "CompoundType \<Rightarrow> (TypeStore, CompoundTypeRef) op" where
  "make_compound data s =
     (case rev_types s data of
        Some cmpd_ref \<Rightarrow> Inr (cmpd_ref, s)
      | None \<Rightarrow>
          let cmpd_ref = length (compounds s);
              s1 = s\<lparr>compounds := compounds s @ [data]\<rparr>
          in rbind
               (case data of
                  Struct sd \<Rightarrow>
                    if lookup_struct s1 (struct_name sd) \<noteq> None
                    then Inl (Panic ''struct is already defined'')
                    else Inr (s1\<lparr>struct_types := struct_types s1 @ [(struct_name sd, cmpd_ref)]\<rparr>)
                | _ \<Rightarrow> Inr s1)
               (\<lambda>s2. Inr (cmpd_ref, s2\<lparr>rev_types := (rev_types s2)(data \<mapsto> cmpd_ref)\<rparr>)))"

definition make_ptr :: "IrType \<Rightarrow> (TypeStore, IrType) op" where
  "make_ptr ty = sbind (make_compound (Ptr ty)) (\<lambda>r. sret (Compound r))"

definition make_array :: "IrType \<Rightarrow> nat \<Rightarrow> (TypeStore, IrType) op" where
  "make_array elem len = sbind (make_compound (Array elem len)) (\<lambda>r. sret (Compound r))"

definition make_struct :: "string \<Rightarrow> IrType list \<Rightarrow> bool \<Rightarrow> (TypeStore, IrType) op" where
  "make_struct name flds pk =
     sbind (make_compound (Struct \<lparr>struct_name = name, struct_fields = flds, packed = pk\<rparr>))
       (\<lambda>r. sret (Compound r))"

definition make_func :: "IrType list \<Rightarrow> IrType \<Rightarrow> (TypeStore, IrType) op" where
  "make_func args ret_ty = sbind (make_compound (Func args ret_ty)) (\<lambda>r. sret (Compound r))"

definition resolve_compound :: "TypeStore \<Rightarrow> CompoundTypeRef \<Rightarrow> fault + CompoundType" where
  "resolve_compound s cmpd_ref = index_list (compounds s) cmpd_ref"

definition struct_def :: "TypeStore \<Rightarrow> IrType \<Rightarrow> fault + StructData option" where
  "struct_def s ty =
     (case ty of
        Compound r \<Rightarrow> rbind (resolve_compound s r) (\<lambda>c. Inr (case c of Struct d \<Rightarrow> Some d | _ \<Rightarrow> None))
      | _ \<Rightarrow> Inr None)"

definition array_def :: "TypeStore \<Rightarrow> IrType \<Rightarrow> fault + (IrType \<times> nat) option" where
  "array_def s ty =
     (case ty of
        Compound r \<Rightarrow> rbind (resolve_compound s r) (\<lambda>c. Inr (case c of Array e n \<Rightarrow> Some (e, n) | _ \<Rightarrow> None))
      | _ \<Rightarrow> Inr None)"

definition deref :: "TypeStore \<Rightarrow> IrType \<Rightarrow> fault + IrType option" where
  "deref s ptr =
     (case ptr of
        Compound r \<Rightarrow> rbind (resolve_compound s r) (\<lambda>c. Inr (case c of Ptr ty \<Rightarrow> Some ty | _ \<Rightarrow> None))
      | _ \<Rightarrow> Inr None)"

definition is_ptr :: "TypeStore \<Rightarrow> IrType \<Rightarrow> fault + bool" where
  "is_ptr s ty =
     (case ty of
        Compound r \<Rightarrow> rbind (resolve_compound s r) (\<lambda>c. Inr (case c of Ptr _ \<Rightarrow> True | _ \<Rightarrow> False))
      | _ \<Rightarrow> Inr False)"

definition is_array :: "TypeStore \<Rightarrow> IrType \<Rightarrow> fault + bool" where
  "is_array s ty =
     (case ty of
        Compound r \<Rightarrow> rbind (resolve_compound s r) (\<lambda>c. Inr (case c of Array _ _ \<Rightarrow> True | _ \<Rightarrow> False))
      | _ \<Rightarrow> Inr False)"

definition is_struct :: "TypeStore \<Rightarrow> IrType \<Rightarrow> fault + bool" where
  "is_struct s ty =
     (case ty of
        Compound r \<Rightarrow> rbind (resolve_compound s r) (\<lambda>c. Inr (case c of Struct _ \<Rightarrow> True | _ \<Rightarrow> False))
      | _ \<Rightarrow> Inr False)"

definition is_func :: "TypeStore \<Rightarrow> IrType \<Rightarrow> fault + bool" where
  "is_func s ty =
     (case ty of
        Compound r \<Rightarrow> rbind (resolve_compound s r) (\<lambda>c. Inr (case c of Func _ _ \<Rightarrow> True | _ \<Rightarrow> False))
      | _ \<Rightarrow> Inr False)"

definition update_struct_fields :: "string \<Rightarrow> IrType list \<Rightarrow> (TypeStore, unit) op" where
  "update_struct_fields name flds s =
     (case lookup_struct s name of
        None \<Rightarrow> Inl (Panic ''struct is not found'')
      | Some r \<Rightarrow> rbind (resolve_compound s r) (\<lambda>cmpd.
          let s1 = s\<lparr>rev_types := (rev_types s)(cmpd := None)\<rparr>
          in case cmpd of
               Struct sd \<Rightarrow>
                 let new = Struct (sd\<lparr>struct_fields := flds\<rparr>)
                 in Inr ((), s1\<lparr>compounds := (compounds s1)[r := new],
                               rev_types := (rev_types s1)(new \<mapsto> r)\<rparr>)
             | _ \<Rightarrow> Inr ((), s1)))"

definition all_struct_data :: "TypeStore \<Rightarrow> fault + StructData list" where
  "all_struct_data s =
     rmap (\<lambda>(_, r). rbind (resolve_compound s r)
             (\<lambda>c. case c of Struct d \<Rightarrow> Inr d | _ \<Rightarrow> Inl (Panic ''unreachable'')))
          (struct_types s)"

section \<open>The EVM type layout\<close>

datatype TypeLayoutError = UnsupportedType IrType | UnrepresentableType IrType

datatype Endian = Be | Le

text \<open>
  \<open>EvmTypeLayout::size_of\<close> recurses through array elements and struct fields. A struct that holds
  itself by value makes it run forever, so the recursion carries fuel; \<open>evm_fuel\<close> is enough for
  every store without such a struct (\<open>evm_size_of_terminates\<close>).
\<close>

fun sum_sizes :: "(IrType \<Rightarrow> fault + (TypeLayoutError + nat)) \<Rightarrow> IrType list \<Rightarrow> nat \<Rightarrow> fault + (TypeLayoutError + nat)" where
  "sum_sizes f [] acc = Inr (Inr acc)"
| "sum_sizes f (fld # flds) acc =
     rbind (f fld) (\<lambda>r. case r of
         Inl e \<Rightarrow> Inr (Inl e)
       | Inr n \<Rightarrow> rbind (usize_add acc n) (\<lambda>acc'. sum_sizes f flds acc'))"

lemma layout_case_eq_Inr [simp]:
  "(case r of Inl e \<Rightarrow> Inr (Inl (h e)) | Inr m \<Rightarrow> k m) = Inr (Inr z) \<longleftrightarrow> (\<exists>m. r = Inr m \<and> k m = Inr (Inr z))"
  by (cases r) auto

primrec evm_size_of :: "nat \<Rightarrow> TypeStore \<Rightarrow> IrType \<Rightarrow> fault + (TypeLayoutError + nat)" where
  "evm_size_of 0 s ty = Inl Out_of_fuel"
| "evm_size_of (Suc fuel) s ty =
     (case ty of
        Unit \<Rightarrow> Inr (Inr 0)
      | Compound cmpd \<Rightarrow> rbind (resolve_compound s cmpd) (\<lambda>d. case d of
            Array elem len \<Rightarrow> rbind (evm_size_of fuel s elem) (\<lambda>r. case r of
                Inl e \<Rightarrow> Inr (Inl e)
              | Inr n \<Rightarrow> rbind (usize_mul n len) (\<lambda>m. Inr (Inr m)))
          | Ptr _ \<Rightarrow> Inr (Inr 32)
          | Struct sd \<Rightarrow>
              if packed sd then Inl (Panic ''packed data is not supported yet!'')
              else sum_sizes (\<lambda>fld. evm_size_of fuel s fld) (struct_fields sd) 0
          | Func _ _ \<Rightarrow> Inr (Inl (UnrepresentableType ty)))
      | _ \<Rightarrow> Inr (Inr 32))"

definition evm_fuel :: "TypeStore \<Rightarrow> nat" where
  "evm_fuel s = Suc (length (compounds s))"

definition evm_align_of :: "TypeStore \<Rightarrow> IrType \<Rightarrow> fault + (TypeLayoutError + nat)" where
  "evm_align_of s ty =
     rbind (evm_size_of (evm_fuel s) s ty) (\<lambda>r. Inr (case r of
         Inl e \<Rightarrow> Inl e
       | Inr n \<Rightarrow> if n = 0 then Inr 1 else Inr 32))"

definition evm_pointer_repl :: IrType where
  "evm_pointer_repl = Ty_I256"

definition evm_endian :: Endian where
  "evm_endian = Be"

text \<open>\<open>ModuleCtx::size_of_unchecked\<close> and \<open>align_of_unchecked\<close> unwrap the layout's answer.\<close>

definition size_of_unchecked :: "TypeStore \<Rightarrow> IrType \<Rightarrow> fault + nat" where
  "size_of_unchecked s ty =
     rbind (evm_size_of (evm_fuel s) s ty) (\<lambda>r. case r of
         Inl _ \<Rightarrow> Inl (Panic ''called Result::unwrap on an Err value'')
       | Inr n \<Rightarrow> Inr n)"

definition align_of_unchecked :: "TypeStore \<Rightarrow> IrType \<Rightarrow> fault + nat" where
  "align_of_unchecked s ty =
     rbind (evm_align_of s ty) (\<lambda>r. case r of
         Inl _ \<Rightarrow> Inl (Panic ''called Result::unwrap on an Err value'')
       | Inr n \<Rightarrow> Inr n)"

section \<open>Interning\<close>

text \<open>
  The store's invariant: the reverse map holds exactly the compounds of the list under their
  index (so no compound occurs twice), and the struct names exactly the structs.
\<close>

definition ty_store_ok :: "TypeStore \<Rightarrow> bool" where
  "ty_store_ok s \<longleftrightarrow>
     (\<forall>c r. rev_types s c = Some r \<longleftrightarrow> r < length (compounds s) \<and> compounds s ! r = c)
   \<and> (\<forall>n r. lookup_struct s n = Some r \<longleftrightarrow>
        r < length (compounds s) \<and> (\<exists>d. compounds s ! r = Struct d \<and> struct_name d = n))"

lemma ty_store_ok_rev: "ty_store_ok s \<Longrightarrow> rev_types s c = Some r \<longleftrightarrow> r < length (compounds s) \<and> compounds s ! r = c"
  by (simp add: ty_store_ok_def)

lemma ty_store_ok_struct:
  "ty_store_ok s \<Longrightarrow> lookup_struct s n = Some r \<longleftrightarrow>
     r < length (compounds s) \<and> (\<exists>d. compounds s ! r = Struct d \<and> struct_name d = n)"
  by (simp add: ty_store_ok_def)

lemma ty_store_ok_fresh: "ty_store_ok s \<Longrightarrow> rev_types s c = None \<Longrightarrow> r < length (compounds s) \<Longrightarrow> compounds s ! r \<noteq> c"
  by (metis option.distinct(1) ty_store_ok_rev)

lemma ty_store_ok_empty [simp]: "ty_store_ok empty_store"
  by (simp add: ty_store_ok_def empty_store_def lookup_struct_def)

lemma make_compound_new_ok:
  assumes ok: "ty_store_ok s" and new: "rev_types s c = None"
    and names: "\<And>d. c = Struct d \<Longrightarrow> lookup_struct s (struct_name d) = None"
    and s': "compounds s' = compounds s @ [c]" "rev_types s' = (rev_types s)(c \<mapsto> length (compounds s))"
      "struct_types s' = (case c of Struct d \<Rightarrow> struct_types s @ [(struct_name d, length (compounds s))] | _ \<Rightarrow> struct_types s)"
  shows "ty_store_ok s'"
proof -
  have "rev_types s' k = Some r \<longleftrightarrow> r < length (compounds s') \<and> compounds s' ! r = k" for k r
    using ty_store_ok_rev [OF ok, of k r] ty_store_ok_fresh [OF ok new, of r]
    by (auto simp: s' nth_append less_Suc_eq)
  moreover have "lookup_struct s' n = Some r \<longleftrightarrow>
     r < length (compounds s') \<and> (\<exists>d. compounds s' ! r = Struct d \<and> struct_name d = n)" for n r
  proof (cases "\<exists>d. c = Struct d")
    case True
    then obtain d where d: "c = Struct d" by blast
    have "lookup_struct s' n = (case lookup_struct s n of Some w \<Rightarrow> Some w
        | None \<Rightarrow> if n = struct_name d then Some (length (compounds s)) else None)"
      by (simp add: lookup_struct_def s' d map_add_def split: option.splits)
    then show ?thesis
      using ty_store_ok_struct [OF ok, of n r] names [OF d] ty_store_ok_struct [OF ok, of "struct_name d" r]
      by (auto simp: s' d nth_append less_Suc_eq split: option.splits)
  next
    case False
    then have "struct_types s' = struct_types s" by (cases c) (auto simp: s')
    then have "lookup_struct s' n = lookup_struct s n" by (simp add: lookup_struct_def)
    with False show ?thesis
      using ty_store_ok_struct [OF ok, of n r] by (auto simp: s' nth_append less_Suc_eq)
  qed
  ultimately show ?thesis unfolding ty_store_ok_def by blast
qed

lemma make_compound_cases:
  assumes "make_compound c s = Inr (r, s')"
  shows "rev_types s c = Some r \<and> s' = s \<or>
    rev_types s c = None \<and> r = length (compounds s)
    \<and> (\<forall>d. c = Struct d \<longrightarrow> lookup_struct s (struct_name d) = None)
    \<and> compounds s' = compounds s @ [c] \<and> rev_types s' = (rev_types s)(c \<mapsto> r)
    \<and> struct_types s' = (case c of Struct d \<Rightarrow> struct_types s @ [(struct_name d, length (compounds s))] | _ \<Rightarrow> struct_types s)"
  using assms
  by (auto simp: make_compound_def Let_def lookup_struct_def split: option.splits CompoundType.splits if_splits)

text \<open>Interning keeps the store's invariant, gives back the compound it was asked for, leaves
  every earlier reference as it was, and asking again for the same compound returns the same
  reference without changing the store.\<close>
theorem make_compound_interns:
  assumes "ty_store_ok s" and "make_compound c s = Inr (r, s')"
  shows "ty_store_ok s' \<and> resolve_compound s' r = Inr c \<and> make_compound c s' = Inr (r, s')
       \<and> (\<exists>ext. compounds s' = compounds s @ ext)"
  using make_compound_cases [OF assms(2)]
proof (elim disjE conjE)
  assume "rev_types s c = Some r" "s' = s"
  moreover from this have "make_compound c s = Inr (r, s)" by (simp add: make_compound_def)
  moreover have "r < length (compounds s) \<and> compounds s ! r = c"
    using assms(1) \<open>rev_types s c = Some r\<close> by (simp add: ty_store_ok_rev)
  ultimately show ?thesis using assms(1) by (simp add: resolve_compound_def)
next
  assume *: "rev_types s c = None" "r = length (compounds s)"
    "\<forall>d. c = Struct d \<longrightarrow> lookup_struct s (struct_name d) = None"
    "compounds s' = compounds s @ [c]" "rev_types s' = (rev_types s)(c \<mapsto> r)"
    "struct_types s' = (case c of Struct d \<Rightarrow> struct_types s @ [(struct_name d, length (compounds s))] | _ \<Rightarrow> struct_types s)"
  then have "ty_store_ok s'" by (intro make_compound_new_ok [OF assms(1)]) auto
  with * show ?thesis by (simp add: resolve_compound_def make_compound_def)
qed

theorem make_compound_interns_witness:
  "\<exists>r s'. make_compound (Ptr Ty_I8) empty_store = Inr (r, s') \<and> ty_store_ok s' \<and> resolve_compound s' r = Inr (Ptr Ty_I8)"
proof -
  obtain r s' where m: "make_compound (Ptr Ty_I8) empty_store = Inr (r, s')"
    by (simp add: make_compound_def empty_store_def Let_def)
  from make_compound_interns [OF ty_store_ok_empty m] m show ?thesis by blast
qed

text \<open>Redefining the fields of a named struct keeps the invariant, the reference of the struct
  and every other compound, and makes the new fields what the reference resolves to; a name
  that was never defined panics.\<close>
theorem update_struct_fields_ok:
  assumes ok: "ty_store_ok s" and r: "lookup_struct s name = Some r"
  shows "\<exists>s' d. update_struct_fields name flds s = Inr ((), s') \<and> ty_store_ok s'
           \<and> resolve_compound s r = Inr (Struct d) \<and> struct_name d = name
           \<and> compounds s' = (compounds s)[r := Struct (d\<lparr>struct_fields := flds\<rparr>)]
           \<and> struct_types s' = struct_types s"
proof -
  from ty_store_ok_struct [OF ok] r obtain d where
    d: "r < length (compounds s)" "compounds s ! r = Struct d" "struct_name d = name" by blast
  let ?new = "Struct (d\<lparr>struct_fields := flds\<rparr>)"
  let ?s' = "s\<lparr>compounds := (compounds s)[r := ?new],
                rev_types := (rev_types s)(Struct d := None, ?new \<mapsto> r)\<rparr>"
  have unique: "q = r" if "q < length (compounds s)" "compounds s ! q = Struct d'" "struct_name d' = name" for q d'
    using that r ty_store_ok_struct [OF ok, of name q] by auto
  have "rev_types ?s' k = Some q \<longleftrightarrow> q < length (compounds ?s') \<and> compounds ?s' ! q = k" for k q
    using ty_store_ok_rev [OF ok, of k q] unique [of q] d by (auto simp: nth_list_update)
  moreover have "lookup_struct ?s' n = Some q \<longleftrightarrow>
     q < length (compounds ?s') \<and> (\<exists>e. compounds ?s' ! q = Struct e \<and> struct_name e = n)" for n q
    using ty_store_ok_struct [OF ok, of n q] d by (auto simp: lookup_struct_def nth_list_update)
  ultimately have "ty_store_ok ?s'" unfolding ty_store_ok_def by blast
  moreover have "update_struct_fields name flds s = Inr ((), ?s')"
    using d r by (simp add: update_struct_fields_def resolve_compound_def index_list_def Let_def)
  ultimately show ?thesis
    using d by (intro exI [where x = ?s'] exI [where x = d]) (simp add: resolve_compound_def)
qed

theorem update_struct_fields_ok_witness:
  "\<exists>s s'. ty_store_ok s \<and> lookup_struct s ''S'' = Some 0 \<and> update_struct_fields ''S'' [Ty_I8] s = Inr ((), s')
     \<and> ty_store_ok s'"
proof -
  let ?c = "Struct \<lparr>struct_name = ''S'', struct_fields = [], packed = False\<rparr>"
  obtain s where m: "make_compound ?c empty_store = Inr (0, s)" and l: "lookup_struct s ''S'' = Some 0"
    by (simp add: make_compound_def empty_store_def lookup_struct_def Let_def)
  from make_compound_new_ok [OF ty_store_ok_empty, of ?c s] make_compound_cases [OF m] have "ty_store_ok s"
    by (auto simp: empty_store_def lookup_struct_def)
  from update_struct_fields_ok [OF this l, of "[Ty_I8]"] this l show ?thesis by blast
qed

section \<open>The layout terminates and is made of words\<close>

fun by_value :: "CompoundType \<Rightarrow> IrType list" where
  "by_value (Array elem _) = [elem]"
| "by_value (Struct sd) = struct_fields sd"
| "by_value _ = []"

text \<open>
  \<open>ranked f s\<close>: \<open>f\<close> ranks the references so that what a compound holds by value has a smaller
  rank. A store built by the \<open>make_\<close> operations alone is ranked by the index; \<open>update_struct_fields\<close>
  keeps a ranking exactly when it adds no struct that contains itself by value.
\<close>

definition ranked :: "(CompoundTypeRef \<Rightarrow> nat) \<Rightarrow> TypeStore \<Rightarrow> bool" where
  "ranked f s \<longleftrightarrow> (\<forall>r < length (compounds s). f r < length (compounds s) \<and>
     (\<forall>c. Compound c \<in> set (by_value (compounds s ! r)) \<longrightarrow> c < length (compounds s) \<and> f c < f r))"

lemma sum_sizes_cong_fuel:
  assumes "\<And>ty. ty \<in> set tys \<Longrightarrow> f ty \<noteq> Inl Out_of_fuel" and "\<And>ty. ty \<in> set tys \<Longrightarrow> g ty = f ty"
  shows "sum_sizes f tys n \<noteq> Inl Out_of_fuel \<and> sum_sizes g tys n = sum_sizes f tys n"
  using assms
proof (induction tys arbitrary: n)
  case (Cons ty tys)
  then show ?case
    by (cases "f ty") (auto split: sum.splits simp: usize_add_def)
qed simp

lemma evm_size_of_Compound:
  "r < length (compounds s) \<Longrightarrow> evm_size_of (Suc n) s (Compound r) = (case compounds s ! r of
       Array elem len \<Rightarrow> rbind (evm_size_of n s elem) (\<lambda>q. case q of
           Inl e \<Rightarrow> Inr (Inl e) | Inr m \<Rightarrow> rbind (usize_mul m len) (\<lambda>k. Inr (Inr k)))
     | Ptr _ \<Rightarrow> Inr (Inr 32)
     | Struct sd \<Rightarrow> if packed sd then Inl (Panic ''packed data is not supported yet!'')
         else sum_sizes (evm_size_of n s) (struct_fields sd) 0
     | Func _ _ \<Rightarrow> Inr (Inl (UnrepresentableType (Compound r))))"
  by (simp add: resolve_compound_def index_list_def)

lemma evm_size_of_scalar:
  "\<forall>r. ty \<noteq> Compound r \<Longrightarrow> evm_size_of (Suc n) s ty = Inr (Inr (if ty = Unit then 0 else 32))"
  by (cases ty) auto

declare evm_size_of.simps(2) [simp del]

lemma evm_size_of_enough:
  assumes "ranked f s"
  shows "(\<forall>r. ty = Compound r \<longrightarrow> r < length (compounds s) \<and> f r < n) \<Longrightarrow>
    evm_size_of (Suc n) s ty \<noteq> Inl Out_of_fuel \<and> (\<forall>k \<ge> Suc n. evm_size_of k s ty = evm_size_of (Suc n) s ty)"
proof (induction n arbitrary: ty rule: less_induct)
  case (less n)
  show ?case
  proof (cases "\<exists>r. ty = Compound r")
    case False
    then show ?thesis by (auto simp: evm_size_of_scalar dest: Suc_le_D)
  next
    case True
    then obtain r where r: "ty = Compound r" "r < length (compounds s)" "f r < n" using less.prems by blast
    have child: "evm_size_of n s t \<noteq> Inl Out_of_fuel \<and> (\<forall>k \<ge> n. evm_size_of k s t = evm_size_of n s t)"
      if "t \<in> set (by_value (compounds s ! r))" for t
    proof -
      from r(3) obtain m where m: "n = Suc m" by (cases n) auto
      have "\<forall>q. t = Compound q \<longrightarrow> q < length (compounds s) \<and> f q < m"
      proof (intro allI impI)
        fix q assume "t = Compound q"
        with assms r(2) that have "q < length (compounds s)" "f q < f r" unfolding ranked_def by blast+
        with r(3) m show "q < length (compounds s) \<and> f q < m" by linarith
      qed
      then have "evm_size_of (Suc m) s t \<noteq> Inl Out_of_fuel \<and> (\<forall>k \<ge> Suc m. evm_size_of k s t = evm_size_of (Suc m) s t)"
        using m by (intro less.IH) simp_all
      then show ?thesis unfolding m .
    qed
    have "evm_size_of (Suc n) s ty \<noteq> Inl Out_of_fuel \<and> evm_size_of (Suc k) s ty = evm_size_of (Suc n) s ty"
      if k: "n \<le> k" for k
    proof (cases "compounds s ! r")
      case (Array elem len)
      then have "evm_size_of n s elem \<noteq> Inl Out_of_fuel" "evm_size_of k s elem = evm_size_of n s elem"
        using child [of elem] k unfolding Array by (metis by_value.simps(1) list.set_intros(1))+
      with Array r show ?thesis
        by (cases "evm_size_of n s elem") (simp_all add: evm_size_of_Compound usize_mul_def split: sum.split)
    next
      case (Struct sd)
      have "sum_sizes (evm_size_of n s) (struct_fields sd) 0 \<noteq> Inl Out_of_fuel
          \<and> sum_sizes (evm_size_of k s) (struct_fields sd) 0 = sum_sizes (evm_size_of n s) (struct_fields sd) 0"
      proof (rule sum_sizes_cong_fuel)
        fix t assume "t \<in> set (struct_fields sd)"
        with child [of t] Struct k show "evm_size_of n s t \<noteq> Inl Out_of_fuel" "evm_size_of k s t = evm_size_of n s t"
          by (metis by_value.simps(2))+
      qed
      with Struct r show ?thesis by (simp add: evm_size_of_Compound)
    next
      case (Ptr t)
      with r show ?thesis by (simp add: evm_size_of_Compound)
    next
      case (Func a b)
      with r show ?thesis by (simp add: evm_size_of_Compound)
    qed
    from this [of n] this show ?thesis by (metis Suc_le_D Suc_le_mono le_refl)
  qed
qed

lemma unwrap_layout_eq_Inr [simp]:
  "(case r of Inl _ \<Rightarrow> Inl e | Inr n \<Rightarrow> Inr n) = (Inr m :: fault + nat) \<longleftrightarrow> r = Inr m"
  by (cases r) auto

lemma sum_sizes_dvd:
  assumes "\<And>ty m. ty \<in> set tys \<Longrightarrow> f ty = Inr (Inr m) \<Longrightarrow> 32 dvd m" and "32 dvd n"
    and "sum_sizes f tys n = Inr (Inr k)"
  shows "32 dvd k"
  using assms
proof (induction tys arbitrary: n)
  case (Cons ty tys)
  then obtain m where "f ty = Inr (Inr m)" "sum_sizes f tys (n + m) = Inr (Inr k)" by auto
  with Cons show ?case by (metis dvd_add list.set_intros)
qed simp

lemma evm_size_of_dvd: "evm_size_of fuel s ty = Inr (Inr n) \<Longrightarrow> 32 dvd n"
proof (induction fuel arbitrary: ty n)
  case (Suc fuel)
  show ?case
  proof (cases "\<exists>r. ty = Compound r")
    case True
    then obtain r where r: "ty = Compound r" by blast
    with Suc.prems have lt: "r < length (compounds s)"
      by (auto simp: evm_size_of.simps(2) resolve_compound_def)
    show ?thesis
    proof (cases "compounds s ! r")
      case (Array elem len)
      with Suc.prems r lt obtain m where "evm_size_of fuel s elem = Inr (Inr m)" "n = m * len"
        by (auto simp: evm_size_of_Compound)
      with Suc.IH show ?thesis by auto
    next
      case (Struct sd)
      with Suc.prems r lt have "sum_sizes (evm_size_of fuel s) (struct_fields sd) 0 = Inr (Inr n)"
        by (auto simp: evm_size_of_Compound split: if_splits)
      then show ?thesis by (rule sum_sizes_dvd [rotated 2]) (auto dest: Suc.IH)
    qed (use Suc.prems r lt in \<open>auto simp: evm_size_of_Compound\<close>)
  qed (use Suc.prems in \<open>auto simp: evm_size_of_scalar split: if_splits\<close>)
qed simp

text \<open>The size of a type, by rules over the types that do not look at how it is computed: nothing for
  the unit type, a word of 32 bytes for every scalar and pointer, \<open>len\<close> times its element for an
  array and the sum of its fields for a struct; functions and packed structs have none, and
  neither has a type that does not fit in a \<open>usize\<close>.\<close>

inductive has_size :: "TypeStore \<Rightarrow> IrType \<Rightarrow> nat \<Rightarrow> bool" for s :: TypeStore where
  unit_size: "has_size s Unit 0"
| scalar_size: "ty \<in> {Ty_I1, Ty_I8, Ty_I16, Ty_I32, Ty_I64, Ty_I128, Ty_I256} \<Longrightarrow> has_size s ty 32"
| pointer_size: "r < length (compounds s) \<Longrightarrow> compounds s ! r = Ptr t \<Longrightarrow> has_size s (Compound r) 32"
| array_size: "r < length (compounds s) \<Longrightarrow> compounds s ! r = Array elem len \<Longrightarrow> has_size s elem n \<Longrightarrow>
    n * len < usize_limit \<Longrightarrow> has_size s (Compound r) (n * len)"
| struct_size: "r < length (compounds s) \<Longrightarrow> compounds s ! r = Struct sd \<Longrightarrow> \<not> packed sd \<Longrightarrow>
    list_all2 (has_size s) (struct_fields sd) ns \<Longrightarrow> sum_list ns < usize_limit \<Longrightarrow>
    has_size s (Compound r) (sum_list ns)"

lemma sum_sizes_sound:
  "sum_sizes f tys acc = Inr (Inr n) \<Longrightarrow> acc < usize_limit \<Longrightarrow>
    \<exists>ns. list_all2 (\<lambda>ty m. f ty = Inr (Inr m)) tys ns \<and> n = acc + sum_list ns \<and> n < usize_limit"
proof (induction tys arbitrary: acc)
  case (Cons ty tys)
  then obtain m where m: "f ty = Inr (Inr m)" "acc + m < usize_limit" "sum_sizes f tys (acc + m) = Inr (Inr n)"
    by auto
  from Cons.IH [OF m(3,2)] obtain ns where
    "list_all2 (\<lambda>ty m. f ty = Inr (Inr m)) tys ns" "n = acc + m + sum_list ns" "n < usize_limit" by blast
  with m(1) show ?case by (intro exI [of _ "m # ns"]) simp
qed simp

lemma sum_sizes_complete:
  "list_all2 (\<lambda>ty m. f ty = Inr (Inr m)) tys ns \<Longrightarrow> acc + sum_list ns < usize_limit \<Longrightarrow>
    sum_sizes f tys acc = Inr (Inr (acc + sum_list ns))"
proof (induction tys arbitrary: acc ns)
  case (Cons ty tys)
  then obtain m ms where "ns = m # ms" "f ty = Inr (Inr m)" "list_all2 (\<lambda>ty m. f ty = Inr (Inr m)) tys ms"
    by (auto simp: list_all2_Cons1)
  with Cons.IH [of ms "acc + m"] Cons.prems(2) show ?case by (simp add: usize_add_def add.assoc)
qed simp

lemma evm_size_of_sound: "evm_size_of fuel s ty = Inr (Inr n) \<Longrightarrow> has_size s ty n"
proof (induction fuel arbitrary: ty n)
  case (Suc fuel)
  show ?case
  proof (cases "\<exists>r. ty = Compound r")
    case True
    then obtain r where r: "ty = Compound r" by blast
    with Suc.prems have lt: "r < length (compounds s)"
      by (auto simp: evm_size_of.simps(2) resolve_compound_def)
    show ?thesis
    proof (cases "compounds s ! r")
      case (Array elem len)
      with Suc.prems r lt obtain m where "evm_size_of fuel s elem = Inr (Inr m)" "n = m * len" "n < usize_limit"
        by (auto simp: evm_size_of_Compound)
      with Suc.IH [of elem m] Array r lt show ?thesis by (auto intro: has_size.intros)
    next
      case (Struct sd)
      with Suc.prems r lt have p: "\<not> packed sd" and "sum_sizes (evm_size_of fuel s) (struct_fields sd) 0 = Inr (Inr n)"
        by (auto simp: evm_size_of_Compound split: if_splits)
      from sum_sizes_sound [OF this(2)] obtain ns where
        ns: "list_all2 (\<lambda>ty m. evm_size_of fuel s ty = Inr (Inr m)) (struct_fields sd) ns" "n = sum_list ns" "n < usize_limit"
        by (auto simp: usize_limit_def)
      from ns(1) have "list_all2 (has_size s) (struct_fields sd) ns" by (rule list_all2_mono) (rule Suc.IH)
      with ns(2,3) Struct p r lt show ?thesis by (auto intro: has_size.intros)
    qed (use Suc.prems r lt in \<open>auto simp: evm_size_of_Compound intro: has_size.intros\<close>)
  next
    case False
    with Suc.prems show ?thesis
      by (cases ty) (auto simp: evm_size_of_scalar intro: has_size.intros)
  qed
qed simp

lemma evm_size_of_complete: "has_size s ty n \<Longrightarrow> \<exists>k. \<forall>j \<ge> k. evm_size_of j s ty = Inr (Inr n)"
proof (induction rule: has_size.induct)
  case unit_size
  show ?case by (rule exI [of _ 1]) (auto simp: evm_size_of_scalar dest!: Suc_le_D)
next
  case (scalar_size ty)
  then show ?case by (intro exI [of _ 1]) (auto simp: evm_size_of_scalar dest!: Suc_le_D)
next
  case (pointer_size r t)
  then show ?case by (intro exI [of _ 1]) (auto simp: evm_size_of_Compound dest!: Suc_le_D)
next
  case (array_size r elem len n)
  then obtain k where k: "evm_size_of j s elem = Inr (Inr n)" if "k \<le> j" for j by blast
  have "evm_size_of j s (Compound r) = Inr (Inr (n * len))" if "Suc k \<le> j" for j
    using that array_size(1,2,4) k by (cases j) (simp_all add: evm_size_of_Compound usize_mul_def)
  then show ?case by blast
next
  case (struct_size r sd ns)
  have "\<exists>k. \<forall>j \<ge> k. list_all2 (\<lambda>ty m. evm_size_of j s ty = Inr (Inr m)) (struct_fields sd) ns"
    using struct_size.IH
  proof (induction rule: list_all2_induct)
    case (Cons t ts m ms)
    then obtain k k' where "\<forall>j \<ge> k. evm_size_of j s t = Inr (Inr m)"
      "\<forall>j \<ge> k'. list_all2 (\<lambda>ty m. evm_size_of j s ty = Inr (Inr m)) ts ms" by blast
    then show ?case by (intro exI [of _ "max k k'"]) simp
  qed simp
  then obtain k where "\<forall>j \<ge> k. list_all2 (\<lambda>ty m. evm_size_of j s ty = Inr (Inr m)) (struct_fields sd) ns" by blast
  then have "sum_sizes (evm_size_of j s) (struct_fields sd) 0 = Inr (Inr (sum_list ns))" if "k \<le> j" for j
    using sum_sizes_complete [where acc = 0] struct_size.hyps(4) that by force
  with struct_size.hyps(1-3) have "evm_size_of j s (Compound r) = Inr (Inr (sum_list ns))" if "Suc k \<le> j" for j
    using that by (cases j) (simp_all add: evm_size_of_Compound)
  then show ?case by blast
qed

text \<open>C38: when no compound holds itself by value, the EVM layout answers for every type of the
  store (with the fuel of the model, and with any larger amount, the same answer). It answers with
  exactly the size that the rules give, so a type without one is an error or a panic; every size
  is a whole number of 32-byte words, and the alignment is a word unless the type is empty.\<close>
theorem evm_layout_total:
  assumes "ranked f s" and "\<forall>r. ty = Compound r \<longrightarrow> r < length (compounds s)"
  shows "evm_size_of (evm_fuel s) s ty \<noteq> Inl Out_of_fuel
       \<and> evm_size_of (evm_fuel s + k) s ty = evm_size_of (evm_fuel s) s ty
       \<and> (size_of_unchecked s ty = Inr n \<longleftrightarrow> has_size s ty n)
       \<and> (has_size s ty n \<longrightarrow> 32 dvd n \<and> align_of_unchecked s ty = Inr (if n = 0 then 1 else 32))"
proof -
  have "\<forall>r. ty = Compound r \<longrightarrow> r < length (compounds s) \<and> f r < length (compounds s)"
    using assms by (auto simp: ranked_def)
  from evm_size_of_enough [OF assms(1) this]
  have fuel: "evm_size_of (evm_fuel s) s ty \<noteq> Inl Out_of_fuel" "evm_size_of (evm_fuel s + j) s ty = evm_size_of (evm_fuel s) s ty" for j
    unfolding evm_fuel_def by (metis, metis le_add1)
  have sz: "size_of_unchecked s ty = Inr n \<longleftrightarrow> evm_size_of (evm_fuel s) s ty = Inr (Inr n)"
    unfolding size_of_unchecked_def rbind_eq_Inr by (simp only: unwrap_layout_eq_Inr) blast
  have iff: "evm_size_of (evm_fuel s) s ty = Inr (Inr n) \<longleftrightarrow> has_size s ty n"
    using evm_size_of_sound evm_size_of_complete [of s ty n] fuel(2) by (metis le_add2)
  have "32 dvd n \<and> align_of_unchecked s ty = Inr (if n = 0 then 1 else 32)" if "has_size s ty n"
    using that evm_size_of_dvd [of "evm_fuel s" s ty n] by (simp add: iff [symmetric] align_of_unchecked_def evm_align_of_def)
  with fuel sz iff show ?thesis by blast
qed

theorem evm_layout_total_witness:
  "\<exists>s. ranked id s \<and> size_of_unchecked s (Compound 1) = Inr 128 \<and> align_of_unchecked s (Compound 1) = Inr 32"
proof -
  let ?sd = "\<lparr>struct_name = ''S'', struct_fields = [Compound 0, Unit, Ty_I1], packed = False\<rparr>"
  let ?s = "\<lparr>compounds = [Array Ty_I8 3, Struct ?sd], rev_types = Map.empty, struct_types = []\<rparr>"
  have r: "ranked id ?s" by (auto simp: ranked_def less_Suc_eq nth_Cons split: nat.splits)
  have "has_size ?s Ty_I8 32" by (rule has_size.intros) simp
  then have a: "has_size ?s (Compound 0) (32 * 3)"
    by (intro array_size [where elem = Ty_I8]) (simp_all add: usize_limit_def)
  have "has_size ?s (Compound 1) (sum_list [96, 0, 32])"
    using a by (intro struct_size [where sd = ?sd]) (auto simp: usize_limit_def intro: has_size.intros)
  then have h: "has_size ?s (Compound 1) 128" by simp
  have "\<forall>r. Compound 1 = Compound r \<longrightarrow> r < length (compounds ?s)" by simp
  from evm_layout_total [OF r this, where n = 128] h r show ?thesis by (intro exI [where x = ?s]) simp
qed

end
