(* ===== verification/Immediates.thy ===== *)
theory Immediates
  imports IrTypes
begin

text \<open>
  \<open>crates/ir/src/value.rs\<close>: the immediates. Every operation on an immediate widens it to an
  \<open>I256\<close>, works there and cuts the result back to the immediate's type. The last sections say
  what this amounts to: the arithmetic wraps at the width of the type, comparisons and
  conversions are those of the signed and unsigned readings, and signed division breaks where
  \<open>I256\<close> yields a negative zero.
\<close>

section \<open>Values and immediates\<close>

datatype Immediate =
    Imm_I1 bool
  | Imm_I8 "8 word"
  | Imm_I16 "16 word"
  | Imm_I32 "32 word"
  | Imm_I64 "64 word"
  | Imm_I128 "128 word"
  | Imm_I256 I256

fun imm_ty :: "Immediate \<Rightarrow> IrType" where
  "imm_ty (Imm_I1 _) = Ty_I1"
| "imm_ty (Imm_I8 _) = Ty_I8"
| "imm_ty (Imm_I16 _) = Ty_I16"
| "imm_ty (Imm_I32 _) = Ty_I32"
| "imm_ty (Imm_I64 _) = Ty_I64"
| "imm_ty (Imm_I128 _) = Ty_I128"
| "imm_ty (Imm_I256 _) = Ty_I256"

text \<open>\<open>From<bool> for I256\<close>: \<open>I256::all_one()\<close>, which never panics (\<open>i256_all_one_minus_one\<close>), or zero.\<close>

definition i256_from_bool :: "bool \<Rightarrow> I256" where
  "i256_from_bool val = (if val then I256 True 1 else i256_zero)"

lemma i256_all_one_minus_one: "i256_all_one = Inr (I256 True 1)"
  by (simp add: i256_all_one_def i256_zero_def i256_one_def) (simp add: from_u256_eq unsigned_minus_1_eq_mask mask_eq_exp_minus_1)

fun as_i256 :: "Immediate \<Rightarrow> I256" where
  "as_i256 (Imm_I1 val) = i256_from_bool val"
| "as_i256 (Imm_I8 val) = from_signed val"
| "as_i256 (Imm_I16 val) = from_signed val"
| "as_i256 (Imm_I32 val) = from_signed val"
| "as_i256 (Imm_I64 val) = from_signed val"
| "as_i256 (Imm_I128 val) = from_signed val"
| "as_i256 (Imm_I256 val) = val"

definition from_i256 :: "I256 \<Rightarrow> IrType \<Rightarrow> fault + Immediate" where
  "from_i256 val ty =
     (case ty of
        Ty_I1 \<Rightarrow> rbind (trunc_to_i1 val) (\<lambda>v. Inr (Imm_I1 v))
      | Ty_I8 \<Rightarrow> rbind (trunc_to_i8 val) (\<lambda>v. Inr (Imm_I8 v))
      | Ty_I16 \<Rightarrow> rbind (trunc_to_i16 val) (\<lambda>v. Inr (Imm_I16 v))
      | Ty_I32 \<Rightarrow> rbind (trunc_to_i32 val) (\<lambda>v. Inr (Imm_I32 v))
      | Ty_I64 \<Rightarrow> rbind (trunc_to_i64 val) (\<lambda>v. Inr (Imm_I64 v))
      | Ty_I128 \<Rightarrow> rbind (trunc_to_i128 val) (\<lambda>v. Inr (Imm_I128 v))
      | Ty_I256 \<Rightarrow> Inr (Imm_I256 val)
      | _ \<Rightarrow> Inl (Panic ''unreachable''))"

definition apply_binop_raw :: "Immediate \<Rightarrow> Immediate \<Rightarrow> (I256 \<Rightarrow> I256 \<Rightarrow> fault + 'r) \<Rightarrow> fault + 'r" where
  "apply_binop_raw self rhs f =
     rbind (assert_that (imm_ty self = imm_ty rhs) ''assertion failed: self.ty() == rhs.ty()'')
       (\<lambda>_. f (as_i256 self) (as_i256 rhs))"

definition apply_binop :: "Immediate \<Rightarrow> Immediate \<Rightarrow> (I256 \<Rightarrow> I256 \<Rightarrow> fault + I256) \<Rightarrow> fault + Immediate" where
  "apply_binop self rhs f =
     rbind (assert_that (imm_ty self = imm_ty rhs) ''assertion failed: self.ty() == rhs.ty()'')
       (\<lambda>_. rbind (apply_binop_raw self rhs f) (\<lambda>res. from_i256 res (imm_ty self)))"

definition apply_unop_raw :: "Immediate \<Rightarrow> (I256 \<Rightarrow> fault + 'r) \<Rightarrow> fault + 'r" where
  "apply_unop_raw self f = f (as_i256 self)"

definition apply_unop :: "Immediate \<Rightarrow> (I256 \<Rightarrow> fault + I256) \<Rightarrow> fault + Immediate" where
  "apply_unop self f = rbind (apply_unop_raw self f) (\<lambda>res. from_i256 res (imm_ty self))"

section \<open>Arithmetic\<close>

definition imm_add :: "Immediate \<Rightarrow> Immediate \<Rightarrow> fault + Immediate" where
  "imm_add self rhs = apply_binop self rhs (\<lambda>l r. rbind (overflowing_add l r) (\<lambda>(v, _). Inr v))"

definition imm_sub :: "Immediate \<Rightarrow> Immediate \<Rightarrow> fault + Immediate" where
  "imm_sub self rhs = apply_binop self rhs (\<lambda>l r. rbind (overflowing_sub l r) (\<lambda>(v, _). Inr v))"

definition imm_mul :: "Immediate \<Rightarrow> Immediate \<Rightarrow> fault + Immediate" where
  "imm_mul self rhs = apply_binop self rhs (\<lambda>l r. rbind (overflowing_mul l r) (\<lambda>(v, _). Inr v))"

definition u256_div :: "U256 \<Rightarrow> U256 \<Rightarrow> fault + U256" where
  "u256_div a b = (if b = 0 then Inl (Panic ''division by zero'') else Inr (a div b))"

definition u256_rem :: "U256 \<Rightarrow> U256 \<Rightarrow> fault + U256" where
  "u256_rem a b = (if b = 0 then Inl (Panic ''division by zero'') else Inr (a mod b))"

definition imm_udiv :: "Immediate \<Rightarrow> Immediate \<Rightarrow> fault + Immediate" where
  "imm_udiv self rhs = apply_binop self rhs (\<lambda>l r.
     rbind (to_u256 l) (\<lambda>a. rbind (to_u256 r) (\<lambda>b. rbind (u256_div a b) (\<lambda>q. Inr (from_u256 q)))))"

definition imm_sdiv :: "Immediate \<Rightarrow> Immediate \<Rightarrow> fault + Immediate" where
  "imm_sdiv self rhs = apply_binop self rhs (\<lambda>l r. rbind (overflowing_div l r) (\<lambda>(v, _). Inr v))"

definition imm_urem :: "Immediate \<Rightarrow> Immediate \<Rightarrow> fault + Immediate" where
  "imm_urem self rhs = apply_binop self rhs (\<lambda>l r.
     rbind (to_u256 l) (\<lambda>a. rbind (to_u256 r) (\<lambda>b. rbind (u256_rem a b) (\<lambda>q. Inr (from_u256 q)))))"

definition imm_srem :: "Immediate \<Rightarrow> Immediate \<Rightarrow> fault + Immediate" where
  "imm_srem self rhs = apply_binop self rhs (\<lambda>l r. rbind (overflowing_rem l r) (\<lambda>(v, _). Inr v))"

definition imm_and :: "Immediate \<Rightarrow> Immediate \<Rightarrow> fault + Immediate" where
  "imm_and self rhs = apply_binop self rhs i256_and"

definition imm_or :: "Immediate \<Rightarrow> Immediate \<Rightarrow> fault + Immediate" where
  "imm_or self rhs = apply_binop self rhs i256_or"

definition imm_xor :: "Immediate \<Rightarrow> Immediate \<Rightarrow> fault + Immediate" where
  "imm_xor self rhs = apply_binop self rhs i256_xor"

definition imm_not :: "Immediate \<Rightarrow> fault + Immediate" where
  "imm_not self = apply_unop self i256_not"

definition imm_neg :: "Immediate \<Rightarrow> fault + Immediate" where
  "imm_neg self = apply_unop self i256_neg"

definition imm_shl :: "Immediate \<Rightarrow> Immediate \<Rightarrow> fault + Immediate" where
  "imm_shl self rhs = apply_binop self rhs i256_shl"

definition imm_shr :: "Immediate \<Rightarrow> Immediate \<Rightarrow> fault + Immediate" where
  "imm_shr self rhs = apply_binop self rhs i256_shr"

section \<open>Comparisons\<close>

definition u256_rel :: "(U256 \<Rightarrow> U256 \<Rightarrow> bool) \<Rightarrow> I256 \<Rightarrow> I256 \<Rightarrow> fault + Immediate" where
  "u256_rel R l r = rbind (to_u256 l) (\<lambda>a. rbind (to_u256 r) (\<lambda>b. Inr (Imm_I1 (R a b))))"

definition imm_lt :: "Immediate \<Rightarrow> Immediate \<Rightarrow> fault + Immediate" where
  "imm_lt self rhs = apply_binop_raw self rhs (u256_rel (<))"

definition imm_gt :: "Immediate \<Rightarrow> Immediate \<Rightarrow> fault + Immediate" where
  "imm_gt self rhs = apply_binop_raw self rhs (u256_rel (>))"

definition imm_le :: "Immediate \<Rightarrow> Immediate \<Rightarrow> fault + Immediate" where
  "imm_le self rhs = apply_binop_raw self rhs (u256_rel (\<le>))"

definition imm_ge :: "Immediate \<Rightarrow> Immediate \<Rightarrow> fault + Immediate" where
  "imm_ge self rhs = apply_binop_raw self rhs (u256_rel (\<ge>))"

definition imm_slt :: "Immediate \<Rightarrow> Immediate \<Rightarrow> fault + Immediate" where
  "imm_slt self rhs = apply_binop_raw self rhs (\<lambda>l r. Inr (Imm_I1 (l < r)))"

definition imm_sgt :: "Immediate \<Rightarrow> Immediate \<Rightarrow> fault + Immediate" where
  "imm_sgt self rhs = apply_binop_raw self rhs (\<lambda>l r. Inr (Imm_I1 (l > r)))"

definition imm_sle :: "Immediate \<Rightarrow> Immediate \<Rightarrow> fault + Immediate" where
  "imm_sle self rhs = apply_binop_raw self rhs (\<lambda>l r. Inr (Imm_I1 (l \<le> r)))"

definition imm_sge :: "Immediate \<Rightarrow> Immediate \<Rightarrow> fault + Immediate" where
  "imm_sge self rhs = apply_binop_raw self rhs (\<lambda>l r. Inr (Imm_I1 (l \<ge> r)))"

definition imm_eq :: "Immediate \<Rightarrow> Immediate \<Rightarrow> fault + Immediate" where
  "imm_eq self rhs =
     rbind (assert_that (imm_ty self = imm_ty rhs) ''assertion failed: self.ty() == rhs.ty()'')
       (\<lambda>_. Inr (Imm_I1 (self = rhs)))"

definition imm_ne :: "Immediate \<Rightarrow> Immediate \<Rightarrow> fault + Immediate" where
  "imm_ne self rhs =
     rbind (assert_that (imm_ty self = imm_ty rhs) ''assertion failed: self.ty() == rhs.ty()'')
       (\<lambda>_. Inr (Imm_I1 (self \<noteq> rhs)))"

section \<open>Conversions and predicates\<close>

definition imm_sext :: "Immediate \<Rightarrow> IrType \<Rightarrow> fault + Immediate" where
  "imm_sext self ty =
     rbind (assert_that (imm_ty self \<le> ty) ''assertion failed: self.ty() <= ty'')
       (\<lambda>_. from_i256 (as_i256 self) ty)"

fun zext_i256 :: "Immediate \<Rightarrow> I256" where
  "zext_i256 (Imm_I1 val) = I256 False (of_bool val)"
| "zext_i256 (Imm_I8 val) = from_unsigned val"
| "zext_i256 (Imm_I16 val) = from_unsigned val"
| "zext_i256 (Imm_I32 val) = from_unsigned val"
| "zext_i256 (Imm_I64 val) = from_unsigned val"
| "zext_i256 (Imm_I128 val) = from_unsigned val"
| "zext_i256 (Imm_I256 val) = val"

definition imm_zext :: "Immediate \<Rightarrow> IrType \<Rightarrow> fault + Immediate" where
  "imm_zext self ty =
     rbind (assert_that (imm_ty self \<le> ty) ''assertion failed: self.ty() <= ty'')
       (\<lambda>_. from_i256 (zext_i256 self) ty)"

definition imm_trunc :: "Immediate \<Rightarrow> IrType \<Rightarrow> fault + Immediate" where
  "imm_trunc self ty =
     rbind (assert_that (ty \<le> imm_ty self) ''assertion failed: self.ty() >= ty'')
       (\<lambda>_. from_i256 (as_i256 self) ty)"

definition imm_zero :: "IrType \<Rightarrow> fault + Immediate" where
  "imm_zero ty = from_i256 i256_zero ty"

definition imm_one :: "IrType \<Rightarrow> fault + Immediate" where
  "imm_one ty = from_i256 i256_one ty"

definition imm_all_one :: "IrType \<Rightarrow> fault + Immediate" where
  "imm_all_one ty = rbind i256_all_one (\<lambda>v. from_i256 v ty)"

definition imm_is_zero :: "Immediate \<Rightarrow> bool" where
  "imm_is_zero self = i256_is_zero (as_i256 self)"

definition imm_is_one :: "Immediate \<Rightarrow> bool" where
  "imm_is_one self = (as_i256 self = i256_one)"

definition imm_is_positive :: "Immediate \<Rightarrow> bool" where
  "imm_is_positive self = i256_is_positive (as_i256 self)"

definition imm_is_negative :: "Immediate \<Rightarrow> bool" where
  "imm_is_negative self = i256_is_negative (as_i256 self)"

definition imm_is_all_one :: "Immediate \<Rightarrow> fault + bool" where
  "imm_is_all_one self = rbind (imm_all_one (imm_ty self)) (\<lambda>v. Inr (self = v))"

definition imm_is_two :: "Immediate \<Rightarrow> fault + bool" where
  "imm_is_two self = apply_unop_raw self (\<lambda>val. rbind (overflowing_add i256_one i256_one) (\<lambda>(v, _). Inr (val = v)))"

definition imm_is_power_of_two :: "Immediate \<Rightarrow> fault + bool" where
  "imm_is_power_of_two self =
     rbind (imm_one (imm_ty self)) (\<lambda>one. rbind (imm_sub self one) (\<lambda>d.
       rbind (imm_and self d) (\<lambda>m. Inr (imm_is_zero m))))"

text \<open>\<open>U256::as_usize\<close> panics on a number beyond \<open>usize\<close>.\<close>

definition u256_as_usize :: "U256 \<Rightarrow> fault + nat" where
  "u256_as_usize w = (if unat w < usize_limit then Inr (unat w) else Inl (Panic ''Integer overflow when casting to usize''))"

definition imm_as_usize :: "Immediate \<Rightarrow> fault + nat" where
  "imm_as_usize self =
     rbind (if imm_is_negative self then imm_neg self else Inr self) (\<lambda>val.
       rbind (to_u256 (as_i256 val)) u256_as_usize)"

section \<open>Readings of an immediate\<close>

definition imm_ok :: "Immediate \<Rightarrow> bool" where
  "imm_ok a = (case a of Imm_I256 i \<Rightarrow> i256_ok i | _ \<Rightarrow> True)"

fun imm_sval :: "Immediate \<Rightarrow> int" where
  "imm_sval (Imm_I1 b) = (if b then -1 else 0)"
| "imm_sval (Imm_I8 w) = sint w"
| "imm_sval (Imm_I16 w) = sint w"
| "imm_sval (Imm_I32 w) = sint w"
| "imm_sval (Imm_I64 w) = sint w"
| "imm_sval (Imm_I128 w) = sint w"
| "imm_sval (Imm_I256 i) = i256_int i"

definition imm_uval :: "Immediate \<Rightarrow> int" where
  "imm_uval a = imm_sval a mod 2 ^ ty_bits (imm_ty a)"

text \<open>The 256-bit word an immediate is widened to, and the immediate that a word is cut to.\<close>

definition imm_word :: "Immediate \<Rightarrow> U256" where
  "imm_word a = word_of_int (imm_sval a)"

fun imm_of_word :: "IrType \<Rightarrow> U256 \<Rightarrow> Immediate" where
  "imm_of_word Ty_I1 w = Imm_I1 (bit w 0)"
| "imm_of_word Ty_I8 w = Imm_I8 (ucast w)"
| "imm_of_word Ty_I16 w = Imm_I16 (ucast w)"
| "imm_of_word Ty_I32 w = Imm_I32 (ucast w)"
| "imm_of_word Ty_I64 w = Imm_I64 (ucast w)"
| "imm_of_word Ty_I128 w = Imm_I128 (ucast w)"
| "imm_of_word _ w = Imm_I256 (from_u256 w)"

lemma ty_bits_imm [simp]: "0 < ty_bits (imm_ty a)" "ty_bits (imm_ty a) \<le> 256" "is_integral (imm_ty a)"
  by (cases a; simp add: is_integral_def)+

lemma sint_word_of_int_256:
  assumes "- (2 ^ 255) \<le> z" "z < 2 ^ 255"
  shows "sint (word_of_int z :: U256) = z"
  using assms by (simp add: signed_take_bit_int_eq_self sint_sbintrunc' del: power_numeral)

lemma sint_range_256:
  fixes w :: "'a::len word"
  assumes "LENGTH('a) \<le> 256"
  shows "- (2 ^ 255) \<le> sint w \<and> sint w < 2 ^ 255"
proof -
  have "LENGTH('a) - 1 \<le> 255" using assms by simp
  then have "(2::int) ^ (LENGTH('a) - 1) \<le> 2 ^ 255" by (rule power_increasing) simp
  with sint_ge [of w] sint_lt [of w] show ?thesis by linarith
qed

lemma uint_ucast_256: "LENGTH('a) \<le> 256 \<Longrightarrow> uint (ucast (w :: 'a::len word) :: U256) = uint w"
  using order_less_le_trans [OF uint_lt2p [of w] power_increasing [of "LENGTH('a)" 256 "2 :: int"]]
  by (simp add: unsigned_ucast_eq take_bit_int_eq_self_iff)

lemma from_signed_int:
  fixes w :: "'a::len word"
  assumes "LENGTH('a) < 256"
  shows "i256_ok (from_signed w) \<and> i256_int (from_signed w) = sint w"
proof -
  have "LENGTH('a) - 1 < 255" using assms len_gt_0 [where 'a = 'a] by linarith
  then have lt: "(2::int) ^ (LENGTH('a) - 1) < 2 ^ 255" by (rule power_strict_increasing) simp
  have half: "(2::int) ^ LENGTH('a) = 2 * 2 ^ (LENGTH('a) - 1)"
    by (metis len_gt_0 power_Suc Suc_diff_1)
  consider "0 \<le> sint w" | "sint w = - (2 ^ (LENGTH('a) - 1))" | "sint w < 0" "sint w \<noteq> - (2 ^ (LENGTH('a) - 1))" by linarith
  then show ?thesis
  proof cases
    case 1
    then have "sint w = uint w" using uint_lt2p [of w] half by (auto simp: sint_alt split: if_splits)
    moreover have "sint w < 2 ^ 255" using lt sint_lt [of w] by linarith
    ultimately show ?thesis using 1 assms
      by (simp add: from_signed_def i256_ok_def i256_int_def uint_ucast_256 del: power_numeral)
  next
    case 2
    have "uint (push_bit (LENGTH('a) - 1) 1 :: U256) = 2 ^ (LENGTH('a) - 1) mod 2 ^ 256"
      using uint_word_of_int [of "2 ^ (LENGTH('a) - 1)", where 'a = 256]
      by (simp add: push_bit_of_1 word_of_int_2p del: power_numeral)
    then have "uint (push_bit (LENGTH('a) - 1) 1 :: U256) = 2 ^ (LENGTH('a) - 1)"
      using lt by (simp add: mod_pos_pos_trivial del: power_numeral)
    with 2 lt show ?thesis
      by (simp add: from_signed_def i256_ok_def i256_int_def del: power_numeral)
  next
    case 3
    then have s: "sint w = uint w - 2 ^ LENGTH('a)" "uint w \<noteq> 0" by (auto simp: sint_alt split: if_splits)
    then have "uint (- w) = - sint w" using uint_lt2p [of w]
      by (simp add: uint_word_ariths zmod_zminus1_eq_if)
    moreover have "- (2 ^ 255) < sint w" using lt sint_ge [of w] by linarith
    ultimately show ?thesis using 3 assms
      by (simp add: from_signed_def i256_ok_def i256_int_def uint_ucast_256 del: power_numeral)
  qed
qed

lemma as_i256_int: "imm_ok a \<Longrightarrow> i256_ok (as_i256 a) \<and> i256_int (as_i256 a) = imm_sval a"
proof (cases a)
  case (Imm_I1 b)
  show ?thesis by (simp add: Imm_I1 i256_from_bool_def i256_int_def i256_ok_def i256_zero_def from_u256_eq)
qed (simp_all add: imm_ok_def from_signed_int)

lemma as_i256_eq: "imm_ok a \<Longrightarrow> as_i256 a = from_u256 (imm_word a)"
  using from_u256_uint_sint [of "as_i256 a"] as_i256_int [of a] by (simp add: imm_word_def)

lemma sint_imm_word: "imm_ok a \<Longrightarrow> sint (imm_word a) = imm_sval a"
  using as_i256_int [of a] by (simp add: as_i256_eq)

lemma bit_0_uint: "bit (w :: U256) 0 \<longleftrightarrow> odd (uint w)"
  by (metis bit_0 bit_uint_iff len_gt_0)

lemma ucast_ucast_down:
  "LENGTH('b) \<le> 32 \<Longrightarrow> (ucast (ucast (w :: U256) :: 32 word) :: 'b::len word) = ucast w"
  by (rule bit_word_eqI) (simp add: bit_ucast_iff)

lemma trunc_bit_32: "(ucast (w :: U256) :: 32 word) AND 1 \<noteq> 0 \<longleftrightarrow> bit w 0"
  by (simp add: and_one_eq bit_ucast_iff flip: bit_0 odd_iff_mod_2_eq_one)

lemma from_i256_eq: "is_integral ty \<Longrightarrow> from_i256 (from_u256 w) ty = Inr (imm_of_word ty w)"
  by (auto simp: is_integral_def from_i256_def trunc_to_i1_def trunc_to_i8_def trunc_to_i16_def trunc_to_i32_def
      trunc_to_i64_def trunc_to_i128_def trunc_bit_32 ucast_ucast_down)

lemma imm_of_word_ty [simp]: "is_integral ty \<Longrightarrow> imm_ty (imm_of_word ty w) = ty"
  by (auto simp: is_integral_def)

lemma imm_of_word_ok [simp]: "imm_ok (imm_of_word ty w)"
  by (cases ty) (simp_all add: imm_ok_def)

lemma sint_mod_len: "sint (w :: 'a::len word) mod 2 ^ LENGTH('a) = uint w"
  using uint_lt2p [of w] by (auto simp: sint_alt)

lemma imm_uval_of_word: "is_integral ty \<Longrightarrow> imm_uval (imm_of_word ty w) = uint w mod 2 ^ ty_bits ty"
  using uint_idem [of w, symmetric]
  by (auto simp: is_integral_def imm_uval_def sint_mod_len [where 'a = 8, simplified] sint_mod_len [where 'a = 16, simplified]
      sint_mod_len [where 'a = 32, simplified] sint_mod_len [where 'a = 64, simplified] sint_mod_len [where 'a = 128, simplified]
      sint_mod_len [where 'a = 256, simplified] unsigned_ucast_eq take_bit_eq_mod bit_0_uint odd_iff_mod_2_eq_one sint_mod_256 [simplified])

lemma ucast_of_int: "LENGTH('b) \<le> 256 \<Longrightarrow> (ucast (word_of_int k :: U256) :: 'b::len word) = word_of_int k"
  by (rule bit_word_eqI) (simp add: bit_ucast_iff bit_word_of_int_iff)

lemma ucast_scast: "LENGTH('b) \<le> 256 \<Longrightarrow> ucast (scast w :: U256) = (w :: 'b::len word)"
proof (rule bit_word_eqI)
  fix n assume "LENGTH('b) \<le> 256" "n < LENGTH('b)"
  then show "bit (ucast (scast w :: U256) :: 'b word) n = bit w n"
    by (cases "n = LENGTH('b) - 1") (auto simp: bit_ucast_iff bit_signed_iff min_def)
qed

lemma imm_word_of_word: "imm_ok a \<Longrightarrow> imm_of_word (imm_ty a) (imm_word a) = a"
  by (cases a)
    (simp_all add: imm_word_def imm_ok_def ucast_scast from_u256_uint_sint bit_word_of_int_iff)

lemma imm_uval_word: "imm_ok a \<Longrightarrow> imm_uval a = uint (imm_word a) mod 2 ^ ty_bits (imm_ty a)"
  by (metis imm_uval_of_word imm_word_of_word ty_bits_imm(3))

lemma apply_binop_raw_eq:
  "imm_ok a \<Longrightarrow> imm_ok b \<Longrightarrow> imm_ty a = imm_ty b \<Longrightarrow>
    apply_binop_raw a b f = f (from_u256 (imm_word a)) (from_u256 (imm_word b))"
  by (simp add: apply_binop_raw_def as_i256_eq assert_that_def)

lemma apply_binop_eq:
  "imm_ok a \<Longrightarrow> imm_ok b \<Longrightarrow> imm_ty a = imm_ty b \<Longrightarrow>
    apply_binop a b f = rbind (f (from_u256 (imm_word a)) (from_u256 (imm_word b))) (\<lambda>r. from_i256 r (imm_ty a))"
  by (simp add: apply_binop_raw_eq apply_binop_def assert_that_def)

lemma apply_unop_eq: "imm_ok a \<Longrightarrow> apply_unop a f = rbind (f (from_u256 (imm_word a))) (\<lambda>r. from_i256 r (imm_ty a))"
  by (simp add: apply_unop_def apply_unop_raw_def as_i256_eq)

lemma imm_ops_word:
  assumes "imm_ok a" "imm_ok b" "imm_ty a = imm_ty b"
  shows "imm_add a b = Inr (imm_of_word (imm_ty a) (imm_word a + imm_word b))"
    and "imm_sub a b = Inr (imm_of_word (imm_ty a) (imm_word a - imm_word b))"
    and "imm_mul a b = Inr (imm_of_word (imm_ty a) (imm_word a * imm_word b))"
    and "imm_and a b = Inr (imm_of_word (imm_ty a) (imm_word a AND imm_word b))"
    and "imm_or a b = Inr (imm_of_word (imm_ty a) (imm_word a OR imm_word b))"
    and "imm_xor a b = Inr (imm_of_word (imm_ty a) (imm_word a XOR imm_word b))"
    and "imm_shl a b = Inr (imm_of_word (imm_ty a) (if 256 \<le> imm_word b then 0 else push_bit (unat (imm_word b)) (imm_word a)))"
    and "imm_shr a b = Inr (imm_of_word (imm_ty a) (if 256 \<le> imm_word b then 0 else drop_bit (unat (imm_word b)) (imm_word a)))"
  using apply_binop_eq [OF assms] ty_bits_imm(3) [of a]
  by (simp_all add: imm_add_def imm_sub_def imm_mul_def imm_and_def imm_or_def imm_xor_def imm_shl_def imm_shr_def from_i256_eq
      del: ty_bits_imm)

lemma imm_unops_word:
  assumes "imm_ok a"
  shows "imm_not a = Inr (imm_of_word (imm_ty a) (NOT (imm_word a)))"
    and "imm_neg a = Inr (imm_of_word (imm_ty a) (- imm_word a))"
  using assms by (simp_all add: imm_not_def imm_neg_def apply_unop_eq from_i256_eq)

lemma imm_div_word:
  assumes "imm_ok a" "imm_ok b" "imm_ty a = imm_ty b"
  shows "imm_udiv a b = (if imm_word b = 0 then Inl (Panic ''division by zero'')
           else Inr (imm_of_word (imm_ty a) (imm_word a div imm_word b)))"
    and "imm_urem a b = (if imm_word b = 0 then Inl (Panic ''division by zero'')
           else Inr (imm_of_word (imm_ty a) (imm_word a mod imm_word b)))"
  using apply_binop_eq [OF assms]
  by (simp_all add: imm_udiv_def imm_urem_def u256_div_def u256_rem_def from_i256_eq)

section \<open>What the operations compute\<close>

lemma len_256: "LENGTH(256) = 256"
  by simp

lemma uint_mod_256_mod: "n \<le> 256 \<Longrightarrow> uint (word_of_int z :: U256) mod 2 ^ n = z mod 2 ^ n"
  using le_imp_power_dvd [of n 256 "2 :: int"]
  by (simp only: uint_word_of_int mod_mod_cancel len_256)

lemma imm_word_uint_mod:
  "imm_ok a \<Longrightarrow> uint (imm_word a) mod 2 ^ ty_bits (imm_ty a) = imm_uval a"
  by (simp add: imm_uval_word)

text \<open>C28: addition, subtraction and multiplication of two immediates of one type never fault, give an
  immediate of that type, and are the operations on its unsigned reading modulo two to the
  width of the type.\<close>
theorem imm_arith_wraps:
  assumes "imm_ok a" and "imm_ok b" and "imm_ty a = imm_ty b"
  shows "\<exists>s d p n. imm_add a b = Inr s \<and> imm_sub a b = Inr d \<and> imm_mul a b = Inr p \<and> imm_neg a = Inr n
     \<and> (\<forall>r. r = s \<or> r = d \<or> r = p \<or> r = n \<longrightarrow> imm_ok r \<and> imm_ty r = imm_ty a)
     \<and> imm_uval s = (imm_uval a + imm_uval b) mod 2 ^ ty_bits (imm_ty a)
     \<and> imm_uval d = (imm_uval a - imm_uval b) mod 2 ^ ty_bits (imm_ty a)
     \<and> imm_uval p = (imm_uval a * imm_uval b) mod 2 ^ ty_bits (imm_ty a)
     \<and> imm_uval n = (- imm_uval a) mod 2 ^ ty_bits (imm_ty a)"
proof -
  let ?M = "2 ^ ty_bits (imm_ty a) :: int"
  have w: "imm_uval (imm_of_word (imm_ty a) (word_of_int z)) = z mod ?M" for z
    by (simp add: imm_uval_of_word uint_mod_256_mod del: of_int_mult)
  note hom = wi_hom_add wi_hom_sub wi_hom_mult wi_hom_neg
  have sv: "imm_uval a = imm_sval a mod ?M" "imm_uval b = imm_sval b mod ?M"
    using assms(3) by (simp_all add: imm_uval_def)
  have eqs: "imm_add a b = Inr (imm_of_word (imm_ty a) (word_of_int (imm_sval a + imm_sval b)))"
    "imm_sub a b = Inr (imm_of_word (imm_ty a) (word_of_int (imm_sval a - imm_sval b)))"
    "imm_mul a b = Inr (imm_of_word (imm_ty a) (word_of_int (imm_sval a * imm_sval b)))"
    "imm_neg a = Inr (imm_of_word (imm_ty a) (word_of_int (- imm_sval a)))"
    using assms(1,2) imm_ops_word [OF assms] imm_unops_word [OF assms(1)] by (simp_all only: imm_word_def hom)
  show ?thesis
    unfolding eqs sv
    by (intro exI conjI, (rule refl)+)
      (auto simp: w mod_simps simp del: of_int_add of_int_diff of_int_mult of_int_minus)
qed

theorem imm_arith_wraps_witness:
  "imm_add (Imm_I8 200) (Imm_I8 100) = Inr (Imm_I8 44) \<and> imm_uval (Imm_I8 44) = (200 + 100) mod 2 ^ 8"
proof -
  have ok: "imm_ok (Imm_I8 200)" "imm_ok (Imm_I8 100)" "imm_ty (Imm_I8 200) = imm_ty (Imm_I8 100)"
    by (simp_all add: imm_ok_def)
  obtain s where s: "imm_add (Imm_I8 200) (Imm_I8 100) = Inr s" "imm_ty s = Ty_I8"
      "imm_uval s = (imm_uval (Imm_I8 200) + imm_uval (Imm_I8 100)) mod 2 ^ 8"
    using imm_arith_wraps [OF ok] by auto
  obtain w where w: "s = Imm_I8 w" using s(2) by (cases s) auto
  have "imm_uval (Imm_I8 x) = uint x" for x using sint_mod_len [of x] by (simp add: imm_uval_def)
  with s(3) w have "uint w = 44" by simp
  then have "w = 44" by (simp add: word_uint_eq_iff)
  with s w show ?thesis by (simp add: imm_uval_def)
qed

lemma imm_sval_range:
  "imm_ok a \<Longrightarrow> - (2 ^ (ty_bits (imm_ty a) - 1)) \<le> imm_sval a \<and> imm_sval a < 2 ^ (ty_bits (imm_ty a) - 1)"
proof (cases a)
  case (Imm_I256 i)
  assume "imm_ok a"
  moreover have "0 \<le> uint (mag i)" by simp
  ultimately have "- (2 ^ 255) \<le> i256_int i \<and> i256_int i < 2 ^ 255"
    unfolding Imm_I256 imm_ok_def i256_ok_def i256_int_def Immediate.case by (split if_split_asm; simp only: if_True if_False; linarith)
  with Imm_I256 show ?thesis by simp
next
  case (Imm_I8 w) then show ?thesis using sint_ge [of w] sint_lt [of w] by simp
next
  case (Imm_I16 w) then show ?thesis using sint_ge [of w] sint_lt [of w] by simp
next
  case (Imm_I32 w) then show ?thesis using sint_ge [of w] sint_lt [of w] by simp
next
  case (Imm_I64 w) then show ?thesis using sint_ge [of w] sint_lt [of w] by simp
next
  case (Imm_I128 w) then show ?thesis using sint_ge [of w] sint_lt [of w] by simp
qed simp

lemma half_width: "0 < n \<Longrightarrow> (2::int) ^ n = 2 * 2 ^ (n - 1)"
  by (cases n) simp_all

lemma imm_uval_alt:
  assumes "imm_ok a"
  shows "imm_uval a = (if 0 \<le> imm_sval a then imm_sval a else 2 ^ ty_bits (imm_ty a) + imm_sval a)"
proof -
  note r = imm_sval_range [OF assms] and h = half_width [OF ty_bits_imm(1) [of a]]
  show ?thesis
  proof (cases "0 \<le> imm_sval a")
    case True
    with r h show ?thesis by (simp add: imm_uval_def)
  next
    case False
    with r h have "(imm_sval a + 2 ^ ty_bits (imm_ty a)) mod 2 ^ ty_bits (imm_ty a) = imm_sval a + 2 ^ ty_bits (imm_ty a)"
      by (intro mod_pos_pos_trivial) linarith+
    with False show ?thesis by (simp add: imm_uval_def)
  qed
qed

lemma uint_imm_word:
  assumes "imm_ok a"
  shows "uint (imm_word a) = (if 0 \<le> imm_sval a then imm_sval a else 2 ^ 256 + imm_sval a)"
proof -
  have "0 \<le> uint (imm_word a)" "uint (imm_word a) < 2 ^ 256" using uint_lt2p [of "imm_word a"] by simp_all
  then show ?thesis using sint_imm_word [OF assms] unfolding sint_alt len_256 by (split if_split_asm) auto
qed

lemma imm_sval_range_256: "imm_ok a \<Longrightarrow> - (2 ^ 255) \<le> imm_sval a \<and> imm_sval a < 2 ^ 255"
  using sint_range_256 [of "imm_word a"] by (simp add: sint_imm_word)

lemma push_bit_imm_uval:
  assumes "imm_ok a" "imm_ok b" "imm_ty a = imm_ty b"
  shows "uint (if 256 \<le> imm_word b then 0 else push_bit (unat (imm_word b)) (imm_word a)) mod 2 ^ ty_bits (imm_ty a)
       = (imm_uval a * 2 ^ nat (imm_uval b)) mod 2 ^ ty_bits (imm_ty a)"
proof (cases "256 \<le> imm_word b")
  case False
  let ?n = "ty_bits (imm_ty a)" and ?s = "uint (imm_word b)"
  from False have s: "?s < 256" by (simp add: word_le_def)
  have "imm_uval b = ?s"
    using s uint_imm_word [OF assms(2)] imm_uval_alt [OF assms(2)] imm_sval_range_256 [OF assms(2)]
    by (cases "0 \<le> imm_sval b") auto
  moreover have "uint (push_bit (nat ?s) (imm_word a)) mod 2 ^ ?n = (uint (imm_word a) * 2 ^ nat ?s) mod 2 ^ ?n"
    using ty_bits_imm(2) [of a]
    unfolding unsigned_push_bit_eq len_256 take_bit_eq_mod [symmetric] take_bit_take_bit
    by (simp only: min_absorb1 push_bit_eq_mult)
  ultimately show ?thesis
    using False unfolding imm_uval_word [OF assms(1)] mod_mult_left_eq by simp
next
  case True
  let ?n = "ty_bits (imm_ty b)"
  from True have s: "256 \<le> uint (imm_word b)" by (simp add: word_le_def)
  have "?n \<le> 2 ^ (?n - 1)" using less_exp [of "?n - 1"] ty_bits_imm(1) [of b] by linarith
  then have "int ?n \<le> 2 ^ (?n - 1)" by (metis of_nat_le_iff of_nat_numeral of_nat_power)
  moreover note imm_sval_range [OF assms(2)] half_width [OF ty_bits_imm(1) [of b]]
  moreover have "int ?n \<le> 256" using ty_bits_imm(2) [of b] by linarith
  ultimately have "int ?n \<le> imm_uval b"
    using s unfolding uint_imm_word [OF assms(2)] imm_uval_alt [OF assms(2)]
    by (split if_split_asm; simp only: if_True if_False; linarith)
  then have "(2::int) ^ ?n dvd 2 ^ nat (imm_uval b)" by (intro le_imp_power_dvd) linarith
  then show ?thesis using True assms(3) by (simp add: mod_eq_0_iff_dvd)
qed

lemma drop_bit_imm_sval:
  assumes "imm_ok a" and "imm_ok b"
  shows "uint (if 256 \<le> imm_word b then 0 else drop_bit (unat (imm_word b)) (imm_word a))
       = (imm_sval a mod 2 ^ 256) div 2 ^ nat (imm_sval b mod 2 ^ 256)"
proof -
  have u: "uint (imm_word a) = imm_sval a mod 2 ^ 256" "uint (imm_word b) = imm_sval b mod 2 ^ 256"
    using sint_mod_len [of "imm_word a"] sint_mod_len [of "imm_word b"]
    by (simp_all only: sint_imm_word [OF assms(1)] sint_imm_word [OF assms(2)] len_256)
  show ?thesis
  proof (cases "256 \<le> imm_word b")
    case True
    then have "256 \<le> uint (imm_word b)" by (simp add: word_le_def)
    then have "256 \<le> nat (uint (imm_word b))" by linarith
    then have "(2::int) ^ 256 \<le> 2 ^ nat (uint (imm_word b))" by (rule power_increasing) simp
    moreover have "uint (imm_word a) < 2 ^ 256" using uint_lt2p [of "imm_word a"] by simp
    ultimately have "uint (imm_word a) div 2 ^ nat (uint (imm_word b)) = 0"
      by (intro div_pos_pos_trivial) auto
    with True show ?thesis by (simp only: u if_True unsigned_0)
  next
    case False
    have "uint (drop_bit n (imm_word a)) = uint (imm_word a) div 2 ^ n" for n
      using drop_bit_eq_div [of n "uint (imm_word a)"] take_bit_int_eq_self [of "uint (imm_word a)" 256] uint_lt2p [of "imm_word a"]
      by (simp add: unsigned_drop_bit_eq)
    with False show ?thesis by (simp only: if_False u [symmetric] unat_eq_nat_uint)
  qed
qed

text \<open>C30: the bitwise operations act on the bits of the unsigned reading, within the width of the
  type, and a left shift multiplies by a power of two modulo the width, whatever the amount
  (a negative or too large amount shifts everything out). A right shift acts on the value sign
  extended to 256 bits and cuts the result to the width: it is neither the logical nor, at 256
  bits, the arithmetic shift.\<close>
theorem imm_bits_spec:
  assumes "imm_ok a" and "imm_ok b" and "imm_ty a = imm_ty b"
  shows "\<exists>x y z n l r. imm_and a b = Inr x \<and> imm_or a b = Inr y \<and> imm_xor a b = Inr z \<and> imm_not a = Inr n \<and> imm_shl a b = Inr l
     \<and> imm_shr a b = Inr r
     \<and> imm_uval x = imm_uval a AND imm_uval b
     \<and> imm_uval y = imm_uval a OR imm_uval b
     \<and> imm_uval z = imm_uval a XOR imm_uval b
     \<and> imm_uval n = 2 ^ ty_bits (imm_ty a) - 1 - imm_uval a
     \<and> imm_uval l = (imm_uval a * 2 ^ nat (imm_uval b)) mod 2 ^ ty_bits (imm_ty a)
     \<and> imm_uval r = (imm_sval a mod 2 ^ 256) div 2 ^ nat (imm_sval b mod 2 ^ 256) mod 2 ^ ty_bits (imm_ty a)"
proof -
  let ?n = "ty_bits (imm_ty a)"
  have w: "imm_uval (imm_of_word (imm_ty a) x) = take_bit ?n (uint x)" for x
    by (simp add: imm_uval_of_word take_bit_eq_mod)
  have uv: "imm_uval a = take_bit ?n (uint (imm_word a))" "imm_uval b = take_bit ?n (uint (imm_word b))"
    using assms imm_uval_word [of a] imm_uval_word [of b] by (simp_all add: take_bit_eq_mod)
  have not: "take_bit ?n (uint (NOT (imm_word a))) = 2 ^ ?n - 1 - take_bit ?n (uint (imm_word a))"
    using ty_bits_imm(2) [of a]
    unfolding unsigned_not_eq len_256 take_bit_take_bit
    by (simp only: min_absorb1 take_bit_not_eq_mask_diff mask_eq_exp_minus_1)
  show ?thesis
    unfolding imm_ops_word [OF assms] imm_unops_word [OF assms(1)]
  proof (intro exI conjI, (rule refl)+)
    show "imm_uval (imm_of_word (imm_ty a) (imm_word a AND imm_word b)) = imm_uval a AND imm_uval b"
      "imm_uval (imm_of_word (imm_ty a) (imm_word a OR imm_word b)) = imm_uval a OR imm_uval b"
      "imm_uval (imm_of_word (imm_ty a) (imm_word a XOR imm_word b)) = imm_uval a XOR imm_uval b"
      by (simp_all only: w uv take_bit_and take_bit_or take_bit_xor unsigned_and_eq unsigned_or_eq unsigned_xor_eq)
    show "imm_uval (imm_of_word (imm_ty a) (NOT (imm_word a))) = 2 ^ ?n - 1 - imm_uval a"
      by (simp only: w uv not)
  qed (simp_all only: imm_uval_of_word ty_bits_imm push_bit_imm_uval [OF assms] drop_bit_imm_sval [OF assms(1,2)])
qed

text \<open>The comparisons compare the unsigned or the signed readings, and equality compares the
  values.\<close>
theorem imm_comparisons:
  assumes "imm_ok a" and "imm_ok b" and "imm_ty a = imm_ty b"
  shows "imm_lt a b = Inr (Imm_I1 (imm_uval a < imm_uval b)) \<and> imm_gt a b = Inr (Imm_I1 (imm_uval a > imm_uval b))
     \<and> imm_le a b = Inr (Imm_I1 (imm_uval a \<le> imm_uval b)) \<and> imm_ge a b = Inr (Imm_I1 (imm_uval a \<ge> imm_uval b))
     \<and> imm_slt a b = Inr (Imm_I1 (imm_sval a < imm_sval b)) \<and> imm_sgt a b = Inr (Imm_I1 (imm_sval a > imm_sval b))
     \<and> imm_sle a b = Inr (Imm_I1 (imm_sval a \<le> imm_sval b)) \<and> imm_sge a b = Inr (Imm_I1 (imm_sval a \<ge> imm_sval b))
     \<and> imm_eq a b = Inr (Imm_I1 (imm_sval a = imm_sval b)) \<and> imm_ne a b = Inr (Imm_I1 (imm_sval a \<noteq> imm_sval b))"
proof -
  note raw = apply_binop_raw_eq [OF assms] u256_rel_def to_u256_from_u256 rbind.simps
  note r = imm_sval_range [OF assms(1)] imm_sval_range [OF assms(2)] half_width [OF ty_bits_imm(1) [of a]]
    imm_sval_range_256 [OF assms(1)] imm_sval_range_256 [OF assms(2)]
  note u = uint_imm_word [OF assms(1)] uint_imm_word [OF assms(2)] imm_uval_alt [OF assms(1)] imm_uval_alt [OF assms(2)]
  have le: "imm_word a \<le> imm_word b \<longleftrightarrow> imm_uval a \<le> imm_uval b" "imm_word b \<le> imm_word a \<longleftrightarrow> imm_uval b \<le> imm_uval a"
    using r assms(3) unfolding word_le_def u
    by (cases "0 \<le> imm_sval a"; cases "0 \<le> imm_sval b"; simp; linarith)+
  have lt: "imm_word a < imm_word b \<longleftrightarrow> imm_uval a < imm_uval b" "imm_word b < imm_word a \<longleftrightarrow> imm_uval b < imm_uval a"
    using le by (metis linorder_not_less)+
  have eq: "a = b \<longleftrightarrow> imm_sval a = imm_sval b"
    using imm_word_of_word [OF assms(1)] imm_word_of_word [OF assms(2)] assms(3) by (metis imm_word_def)
  let ?a = "from_u256 (imm_word a)" and ?b = "from_u256 (imm_word b)"
  have sle: "?a \<le> ?b \<longleftrightarrow> imm_sval a \<le> imm_sval b" "?b \<le> ?a \<longleftrightarrow> imm_sval b \<le> imm_sval a"
    using assms(1,2) by (simp_all add: i256_le_iff sint_imm_word)
  have slt: "?a < ?b \<longleftrightarrow> imm_sval a < imm_sval b" "?b < ?a \<longleftrightarrow> imm_sval b < imm_sval a"
    using sle by (metis linorder_not_less)+
  show ?thesis
    unfolding imm_lt_def imm_gt_def imm_le_def imm_ge_def imm_slt_def imm_sgt_def imm_sle_def imm_sge_def imm_eq_def imm_ne_def raw
      assert_that_def
    by (simp only: lt le slt sle eq assms(3) if_True rbind.simps simp_thms)
qed

theorem imm_comparisons_witness:
  "imm_ty (Imm_I8 254) = imm_ty (Imm_I8 3)
   \<and> imm_lt (Imm_I8 254) (Imm_I8 3) = Inr (Imm_I1 False) \<and> imm_slt (Imm_I8 254) (Imm_I8 3) = Inr (Imm_I1 True)"
proof -
  have ok: "imm_ok (Imm_I8 254)" "imm_ok (Imm_I8 3)" "imm_ty (Imm_I8 254) = imm_ty (Imm_I8 3)"
    by (simp_all add: imm_ok_def)
  show ?thesis using imm_comparisons [OF ok] by (simp add: imm_uval_def)
qed

theorem imm_bits_spec_witness:
  "(\<exists>l. imm_shl (Imm_I8 3) (Imm_I8 7) = Inr l \<and> imm_uval l = 128)
   \<and> (\<exists>r. imm_shr (Imm_I8 254) (Imm_I8 1) = Inr r \<and> imm_uval r = 255)"
proof -
  have ok': "imm_ok (Imm_I8 254)" "imm_ok (Imm_I8 1)" "imm_ty (Imm_I8 254) = imm_ty (Imm_I8 1)"
    by (simp_all add: imm_ok_def)
  have ok: "imm_ok (Imm_I8 3)" "imm_ok (Imm_I8 7)" "imm_ty (Imm_I8 3) = imm_ty (Imm_I8 7)"
    by (simp_all add: imm_ok_def)
  show ?thesis using imm_bits_spec [OF ok] imm_bits_spec [OF ok'] by (auto simp: imm_uval_def)
qed

lemma integral_bits: "is_integral ty \<Longrightarrow> 0 < ty_bits ty \<and> ty_bits ty \<le> 256"
  by (auto simp: is_integral_def)

lemma imm_sval_uval: "imm_ok a \<Longrightarrow> imm_uval a < 2 ^ (ty_bits (imm_ty a) - 1) \<longleftrightarrow> 0 \<le> imm_sval a"
  using imm_sval_range [of a] half_width [OF ty_bits_imm(1) [of a]] by (auto simp: imm_uval_alt)

lemma from_unsigned_eq:
  fixes w :: "'a::len word"
  assumes "LENGTH('a) < 256"
  shows "i256_ok (from_unsigned w) \<and> i256_int (from_unsigned w) = uint w"
proof -
  have "uint w < 2 ^ 255"
    using order_less_le_trans [OF uint_lt2p [of w] power_increasing [of "LENGTH('a)" 255 "2 :: int"]] assms by simp
  then show ?thesis using assms by (simp add: from_unsigned_def i256_ok_def i256_int_def uint_ucast_256)
qed

lemma zext_i256_int:
  assumes "imm_ok a"
  shows "i256_ok (zext_i256 a) \<and> i256_int (zext_i256 a) mod 2 ^ 256 = imm_uval a
    \<and> (imm_ty a \<noteq> Ty_I256 \<longrightarrow> i256_int (zext_i256 a) = imm_uval a)"
proof -
  have r: "imm_uval a < 2 ^ 256" "0 \<le> imm_uval a"
    using order_less_le_trans [OF pos_mod_bound power_increasing [of "ty_bits (imm_ty a)" 256 "2 :: int"], of "imm_sval a"]
    by (simp_all add: imm_uval_def)
  show ?thesis
  proof (cases a)
    case (Imm_I1 b)
    then show ?thesis by (simp add: i256_ok_def i256_int_def imm_uval_def)
  next
    case (Imm_I256 i)
    with assms show ?thesis by (simp add: imm_ok_def imm_uval_def)
  next
    case (Imm_I8 w) with r from_unsigned_eq [of w] sint_mod_len [of w] show ?thesis by (simp add: imm_uval_def)
  next
    case (Imm_I16 w) with r from_unsigned_eq [of w] sint_mod_len [of w] show ?thesis by (simp add: imm_uval_def)
  next
    case (Imm_I32 w) with r from_unsigned_eq [of w] sint_mod_len [of w] show ?thesis by (simp add: imm_uval_def)
  next
    case (Imm_I64 w) with r from_unsigned_eq [of w] sint_mod_len [of w] show ?thesis by (simp add: imm_uval_def)
  next
    case (Imm_I128 w) with r from_unsigned_eq [of w] sint_mod_len [of w] show ?thesis by (simp add: imm_uval_def)
  qed
qed

lemma from_i256_int:
  assumes "i256_ok i" "is_integral ty"
  shows "\<exists>m. from_i256 i ty = Inr m \<and> imm_ok m \<and> imm_ty m = ty \<and> imm_uval m = i256_int i mod 2 ^ ty_bits ty"
proof -
  from assms(1) obtain w where w: "i = from_u256 w" by (rule i256_ok_cases)
  have "uint w mod 2 ^ ty_bits ty = i256_int i mod 2 ^ ty_bits ty"
    using w uint_mod_256_mod [of "ty_bits ty" "sint w"] integral_bits [OF assms(2)] by (simp flip: scast_eq)
  with w assms(2) show ?thesis by (simp add: from_i256_eq imm_uval_of_word)
qed

lemma imm_sval_eqI:
  assumes "imm_ok r" "imm_uval r = z mod 2 ^ ty_bits (imm_ty r)"
    and "- (2 ^ (ty_bits (imm_ty r) - 1)) \<le> z" "z < 2 ^ (ty_bits (imm_ty r) - 1)"
  shows "imm_sval r = z"
proof -
  let ?n = "ty_bits (imm_ty r)"
  have "signed_take_bit (?n - 1) (imm_sval r) = signed_take_bit (?n - 1) z"
    using assms(2) by (simp add: signed_take_bit_eq_iff_take_bit_eq imm_uval_def take_bit_eq_mod)
  then show ?thesis
    using assms(3,4) imm_sval_range [OF assms(1)] by (simp add: signed_take_bit_int_eq_self)
qed

lemma ty_le_bits: "is_integral a \<Longrightarrow> is_integral b \<Longrightarrow> a \<le> b \<longleftrightarrow> ty_bits a \<le> ty_bits b"
  by (auto simp: ty_le_iff)

text \<open>C31: the conversions: sign extension keeps the signed reading, zero extension the unsigned one,
  truncation the unsigned one modulo the new width; a target on the wrong side of the type
  order fails the debug assertion.\<close>
theorem imm_conversions:
  assumes "imm_ok a" and "is_integral ty"
  shows "(case imm_sext a ty of
            Inl _ \<Rightarrow> ty_bits ty < ty_bits (imm_ty a)
          | Inr r \<Rightarrow> ty_bits (imm_ty a) \<le> ty_bits ty \<and> imm_ok r \<and> imm_ty r = ty \<and> imm_sval r = imm_sval a)
       \<and> (case imm_zext a ty of
            Inl _ \<Rightarrow> ty_bits ty < ty_bits (imm_ty a)
          | Inr r \<Rightarrow> ty_bits (imm_ty a) \<le> ty_bits ty \<and> imm_ok r \<and> imm_ty r = ty \<and> imm_uval r = imm_uval a)
       \<and> (case imm_trunc a ty of
            Inl _ \<Rightarrow> ty_bits (imm_ty a) < ty_bits ty
          | Inr r \<Rightarrow> ty_bits ty \<le> ty_bits (imm_ty a) \<and> imm_ok r \<and> imm_ty r = ty
                     \<and> imm_uval r = imm_uval a mod 2 ^ ty_bits ty)"
proof (intro conjI)
  let ?n = "ty_bits (imm_ty a)" and ?m = "ty_bits ty"
  note le = ty_le_bits [OF ty_bits_imm(3) assms(2), of a] ty_le_bits [OF assms(2) ty_bits_imm(3), of a]
  obtain s where s: "from_i256 (as_i256 a) ty = Inr s" "imm_ok s" "imm_ty s = ty" "imm_uval s = imm_sval a mod 2 ^ ?m"
    using from_i256_int [OF _ assms(2), of "as_i256 a"] as_i256_int [OF assms(1)] by auto
  obtain z where z: "from_i256 (zext_i256 a) ty = Inr z" "imm_ok z" "imm_ty z = ty"
      "imm_uval z = i256_int (zext_i256 a) mod 2 ^ ?m"
    using from_i256_int [OF _ assms(2), of "zext_i256 a"] zext_i256_int [OF assms(1)] by auto
  have sv: "imm_sval s = imm_sval a" if "?n \<le> ?m"
  proof -
    have "?n - 1 \<le> ?m - 1" using that by simp
    then have "(2::int) ^ (?n - 1) \<le> 2 ^ (?m - 1)" by (rule power_increasing) simp
    with imm_sval_range [OF assms(1)] have "- (2 ^ (?m - 1)) \<le> imm_sval a" "imm_sval a < 2 ^ (?m - 1)"
      by linarith+
    with s show ?thesis by (intro imm_sval_eqI) simp_all
  qed
  then show "case imm_sext a ty of Inl _ \<Rightarrow> ?m < ?n
     | Inr r \<Rightarrow> ?n \<le> ?m \<and> imm_ok r \<and> imm_ty r = ty \<and> imm_sval r = imm_sval a"
    using s by (simp add: imm_sext_def assert_that_def le)
  have zv: "imm_uval z = imm_uval a" if "?n \<le> ?m"
  proof (cases "imm_ty a = Ty_I256")
    case True
    with that integral_bits [OF assms(2)] have "?m = 256" by simp
    with z zext_i256_int [OF assms(1)] show ?thesis by simp
  next
    case False
    have "imm_uval a < 2 ^ ?n" by (simp add: imm_uval_def)
    moreover have "(2::int) ^ ?n \<le> 2 ^ ?m" using that by (rule power_increasing) simp
    moreover have "0 \<le> imm_uval a" by (simp add: imm_uval_def)
    ultimately have "imm_uval a mod 2 ^ ?m = imm_uval a" by (intro mod_pos_pos_trivial) linarith+
    then show ?thesis using z False zext_i256_int [OF assms(1)] by simp
  qed
  then show "case imm_zext a ty of Inl _ \<Rightarrow> ?m < ?n
     | Inr r \<Rightarrow> ?n \<le> ?m \<and> imm_ok r \<and> imm_ty r = ty \<and> imm_uval r = imm_uval a"
    using z by (simp add: imm_zext_def assert_that_def le)
  have "imm_uval s = imm_uval a mod 2 ^ ?m" if "?m \<le> ?n"
    using that s by (simp add: imm_uval_def mod_mod_cancel le_imp_power_dvd)
  then show "case imm_trunc a ty of Inl _ \<Rightarrow> ?n < ?m
     | Inr r \<Rightarrow> ?m \<le> ?n \<and> imm_ok r \<and> imm_ty r = ty \<and> imm_uval r = imm_uval a mod 2 ^ ?m"
    using s by (simp add: imm_trunc_def assert_that_def le)
qed

theorem imm_conversions_witness:
  "\<exists>r z. imm_sext (Imm_I8 200) Ty_I16 = Inr r \<and> imm_sval r = - 56 \<and> imm_zext (Imm_I8 200) Ty_I16 = Inr z \<and> imm_uval z = 200"
proof -
  have "imm_ok (Imm_I8 200)" "is_integral Ty_I16" by (simp_all add: imm_ok_def is_integral_def)
  from imm_conversions [OF this] show ?thesis
    by (cases "imm_sext (Imm_I8 200) Ty_I16"; cases "imm_zext (Imm_I8 200) Ty_I16") (auto simp: imm_uval_def)
qed

section \<open>Signed division\<close>

lemma from_i256_negative_zero:
  assumes "\<not> i256_ok i" "i256_int i = 0" "is_integral ty"
  shows "from_i256 i ty = (if ty = Ty_I256 then Inr (Imm_I256 (I256 True 0)) else Inl (Panic ''arithmetic operation overflow''))"
proof -
  have "i = I256 True 0"
    using assms(1,2) by (cases i) (auto simp: i256_int_def i256_ok_def word_uint_eq_iff split: if_splits)
  with assms(3) show ?thesis
    by (auto simp: is_integral_def from_i256_def trunc_to_i1_def trunc_to_i8_def trunc_to_i16_def trunc_to_i32_def
        trunc_to_i64_def trunc_to_i128_def)
qed

text \<open>The mathematical quotient or remainder is zero and the sign of the operands is negative.\<close>

definition div_negative_zero :: "int \<Rightarrow> int \<Rightarrow> bool" where
  "div_negative_zero x y \<longleftrightarrow> \<bar>x\<bar> < \<bar>y\<bar> \<and> (x < 0 \<longleftrightarrow> \<not> y < 0)"

definition rem_negative_zero :: "int \<Rightarrow> int \<Rightarrow> bool" where
  "rem_negative_zero x y \<longleftrightarrow> x < 0 \<and> x smod y = 0 \<and> \<not> (x = - (2 ^ 255) \<and> y = - 1)"

lemma imm_sdiv_srem_cases:
  assumes "imm_ok a" and "imm_ok b" and "imm_ty a = imm_ty b" and "imm_sval b \<noteq> 0"
  shows "(if div_negative_zero (imm_sval a) (imm_sval b)
          then imm_sdiv a b = (if imm_ty a = Ty_I256 then Inr (Imm_I256 (I256 True 0)) else Inl (Panic ''arithmetic operation overflow''))
          else \<exists>q. imm_sdiv a b = Inr q \<and> imm_ok q \<and> imm_ty q = imm_ty a
                 \<and> imm_uval q = (imm_sval a sdiv imm_sval b) mod 2 ^ ty_bits (imm_ty a))
       \<and> (if rem_negative_zero (imm_sval a) (imm_sval b)
          then imm_srem a b = (if imm_ty a = Ty_I256 then Inr (Imm_I256 (I256 True 0)) else Inl (Panic ''arithmetic operation overflow''))
          else \<exists>r. imm_srem a b = Inr r \<and> imm_ok r \<and> imm_ty r = imm_ty a
                 \<and> imm_uval r = (imm_sval a smod imm_sval b) mod 2 ^ ty_bits (imm_ty a))"
proof -
  let ?x = "imm_sval a" and ?y = "imm_sval b" and ?ty = "imm_ty a"
  have a: "i256_ok (as_i256 a)" "i256_int (as_i256 a) = ?x" and b: "i256_ok (as_i256 b)" "i256_int (as_i256 b) = ?y"
    using as_i256_int [OF assms(1)] as_i256_int [OF assms(2)] by simp_all
  have y: "i256_int (as_i256 b) \<noteq> 0" using b(2) assms(4) by simp
  obtain q qo where q: "overflowing_div (as_i256 a) (as_i256 b) = Inr (q, qo)"
      "i256_int q = (if ?x = - (2 ^ 255) \<and> ?y = - 1 then ?x else ?x sdiv ?y)"
      "i256_ok q \<longleftrightarrow> \<not> div_negative_zero ?x ?y"
    using overflowing_div_value [OF a(1) b(1) y] unfolding a(2) b(2) div_negative_zero_def by blast
  obtain r ro where r: "overflowing_rem (as_i256 a) (as_i256 b) = Inr (r, ro)" "i256_int r = ?x smod ?y"
      "i256_ok r \<longleftrightarrow> \<not> rem_negative_zero ?x ?y"
    using overflowing_rem_value [OF a(1) b(1) y] unfolding a(2) b(2) rem_negative_zero_def by blast
  have D: "imm_sdiv a b = from_i256 q ?ty" and R: "imm_srem a b = from_i256 r ?ty"
    using assms(3) q(1) r(1) by (simp_all add: imm_sdiv_def imm_srem_def apply_binop_def apply_binop_raw_def assert_that_def)
  have M: "?x mod 2 ^ ty_bits ?ty = (?x sdiv ?y) mod 2 ^ ty_bits ?ty" if m: "?x = - (2 ^ 255)" "?y = - 1"
  proof -
    have "ty_bits ?ty = 256 \<or> ty_bits ?ty \<le> 128" by (cases a) simp_all
    moreover have False if "ty_bits ?ty \<le> 128"
    proof -
      have "(2 :: int) ^ (ty_bits ?ty - 1) \<le> 2 ^ 128" using that by (intro power_increasing) simp_all
      then show False using imm_sval_range [OF assms(1)] m(1) by simp
    qed
    ultimately show ?thesis using m by (auto simp: signed_divide_int_def)
  qed
  have z: "i256_int q = 0" if "div_negative_zero ?x ?y"
    using that q(2) by (auto simp: div_negative_zero_def signed_divide_int_def)
  have zr: "i256_int r = 0" if "rem_negative_zero ?x ?y"
    using that r(2) by (simp add: rem_negative_zero_def)
  have uq: "i256_int q mod 2 ^ ty_bits ?ty = (?x sdiv ?y) mod 2 ^ ty_bits ?ty"
    using M unfolding q(2) by presburger
  show ?thesis
  proof (rule conjI)
    show "if div_negative_zero ?x ?y
          then imm_sdiv a b = (if ?ty = Ty_I256 then Inr (Imm_I256 (I256 True 0)) else Inl (Panic ''arithmetic operation overflow''))
          else \<exists>q. imm_sdiv a b = Inr q \<and> imm_ok q \<and> imm_ty q = ?ty \<and> imm_uval q = (?x sdiv ?y) mod 2 ^ ty_bits ?ty"
      using from_i256_int [of q ?ty] from_i256_negative_zero [of q ?ty] z q(3)
      by (simp add: D uq)
    show "if rem_negative_zero ?x ?y
          then imm_srem a b = (if ?ty = Ty_I256 then Inr (Imm_I256 (I256 True 0)) else Inl (Panic ''arithmetic operation overflow''))
          else \<exists>r. imm_srem a b = Inr r \<and> imm_ok r \<and> imm_ty r = ?ty \<and> imm_uval r = (?x smod ?y) mod 2 ^ ty_bits ?ty"
      using from_i256_int [of r ?ty] from_i256_negative_zero [of r ?ty] zr r(2,3)
      by (simp add: R)
  qed
qed

text \<open>C29: signed division and remainder are the truncated ones modulo the width, except where the
  mathematical result is zero but the operands' signs make \<open>I256\<close> produce a negative zero:
  there a narrow type panics and \<open>i256\<close> yields an immediate that is zero but not equal to zero.\<close>
theorem imm_sdiv_srem:
  assumes "imm_ok a" and "imm_ok b" and "imm_ty a = imm_ty b" and "imm_sval b \<noteq> 0"
  shows "(if div_negative_zero (imm_sval a) (imm_sval b)
          then imm_sdiv a b = (if imm_ty a = Ty_I256 then Inr (Imm_I256 (I256 True 0)) else Inl (Panic ''arithmetic operation overflow''))
          else \<exists>q. imm_sdiv a b = Inr q \<and> imm_ok q \<and> imm_ty q = imm_ty a
                 \<and> imm_uval q = (imm_sval a sdiv imm_sval b) mod 2 ^ ty_bits (imm_ty a))
       \<and> (if rem_negative_zero (imm_sval a) (imm_sval b)
          then imm_srem a b = (if imm_ty a = Ty_I256 then Inr (Imm_I256 (I256 True 0)) else Inl (Panic ''arithmetic operation overflow''))
          else \<exists>r. imm_srem a b = Inr r \<and> imm_ok r \<and> imm_ty r = imm_ty a
                 \<and> imm_uval r = (imm_sval a smod imm_sval b) mod 2 ^ ty_bits (imm_ty a))"
  using assms by (rule imm_sdiv_srem_cases)

theorem imm_sdiv_srem_witness:
  "imm_sdiv (Imm_I8 (- 1)) (Imm_I8 2) = Inl (Panic ''arithmetic operation overflow'')
   \<and> (\<exists>r. imm_srem (Imm_I8 (- 1)) (Imm_I8 2) = Inr r \<and> imm_uval r = 255)"
proof -
  have ok: "imm_ok (Imm_I8 (- 1))" "imm_ok (Imm_I8 2)" "imm_ty (Imm_I8 (- 1)) = imm_ty (Imm_I8 2)" "imm_sval (Imm_I8 2) \<noteq> 0"
    by (simp_all add: imm_ok_def)
  have "div_negative_zero (imm_sval (Imm_I8 (- 1))) (imm_sval (Imm_I8 2))"
    "\<not> rem_negative_zero (imm_sval (Imm_I8 (- 1))) (imm_sval (Imm_I8 2))"
    "imm_sval (Imm_I8 (- 1)) smod imm_sval (Imm_I8 2) = - 1"
    by (simp_all add: div_negative_zero_def rem_negative_zero_def signed_modulo_int_def signed_divide_int_def)
  with imm_sdiv_srem [OF ok] show ?thesis by auto
qed

end
