(* ===== verification/Insts.thy ===== *)
theory Insts
  imports Sonatina_Prelude IrTypes
begin

text \<open>
  \<open>crates/ir/src/inst\<close>: the instructions, what the derive macro \<open>Inst\<close> generates for each of them (side
  effect, terminator flag, the values in field order), the EVM instruction set, and the
  \<open>BranchInfo\<close> operations on branches (\<open>control_flow.rs\<close>).
\<close>

section \<open>Instructions\<close>

datatype SymbolRef = SymFunc FuncRef | SymGlobal GlobalVariableRef | SymEmbed string

text \<open>\<open>inst/evm/mod.rs\<close>: the EVM instructions; their operands are all values.\<close>

datatype (plugins only: size) EvmOp =
    EvmUdiv | EvmSdiv | EvmUmod | EvmSmod | EvmStop | EvmInvalid
  | EvmAddMod | EvmMulMod | EvmExp | EvmByte | EvmClz | EvmKeccak256
  | EvmAddress | EvmBalance | EvmOrigin | EvmCaller | EvmCallValue | EvmCalldataLoad
  | EvmCalldataSize | EvmCalldataCopy | EvmCodeSize | EvmCodeCopy | EvmGasPrice | EvmExtCodeSize
  | EvmExtCodeCopy | EvmReturnDataSize | EvmReturnDataCopy | EvmExtCodeHash | EvmBlockHash | EvmCoinBase
  | EvmTimestamp | EvmNumber | EvmPrevRandao | EvmGasLimit | EvmChainId | EvmSelfBalance
  | EvmBaseFee | EvmBlobHash | EvmBlobBaseFee | EvmMstore8 | EvmSload | EvmSstore
  | EvmMsize | EvmGas | EvmTload | EvmTstore | EvmMcopy | EvmLog0
  | EvmLog1 | EvmLog2 | EvmLog3 | EvmLog4 | EvmCreate | EvmCall
  | EvmCallCode | EvmReturn | EvmDelegateCall | EvmCreate2 | EvmStaticCall | EvmRevert
  | EvmSelfDestruct | EvmMalloc

datatype (plugins only: size) inst =
    Neg ValueId
  | Add ValueId ValueId
  | Mul ValueId ValueId
  | Sub ValueId ValueId
  | Sdiv ValueId ValueId
  | Udiv ValueId ValueId
  | Umod ValueId ValueId
  | Smod ValueId ValueId
  | Shl ValueId ValueId
  | Shr ValueId ValueId
  | Sar ValueId ValueId
  | Lt ValueId ValueId
  | Gt ValueId ValueId
  | Slt ValueId ValueId
  | Sgt ValueId ValueId
  | Le ValueId ValueId
  | Ge ValueId ValueId
  | Sle ValueId ValueId
  | Sge ValueId ValueId
  | Eq ValueId ValueId
  | Ne ValueId ValueId
  | IsZero ValueId
  | Not ValueId
  | And ValueId ValueId
  | Or ValueId ValueId
  | Xor ValueId ValueId
  | Sext ValueId IrType
  | Zext ValueId IrType
  | Trunc ValueId IrType
  | Bitcast ValueId IrType
  | IntToPtr ValueId IrType
  | PtrToInt ValueId IrType
  | Mload ValueId IrType
  | Mstore ValueId ValueId IrType
  | Gep "ValueId list"
  | GetFunctionPtr FuncRef
  | SymAddr SymbolRef
  | SymSize SymbolRef
  | Alloca IrType
  | InsertValue ValueId ValueId ValueId
  | ExtractValue ValueId ValueId
  | Call FuncRef "ValueId list"
  | Jump BlockId
  | Br ValueId BlockId BlockId
  | BrTable ValueId "BlockId option" "(ValueId \<times> BlockId) list"
  | Return "ValueId option"
  | Unreachable
  | Phi "(ValueId \<times> BlockId) list"
  | Evm EvmOp "ValueId list"

datatype SideEffect = SE_None | SE_Read | SE_Write | SE_Control

fun evm_side_effect :: "EvmOp \<Rightarrow> SideEffect" where
  "evm_side_effect EvmAddress = SE_Read"
| "evm_side_effect EvmBalance = SE_Read"
| "evm_side_effect EvmOrigin = SE_Read"
| "evm_side_effect EvmCaller = SE_Read"
| "evm_side_effect EvmCallValue = SE_Read"
| "evm_side_effect EvmCalldataLoad = SE_Read"
| "evm_side_effect EvmCalldataSize = SE_Read"
| "evm_side_effect EvmCodeSize = SE_Read"
| "evm_side_effect EvmGasPrice = SE_Read"
| "evm_side_effect EvmExtCodeSize = SE_Read"
| "evm_side_effect EvmReturnDataSize = SE_Read"
| "evm_side_effect EvmExtCodeHash = SE_Read"
| "evm_side_effect EvmBlockHash = SE_Read"
| "evm_side_effect EvmCoinBase = SE_Read"
| "evm_side_effect EvmTimestamp = SE_Read"
| "evm_side_effect EvmNumber = SE_Read"
| "evm_side_effect EvmPrevRandao = SE_Read"
| "evm_side_effect EvmGasLimit = SE_Read"
| "evm_side_effect EvmChainId = SE_Read"
| "evm_side_effect EvmSelfBalance = SE_Read"
| "evm_side_effect EvmBaseFee = SE_Read"
| "evm_side_effect EvmBlobHash = SE_Read"
| "evm_side_effect EvmBlobBaseFee = SE_Read"
| "evm_side_effect EvmSload = SE_Read"
| "evm_side_effect EvmMsize = SE_Read"
| "evm_side_effect EvmGas = SE_Read"
| "evm_side_effect EvmTload = SE_Read"
| "evm_side_effect EvmCalldataCopy = SE_Write"
| "evm_side_effect EvmCodeCopy = SE_Write"
| "evm_side_effect EvmExtCodeCopy = SE_Write"
| "evm_side_effect EvmReturnDataCopy = SE_Write"
| "evm_side_effect EvmMstore8 = SE_Write"
| "evm_side_effect EvmSstore = SE_Write"
| "evm_side_effect EvmTstore = SE_Write"
| "evm_side_effect EvmMcopy = SE_Write"
| "evm_side_effect EvmLog0 = SE_Write"
| "evm_side_effect EvmLog1 = SE_Write"
| "evm_side_effect EvmLog2 = SE_Write"
| "evm_side_effect EvmLog3 = SE_Write"
| "evm_side_effect EvmLog4 = SE_Write"
| "evm_side_effect EvmCreate = SE_Write"
| "evm_side_effect EvmCall = SE_Write"
| "evm_side_effect EvmCallCode = SE_Write"
| "evm_side_effect EvmDelegateCall = SE_Write"
| "evm_side_effect EvmCreate2 = SE_Write"
| "evm_side_effect EvmStaticCall = SE_Write"
| "evm_side_effect EvmSelfDestruct = SE_Write"
| "evm_side_effect EvmMalloc = SE_Write"
| "evm_side_effect EvmStop = SE_Control"
| "evm_side_effect EvmInvalid = SE_Control"
| "evm_side_effect EvmReturn = SE_Control"
| "evm_side_effect EvmRevert = SE_Control"
| "evm_side_effect _ = SE_None"

definition evm_is_terminator :: "EvmOp \<Rightarrow> bool" where
  "evm_is_terminator e \<longleftrightarrow> e \<in> {EvmStop, EvmInvalid, EvmReturn, EvmRevert, EvmSelfDestruct}"

text \<open>The number of fields of an EVM instruction.\<close>

fun evm_arity :: "EvmOp \<Rightarrow> nat" where
  "evm_arity EvmUdiv = 2"
| "evm_arity EvmSdiv = 2"
| "evm_arity EvmUmod = 2"
| "evm_arity EvmSmod = 2"
| "evm_arity EvmStop = 0"
| "evm_arity EvmInvalid = 0"
| "evm_arity EvmAddMod = 3"
| "evm_arity EvmMulMod = 3"
| "evm_arity EvmExp = 2"
| "evm_arity EvmByte = 2"
| "evm_arity EvmClz = 1"
| "evm_arity EvmKeccak256 = 2"
| "evm_arity EvmAddress = 0"
| "evm_arity EvmBalance = 1"
| "evm_arity EvmOrigin = 0"
| "evm_arity EvmCaller = 0"
| "evm_arity EvmCallValue = 0"
| "evm_arity EvmCalldataLoad = 1"
| "evm_arity EvmCalldataSize = 0"
| "evm_arity EvmCalldataCopy = 3"
| "evm_arity EvmCodeSize = 0"
| "evm_arity EvmCodeCopy = 3"
| "evm_arity EvmGasPrice = 0"
| "evm_arity EvmExtCodeSize = 1"
| "evm_arity EvmExtCodeCopy = 4"
| "evm_arity EvmReturnDataSize = 0"
| "evm_arity EvmReturnDataCopy = 3"
| "evm_arity EvmExtCodeHash = 1"
| "evm_arity EvmBlockHash = 1"
| "evm_arity EvmCoinBase = 0"
| "evm_arity EvmTimestamp = 0"
| "evm_arity EvmNumber = 0"
| "evm_arity EvmPrevRandao = 0"
| "evm_arity EvmGasLimit = 0"
| "evm_arity EvmChainId = 0"
| "evm_arity EvmSelfBalance = 0"
| "evm_arity EvmBaseFee = 0"
| "evm_arity EvmBlobHash = 1"
| "evm_arity EvmBlobBaseFee = 0"
| "evm_arity EvmMstore8 = 2"
| "evm_arity EvmSload = 1"
| "evm_arity EvmSstore = 2"
| "evm_arity EvmMsize = 0"
| "evm_arity EvmGas = 0"
| "evm_arity EvmTload = 1"
| "evm_arity EvmTstore = 2"
| "evm_arity EvmMcopy = 3"
| "evm_arity EvmLog0 = 2"
| "evm_arity EvmLog1 = 3"
| "evm_arity EvmLog2 = 4"
| "evm_arity EvmLog3 = 5"
| "evm_arity EvmLog4 = 6"
| "evm_arity EvmCreate = 3"
| "evm_arity EvmCall = 7"
| "evm_arity EvmCallCode = 7"
| "evm_arity EvmReturn = 2"
| "evm_arity EvmDelegateCall = 6"
| "evm_arity EvmCreate2 = 4"
| "evm_arity EvmStaticCall = 6"
| "evm_arity EvmRevert = 2"
| "evm_arity EvmSelfDestruct = 1"
| "evm_arity EvmMalloc = 1"

section \<open>What the derive macro generates\<close>

fun side_effect :: "inst \<Rightarrow> SideEffect" where
  "side_effect (Mload _ _) = SE_Read"
| "side_effect (Mstore _ _ _) = SE_Write"
| "side_effect (Alloca _) = SE_Write"
| "side_effect (Call _ _) = SE_Write"
| "side_effect (Return _) = SE_Control"
| "side_effect Unreachable = SE_Control"
| "side_effect (Evm e _) = evm_side_effect e"
| "side_effect _ = SE_None"

fun is_terminator :: "inst \<Rightarrow> bool" where
  "is_terminator (Jump _) = True"
| "is_terminator (Br _ _ _) = True"
| "is_terminator (BrTable _ _ _) = True"
| "is_terminator (Return _) = True"
| "is_terminator Unreachable = True"
| "is_terminator (Evm e _) = evm_is_terminator e"
| "is_terminator _ = False"

definition has_effect :: "SideEffect \<Rightarrow> bool" where
  "has_effect s \<longleftrightarrow> s \<noteq> SE_None"

definition has_memory_effect :: "SideEffect \<Rightarrow> bool" where
  "has_memory_effect s \<longleftrightarrow> s = SE_Read \<or> s = SE_Write"

text \<open>\<open>for_each_value\<close>: the values an instruction reads, in the order of its fields.\<close>

fun values_of :: "inst \<Rightarrow> ValueId list" where
  "values_of (Neg a) = [a]"
| "values_of (Add a b) = [a, b]"
| "values_of (Mul a b) = [a, b]"
| "values_of (Sub a b) = [a, b]"
| "values_of (Sdiv a b) = [a, b]"
| "values_of (Udiv a b) = [a, b]"
| "values_of (Umod a b) = [a, b]"
| "values_of (Smod a b) = [a, b]"
| "values_of (Shl a b) = [a, b]"
| "values_of (Shr a b) = [a, b]"
| "values_of (Sar a b) = [a, b]"
| "values_of (Lt a b) = [a, b]"
| "values_of (Gt a b) = [a, b]"
| "values_of (Slt a b) = [a, b]"
| "values_of (Sgt a b) = [a, b]"
| "values_of (Le a b) = [a, b]"
| "values_of (Ge a b) = [a, b]"
| "values_of (Sle a b) = [a, b]"
| "values_of (Sge a b) = [a, b]"
| "values_of (Eq a b) = [a, b]"
| "values_of (Ne a b) = [a, b]"
| "values_of (IsZero a) = [a]"
| "values_of (Not a) = [a]"
| "values_of (And a b) = [a, b]"
| "values_of (Or a b) = [a, b]"
| "values_of (Xor a b) = [a, b]"
| "values_of (Sext a _) = [a]"
| "values_of (Zext a _) = [a]"
| "values_of (Trunc a _) = [a]"
| "values_of (Bitcast a _) = [a]"
| "values_of (IntToPtr a _) = [a]"
| "values_of (PtrToInt a _) = [a]"
| "values_of (Mload a _) = [a]"
| "values_of (Mstore a b _) = [a, b]"
| "values_of (Gep vs) = vs"
| "values_of (GetFunctionPtr _) = []"
| "values_of (SymAddr _) = []"
| "values_of (SymSize _) = []"
| "values_of (Alloca _) = []"
| "values_of (InsertValue a b c) = [a, b, c]"
| "values_of (ExtractValue a b) = [a, b]"
| "values_of (Call _ vs) = vs"
| "values_of (Jump _) = []"
| "values_of (Br c _ _) = [c]"
| "values_of (BrTable s _ tbl) = s # map fst tbl"
| "values_of (Return r) = (case r of None \<Rightarrow> [] | Some v \<Rightarrow> [v])"
| "values_of Unreachable = []"
| "values_of (Phi args) = map fst args"
| "values_of (Evm _ vs) = vs"

text \<open>\<open>for_each_value_mut\<close> with a function on the value.\<close>

fun map_values :: "(ValueId \<Rightarrow> ValueId) \<Rightarrow> inst \<Rightarrow> inst" where
  "map_values f (Neg a) = Neg (f a)"
| "map_values f (Add a b) = Add (f a) (f b)"
| "map_values f (Mul a b) = Mul (f a) (f b)"
| "map_values f (Sub a b) = Sub (f a) (f b)"
| "map_values f (Sdiv a b) = Sdiv (f a) (f b)"
| "map_values f (Udiv a b) = Udiv (f a) (f b)"
| "map_values f (Umod a b) = Umod (f a) (f b)"
| "map_values f (Smod a b) = Smod (f a) (f b)"
| "map_values f (Shl a b) = Shl (f a) (f b)"
| "map_values f (Shr a b) = Shr (f a) (f b)"
| "map_values f (Sar a b) = Sar (f a) (f b)"
| "map_values f (Lt a b) = Lt (f a) (f b)"
| "map_values f (Gt a b) = Gt (f a) (f b)"
| "map_values f (Slt a b) = Slt (f a) (f b)"
| "map_values f (Sgt a b) = Sgt (f a) (f b)"
| "map_values f (Le a b) = Le (f a) (f b)"
| "map_values f (Ge a b) = Ge (f a) (f b)"
| "map_values f (Sle a b) = Sle (f a) (f b)"
| "map_values f (Sge a b) = Sge (f a) (f b)"
| "map_values f (Eq a b) = Eq (f a) (f b)"
| "map_values f (Ne a b) = Ne (f a) (f b)"
| "map_values f (IsZero a) = IsZero (f a)"
| "map_values f (Not a) = Not (f a)"
| "map_values f (And a b) = And (f a) (f b)"
| "map_values f (Or a b) = Or (f a) (f b)"
| "map_values f (Xor a b) = Xor (f a) (f b)"
| "map_values f (Sext a ty) = Sext (f a) ty"
| "map_values f (Zext a ty) = Zext (f a) ty"
| "map_values f (Trunc a ty) = Trunc (f a) ty"
| "map_values f (Bitcast a ty) = Bitcast (f a) ty"
| "map_values f (IntToPtr a ty) = IntToPtr (f a) ty"
| "map_values f (PtrToInt a ty) = PtrToInt (f a) ty"
| "map_values f (Mload a ty) = Mload (f a) ty"
| "map_values f (Mstore a b ty) = Mstore (f a) (f b) ty"
| "map_values f (Gep vs) = Gep (map f vs)"
| "map_values f (GetFunctionPtr g) = GetFunctionPtr g"
| "map_values f (SymAddr s) = SymAddr s"
| "map_values f (SymSize s) = SymSize s"
| "map_values f (Alloca ty) = Alloca ty"
| "map_values f (InsertValue a b c) = InsertValue (f a) (f b) (f c)"
| "map_values f (ExtractValue a b) = ExtractValue (f a) (f b)"
| "map_values f (Call g vs) = Call g (map f vs)"
| "map_values f (Jump d) = Jump d"
| "map_values f (Br c nz z) = Br (f c) nz z"
| "map_values f (BrTable s d tbl) = BrTable (f s) d (map (\<lambda>(v, b). (f v, b)) tbl)"
| "map_values f (Return r) = Return (map_option f r)"
| "map_values f Unreachable = Unreachable"
| "map_values f (Phi args) = Phi (map (\<lambda>(v, b). (f v, b)) args)"
| "map_values f (Evm e vs) = Evm e (map f vs)"

lemma values_of_map_values: "values_of (map_values f i) = map f (values_of i)"
  by (cases i) (auto split: option.splits)

text \<open>The instructions of \<open>EvmInstSet\<close>: the ones missing from it are those below.\<close>

fun in_evm_inst_set :: "inst \<Rightarrow> bool" where
  "in_evm_inst_set (Sdiv _ _) = False"
| "in_evm_inst_set (Udiv _ _) = False"
| "in_evm_inst_set (Umod _ _) = False"
| "in_evm_inst_set (Smod _ _) = False"
| "in_evm_inst_set (Sle _ _) = False"
| "in_evm_inst_set (Evm e _) = (e \<notin> {EvmGasPrice, EvmExtCodeSize})"
| "in_evm_inst_set _ = True"

section \<open>Branches\<close>

fun is_branch_inst :: "inst \<Rightarrow> bool" where
  "is_branch_inst (Jump _) = True"
| "is_branch_inst (Br _ _ _) = True"
| "is_branch_inst (BrTable _ _ _) = True"
| "is_branch_inst _ = False"

fun dests :: "inst \<Rightarrow> BlockId list" where
  "dests (Jump d) = [d]"
| "dests (Br _ nz z) = [nz, z]"
| "dests (BrTable _ dflt tbl) = (case dflt of None \<Rightarrow> [] | Some d \<Rightarrow> [d]) @ map snd tbl"
| "dests _ = []"

fun num_dests :: "inst \<Rightarrow> nat" where
  "num_dests (Jump _) = 1"
| "num_dests (Br _ _ _) = 2"
| "num_dests (BrTable _ dflt tbl) = (if dflt \<noteq> None then length tbl + 1 else length tbl)"
| "num_dests _ = 0"

fun remove_dest :: "inst \<Rightarrow> BlockId \<Rightarrow> inst" where
  "remove_dest (Jump d) dest = (if dest = d then Unreachable else Jump d)"
| "remove_dest (Br c nz z) dest =
     (if nz = dest \<and> z = dest then Unreachable
      else if nz = dest then Jump z
      else if z = dest then Jump nz
      else Br c nz z)"
| "remove_dest (BrTable s dflt tbl) dest =
     (let dflt' = (if Some dest = dflt then None else dflt);
          keep = filter (\<lambda>(_, b). b \<noteq> dest) tbl;
          brt = BrTable s dflt' keep
      in case dests brt of
           [] \<Rightarrow> Unreachable
         | [d] \<Rightarrow> Jump d
         | _ \<Rightarrow> brt)"
| "remove_dest i _ = i"

definition rewrite_if_match :: "BlockId \<Rightarrow> BlockId \<Rightarrow> BlockId \<Rightarrow> BlockId" where
  "rewrite_if_match from to block = (if block = from then to else block)"

definition try_convert_branch_to_jump :: "inst \<Rightarrow> inst option" where
  "try_convert_branch_to_jump branch =
     (case dests branch of
        [] \<Rightarrow> Some Unreachable
      | first_dest # rest \<Rightarrow>
          if list_all (\<lambda>dest. dest = first_dest) (first_dest # rest) then Some (Jump first_dest) else None)"

fun rewrite_dest :: "inst \<Rightarrow> BlockId \<Rightarrow> BlockId \<Rightarrow> inst" where
  "rewrite_dest (Jump d) from to = Jump (rewrite_if_match from to d)"
| "rewrite_dest (Br c nz z) from to =
     (let br = Br c (rewrite_if_match from to nz) (rewrite_if_match from to z)
      in case try_convert_branch_to_jump br of Some i \<Rightarrow> i | None \<Rightarrow> br)"
| "rewrite_dest (BrTable s dflt tbl) from to =
     (let brt = BrTable s (map_option (rewrite_if_match from to) dflt)
                  (map (\<lambda>(v, b). (v, rewrite_if_match from to b)) tbl)
      in case try_convert_branch_to_jump brt of Some i \<Rightarrow> i | None \<Rightarrow> brt)"
| "rewrite_dest i _ _ = i"

section \<open>Phi arguments\<close>

fun append_phi_arg :: "inst \<Rightarrow> ValueId \<Rightarrow> BlockId \<Rightarrow> inst" where
  "append_phi_arg (Phi args) v b = Phi (args @ [(v, b)])"
| "append_phi_arg i _ _ = i"

fun remove_first_arg :: "BlockId \<Rightarrow> (ValueId \<times> BlockId) list \<Rightarrow> (ValueId \<times> (ValueId \<times> BlockId) list) option" where
  "remove_first_arg b [] = None"
| "remove_first_arg b ((v, c) # args) =
     (if c = b then Some (v, args)
      else map_option (\<lambda>(w, rest). (w, (v, c) # rest)) (remove_first_arg b args))"

fun remove_phi_arg :: "inst \<Rightarrow> BlockId \<Rightarrow> ValueId option \<times> inst" where
  "remove_phi_arg (Phi args) b =
     (case remove_first_arg b args of None \<Rightarrow> (None, Phi args) | Some (v, rest) \<Rightarrow> (Some v, Phi rest))"
| "remove_phi_arg i _ = (None, i)"

fun retain_phi_args :: "inst \<Rightarrow> (BlockId \<Rightarrow> bool) \<Rightarrow> inst" where
  "retain_phi_args (Phi args) keep = Phi (filter (\<lambda>(_, b). keep b) args)"
| "retain_phi_args i _ = i"

section \<open>Properties\<close>

lemma dests_shrunk:
  "dests (case dests brt of [] \<Rightarrow> Unreachable | [d] \<Rightarrow> Jump d | _ \<Rightarrow> brt) = dests brt"
  by (auto split: list.split)

lemma dests_converted:
  "set (dests (case try_convert_branch_to_jump br of Some i \<Rightarrow> i | None \<Rightarrow> br)) = set (dests br)"
  by (auto simp: try_convert_branch_to_jump_def list_all_iff split: list.split)

lemma dests_remove_dest: "set (dests (remove_dest i d)) = set (dests i) - {d}"
proof (cases i)
  case (BrTable s dflt tbl)
  let ?brt = "BrTable s (if Some d = dflt then None else dflt) (filter (\<lambda>(_, b). b \<noteq> d) tbl)"
  have "remove_dest i d = (case dests ?brt of [] \<Rightarrow> Unreachable | [d] \<Rightarrow> Jump d | _ \<Rightarrow> ?brt)"
    unfolding BrTable remove_dest.simps Let_def ..
  then have "set (dests (remove_dest i d)) = set (dests ?brt)" by (simp only: dests_shrunk)
  also have "\<dots> = set (dests i) - {d}" unfolding BrTable by (auto split: option.splits)
  finally show ?thesis .
qed auto

lemma dests_rewrite_dest: "set (dests (rewrite_dest i from to)) = rewrite_if_match from to ` set (dests i)"
proof (cases i)
  case (BrTable s dflt tbl)
  let ?brt = "BrTable s (map_option (rewrite_if_match from to) dflt) (map (\<lambda>(v, b). (v, rewrite_if_match from to b)) tbl)"
  have "rewrite_dest i from to = (case try_convert_branch_to_jump ?brt of Some i \<Rightarrow> i | None \<Rightarrow> ?brt)"
    unfolding BrTable rewrite_dest.simps Let_def ..
  then have "set (dests (rewrite_dest i from to)) = set (dests ?brt)" by (simp only: dests_converted)
  also have "\<dots> = rewrite_if_match from to ` set (dests i)"
    unfolding BrTable by (cases dflt) (simp_all add: case_prod_beta image_image image_Un)
  finally show ?thesis .
next
  case (Br c nz z)
  let ?br = "Br c (rewrite_if_match from to nz) (rewrite_if_match from to z)"
  have "rewrite_dest i from to = (case try_convert_branch_to_jump ?br of Some i \<Rightarrow> i | None \<Rightarrow> ?br)"
    unfolding Br rewrite_dest.simps Let_def ..
  then have "set (dests (rewrite_dest i from to)) = set (dests ?br)" by (simp only: dests_converted)
  then show ?thesis unfolding Br by simp
qed auto

lemma values_of_converted:
  "set (values_of (case try_convert_branch_to_jump br of Some i \<Rightarrow> i | None \<Rightarrow> br)) \<subseteq> set (values_of br)"
  by (auto simp: try_convert_branch_to_jump_def split: list.split)

lemma values_of_remove_dest: "set (values_of (remove_dest i d)) \<subseteq> set (values_of i)"
proof (cases i)
  case (BrTable s dflt tbl)
  then show ?thesis by (auto simp: Let_def split: list.split)
qed auto

lemma values_of_rewrite_dest: "set (values_of (rewrite_dest i from to)) \<subseteq> set (values_of i)"
proof (cases i)
  case (BrTable s dflt tbl)
  then show ?thesis
    using values_of_converted [of "BrTable s (map_option (rewrite_if_match from to) dflt) (map (\<lambda>(v, b). (v, rewrite_if_match from to b)) tbl)"]
    by (simp add: Let_def case_prod_beta image_image)
next
  case (Br c nz z)
  then show ?thesis
    using values_of_converted [of "Br c (rewrite_if_match from to nz) (rewrite_if_match from to z)"]
    by (auto simp: Let_def)
qed auto

text \<open>Editing a branch edits its set of destinations as asked: removing takes exactly that
  destination away, rewriting replaces it, the number of destinations reported is the length of
  the list, and neither edit makes the branch read a value it did not read before.\<close>
theorem branch_edits_dests:
  "set (dests (remove_dest i d)) = set (dests i) - {d}
   \<and> set (dests (rewrite_dest i from to)) = (\<lambda>b. if b = from then to else b) ` set (dests i)
   \<and> num_dests i = length (dests i)
   \<and> set (values_of (remove_dest i d)) \<subseteq> set (values_of i)
   \<and> set (values_of (rewrite_dest i from to)) \<subseteq> set (values_of i)
   \<and> (is_branch_inst i \<longleftrightarrow> num_dests i \<noteq> 0 \<or> (\<exists>s. i = BrTable s None []))"
proof -
  have "num_dests i = length (dests i)" by (cases i) (auto split: option.split)
  moreover have "is_branch_inst i \<longleftrightarrow> num_dests i \<noteq> 0 \<or> (\<exists>s. i = BrTable s None [])"
    by (cases i) auto
  moreover have "(\<lambda>b. if b = from then to else b) = rewrite_if_match from to"
    by (auto simp: rewrite_if_match_def fun_eq_iff)
  ultimately show ?thesis
    by (simp only: dests_remove_dest dests_rewrite_dest values_of_remove_dest values_of_rewrite_dest simp_thms)
qed

theorem branch_edits_dests_witness:
  "set (dests (remove_dest (BrTable 0 (Some 1) [(5, 2), (6, 1)]) 1)) = {2}
   \<and> set (dests (rewrite_dest (BrTable 0 (Some 1) [(5, 2), (6, 1)]) 2 7)) = {1, 7}
   \<and> is_branch_inst (BrTable 0 (Some 1) [(5, 2), (6, 1)])"
  using branch_edits_dests [of "BrTable 0 (Some 1) [(5, 2), (6, 1)]" 1 2 7] by auto

end
