(* ===== verification/Dfg.thy ===== *)
theory Dfg
  imports Immediates Insts
begin

text \<open>
  \<open>crates/ir/src/dfg.rs\<close>: the data flow graph of a function: its values, its instructions, the
  results attached to them, the interned immediates and the users of every value. The invariant
  says that the user sets are exact: an instruction is a user of a value if and only if it is
  tracked and reads it.
\<close>

section \<open>State\<close>

datatype Value =
    V_Inst InstId IrType
  | V_Arg IrType nat
  | V_Immediate Immediate IrType
  | V_Global GlobalVariableRef IrType
  | V_Undef IrType

record FuncAttrs =
  MEM_READ :: bool
  MEM_WRITE :: bool
  NORETURN :: bool
  WILLRETURN :: bool
  WILLTERMINATE :: bool

record DataFlowGraph =
  block_num :: nat
  d_values :: "Value list"
  d_insts :: "inst list"
  inst_results :: "InstId \<Rightarrow> ValueId option"
  immediates :: "Immediate \<Rightarrow> ValueId option"
  users :: "ValueId \<Rightarrow> InstId set"

definition dfg_new :: DataFlowGraph where
  "dfg_new = \<lparr>block_num = 0, d_values = [], d_insts = [], inst_results = (\<lambda>_. None),
              immediates = Map.empty, users = (\<lambda>_. {})\<rparr>"

section \<open>Operations\<close>

definition make_block :: "(DataFlowGraph, BlockId) op" where
  "make_block d = Inr (block_num d, d\<lparr>block_num := Suc (block_num d)\<rparr>)"

definition make_value :: "Value \<Rightarrow> (DataFlowGraph, ValueId) op" where
  "make_value v d = Inr (length (d_values d), d\<lparr>d_values := d_values d @ [v]\<rparr>)"

definition get_inst :: "DataFlowGraph \<Rightarrow> InstId \<Rightarrow> fault + inst" where
  "get_inst d inst_id = index_list (d_insts d) inst_id"

definition get_value :: "DataFlowGraph \<Rightarrow> ValueId \<Rightarrow> fault + Value" where
  "get_value d value_id = index_list (d_values d) value_id"

text \<open>The loops of \<open>attach_user\<close> and \<open>untrack_inst\<close> over the values of the instruction.\<close>

definition add_user :: "InstId \<Rightarrow> ValueId \<Rightarrow> (ValueId \<Rightarrow> InstId set) \<Rightarrow> ValueId \<Rightarrow> InstId set" where
  "add_user i v u = u(v := insert i (u v))"

definition drop_user :: "InstId \<Rightarrow> ValueId \<Rightarrow> (ValueId \<Rightarrow> InstId set) \<Rightarrow> ValueId \<Rightarrow> InstId set" where
  "drop_user i v u = u(v := u v - {i})"

definition attach_user :: "InstId \<Rightarrow> (DataFlowGraph, unit) op" where
  "attach_user inst_id d =
     rbind (get_inst d inst_id) (\<lambda>inst.
       Inr ((), d\<lparr>users := fold (add_user inst_id) (values_of inst) (users d)\<rparr>))"

definition untrack_inst :: "InstId \<Rightarrow> (DataFlowGraph, unit) op" where
  "untrack_inst inst_id d =
     rbind (get_inst d inst_id) (\<lambda>inst.
       Inr ((), d\<lparr>users := fold (drop_user inst_id) (values_of inst) (users d)\<rparr>))"

definition remove_user :: "ValueId \<Rightarrow> InstId \<Rightarrow> (DataFlowGraph, unit) op" where
  "remove_user value user d = Inr ((), d\<lparr>users := drop_user user value (users d)\<rparr>)"

definition make_inst :: "inst \<Rightarrow> (DataFlowGraph, InstId) op" where
  "make_inst inst d =
     (let inst_id = length (d_insts d);
          d = d\<lparr>d_insts := d_insts d @ [inst]\<rparr>
      in rbind (attach_user inst_id d) (\<lambda>(_, d). Inr (inst_id, d)))"

definition make_imm_value :: "Immediate \<Rightarrow> (DataFlowGraph, ValueId) op" where
  "make_imm_value imm d =
     (case immediates d imm of
        Some value \<Rightarrow> Inr (value, d)
      | None \<Rightarrow>
          rbind (make_value (V_Immediate imm (imm_ty imm)) d) (\<lambda>(value, d).
            Inr (value, d\<lparr>immediates := (immediates d)(imm \<mapsto> value)\<rparr>)))"

definition make_undef_value :: "IrType \<Rightarrow> (DataFlowGraph, ValueId) op" where
  "make_undef_value ty = make_value (V_Undef ty)"

definition value_inst :: "DataFlowGraph \<Rightarrow> ValueId \<Rightarrow> fault + InstId option" where
  "value_inst d v = rbind (get_value d v) (\<lambda>x. Inr (case x of V_Inst i _ \<Rightarrow> Some i | _ \<Rightarrow> None))"

definition value_imm :: "DataFlowGraph \<Rightarrow> ValueId \<Rightarrow> fault + Immediate option" where
  "value_imm d v = rbind (get_value d v) (\<lambda>x. Inr (case x of V_Immediate imm _ \<Rightarrow> Some imm | _ \<Rightarrow> None))"

fun ty_of_value :: "Value \<Rightarrow> IrType" where
  "ty_of_value (V_Inst _ ty) = ty"
| "ty_of_value (V_Arg ty _) = ty"
| "ty_of_value (V_Immediate _ ty) = ty"
| "ty_of_value (V_Global _ ty) = ty"
| "ty_of_value (V_Undef ty) = ty"

definition value_ty :: "DataFlowGraph \<Rightarrow> ValueId \<Rightarrow> fault + IrType" where
  "value_ty d v = rbind (get_value d v) (\<lambda>x. Inr (ty_of_value x))"

definition value_is_imm :: "DataFlowGraph \<Rightarrow> ValueId \<Rightarrow> fault + bool" where
  "value_is_imm d v = rbind (get_value d v) (\<lambda>x. Inr (case x of V_Immediate _ _ \<Rightarrow> True | _ \<Rightarrow> False))"

definition replace_inst :: "InstId \<Rightarrow> inst \<Rightarrow> (DataFlowGraph, unit) op" where
  "replace_inst inst_id new d =
     rbind (get_inst d inst_id) (\<lambda>old.
       let d = d\<lparr>d_insts := (d_insts d)[inst_id := new]\<rparr>;
           d = d\<lparr>users := fold (drop_user inst_id) (values_of old) (users d)\<rparr>
       in attach_user inst_id d)"

definition attach_result :: "InstId \<Rightarrow> ValueId \<Rightarrow> (DataFlowGraph, unit) op" where
  "attach_result inst_id value_id d =
     rbind (assert_that (inst_results d inst_id = None) ''inst_results[inst_id].is_none()'') (\<lambda>_.
       Inr ((), d\<lparr>inst_results := (inst_results d)(inst_id \<mapsto> value_id)\<rparr>))"

definition users_num :: "DataFlowGraph \<Rightarrow> ValueId \<Rightarrow> nat" where
  "users_num d v = card (users d v)"

definition inst_result :: "DataFlowGraph \<Rightarrow> InstId \<Rightarrow> ValueId option" where
  "inst_result d inst_id = inst_results d inst_id"

definition branch_info :: "DataFlowGraph \<Rightarrow> InstId \<Rightarrow> fault + inst option" where
  "branch_info d inst_id = rbind (get_inst d inst_id) (\<lambda>i. Inr (if is_branch_inst i then Some i else None))"

definition is_branch :: "DataFlowGraph \<Rightarrow> InstId \<Rightarrow> fault + bool" where
  "is_branch d inst_id = rbind (branch_info d inst_id) (\<lambda>b. Inr (b \<noteq> None))"

definition dfg_is_terminator :: "DataFlowGraph \<Rightarrow> InstId \<Rightarrow> fault + bool" where
  "dfg_is_terminator d inst_id = rbind (get_inst d inst_id) (\<lambda>i. Inr (is_terminator i))"

definition is_exit :: "DataFlowGraph \<Rightarrow> InstId \<Rightarrow> fault + bool" where
  "is_exit d inst_id =
     rbind (dfg_is_terminator d inst_id) (\<lambda>t. rbind (branch_info d inst_id) (\<lambda>b. Inr (t \<and> b = None)))"

definition is_phi :: "DataFlowGraph \<Rightarrow> InstId \<Rightarrow> fault + bool" where
  "is_phi d inst_id = rbind (get_inst d inst_id) (\<lambda>i. Inr (case i of Phi _ \<Rightarrow> True | _ \<Rightarrow> False))"

definition is_call :: "DataFlowGraph \<Rightarrow> InstId \<Rightarrow> fault + bool" where
  "is_call d inst_id = rbind (get_inst d inst_id) (\<lambda>i. Inr (case i of Call _ _ \<Rightarrow> True | _ \<Rightarrow> False))"

definition is_return :: "DataFlowGraph \<Rightarrow> InstId \<Rightarrow> fault + bool" where
  "is_return d inst_id = rbind (get_inst d inst_id) (\<lambda>i. Inr (case i of Return _ \<Rightarrow> True | _ \<Rightarrow> False))"

definition as_return :: "DataFlowGraph \<Rightarrow> InstId \<Rightarrow> fault + ValueId option" where
  "as_return d inst_id = rbind (get_inst d inst_id) (\<lambda>i. Inr (case i of Return r \<Rightarrow> r | _ \<Rightarrow> None))"

definition dfg_append_phi_arg :: "InstId \<Rightarrow> ValueId \<Rightarrow> BlockId \<Rightarrow> (DataFlowGraph, unit) op" where
  "dfg_append_phi_arg inst_id value block d =
     rbind (get_inst d inst_id) (\<lambda>i. case i of
         Phi _ \<Rightarrow> attach_user inst_id (d\<lparr>d_insts := (d_insts d)[inst_id := append_phi_arg i value block]\<rparr>)
       | _ \<Rightarrow> Inr ((), d))"

fun alias_insts :: "ValueId \<Rightarrow> ValueId \<Rightarrow> InstId list \<Rightarrow> inst list \<Rightarrow> fault + inst list" where
  "alias_insts value alias [] is = Inr is"
| "alias_insts value alias (i # rest) is =
     rbind (index_list is i) (\<lambda>inst.
       alias_insts value alias rest (is[i := map_values (\<lambda>v. if v = value then alias else v) inst]))"

definition change_to_alias :: "ValueId \<Rightarrow> ValueId \<Rightarrow> (DataFlowGraph, unit) op" where
  "change_to_alias value alias d =
     (let us = users d value;
          d = d\<lparr>users := (users d)(value := {})\<rparr>
      in rbind (alias_insts value alias (sorted_list_of_set us) (d_insts d)) (\<lambda>is.
           Inr ((), d\<lparr>d_insts := is, users := (users d)(alias := users d alias \<union> us)\<rparr>)))"

definition dfg_side_effect :: "(FuncRef \<Rightarrow> FuncAttrs) \<Rightarrow> DataFlowGraph \<Rightarrow> InstId \<Rightarrow> fault + SideEffect" where
  "dfg_side_effect func_attrs d inst_id =
     rbind (get_inst d inst_id) (\<lambda>i. Inr (case i of
         Call callee _ \<Rightarrow>
           (let attrs = func_attrs callee
            in if NORETURN attrs \<or> \<not> WILLRETURN attrs then SE_Control
               else if MEM_WRITE attrs then SE_Write
               else if MEM_READ attrs then SE_Read
               else SE_None)
       | _ \<Rightarrow> side_effect i))"

definition remove_old_users :: "InstId \<Rightarrow> inst \<Rightarrow> (DataFlowGraph, unit) op" where
  "remove_old_users inst_id new d =
     rbind (get_inst d inst_id) (\<lambda>old.
       let old_values = set (values_of old);
           new_values = set (values_of new)
       in rbind (assert_that (new_values \<subseteq> old_values) ''old_values.is_superset(&new_values)'') (\<lambda>_.
            Inr ((), d\<lparr>users := (\<lambda>v. if v \<in> old_values - new_values then users d v - {inst_id} else users d v)\<rparr>)))"

definition rewrite_branch_dest :: "InstId \<Rightarrow> BlockId \<Rightarrow> BlockId \<Rightarrow> (DataFlowGraph, unit) op" where
  "rewrite_branch_dest inst_id from to d =
     rbind (branch_info d inst_id) (\<lambda>b. case b of
         None \<Rightarrow> Inr ((), d)
       | Some branch \<Rightarrow>
           let new_inst = rewrite_dest branch from to
           in rbind (remove_old_users inst_id new_inst d) (\<lambda>(_, d).
                Inr ((), d\<lparr>d_insts := (d_insts d)[inst_id := new_inst]\<rparr>)))"

definition remove_branch_dest :: "InstId \<Rightarrow> BlockId \<Rightarrow> (DataFlowGraph, unit) op" where
  "remove_branch_dest inst_id dest d =
     rbind (branch_info d inst_id) (\<lambda>b. case b of
         None \<Rightarrow> Inr ((), d)
       | Some branch \<Rightarrow>
           let new_inst = remove_dest branch dest
           in rbind (remove_old_users inst_id new_inst d) (\<lambda>(_, d).
                Inr ((), d\<lparr>d_insts := (d_insts d)[inst_id := new_inst]\<rparr>)))"

section \<open>The invariant\<close>

text \<open>\<open>tracked\<close> is the set of instructions made and not untracked since.\<close>

definition dfg_ok :: "DataFlowGraph \<Rightarrow> InstId set \<Rightarrow> bool" where
  "dfg_ok d tracked \<longleftrightarrow>
     (\<forall>i\<in>tracked. i < length (d_insts d))
   \<and> (\<forall>v. users d v = {i \<in> tracked. v \<in> set (values_of (d_insts d ! i))})
   \<and> (\<forall>imm v. immediates d imm = Some v \<longrightarrow> v < length (d_values d) \<and> d_values d ! v = V_Immediate imm (imm_ty imm))"

lemma fold_add_user: "fold (add_user i) vs u v = (if v \<in> set vs then insert i (u v) else u v)"
  by (induction vs arbitrary: u) (auto simp: add_user_def)

lemma fold_drop_user: "fold (drop_user i) vs u v = (if v \<in> set vs then u v - {i} else u v)"
  by (induction vs arbitrary: u) (auto simp: drop_user_def)

lemma dfg_ok_users: "dfg_ok d tr \<Longrightarrow> users d v = {i \<in> tr. v \<in> set (values_of (d_insts d ! i))}"
  by (simp add: dfg_ok_def)

lemma dfg_okI:
  assumes "\<And>i. i \<in> tr \<Longrightarrow> i < length (d_insts d)"
    and "\<And>v i. i \<in> users d v \<longleftrightarrow> i \<in> tr \<and> v \<in> set (values_of (d_insts d ! i))"
    and "\<And>imm v. immediates d imm = Some v \<Longrightarrow> v < length (d_values d) \<and> d_values d ! v = V_Immediate imm (imm_ty imm)"
  shows "dfg_ok d tr"
  using assms by (auto simp: dfg_ok_def)

lemma dfg_ok_lt: "dfg_ok d tr \<Longrightarrow> i \<in> tr \<Longrightarrow> i < length (d_insts d)"
  by (simp add: dfg_ok_def)

lemma dfg_ok_imm:
  "dfg_ok d tr \<Longrightarrow> immediates d imm = Some v \<Longrightarrow> v < length (d_values d) \<and> d_values d ! v = V_Immediate imm (imm_ty imm)"
  by (simp add: dfg_ok_def)

lemma dfg_ok_new: "dfg_ok dfg_new {}"
  by (simp add: dfg_ok_def dfg_new_def)

lemma make_inst_ok:
  assumes "dfg_ok d tr"
  shows "\<exists>d'. make_inst inst d = Inr (length (d_insts d), d') \<and> dfg_ok d' (insert (length (d_insts d)) tr)
    \<and> d_insts d' = d_insts d @ [inst] \<and> d_values d' = d_values d"
proof -
  have "make_inst inst d = Inr (length (d_insts d),
      d\<lparr>d_insts := d_insts d @ [inst], users := fold (add_user (length (d_insts d))) (values_of inst) (users d)\<rparr>)"
    by (simp add: make_inst_def attach_user_def get_inst_def index_list_def Let_def)
  moreover have "dfg_ok (d\<lparr>d_insts := d_insts d @ [inst],
      users := fold (add_user (length (d_insts d))) (values_of inst) (users d)\<rparr>) (insert (length (d_insts d)) tr)"
    using dfg_ok_users [OF assms] dfg_ok_lt [OF assms] dfg_ok_imm [OF assms]
    by (intro dfg_okI) (auto simp: fold_add_user nth_append intro: less_SucI)
  ultimately show ?thesis by simp
qed

lemma untrack_inst_ok:
  assumes "dfg_ok d tr" "i < length (d_insts d)"
  shows "\<exists>d'. untrack_inst i d = Inr ((), d') \<and> dfg_ok d' (tr - {i}) \<and> d_insts d' = d_insts d"
proof -
  have "untrack_inst i d = Inr ((), d\<lparr>users := fold (drop_user i) (values_of (d_insts d ! i)) (users d)\<rparr>)"
    using assms(2) by (simp add: untrack_inst_def get_inst_def index_list_def)
  moreover have "dfg_ok (d\<lparr>users := fold (drop_user i) (values_of (d_insts d ! i)) (users d)\<rparr>) (tr - {i})"
    using dfg_ok_users [OF assms(1)] dfg_ok_lt [OF assms(1)] dfg_ok_imm [OF assms(1)]
    by (intro dfg_okI) (auto simp: fold_drop_user)
  ultimately show ?thesis by simp
qed

lemma replace_inst_ok:
  assumes "dfg_ok d tr" "i < length (d_insts d)"
  shows "\<exists>d'. replace_inst i new d = Inr ((), d') \<and> dfg_ok d' (insert i tr) \<and> d_insts d' = (d_insts d)[i := new]"
proof -
  let ?d' = "d\<lparr>d_insts := (d_insts d)[i := new],
    users := fold (add_user i) (values_of new) (fold (drop_user i) (values_of (d_insts d ! i)) (users d))\<rparr>"
  have "replace_inst i new d = Inr ((), ?d')"
    using assms(2) by (simp add: replace_inst_def attach_user_def get_inst_def index_list_def Let_def)
  moreover have "dfg_ok ?d' (insert i tr)"
    using dfg_ok_users [OF assms(1)] dfg_ok_lt [OF assms(1)] dfg_ok_imm [OF assms(1)] assms(2)
    by (intro dfg_okI) (auto simp: fold_drop_user fold_add_user nth_list_update split: if_splits)
  ultimately show ?thesis by simp
qed

lemma append_phi_arg_values: "set (values_of (append_phi_arg (Phi args) v b)) = insert v (set (values_of (Phi args)))"
  by auto

lemma dfg_append_phi_arg_ok:
  assumes "dfg_ok d tr" "i \<in> tr" "d_insts d ! i = Phi args"
  shows "\<exists>d'. dfg_append_phi_arg i v b d = Inr ((), d') \<and> dfg_ok d' tr \<and> d_insts d' = (d_insts d)[i := Phi (args @ [(v, b)])]"
proof -
  have i: "i < length (d_insts d)" using dfg_ok_lt assms by blast
  let ?d' = "d\<lparr>d_insts := (d_insts d)[i := Phi (args @ [(v, b)])],
    users := fold (add_user i) (values_of (Phi (args @ [(v, b)]))) (users d)\<rparr>"
  have "dfg_append_phi_arg i v b d = Inr ((), ?d')"
    using i assms(3) by (simp add: dfg_append_phi_arg_def attach_user_def get_inst_def index_list_def)
  moreover have "dfg_ok ?d' tr"
    using dfg_ok_users [OF assms(1)] dfg_ok_lt [OF assms(1)] dfg_ok_imm [OF assms(1)] assms(2,3) i
    by (intro dfg_okI) (auto simp: add_user_def fold_add_user nth_list_update split: if_splits)
  ultimately show ?thesis by simp
qed

lemma edited_branch_ok:
  assumes ok: "dfg_ok d tr" and i: "i < length (d_insts d)"
    and sub: "set (values_of new) \<subseteq> set (values_of (d_insts d ! i))"
  shows "\<exists>d1. remove_old_users i new d = Inr ((), d1) \<and> dfg_ok (d1\<lparr>d_insts := (d_insts d1)[i := new]\<rparr>) tr \<and> d_insts d1 = d_insts d"
proof -
  let ?d1 = "d\<lparr>users := (\<lambda>v. if v \<in> set (values_of (d_insts d ! i)) - set (values_of new) then users d v - {i} else users d v)\<rparr>"
  have "remove_old_users i new d = Inr ((), ?d1)"
    using i sub by (simp add: remove_old_users_def get_inst_def index_list_def Let_def)
  moreover have "dfg_ok (?d1\<lparr>d_insts := (d_insts ?d1)[i := new]\<rparr>) tr"
    using dfg_ok_users [OF ok] dfg_ok_lt [OF ok] dfg_ok_imm [OF ok] i sub
    by (intro dfg_okI) (auto simp: nth_list_update split: if_splits)
  ultimately show ?thesis by auto
qed

lemma branch_edit_ok:
  assumes ok: "dfg_ok d tr" and i: "i < length (d_insts d)" and br: "is_branch_inst (d_insts d ! i)"
  shows "\<exists>d'. remove_branch_dest i dest d = Inr ((), d') \<and> dfg_ok d' tr \<and> d_insts d' = (d_insts d)[i := remove_dest (d_insts d ! i) dest]"
    and "\<exists>d'. rewrite_branch_dest i from to d = Inr ((), d') \<and> dfg_ok d' tr \<and> d_insts d' = (d_insts d)[i := rewrite_dest (d_insts d ! i) from to]"
proof -
  from edited_branch_ok [OF ok i values_of_remove_dest, of dest] br i
  show "\<exists>d'. remove_branch_dest i dest d = Inr ((), d') \<and> dfg_ok d' tr \<and> d_insts d' = (d_insts d)[i := remove_dest (d_insts d ! i) dest]"
    by (auto simp: remove_branch_dest_def branch_info_def get_inst_def index_list_def Let_def)
  from edited_branch_ok [OF ok i values_of_rewrite_dest, of "from" to] br i
  show "\<exists>d'. rewrite_branch_dest i from to d = Inr ((), d') \<and> dfg_ok d' tr \<and> d_insts d' = (d_insts d)[i := rewrite_dest (d_insts d ! i) from to]"
    by (auto simp: rewrite_branch_dest_def branch_info_def get_inst_def index_list_def Let_def)
qed

lemma alias_insts_eq:
  "distinct us \<Longrightarrow> \<forall>i\<in>set us. i < length js \<Longrightarrow>
    alias_insts value a us js = Inr (map (\<lambda>i. if i \<in> set us then map_values (\<lambda>v. if v = value then a else v) (js ! i) else js ! i) [0..<length js])"
proof (induction us arbitrary: "js")
  case Nil
  show ?case by (simp add: map_nth)
next
  case (Cons j us)
  let ?f = "map_values (\<lambda>v. if v = value then a else v)"
  from Cons have j: "j < length js" "j \<notin> set us" by auto
  have "alias_insts value a us (js[j := ?f (js ! j)]) =
    Inr (map (\<lambda>i. if i \<in> set us then ?f (js[j := ?f (js ! j)] ! i) else js[j := ?f (js ! j)] ! i) [0..<length (js[j := ?f (js ! j)])])"
    by (rule Cons.IH) (use Cons.prems in auto)
  also have "map (\<lambda>i. if i \<in> set us then ?f (js[j := ?f (js ! j)] ! i) else js[j := ?f (js ! j)] ! i) [0..<length (js[j := ?f (js ! j)])]
    = map (\<lambda>i. if i \<in> set (j # us) then ?f (js ! i) else js ! i) [0..<length js]"
    using j by (auto simp: nth_list_update)
  finally show ?case using j by (simp add: index_list_def)
qed

lemma change_to_alias_ok:
  assumes ok: "dfg_ok d tr" and fin: "finite tr" and ne: "value \<noteq> a"
  shows "\<exists>d'. change_to_alias value a d = Inr ((), d') \<and> dfg_ok d' tr \<and> users d' value = {}
    \<and> length (d_insts d') = length (d_insts d)
    \<and> (\<forall>i\<in>tr. d_insts d' ! i = map_values (\<lambda>v. if v = value then a else v) (d_insts d ! i) \<or>
               value \<notin> set (values_of (d_insts d ! i)) \<and> d_insts d' ! i = d_insts d ! i)"
proof -
  let ?us = "users d value" and ?f = "map_values (\<lambda>v. if v = value then a else v)"
  note u = dfg_ok_users [OF ok] and lt = dfg_ok_lt [OF ok]
  have us: "finite ?us" "?us \<subseteq> tr" using fin u by auto
  let ?js = "map (\<lambda>i. if i \<in> ?us then ?f (d_insts d ! i) else d_insts d ! i) [0..<length (d_insts d)]"
  let ?d' = "d\<lparr>d_insts := ?js, users := (users d)(value := {}, a := users d a \<union> ?us)\<rparr>"
  have "alias_insts value a (sorted_list_of_set ?us) (d_insts d) = Inr ?js"
    using alias_insts_eq [of "sorted_list_of_set ?us" "d_insts d" "value" a] us lt by (auto simp: set_sorted_list_of_set)
  then have c: "change_to_alias value a d = Inr ((), ?d')"
    using ne by (simp add: change_to_alias_def Let_def)
  have "dfg_ok ?d' tr"
  proof (rule dfg_okI)
    fix v i
    have "set (values_of (?f j)) = (\<lambda>v. if v = value then a else v) ` set (values_of j)" for j
      by (simp add: values_of_map_values)
    then show "i \<in> users ?d' v \<longleftrightarrow> i \<in> tr \<and> v \<in> set (values_of (d_insts ?d' ! i))"
      using u lt ne by (auto simp: image_iff)
  qed (use lt dfg_ok_imm [OF ok] in auto)
  with c u lt ne show ?thesis by (intro exI [of _ ?d']) auto
qed

text \<open>Making a value an alias of another leaves it without users, renames it in exactly the
  instructions that read it, and moves its users to the alias.\<close>
lemma change_to_alias_renames:
  assumes "dfg_ok d tr" and "value \<noteq> a"
  shows "\<exists>d'. change_to_alias value a d = Inr ((), d') \<and> dfg_ok d' tr \<and> users d' value = {}
     \<and> (\<forall>i\<in>tr. values_of (d_insts d' ! i) = map (\<lambda>v. if v = value then a else v) (values_of (d_insts d ! i)))"
proof -
  have "tr \<subseteq> {..<length (d_insts d)}" using dfg_ok_lt [OF assms(1)] by auto
  then have "finite tr" by (rule finite_subset) simp
  then obtain d' where d': "change_to_alias value a d = Inr ((), d')" "dfg_ok d' tr" "users d' value = {}"
    "\<forall>i\<in>tr. d_insts d' ! i = map_values (\<lambda>v. if v = value then a else v) (d_insts d ! i) \<or>
               value \<notin> set (values_of (d_insts d ! i)) \<and> d_insts d' ! i = d_insts d ! i"
    using change_to_alias_ok [OF assms(1) _ assms(2)] by blast
  have "values_of (d_insts d' ! i) = map (\<lambda>v. if v = value then a else v) (values_of (d_insts d ! i))" if "i \<in> tr" for i
  proof -
    have "map (\<lambda>v. if v = value then a else v) xs = xs" if "value \<notin> set xs" for xs
      using that by (induction xs) auto
    with d'(4) that show ?thesis by (metis values_of_map_values)
  qed
  with d' show ?thesis by blast
qed

lemma remove_user_ok_iff:
  assumes "dfg_ok d tr" and "i \<in> tr"
  shows "\<exists>d'. remove_user v i d = Inr ((), d') \<and> (dfg_ok d' tr \<longleftrightarrow> v \<notin> set (values_of (d_insts d ! i)))"
proof -
  let ?d' = "d\<lparr>users := drop_user i v (users d)\<rparr>"
  have "dfg_ok ?d' tr" if "v \<notin> set (values_of (d_insts d ! i))"
    using that dfg_ok_users [OF assms(1)] dfg_ok_lt [OF assms(1)] dfg_ok_imm [OF assms(1)]
    by (intro dfg_okI) (auto simp: drop_user_def)
  moreover have "v \<notin> set (values_of (d_insts d ! i))" if "dfg_ok ?d' tr"
    using dfg_ok_users [OF that, of v] assms(2) by (auto simp: drop_user_def)
  ultimately show ?thesis by (auto simp: remove_user_def)
qed

section \<open>Properties\<close>

text \<open>C36: the user sets stay exact under the edits of instructions: making, replacing and
  untracking an instruction, adding a phi argument, removing or rewriting a destination of a
  branch, and aliasing a value with another one, which renames it in exactly the instructions that
  read it and leaves it without users; none of them faults on an existing instruction. Dropping a
  user by hand (\<open>remove_user\<close>) is the one edit that keeps them exact only when the instruction does
  not read the value.\<close>
theorem users_stay_exact:
  assumes "dfg_ok d tr" and "i \<in> tr"
  shows "(\<exists>d'. make_inst new d = Inr (length (d_insts d), d') \<and> dfg_ok d' (insert (length (d_insts d)) tr))
       \<and> (\<exists>d'. replace_inst i new d = Inr ((), d') \<and> dfg_ok d' tr \<and> d_insts d' = (d_insts d)[i := new])
       \<and> (\<exists>d'. untrack_inst i d = Inr ((), d') \<and> dfg_ok d' (tr - {i}))
       \<and> (\<exists>d'. dfg_append_phi_arg i v b d = Inr ((), d') \<and> dfg_ok d' tr)
       \<and> (\<exists>d'. remove_branch_dest i b d = Inr ((), d') \<and> dfg_ok d' tr)
       \<and> (\<exists>d'. rewrite_branch_dest i b c d = Inr ((), d') \<and> dfg_ok d' tr)
       \<and> (v \<noteq> a \<longrightarrow> (\<exists>d'. change_to_alias v a d = Inr ((), d') \<and> dfg_ok d' tr \<and> users d' v = {}
            \<and> (\<forall>j\<in>tr. values_of (d_insts d' ! j) = map (\<lambda>x. if x = v then a else x) (values_of (d_insts d ! j)))))
       \<and> (\<exists>d'. remove_user v i d = Inr ((), d') \<and> (dfg_ok d' tr \<longleftrightarrow> v \<notin> set (values_of (d_insts d ! i))))"
proof -
  have i: "i < length (d_insts d)" using dfg_ok_lt assms by blast
  have phi: "\<exists>d'. dfg_append_phi_arg i v b d = Inr ((), d') \<and> dfg_ok d' tr"
  proof (cases "d_insts d ! i")
    case (Phi args)
    from dfg_append_phi_arg_ok [OF assms this] show ?thesis by blast
  qed (use i assms(1) in \<open>simp_all add: dfg_append_phi_arg_def get_inst_def index_list_def\<close>)
  have br: "(\<exists>d'. remove_branch_dest i b d = Inr ((), d') \<and> dfg_ok d' tr)
      \<and> (\<exists>d'. rewrite_branch_dest i b c d = Inr ((), d') \<and> dfg_ok d' tr)"
  proof (cases "is_branch_inst (d_insts d ! i)")
    case True
    from branch_edit_ok [OF assms(1) i True] show ?thesis by blast
  next
    case False
    with i assms(1) show ?thesis
      by (simp add: remove_branch_dest_def rewrite_branch_dest_def branch_info_def get_inst_def index_list_def)
  qed
  have "insert i tr = tr" using assms(2) by blast
  with make_inst_ok [OF assms(1)] replace_inst_ok [OF assms(1) i, of new] untrack_inst_ok [OF assms(1) i]
  have mk: "\<exists>d'. make_inst new d = Inr (length (d_insts d), d') \<and> dfg_ok d' (insert (length (d_insts d)) tr)"
    "\<exists>d'. replace_inst i new d = Inr ((), d') \<and> dfg_ok d' tr \<and> d_insts d' = (d_insts d)[i := new]"
    "\<exists>d'. untrack_inst i d = Inr ((), d') \<and> dfg_ok d' (tr - {i})" by metis+
  show ?thesis
    using mk phi br change_to_alias_renames [OF assms(1), of v a] remove_user_ok_iff [OF assms, of v] by blast
qed

theorem users_stay_exact_witness:
  "\<exists>d d' d''. make_inst (Add 0 1) dfg_new = Inr (0, d) \<and> dfg_ok d {0} \<and> users d 1 = {0}
     \<and> replace_inst 0 (Neg 0) d = Inr ((), d') \<and> dfg_ok d' {0} \<and> users d' 1 = {}
     \<and> change_to_alias 1 5 d = Inr ((), d'') \<and> values_of (d_insts d'' ! 0) = [0, 5]"
proof -
  obtain d where d: "make_inst (Add 0 1) dfg_new = Inr (0, d)" "dfg_ok d {0}" "d_insts d = [Add 0 1]"
    using make_inst_ok [OF dfg_ok_new, of "Add 0 1"] by (auto simp: dfg_new_def)
  have i: "(0::InstId) \<in> {0}" by simp
  note all = users_stay_exact [OF d(2) i, of "Neg 0" 1 0 0 5]
  from all [THEN conjunct2, THEN conjunct1] d(3)
  obtain d' where d': "replace_inst 0 (Neg 0) d = Inr ((), d')" "dfg_ok d' {0}" "d_insts d' = [Neg 0]" by auto
  from all [THEN conjunct2, THEN conjunct2, THEN conjunct2, THEN conjunct2, THEN conjunct2, THEN conjunct2, THEN conjunct1] d(3)
  obtain d'' where "change_to_alias 1 5 d = Inr ((), d'')" "values_of (d_insts d'' ! 0) = [0, 5]" by auto
  with d d' dfg_ok_users [OF d(2)] dfg_ok_users [OF d'(2)] show ?thesis by auto
qed

text \<open>An immediate is interned: the value made for it is that immediate, of its type, and asking
  again gives the same value and leaves the graph alone.\<close>
theorem make_imm_value_interns:
  assumes "dfg_ok d tr"
  shows "\<exists>v d'. make_imm_value imm d = Inr (v, d') \<and> dfg_ok d' tr \<and> value_imm d' v = Inr (Some imm)
     \<and> value_ty d' v = Inr (imm_ty imm) \<and> make_imm_value imm d' = Inr (v, d')
     \<and> (\<exists>ext. d_values d' = d_values d @ ext)"
proof (cases "immediates d imm")
  case (Some v)
  with dfg_ok_imm [OF assms Some] assms show ?thesis
    by (simp add: make_imm_value_def value_imm_def value_ty_def get_value_def index_list_def)
next
  case None
  let ?v = "length (d_values d)"
  let ?d' = "d\<lparr>d_values := d_values d @ [V_Immediate imm (imm_ty imm)], immediates := (immediates d)(imm \<mapsto> ?v)\<rparr>"
  have "dfg_ok ?d' tr"
    using dfg_ok_users [OF assms] dfg_ok_lt [OF assms] dfg_ok_imm [OF assms]
    by (intro dfg_okI) (auto simp: nth_append split: if_splits)
  with None show ?thesis
    by (intro exI [of _ ?v] exI [of _ ?d'])
      (simp add: make_imm_value_def make_value_def value_imm_def value_ty_def get_value_def index_list_def)
qed

theorem make_imm_value_interns_witness:
  "\<exists>v d. make_imm_value (Imm_I8 7) dfg_new = Inr (v, d) \<and> value_imm d v = Inr (Some (Imm_I8 7))
     \<and> make_imm_value (Imm_I8 7) d = Inr (v, d)"
  using make_imm_value_interns [OF dfg_ok_new, of "Imm_I8 7"] by blast

end
