(* ===== verification/Cursor.thy ===== *)
theory Cursor
  imports Layout Dfg
begin

text \<open>
  \<open>crates/ir/src/function.rs\<close> and \<open>func_cursor.rs\<close>: a function is a data flow graph and a layout; a
  cursor is a location in it, and every insertion and removal of the compiler's passes goes
  through one. The abstraction is the sequence of locations of the function, in order; moving
  the cursor is moving in that sequence.
\<close>

section \<open>Functions\<close>

record Signature =
  sig_name :: string
  sig_args :: "IrType list"
  sig_ret_ty :: IrType

record Function =
  arg_values :: "ValueId list"
  f_dfg :: DataFlowGraph
  f_layout :: Layout

text \<open>The arguments are made in order, \<open>idx\<close> counting them.\<close>

fun make_args :: "IrType list \<Rightarrow> nat \<Rightarrow> (DataFlowGraph, ValueId list) op" where
  "make_args [] idx = sret []"
| "make_args (arg_ty # tys) idx =
     sbind (make_value (V_Arg arg_ty idx)) (\<lambda>v. sbind (make_args tys (Suc idx)) (\<lambda>vs. sret (v # vs)))"

definition function_new :: "Signature \<Rightarrow> fault + Function" where
  "function_new sg =
     rbind (make_args (sig_args sg) 0 dfg_new) (\<lambda>(args, d).
       Inr \<lparr>arg_values = args, f_dfg = d, f_layout = layout_new\<rparr>)"

section \<open>Cursors\<close>

datatype CursorLocation = At InstId | BlockTop BlockId | BlockBottom BlockId | NoWhere

type_synonym 'a cursor_op = "(CursorLocation \<times> Function, 'a) op"

definition on_layout :: "(Layout, 'a) op \<Rightarrow> 'a cursor_op" where
  "on_layout m = (\<lambda>(loc, func). rbind (m (f_layout func)) (\<lambda>(x, l). Inr (x, loc, func\<lparr>f_layout := l\<rparr>)))"

definition on_dfg :: "(DataFlowGraph, 'a) op \<Rightarrow> 'a cursor_op" where
  "on_dfg m = (\<lambda>(loc, func). rbind (m (f_dfg func)) (\<lambda>(x, d). Inr (x, loc, func\<lparr>f_dfg := d\<rparr>)))"

definition set_location :: "CursorLocation \<Rightarrow> unit cursor_op" where
  "set_location new = (\<lambda>(loc, func). Inr ((), new, func))"

definition set_to_entry :: "unit cursor_op" where
  "set_to_entry = (\<lambda>(loc, func).
     set_location (case entry_block (f_layout func) of Some entry \<Rightarrow> BlockTop entry | None \<Rightarrow> NoWhere) (loc, func))"

definition cursor_insert_inst :: "InstId \<Rightarrow> unit cursor_op" where
  "cursor_insert_inst inst = (\<lambda>(loc, func). (case loc of
       At at \<Rightarrow> on_layout (insert_inst_after inst at)
     | BlockTop block \<Rightarrow> on_layout (prepend_inst inst block)
     | BlockBottom block \<Rightarrow> on_layout (append_inst inst block)
     | NoWhere \<Rightarrow> sfail ''cursor loc points to `NoWhere`'') (loc, func))"

definition cursor_inst :: "CursorLocation \<Rightarrow> InstId option" where
  "cursor_inst loc = (case loc of At inst \<Rightarrow> Some inst | _ \<Rightarrow> None)"

definition expect_inst :: "CursorLocation \<Rightarrow> fault + InstId" where
  "expect_inst loc = (case cursor_inst loc of Some inst \<Rightarrow> Inr inst
     | None \<Rightarrow> Inl (Panic ''current cursor location doesn't point to inst''))"

definition cursor_block :: "CursorLocation \<Rightarrow> Function \<Rightarrow> fault + BlockId option" where
  "cursor_block loc func = (case loc of
       At inst \<Rightarrow> rbind (inst_block (f_layout func) inst) (\<lambda>b. Inr (Some b))
     | BlockTop block \<Rightarrow> Inr (Some block)
     | BlockBottom block \<Rightarrow> Inr (Some block)
     | NoWhere \<Rightarrow> Inr None)"

definition block_or_panic :: "string \<Rightarrow> CursorLocation \<Rightarrow> Function \<Rightarrow> fault + BlockId" where
  "block_or_panic msg loc func = rbind (cursor_block loc func) (\<lambda>b. case b of Some block \<Rightarrow> Inr block
     | None \<Rightarrow> Inl (Panic msg))"

definition expect_block :: "CursorLocation \<Rightarrow> Function \<Rightarrow> fault + BlockId" where
  "expect_block = block_or_panic ''cursor loc points to `NoWhere`''"

definition cursor_append_inst :: "InstId \<Rightarrow> unit cursor_op" where
  "cursor_append_inst inst = (\<lambda>(loc, func).
     rbind (expect_block loc func) (\<lambda>current_block. on_layout (append_inst inst current_block) (loc, func)))"

definition cursor_prepend_inst :: "InstId \<Rightarrow> unit cursor_op" where
  "cursor_prepend_inst inst = (\<lambda>(loc, func).
     rbind (expect_block loc func) (\<lambda>current_block. on_layout (prepend_inst inst current_block) (loc, func)))"

definition insert_inst_data :: "inst \<Rightarrow> InstId cursor_op" where
  "insert_inst_data data = sbind (on_dfg (make_inst data)) (\<lambda>inst. sbind (cursor_insert_inst inst) (\<lambda>_. sret inst))"

definition append_inst_data :: "inst \<Rightarrow> InstId cursor_op" where
  "append_inst_data data = sbind (on_dfg (make_inst data)) (\<lambda>inst. sbind (cursor_append_inst inst) (\<lambda>_. sret inst))"

definition prepend_inst_data :: "inst \<Rightarrow> InstId cursor_op" where
  "prepend_inst_data data = sbind (on_dfg (make_inst data)) (\<lambda>inst. sbind (cursor_prepend_inst inst) (\<lambda>_. sret inst))"

definition make_result :: "InstId \<Rightarrow> IrType \<Rightarrow> ValueId cursor_op" where
  "make_result inst_id ty = on_dfg (make_value (V_Inst inst_id ty))"

definition cursor_replace :: "inst \<Rightarrow> unit cursor_op" where
  "cursor_replace data = (\<lambda>(loc, func). rbind (expect_inst loc) (\<lambda>old. on_dfg (replace_inst old data) (loc, func)))"

definition next_loc :: "CursorLocation \<Rightarrow> Function \<Rightarrow> fault + CursorLocation" where
  "next_loc loc func = (let l = f_layout func in case loc of
       At inst \<Rightarrow> rbind (next_inst_of l inst) (\<lambda>n. case n of Some i \<Rightarrow> Inr (At i)
         | None \<Rightarrow> rbind (inst_block l inst) (\<lambda>b. Inr (BlockBottom b)))
     | BlockTop block \<Rightarrow> rbind (first_inst_of l block) (\<lambda>n. case n of Some i \<Rightarrow> Inr (At i) | None \<Rightarrow> Inr (BlockBottom block))
     | BlockBottom block \<Rightarrow> rbind (next_block_of l block) (\<lambda>n. case n of Some b \<Rightarrow> Inr (BlockTop b) | None \<Rightarrow> Inr NoWhere)
     | NoWhere \<Rightarrow> Inr NoWhere)"

definition prev_loc :: "CursorLocation \<Rightarrow> Function \<Rightarrow> fault + CursorLocation" where
  "prev_loc loc func = (let l = f_layout func in case loc of
       At inst \<Rightarrow> rbind (prev_inst_of l inst) (\<lambda>n. case n of Some i \<Rightarrow> Inr (At i)
         | None \<Rightarrow> rbind (inst_block l inst) (\<lambda>b. Inr (BlockTop b)))
     | BlockTop block \<Rightarrow> rbind (prev_block_of l block) (\<lambda>n. case n of Some b \<Rightarrow> Inr (BlockBottom b) | None \<Rightarrow> Inr NoWhere)
     | BlockBottom block \<Rightarrow> rbind (last_inst_of l block) (\<lambda>n. case n of Some i \<Rightarrow> Inr (At i) | None \<Rightarrow> Inr (BlockTop block))
     | NoWhere \<Rightarrow> Inr NoWhere)"

definition cursor_remove_inst :: "unit cursor_op" where
  "cursor_remove_inst = (\<lambda>(loc, func).
     rbind (expect_inst loc) (\<lambda>inst_id.
     rbind (next_loc loc func) (\<lambda>nl.
       sbind (on_dfg (untrack_inst inst_id)) (\<lambda>_.
       sbind (on_layout (remove_inst inst_id)) (\<lambda>_. set_location nl)) (loc, func))))"

definition cursor_attach_result :: "InstId \<Rightarrow> ValueId \<Rightarrow> unit cursor_op" where
  "cursor_attach_result inst v = on_dfg (attach_result inst v)"

definition cursor_make_block :: "BlockId cursor_op" where
  "cursor_make_block = on_dfg make_block"

text \<open>The \<open>while\<close> loop of \<open>remove_block\<close>; \<open>None\<close> would be a loop that does not end.\<close>

partial_function (option) remove_insts :: "CursorLocation \<times> Function \<Rightarrow> (fault + (unit \<times> CursorLocation \<times> Function)) option" where
  "remove_insts s =
     (case fst s of
        At _ \<Rightarrow> (case cursor_remove_inst s of Inl e \<Rightarrow> Some (Inl e) | Inr (_, s') \<Rightarrow> remove_insts s')
      | _ \<Rightarrow> Some (Inr ((), s)))"

definition cursor_remove_block :: "CursorLocation \<times> Function \<Rightarrow> (fault + (unit \<times> CursorLocation \<times> Function)) option" where
  "cursor_remove_block = (\<lambda>(loc, func).
     (case (rbind (block_or_panic ''cursor loc points `NoWhere`'' loc func) (\<lambda>block.
            rbind (next_block_of (f_layout func) block) (\<lambda>next_block.
            rbind (first_inst_of (f_layout func) block) (\<lambda>fi. Inr (block, next_block, fi))))) of
        Inl e \<Rightarrow> Some (Inl e)
      | Inr (block, next_block, fi) \<Rightarrow>
          map_option (\<lambda>r. rbind r (\<lambda>(_, s).
              sbind (on_layout (remove_block block)) (\<lambda>_.
                set_location (case next_block of Some b \<Rightarrow> BlockTop b | None \<Rightarrow> NoWhere)) s))
            (case fi of Some i \<Rightarrow> remove_insts (At i, func) | None \<Rightarrow> Some (Inr ((), loc, func)))))"

definition cursor_insert_block :: "BlockId \<Rightarrow> unit cursor_op" where
  "cursor_insert_block block = (\<lambda>(loc, func).
     rbind (block_or_panic ''cursor loc points `NoWhere`'' loc func) (\<lambda>current. on_layout (insert_block_after block current) (loc, func)))"

definition cursor_insert_block_before :: "BlockId \<Rightarrow> unit cursor_op" where
  "cursor_insert_block_before block = (\<lambda>(loc, func).
     rbind (block_or_panic ''cursor loc points `NoWhere`'' loc func) (\<lambda>current. on_layout (insert_block_before block current) (loc, func)))"

definition cursor_append_block :: "BlockId \<Rightarrow> unit cursor_op" where
  "cursor_append_block block = on_layout (append_block block)"

definition proceed_cursor :: "unit cursor_op" where
  "proceed_cursor = (\<lambda>(loc, func). rbind (next_loc loc func) (\<lambda>nl. set_location nl (loc, func)))"

definition back_cursor :: "unit cursor_op" where
  "back_cursor = (\<lambda>(loc, func). rbind (prev_loc loc func) (\<lambda>pl. set_location pl (loc, func)))"

definition cursor_next_block :: "CursorLocation \<Rightarrow> Function \<Rightarrow> fault + BlockId option" where
  "cursor_next_block loc func = rbind (cursor_block loc func) (\<lambda>b. case b of None \<Rightarrow> Inr None
     | Some block \<Rightarrow> next_block_of (f_layout func) block)"

definition cursor_prev_block :: "CursorLocation \<Rightarrow> Function \<Rightarrow> fault + BlockId option" where
  "cursor_prev_block loc func = rbind (cursor_block loc func) (\<lambda>b. case b of None \<Rightarrow> Inr None
     | Some block \<Rightarrow> prev_block_of (f_layout func) block)"

definition proceed_block :: "unit cursor_op" where
  "proceed_block = (\<lambda>(loc, func). rbind (cursor_next_block loc func) (\<lambda>n.
     set_location (case n of Some block \<Rightarrow> BlockTop block | None \<Rightarrow> NoWhere) (loc, func)))"

section \<open>The sequence of locations\<close>

definition block_locs :: "(BlockId \<Rightarrow> InstId list) \<Rightarrow> BlockId \<Rightarrow> CursorLocation list" where
  "block_locs ins b = BlockTop b # map At (ins b) @ [BlockBottom b]"

definition locs_of :: "BlockId list \<Rightarrow> (BlockId \<Rightarrow> InstId list) \<Rightarrow> CursorLocation list" where
  "locs_of bs ins = concat (map (block_locs ins) bs)"

lemma locs_of_append [simp]: "locs_of (bs @ cs) ins = locs_of bs ins @ locs_of cs ins"
  by (simp add: locs_of_def)

lemma locs_of_Nil [simp]: "locs_of [] ins = []"
  by (simp add: locs_of_def)

lemma locs_of_Cons: "locs_of (b # bs) ins = BlockTop b # map At (ins b) @ BlockBottom b # locs_of bs ins"
  by (simp add: locs_of_def block_locs_def)

lemma set_locs_of:
  "x \<in> set (locs_of bs ins) \<longleftrightarrow> (case x of At i \<Rightarrow> \<exists>b\<in>set bs. i \<in> set (ins b) | BlockTop b \<Rightarrow> b \<in> set bs
     | BlockBottom b \<Rightarrow> b \<in> set bs | NoWhere \<Rightarrow> False)"
  by (auto simp: locs_of_def block_locs_def split: CursorLocation.split)

lemma distinct_locs_of:
  assumes "distinct bs" "\<And>b. distinct (ins b)" "\<And>i b c. i \<in> set (ins b) \<Longrightarrow> i \<in> set (ins c) \<Longrightarrow> b = c"
  shows "distinct (locs_of bs ins)"
  using assms(1)
proof (induction bs)
  case (Cons b bs)
  have "BlockBottom b \<notin> set (locs_of bs ins)" "BlockTop b \<notin> set (locs_of bs ins)"
    using Cons.prems by (simp_all add: set_locs_of)
  moreover have "At i \<notin> set (locs_of bs ins)" if "i \<in> set (ins b)" for i
  proof
    assume "At i \<in> set (locs_of bs ins)"
    then obtain c where "c \<in> set bs" "i \<in> set (ins c)" by (auto simp: set_locs_of)
    with assms(3) [OF that, of c] Cons.prems show False by auto
  qed
  moreover have "distinct (map At (ins b))" using assms(2) [of b] by (simp add: distinct_map inj_on_def)
  moreover have "distinct (locs_of bs ins)" using Cons by simp
  ultimately show ?case by (auto simp: locs_of_Cons)
qed simp

lemma layout_view_distinct_locs:
  assumes "layout_view l bs ins"
  shows "distinct (locs_of bs ins)"
proof (rule distinct_locs_of)
  show "distinct bs" using assms layout_view_distinct by blast
  have iv: "insts_view l ins" using assms by (simp add: layout_view_def)
  show "distinct (ins b)" for b using iv by (simp add: insts_view_def dll_def)
  show "b = c" if "i \<in> set (ins b)" "i \<in> set (ins c)" for i b c using insts_view_disjoint [OF iv that] .
qed

lemma last_opt_Cons_snoc [simp]: "last_opt (x # xs @ [y]) = Some y"
  by (metis append_Cons last_opt_simps(2))

lemma hd_locs: "hd_opt (locs_of bs ins) = map_option BlockTop (hd_opt bs)"
  by (cases bs) (simp_all add: locs_of_Cons)

lemma last_locs: "last_opt (locs_of bs ins) = map_option BlockBottom (last_opt bs)"
  by (cases bs rule: rev_cases) (simp_all add: locs_of_Cons last_opt_append)

definition loc_or_nowhere :: "CursorLocation option \<Rightarrow> CursorLocation" where
  "loc_or_nowhere x = (case x of Some loc \<Rightarrow> loc | None \<Rightarrow> NoWhere)"

text \<open>The next and the previous location of a cursor are the next and the previous element in the
  sequence of the function's locations (the top of a block, its instructions, its bottom, block
  after block), and moving off either end leaves the cursor nowhere.\<close>
theorem cursor_moves_in_sequence:
  assumes v: "layout_view (f_layout func) bs ins" and l: "locs_of bs ins = us @ loc # vs"
  shows "next_loc loc func = Inr (loc_or_nowhere (hd_opt vs)) \<and> prev_loc loc func = Inr (loc_or_nowhere (last_opt us))"
proof -
  let ?l = "f_layout func"
  have d: "distinct (us @ loc # vs)" using layout_view_distinct_locs [OF v] l by simp
  then have unique: "us = us' \<and> vs = vs'" if "locs_of bs ins = us' @ loc # vs'" for us' vs'
    using that l by (metis append_Cons_eq_iff distinct.simps(2) distinct_append disjoint_iff list.set_intros(1))
  have "loc \<in> set (locs_of bs ins)" using l by simp
  then obtain xs b ys where bs: "bs = xs @ b # ys" and loc: "loc \<in> set (block_locs ins b)"
    unfolding locs_of_def by (auto simp: in_set_conv_decomp [of _ bs])
  note v' = v [unfolded bs]
  note e = layout_view_blocks(3) [OF v', of b] layout_view_links [OF v'] layout_view_insts(1,2) [OF v', of b]
  from loc consider "loc = BlockTop b" | "loc = BlockBottom b" | i where "loc = At i" "i \<in> set (ins b)"
    by (auto simp: block_locs_def)
  then show ?thesis
  proof cases
    case 1
    have "us = locs_of xs ins \<and> vs = map At (ins b) @ BlockBottom b # locs_of ys ins"
      by (rule unique) (simp add: bs 1 locs_of_Cons)
    then show ?thesis
      using e by (cases "ins b") (auto simp: 1 next_loc_def prev_loc_def first_inst_of_def prev_block_of_def last_locs loc_or_nowhere_def
          split: option.split)
  next
    case 2
    have "us = locs_of xs ins @ BlockTop b # map At (ins b) \<and> vs = locs_of ys ins"
      by (rule unique) (simp add: bs 2 locs_of_Cons)
    then show ?thesis
      using e by (cases "ins b" rule: rev_cases) (auto simp: 2 next_loc_def prev_loc_def last_inst_of_def next_block_of_def hd_locs loc_or_nowhere_def
          split: option.split)
  next
    case (3 i)
    then obtain ks js where i: "ins b = ks @ i # js" by (meson split_list)
    have "us = locs_of xs ins @ BlockTop b # map At ks \<and> vs = map At js @ BlockBottom b # locs_of ys ins"
      by (rule unique) (simp add: bs 3 i locs_of_Cons)
    moreover have "is_inst_inserted ?l i" using layout_view_insts(3) [OF v, of i] 3(2) by blast
    moreover note layout_view_inst_links [OF v i]
    ultimately show ?thesis
      by (cases js; cases ks rule: rev_cases)
        (auto simp: 3 next_loc_def prev_loc_def next_inst_of_def prev_inst_of_def inst_block_def loc_or_nowhere_def)
  qed
qed

section \<open>Edits through a cursor\<close>

text \<open>
  A well-formed function: its layout is a sequence of blocks of instructions, and the users its
  graph tracks are exactly the instructions in the layout.
\<close>

definition function_ok :: "Function \<Rightarrow> BlockId list \<Rightarrow> (BlockId \<Rightarrow> InstId list) \<Rightarrow> bool" where
  "function_ok func bs ins \<longleftrightarrow>
     layout_view (f_layout func) bs ins \<and> dfg_ok (f_dfg func) (\<Union>b. set (ins b))"

lemma function_okD:
  assumes "function_ok func bs ins"
  shows "layout_view (f_layout func) bs ins" "dfg_ok (f_dfg func) (\<Union>b. set (ins b))"
    "i \<in> set (ins b) \<Longrightarrow> i < length (d_insts (f_dfg func))"
  using assms dfg_ok_lt [of "f_dfg func" "\<Union>b. set (ins b)" i] by (auto simp: function_ok_def)

text \<open>Where an instruction inserted at a location lands in its block.\<close>

fun inserted_at :: "CursorLocation \<Rightarrow> InstId \<Rightarrow> InstId list \<Rightarrow> InstId list" where
  "inserted_at (At at) i js = takeWhile (\<lambda>j. j \<noteq> at) js @ at # i # tl (dropWhile (\<lambda>j. j \<noteq> at) js)"
| "inserted_at (BlockTop _) i js = i # js"
| "inserted_at (BlockBottom _) i js = js @ [i]"
| "inserted_at NoWhere i js = js"

lemma inserted_at_At: "at \<notin> set xs \<Longrightarrow> inserted_at (At at) i (xs @ at # ys) = xs @ at # i # ys"
  by (induction xs) auto

lemma set_inserted_at:
  assumes "layout_view l bs ins" "loc \<in> set (block_locs ins b)"
  shows "set (inserted_at loc i (ins b)) = insert i (set (ins b))"
proof (cases loc)
  case (At at)
  with assms(2) obtain xs ys where at: "ins b = xs @ at # ys" by (auto simp: block_locs_def in_set_conv_decomp)
  then have "at \<notin> set xs" using layout_view_inst_links(4) [OF assms(1) at] by simp
  from inserted_at_At [OF this, of i ys] show ?thesis unfolding At at by auto
qed (use assms(2) in \<open>auto simp: block_locs_def\<close>)

lemma cursor_insert_view:
  assumes v: "layout_view l bs ins" and b: "b \<in> set bs" "loc \<in> set (block_locs ins b)" and i: "\<forall>d. i \<notin> set (ins d)"
  shows "\<exists>l'. cursor_insert_inst i (loc, func\<lparr>f_layout := l\<rparr>) = Inr ((), loc, func\<lparr>f_layout := l'\<rparr>)
    \<and> layout_view l' bs (ins(b := inserted_at loc i (ins b)))"
proof -
  from b(2) consider "loc = BlockTop b" | "loc = BlockBottom b" | at where "loc = At at" "at \<in> set (ins b)"
    by (auto simp: block_locs_def)
  then show ?thesis
  proof cases
    case 1
    with prepend_inst_view [OF v b(1) i] show ?thesis by (auto simp: cursor_insert_inst_def on_layout_def)
  next
    case 2
    with append_inst_view [OF v b(1) i] show ?thesis by (auto simp: cursor_insert_inst_def on_layout_def)
  next
    case (3 at)
    then obtain xs ys where at: "ins b = xs @ at # ys" by (meson split_list)
    then have "at \<notin> set xs" using layout_view_inst_links(4) [OF v at] by simp
    from insert_inst_after_view [OF v at i] inserted_at_At [OF this, of i ys] at 3 show ?thesis
      by (auto simp: cursor_insert_inst_def on_layout_def)
  qed
qed

lemma Union_upd: "(\<Union>c. set ((f(b := xs)) c)) = set xs \<union> (\<Union>c\<in>- {b}. set (f c))"
  by (auto split: if_splits)

lemma Union_split: "(\<Union>c. set (f c)) = set (f b) \<union> (\<Union>c\<in>- {b}. set (f c))"
  by auto

lemma insert_inst_data_ok:
  assumes ok: "function_ok func bs ins" and b: "b \<in> set bs" "loc \<in> set (block_locs ins b)"
  shows "\<exists>i func'. insert_inst_data data (loc, func) = Inr (i, loc, func') \<and> i = length (d_insts (f_dfg func))
    \<and> function_ok func' bs (ins(b := inserted_at loc i (ins b))) \<and> d_insts (f_dfg func') = d_insts (f_dfg func) @ [data]"
proof -
  let ?i = "length (d_insts (f_dfg func))"
  from make_inst_ok [OF function_okD(2) [OF ok], of data] obtain d' where
    d': "make_inst data (f_dfg func) = Inr (?i, d')" "dfg_ok d' (insert ?i (\<Union>b. set (ins b)))" "d_insts d' = d_insts (f_dfg func) @ [data]"
    by auto
  have fresh: "\<forall>d. ?i \<notin> set (ins d)" using function_okD(3) [OF ok] by blast
  from cursor_insert_view [OF function_okD(1) [OF ok] b fresh, of "func\<lparr>f_dfg := d'\<rparr>"] obtain l' where
    l': "cursor_insert_inst ?i (loc, func\<lparr>f_dfg := d'\<rparr>) = Inr ((), loc, func\<lparr>f_dfg := d', f_layout := l'\<rparr>)"
      "layout_view l' bs (ins(b := inserted_at loc ?i (ins b)))" by auto
  have "(\<Union>c. set ((ins(b := inserted_at loc ?i (ins b))) c)) = insert ?i (\<Union>b. set (ins b))"
    unfolding Union_upd set_inserted_at [OF function_okD(1) [OF ok] b(2)] Union_split [of ins b] by simp
  then have "function_ok (func\<lparr>f_dfg := d', f_layout := l'\<rparr>) bs (ins(b := inserted_at loc ?i (ins b)))"
    using d' l' by (simp add: function_ok_def)
  with d' l' show ?thesis by (auto simp: insert_inst_data_def on_dfg_def)
qed

lemma cursor_remove_inst_ok:
  assumes ok: "function_ok func bs ins" and i: "ins b = us @ i # vs"
  shows "\<exists>func'. cursor_remove_inst (At i, func) = Inr ((), (case vs of j # _ \<Rightarrow> At j | [] \<Rightarrow> BlockBottom b), func')
    \<and> function_ok func' bs (ins(b := us @ vs)) \<and> d_insts (f_dfg func') = d_insts (f_dfg func)"
proof -
  note v = function_okD(1) [OF ok]
  have "is_inst_inserted (f_layout func) i" using layout_view_insts(3) [OF v, of i] i by (auto intro: exI [of _ b])
  with layout_view_inst_links [OF v i]
  have n: "next_loc (At i) func = Inr (case vs of j # _ \<Rightarrow> At j | [] \<Rightarrow> BlockBottom b)"
    by (cases vs) (auto simp: next_loc_def next_inst_of_def inst_block_def)
  have "i < length (d_insts (f_dfg func))" using function_okD(3) [OF ok, of i b] i by simp
  from untrack_inst_ok [OF function_okD(2) [OF ok] this] obtain d' where
    d': "untrack_inst i (f_dfg func) = Inr ((), d')" "dfg_ok d' ((\<Union>b. set (ins b)) - {i})" "d_insts d' = d_insts (f_dfg func)" by auto
  from remove_inst_view [OF v i] obtain l' where
    l': "remove_inst i (f_layout func) = Inr ((), l')" "layout_view l' bs (ins(b := us @ vs))" by auto
  have "i \<notin> set (ins c)" if "c \<noteq> b" for c
    using that insts_view_disjoint [of "f_layout func" ins i b c] v i by (auto simp: layout_view_def)
  then have other: "(\<Union>c\<in>- {b}. set (ins c)) - {i} = (\<Union>c\<in>- {b}. set (ins c))" by auto
  have "i \<notin> set (us @ vs)" using layout_view_inst_links(4) [OF v i] by simp
  then have "set (ins b) - {i} = set (us @ vs)" using i by auto
  then have "(\<Union>c. set ((ins(b := us @ vs)) c)) = (\<Union>b. set (ins b)) - {i}"
    unfolding Union_upd Union_split [of ins b] Un_Diff other by simp
  with d' l' have "function_ok (func\<lparr>f_dfg := d', f_layout := l'\<rparr>) bs (ins(b := us @ vs))"
    by (simp add: function_ok_def)
  with n d' l' show ?thesis
    by (auto simp: cursor_remove_inst_def expect_inst_def cursor_inst_def on_dfg_def on_layout_def set_location_def sbind_def)
qed

lemma remove_insts_ok:
  assumes "function_ok func bs ins" "ins b = js"
  shows "\<exists>loc func'. remove_insts (case js of j # _ \<Rightarrow> At j | [] \<Rightarrow> BlockBottom b, func) = Some (Inr ((), loc, func'))
    \<and> function_ok func' bs (ins(b := []))"
  using assms
proof (induction js arbitrary: func ins)
  case Nil
  then have "ins(b := []) = ins" by auto
  with Nil show ?case by (subst remove_insts.simps) simp
next
  case (Cons j js)
  from cursor_remove_inst_ok [OF Cons.prems(1), of b "[]" j js] Cons.prems(2) obtain func' where
    f: "cursor_remove_inst (At j, func) = Inr ((), (case js of j # _ \<Rightarrow> At j | [] \<Rightarrow> BlockBottom b), func')"
      "function_ok func' bs (ins(b := js))" by auto
  have "(ins(b := js)) b = js" by simp
  from Cons.IH [OF f(2) this, unfolded fun_upd_upd] f(1) show ?case
    by (subst remove_insts.simps) (simp del: fun_upd_apply)
qed

section \<open>Properties\<close>

text \<open>Removing the block under the cursor, wherever in the block the cursor is, ends: it removes
  and untracks every instruction of the block, takes the block out of the order, leaves the
  rest of the function well-formed and puts the cursor on top of the following block, or nowhere.\<close>
theorem cursor_remove_block_clears:
  assumes ok: "function_ok func (xs @ b # ys) ins" and loc: "loc \<in> set (block_locs ins b)"
  shows "\<exists>func'. cursor_remove_block (loc, func) = Some (Inr ((), (case ys of c # _ \<Rightarrow> BlockTop c | [] \<Rightarrow> NoWhere), func'))
    \<and> function_ok func' (xs @ ys) (ins(b := []))"
proof -
  note v = function_okD(1) [OF ok]
  let ?nx = "case ys of c # _ \<Rightarrow> BlockTop c | [] \<Rightarrow> NoWhere"
  note e = layout_view_blocks(3) [OF v, of b] layout_view_links [OF v] layout_view_insts(1) [OF v, of b]
  have cb: "block_or_panic msg loc func = Inr b" for msg
  proof -
    have "inst_block (f_layout func) i = Inr b" if i: "i \<in> set (ins b)" for i
    proof -
      from i obtain us vs where "ins b = us @ i # vs" by (meson split_list)
      from layout_view_inst_links [OF v this] layout_view_insts(3) [OF v, of i] i show ?thesis
        by (auto simp: inst_block_def)
    qed
    with loc show ?thesis by (auto simp: block_or_panic_def cursor_block_def block_locs_def)
  qed
  obtain loc' func1 where r: "(case hd_opt (ins b) of Some i \<Rightarrow> remove_insts (At i, func) | None \<Rightarrow> Some (Inr ((), loc, func)))
      = Some (Inr ((), loc', func1))" and ok1: "function_ok func1 (xs @ b # ys) (ins(b := []))"
  proof (cases "ins b")
    case Nil
    then have "ins(b := []) = ins" by auto
    with Nil ok that show ?thesis by simp
  next
    case (Cons j js)
    with remove_insts_ok [OF ok, of b "j # js"] that show ?thesis by auto
  qed
  from remove_block_view [OF function_okD(1) [OF ok1]] obtain l' where
    l': "remove_block b (f_layout func1) = Inr ((), l')" "layout_view l' (xs @ ys) (ins(b := []))" by auto
  have "(case hd_opt ys of Some c \<Rightarrow> BlockTop c | None \<Rightarrow> NoWhere) = ?nx" by (cases ys) auto
  moreover have "function_ok (func1\<lparr>f_layout := l'\<rparr>) (xs @ ys) (ins(b := []))"
    using function_okD(2) [OF ok1] l'(2) by (simp add: function_ok_def)
  ultimately show ?thesis
    using cb e r l'(1) by (simp add: cursor_remove_block_def next_block_of_def first_inst_of_def on_layout_def set_location_def sbind_def)
qed

lemma function_new_ok:
  assumes "layout_view l bs ins" "(\<Union>b. set (ins b)) = {}"
  shows "\<exists>func. function_new \<lparr>sig_name = [], sig_args = [Ty_I32], sig_ret_ty = Ty_Unit\<rparr> = Inr func
    \<and> arg_values func = [0] \<and> function_ok (func\<lparr>f_layout := l\<rparr>) bs ins"
proof -
  let ?d = "dfg_new\<lparr>d_values := [V_Arg Ty_I32 0]\<rparr>"
  have "function_new \<lparr>sig_name = [], sig_args = [Ty_I32], sig_ret_ty = Ty_Unit\<rparr>
      = Inr \<lparr>arg_values = [0], f_dfg = ?d, f_layout = layout_new\<rparr>"
    by (simp add: function_new_def sbind_def make_value_def dfg_new_def)
  moreover have "dfg_ok ?d {}" by (simp add: dfg_ok_def dfg_new_def)
  ultimately show ?thesis using assms by (simp add: function_ok_def)
qed

section \<open>A sample function\<close>

text \<open>A function of two blocks that doubles its argument and returns it from the second block.\<close>

definition sample_func :: Function where
  "sample_func = \<lparr>arg_values = [0],
     f_dfg = \<lparr>block_num = 2, d_values = [V_Arg Ty_I8 0, V_Inst 0 Ty_I8], d_insts = [Add 0 0, Jump 1, Return (Some 1)],
       inst_results = [0 \<mapsto> 1], immediates = Map.empty, users = (\<lambda>v. if v = 0 then {0} else if v = 1 then {2} else {})\<rparr>,
     f_layout = \<lparr>blocks = (\<lambda>b. if b = 0 then \<lparr>b_prev = None, b_next = Some 1, first_inst = Some 0, last_inst = Some 1\<rparr>
           else if b = 1 then \<lparr>b_prev = Some 0, b_next = None, first_inst = Some 2, last_inst = Some 2\<rparr>
           else block_node_default),
       insts = (\<lambda>i. if i = 0 then \<lparr>i_block = Some 0, i_prev = None, i_next = Some 1\<rparr>
           else if i = 1 then \<lparr>i_block = Some 0, i_prev = Some 0, i_next = None\<rparr>
           else if i = 2 then \<lparr>i_block = Some 1, i_prev = None, i_next = None\<rparr>
           else inst_node_default),
       entry_block = Some 0, last_block = Some 1\<rparr>\<rparr>"

definition sample_insts :: "BlockId \<Rightarrow> InstId list" where
  "sample_insts b = (if b = 0 then [0, 1] else if b = 1 then [2] else [])"

lemma sample_insts_all: "(\<Union>b. set (sample_insts b)) = {0, 1, 2}"
proof -
  have "i \<in> set (sample_insts b) \<longleftrightarrow> b = 0 \<and> i \<in> {0, 1} \<or> b = 1 \<and> i = 2" for i b by (auto simp: sample_insts_def)
  then show ?thesis by blast
qed

lemma sample_func_ok: "function_ok sample_func [0, 1] sample_insts"
proof -
  have "layout_view (f_layout sample_func) [0, 1] sample_insts"
    by (auto simp: layout_view_def blocks_view_def insts_view_def dll_def sample_func_def sample_insts_def
        hd_opt_def last_opt_def inst_node_default_def block_node_default_def split: if_splits)
  moreover have "users (f_dfg sample_func) v = {i \<in> {0, 1, 2}. v \<in> set (values_of (d_insts (f_dfg sample_func) ! i))}" for v
  proof (rule set_eqI)
    fix i :: nat
    consider "i = 0" | "i = 1" | "i = 2" | "i \<notin> {0, 1, 2}" by blast
    then show "i \<in> users (f_dfg sample_func) v \<longleftrightarrow> i \<in> {i \<in> {0, 1, 2}. v \<in> set (values_of (d_insts (f_dfg sample_func) ! i))}"
      by cases (simp_all add: sample_func_def)
  qed
  then have "dfg_ok (f_dfg sample_func) {0, 1, 2}"
    by (simp add: dfg_ok_def) (simp add: sample_func_def)
  ultimately show ?thesis by (simp add: function_ok_def sample_insts_all)
qed

theorem cursor_moves_in_sequence_witness:
  "\<exists>l. append_block 4 layout_new = Inr ((), l)
     \<and> (\<forall>func. f_layout func = l \<longrightarrow> next_loc (BlockTop 4) func = Inr (BlockBottom 4) \<and> next_loc (BlockBottom 4) func = Inr NoWhere)"
proof -
  from append_block_view [OF layout_view_new, of 4] obtain l where
    l: "append_block 4 layout_new = Inr ((), l)" "layout_view l [4] (\<lambda>_. [])" by auto
  have "next_loc (BlockTop 4) func = Inr (BlockBottom 4) \<and> next_loc (BlockBottom 4) func = Inr NoWhere" if "f_layout func = l" for func
    using cursor_moves_in_sequence [of func "[4]" "\<lambda>_. []" "[]" "BlockTop 4" "[BlockBottom 4]"]
      cursor_moves_in_sequence [of func "[4]" "\<lambda>_. []" "[BlockTop 4]" "BlockBottom 4" "[]"] l that
    by (simp add: locs_of_Cons loc_or_nowhere_def)
  with l show ?thesis by blast
qed

theorem cursor_remove_block_clears_witness:
  "\<exists>func func'. is_block_inserted (f_layout func) 4 \<and> cursor_remove_block (BlockTop 4, func) = Some (Inr ((), NoWhere, func'))
     \<and> function_ok func' [] (\<lambda>_. [])"
proof -
  from append_block_view [OF layout_view_new, of 4] obtain l where
    l: "layout_view l [4] (\<lambda>_. [])" by auto
  obtain func where "function_ok (func\<lparr>f_layout := l\<rparr>) [4] (\<lambda>_. [])"
    using function_new_ok [OF l] by auto
  with cursor_remove_block_clears [of "func\<lparr>f_layout := l\<rparr>" "[]" 4 "[]" "\<lambda>_. []" "BlockTop 4"] obtain func' where
    "cursor_remove_block (BlockTop 4, func\<lparr>f_layout := l\<rparr>) = Some (Inr ((), NoWhere, func'))" "function_ok func' [] (\<lambda>_. [])"
    by (auto simp: block_locs_def fun_upd_def)
  moreover have "is_block_inserted (f_layout (func\<lparr>f_layout := l\<rparr>)) 4" using layout_view_blocks(3) [OF l, of 4] by simp
  ultimately show ?thesis by blast
qed

text \<open>C37: inserting an instruction at a cursor location makes it, tracks it as a user of its operands and
  places it where the location says (behind the instruction under the cursor, at the top or at the
  bottom of the block); removing the instruction under the cursor untracks it, takes it out and
  moves the cursor to the following location. Both keep the function well-formed.\<close>
theorem cursor_edits_function:
  assumes "function_ok func bs ins" and "b \<in> set bs" and "loc \<in> set (block_locs ins b)"
  shows "(\<exists>i func'. insert_inst_data data (loc, func) = Inr (i, loc, func') \<and> (\<forall>c. i \<notin> set (ins c))
            \<and> get_inst (f_dfg func') i = Inr data \<and> function_ok func' bs (ins(b := inserted_at loc i (ins b))))
       \<and> (\<forall>i us vs. loc = At i \<and> ins b = us @ i # vs \<longrightarrow>
            (\<exists>func'. cursor_remove_inst (loc, func) = Inr ((), (case vs of j # _ \<Rightarrow> At j | [] \<Rightarrow> BlockBottom b), func')
               \<and> function_ok func' bs (ins(b := us @ vs))))"
proof (intro conjI allI impI)
  from insert_inst_data_ok [OF assms, of data] obtain i func' where
    f: "insert_inst_data data (loc, func) = Inr (i, loc, func')" "i = length (d_insts (f_dfg func))"
      "function_ok func' bs (ins(b := inserted_at loc i (ins b)))" "d_insts (f_dfg func') = d_insts (f_dfg func) @ [data]" by blast
  moreover have "\<forall>c. i \<notin> set (ins c)" using function_okD(3) [OF assms(1)] f(2) by blast
  ultimately show "\<exists>i func'. insert_inst_data data (loc, func) = Inr (i, loc, func') \<and> (\<forall>c. i \<notin> set (ins c))
            \<and> get_inst (f_dfg func') i = Inr data \<and> function_ok func' bs (ins(b := inserted_at loc i (ins b)))"
    by (intro exI [of _ i] exI [of _ func']) (simp add: get_inst_def)
next
  fix i us vs assume "loc = At i \<and> ins b = us @ i # vs"
  with cursor_remove_inst_ok [OF assms(1), of b us i vs]
  show "\<exists>func'. cursor_remove_inst (loc, func) = Inr ((), (case vs of j # _ \<Rightarrow> At j | [] \<Rightarrow> BlockBottom b), func')
               \<and> function_ok func' bs (ins(b := us @ vs))" by auto
qed

theorem cursor_edits_function_witness:
  "\<exists>func i func'. insert_inst_data (Neg 0) (BlockTop 4, func) = Inr (i, BlockTop 4, func')
     \<and> function_ok func' [4] ((\<lambda>_. [])(4 := [i])) \<and> users (f_dfg func') 0 = {i}"
proof -
  from append_block_view [OF layout_view_new, of 4] obtain l where
    l: "layout_view l [4] (\<lambda>_. [])" by auto
  obtain func where "function_ok (func\<lparr>f_layout := l\<rparr>) [4] (\<lambda>_. [])"
    using function_new_ok [OF l] by auto
  moreover have "(4 :: BlockId) \<in> set [4]" "BlockTop 4 \<in> set (block_locs (\<lambda>_. []) 4)" by (simp_all add: block_locs_def)
  ultimately obtain i func' where
    f: "insert_inst_data (Neg 0) (BlockTop 4, func\<lparr>f_layout := l\<rparr>) = Inr (i, BlockTop 4, func')"
      "get_inst (f_dfg func') i = Inr (Neg 0)" "function_ok func' [4] ((\<lambda>_. [])(4 := inserted_at (BlockTop 4) i []))"
    using cursor_edits_function [of "func\<lparr>f_layout := l\<rparr>" "[4]" "\<lambda>_. []" 4 "BlockTop 4" "Neg 0"] by metis
  have "(\<Union>c. set (((\<lambda>_. [])(4 := inserted_at (BlockTop 4) i [])) c)) = {i}" by auto
  with dfg_ok_users [OF function_okD(2) [OF f(3)], of 0] f(2) have "users (f_dfg func') 0 = {i}"
    by (auto simp: get_inst_def)
  with f show ?thesis by auto
qed

end
