(* ===== verification/Cfg.thy ===== *)
theory Cfg
  imports Cursor
begin

text \<open>
  \<open>crates/ir/src/cfg.rs\<close>: the control flow graph of a function, with the predecessors and the
  successors of every block, and the depth-first iterator \<open>CfgPostOrder\<close>. The graph is computed from the
  last instruction of each block; the iterator is shown to end, to list every block reachable
  from the entry once, and to be a post order.
\<close>

section \<open>The graph\<close>

text \<open>A \<open>BTreeSet\<close> is a set; iterating over it goes in increasing order.\<close>

record CfgNode =
  preds :: "BlockId set"
  succs :: "BlockId set"

record ControlFlowGraph =
  cfg_entry :: "BlockId option"
  cfg_blocks :: "BlockId \<Rightarrow> CfgNode"
  exits :: "BlockId list"

definition cfg_new :: ControlFlowGraph where
  "cfg_new = \<lparr>cfg_entry = None, cfg_blocks = (\<lambda>_. \<lparr>preds = {}, succs = {}\<rparr>), exits = []\<rparr>"

definition preds_of :: "ControlFlowGraph \<Rightarrow> BlockId \<Rightarrow> BlockId list" where
  "preds_of cfg block = sorted_list_of_set (preds (cfg_blocks cfg block))"

definition succs_of :: "ControlFlowGraph \<Rightarrow> BlockId \<Rightarrow> BlockId list" where
  "succs_of cfg block = sorted_list_of_set (succs (cfg_blocks cfg block))"

definition pred_num_of :: "ControlFlowGraph \<Rightarrow> BlockId \<Rightarrow> nat" where
  "pred_num_of cfg block = card (preds (cfg_blocks cfg block))"

definition succ_num_of :: "ControlFlowGraph \<Rightarrow> BlockId \<Rightarrow> nat" where
  "succ_num_of cfg block = card (succs (cfg_blocks cfg block))"

definition push_pred :: "BlockId \<Rightarrow> CfgNode \<Rightarrow> CfgNode" where
  "push_pred pred n = n\<lparr>preds := insert pred (preds n)\<rparr>"

definition push_succ :: "BlockId \<Rightarrow> CfgNode \<Rightarrow> CfgNode" where
  "push_succ succ n = n\<lparr>succs := insert succ (succs n)\<rparr>"

definition remove_pred :: "BlockId \<Rightarrow> CfgNode \<Rightarrow> CfgNode" where
  "remove_pred pred n = n\<lparr>preds := preds n - {pred}\<rparr>"

definition remove_succ :: "BlockId \<Rightarrow> CfgNode \<Rightarrow> CfgNode" where
  "remove_succ succ n = n\<lparr>succs := succs n - {succ}\<rparr>"

definition reverse_edge :: "CfgNode \<Rightarrow> CfgNode" where
  "reverse_edge n = n\<lparr>preds := succs n, succs := preds n\<rparr>"

definition upd_node :: "BlockId \<Rightarrow> (CfgNode \<Rightarrow> CfgNode) \<Rightarrow> ControlFlowGraph \<Rightarrow> ControlFlowGraph" where
  "upd_node b f cfg = cfg\<lparr>cfg_blocks := (cfg_blocks cfg)(b := f (cfg_blocks cfg b))\<rparr>"

definition add_edge :: "BlockId \<Rightarrow> BlockId \<Rightarrow> ControlFlowGraph \<Rightarrow> ControlFlowGraph" where
  "add_edge from to cfg = upd_node from (push_succ to) (upd_node to (push_pred from) cfg)"

definition remove_edge :: "BlockId \<Rightarrow> BlockId \<Rightarrow> ControlFlowGraph \<Rightarrow> ControlFlowGraph" where
  "remove_edge from to cfg = upd_node from (remove_succ to) (upd_node to (remove_pred from) cfg)"

definition reverse_edges :: "BlockId \<Rightarrow> BlockId list \<Rightarrow> ControlFlowGraph \<Rightarrow> ControlFlowGraph" where
  "reverse_edges new_entry new_exits cfg =
     cfg\<lparr>cfg_blocks := (\<lambda>b. reverse_edge (cfg_blocks cfg b)), cfg_entry := Some new_entry, exits := new_exits\<rparr>"

definition cfg_clear :: "ControlFlowGraph \<Rightarrow> ControlFlowGraph" where
  "cfg_clear cfg = cfg\<lparr>cfg_entry := None, cfg_blocks := (\<lambda>_. \<lparr>preds = {}, succs = {}\<rparr>), exits := []\<rparr>"

fun add_dests :: "Function \<Rightarrow> InstId \<Rightarrow> BlockId list \<Rightarrow> ControlFlowGraph \<Rightarrow> fault + ControlFlowGraph" where
  "add_dests func inst [] cfg = Inr cfg"
| "add_dests func inst (dest # ds) cfg =
     rbind (inst_block (f_layout func) inst) (\<lambda>block. add_dests func inst ds (add_edge block dest cfg))"

definition analyze_inst :: "Function \<Rightarrow> InstId \<Rightarrow> ControlFlowGraph \<Rightarrow> fault + ControlFlowGraph" where
  "analyze_inst func inst cfg =
     rbind (is_exit (f_dfg func) inst) (\<lambda>ex.
     rbind (if ex then rbind (inst_block (f_layout func) inst) (\<lambda>exit. Inr (cfg\<lparr>exits := exits cfg @ [exit]\<rparr>)) else Inr cfg) (\<lambda>cfg.
     rbind (branch_info (f_dfg func) inst) (\<lambda>b. case b of
         None \<Rightarrow> Inr cfg
       | Some br \<Rightarrow> add_dests func inst (dests br) cfg)))"

fun analyze_blocks :: "Function \<Rightarrow> BlockId list \<Rightarrow> ControlFlowGraph \<Rightarrow> fault + ControlFlowGraph" where
  "analyze_blocks func [] cfg = Inr cfg"
| "analyze_blocks func (block # bs) cfg =
     rbind (last_inst_of (f_layout func) block) (\<lambda>li.
     rbind (case li of Some i \<Rightarrow> analyze_inst func i cfg | None \<Rightarrow> Inr cfg) (analyze_blocks func bs))"

text \<open>\<open>None\<close>: the walk over the layout does not end, which a well-formed layout excludes.\<close>

definition cfg_compute :: "Function \<Rightarrow> ControlFlowGraph \<Rightarrow> (fault + ControlFlowGraph) option" where
  "cfg_compute func cfg =
     (let cfg = (cfg_clear cfg)\<lparr>cfg_entry := entry_block (f_layout func)\<rparr>
      in map_option (\<lambda>bs. analyze_blocks func bs cfg) (iter_block (f_layout func)))"

text \<open>
  The instructions of a block; \<open>Out_of_fuel\<close> would mean that the iterator does not end, which
  \<open>layout_iteration\<close> excludes for a well-formed layout.
\<close>

definition insts_of :: "Function \<Rightarrow> BlockId \<Rightarrow> fault + InstId list" where
  "insts_of func block = rbind (iter_inst (f_layout func) block) (\<lambda>js.
     case js of None \<Rightarrow> Inl Out_of_fuel | Some js \<Rightarrow> Inr js)"

section \<open>The post order iterator\<close>

text \<open>\<open>NodeState\<close> is 0, 1 or 2; the stack is a list whose head is the top.\<close>

type_synonym NodeState = nat

definition is_unvisited :: "NodeState \<Rightarrow> bool" where
  "is_unvisited s \<longleftrightarrow> s = 0"

definition has_finished :: "NodeState \<Rightarrow> bool" where
  "has_finished s \<longleftrightarrow> s = 2"

record CfgPostOrder =
  node_state :: "BlockId \<Rightarrow> NodeState"
  po_stack :: "BlockId list"

definition post_order_new :: "ControlFlowGraph \<Rightarrow> CfgPostOrder" where
  "post_order_new cfg = \<lparr>node_state = (\<lambda>_. 0), po_stack = (case cfg_entry cfg of Some e \<Rightarrow> [e] | None \<Rightarrow> [])\<rparr>"

definition set_visited :: "BlockId \<Rightarrow> CfgPostOrder \<Rightarrow> CfgPostOrder" where
  "set_visited block po = po\<lparr>node_state := (node_state po)(block := 1)\<rparr>"

definition set_finished :: "BlockId \<Rightarrow> CfgPostOrder \<Rightarrow> CfgPostOrder" where
  "set_finished block po = po\<lparr>node_state := (node_state po)(block := 2)\<rparr>"

definition push_unvisited :: "BlockId list \<Rightarrow> CfgPostOrder \<Rightarrow> CfgPostOrder" where
  "push_unvisited bs po = po\<lparr>po_stack := rev (filter (\<lambda>b. is_unvisited (node_state po b)) bs) @ po_stack po\<rparr>"

partial_function (option) po_next :: "ControlFlowGraph \<Rightarrow> CfgPostOrder \<Rightarrow> (BlockId option \<times> CfgPostOrder) option" where
  "po_next cfg po =
     (case po_stack po of
        [] \<Rightarrow> Some (None, po)
      | block # rest \<Rightarrow>
          if is_unvisited (node_state po block) then
            po_next cfg (push_unvisited (succs_of cfg block) (set_visited block po))
          else if \<not> has_finished (node_state po block) then
            Some (Some block, set_finished block (po\<lparr>po_stack := rest\<rparr>))
          else po_next cfg (po\<lparr>po_stack := rest\<rparr>))"

partial_function (option) po_collect :: "ControlFlowGraph \<Rightarrow> CfgPostOrder \<Rightarrow> BlockId list option" where
  "po_collect cfg po =
     (case po_next cfg po of
        None \<Rightarrow> None
      | Some (None, _) \<Rightarrow> Some []
      | Some (Some block, po') \<Rightarrow> Option.bind (po_collect cfg po') (\<lambda>bs. Some (block # bs)))"

definition post_order :: "ControlFlowGraph \<Rightarrow> BlockId list option" where
  "post_order cfg = po_collect cfg (post_order_new cfg)"

lemma po_collect_step:
  "po_collect cfg po =
     (case po_stack po of
        [] \<Rightarrow> Some []
      | block # rest \<Rightarrow>
          if is_unvisited (node_state po block) then
            po_collect cfg (push_unvisited (succs_of cfg block) (set_visited block po))
          else if \<not> has_finished (node_state po block) then
            Option.bind (po_collect cfg (set_finished block (po\<lparr>po_stack := rest\<rparr>))) (\<lambda>bs. Some (block # bs))
          else po_collect cfg (po\<lparr>po_stack := rest\<rparr>))"
proof (cases "po_stack po")
  case Nil
  then show ?thesis by (subst po_collect.simps, subst po_next.simps) simp
next
  case (Cons block rest)
  have same: "po_next cfg po = po_next cfg po' \<Longrightarrow> po_collect cfg po = po_collect cfg po'" for po'
    by (subst (1 2) po_collect.simps) simp
  show ?thesis
  proof (cases "is_unvisited (node_state po block) \<or> has_finished (node_state po block)")
    case True
    have "po_next cfg po = po_next cfg (if is_unvisited (node_state po block)
        then push_unvisited (succs_of cfg block) (set_visited block po) else po\<lparr>po_stack := rest\<rparr>)"
      using True Cons by (subst po_next.simps) auto
    from same [OF this] True Cons show ?thesis by auto
  next
    case False
    with Cons show ?thesis by (subst po_collect.simps, subst po_next.simps) simp
  qed
qed

section \<open>Edges\<close>

definition cfg_edges :: "ControlFlowGraph \<Rightarrow> (BlockId \<times> BlockId) set" where
  "cfg_edges cfg = {(a, b). b \<in> succs (cfg_blocks cfg a)}"

text \<open>Predecessors and successors describe the same finite set of edges.\<close>

definition cfg_ok :: "ControlFlowGraph \<Rightarrow> bool" where
  "cfg_ok cfg \<longleftrightarrow> (\<forall>a b. b \<in> succs (cfg_blocks cfg a) \<longleftrightarrow> a \<in> preds (cfg_blocks cfg b)) \<and> finite (cfg_edges cfg)"

lemmas node_defs = upd_node_def push_pred_def push_succ_def remove_pred_def remove_succ_def reverse_edge_def

lemma cfg_ok_new [simp]: "cfg_ok cfg_new" "cfg_edges cfg_new = {}"
  by (simp_all add: cfg_ok_def cfg_edges_def cfg_new_def)

lemma edit_nodes:
  "succs (cfg_blocks (add_edge a b cfg) x) = (if x = a then insert b (succs (cfg_blocks cfg x)) else succs (cfg_blocks cfg x))"
  "preds (cfg_blocks (add_edge a b cfg) x) = (if x = b then insert a (preds (cfg_blocks cfg x)) else preds (cfg_blocks cfg x))"
  "succs (cfg_blocks (remove_edge a b cfg) x) = (if x = a then succs (cfg_blocks cfg x) - {b} else succs (cfg_blocks cfg x))"
  "preds (cfg_blocks (remove_edge a b cfg) x) = (if x = b then preds (cfg_blocks cfg x) - {a} else preds (cfg_blocks cfg x))"
  "succs (cfg_blocks (reverse_edges e xs cfg) x) = preds (cfg_blocks cfg x)"
  "preds (cfg_blocks (reverse_edges e xs cfg) x) = succs (cfg_blocks cfg x)"
  by (simp_all add: add_edge_def remove_edge_def reverse_edges_def node_defs)

lemma add_edge_edges: "cfg_edges (add_edge a b cfg) = insert (a, b) (cfg_edges cfg)"
  by (auto simp: cfg_edges_def edit_nodes split: if_splits)

lemma remove_edge_edges: "cfg_edges (remove_edge a b cfg) = cfg_edges cfg - {(a, b)}"
  by (auto simp: cfg_edges_def edit_nodes split: if_splits)

lemma cfg_ok_parts [simp]:
  "cfg_ok (cfg\<lparr>exits := xs\<rparr>) = cfg_ok cfg" "cfg_ok (cfg\<lparr>cfg_entry := x\<rparr>) = cfg_ok cfg"
  "cfg_edges (cfg\<lparr>exits := xs\<rparr>) = cfg_edges cfg" "cfg_edges (cfg\<lparr>cfg_entry := x\<rparr>) = cfg_edges cfg"
  by (simp_all add: cfg_ok_def cfg_edges_def)

lemma cfg_okD: "cfg_ok cfg \<Longrightarrow> a \<in> preds (cfg_blocks cfg b) \<longleftrightarrow> (a, b) \<in> cfg_edges cfg"
  by (simp add: cfg_ok_def cfg_edges_def)

lemma reverse_edges_edges:
  "cfg_ok cfg \<Longrightarrow> cfg_edges (reverse_edges e xs cfg) = (cfg_edges cfg)\<inverse>"
  by (auto simp: cfg_edges_def cfg_ok_def edit_nodes)

lemma cfg_ok_edits:
  assumes "cfg_ok cfg"
  shows "cfg_ok (add_edge a b cfg)" "cfg_ok (remove_edge a b cfg)" "cfg_ok (reverse_edges e xs cfg)"
proof -
  from assms have f: "finite (cfg_edges cfg)" by (simp add: cfg_ok_def)
  have "y \<in> succs (cfg_blocks (add_edge a b cfg) x) \<longleftrightarrow> x \<in> preds (cfg_blocks (add_edge a b cfg) y)" for x y
    using assms by (auto simp: cfg_ok_def edit_nodes split: if_splits)
  with f show "cfg_ok (add_edge a b cfg)" by (simp add: cfg_ok_def add_edge_edges)
  have "y \<in> succs (cfg_blocks (remove_edge a b cfg) x) \<longleftrightarrow> x \<in> preds (cfg_blocks (remove_edge a b cfg) y)" for x y
    using assms by (auto simp: cfg_ok_def edit_nodes split: if_splits)
  with f show "cfg_ok (remove_edge a b cfg)" by (simp add: cfg_ok_def remove_edge_edges)
  have "y \<in> succs (cfg_blocks (reverse_edges e xs cfg) x) \<longleftrightarrow> x \<in> preds (cfg_blocks (reverse_edges e xs cfg) y)" for x y
    using assms by (auto simp: cfg_ok_def edit_nodes split: if_splits)
  with f assms show "cfg_ok (reverse_edges e xs cfg)" by (simp add: cfg_ok_def reverse_edges_edges)
qed

lemma succs_of_edges: "cfg_ok cfg \<Longrightarrow> set (succs_of cfg a) = {b. (a, b) \<in> cfg_edges cfg}"
proof -
  assume "cfg_ok cfg"
  then have "finite (cfg_edges cfg)" by (simp add: cfg_ok_def)
  moreover have "succs (cfg_blocks cfg a) = snd ` (cfg_edges cfg \<inter> ({a} \<times> UNIV))" by (force simp: cfg_edges_def)
  ultimately have "finite (succs (cfg_blocks cfg a))" by simp
  then show ?thesis by (simp add: succs_of_def cfg_edges_def)
qed

section \<open>The search\<close>

text \<open>
  The invariant of the search. \<open>out\<close> lists what has been returned. An active block (visited, not
  finished) is on the stack; what lies above its topmost occurrence is reachable from it and
  holds its successors that are not visited yet.
\<close>

definition above :: "'a \<Rightarrow> 'a list \<Rightarrow> 'a list" where
  "above x s = takeWhile (\<lambda>y. y \<noteq> x) s"

lemma above_Cons: "above x (y # s) = (if y = x then [] else y # above x s)"
  by (simp add: above_def)

lemma above_append: "x \<notin> set r \<Longrightarrow> above x (r @ s) = r @ above x s"
  by (induction r) (auto simp: above_def)

locale search =
  fixes cfg :: ControlFlowGraph and e :: BlockId
  assumes ok: "cfg_ok cfg"
begin

abbreviation reach :: "BlockId \<Rightarrow> BlockId \<Rightarrow> bool" where
  "reach a b \<equiv> (a, b) \<in> (cfg_edges cfg)\<^sup>*"

definition po_states :: "BlockId list \<Rightarrow> CfgPostOrder \<Rightarrow> bool" where
  "po_states out po \<longleftrightarrow> (\<forall>b. node_state po b \<le> 2 \<and> (node_state po b = 2 \<longleftrightarrow> b \<in> set out)
     \<and> (node_state po b = 1 \<longrightarrow> b \<in> set (po_stack po))) \<and> distinct out"

definition po_sound :: "CfgPostOrder \<Rightarrow> bool" where
  "po_sound po \<longleftrightarrow> (\<forall>b. node_state po b \<noteq> 0 \<or> b \<in> set (po_stack po) \<longrightarrow> reach e b)"

definition po_above :: "CfgPostOrder \<Rightarrow> bool" where
  "po_above po \<longleftrightarrow> (\<forall>b c. node_state po b = 1 \<and> c \<in> set (above b (po_stack po)) \<longrightarrow> reach b c)"

definition po_pending :: "CfgPostOrder \<Rightarrow> bool" where
  "po_pending po \<longleftrightarrow> (\<forall>b c. node_state po b = 1 \<and> (b, c) \<in> cfg_edges cfg \<longrightarrow>
     node_state po c \<noteq> 0 \<or> c \<in> set (above b (po_stack po)))"

definition po_order :: "BlockId list \<Rightarrow> CfgPostOrder \<Rightarrow> bool" where
  "po_order out po \<longleftrightarrow> (\<forall>pre u post v. out = pre @ u # post \<and> (u, v) \<in> cfg_edges cfg \<longrightarrow>
     v \<in> set pre \<or> (reach v u \<and> node_state po v \<noteq> 0))"

definition po_root :: "BlockId list \<Rightarrow> CfgPostOrder \<Rightarrow> bool" where
  "po_root out po \<longleftrightarrow>
     (if po_stack po = [] then out \<noteq> [] \<and> last out = e
      else last (po_stack po) = e \<and> e \<notin> set (butlast (po_stack po)) \<and> e \<notin> set out)
   \<and> (node_state po e = 0 \<longrightarrow> po_stack po = [e])"

definition po_inv :: "BlockId list \<Rightarrow> CfgPostOrder \<Rightarrow> bool" where
  "po_inv out po \<longleftrightarrow> po_states out po \<and> po_sound po \<and> po_above po \<and> po_pending po \<and> po_order out po \<and> po_root out po"

lemma po_invD:
  assumes "po_inv out po"
  shows "node_state po b \<le> 2" "node_state po b = 2 \<longleftrightarrow> b \<in> set out" "distinct out"
    "node_state po b = 1 \<Longrightarrow> b \<in> set (po_stack po)"
    "node_state po b \<noteq> 0 \<Longrightarrow> reach e b" "b \<in> set (po_stack po) \<Longrightarrow> reach e b"
    "node_state po b = 1 \<Longrightarrow> c \<in> set (above b (po_stack po)) \<Longrightarrow> reach b c"
    "node_state po b = 1 \<Longrightarrow> (b, c) \<in> cfg_edges cfg \<Longrightarrow> node_state po c \<noteq> 0 \<or> c \<in> set (above b (po_stack po))"
    "out = pre @ u # post \<Longrightarrow> (u, v) \<in> cfg_edges cfg \<Longrightarrow> v \<in> set pre \<or> (reach v u \<and> node_state po v \<noteq> 0)"
    "if po_stack po = [] then out \<noteq> [] \<and> last out = e
      else last (po_stack po) = e \<and> e \<notin> set (butlast (po_stack po)) \<and> e \<notin> set out"
    "node_state po e = 0 \<Longrightarrow> po_stack po = [e]"
proof -
  from assms have p: "po_states out po" "po_sound po" "po_above po" "po_pending po" "po_order out po" "po_root out po"
    by (simp_all add: po_inv_def)
  from p(1) show "node_state po b \<le> 2" "node_state po b = 2 \<longleftrightarrow> b \<in> set out" "distinct out"
    "node_state po b = 1 \<Longrightarrow> b \<in> set (po_stack po)" unfolding po_states_def by blast+
  from p(2) show "node_state po b \<noteq> 0 \<Longrightarrow> reach e b" "b \<in> set (po_stack po) \<Longrightarrow> reach e b" unfolding po_sound_def by blast+
  from p(3) show "node_state po b = 1 \<Longrightarrow> c \<in> set (above b (po_stack po)) \<Longrightarrow> reach b c" unfolding po_above_def by blast
  from p(4) show "node_state po b = 1 \<Longrightarrow> (b, c) \<in> cfg_edges cfg \<Longrightarrow> node_state po c \<noteq> 0 \<or> c \<in> set (above b (po_stack po))"
    unfolding po_pending_def by blast
  from p(5) show "out = pre @ u # post \<Longrightarrow> (u, v) \<in> cfg_edges cfg \<Longrightarrow> v \<in> set pre \<or> (reach v u \<and> node_state po v \<noteq> 0)"
    unfolding po_order_def by blast
  from p(6) show "if po_stack po = [] then out \<noteq> [] \<and> last out = e
      else last (po_stack po) = e \<and> e \<notin> set (butlast (po_stack po)) \<and> e \<notin> set out"
    "node_state po e = 0 \<Longrightarrow> po_stack po = [e]" unfolding po_root_def by blast+
qed

lemma po_invI:
  assumes "\<And>b. node_state po b \<le> 2" "\<And>b. node_state po b = 2 \<longleftrightarrow> b \<in> set out" "distinct out"
    "\<And>b. node_state po b = 1 \<Longrightarrow> b \<in> set (po_stack po)"
    "\<And>b. node_state po b \<noteq> 0 \<Longrightarrow> reach e b" "\<And>b. b \<in> set (po_stack po) \<Longrightarrow> reach e b"
    "\<And>b c. node_state po b = 1 \<Longrightarrow> c \<in> set (above b (po_stack po)) \<Longrightarrow> reach b c"
    "\<And>b c. node_state po b = 1 \<Longrightarrow> (b, c) \<in> cfg_edges cfg \<Longrightarrow> node_state po c \<noteq> 0 \<or> c \<in> set (above b (po_stack po))"
    "\<And>pre u post v. out = pre @ u # post \<Longrightarrow> (u, v) \<in> cfg_edges cfg \<Longrightarrow> v \<in> set pre \<or> (reach v u \<and> node_state po v \<noteq> 0)"
    "if po_stack po = [] then out \<noteq> [] \<and> last out = e
      else last (po_stack po) = e \<and> e \<notin> set (butlast (po_stack po)) \<and> e \<notin> set out"
    "node_state po e = 0 \<Longrightarrow> po_stack po = [e]"
  shows "po_inv out po"
  unfolding po_inv_def
proof (intro conjI)
  show "po_states out po" unfolding po_states_def using assms(1-4) by blast
  show "po_sound po" unfolding po_sound_def using assms(5,6) by blast
  show "po_above po" unfolding po_above_def using assms(7) by blast
  show "po_pending po" unfolding po_pending_def using assms(8) by blast
  show "po_order out po" unfolding po_order_def using assms(9) by blast
  show "po_root out po" unfolding po_root_def using assms(10,11) by blast
qed

lemma po_inv_visit:
  assumes inv: "po_inv out po" and st: "po_stack po = x # rest" and x: "node_state po x = 0"
  shows "po_inv out (push_unvisited (succs_of cfg x) (set_visited x po))"
proof -
  note I = po_invD [OF inv]
  let ?po' = "push_unvisited (succs_of cfg x) (set_visited x po)"
  define P where "P = rev (filter (\<lambda>b. is_unvisited (((node_state po)(x := 1)) b)) (succs_of cfg x))"
  have ns: "node_state ?po' = (node_state po)(x := 1)" and stk: "po_stack ?po' = P @ x # rest"
    using st by (simp_all add: push_unvisited_def set_visited_def P_def)
  have P: "b \<in> set P \<longleftrightarrow> (x, b) \<in> cfg_edges cfg \<and> node_state po b = 0 \<and> b \<noteq> x" for b
    by (simp add: P_def is_unvisited_def succs_of_edges [OF ok])
  have xP: "above x (P @ x # rest) = P" by (simp add: above_append P above_Cons)
  have bP: "above b (P @ x # rest) = P @ above b (x # rest)" if "node_state po b = 1" for b
    using that by (intro above_append) (simp add: P)
  have xabove: "x \<in> set (above b (x # rest))" if "node_state po b = 1" for b
    using that x by (auto simp: above_Cons)
  have ex: "reach e x" using I(6) st by simp
  show ?thesis
  proof (rule po_invI)
    fix b c assume b: "node_state ?po' b = 1"
    show "reach b c" if "c \<in> set (above b (po_stack ?po'))"
    proof (cases "b = x")
      case True
      with that xP show ?thesis unfolding stk by (auto simp: P)
    next
      case False
      with b ns have b1: "node_state po b = 1" by simp
      have "reach b x" using I(7) [OF b1, of x] xabove [OF b1] st by simp
      with that bP [OF b1] I(7) [OF b1, of c] st show ?thesis unfolding stk by (auto simp: P intro: rtrancl_into_rtrancl)
    qed
    show "node_state ?po' c \<noteq> 0 \<or> c \<in> set (above b (po_stack ?po'))" if "(b, c) \<in> cfg_edges cfg"
    proof (cases "b = x")
      case True
      with that xP show ?thesis unfolding stk ns by (auto simp: P)
    next
      case False
      with b ns have b1: "node_state po b = 1" by simp
      from I(8) [OF b1 that] bP [OF b1] st show ?thesis unfolding stk ns by auto
    qed
  next
    fix pre u post v assume "out = pre @ u # post" "(u, v) \<in> cfg_edges cfg"
    from I(9) [OF this] show "v \<in> set pre \<or> (reach v u \<and> node_state ?po' v \<noteq> 0)" unfolding ns by auto
  next
    have "e \<notin> set P"
    proof (cases "x = e")
      case False
      with I(11) st have "node_state po e \<noteq> 0" by auto
      then show ?thesis by (simp add: P)
    qed (simp add: P)
    with I(10) st show "if po_stack ?po' = [] then out \<noteq> [] \<and> last out = e
      else last (po_stack ?po') = e \<and> e \<notin> set (butlast (po_stack ?po')) \<and> e \<notin> set out"
      unfolding stk by (auto simp: butlast_append)
  next
    show "node_state ?po' e = 0 \<Longrightarrow> po_stack ?po' = [e]" using I(11) st unfolding ns by (auto split: if_splits)
  next
    fix b show "reach e b" if "b \<in> set (po_stack ?po')"
      using that I(6) [of b] st ex unfolding stk by (auto simp: P intro: rtrancl_into_rtrancl)
    show "reach e b" if "node_state ?po' b \<noteq> 0" using that I(5) [of b] ex unfolding ns by (auto split: if_splits)
    show "b \<in> set (po_stack ?po')" if "node_state ?po' b = 1"
      using that I(4) [of b] st unfolding ns stk by (auto split: if_splits)
    show "node_state ?po' b = 2 \<longleftrightarrow> b \<in> set out" using I(2) [of b] x unfolding ns by auto
    show "node_state ?po' b \<le> 2" using I(1) [of b] unfolding ns by auto
  qed (rule I(3))
qed

lemma po_inv_finish:
  assumes inv: "po_inv out po" and st: "po_stack po = x # rest" and x: "node_state po x = 1"
  shows "po_inv (out @ [x]) (set_finished x (po\<lparr>po_stack := rest\<rparr>))"
proof -
  note I = po_invD [OF inv]
  let ?po' = "set_finished x (po\<lparr>po_stack := rest\<rparr>)"
  have ns: "node_state ?po' = (node_state po)(x := 2)" and stk: "po_stack ?po' = rest" by (simp_all add: set_finished_def)
  have ab: "above b (po_stack po) = x # above b rest" if "b \<noteq> x" for b using that st by (simp add: above_def)
  have xout: "x \<notin> set out" using I(2) [of x] x by simp
  show ?thesis
  proof (rule po_invI)
    fix pre u post v assume o: "out @ [x] = pre @ u # post" and ed: "(u, v) \<in> cfg_edges cfg"
    show "v \<in> set pre \<or> (reach v u \<and> node_state ?po' v \<noteq> 0)"
    proof (cases post rule: rev_cases)
      case Nil
      with o have u: "pre = out" "u = x" by auto
      from I(8) [OF x] ed u st have v: "node_state po v \<noteq> 0" by (auto simp: above_def)
      show ?thesis
      proof (cases "v = x \<or> node_state po v = 2")
        case True
        with u I(2) [of v] show ?thesis unfolding ns by auto
      next
        case False
        with v I(1) [of v] have v1: "node_state po v = 1" by linarith
        with False ab [of v] I(7) [OF v1, of x] have "reach v x" by simp
        with u v show ?thesis unfolding ns by simp
      qed
    next
      case (snoc ys y)
      with o have "out = pre @ u # ys" by simp
      from I(9) [OF this ed] show ?thesis unfolding ns by auto
    qed
  next
    fix b c assume "node_state ?po' b = 1"
    then have b: "b \<noteq> x" "node_state po b = 1" unfolding ns by (auto split: if_splits)
    show "reach b c" if "c \<in> set (above b (po_stack ?po'))"
      using that I(7) [OF b(2), of c] ab [OF b(1)] unfolding stk by simp
    show "node_state ?po' c \<noteq> 0 \<or> c \<in> set (above b (po_stack ?po'))" if "(b, c) \<in> cfg_edges cfg"
      using I(8) [OF b(2) that] ab [OF b(1)] unfolding stk ns by auto
  next
    show "if po_stack ?po' = [] then out @ [x] \<noteq> [] \<and> last (out @ [x]) = e
      else last (po_stack ?po') = e \<and> e \<notin> set (butlast (po_stack ?po')) \<and> e \<notin> set (out @ [x])"
      using I(10) st unfolding stk by (auto split: if_splits)
  next
    show "node_state ?po' e = 0 \<Longrightarrow> po_stack ?po' = [e]" using I(11) st x unfolding ns by (auto split: if_splits)
  next
    fix b
    show "reach e b" if "b \<in> set (po_stack ?po')" using that I(6) [of b] st unfolding stk by simp
    show "reach e b" if "node_state ?po' b \<noteq> 0" using that I(5) [of b] x unfolding ns by (auto split: if_splits)
    show "b \<in> set (po_stack ?po')" if "node_state ?po' b = 1"
      using that I(4) [of b] st unfolding ns stk by (auto split: if_splits)
    show "node_state ?po' b = 2 \<longleftrightarrow> b \<in> set (out @ [x])" using I(2) [of b] unfolding ns by auto
    show "node_state ?po' b \<le> 2" using I(1) [of b] unfolding ns by auto
  qed (use I(3) xout in auto)
qed

lemma po_inv_pop:
  assumes inv: "po_inv out po" and st: "po_stack po = x # rest" and x: "node_state po x = 2"
  shows "po_inv out (po\<lparr>po_stack := rest\<rparr>)"
proof -
  note I = po_invD [OF inv]
  have ab: "above b (po_stack po) = x # above b rest" if "node_state po b = 1" for b using that st x by (auto simp: above_def)
  have xe: "x \<noteq> e" "x \<in> set out" using I(2) [of x] I(10) x st by auto
  show ?thesis
  proof (rule po_invI)
    fix b c assume b: "node_state (po\<lparr>po_stack := rest\<rparr>) b = 1"
    show "reach b c" if "c \<in> set (above b (po_stack (po\<lparr>po_stack := rest\<rparr>)))"
      using that I(7) [of b c] ab [of b] b by simp
    show "node_state (po\<lparr>po_stack := rest\<rparr>) c \<noteq> 0 \<or> c \<in> set (above b (po_stack (po\<lparr>po_stack := rest\<rparr>)))" if "(b, c) \<in> cfg_edges cfg"
      using I(8) [of b c] ab [of b] b x that by auto
  next
    show "if po_stack (po\<lparr>po_stack := rest\<rparr>) = [] then out \<noteq> [] \<and> last out = e
      else last (po_stack (po\<lparr>po_stack := rest\<rparr>)) = e \<and> e \<notin> set (butlast (po_stack (po\<lparr>po_stack := rest\<rparr>))) \<and> e \<notin> set out"
      using I(10) st xe by (auto split: if_splits)
  next
    show "node_state (po\<lparr>po_stack := rest\<rparr>) e = 0 \<Longrightarrow> po_stack (po\<lparr>po_stack := rest\<rparr>) = [e]"
      using I(11) st xe by auto
  next
    fix b
    show "reach e b" if "b \<in> set (po_stack (po\<lparr>po_stack := rest\<rparr>))" using that I(6) [of b] st by simp
    show "b \<in> set (po_stack (po\<lparr>po_stack := rest\<rparr>))" if "node_state (po\<lparr>po_stack := rest\<rparr>) b = 1"
      using that I(4) [of b] st x by auto
  qed (use I in auto)
qed

text \<open>
  The depth-first tree: a block on the stack other than the root was pushed by an active block whose
  topmost occurrence is below it, so every block but the root is finished before one of its predecessors.
\<close>

definition po_tree :: "BlockId list \<Rightarrow> CfgPostOrder \<Rightarrow> bool" where
  "po_tree out po \<longleftrightarrow>
     (\<forall>as x bs. po_stack po = as @ x # bs \<and> bs \<noteq> [] \<longrightarrow>
        (\<exists>p. node_state po p = 1 \<and> p \<notin> set as \<and> p \<noteq> x \<and> (p, x) \<in> cfg_edges cfg))
   \<and> (\<forall>pre x post. out = pre @ x # post \<and> x \<noteq> e \<longrightarrow> (\<exists>p. reach e p \<and> p \<notin> set pre \<and> p \<noteq> x \<and> (p, x) \<in> cfg_edges cfg))"

lemma po_tree_visit:
  assumes inv: "po_inv out po" "po_tree out po" and st: "po_stack po = x # rest" and x: "node_state po x = 0"
  shows "po_tree out (push_unvisited (succs_of cfg x) (set_visited x po))"
proof -
  let ?po' = "push_unvisited (succs_of cfg x) (set_visited x po)"
  define P where "P = rev (filter (\<lambda>b. is_unvisited (((node_state po)(x := 1)) b)) (succs_of cfg x))"
  have ns: "node_state ?po' = (node_state po)(x := 1)" and stk: "po_stack ?po' = P @ x # rest"
    using st by (simp_all add: push_unvisited_def set_visited_def P_def)
  have P: "b \<in> set P \<longleftrightarrow> (x, b) \<in> cfg_edges cfg \<and> node_state po b = 0 \<and> b \<noteq> x" for b
    by (simp add: P_def is_unvisited_def succs_of_edges [OF ok])
  have "\<exists>p. node_state ?po' p = 1 \<and> p \<notin> set as \<and> p \<noteq> y \<and> (p, y) \<in> cfg_edges cfg"
    if s: "P @ x # rest = as @ y # bs" and bs: "bs \<noteq> []" for as y bs
  proof -
    from s consider us where "P = as @ y # us" | us where "as = P @ us" "x # rest = us @ y # bs"
      by (auto simp: append_eq_append_conv2 append_eq_Cons_conv)
    then show ?thesis
    proof cases
      case 1
      then have "y \<in> set P" "\<forall>b \<in> set as. b \<in> set P" by auto
      then show ?thesis using P unfolding ns by (intro exI [of _ x]) auto
    next
      case 2
      with inv(2) st bs obtain p where "node_state po p = 1" "p \<notin> set us" "p \<noteq> y" "(p, y) \<in> cfg_edges cfg"
        unfolding po_tree_def by metis
      with 2 P show ?thesis unfolding ns by (intro exI [of _ p]) auto
    qed
  qed
  with inv(2) show ?thesis unfolding po_tree_def stk by blast
qed

lemma po_tree_pop:
  assumes inv: "po_inv out po" "po_tree out po" and st: "po_stack po = x # rest"
  shows "po_tree out (po\<lparr>po_stack := rest\<rparr>)" "node_state po x = 1 \<Longrightarrow> po_tree (out @ [x]) (set_finished x (po\<lparr>po_stack := rest\<rparr>))"
proof -
  have tree: "\<exists>p. node_state po p = 1 \<and> p \<noteq> x \<and> p \<notin> set as \<and> p \<noteq> y \<and> (p, y) \<in> cfg_edges cfg"
    if "rest = as @ y # bs" "bs \<noteq> []" for as y bs
  proof -
    from that st have "po_stack po = (x # as) @ y # bs" by simp
    with inv(2) that(2) obtain p where "node_state po p = 1" "p \<notin> set (x # as)" "p \<noteq> y" "(p, y) \<in> cfg_edges cfg"
      unfolding po_tree_def by metis
    then show ?thesis by auto
  qed
  with inv(2) show "po_tree out (po\<lparr>po_stack := rest\<rparr>)" by (fastforce simp: po_tree_def)
  assume x: "node_state po x = 1"
  let ?po' = "set_finished x (po\<lparr>po_stack := rest\<rparr>)"
  have ns: "node_state ?po' = (node_state po)(x := 2)" "po_stack ?po' = rest" by (simp_all add: set_finished_def)
  have "\<exists>p. reach e p \<and> p \<notin> set pre \<and> p \<noteq> y \<and> (p, y) \<in> cfg_edges cfg" if o: "out @ [x] = pre @ y # post" and y: "y \<noteq> e" for pre y post
  proof (cases post rule: rev_cases)
    case Nil
    with o have u: "pre = out" "y = x" by auto
    have "rest \<noteq> []" using po_invD(10) [OF inv(1)] st u(2) y by (auto split: if_splits)
    with inv(2) st obtain p where "node_state po p = 1" "p \<noteq> x" "(p, x) \<in> cfg_edges cfg"
      unfolding po_tree_def by (metis append_Nil)
    moreover from this po_invD(2) [OF inv(1), of p] po_invD(5) [OF inv(1), of p] have "p \<notin> set out" "reach e p" by simp_all
    ultimately show ?thesis using u by auto
  next
    case (snoc ys z)
    with o have "out = pre @ y # ys" by simp
    with inv(2) y show ?thesis unfolding po_tree_def by blast
  qed
  moreover have "\<exists>p. node_state ?po' p = 1 \<and> p \<notin> set as \<and> p \<noteq> y \<and> (p, y) \<in> cfg_edges cfg"
    if "rest = as @ y # bs" "bs \<noteq> []" for as y bs
    using tree [OF that] unfolding ns by auto
  ultimately show "po_tree (out @ [x]) ?po'" unfolding po_tree_def ns(2) by blast
qed

lemma reach_finite: "finite {b. reach e b}"
proof (rule finite_subset)
  show "{b. reach e b} \<subseteq> insert e (snd ` cfg_edges cfg)"
  proof
    fix b assume "b \<in> {b. reach e b}"
    then have "reach e b" by simp
    then show "b \<in> insert e (snd ` cfg_edges cfg)" by (cases rule: rtranclE) (auto intro: rev_image_eqI)
  qed
  show "finite (insert e (snd ` cfg_edges cfg))" using ok by (simp add: cfg_ok_def)
qed

definition unvisited :: "CfgPostOrder \<Rightarrow> nat" where
  "unvisited po = card {b. reach e b \<and> node_state po b = 0}"

lemma unvisited_visit:
  assumes inv: "po_inv out po" and st: "po_stack po = x # rest" and x: "node_state po x = 0"
  shows "unvisited (push_unvisited bs (set_visited x po)) < unvisited po"
  unfolding unvisited_def
proof (rule psubset_card_mono)
  show "finite {b. reach e b \<and> node_state po b = 0}" using reach_finite by (rule rev_finite_subset) blast
  have "reach e x" using po_invD(6) [OF inv, of x] st by simp
  with x show "{b. reach e b \<and> node_state (push_unvisited bs (set_visited x po)) b = 0} \<subset> {b. reach e b \<and> node_state po b = 0}"
    by (auto simp: push_unvisited_def set_visited_def split: if_splits)
qed

lemma unvisited_other:
  "unvisited (po\<lparr>po_stack := r\<rparr>) = unvisited po"
  "node_state po x \<noteq> 0 \<Longrightarrow> unvisited (set_finished x (po\<lparr>po_stack := r\<rparr>)) = unvisited po"
  by (auto simp: unvisited_def set_finished_def intro!: arg_cong [where f = card])

lemma po_collect_ends:
  "po_inv out po \<Longrightarrow> po_tree out po
   \<Longrightarrow> \<exists>xs po'. po_collect cfg po = Some xs \<and> po_stack po' = [] \<and> po_inv (out @ xs) po' \<and> po_tree (out @ xs) po'"
proof (induction po arbitrary: out rule: wf_induct_rule [OF wf_measures [of "[unvisited, \<lambda>po. length (po_stack po)]"]])
  case (1 po)
  note inv = \<open>po_inv out po\<close> and tree = \<open>po_tree out po\<close>
  note IH = 1(1)
  show ?case
  proof (cases "po_stack po")
    case Nil
    with inv tree show ?thesis by (subst po_collect_step) auto
  next
    case (Cons x rest)
    have "node_state po x \<le> 2" using po_invD(1) [OF inv] .
    then consider "node_state po x = 0" | "node_state po x = 1" | "node_state po x = 2" by linarith
    then show ?thesis
    proof cases
      case 1
      let ?po = "push_unvisited (succs_of cfg x) (set_visited x po)"
      have "po_collect cfg po = po_collect cfg ?po"
        using Cons 1 by (subst po_collect_step) (simp add: is_unvisited_def)
      moreover have "\<exists>xs po'. po_collect cfg ?po = Some xs \<and> po_stack po' = [] \<and> po_inv (out @ xs) po' \<and> po_tree (out @ xs) po'"
        by (rule IH) (use unvisited_visit [OF inv Cons 1] po_inv_visit [OF inv Cons 1] po_tree_visit [OF inv tree Cons 1] in simp_all)
      ultimately show ?thesis by simp
    next
      case 2
      let ?po = "set_finished x (po\<lparr>po_stack := rest\<rparr>)"
      have "\<exists>xs po'. po_collect cfg ?po = Some xs \<and> po_stack po' = [] \<and> po_inv ((out @ [x]) @ xs) po' \<and> po_tree ((out @ [x]) @ xs) po'"
        by (rule IH) (use unvisited_other(2) [where po = po and x = x and r = rest] po_inv_finish [OF inv Cons 2]
            po_tree_pop(2) [OF inv tree Cons 2] 2 Cons in
            \<open>simp_all add: set_finished_def\<close>)
      then obtain xs po' where "po_collect cfg ?po = Some xs" "po_stack po' = []" "po_inv (out @ x # xs) po'" "po_tree (out @ x # xs) po'" by auto
      with Cons 2 show ?thesis
        by (intro exI [of _ "x # xs"] exI [of _ po']) (subst po_collect_step, simp add: is_unvisited_def has_finished_def)
    next
      case 3
      have "po_collect cfg po = po_collect cfg (po\<lparr>po_stack := rest\<rparr>)"
        using Cons 3 by (subst po_collect_step) (simp add: is_unvisited_def has_finished_def)
      moreover have "\<exists>xs po'. po_collect cfg (po\<lparr>po_stack := rest\<rparr>) = Some xs \<and> po_stack po' = [] \<and> po_inv (out @ xs) po' \<and> po_tree (out @ xs) po'"
        by (rule IH) (use unvisited_other(1) [where po = po and r = rest] po_inv_pop [OF inv Cons 3] po_tree_pop(1) [OF inv tree Cons] Cons in simp_all)
      ultimately show ?thesis by simp
    qed
  qed
qed

lemma po_inv_start: "po_inv [] \<lparr>node_state = (\<lambda>_. 0), po_stack = [e]\<rparr>" "po_tree [] \<lparr>node_state = (\<lambda>_. 0), po_stack = [e]\<rparr>"
proof -
  show "po_inv [] \<lparr>node_state = (\<lambda>_. 0), po_stack = [e]\<rparr>" by (rule po_invI) auto
  show "po_tree [] \<lparr>node_state = (\<lambda>_. 0), po_stack = [e]\<rparr>" by (auto simp: po_tree_def Cons_eq_append_conv)
qed

lemma po_collect_correct:
  "\<exists>xs. po_collect cfg \<lparr>node_state = (\<lambda>_. 0), po_stack = [e]\<rparr> = Some xs \<and> distinct xs \<and> set xs = {b. reach e b} \<and> xs \<noteq> [] \<and> last xs = e
    \<and> (\<forall>pre u post v. xs = pre @ u # post \<and> (u, v) \<in> cfg_edges cfg \<longrightarrow> v \<in> set pre \<or> reach v u)
    \<and> (\<forall>pre x post. xs = pre @ x # post \<and> x \<noteq> e \<longrightarrow> (\<exists>p \<in> set post. (p, x) \<in> cfg_edges cfg))"
proof -
  from po_collect_ends [OF po_inv_start] obtain xs po where
    xs: "po_collect cfg \<lparr>node_state = (\<lambda>_. 0), po_stack = [e]\<rparr> = Some xs" and st: "po_stack po = []"
    and inv: "po_inv xs po" and tree: "po_tree xs po" by auto
  note I = po_invD [OF inv]
  have vis: "node_state po b \<noteq> 0 \<longleftrightarrow> b \<in> set xs" for b
    using I(1) [of b] I(2) [of b] I(4) [of b] st by (cases "node_state po b = 1") auto
  have last: "xs \<noteq> []" "last xs = e" using I(10) st by auto
  have all: "b \<in> set xs" if "reach e b" for b
    using that
  proof (induction rule: rtrancl_induct)
    case base
    show ?case using last last_in_set by blast
  next
    case (step y z)
    from step.IH obtain pre post where "xs = pre @ y # post" by (meson split_list)
    with I(9) [OF this step.hyps(2)] vis [of z] show ?case by auto
  qed
  moreover note all
  moreover have "\<exists>p \<in> set post. (p, x) \<in> cfg_edges cfg" if s: "xs = pre @ x # post" and x: "x \<noteq> e" for pre x post
  proof -
    from tree s x obtain p where p: "reach e p" "p \<notin> set pre" "p \<noteq> x" "(p, x) \<in> cfg_edges cfg" unfolding po_tree_def by blast
    then have "p \<in> set xs" using all by simp
    with p s show ?thesis by auto
  qed
  moreover have "reach e b" if "b \<in> set xs" for b using I(5) [of b] vis [of b] that by blast
  ultimately show ?thesis using xs I(3) last I(9) by (intro exI [of _ xs]) blast
qed

lemma post_order_correct:
  assumes "cfg_entry cfg = Some e"
  shows "\<exists>xs. post_order cfg = Some xs \<and> distinct xs \<and> set xs = {b. reach e b} \<and> xs \<noteq> [] \<and> last xs = e
    \<and> (\<forall>pre u post v. xs = pre @ u # post \<and> (u, v) \<in> cfg_edges cfg \<longrightarrow> v \<in> set pre \<or> reach v u)
    \<and> (\<forall>pre x post. xs = pre @ x # post \<and> x \<noteq> e \<longrightarrow> (\<exists>p \<in> set post. (p, x) \<in> cfg_edges cfg))"
  using po_collect_correct assms by (simp add: post_order_def post_order_new_def)

end

section \<open>The graph of a function\<close>

definition inst_of :: "Function \<Rightarrow> (BlockId \<Rightarrow> InstId list) \<Rightarrow> BlockId \<Rightarrow> inst option" where
  "inst_of func ins b = map_option (\<lambda>i. d_insts (f_dfg func) ! i) (last_opt (ins b))"

definition block_dests :: "inst option \<Rightarrow> BlockId list" where
  "block_dests oi = (case oi of Some i \<Rightarrow> (if is_branch_inst i then dests i else []) | None \<Rightarrow> [])"

definition block_exits :: "inst option \<Rightarrow> bool" where
  "block_exits oi = (case oi of Some i \<Rightarrow> is_terminator i \<and> \<not> is_branch_inst i | None \<Rightarrow> False)"

lemma add_dests_ok:
  "inst_block (f_layout func) inst = Inr b \<Longrightarrow> cfg_ok cfg \<Longrightarrow>
    \<exists>g. add_dests func inst ds cfg = Inr g \<and> cfg_ok g \<and> cfg_edges g = cfg_edges cfg \<union> {b} \<times> set ds
      \<and> cfg_entry g = cfg_entry cfg \<and> exits g = exits cfg"
proof (induction ds arbitrary: cfg)
  case (Cons d ds)
  have "cfg_entry (add_edge b d cfg) = cfg_entry cfg" "exits (add_edge b d cfg) = exits cfg"
    by (simp_all add: add_edge_def upd_node_def)
  with Cons.IH [OF Cons.prems(1) cfg_ok_edits(1) [OF Cons.prems(2), of b d]] Cons.prems(1) show ?case
    by (auto simp: add_edge_edges)
qed simp

lemma cfg_ok_exits [simp]: "cfg_ok (cfg\<lparr>exits := xs\<rparr>) \<longleftrightarrow> cfg_ok cfg" "cfg_edges (cfg\<lparr>exits := xs\<rparr>) = cfg_edges cfg"
  "cfg_ok (cfg\<lparr>cfg_entry := en\<rparr>) \<longleftrightarrow> cfg_ok cfg" "cfg_edges (cfg\<lparr>cfg_entry := en\<rparr>) = cfg_edges cfg"
  by (simp_all add: cfg_ok_def cfg_edges_def)

lemma analyze_inst_ok:
  assumes "inst_block (f_layout func) i = Inr b" "i < length (d_insts (f_dfg func))" "cfg_ok cfg"
  shows "\<exists>g. analyze_inst func i cfg = Inr g \<and> cfg_ok g
    \<and> cfg_edges g = cfg_edges cfg \<union> {b} \<times> set (block_dests (Some (d_insts (f_dfg func) ! i)))
    \<and> cfg_entry g = cfg_entry cfg
    \<and> exits g = exits cfg @ (if block_exits (Some (d_insts (f_dfg func) ! i)) then [b] else [])"
proof -
  let ?i = "d_insts (f_dfg func) ! i"
  let ?cfg = "if is_terminator ?i \<and> \<not> is_branch_inst ?i then cfg\<lparr>exits := exits cfg @ [b]\<rparr> else cfg"
  have "is_exit (f_dfg func) i = Inr (is_terminator ?i \<and> \<not> is_branch_inst ?i)"
    "branch_info (f_dfg func) i = Inr (if is_branch_inst ?i then Some ?i else None)"
    using assms(2) by (simp_all add: is_exit_def dfg_is_terminator_def branch_info_def get_inst_def index_list_def)
  then have a: "analyze_inst func i cfg = (if is_branch_inst ?i then add_dests func i (dests ?i) ?cfg else Inr ?cfg)"
    using assms(1) by (simp add: analyze_inst_def)
  have "cfg_ok ?cfg" using assms(3) by simp
  from add_dests_ok [OF assms(1) this, of "dests ?i"] a assms(3) show ?thesis
    by (auto simp: block_dests_def block_exits_def)
qed

lemma analyze_blocks_ok:
  assumes "function_ok func bs ins"
  shows "set cs \<subseteq> set bs \<Longrightarrow> cfg_ok cfg \<Longrightarrow>
    \<exists>g. analyze_blocks func cs cfg = Inr g \<and> cfg_ok g
      \<and> cfg_edges g = cfg_edges cfg \<union> {(b, d). b \<in> set cs \<and> d \<in> set (block_dests (inst_of func ins b))}
      \<and> cfg_entry g = cfg_entry cfg \<and> exits g = exits cfg @ filter (\<lambda>b. block_exits (inst_of func ins b)) cs"
proof (induction cs arbitrary: cfg)
  case (Cons b cs)
  note v = function_okD(1) [OF assms]
  have li: "last_inst_of (f_layout func) b = Inr (last_opt (ins b))"
    using layout_view_blocks(3) [OF v, of b] layout_view_insts(2) [OF v, of b] Cons.prems(1) by (simp add: last_inst_of_def)
  obtain g1 where g1: "(case last_opt (ins b) of Some i \<Rightarrow> analyze_inst func i cfg | None \<Rightarrow> Inr cfg) = Inr g1" "cfg_ok g1"
    "cfg_edges g1 = cfg_edges cfg \<union> {b} \<times> set (block_dests (inst_of func ins b))" "cfg_entry g1 = cfg_entry cfg"
    "exits g1 = exits cfg @ (if block_exits (inst_of func ins b) then [b] else [])"
  proof (cases "last_opt (ins b)")
    case None
    with Cons.prems(2) that [of cfg] show ?thesis by (simp add: inst_of_def block_dests_def block_exits_def)
  next
    case (Some i)
    then obtain js where i: "ins b = js @ i # []" by (auto simp: last_opt_Some)
    then have mem: "i \<in> set (ins b)" by simp
    have "inst_block (f_layout func) i = Inr b"
      using layout_view_inst_links(3) [OF v i] layout_view_insts(3) [OF v, of i] mem by (auto simp: inst_block_def)
    from analyze_inst_ok [OF this function_okD(3) [OF assms mem] Cons.prems(2)] Some that show ?thesis
      by (auto simp: inst_of_def)
  qed
  from Cons.IH [OF _ g1(2)] Cons.prems(1) obtain g where g: "analyze_blocks func cs g1 = Inr g" "cfg_ok g"
    "cfg_edges g = cfg_edges g1 \<union> {(b, d). b \<in> set cs \<and> d \<in> set (block_dests (inst_of func ins b))}"
    "cfg_entry g = cfg_entry g1" "exits g = exits g1 @ filter (\<lambda>b. block_exits (inst_of func ins b)) cs" by auto
  with li g1 show ?case by (intro exI [of _ g]) auto
qed simp

lemma cfg_clear_ok [simp]: "cfg_ok (cfg_clear cfg)" "cfg_edges (cfg_clear cfg) = {}" "exits (cfg_clear cfg) = []"
  by (simp_all add: cfg_clear_def cfg_ok_def cfg_edges_def)

lemma insts_of_ok: "function_ok func bs ins \<Longrightarrow> b \<in> set bs \<Longrightarrow> insts_of func b = Inr (ins b)"
  using iter_inst_view [OF function_okD(1), of func bs ins b] by (simp add: insts_of_def)

lemma preds_of_edges: "cfg_ok cfg \<Longrightarrow> set (preds_of cfg b) = {a. (a, b) \<in> cfg_edges cfg}"
proof -
  assume ok: "cfg_ok cfg"
  then have "finite (cfg_edges cfg)" by (simp add: cfg_ok_def)
  moreover have p: "preds (cfg_blocks cfg b) = fst ` (cfg_edges cfg \<inter> (UNIV \<times> {b}))" using cfg_okD [OF ok] by force
  ultimately have "finite (preds (cfg_blocks cfg b))" by simp
  then show ?thesis using cfg_okD [OF ok] by (auto simp: preds_of_def)
qed

lemma post_order_of:
  "cfg_ok cfg \<Longrightarrow> cfg_entry cfg = Some e \<Longrightarrow>
     \<exists>po. post_order cfg = Some po \<and> distinct po \<and> set po = {b. (e, b) \<in> (cfg_edges cfg)\<^sup>*}"
  using search.post_order_correct [OF search.intro] by blast

section \<open>Properties\<close>

text \<open>C5: on a well-formed function the computation ends without a fault: the entry is the first block, the
  edges are the destinations of the branches that end the blocks, seen alike from both ends, and
  the exits are the blocks ended by a terminator that is no branch, in layout order. What the
  graph held before does not matter.\<close>
theorem cfg_compute_correct:
  assumes "function_ok func bs ins"
  shows "\<exists>g. cfg_compute func cfg = Some (Inr g) \<and> cfg_ok g \<and> cfg_entry g = hd_opt bs
     \<and> cfg_edges g = {(b, d). b \<in> set bs \<and> d \<in> set (block_dests (inst_of func ins b))}
     \<and> exits g = filter (\<lambda>b. block_exits (inst_of func ins b)) bs"
proof -
  note v = function_okD(1) [OF assms]
  from analyze_blocks_ok [OF assms, of bs "(cfg_clear cfg)\<lparr>cfg_entry := hd_opt bs\<rparr>"]
  show ?thesis using iter_block_view [OF v] layout_view_blocks(1) [OF v] by (auto simp: cfg_compute_def Let_def)
qed

text \<open>Adding, removing and reversing edges keeps predecessors and successors two views of one finite set of
  edges, changed exactly as named.\<close>
theorem cfg_edits_keep_views:
  assumes "cfg_ok cfg"
  shows "cfg_ok (add_edge a b cfg) \<and> cfg_edges (add_edge a b cfg) = insert (a, b) (cfg_edges cfg)
     \<and> cfg_ok (remove_edge a b cfg) \<and> cfg_edges (remove_edge a b cfg) = cfg_edges cfg - {(a, b)}
     \<and> cfg_ok (reverse_edges e xs cfg) \<and> cfg_edges (reverse_edges e xs cfg) = (cfg_edges cfg)\<inverse>"
  using cfg_ok_edits [OF assms] reverse_edges_edges [OF assms] by (simp add: add_edge_edges remove_edge_edges)

text \<open>C6: the post order iterator ends; it yields each block reachable from the entry exactly once and the entry
  last, and a block comes after each of its successors unless the successor leads back to it: on a
  graph without cycles this is a reverse topological order.\<close>
theorem post_order_spec:
  assumes "cfg_ok cfg" and "cfg_entry cfg = Some e"
  shows "\<exists>xs. post_order cfg = Some xs \<and> distinct xs \<and> set xs = {b. (e, b) \<in> (cfg_edges cfg)\<^sup>*} \<and> xs \<noteq> [] \<and> last xs = e
    \<and> (\<forall>pre u post v. xs = pre @ u # post \<and> (u, v) \<in> cfg_edges cfg \<longrightarrow> v \<in> set pre \<or> (v, u) \<in> (cfg_edges cfg)\<^sup>*)"
  using search.post_order_correct [OF search.intro [OF assms(1)] assms(2)] by blast

text \<open>The graph computed for a function is always one that can be searched.\<close>

lemma add_dests_keeps: "add_dests func inst ds cfg = Inr g \<Longrightarrow> cfg_ok cfg \<Longrightarrow> cfg_ok g"
  by (induction ds arbitrary: cfg) (auto dest: cfg_ok_edits(1))

lemma analyze_inst_keeps: "analyze_inst func i cfg = Inr g \<Longrightarrow> cfg_ok cfg \<Longrightarrow> cfg_ok g"
  by (auto simp: analyze_inst_def split: option.splits if_splits elim!: add_dests_keeps)

lemma analyze_blocks_keeps: "analyze_blocks func bs cfg = Inr g \<Longrightarrow> cfg_ok cfg \<Longrightarrow> cfg_ok g"
  by (induction bs arbitrary: cfg) (auto split: option.splits dest: analyze_inst_keeps)

definition graph_of :: "Function \<Rightarrow> ControlFlowGraph" where
  "graph_of func = (case cfg_compute func cfg_new of Some (Inr g) \<Rightarrow> g | _ \<Rightarrow> cfg_new)"

lemma graph_of_ok: "cfg_ok (graph_of func)"
  by (auto simp: graph_of_def cfg_compute_def Let_def split: option.split sum.split dest: analyze_blocks_keeps)

interpretation func_search: search "graph_of func" e for func e
  by unfold_locales (rule graph_of_ok)

text \<open>The graph of the sample function: one edge from block 0 to block 1, which is the exit.\<close>

theorem cfg_compute_correct_witness:
  "\<exists>g. cfg_compute sample_func cfg_new = Some (Inr g) \<and> cfg_entry g = Some 0 \<and> cfg_edges g = {(0, 1)} \<and> exits g = [1]"
proof -
  have i: "inst_of sample_func sample_insts 0 = Some (Jump 1)" "inst_of sample_func sample_insts 1 = Some (Return (Some 1))"
    by (simp_all add: inst_of_def sample_insts_def sample_func_def last_opt_def)
  have e: "{(b, d). b \<in> set [0, 1] \<and> d \<in> set (block_dests (inst_of sample_func sample_insts b))} = {(0, 1)}"
    using i by (auto simp: block_dests_def)
  from cfg_compute_correct [OF sample_func_ok, of cfg_new] i e show ?thesis
    by (auto simp: block_exits_def hd_opt_def)
qed

definition sample_graph :: ControlFlowGraph where
  "sample_graph = add_edge 1 0 (add_edge 0 1 (cfg_new\<lparr>cfg_entry := Some 0\<rparr>))"

lemma sample_graph_ok: "cfg_ok sample_graph" "cfg_edges sample_graph = {(1, 0), (0, 1)}" "cfg_entry sample_graph = Some 0"
  unfolding sample_graph_def
    apply (intro cfg_ok_edits(1))
    apply simp
   apply (simp add: add_edge_edges)
  apply (simp add: add_edge_def upd_node_def)
  done

theorem cfg_edits_keep_views_witness:
  "cfg_ok (remove_edge 1 0 sample_graph) \<and> cfg_edges (remove_edge 1 0 sample_graph) = {(0, 1)}
   \<and> cfg_edges (reverse_edges 1 [0] sample_graph) = {(1, 0), (0, 1)}"
  using cfg_edits_keep_views [OF sample_graph_ok(1), of 1 0 1 "[0]"] by (auto simp: sample_graph_ok(2))

theorem post_order_spec_witness: "post_order sample_graph = Some [1, 0]"
proof -
  from post_order_spec [OF sample_graph_ok(1) sample_graph_ok(3)] obtain xs where
    xs: "post_order sample_graph = Some xs" "distinct xs" "set xs = {b. (0, b) \<in> (cfg_edges sample_graph)\<^sup>*}" "xs \<noteq> []" "last xs = 0" by blast
  have "b \<in> {0, 1}" if "(0, b) \<in> (cfg_edges sample_graph)\<^sup>*" for b
    using that by (induction rule: rtrancl_induct) (auto simp: sample_graph_ok(2))
  moreover have "(0, 1) \<in> (cfg_edges sample_graph)\<^sup>*" by (auto simp: sample_graph_ok(2))
  ultimately have s: "set xs = {0, 1}" using xs(3) by blast
  obtain ys where "xs = ys @ [0]" using xs(4,5) by (metis append_butlast_last_id)
  with s xs(2) have "insert 0 (set ys) = {0, 1}" "0 \<notin> set ys" and d: "distinct ys" by simp_all
  then have "set ys = {0, 1} - {0}" by (metis Diff_insert_absorb)
  then have y: "set ys = {1}" "distinct ys" using d by (auto simp: insert_Diff_if)
  have "ys = [1]"
  proof (cases ys)
    case (Cons y zs)
    with y have "y = 1" "1 \<notin> set zs" "set zs \<subseteq> {1}" by auto
    then have "zs = []" by (cases zs) auto
    with Cons \<open>y = 1\<close> show ?thesis by simp
  qed (use y in simp)
  with xs(1) \<open>xs = ys @ [0]\<close> show ?thesis by simp
qed

end
