(* ===== verification/DomTree.thy ===== *)
theory DomTree
  imports Cfg
begin

text \<open>
  \<open>crates/codegen/src/domtree.rs\<close>: the dominator tree by the iteration of Cooper, Harvey and Kennedy over the
  blocks in reverse post order, the dominance frontiers and the children lists. The iteration is shown to
  end and to compute the immediate dominators; the loops over the tree end as well.
\<close>

section \<open>The tree\<close>

record DomTree =
  doms :: "BlockId \<Rightarrow> BlockId option"
  dt_rpo :: "BlockId list"

definition dt_new :: DomTree where
  "dt_new = \<lparr>doms = (\<lambda>_. None), dt_rpo = []\<rparr>"

definition dt_clear :: "DomTree \<Rightarrow> DomTree" where
  "dt_clear dt = dt\<lparr>doms := (\<lambda>_. None), dt_rpo := []\<rparr>"

definition idom_of :: "DomTree \<Rightarrow> BlockId \<Rightarrow> fault + BlockId option" where
  "idom_of dt block = rbind (index_list (dt_rpo dt) 0) (\<lambda>entry. Inr (if entry = block then None else doms dt block))"

partial_function (option) strict_loop :: "DomTree \<Rightarrow> BlockId \<Rightarrow> BlockId \<Rightarrow> (fault + bool) option" where
  "strict_loop dt block1 current =
     (case idom_of dt current of
        Inl f \<Rightarrow> Some (Inl f)
      | Inr None \<Rightarrow> Some (Inr False)
      | Inr (Some block) \<Rightarrow> if block = block1 then Some (Inr True) else strict_loop dt block1 block)"

definition strictly_dominates :: "DomTree \<Rightarrow> BlockId \<Rightarrow> BlockId \<Rightarrow> fault + bool" where
  "strictly_dominates dt block1 block2 = ended (strict_loop dt block1 block2)"

definition dominates :: "DomTree \<Rightarrow> BlockId \<Rightarrow> BlockId \<Rightarrow> fault + bool" where
  "dominates dt block1 block2 = (if block1 = block2 then Inr True else strictly_dominates dt block1 block2)"

definition is_reachable :: "DomTree \<Rightarrow> BlockId \<Rightarrow> fault + bool" where
  "is_reachable dt block = rbind (idom_of dt block) (\<lambda>d. Inr (d \<noteq> None))"

section \<open>The iteration\<close>

text \<open>The numbers of the blocks: a missing block has number 0, the entry the highest one.\<close>

definition rpo_nums_of :: "BlockId list \<Rightarrow> BlockId \<Rightarrow> nat" where
  "rpo_nums_of rpo = fold (\<lambda>(i, block) m. m(block := length rpo - i)) (enumerate 0 rpo) (\<lambda>_. 0)"

text \<open>The inner loops of \<open>intersect\<close>: up the tree until the number is reached.\<close>

partial_function (option) climb :: "(BlockId \<Rightarrow> BlockId option) \<Rightarrow> (BlockId \<Rightarrow> nat) \<Rightarrow> nat \<Rightarrow> BlockId \<Rightarrow> (fault + BlockId) option" where
  "climb d rpo_nums limit b =
     (if rpo_nums b < limit then (case unwrap (d b) of Inl f \<Rightarrow> Some (Inl f) | Inr b \<Rightarrow> climb d rpo_nums limit b)
      else Some (Inr b))"

partial_function (option) intersect :: "(BlockId \<Rightarrow> BlockId option) \<Rightarrow> (BlockId \<Rightarrow> nat) \<Rightarrow> BlockId \<Rightarrow> BlockId \<Rightarrow> (fault + BlockId) option" where
  "intersect d rpo_nums b1 b2 =
     (if b1 = b2 then Some (Inr b1)
      else case ended (climb d rpo_nums (rpo_nums b2) b1) of
        Inl f \<Rightarrow> Some (Inl f)
      | Inr b1 \<Rightarrow> (case ended (climb d rpo_nums (rpo_nums b1) b2) of
          Inl f \<Rightarrow> Some (Inl f)
        | Inr b2 \<Rightarrow> intersect d rpo_nums b1 b2))"

fun intersect_preds :: "(BlockId \<Rightarrow> BlockId option) \<Rightarrow> (BlockId \<Rightarrow> nat) \<Rightarrow> BlockId \<Rightarrow> BlockId list \<Rightarrow> BlockId \<Rightarrow> fault + BlockId" where
  "intersect_preds d rpo_nums processed_pred [] new_dom = Inr new_dom"
| "intersect_preds d rpo_nums processed_pred (pred # ps) new_dom =
     (if pred \<noteq> processed_pred \<and> d pred \<noteq> None
      then rbind (ended (intersect d rpo_nums new_dom pred)) (intersect_preds d rpo_nums processed_pred ps)
      else intersect_preds d rpo_nums processed_pred ps new_dom)"

fun dom_pass :: "ControlFlowGraph \<Rightarrow> (BlockId \<Rightarrow> nat) \<Rightarrow> BlockId list \<Rightarrow> (BlockId \<Rightarrow> BlockId option) \<times> bool
    \<Rightarrow> fault + ((BlockId \<Rightarrow> BlockId option) \<times> bool)" where
  "dom_pass cfg rpo_nums [] s = Inr s"
| "dom_pass cfg rpo_nums (block # bs) (d, changed) =
     (case find (\<lambda>pred. d pred \<noteq> None) (preds_of cfg block) of
        None \<Rightarrow> dom_pass cfg rpo_nums bs (d, changed)
      | Some processed_pred \<Rightarrow>
          rbind (intersect_preds d rpo_nums processed_pred (preds_of cfg block) processed_pred) (\<lambda>new_dom.
            if Some new_dom \<noteq> d block then dom_pass cfg rpo_nums bs (d(block := Some new_dom), True)
            else dom_pass cfg rpo_nums bs (d, changed)))"

partial_function (option) dom_loop :: "ControlFlowGraph \<Rightarrow> (BlockId \<Rightarrow> nat) \<Rightarrow> BlockId list \<Rightarrow> (BlockId \<Rightarrow> BlockId option)
    \<Rightarrow> (fault + (BlockId \<Rightarrow> BlockId option)) option" where
  "dom_loop cfg rpo_nums bs d =
     (case dom_pass cfg rpo_nums bs (d, False) of
        Inl f \<Rightarrow> Some (Inl f)
      | Inr (d, changed) \<Rightarrow> if changed then dom_loop cfg rpo_nums bs d else Some (Inr d))"

definition dt_compute :: "ControlFlowGraph \<Rightarrow> DomTree \<Rightarrow> fault + DomTree" where
  "dt_compute cfg dt =
     (case post_order cfg of
        None \<Rightarrow> Inl Out_of_fuel
      | Some po \<Rightarrow>
          let rpo = rev po; dt = (dt_clear dt)\<lparr>dt_rpo := rpo\<rparr>; rpo_nums = rpo_nums_of rpo
          in (case rpo of
                [] \<Rightarrow> Inr dt
              | entry # bs \<Rightarrow> rbind (ended (dom_loop cfg rpo_nums bs [entry \<mapsto> entry])) (\<lambda>d. Inr (dt\<lparr>doms := d\<rparr>))))"

section \<open>Dominance frontiers and children\<close>

type_synonym DFSet = "BlockId \<Rightarrow> BlockId set"

partial_function (option) df_runner :: "DomTree \<Rightarrow> BlockId \<Rightarrow> BlockId \<Rightarrow> DFSet \<Rightarrow> (fault + DFSet) option" where
  "df_runner dt block runner df =
     (if Some runner = doms dt block then Some (Inr df)
      else case is_reachable dt runner of
        Inl f \<Rightarrow> Some (Inl f)
      | Inr reachable \<Rightarrow>
          if reachable
          then (case unwrap (doms dt runner) of
             Inl f \<Rightarrow> Some (Inl f)
           | Inr next \<Rightarrow> df_runner dt block next (df(runner := insert block (df runner))))
          else Some (Inr df))"

fun df_preds :: "DomTree \<Rightarrow> BlockId \<Rightarrow> BlockId list \<Rightarrow> DFSet \<Rightarrow> fault + DFSet" where
  "df_preds dt block [] df = Inr df"
| "df_preds dt block (pred # ps) df = rbind (ended (df_runner dt block pred df)) (df_preds dt block ps)"

fun df_blocks :: "DomTree \<Rightarrow> ControlFlowGraph \<Rightarrow> BlockId list \<Rightarrow> DFSet \<Rightarrow> fault + DFSet" where
  "df_blocks dt cfg [] df = Inr df"
| "df_blocks dt cfg (block # bs) df =
     (if pred_num_of cfg block < 2 then df_blocks dt cfg bs df
      else rbind (df_preds dt block (preds_of cfg block) df) (df_blocks dt cfg bs))"

definition compute_df :: "DomTree \<Rightarrow> ControlFlowGraph \<Rightarrow> fault + DFSet" where
  "compute_df dt cfg = df_blocks dt cfg (dt_rpo dt) (\<lambda>_. {})"

definition in_frontier_of :: "DFSet \<Rightarrow> BlockId \<Rightarrow> BlockId \<Rightarrow> bool" where
  "in_frontier_of df block node = (block \<in> df node)"

fun children_from :: "DomTree \<Rightarrow> BlockId list \<Rightarrow> (BlockId \<Rightarrow> BlockId list) \<Rightarrow> fault + (BlockId \<Rightarrow> BlockId list)" where
  "children_from dt [] children = Inr children"
| "children_from dt (block # bs) children = rbind (idom_of dt block) (\<lambda>d. case d of
      Some idom \<Rightarrow> children_from dt bs (children(idom := children idom @ [block]))
    | None \<Rightarrow> children_from dt bs children)"

definition tree_compute :: "DomTree \<Rightarrow> (BlockId \<Rightarrow> BlockId list) \<Rightarrow> fault + (BlockId \<Rightarrow> BlockId list)" where
  "tree_compute dt children = children_from dt (dt_rpo dt) children"

section \<open>Dominance\<close>

text \<open>The definition: \<open>a\<close> dominates \<open>b\<close> if it lies on every path from the entry to \<open>b\<close>.\<close>

definition paths :: "(BlockId \<times> BlockId) set \<Rightarrow> BlockId \<Rightarrow> BlockId \<Rightarrow> BlockId list set" where
  "paths E e b = {p. p \<noteq> [] \<and> hd p = e \<and> last p = b \<and> successively (\<lambda>x y. (x, y) \<in> E) p}"

definition dom_by :: "(BlockId \<times> BlockId) set \<Rightarrow> BlockId \<Rightarrow> BlockId \<Rightarrow> BlockId \<Rightarrow> bool" where
  "dom_by E e a b \<longleftrightarrow> (\<forall>p \<in> paths E e b. a \<in> set p)"

lemma paths_step: "p \<in> paths E e b \<Longrightarrow> (b, c) \<in> E \<Longrightarrow> p @ [c] \<in> paths E e c"
  by (auto simp: paths_def successively_append_iff)

lemma paths_start: "[e] \<in> paths E e e"
  by (simp add: paths_def)

lemma paths_snoc: "p \<in> paths E e c \<Longrightarrow> p = [e] \<and> c = e \<or> (\<exists>q b. p = q @ [c] \<and> q \<in> paths E e b \<and> (b, c) \<in> E)"
proof (cases p rule: rev_cases)
  case (snoc q x)
  assume p: "p \<in> paths E e c"
  with snoc show ?thesis by (cases "q = []") (auto simp: paths_def successively_append_iff)
qed (simp add: paths_def)

lemma paths_reach: "p \<in> paths E e b \<Longrightarrow> (e, b) \<in> E\<^sup>*"
proof (induction p arbitrary: b rule: rev_induct)
  case (snoc x q)
  from paths_snoc [OF snoc.prems] show ?case
  proof
    assume "\<exists>q' b'. q @ [x] = q' @ [b] \<and> q' \<in> paths E e b' \<and> (b', b) \<in> E"
    then obtain b' where "q \<in> paths E e b'" "(b', b) \<in> E" by auto
    with snoc.IH show ?thesis by (meson rtrancl.rtrancl_into_rtrancl)
  qed simp
qed (simp add: paths_def)

lemma reach_paths: "(e, b) \<in> E\<^sup>* \<Longrightarrow> \<exists>p. p \<in> paths E e b"
  by (induction rule: rtrancl_induct) (blast intro: paths_start paths_step)+

lemma dom_by_refl [simp]: "dom_by E e b b"
  by (auto simp: dom_by_def paths_def)

lemma dom_by_entry: "dom_by E e x e \<Longrightarrow> x = e"
  using paths_start [of e E] by (auto simp: dom_by_def)

lemma entry_dom_by [simp]: "dom_by E e e b"
  by (auto simp: dom_by_def paths_def)

lemma dom_by_pred: "dom_by E e x b \<Longrightarrow> x \<noteq> b \<Longrightarrow> (p, b) \<in> E \<Longrightarrow> dom_by E e x p"
  by (fastforce simp: dom_by_def dest: paths_step)

section \<open>The numbering\<close>

lemma rpo_nums_fold:
  "distinct rpo \<Longrightarrow> fold (\<lambda>(i, block) m. m(block := f i)) (enumerate k rpo) m
     = (\<lambda>b. if b \<in> set rpo then f (k + length (takeWhile (\<lambda>x. x \<noteq> b) rpo)) else m b)"
  by (induction rpo arbitrary: k m) auto

lemma rpo_nums_eq:
  "distinct rpo \<Longrightarrow> rpo_nums_of rpo b = (if b \<in> set rpo then length rpo - length (takeWhile (\<lambda>x. x \<noteq> b) rpo) else 0)"
  using rpo_nums_fold [of rpo "\<lambda>i. length rpo - i" 0 "\<lambda>_. 0"] by (simp add: rpo_nums_of_def)

lemma rpo_nums_split: "distinct (as @ x # bs) \<Longrightarrow> rpo_nums_of (as @ x # bs) x = Suc (length bs)"
  by (simp add: rpo_nums_eq takeWhile_append2 del: distinct_append) (auto simp: takeWhile_append)

context search
begin

definition dfs :: "BlockId list" where
  "dfs = rev (the (po_collect cfg \<lparr>node_state = (\<lambda>_. 0), po_stack = [e]\<rparr>))"

lemma dfs_facts:
  shows "po_collect cfg \<lparr>node_state = (\<lambda>_. 0), po_stack = [e]\<rparr> = Some (rev dfs)" "distinct dfs" "set dfs = {b. reach e b}"
    "\<exists>bs. dfs = e # bs" "dfs = pre @ x # post \<Longrightarrow> x \<noteq> e \<Longrightarrow> \<exists>p \<in> set pre. (p, x) \<in> cfg_edges cfg"
proof -
  from po_collect_correct obtain xs where xs: "po_collect cfg \<lparr>node_state = (\<lambda>_. 0), po_stack = [e]\<rparr> = Some xs"
    "distinct xs" "set xs = {b. reach e b}" "xs \<noteq> []" "last xs = e"
    "\<forall>pre x post. xs = pre @ x # post \<and> x \<noteq> e \<longrightarrow> (\<exists>p \<in> set post. (p, x) \<in> cfg_edges cfg)" by blast
  have d: "dfs = rev xs" using xs(1) by (simp add: dfs_def)
  with xs show "po_collect cfg \<lparr>node_state = (\<lambda>_. 0), po_stack = [e]\<rparr> = Some (rev dfs)" "distinct dfs" "set dfs = {b. reach e b}" by auto
  from xs(4,5) show "\<exists>bs. dfs = e # bs" unfolding d by (metis append_butlast_last_id rev_eq_Cons_iff rev_rev_ident)
  assume "dfs = pre @ x # post" "x \<noteq> e"
  then have "xs = rev post @ x # rev pre" unfolding d by (metis append.assoc append_Cons append_Nil rev.simps(2) rev_append rev_rev_ident)
  with xs(6) \<open>x \<noteq> e\<close> show "\<exists>p \<in> set pre. (p, x) \<in> cfg_edges cfg" by (metis set_rev)
qed

abbreviation num :: "BlockId \<Rightarrow> nat" where "num \<equiv> rpo_nums_of dfs"

lemma num_split: "dfs = as @ x # bs \<Longrightarrow> num x = Suc (length bs)"
  using rpo_nums_split [of as x bs] dfs_facts(2) by simp

lemma num_unreached: "\<not> reach e b \<Longrightarrow> num b = 0"
  using dfs_facts(2,3) by (auto simp: rpo_nums_eq)

lemma num_pos: "reach e b \<Longrightarrow> 0 < num b"
  using num_split dfs_facts(3) by (metis mem_Collect_eq split_list zero_less_Suc)

lemma num_earlier: "dfs = as @ x # bs \<Longrightarrow> y \<in> set as \<longleftrightarrow> num x < num y"
proof -
  assume d: "dfs = as @ x # bs"
  note nx = num_split [OF d]
  show "y \<in> set as \<longleftrightarrow> num x < num y"
  proof
    assume "y \<in> set as"
    then obtain us vs where "as = us @ y # vs" by (meson split_list)
    with d have "dfs = us @ y # (vs @ x # bs)" by simp
    from num_split [OF this] nx show "num x < num y" by simp
  next
    assume l: "num x < num y"
    then have "y \<in> set dfs" using num_unreached [of y] dfs_facts(3) by fastforce
    moreover have "y \<notin> set bs"
    proof
      assume "y \<in> set bs"
      then obtain us vs where "bs = us @ y # vs" by (meson split_list)
      with d have "dfs = (as @ x # us) @ y # vs" "length vs < length bs" by simp_all
      from num_split [OF this(1)] this(2) nx l show False by simp
    qed
    ultimately show "y \<in> set as" using d l by auto
  qed
qed

lemma num_inj: "reach e x \<Longrightarrow> num x = num y \<Longrightarrow> x = y"
proof -
  assume x: "reach e x" and n: "num x = num y"
  then have y: "reach e y" using num_unreached [of y] num_pos [of x] by fastforce
  from x obtain as bs where d: "dfs = as @ x # bs" using dfs_facts(3) by (metis mem_Collect_eq split_list)
  have "y \<notin> set as" using num_earlier [OF d] n by simp
  moreover have "y \<notin> set bs"
  proof
    assume "y \<in> set bs"
    then obtain us vs where "bs = us @ y # vs" by (meson split_list)
    with d have "dfs = (as @ x # us) @ y # vs" "length vs < length bs" by simp_all
    from num_split [OF this(1)] this(2) num_split [OF d] n show False by simp
  qed
  ultimately show "x = y" using d y dfs_facts(3) by auto
qed

lemma num_entry: "reach e b \<Longrightarrow> num b \<le> num e"
proof -
  assume b: "reach e b"
  obtain bs where d: "dfs = [] @ e # bs" using dfs_facts(4) by auto
  show ?thesis using num_earlier [OF d, of b] by force
qed

lemma forward_pred: "reach e b \<Longrightarrow> b \<noteq> e \<Longrightarrow> \<exists>p. (p, b) \<in> cfg_edges cfg \<and> reach e p \<and> num b < num p"
proof -
  assume b: "reach e b" "b \<noteq> e"
  then obtain as bs where d: "dfs = as @ b # bs" using dfs_facts(3) by (metis mem_Collect_eq split_list)
  from dfs_facts(5) [OF this b(2)] obtain p where "p \<in> set as" "(p, b) \<in> cfg_edges cfg" by blast
  with d num_earlier [OF d, of p] dfs_facts(3) show ?thesis by (intro exI [of _ p]) auto
qed

abbreviation dominator :: "BlockId \<Rightarrow> BlockId \<Rightarrow> bool" where "dominator \<equiv> dom_by (cfg_edges cfg) e"

lemma num_dominator: "reach e b \<Longrightarrow> dominator x b \<Longrightarrow> num b \<le> num x"
proof (induction b rule: measure_induct_rule [of "\<lambda>b. num e - num b"])
  case (less b)
  show ?case
  proof (cases "x = b \<or> b = e")
    case True
    with less.prems show ?thesis by (auto dest: dom_by_entry)
  next
    case False
    with forward_pred less.prems(1) obtain p where p: "(p, b) \<in> cfg_edges cfg" "reach e p" "num b < num p" by blast
    have "dominator x p" using dom_by_pred [OF less.prems(2) _ p(1)] False by simp
    moreover have "num e - num p < num e - num b" using p(3) num_entry [OF p(2)] by linarith
    ultimately have "num p \<le> num x" using less.IH p(2) by blast
    with p(3) show ?thesis by simp
  qed
qed

end

section \<open>Trees of candidates\<close>

text \<open>
  During the iteration \<open>doms\<close> is a tree over the blocks processed so far, with the entry as its root and
  parents numbered higher than their children; \<open>anc\<close> are the ancestors of a block.
\<close>

context search
begin

definition up :: "(BlockId \<Rightarrow> BlockId option) \<Rightarrow> (BlockId \<times> BlockId) set" where
  "up d = {(x, y). d x = Some y \<and> x \<noteq> e}"

definition anc :: "(BlockId \<Rightarrow> BlockId option) \<Rightarrow> BlockId \<Rightarrow> BlockId set" where
  "anc d b = {y. (b, y) \<in> (up d)\<^sup>*}"

definition tree :: "(BlockId \<Rightarrow> BlockId option) \<Rightarrow> bool" where
  "tree d \<longleftrightarrow> d e = Some e \<and> (\<forall>b x. d b = Some x \<longrightarrow> reach e b \<and> d x \<noteq> None \<and> (b \<noteq> e \<longrightarrow> num b < num x))"

lemma treeD:
  assumes "tree d"
  shows "d e = Some e" "d b = Some x \<Longrightarrow> reach e b" "d b = Some x \<Longrightarrow> \<exists>y. d x = Some y" "d b = Some x \<Longrightarrow> b \<noteq> e \<Longrightarrow> num b < num x"
  using assms by (auto simp: tree_def)

lemma anc_refl [simp]: "b \<in> anc d b"
  by (simp add: anc_def)

lemma anc_trans: "y \<in> anc d b \<Longrightarrow> anc d y \<subseteq> anc d b"
  by (auto simp: anc_def)

lemma anc_entry [simp]: "anc d e = {e}"
  by (auto simp: anc_def up_def elim: converse_rtranclE)

lemma anc_step: "d b = Some y \<Longrightarrow> b \<noteq> e \<Longrightarrow> anc d b = insert b (anc d y)"
  by (auto simp: anc_def up_def elim: converse_rtranclE intro: converse_rtrancl_into_rtrancl)

lemma tree_induct [consumes 2, case_names entry step]:
  assumes "tree d" and "d b = Some x" and "P e"
    and "\<And>b y. d b = Some y \<Longrightarrow> b \<noteq> e \<Longrightarrow> P y \<Longrightarrow> P b"
  shows "P b"
  using assms(2)
proof (induction b arbitrary: x rule: measure_induct_rule [of "\<lambda>b. num e - num b"])
  case (less b)
  show ?case
  proof (cases "b = e")
    case False
    note t = treeD [OF assms(1)]
    from t(3) [OF less.prems] obtain y where y: "d x = Some y" by blast
    have "num b < num x" "num x \<le> num e" using t(4) [OF less.prems False] num_entry t(2) [OF y] by auto
    then have "P x" using less.IH [of x y] y by simp
    with assms(4) less.prems False show ?thesis by blast
  qed (simp add: assms(3))
qed

lemma anc_facts:
  assumes "tree d" and "d b = Some x"
  shows "e \<in> anc d b" "\<forall>y \<in> anc d b. (\<exists>z. d y = Some z) \<and> num b \<le> num y \<and> (num y = num b \<longrightarrow> y = b)"
proof -
  from assms have "e \<in> anc d b \<and> (\<forall>y \<in> anc d b. (\<exists>z. d y = Some z) \<and> num b \<le> num y \<and> (num y = num b \<longrightarrow> y = b))"
  proof (induction rule: tree_induct)
    case entry
    from treeD(1) [OF assms(1)] show ?case by simp
  next
    case (step b y)
    from treeD(4) [OF assms(1) step(1,2)] step show ?case by (fastforce simp: anc_step)
  qed
  then show "e \<in> anc d b" "\<forall>y \<in> anc d b. (\<exists>z. d y = Some z) \<and> num b \<le> num y \<and> (num y = num b \<longrightarrow> y = b)" by blast+
qed

lemma anc_proc: "tree d \<Longrightarrow> d b = Some x \<Longrightarrow> y \<in> anc d b \<Longrightarrow> \<exists>z. d y = Some z"
  and anc_num: "tree d \<Longrightarrow> d b = Some x \<Longrightarrow> y \<in> anc d b \<Longrightarrow> num b \<le> num y"
  and anc_num_eq: "tree d \<Longrightarrow> d b = Some x \<Longrightarrow> y \<in> anc d b \<Longrightarrow> num y = num b \<Longrightarrow> y = b"
  using anc_facts by blast+

lemma anc_linear:
  assumes "tree d" and "d b = Some x"
  shows "y \<in> anc d b \<Longrightarrow> z \<in> anc d b \<Longrightarrow> num y \<le> num z \<Longrightarrow> z \<in> anc d y"
  using assms
proof (induction rule: tree_induct)
  case (step b w)
  show ?case
  proof (cases "y = b")
    case False
    then have "y \<in> anc d w" using step by (simp add: anc_step)
    moreover have "z \<noteq> b" using step(1,2,4,6) False anc_num [OF assms(1) step(1), of y] anc_num_eq [OF assms(1) step(1), of y] by force
    ultimately show ?thesis using step by (simp add: anc_step)
  qed (use step in simp)
qed simp

lemma anc_inj: "tree d \<Longrightarrow> d x = Some x' \<Longrightarrow> d y = Some y' \<Longrightarrow> anc d x = anc d y \<Longrightarrow> x = y"
proof -
  assume t: "tree d" "d x = Some x'" "d y = Some y'" "anc d x = anc d y"
  then have m: "y \<in> anc d x" "x \<in> anc d y" using anc_refl by blast+
  from anc_num [OF t(1,2) m(1)] anc_num [OF t(1,3) m(2)] anc_num_eq [OF t(1,2) m(1)] show "x = y" by simp
qed

subsection \<open>The loops of intersect\<close>

lemma climb_ok:
  assumes "tree d" and "limit \<le> num e" and "d b = Some x"
  shows "\<exists>y. climb d num limit b = Some (Inr y) \<and> y \<in> anc d b \<and> limit \<le> num y
    \<and> (\<forall>z \<in> anc d b. limit \<le> num z \<longrightarrow> z \<in> anc d y) \<and> (limit \<le> num b \<longrightarrow> y = b)"
  using assms(1,3)
proof (induction rule: tree_induct)
  case entry
  show ?case using assms(2) by (subst climb.simps) simp
next
  case (step b y)
  show ?case
  proof (cases "num b < limit")
    case True
    with step show ?thesis by (subst climb.simps) (auto simp: anc_step)
  next
    case False
    then show ?thesis by (subst climb.simps) simp
  qed
qed

lemma intersect_ok:
  assumes "tree d"
  shows "d b1 = Some x1 \<Longrightarrow> d b2 = Some x2 \<Longrightarrow>
    \<exists>f y. intersect d num b1 b2 = Some (Inr f) \<and> d f = Some y \<and> anc d f = anc d b1 \<inter> anc d b2"
proof (induction "num e - num b1 + (num e - num b2)" arbitrary: b1 b2 x1 x2 rule: less_induct)
  case less
  show ?case
  proof (cases "b1 = b2")
    case True
    with less.prems show ?thesis by (subst intersect.simps) simp
  next
    case False
    note r = treeD(2) [OF assms]
    have le: "num b1 \<le> num e" "num b2 \<le> num e" using num_entry r less.prems by blast+
    from climb_ok [OF assms le(2) less.prems(1)] obtain y1 where
      1: "climb d num (num b2) b1 = Some (Inr y1)" "y1 \<in> anc d b1" "num b2 \<le> num y1" "\<forall>z \<in> anc d b1. num b2 \<le> num z \<longrightarrow> z \<in> anc d y1"
        "num b2 \<le> num b1 \<longrightarrow> y1 = b1" by blast
    obtain z1 where z1: "d y1 = Some z1" using anc_proc [OF assms less.prems(1) 1(2)] by blast
    have le1: "num y1 \<le> num e" using num_entry r z1 by blast
    from climb_ok [OF assms le1 less.prems(2)] obtain y2 where
      2: "climb d num (num y1) b2 = Some (Inr y2)" "y2 \<in> anc d b2" "num y1 \<le> num y2" "\<forall>z \<in> anc d b2. num y1 \<le> num z \<longrightarrow> z \<in> anc d y2" by blast
    obtain z2 where z2: "d y2 = Some z2" using anc_proc [OF assms less.prems(2) 2(2)] by blast
    have le2: "num y2 \<le> num e" using num_entry r z2 by blast
    have ne: "num b1 \<noteq> num b2" using False num_inj r less.prems(1) by blast
    have n: "num b1 \<le> num y1" "num b2 \<le> num y2" using anc_num [OF assms less.prems(1) 1(2)] anc_num [OF assms less.prems(2) 2(2)] .
    have "num b1 + num b2 < num y1 + num y2" using n 1(3,5) 2(3) ne by (cases "num b2 \<le> num b1") auto
    then have "num e - num y1 + (num e - num y2) < num e - num b1 + (num e - num b2)" using le1 le2 n by linarith
    from less.hyps [OF this z1 z2] obtain f y where
      f: "intersect d num y1 y2 = Some (Inr f)" "d f = Some y" "anc d f = anc d y1 \<inter> anc d y2" by blast
    have "anc d y1 \<inter> anc d y2 = anc d b1 \<inter> anc d b2"
    proof
      show "anc d y1 \<inter> anc d y2 \<subseteq> anc d b1 \<inter> anc d b2" using anc_trans [OF 1(2)] anc_trans [OF 2(2)] by blast
      show "anc d b1 \<inter> anc d b2 \<subseteq> anc d y1 \<inter> anc d y2"
      proof
        fix z assume z: "z \<in> anc d b1 \<inter> anc d b2"
        have "num b2 \<le> num z" using anc_num [OF assms less.prems(2)] z by blast
        with z 1(4) have "z \<in> anc d y1" by blast
        moreover from anc_num [OF assms z1 this] z 2(4) have "z \<in> anc d y2" by blast
        ultimately show "z \<in> anc d y1 \<inter> anc d y2" by blast
      qed
    qed
    with f False 1(1) 2(1) show ?thesis by (subst intersect.simps) simp
  qed
qed

lemma intersect_preds_ok:
  assumes "tree d"
  shows "d new = Some x \<Longrightarrow> anc d new \<subseteq> anc d pp \<Longrightarrow>
    \<exists>f y. intersect_preds d num pp ps new = Inr f \<and> d f = Some y
      \<and> anc d f = anc d new \<inter> (\<Inter>p \<in> {p \<in> set ps. d p \<noteq> None}. anc d p)"
proof (induction ps arbitrary: new x)
  case (Cons p ps)
  show ?case
  proof (cases "p \<noteq> pp \<and> d p \<noteq> None")
    case True
    then obtain y where p: "d p = Some y" by blast
    from intersect_ok [OF assms Cons.prems(1) p] obtain f z where
      f: "intersect d num new p = Some (Inr f)" "d f = Some z" "anc d f = anc d new \<inter> anc d p" by blast
    have "anc d f \<subseteq> anc d pp" using f(3) Cons.prems(2) by blast
    from Cons.IH [OF f(2) this] True f show ?thesis by auto
  next
    case False
    with Cons.IH [OF Cons.prems] Cons.prems(2) show ?thesis by auto
  qed
qed simp

subsection \<open>A pass\<close>

text \<open>\<open>nca d c f\<close>: the value computed for \<open>c\<close>, the nearest common ancestor of its processed predecessors.\<close>

definition nca :: "(BlockId \<Rightarrow> BlockId option) \<Rightarrow> BlockId \<Rightarrow> BlockId \<Rightarrow> bool" where
  "nca d c f \<longleftrightarrow> d f \<noteq> None \<and> (\<exists>p. (p, c) \<in> cfg_edges cfg \<and> d p \<noteq> None)
     \<and> anc d f = (\<Inter>p \<in> {p. (p, c) \<in> cfg_edges cfg \<and> d p \<noteq> None}. anc d p)"

primrec steps :: "BlockId list \<Rightarrow> (BlockId \<Rightarrow> BlockId option) \<Rightarrow> (BlockId \<Rightarrow> BlockId option) \<Rightarrow> bool" where
  "steps [] d d' \<longleftrightarrow> d' = d"
| "steps (c # bs) d d' \<longleftrightarrow> (\<exists>f. nca d c f \<and> tree (d(c \<mapsto> f)) \<and> steps bs (d(c \<mapsto> f)) d')"

lemma nca_update:
  assumes "tree d" and "nca d c f" and "reach e c" "c \<noteq> e" and r: "(r, c) \<in> cfg_edges cfg" "d r = Some x" "num c < num r"
  shows "num c < num f" "tree (d(c \<mapsto> f))"
proof -
  have "f \<in> anc d r" using assms(2) r anc_refl [of f d] unfolding nca_def by blast
  from anc_num [OF assms(1) r(2) this] r(3) show l: "num c < num f" by simp
  from assms(2) obtain y where "d f = Some y" by (auto simp: nca_def)
  with assms(1,3,4) l show "tree (d(c \<mapsto> f))" unfolding tree_def by auto
qed

lemma dom_pass_ok:
  assumes "dfs = e # as @ bs" and "tree d" and "\<forall>x \<in> set (e # as). d x \<noteq> None"
  shows "\<exists>d'. dom_pass cfg num bs (d, ch) = Inr (d', ch \<or> d' \<noteq> d) \<and> steps bs d d' \<and> tree d' \<and> (\<forall>x. x \<notin> set bs \<longrightarrow> d' x = d x)"
  using assms
proof (induction bs arbitrary: as d ch)
  case Nil
  then show ?case by auto
next
  case (Cons c bs)
  have c: "reach e c" "c \<noteq> e" "c \<notin> set bs" using Cons.prems(1) dfs_facts(2,3) by auto
  have s: "dfs = (e # as) @ c # bs" using Cons.prems(1) by simp
  from dfs_facts(5) [OF s c(2)] obtain r where r: "r \<in> set (e # as)" "(r, c) \<in> cfg_edges cfg" by blast
  then obtain x where x: "d r = Some x" "num c < num r" using Cons.prems(3) num_earlier [OF s] by blast
  have P: "set (preds_of cfg c) = {p. (p, c) \<in> cfg_edges cfg}" by (rule preds_of_edges [OF ok])
  obtain pp where f: "find (\<lambda>p. d p \<noteq> None) (preds_of cfg c) = Some pp"
    using r(2) x(1) P find_None_iff [of "\<lambda>p. d p \<noteq> None" "preds_of cfg c"] by (cases "find (\<lambda>p. d p \<noteq> None) (preds_of cfg c)") auto
  then obtain y where pp: "(pp, c) \<in> cfg_edges cfg" "d pp = Some y" using P by (fastforce simp: find_Some_iff)
  from intersect_preds_ok [OF Cons.prems(2) pp(2) order_refl, of "preds_of cfg c"] obtain f z where
    i: "intersect_preds d num pp (preds_of cfg c) pp = Inr f" "d f = Some z"
      "anc d f = anc d pp \<inter> (\<Inter>p \<in> {p \<in> set (preds_of cfg c). d p \<noteq> None}. anc d p)" by blast
  have n: "nca d c f" unfolding nca_def using i(2,3) pp P by auto
  note t = nca_update(2) [OF Cons.prems(2) n c(1,2) r(2) x]
  let ?d = "d(c \<mapsto> f)"
  have "dfs = e # (as @ [c]) @ bs" "\<forall>x \<in> set (e # as @ [c]). ?d x \<noteq> None" using Cons.prems(1,3) by auto
  from Cons.IH [OF this(1) t this(2), of "ch \<or> ?d \<noteq> d"] obtain d' where
    d': "dom_pass cfg num bs (?d, ch \<or> ?d \<noteq> d) = Inr (d', (ch \<or> ?d \<noteq> d) \<or> d' \<noteq> ?d)" "steps bs ?d d'" "tree d'"
      "\<forall>x. x \<notin> set bs \<longrightarrow> d' x = ?d x" by blast
  have eq: "?d = d" if "d c = Some f" using that by (auto simp: fun_eq_iff)
  have "dom_pass cfg num (c # bs) (d, ch) = dom_pass cfg num bs (?d, ch \<or> ?d \<noteq> d)"
  proof (cases "d c = Some f")
    case True
    from eq [OF this] f i(1) True show ?thesis by simp
  next
    case False
    then have "?d \<noteq> d" by (metis fun_upd_same)
    with False f i(1) show ?thesis by simp
  qed
  moreover have "((ch \<or> ?d \<noteq> d) \<or> d' \<noteq> ?d) = (ch \<or> d' \<noteq> d)"
  proof (cases "?d = d")
    case False
    then have "d c \<noteq> Some f" using eq by blast
    moreover have "d' c = Some f" using d'(4) c(3) by simp
    ultimately have "d' \<noteq> d" by metis
    with False show ?thesis by blast
  qed simp
  ultimately have "dom_pass cfg num (c # bs) (d, ch) = Inr (d', ch \<or> d' \<noteq> d)" unfolding d'(1) by (simp only:)
  moreover have "\<forall>x. x \<notin> set (c # bs) \<longrightarrow> d' x = d x" using d'(4) by auto
  ultimately show ?case using n t d'(2,3) by auto
qed

text \<open>The state seen by \<open>c\<close> within a pass: new values for the blocks before it, old ones from it on.\<close>

definition mix :: "BlockId \<Rightarrow> (BlockId \<Rightarrow> BlockId option) \<Rightarrow> (BlockId \<Rightarrow> BlockId option) \<Rightarrow> BlockId \<Rightarrow> BlockId option" where
  "mix c d d' = (\<lambda>x. if num c < num x then d' x else d x)"

definition pass :: "(BlockId \<Rightarrow> BlockId option) \<Rightarrow> (BlockId \<Rightarrow> BlockId option) \<Rightarrow> bool" where
  "pass d d' \<longleftrightarrow> (\<exists>bs. dfs = e # bs \<and> steps bs d d' \<and> (\<forall>x. x \<notin> set bs \<longrightarrow> d' x = d x)) \<and> tree d \<and> tree d'"

lemma steps_outside: "steps bs d d' \<Longrightarrow> x \<notin> set bs \<Longrightarrow> d' x = d x"
  by (induction bs arbitrary: d) fastforce+

lemma steps_at:
  "steps (as @ c # cs) d d' \<Longrightarrow> distinct (as @ c # cs) \<Longrightarrow> tree d \<Longrightarrow>
    \<exists>m f. nca m c f \<and> d' c = Some f \<and> tree m \<and> (\<forall>x. x \<notin> set (c # cs) \<longrightarrow> m x = d' x) \<and> (\<forall>x. x \<notin> set as \<longrightarrow> m x = d x)"
proof (induction as arbitrary: d)
  case Nil
  then obtain f where f: "nca d c f" "steps cs (d(c \<mapsto> f)) d'" by auto
  from steps_outside [OF f(2)] Nil f(1) show ?case by (intro exI [of _ d] exI [of _ f]) auto
next
  case (Cons a as)
  then obtain f where "nca d a f" "tree (d(a \<mapsto> f))" "steps (as @ c # cs) (d(a \<mapsto> f)) d'" by auto
  from Cons.IH [OF this(3) _ this(2)] Cons.prems(2) obtain m g where
    "nca m c g" "d' c = Some g" "tree m" "\<forall>x. x \<notin> set (c # cs) \<longrightarrow> m x = d' x" "\<forall>x. x \<notin> set as \<longrightarrow> m x = (d(a \<mapsto> f)) x" by auto
  then show ?case by (intro exI [of _ m] exI [of _ g]) auto
qed

lemma pass_at:
  assumes "pass d d'" and "reach e c" and "c \<noteq> e"
  shows "\<exists>f. d' c = Some f \<and> nca (mix c d d') c f \<and> tree (mix c d d')"
proof -
  from assms(1) obtain bs where b: "dfs = e # bs" "steps bs d d'" "tree d" by (auto simp: pass_def)
  from assms(2,3) b(1) dfs_facts(3) have "c \<in> set bs" by auto
  then obtain as cs where bs: "bs = as @ c # cs" by (meson split_list)
  with b(1) have d: "dfs = (e # as) @ c # cs" by simp
  have dist: "distinct (as @ c # cs)" "e \<notin> set (as @ c # cs)" using d dfs_facts(2) by auto
  from steps_at [OF b(2) [unfolded bs] dist(1) b(3)] obtain m f where
    m: "nca m c f" "d' c = Some f" "tree m" "\<forall>x. x \<notin> set (c # cs) \<longrightarrow> m x = d' x" "\<forall>x. x \<notin> set as \<longrightarrow> m x = d x" by blast
  have "m x = mix c d d' x" for x
  proof (cases "num c < num x")
    case True
    then have "x \<in> set (e # as)" using num_earlier [OF d, of x] by simp
    then have "x \<notin> set (c # cs)" using dist by auto
    with m(4) True show ?thesis by (simp add: mix_def)
  next
    case False
    then have "x \<notin> set as" using num_earlier [OF d, of x] by auto
    with m(5) False show ?thesis by (simp add: mix_def)
  qed
  then have "m = mix c d d'" by blast
  with m(1-3) show ?thesis by blast
qed

subsection \<open>Values only move up\<close>

text \<open>
  From one pass to the next a block's new parent is an ancestor, in the new tree, of its old parent. This is what
  makes the iteration end. It depends on the order of a pass: every block has a predecessor before it.
\<close>

definition rises :: "(BlockId \<Rightarrow> BlockId option) \<Rightarrow> (BlockId \<Rightarrow> BlockId option) \<Rightarrow> bool" where
  "rises d d' \<longleftrightarrow> (\<forall>x y. d x = Some y \<and> x \<noteq> e \<longrightarrow> (\<exists>y'. d' x = Some y' \<and> y' \<in> anc d' y))"

lemma rises_anc:
  assumes "tree d" and "d p = Some q" and "rises d d'"
  shows "anc d' p \<subseteq> anc d p"
  using assms(1,2)
proof (induction rule: tree_induct)
  case (step p y)
  from assms(3) step(1,2) obtain y' where y': "d' p = Some y'" "y' \<in> anc d' y" unfolding rises_def by blast
  have "anc d' p = insert p (anc d' y')" by (rule anc_step, rule y'(1), rule step(2))
  also have "\<dots> \<subseteq> insert p (anc d' y)" using anc_trans [OF y'(2)] by blast
  also have "\<dots> \<subseteq> anc d p" using step by (auto simp: anc_step)
  finally show ?case .
qed simp

lemma anc_mix:
  assumes "tree d'" and "d' b = Some x" and "num c < num b"
  shows "anc (mix c d d') b = anc d' b"
  using assms
proof (induction rule: tree_induct)
  case (step b y)
  have "num c < num y" using treeD(4) [OF assms(1) step(1,2)] step(4) by simp
  moreover have "mix c d d' b = Some y" using step(1,4) by (simp add: mix_def)
  ultimately show ?case using step by (simp add: anc_step)
qed simp

lemma rises_mix_left: "rises d d' \<Longrightarrow> rises (mix c d d') d'"
  unfolding rises_def mix_def by (metis anc_refl)

lemma rises_mix_right:
  assumes "tree d" and "tree d'" and "\<And>x y. num c < num x \<Longrightarrow> d x = Some y \<Longrightarrow> x \<noteq> e \<Longrightarrow> \<exists>y'. d' x = Some y' \<and> y' \<in> anc d' y"
    and proc: "\<And>x. d x \<noteq> None \<Longrightarrow> d' x \<noteq> None"
  shows "rises d (mix c d d')"
  unfolding rises_def
proof (intro allI impI)
  fix x y
  assume x: "d x = Some y \<and> x \<noteq> e"
  show "\<exists>y'. mix c d d' x = Some y' \<and> y' \<in> anc (mix c d d') y"
  proof (cases "num c < num x")
    case True
    with assms(3) x obtain y' where y': "d' x = Some y'" "y' \<in> anc d' y" by blast
    have "num c < num y" using treeD(4) [OF assms(1), of x y] x True by simp
    moreover obtain z where "d' y = Some z" using treeD(3) [OF assms(1), of x y] x proc by blast
    ultimately have "anc (mix c d d') y = anc d' y" using anc_mix [OF assms(2)] by blast
    with y' True show ?thesis by (simp add: mix_def)
  next
    case False
    with x show ?thesis by (simp add: mix_def)
  qed
qed

lemma rises_chain:
  assumes "tree d" and "d r = Some q" and "f \<in> anc d r" and "num c < num r"
    and "\<And>x y. num c < num x \<Longrightarrow> d x = Some y \<Longrightarrow> x \<noteq> e \<Longrightarrow> \<exists>y'. d' x = Some y' \<and> y' \<in> anc d' y"
  shows "z \<in> anc d' r \<Longrightarrow> num f \<le> num z \<Longrightarrow> z \<in> anc d' f"
  using assms(1-4)
proof (induction rule: tree_induct)
  case entry
  then show ?case by simp
next
  case (step r y)
  show ?case
  proof (cases "f = r")
    case False
    then have f: "f \<in> anc d y" using step by (simp add: anc_step)
    have cy: "num c < num y" using treeD(4) [OF assms(1) step(1,2)] step by simp
    obtain y' where y': "d' r = Some y'" "y' \<in> anc d' y" using assms(5) [OF _ step(1,2)] step by blast
    have "num r < num f"
      using anc_num [OF assms(1) step(1), of f] anc_num_eq [OF assms(1) step(1), of f] step False by fastforce
    then have "z \<noteq> r" using step by auto
    then have "z \<in> anc d' y'" using step anc_step [where d = d' and b = r and y = y'] y'(1) by simp
    then have "z \<in> anc d' y" using anc_trans [OF y'(2)] by blast
    with step f cy show ?thesis by blast
  qed (use step in simp)
qed

lemma pass_rises:
  assumes p0: "pass d0 d" and r0: "rises d0 d" and p1: "pass d d'"
  shows "rises d d'"
proof -
  note t = p0 [unfolded pass_def, THEN conjunct2] p1 [unfolded pass_def, THEN conjunct2]
  have t0: "tree d0" "tree d" "tree d'" using t by simp_all
  have proc: "d' x \<noteq> None" if "d x \<noteq> None" for x
  proof -
    from that treeD(2) [OF t0(2)] have "reach e x" by blast
    with pass_at [OF p1 this] treeD(1) [OF t0(3)] show ?thesis by (cases "x = e") auto
  qed
  have "\<exists>y'. d' c = Some y' \<and> y' \<in> anc d' f" if "d c = Some f" "c \<noteq> e" for c f
    using that
  proof (induction c arbitrary: f rule: measure_induct_rule [of "\<lambda>c. num e - num c"])
    case (less c)
    have rc: "reach e c" using treeD(2) [OF t0(2) less.prems(1)] .
    have early: "\<exists>y'. d' x = Some y' \<and> y' \<in> anc d' y" if "num c < num x" "d x = Some y" "x \<noteq> e" for x y
    proof (rule less.IH)
      have "num x \<le> num e" using num_entry treeD(2) [OF t0(2) that(2)] by blast
      with that(1) show "num e - num x < num e - num c" by linarith
    qed (use that in simp_all)
    let ?m = "mix c d0 d" and ?m' = "mix c d d'"
    have rise': "rises d ?m'" by (rule rises_mix_right [OF t0(2,3) early proc])
    from pass_at [OF p0 rc less.prems(2)] less.prems(1) have n: "nca ?m c f" "tree ?m" by simp_all
    from pass_at [OF p1 rc less.prems(2)] obtain f' where n': "d' c = Some f'" "nca ?m' c f'" "tree ?m'" by blast
    have f: "num c < num f" "\<exists>y. d f = Some y"
      using treeD(4) [OF t0(2) less.prems] treeD(3) [OF t0(2) less.prems(1)] by auto
    have sub: "anc ?m' p \<subseteq> anc ?m p" "?m' p \<noteq> None" if mp: "?m p \<noteq> None" for p
    proof -
      from mp obtain q where q: "?m p = Some q" by blast
      have "\<exists>q'. d p = Some q'"
      proof (cases "num c < num p \<or> p = e")
        case True
        with q treeD(1) [OF t0(2)] show ?thesis by (auto simp: mix_def split: if_splits)
      next
        case False
        with q r0 show ?thesis unfolding rises_def mix_def by auto
      qed
      then obtain q' where q': "d p = Some q'" by blast
      have "anc ?m' p \<subseteq> anc d p" by (rule rises_anc [OF t0(2) q' rise'])
      also have "\<dots> \<subseteq> anc ?m p" by (rule rises_anc [OF n(2) q rises_mix_left [OF r0]])
      finally show "anc ?m' p \<subseteq> anc ?m p" .
      from proc [of p] q' show "?m' p \<noteq> None" by (auto simp: mix_def)
    qed
    have "f' \<in> anc ?m' f'" by simp
    then have in_all: "f' \<in> anc ?m' p" if "(p, c) \<in> cfg_edges cfg" "?m p \<noteq> None" for p
      using n'(2) sub(2) [OF that(2)] that(1) unfolding nca_def by blast
    then have "f' \<in> anc ?m f" using n(1) sub(1) unfolding nca_def by blast
    moreover have "anc ?m f = anc d f" using anc_mix [OF t0(2) _ f(1)] f(2) by blast
    ultimately have fd: "f' \<in> anc d f" by simp
    from forward_pred [OF rc less.prems(2)] obtain r where r: "(r, c) \<in> cfg_edges cfg" "reach e r" "num c < num r" by blast
    have "d r \<noteq> None" using pass_at [OF p0 r(2)] treeD(1) [OF t0(2)] by (cases "r = e") auto
    then obtain q where q: "d r = Some q" by blast
    then have mr: "?m r \<noteq> None" "anc ?m r = anc d r" using r(3) anc_mix [OF t0(2) q r(3)] by (simp_all add: mix_def)
    then have "f \<in> anc d r" using n(1) r(1) anc_refl [of f ?m] unfolding nca_def by blast
    moreover obtain q' where q': "d' r = Some q'" using proc [of r] q by blast
    then have "f' \<in> anc d' r" using in_all [OF r(1) mr(1)] anc_mix [OF t0(3) q' r(3)] by simp
    moreover obtain y where "d f = Some y" using f(2) by blast
    then have "num f \<le> num f'" using anc_num [OF t0(2) _ fd] by blast
    ultimately have "f' \<in> anc d' f" using rises_chain [OF t0(2) q _ r(3) early] by blast
    with n'(1) show ?case by blast
  qed
  then show ?thesis by (simp add: rises_def)
qed

subsection \<open>No dominator is lost\<close>

definition keeps_doms :: "(BlockId \<Rightarrow> BlockId option) \<Rightarrow> bool" where
  "keeps_doms d \<longleftrightarrow> (\<forall>b y x. d b = Some y \<and> b \<noteq> e \<and> dominator x b \<and> x \<noteq> b \<longrightarrow> dominator x y)"

lemma dominator_anc:
  assumes "tree d" and "d b = Some y" and "keeps_doms d"
  shows "dominator x b \<Longrightarrow> x \<in> anc d b \<and> (\<forall>z \<in> anc d b. num z \<le> num x \<longrightarrow> dominator x z)"
  using assms(1,2)
proof (induction rule: tree_induct)
  case entry
  from dom_by_entry [OF entry] show ?case by simp
next
  case (step b y)
  show ?case
  proof (cases "x = b")
    case True
    with anc_num_eq [OF assms(1) step(1)] anc_num [OF assms(1) step(1)] show ?thesis by fastforce
  next
    case False
    with assms(3) step have "dominator x y" unfolding keeps_doms_def by blast
    with step False show ?thesis by (simp add: anc_step)
  qed
qed

lemma keeps_doms_update:
  assumes "tree d" and "keeps_doms d" and "nca d c f"
  shows "keeps_doms (d(c \<mapsto> f))"
proof -
  have "dominator x f" if x: "dominator x c" "x \<noteq> c" for x
  proof -
    have dp: "dominator x p" if "(p, c) \<in> cfg_edges cfg" for p using dom_by_pred [OF x that] .
    from assms(3) obtain p q where p: "(p, c) \<in> cfg_edges cfg" "d p = Some q" unfolding nca_def by blast
    have "x \<in> anc d p'" if "(p', c) \<in> cfg_edges cfg" "d p' \<noteq> None" for p'
      using that(2) dominator_anc [OF assms(1) _ assms(2) dp [OF that(1)]] by blast
    then have "x \<in> anc d f" using assms(3) unfolding nca_def by blast
    moreover obtain y where "d f = Some y" using assms(3) unfolding nca_def by blast
    ultimately have "num f \<le> num x" using anc_num [OF assms(1)] by blast
    moreover have "f \<in> anc d p" using assms(3) p anc_refl [of f d] unfolding nca_def by blast
    ultimately show ?thesis using dominator_anc [OF assms(1) p(2) assms(2) dp [OF p(1)]] by blast
  qed
  with assms(2) show ?thesis by (auto simp: keeps_doms_def)
qed

lemma keeps_doms_steps: "steps bs d d' \<Longrightarrow> tree d \<Longrightarrow> keeps_doms d \<Longrightarrow> keeps_doms d'"
  by (induction bs arbitrary: d) (auto intro: keeps_doms_update)

subsection \<open>The fixed point\<close>

definition good :: "(BlockId \<Rightarrow> BlockId option) \<Rightarrow> bool" where
  "good d \<longleftrightarrow> keeps_doms d \<and> (\<exists>d0. pass d0 d \<and> rises d0 d)"

lemma pass_proc: "pass d0 d \<Longrightarrow> reach e b \<Longrightarrow> \<exists>y. d b = Some y"
  using pass_at [of d0 d b] treeD(1) [of d] by (cases "b = e") (auto simp: pass_def)

lemma dom_pass_good:
  assumes "dfs = e # bs" and "tree d" and "keeps_doms d"
  shows "\<exists>d'. dom_pass cfg num bs (d, False) = Inr (d', d' \<noteq> d) \<and> pass d d' \<and> keeps_doms d'"
proof -
  have "dfs = e # [] @ bs" "\<forall>x \<in> set (e # []). d x \<noteq> None" using assms(1) treeD(1) [OF assms(2)] by auto
  from dom_pass_ok [OF this(1) assms(2) this(2), of False] obtain d' where
    "dom_pass cfg num bs (d, False) = Inr (d', d' \<noteq> d)" "steps bs d d'" "tree d'" "\<forall>x. x \<notin> set bs \<longrightarrow> d' x = d x" by auto
  with assms keeps_doms_steps show ?thesis by (auto simp: pass_def)
qed

definition height :: "(BlockId \<Rightarrow> BlockId option) \<Rightarrow> nat" where
  "height d = (\<Sum>b \<in> set dfs. num (the (d b)))"

lemma height_bound: "pass d0 d \<Longrightarrow> height d \<le> length dfs * num e"
proof -
  assume p: "pass d0 d"
  then have t: "tree d" by (simp add: pass_def)
  have "num (the (d b)) \<le> num e" if "b \<in> set dfs" for b
  proof -
    from that dfs_facts(3) pass_proc [OF p] obtain y where y: "d b = Some y" by blast
    then obtain z where "d y = Some z" using treeD(3) [OF t] by blast
    with y num_entry treeD(2) [OF t] show ?thesis by simp
  qed
  then have "height d \<le> card (set dfs) * num e" unfolding height_def using sum_bounded_above [of "set dfs" "\<lambda>b. num (the (d b))" "num e"] by simp
  with dfs_facts(2) show ?thesis by (simp add: distinct_card)
qed

lemma height_grows:
  assumes "good d" and "pass d d'" and "d' \<noteq> d"
  shows "height d < height d'"
proof -
  from assms(1) obtain d0 where d0: "pass d0 d" "rises d0 d" by (auto simp: good_def)
  have r: "rises d d'" by (rule pass_rises [OF d0 assms(2)])
  have t: "tree d" "tree d'" using assms(2) by (auto simp: pass_def)
  have le: "num (the (d b)) \<le> num (the (d' b)) \<and> (num (the (d b)) = num (the (d' b)) \<longrightarrow> d' b = d b)" if "b \<in> set dfs" for b
  proof (cases "b = e")
    case False
    from that dfs_facts(3) pass_proc [OF d0(1)] obtain y where y: "d b = Some y" by blast
    with r False obtain y' where y': "d' b = Some y'" "y' \<in> anc d' y" unfolding rises_def by blast
    obtain z where z: "d y = Some z" using treeD(3) [OF t(1) y] by blast
    then obtain z' where "d' y = Some z'" using pass_proc [OF assms(2)] treeD(2) [OF t(1)] by blast
    from anc_num [OF t(2) this y'(2)] anc_num_eq [OF t(2) this y'(2)] y y' show ?thesis by auto
  qed (use treeD(1) [OF t(1)] treeD(1) [OF t(2)] in simp)
  obtain b where b: "d' b \<noteq> d b" using assms(3) by blast
  have "b \<in> set dfs" using assms(2) b by (auto simp: pass_def)
  with le b show ?thesis unfolding height_def by (intro sum_strict_mono_ex1) (auto simp: order.order_iff_strict)
qed

lemma dom_loop_good:
  assumes "dfs = e # bs"
  shows "good d \<Longrightarrow> \<exists>d'. dom_loop cfg num bs d = Some (Inr d') \<and> good d' \<and> pass d' d'"
proof (induction "length dfs * num e - height d" arbitrary: d rule: less_induct)
  case less
  from less.prems obtain d0 where d0: "pass d0 d" "rises d0 d" "keeps_doms d" "tree d" by (auto simp: good_def pass_def)
  from dom_pass_good [OF assms d0(4,3)] obtain d' where
    d': "dom_pass cfg num bs (d, False) = Inr (d', d' \<noteq> d)" "pass d d'" "keeps_doms d'" by blast
  show ?case
  proof (cases "d' = d")
    case True
    with d' less.prems show ?thesis by (intro exI [of _ d]) (subst dom_loop.simps, simp)
  next
    case False
    have "good d'" using d' pass_rises [OF d0(1,2) d'(2)] by (auto simp: good_def)
    moreover have "length dfs * num e - height d' < length dfs * num e - height d"
      using height_grows [OF less.prems d'(2) False] height_bound [OF d'(2)] by linarith
    ultimately show ?thesis using less.hyps d'(1) False by (subst dom_loop.simps) simp
  qed
qed

lemma dom_loop_start:
  assumes "dfs = e # bs"
  shows "\<exists>d. dom_loop cfg num bs [e \<mapsto> e] = Some (Inr d) \<and> good d \<and> pass d d"
proof -
  have t: "tree [e \<mapsto> e]" by (auto simp: tree_def split: if_splits)
  have k: "keeps_doms [e \<mapsto> e]" "rises [e \<mapsto> e] d" for d by (auto simp: keeps_doms_def rises_def split: if_splits)
  from dom_pass_good [OF assms t k(1)] obtain d where
    d: "dom_pass cfg num bs ([e \<mapsto> e], False) = Inr (d, d \<noteq> [e \<mapsto> e])" "pass [e \<mapsto> e] d" "keeps_doms d" by blast
  then have g: "good d" using k(2) by (auto simp: good_def)
  show ?thesis
  proof (cases "d = [e \<mapsto> e]")
    case True
    with d g show ?thesis by (intro exI [of _ d]) (subst dom_loop.simps, simp)
  next
    case False
    with dom_loop_good [OF assms g] d(1) show ?thesis by (subst dom_loop.simps) simp
  qed
qed

lemma fixed_point_doms:
  assumes "good d" and "pass d d" and "reach e b"
  shows "anc d b = {a. dominator a b}"
proof
  have mix: "mix c d d = d" for c by (auto simp: mix_def)
  have sub: "p \<in> paths (cfg_edges cfg) e c \<Longrightarrow> anc d c \<subseteq> set p" for p c
  proof (induction p arbitrary: c rule: rev_induct)
    case (snoc x q)
    show ?case
    proof (cases "c = e")
      case True
      with snoc.prems show ?thesis by (auto simp: paths_def)
    next
      case False
      with paths_snoc [OF snoc.prems] obtain b' where
        b': "x = c" "q \<in> paths (cfg_edges cfg) e b'" "(b', c) \<in> cfg_edges cfg" by auto
      have r: "reach e b'" "reach e c" using paths_reach b'(2) snoc.prems by blast+
      from pass_at [OF assms(2) r(2) False] obtain f where f: "d c = Some f" "nca d c f" unfolding mix by blast
      obtain y where "d b' = Some y" using pass_proc [OF assms(2) r(1)] by blast
      then have "anc d f \<subseteq> anc d b'" using f(2) b'(3) unfolding nca_def by blast
      with snoc.IH [OF b'(2)] anc_step [where d = d, OF f(1) False] b'(1) show ?thesis by auto
    qed
  qed (simp add: paths_def)
  then show "anc d b \<subseteq> {a. dominator a b}" unfolding dom_by_def by blast
  obtain y where y: "d b = Some y" using pass_proc [OF assms(2,3)] by blast
  from assms(1,2) have "tree d" "keeps_doms d" by (auto simp: good_def pass_def)
  from dominator_anc [OF this(1) y this(2)] show "{a. dominator a b} \<subseteq> anc d b" by blast
qed

lemma idom_facts:
  assumes "good d" and "pass d d" and "reach e b" and "b \<noteq> e"
  shows "\<exists>y. d b = Some y \<and> y \<noteq> b \<and> dominator y b \<and> (\<forall>a. dominator a b \<and> a \<noteq> b \<longrightarrow> dominator a y)"
proof -
  from assms(2) have t: "tree d" by (simp add: pass_def)
  obtain y where y: "d b = Some y" using pass_proc [OF assms(2,3)] by blast
  have "num b < num y" using treeD(4) [OF t y assms(4)] .
  moreover obtain z where "d y = Some z" using treeD(3) [OF t y] by blast
  then have "reach e y" by (rule treeD(2) [OF t])
  then have "anc d y = {a. dominator a y}" by (rule fixed_point_doms [OF assms(1,2)])
  moreover have "anc d b = {a. dominator a b}" by (rule fixed_point_doms [OF assms(1-3)])
  ultimately show ?thesis using y anc_step [where d = d, OF y assms(4)] anc_refl [of y d] by (intro exI [of _ y]) auto
qed

subsection \<open>The computed tree\<close>

definition tree_of :: "DomTree \<Rightarrow> bool" where
  "tree_of dt \<longleftrightarrow> dt_rpo dt = dfs \<and> good (doms dt) \<and> pass (doms dt) (doms dt)"

lemma dt_compute_ok:
  assumes "cfg_entry cfg = Some e"
  shows "\<exists>dt'. dt_compute cfg dt = Inr dt' \<and> tree_of dt'"
proof -
  obtain bs where bs: "dfs = e # bs" using dfs_facts(4) by blast
  from dom_loop_start [OF bs] obtain d where d: "dom_loop cfg num bs [e \<mapsto> e] = Some (Inr d)" "good d" "pass d d" by blast
  have "post_order cfg = Some (rev dfs)" using dfs_facts(1) assms by (simp add: post_order_def post_order_new_def)
  then have "dt_compute cfg dt = Inr (dt\<lparr>doms := d, dt_rpo := dfs\<rparr>)" using d(1) bs by (simp add: dt_compute_def dt_clear_def)
  with d show ?thesis by (simp add: tree_of_def)
qed

lemma tree_ofD:
  assumes "tree_of dt"
  shows "idom_of dt b = Inr (if b = e then None else doms dt b)" "tree (doms dt)" "reach e b \<Longrightarrow> \<exists>y. doms dt b = Some y"
    "reach e b \<Longrightarrow> anc (doms dt) b = {a. dominator a b}" "doms dt b = Some y \<Longrightarrow> reach e b"
    "is_reachable dt b = Inr (b \<noteq> e \<and> reach e b)"
proof -
  obtain bs where bs: "dfs = e # bs" using dfs_facts(4) by blast
  from assms have p: "dt_rpo dt = dfs" "good (doms dt)" "pass (doms dt) (doms dt)" by (simp_all add: tree_of_def)
  show id: "idom_of dt b = Inr (if b = e then None else doms dt b)" for b using p(1) bs by (simp add: idom_of_def index_list_def)
  show t: "tree (doms dt)" using p(3) by (simp add: pass_def)
  show pr: "reach e b \<Longrightarrow> \<exists>y. doms dt b = Some y" for b by (rule pass_proc [OF p(3)])
  show "reach e b \<Longrightarrow> anc (doms dt) b = {a. dominator a b}" by (rule fixed_point_doms [OF p(2,3)])
  show r: "doms dt b = Some y \<Longrightarrow> reach e b" for b y by (rule treeD(2) [OF t])
  have "doms dt b \<noteq> None \<longleftrightarrow> reach e b" using pr r by blast
  then show "is_reachable dt b = Inr (b \<noteq> e \<and> reach e b)" by (auto simp: is_reachable_def id)
qed

lemma strict_loop_ok:
  assumes "tree_of dt" and "doms dt b = Some y"
  shows "strict_loop dt a b = Some (Inr (a \<noteq> b \<and> a \<in> anc (doms dt) b))"
  using tree_ofD(2) [OF assms(1)] assms(2)
proof (induction rule: tree_induct)
  case entry
  show ?case using tree_ofD(1) [OF assms(1), of e] by (subst strict_loop.simps) simp
next
  case (step b y)
  have "num b < num y" using treeD(4) [OF tree_ofD(2) [OF assms(1)] step(1,2)] .
  moreover obtain z where z: "doms dt y = Some z" using treeD(3) [OF tree_ofD(2) [OF assms(1)] step(1)] by blast
  then have "b \<notin> anc (doms dt) y" using anc_num [OF tree_ofD(2) [OF assms(1)] z] \<open>num b < num y\<close> by fastforce
  ultimately show ?case using step tree_ofD(1) [OF assms(1), of b] anc_refl [of y "doms dt"]
    by (subst strict_loop.simps) (auto simp: anc_step)
qed

lemma dominates_ok:
  assumes "tree_of dt" and "reach e b"
  shows "strictly_dominates dt a b = Inr (a \<noteq> b \<and> dominator a b)" "dominates dt a b = Inr (dominator a b)"
proof -
  obtain y where "doms dt b = Some y" using tree_ofD(3) [OF assms] by blast
  from strict_loop_ok [OF assms(1) this, of a] tree_ofD(4) [OF assms] show "strictly_dominates dt a b = Inr (a \<noteq> b \<and> dominator a b)"
    by (simp add: strictly_dominates_def)
  then show "dominates dt a b = Inr (dominator a b)" by (simp add: dominates_def)
qed

lemma df_runner_ok:
  assumes "tree_of dt" and "doms dt p = Some q" and stop: "doms dt block = Some s"
  shows "s \<in> anc (doms dt) p \<Longrightarrow> df_runner dt block p df
    = Some (Inr (\<lambda>x. if x \<in> anc (doms dt) p - anc (doms dt) s then insert block (df x) else df x))"
  using tree_ofD(2) [OF assms(1)] assms(2)
proof (induction arbitrary: df rule: tree_induct)
  case entry
  with stop show ?case by (subst df_runner.simps) (auto simp: fun_eq_iff)
next
  case (step p y)
  note t = tree_ofD(2) [OF assms(1)]
  show ?case
  proof (cases "p = s")
    case True
    with stop show ?thesis by (subst df_runner.simps) (auto simp: fun_eq_iff)
  next
    case False
    have r: "is_reachable dt p = Inr True" using tree_ofD(5) [OF assms(1) step(1)] tree_ofD(6) [OF assms(1), of p] step(2) by simp
    have s: "s \<in> anc (doms dt) y" using step False by (simp add: anc_step)
    obtain z where z: "doms dt y = Some z" using treeD(3) [OF t step(1)] by blast
    obtain z' where z': "doms dt s = Some z'" using anc_proc [OF t z s] by blast
    have "num p < num s" using treeD(4) [OF t step(1,2)] anc_num [OF t z s] by simp
    then have "p \<notin> anc (doms dt) s" "p \<notin> anc (doms dt) y"
      using anc_num [OF t z', of p] anc_num [OF t z, of p] treeD(4) [OF t step(1,2)] by fastforce+
    moreover have "df_runner dt block p df = df_runner dt block y (df(p := insert block (df p)))"
      using False stop r step(1) by (subst df_runner.simps) simp
    ultimately show ?thesis using step.IH [OF s] step(1,2) by (auto simp: anc_step fun_eq_iff)
  qed
qed

lemma df_preds_ok:
  assumes "tree_of dt" and "doms dt block = Some s" and "\<forall>p \<in> set ps. reach e p \<longrightarrow> s \<in> anc (doms dt) p"
  shows "df_preds dt block ps df
    = Inr (\<lambda>x. if \<exists>p \<in> set ps. reach e p \<and> x \<in> anc (doms dt) p - anc (doms dt) s then insert block (df x) else df x)"
  using assms(3)
proof (induction ps arbitrary: df)
  case (Cons p ps)
  have "df_runner dt block p df = Some (Inr (\<lambda>x. if reach e p \<and> x \<in> anc (doms dt) p - anc (doms dt) s then insert block (df x) else df x))"
  proof (cases "reach e p")
    case True
    then obtain q where "doms dt p = Some q" using tree_ofD(3) [OF assms(1)] by blast
    from df_runner_ok [OF assms(1) this assms(2)] Cons.prems True show ?thesis by simp
  next
    case False
    then have "is_reachable dt p = Inr False" using tree_ofD(6) [OF assms(1)] by simp
    moreover have "p \<noteq> s" using treeD(3) [OF tree_ofD(2) [OF assms(1)] assms(2)] tree_ofD(5) [OF assms(1)] False by blast
    ultimately show ?thesis using assms(2) False by (subst df_runner.simps) simp
  qed
  moreover have "\<forall>p \<in> set ps. reach e p \<longrightarrow> s \<in> anc (doms dt) p" using Cons.prems by simp
  ultimately show ?case using Cons.IH by (auto simp: fun_eq_iff)
qed simp

text \<open>The frontier a block adds to: the blocks that dominate one of its predecessors but not it strictly.\<close>

definition frontier :: "BlockId \<Rightarrow> BlockId \<Rightarrow> bool" where
  "frontier a b \<longleftrightarrow> (\<exists>p. (p, b) \<in> cfg_edges cfg \<and> reach e p \<and> dominator a p \<and> \<not> (a \<noteq> b \<and> dominator a b))"

lemma block_frontier:
  assumes "tree_of dt" and "reach e b" and "b \<noteq> e" and "doms dt b = Some s"
  shows "\<forall>p. (p, b) \<in> cfg_edges cfg \<and> reach e p \<longrightarrow> s \<in> anc (doms dt) p"
    "frontier a b \<longleftrightarrow> (\<exists>p. (p, b) \<in> cfg_edges cfg \<and> reach e p \<and> a \<in> anc (doms dt) p - anc (doms dt) s)"
    "frontier a b \<Longrightarrow> \<not> pred_num_of cfg b < 2"
proof -
  note t = tree_ofD(2) [OF assms(1)]
  have mix: "mix b (doms dt) (doms dt) = doms dt" by (auto simp: mix_def)
  have "nca (doms dt) b s" using pass_at [OF _ assms(2,3), of "doms dt" "doms dt"] assms(1,4) unfolding mix tree_of_def by auto
  moreover have "{p. (p, b) \<in> cfg_edges cfg \<and> doms dt p \<noteq> None} = {p. (p, b) \<in> cfg_edges cfg \<and> reach e p}"
    using tree_ofD(3,5) [OF assms(1)] by blast
  ultimately have n: "anc (doms dt) s = (\<Inter>p \<in> {p. (p, b) \<in> cfg_edges cfg \<and> reach e p}. anc (doms dt) p)" by (simp add: nca_def)
  then show "\<forall>p. (p, b) \<in> cfg_edges cfg \<and> reach e p \<longrightarrow> s \<in> anc (doms dt) p" using anc_refl [of s "doms dt"] by blast
  obtain z where z: "doms dt s = Some z" using treeD(3) [OF t assms(4)] by blast
  have "b \<notin> anc (doms dt) s" using anc_num [OF t z, of b] treeD(4) [OF t assms(4,3)] by fastforce
  then have sd: "a \<noteq> b \<and> dominator a b \<longleftrightarrow> a \<in> anc (doms dt) s" for a
    using tree_ofD(4) [OF assms(1,2)] anc_step [where d = "doms dt", OF assms(4,3)] by auto
  then show f: "frontier a b \<longleftrightarrow> (\<exists>p. (p, b) \<in> cfg_edges cfg \<and> reach e p \<and> a \<in> anc (doms dt) p - anc (doms dt) s)"
    using tree_ofD(4) [OF assms(1)] by (auto simp: frontier_def)
  assume "frontier a b"
  with f obtain p where p: "(p, b) \<in> cfg_edges cfg" "reach e p" "a \<in> anc (doms dt) p" "a \<notin> anc (doms dt) s" by blast
  show "\<not> pred_num_of cfg b < 2"
  proof
    assume "pred_num_of cfg b < 2"
    moreover have "finite (preds (cfg_blocks cfg b))" "p \<in> preds (cfg_blocks cfg b)"
    proof -
      have "preds (cfg_blocks cfg b) \<subseteq> fst ` cfg_edges cfg" using cfg_okD [OF ok] by force
      then show "finite (preds (cfg_blocks cfg b))" using ok by (meson cfg_ok_def finite_imageI finite_subset)
      show "p \<in> preds (cfg_blocks cfg b)" using cfg_okD [OF ok] p(1) by simp
    qed
    ultimately have "preds (cfg_blocks cfg b) = {p}" unfolding pred_num_of_def
      by (metis One_nat_def card_1_singletonE card_gt_0_iff empty_iff less_2_cases less_numeral_extra(3) singletonD)
    then have "(p', b) \<in> cfg_edges cfg \<longleftrightarrow> p' = p" for p' using cfg_okD [OF ok, of p' b] by simp
    with n p(2) have "anc (doms dt) s = anc (doms dt) p" by auto
    with p show False by blast
  qed
qed

text \<open>What the computation finds: it visits only blocks with two predecessors and stops before the
  entry, so the entry is in the frontier of no block when a single edge leads back to it, and never
  in its own.\<close>

definition found_frontier :: "BlockId \<Rightarrow> BlockId \<Rightarrow> bool" where
  "found_frontier a b \<longleftrightarrow> frontier a b \<and> (b = e \<longrightarrow> a \<noteq> e \<and> 2 \<le> pred_num_of cfg b)"

lemma entry_frontier:
  assumes "tree_of dt"
  shows "frontier a e \<longleftrightarrow> (\<exists>p. (p, e) \<in> cfg_edges cfg \<and> reach e p \<and> a \<in> anc (doms dt) p)"
proof -
  have "dominator a e \<longleftrightarrow> a = e" for a using tree_ofD(4) [OF assms, of e] anc_entry [of "doms dt"] by auto
  then show ?thesis using tree_ofD(4) [OF assms] by (auto simp: frontier_def)
qed

lemma df_blocks_ok:
  assumes "tree_of dt"
  shows "set bs \<subseteq> set dfs \<Longrightarrow> \<exists>df'. df_blocks dt cfg bs df = Inr df'
    \<and> (\<forall>a b. b \<in> df' a \<longleftrightarrow> b \<in> df a \<or> b \<in> set bs \<and> found_frontier a b)"
proof (induction bs arbitrary: df)
  case (Cons b bs)
  have rb: "reach e b" using Cons.prems dfs_facts(3) by auto
  then obtain s where s: "doms dt b = Some s" using tree_ofD(3) [OF assms] by blast
  note bf = block_frontier [OF assms rb _ s]
  have e: "s = e" if "b = e" using that s treeD(1) [OF tree_ofD(2) [OF assms]] by simp
  have "\<forall>p \<in> set (preds_of cfg b). reach e p \<longrightarrow> s \<in> anc (doms dt) p"
  proof (cases "b = e")
    case True
    have "e \<in> anc (doms dt) p" if "reach e p" for p using anc_facts(1) [OF tree_ofD(2) [OF assms]] tree_ofD(3) [OF assms that] by blast
    with e [OF True] show ?thesis by simp
  qed (use bf(1) preds_of_edges [OF ok] in auto)
  note pr = df_preds_ok [OF assms s this]
  obtain df1 where df1: "df_blocks dt cfg (b # bs) df = df_blocks dt cfg bs df1"
    "\<forall>a b'. b' \<in> df1 a \<longleftrightarrow> b' \<in> df a \<or> b' = b \<and> found_frontier a b"
  proof (cases "pred_num_of cfg b < 2")
    case True
    with bf(3) have "\<not> found_frontier a b" for a by (cases "b = e") (auto simp: found_frontier_def)
    with True that [of df] show ?thesis by auto
  next
    case False
    let ?df = "\<lambda>x. if \<exists>p \<in> set (preds_of cfg b). reach e p \<and> x \<in> anc (doms dt) p - anc (doms dt) s then insert b (df x) else df x"
    have "df_blocks dt cfg (b # bs) df = df_blocks dt cfg bs ?df" using False pr by simp
    moreover have "found_frontier a b \<longleftrightarrow> (\<exists>p \<in> set (preds_of cfg b). reach e p \<and> a \<in> anc (doms dt) p - anc (doms dt) s)" for a
    proof (cases "b = e")
      case True
      with e [OF True] False show ?thesis
        using entry_frontier [OF assms, of a] preds_of_edges [OF ok, of e] by (auto simp: found_frontier_def)
    next
      case no: False
      with bf(2) [OF no, of a] preds_of_edges [OF ok, of b] show ?thesis by (auto simp: found_frontier_def)
    qed
    then have "b' \<in> ?df a \<longleftrightarrow> b' \<in> df a \<or> b' = b \<and> found_frontier a b" for a b' by auto
    ultimately show ?thesis using that by blast
  qed
  from Cons.IH [of df1] Cons.prems obtain df' where
    "df_blocks dt cfg bs df1 = Inr df'" "\<forall>a b. b \<in> df' a \<longleftrightarrow> b \<in> df1 a \<or> b \<in> set bs \<and> found_frontier a b" by auto
  with df1 show ?case by auto
qed simp

end

lemma children_from_ok:
  "\<forall>b \<in> set bs. idom_of dt b = Inr (f b) \<Longrightarrow>
     children_from dt bs ch = Inr (\<lambda>a. ch a @ filter (\<lambda>b. f b = Some a) bs)"
  by (induction bs arbitrary: ch) (auto split: option.split simp: fun_eq_iff)

section \<open>Properties\<close>

text \<open>C11: For every well-formed graph the iteration ends and computes the dominator tree: the order it keeps lists the
  blocks reachable from the entry once each, and the immediate dominator of a reachable block other than
  the entry lies on every path to it, differs from it, and is dominated by every other strict dominator; the
  entry and the unreachable blocks have none.\<close>
theorem dom_tree_correct:
  assumes "cfg_ok cfg" and "cfg_entry cfg = Some e"
  shows "\<exists>dt'. dt_compute cfg dt = Inr dt' \<and> distinct (dt_rpo dt') \<and> set (dt_rpo dt') = {b. (e, b) \<in> (cfg_edges cfg)\<^sup>*}
    \<and> (\<forall>b. (e, b) \<in> (cfg_edges cfg)\<^sup>* \<and> b \<noteq> e \<longrightarrow>
         (\<exists>d. idom_of dt' b = Inr (Some d) \<and> d \<noteq> b \<and> dom_by (cfg_edges cfg) e d b
            \<and> (\<forall>a. dom_by (cfg_edges cfg) e a b \<and> a \<noteq> b \<longrightarrow> dom_by (cfg_edges cfg) e a d)))
    \<and> (\<forall>b. b = e \<or> (e, b) \<notin> (cfg_edges cfg)\<^sup>* \<longrightarrow> idom_of dt' b = Inr None)"
proof -
  note s = search.intro [OF assms(1)]
  obtain dt' where dt: "dt_compute cfg dt = Inr dt'" "search.tree_of cfg e dt'" using search.dt_compute_ok [OF s assms(2)] by blast
  then have t: "dt_rpo dt' = search.dfs cfg e" "search.good cfg e (doms dt')" "search.pass cfg e (doms dt') (doms dt')"
    by (simp_all add: search.tree_of_def [OF s])
  have "idom_of dt' b = Inr None" if "b = e \<or> (e, b) \<notin> (cfg_edges cfg)\<^sup>*" for b
    using that search.tree_ofD(1,5) [OF s dt(2), of b] by (cases "doms dt' b") auto
  moreover have "\<exists>d. idom_of dt' b = Inr (Some d) \<and> d \<noteq> b \<and> dom_by (cfg_edges cfg) e d b
      \<and> (\<forall>a. dom_by (cfg_edges cfg) e a b \<and> a \<noteq> b \<longrightarrow> dom_by (cfg_edges cfg) e a d)" if "(e, b) \<in> (cfg_edges cfg)\<^sup>*" "b \<noteq> e" for b
    using search.idom_facts [OF s t(2,3) that] search.tree_ofD(1) [OF s dt(2), of b] that(2) by auto
  ultimately show ?thesis using dt(1) t(1) search.dfs_facts(2,3) [OF s, of e] by (intro exI [of _ dt']) simp
qed

text \<open>C14: Walking up the computed tree decides dominance: for a reachable block both queries end and answer whether
  the first block lies on every path from the entry to the second, the strict one also that they differ.
  The reachability query answers for every block but the entry, which it calls unreachable,
  contrary to its comment.\<close>
theorem dominates_decides:
  assumes "cfg_ok cfg" and "cfg_entry cfg = Some e" and "(e, b) \<in> (cfg_edges cfg)\<^sup>*"
  shows "\<exists>dt'. dt_compute cfg dt = Inr dt' \<and> dominates dt' a b = Inr (dom_by (cfg_edges cfg) e a b)
    \<and> strictly_dominates dt' a b = Inr (a \<noteq> b \<and> dom_by (cfg_edges cfg) e a b)
    \<and> (\<forall>c. is_reachable dt' c = Inr (c \<noteq> e \<and> (e, c) \<in> (cfg_edges cfg)\<^sup>*))"
proof -
  note s = search.intro [OF assms(1)]
  obtain dt' where dt: "dt_compute cfg dt = Inr dt'" "search.tree_of cfg e dt'" using search.dt_compute_ok [OF s assms(2)] by blast
  from search.dominates_ok [OF s dt(2) assms(3)] search.tree_ofD(6) [OF s dt(2)] dt(1) show ?thesis by auto
qed

text \<open>C16: The dominance frontiers are those of the definition for every block but the entry: a block is in the frontier
  of another exactly if that one dominates one of its reachable predecessors but does not strictly dominate it.
  The entry, to which edges may lead back, is missing from its own frontier, and from all of them
  when it has fewer than two predecessors.\<close>
theorem dominance_frontiers:
  assumes "cfg_ok cfg" and "cfg_entry cfg = Some e"
  shows "\<exists>dt' df. dt_compute cfg dt = Inr dt' \<and> compute_df dt' cfg = Inr df
    \<and> (\<forall>a b. in_frontier_of df b a = ((\<exists>p. (p, b) \<in> cfg_edges cfg \<and> (e, p) \<in> (cfg_edges cfg)\<^sup>*
           \<and> dom_by (cfg_edges cfg) e a p \<and> \<not> (a \<noteq> b \<and> dom_by (cfg_edges cfg) e a b))
         \<and> (b = e \<longrightarrow> a \<noteq> e \<and> 2 \<le> card {p. (p, e) \<in> cfg_edges cfg})))"
proof -
  note s = search.intro [OF assms(1)]
  obtain dt' where dt: "dt_compute cfg dt = Inr dt'" "search.tree_of cfg e dt'" using search.dt_compute_ok [OF s assms(2)] by blast
  then have r: "dt_rpo dt' = search.dfs cfg e" by (simp add: search.tree_of_def [OF s])
  from search.df_blocks_ok [OF s dt(2) order_refl, of "\<lambda>_. {}"] r obtain df where
    df: "compute_df dt' cfg = Inr df" "\<forall>a b. b \<in> df a \<longleftrightarrow> b \<in> set (search.dfs cfg e) \<and> search.found_frontier cfg e a b"
    by (auto simp: compute_df_def)
  have "b \<in> set (search.dfs cfg e)" if "search.found_frontier cfg e a b" for a b
    using that search.dfs_facts(3) [OF s, of e]
    by (auto simp: search.found_frontier_def [OF s] search.frontier_def [OF s] intro: rtrancl_into_rtrancl)
  with df(2) have "in_frontier_of df b a = search.found_frontier cfg e a b" for a b by (auto simp: in_frontier_of_def)
  moreover have "pred_num_of cfg b = card {p. (p, b) \<in> cfg_edges cfg}" for b
  proof -
    have "preds (cfg_blocks cfg b) = {p. (p, b) \<in> cfg_edges cfg}" using cfg_okD [OF assms(1)] by auto
    then show ?thesis by (simp add: pred_num_of_def)
  qed
  ultimately show ?thesis using df(1) dt(1)
    by (intro exI [of _ dt'] exI [of _ df]) (auto simp: search.frontier_def [OF s] search.found_frontier_def [OF s])
qed

theorem dom_tree_correct_witness: "\<exists>dt'. dt_compute sample_graph dt_new = Inr dt' \<and> idom_of dt' 1 = Inr (Some 0) \<and> idom_of dt' 0 = Inr None"
proof -
  from dom_tree_correct [OF sample_graph_ok(1,3), of dt_new] obtain dt' where
    c: "dt_compute sample_graph dt_new = Inr dt'" and
    i: "\<forall>b. (0, b) \<in> (cfg_edges sample_graph)\<^sup>* \<and> b \<noteq> 0 \<longrightarrow> (\<exists>d. idom_of dt' b = Inr (Some d) \<and> d \<noteq> b
        \<and> dom_by (cfg_edges sample_graph) 0 d b \<and> (\<forall>a. dom_by (cfg_edges sample_graph) 0 a b \<and> a \<noteq> b \<longrightarrow> dom_by (cfg_edges sample_graph) 0 a d))" and
    n: "\<forall>b. b = 0 \<or> (0, b) \<notin> (cfg_edges sample_graph)\<^sup>* \<longrightarrow> idom_of dt' b = Inr None" by (elim exE conjE)
  have "(0, 1) \<in> (cfg_edges sample_graph)\<^sup>* \<and> 1 \<noteq> (0 :: nat)" by (auto simp: sample_graph_ok(2))
  from i [rule_format, OF this] obtain d where d: "idom_of dt' 1 = Inr (Some d)" "d \<noteq> 1" "dom_by (cfg_edges sample_graph) 0 d 1" by (elim exE conjE)
  have "[0, 1] \<in> paths (cfg_edges sample_graph) 0 1" by (simp add: paths_def sample_graph_ok(2))
  with d(3) have "d \<in> set [0, 1]" unfolding dom_by_def by (rule bspec)
  with d(2) have "d = 0" by simp
  with d(1) have "idom_of dt' 1 = Inr (Some 0)" by simp
  with c n show ?thesis by (intro exI [of _ dt']) simp
qed

theorem dominates_decides_witness:
  "\<exists>dt'. dt_compute sample_graph dt_new = Inr dt' \<and> dominates dt' 0 1 = Inr True \<and> is_reachable dt' 0 = Inr False"
proof -
  have r: "(0, 1) \<in> (cfg_edges sample_graph)\<^sup>*" by (auto simp: sample_graph_ok(2))
  from dominates_decides [OF sample_graph_ok(1,3) r, of dt_new 0] show ?thesis by auto
qed

text \<open>A diamond with an edge back to its top.\<close>

definition sample_diamond :: ControlFlowGraph where
  "sample_diamond = add_edge 3 0 (add_edge 2 3 (add_edge 1 3 (add_edge 0 2 (add_edge 0 1 (cfg_new\<lparr>cfg_entry := Some 0\<rparr>)))))"

lemma sample_diamond_ok:
  "cfg_ok sample_diamond" "cfg_edges sample_diamond = {(3, 0), (2, 3), (1, 3), (0, 2), (0, 1)}" "cfg_entry sample_diamond = Some 0"
proof -
  show "cfg_ok sample_diamond" unfolding sample_diamond_def by (intro cfg_ok_edits(1)) simp
qed (simp_all add: sample_diamond_def add_edge_edges, simp add: add_edge_def upd_node_def)

theorem dominance_frontiers_witness:
  "\<exists>dt' df. dt_compute sample_diamond dt_new = Inr dt' \<and> compute_df dt' sample_diamond = Inr df
     \<and> in_frontier_of df 3 1 \<and> in_frontier_of df 3 2 \<and> \<not> in_frontier_of df 3 0 \<and> \<not> in_frontier_of df 0 3"
proof -
  let ?E = "cfg_edges sample_diamond"
  from dominance_frontiers [OF sample_diamond_ok(1,3), of dt_new] obtain dt' df where
    d: "dt_compute sample_diamond dt_new = Inr dt'" "compute_df dt' sample_diamond = Inr df"
      "\<And>a b. in_frontier_of df b a = ((\<exists>p. (p, b) \<in> ?E \<and> (0, p) \<in> ?E\<^sup>*
         \<and> dom_by ?E 0 a p \<and> \<not> (a \<noteq> b \<and> dom_by ?E 0 a b)) \<and> (b = 0 \<longrightarrow> a \<noteq> 0 \<and> 2 \<le> card {p. (p, 0) \<in> ?E}))" by blast
  have p: "[0, 1, 3] \<in> paths ?E 0 3" "[0, 2, 3] \<in> paths ?E 0 3" by (simp_all add: paths_def sample_diamond_ok(2))
  have n: "\<not> dom_by ?E 0 1 3" "\<not> dom_by ?E 0 2 3" using p by (fastforce simp: dom_by_def)+
  have r: "(0, 1) \<in> ?E\<^sup>*" "(0, 2) \<in> ?E\<^sup>*" by (auto simp: sample_diamond_ok(2))
  have e: "(1, 3) \<in> ?E" "(2, 3) \<in> ?E" by (simp_all add: sample_diamond_ok(2))
  have "in_frontier_of df 3 1" unfolding d(3) using n(1) r(1) e(1) dom_by_refl by fastforce
  moreover have "in_frontier_of df 3 2" unfolding d(3) using n(2) r(2) e(2) dom_by_refl by fastforce
  moreover have "dom_by ?E 0 0 3" unfolding dom_by_def paths_def using hd_in_set by fastforce
  then have "\<not> in_frontier_of df 3 0" unfolding d(3) by simp
  moreover have "{p. (p, 0) \<in> ?E} = {3}" by (auto simp: sample_diamond_ok(2))
  then have "\<not> in_frontier_of df 0 3" unfolding d(3) by simp
  ultimately show ?thesis using d(1,2) by blast
qed

end
