(* ===== verification/SymStack.thy ===== *)
theory SymStack
  imports Cursor "HOL-Library.Multiset"
begin

text \<open>
  \<open>crates/codegen/src/stackalloc/stackify/sym_stack.rs\<close> and the actions of
  \<open>crates/codegen/src/stackalloc/mod.rs\<close>: the symbolic operand stack the stack allocator plans
  with. Every operation that emits actions is shown to be a simulation: running the emitted
  actions takes a concrete stack that the symbolic stack describes to one that the new symbolic
  stack describes.
\<close>

section \<open>Actions\<close>

datatype StackAction =
    StackDup nat
  | StackSwap nat
  | Push Immediate
  | PushContinuationOffset
  | PopTop
  | MemLoadAbs nat
  | MemLoadFrameSlot nat
  | MemStoreAbs nat
  | MemStoreFrameSlot nat
  | MemLoadObj nat
  | MemStoreObj nat

type_synonym Actions = "StackAction list"

section \<open>The symbolic stack\<close>

text \<open>\<open>SymStack\<close> is a struct with the one field \<open>items\<close>, top first.\<close>

datatype StackItem = Value ValueId | FuncRetAddr | CallRetAddr

type_synonym SymStack = "StackItem list"

record BlockTemplate =
  params :: "ValueId list"
  transfer :: "ValueId list"

abbreviation (input) DUP_MAX :: nat where "DUP_MAX \<equiv> 16"
abbreviation (input) SWAP_DEPTH_MAX :: nat where "SWAP_DEPTH_MAX \<equiv> 16"
abbreviation (input) SWAP_WINDOW_MAX :: nat where "SWAP_WINDOW_MAX \<equiv> 17"

text \<open>\<open>Iterator::position\<close>\<close>

fun position :: "('a \<Rightarrow> bool) \<Rightarrow> 'a list \<Rightarrow> nat option" where
  "position P [] = None"
| "position P (x # xs) = (if P x then Some 0 else map_option Suc (position P xs))"

definition entry_stack :: "Function \<Rightarrow> bool \<Rightarrow> SymStack" where
  "entry_stack func has_internal_return =
     map Value (arg_values func) @ (if has_internal_return then [FuncRetAddr] else [])"

definition from_template :: "BlockTemplate \<Rightarrow> bool \<Rightarrow> SymStack" where
  "from_template template has_internal_return =
     map Value (params template @ transfer template) @ (if has_internal_return then [FuncRetAddr] else [])"

definition func_ret_index :: "SymStack \<Rightarrow> nat option" where
  "func_ret_index s = position (\<lambda>i. i = FuncRetAddr) s"

definition len_above_func_ret :: "SymStack \<Rightarrow> nat" where
  "len_above_func_ret s = (case func_ret_index s of Some i \<Rightarrow> i | None \<Rightarrow> length s)"

definition common_suffix_len :: "ValueId list \<Rightarrow> SymStack \<Rightarrow> nat" where
  "common_suffix_len desired s =
     length (takeWhile (\<lambda>(item, want). item = Value want)
       (zip (rev (take (len_above_func_ret s) s)) (rev desired)))"

definition item_at :: "nat \<Rightarrow> SymStack \<Rightarrow> StackItem option" where
  "item_at idx s = (if idx < length s then Some (s ! idx) else None)"

definition find_reachable_value :: "ValueId \<Rightarrow> nat \<Rightarrow> SymStack \<Rightarrow> nat option" where
  "find_reachable_value v max_depth s =
     position (\<lambda>i. i = Value v) (take (min (len_above_func_ret s) max_depth) s)"

definition find_reachable_value_from :: "ValueId \<Rightarrow> nat \<Rightarrow> nat \<Rightarrow> SymStack \<Rightarrow> nat option" where
  "find_reachable_value_from v start max_depth s =
     (let limit = min (len_above_func_ret s) max_depth
      in map_option (\<lambda>off. start + off) (position (\<lambda>i. i = Value v) (take (limit - start) (drop start s))))"

definition push_value :: "ValueId \<Rightarrow> SymStack \<Rightarrow> SymStack" where
  "push_value v s = Value v # s"

definition rename_top_value :: "ValueId \<Rightarrow> SymStack \<Rightarrow> fault + SymStack" where
  "rename_top_value v s = (case s of
       Value _ # rest \<Rightarrow> Inr (Value v # rest)
     | _ \<Rightarrow> Inl (Panic ''expected StackItem::Value on top of stack''))"

definition rename_value_at_depth :: "nat \<Rightarrow> ValueId \<Rightarrow> SymStack \<Rightarrow> fault + SymStack" where
  "rename_value_at_depth depth v s =
     rbind (assert_that (depth < len_above_func_ret s) ''depth < self.len_above_func_ret()'') (\<lambda>_.
     case item_at depth s of
       Some (Value _) \<Rightarrow> Inr (s[depth := Value v])
     | _ \<Rightarrow> Inl (Panic ''expected StackItem::Value at depth''))"

definition pop_operand :: "SymStack \<Rightarrow> fault + SymStack" where
  "pop_operand s = (case s of
       FuncRetAddr # _ \<Rightarrow> Inl (Panic ''attempted to pop below function return barrier'')
     | _ # rest \<Rightarrow> Inr rest
     | [] \<Rightarrow> Inl (Panic ''stack underflow''))"

primrec pop_n_operands :: "nat \<Rightarrow> SymStack \<Rightarrow> fault + SymStack" where
  "pop_n_operands 0 s = Inr s"
| "pop_n_operands (Suc n) s = rbind (pop_operand s) (pop_n_operands n)"

definition replace_above_func_ret :: "StackItem list \<Rightarrow> SymStack \<Rightarrow> SymStack" where
  "replace_above_func_ret new_items s = (case func_ret_index s of
       None \<Rightarrow> new_items
     | Some ret_pos \<Rightarrow> new_items @ drop ret_pos s)"

definition push_call_ret_addr :: "SymStack \<Rightarrow> SymStack" where
  "push_call_ret_addr s = CallRetAddr # s"

definition remove_call_ret_addr :: "SymStack \<Rightarrow> fault + SymStack" where
  "remove_call_ret_addr s = (case position (\<lambda>i. i = CallRetAddr) s of
       None \<Rightarrow> Inl (Panic ''expected StackItem::CallRetAddr'')
     | Some pos \<Rightarrow> Inr (take pos s @ drop (Suc pos) s))"

section \<open>Operations that emit actions\<close>

text \<open>They take the stack and the list of actions, both \<open>&mut\<close>.\<close>

type_synonym planned = "SymStack \<times> Actions"

definition push_imm :: "ValueId \<Rightarrow> Immediate \<Rightarrow> planned \<Rightarrow> planned" where
  "push_imm stack_as imm = (\<lambda>(s, actions). (push_value stack_as s, actions @ [Push imm]))"

definition stk_dup :: "nat \<Rightarrow> planned \<Rightarrow> fault + planned" where
  "stk_dup pos = (\<lambda>(s, actions).
     rbind (assert_that (pos < DUP_MAX) ''DUP out of range'') (\<lambda>_.
     rbind (assert_that (pos < len_above_func_ret s) ''DUP past call barrier'') (\<lambda>_.
       Inr (s ! pos # s, actions @ [StackDup pos]))))"

definition stk_pop :: "planned \<Rightarrow> fault + planned" where
  "stk_pop = (\<lambda>(s, actions). rbind (pop_operand s) (\<lambda>s. Inr (s, actions @ [PopTop])))"

primrec stk_pop_n :: "nat \<Rightarrow> planned \<Rightarrow> fault + planned" where
  "stk_pop_n 0 p = Inr p"
| "stk_pop_n (Suc n) p = rbind (stk_pop p) (stk_pop_n n)"

definition swap_items :: "nat \<Rightarrow> 'a list \<Rightarrow> 'a list" where
  "swap_items d xs = xs[0 := xs ! d, d := xs ! 0]"

definition stk_swap :: "nat \<Rightarrow> planned \<Rightarrow> fault + planned" where
  "stk_swap depth = (\<lambda>(s, actions).
     if depth = 0 then Inr (s, actions)
     else
       rbind (assert_that (depth \<le> SWAP_DEPTH_MAX) ''SWAP out of range'') (\<lambda>_.
       rbind (assert_that (depth < len_above_func_ret s) ''SWAP past call barrier'') (\<lambda>_.
         Inr (swap_items depth s, actions @ [StackSwap depth]))))"

text \<open>The loops \<open>for k in lo..hi\<close> that swap at every \<open>k\<close>.\<close>

fun swap_each :: "nat list \<Rightarrow> planned \<Rightarrow> fault + planned" where
  "swap_each [] p = Inr p"
| "swap_each (k # ks) p = rbind (stk_swap k p) (swap_each ks)"

definition stable_delete_at_depth :: "nat \<Rightarrow> planned \<Rightarrow> fault + planned" where
  "stable_delete_at_depth depth p =
     rbind (assert_that (1 \<le> depth \<and> depth \<le> SWAP_WINDOW_MAX) ''stable delete out of range'') (\<lambda>_.
     rbind (assert_that (depth \<le> len_above_func_ret (fst p)) ''stable delete past call barrier'') (\<lambda>_.
     rbind (swap_each [1..<depth] p) stk_pop))"

definition stable_rotate_to_top :: "nat \<Rightarrow> planned \<Rightarrow> fault + planned" where
  "stable_rotate_to_top pos p =
     (if pos = 0 then Inr p
      else
        rbind (assert_that (pos \<le> SWAP_DEPTH_MAX) ''SWAP out of range'') (\<lambda>_.
        rbind (assert_that (pos < len_above_func_ret (fst p)) ''SWAP past call barrier'') (\<lambda>_.
        swap_each [1..<Suc pos] p)))"

lemma stk_pop_length: "stk_pop p = Inr p' \<Longrightarrow> length (fst p) = Suc (length (fst p'))"
  by (auto simp: stk_pop_def pop_operand_def split: prod.splits list.splits StackItem.splits)

function clear_above_func_ret :: "planned \<Rightarrow> fault + planned" where
  "clear_above_func_ret p = (case fst p of
       [] \<Rightarrow> Inr p
     | item # _ \<Rightarrow> if item = FuncRetAddr then Inr p else rbind (stk_pop p) clear_above_func_ret)"
  by pat_completeness auto
termination by (relation "measure (\<lambda>p. length (fst p))") (auto dest: stk_pop_length)

declare clear_above_func_ret.simps [simp del]

definition push_call_continuation :: "planned \<Rightarrow> planned" where
  "push_call_continuation = (\<lambda>(s, actions). (push_call_ret_addr s, actions @ [PushContinuationOffset]))"

definition position_call_ret_below_operands :: "nat \<Rightarrow> planned \<Rightarrow> fault + planned" where
  "position_call_ret_below_operands operand_count p =
     (if operand_count = 0 then Inr p
      else
        rbind (assert_that (item_at 0 (fst p) = Some CallRetAddr) ''expected StackItem::CallRetAddr on top of stack'') (\<lambda>_.
        rbind (assert_that (operand_count \<le> SWAP_DEPTH_MAX) ''call operand count exceeds SWAP16'') (\<lambda>_.
        rbind (assert_that (operand_count < len_above_func_ret (fst p)) ''call operand count exceeds stack depth'') (\<lambda>_.
        rbind (stk_swap operand_count p) (\<lambda>p.
        rbind (assert_that (item_at operand_count (fst p) = Some CallRetAddr) ''failed to position call return address'') (\<lambda>_.
          Inr p))))))"

section \<open>The stack above the barrier\<close>

text \<open>A stack is split at the return address: what is above may be rearranged, the rest may not.\<close>

definition barrier :: "SymStack \<Rightarrow> bool" where
  "barrier dn \<longleftrightarrow> dn = [] \<or> hd dn = FuncRetAddr"

lemma position_None: "position P xs = None \<longleftrightarrow> (\<forall>x\<in>set xs. \<not> P x)"
  by (induction xs) auto

lemma position_Some: "position P xs = Some i \<longleftrightarrow> i < length xs \<and> P (xs ! i) \<and> (\<forall>j<i. \<not> P (xs ! j))"
proof (induction xs arbitrary: i)
  case (Cons x xs)
  show ?case
    by (cases i) (auto simp: Cons.IH All_less_Suc2)
qed simp

lemma position_SomeD: "position P xs = Some i \<Longrightarrow> i < length xs \<and> P (xs ! i)"
  by (simp add: position_Some)

lemma position_append: "\<forall>x\<in>set xs. \<not> P x \<Longrightarrow> position P (xs @ ys) = map_option (\<lambda>i. length xs + i) (position P ys)"
  by (cases "position P ys"; induction xs) auto

lemma position_eq_append: "y \<notin> set xs \<Longrightarrow> position (\<lambda>i. i = y) (xs @ ys) = map_option (\<lambda>i. length xs + i) (position (\<lambda>i. i = y) ys)"
  by (rule position_append) auto

lemma len_above [simp]:
  assumes "FuncRetAddr \<notin> set up" and "barrier dn"
  shows "len_above_func_ret (up @ dn) = length up"
  using position_eq_append [OF assms(1), of dn] position_eq_append [OF assms(1), of "[]"] assms(2)
  by (cases dn) (auto simp: len_above_func_ret_def func_ret_index_def barrier_def)

lemma func_ret_index_split:
  assumes "FuncRetAddr \<notin> set up" and "barrier dn"
  shows "func_ret_index (up @ dn) = (if dn = [] then None else Some (length up))"
  using position_eq_append [OF assms(1), of dn] position_eq_append [OF assms(1), of "[]"] assms(2)
  by (cases dn) (auto simp: func_ret_index_def barrier_def)

lemma stack_split:
  obtains up dn where "s = up @ dn" "FuncRetAddr \<notin> set up" "barrier dn"
proof
  let ?P = "\<lambda>i. i \<noteq> FuncRetAddr"
  show "s = takeWhile ?P s @ dropWhile ?P s" by simp
  show "FuncRetAddr \<notin> set (takeWhile ?P s)" by (auto dest: set_takeWhileD)
  show "barrier (dropWhile ?P s)" using hd_dropWhile [of ?P s] by (auto simp: barrier_def)
qed

lemma length_swap_items [simp]: "length (swap_items d xs) = length xs"
  by (simp add: swap_items_def)

lemma swap_items_append: "d < length xs \<Longrightarrow> swap_items d (xs @ ys) = swap_items d xs @ ys"
  by (rule nth_equalityI) (auto simp: swap_items_def nth_list_update nth_append)

lemma mset_swap_items: "d < length xs \<Longrightarrow> mset (swap_items d xs) = mset xs"
  unfolding swap_items_def by (intro mset_swap) auto

lemma set_swap_items [simp]: "d < length xs \<Longrightarrow> set (swap_items d xs) = set xs"
  using mset_swap_items mset_eq_setD by blast

lemma nth_swap_items:
  "d < length xs \<Longrightarrow> i < length xs \<Longrightarrow> swap_items d xs ! i = (if i = 0 then xs ! d else if i = d then xs ! 0 else xs ! i)"
  by (auto simp: swap_items_def nth_list_update)

lemma map_swap_items: "d < length xs \<Longrightarrow> map f (swap_items d xs) = swap_items d (map f xs)"
  by (rule nth_equalityI) (auto simp: nth_swap_items intro: nth_map [symmetric])

lemma stk_swap_above:
  assumes "FuncRetAddr \<notin> set up" and "barrier dn" and "d \<le> 16" and "d < length up"
  shows "stk_swap d (up @ dn, a) = Inr (swap_items d up @ dn, a @ (if d = 0 then [] else [StackSwap d]))"
  using assms swap_items_append [of d up dn] len_above [OF assms(1,2)] by (auto simp: stk_swap_def swap_items_def [of 0])

lemma stk_pop_above: "x \<noteq> FuncRetAddr \<Longrightarrow> stk_pop (x # up, a) = Inr (up, a @ [PopTop])"
  by (cases x) (auto simp: stk_pop_def pop_operand_def)

lemma stk_pop_n_above:
  "FuncRetAddr \<notin> set up \<Longrightarrow> n \<le> length up \<Longrightarrow> stk_pop_n n (up @ dn, a) = Inr (drop n up @ dn, a @ replicate n PopTop)"
proof (induction n arbitrary: up a)
  case (Suc n)
  then obtain x xs where "up = x # xs" by (cases up) auto
  with Suc show ?case by (auto simp: stk_pop_above)
qed simp

lemma stk_dup_above:
  assumes "FuncRetAddr \<notin> set up" and "barrier dn" and "pos < length up" and "pos < 16"
  shows "stk_dup pos (up @ dn, a) = Inr ((up ! pos # up) @ dn, a @ [StackDup pos])"
  using assms by (simp add: stk_dup_def nth_append)

lemma clear_above_func_ret_above:
  "FuncRetAddr \<notin> set up \<Longrightarrow> barrier dn \<Longrightarrow> clear_above_func_ret (up @ dn, a) = Inr (dn, a @ replicate (length up) PopTop)"
proof (induction up arbitrary: a)
  case Nil
  then show ?case by (cases dn) (simp_all add: clear_above_func_ret.simps [of "(_, _)"] barrier_def)
next
  case (Cons x up)
  then show ?case by (subst clear_above_func_ret.simps) (auto simp: stk_pop_above)
qed

section \<open>The concrete stack\<close>

text \<open>
  What the actions do on the machine: a stack of words of some type, and a memory that is read and
  written a word at a time, by absolute offset, by frame slot and by stack object. The offsets the
  planner emits are multiples of 32, so words at different offsets do not overlap.
\<close>

record 'w Memory =
  at_abs :: "nat \<Rightarrow> 'w"
  at_slot :: "nat \<Rightarrow> 'w"
  at_obj :: "nat \<Rightarrow> 'w"

record 'w Meaning =
  m_value :: "ValueId \<Rightarrow> 'w"
  m_imm :: "Immediate \<Rightarrow> 'w"
  m_ret :: 'w
  m_cont :: 'w
  m_below :: "'w list"

fun exec_action :: "'w Meaning \<Rightarrow> StackAction \<Rightarrow> 'w list \<times> 'w Memory \<Rightarrow> ('w list \<times> 'w Memory) option" where
  "exec_action mn (StackDup n) (st, m) = (if n < length st then Some (st ! n # st, m) else None)"
| "exec_action mn (StackSwap n) (st, m) = (if n < length st then Some (swap_items n st, m) else None)"
| "exec_action mn (Push imm) (st, m) = Some (m_imm mn imm # st, m)"
| "exec_action mn PushContinuationOffset (st, m) = Some (m_cont mn # st, m)"
| "exec_action mn PopTop (st, m) = (case st of [] \<Rightarrow> None | _ # st \<Rightarrow> Some (st, m))"
| "exec_action mn (MemLoadAbs a) (st, m) = Some (at_abs m a # st, m)"
| "exec_action mn (MemLoadFrameSlot a) (st, m) = Some (at_slot m a # st, m)"
| "exec_action mn (MemLoadObj a) (st, m) = Some (at_obj m a # st, m)"
| "exec_action mn (MemStoreAbs a) (st, m) = (case st of [] \<Rightarrow> None | w # st \<Rightarrow> Some (st, m\<lparr>at_abs := (at_abs m)(a := w)\<rparr>))"
| "exec_action mn (MemStoreFrameSlot a) (st, m) = (case st of [] \<Rightarrow> None | w # st \<Rightarrow> Some (st, m\<lparr>at_slot := (at_slot m)(a := w)\<rparr>))"
| "exec_action mn (MemStoreObj a) (st, m) = (case st of [] \<Rightarrow> None | w # st \<Rightarrow> Some (st, m\<lparr>at_obj := (at_obj m)(a := w)\<rparr>))"

fun exec_actions :: "'w Meaning \<Rightarrow> Actions \<Rightarrow> 'w list \<times> 'w Memory \<Rightarrow> ('w list \<times> 'w Memory) option" where
  "exec_actions mn [] e = Some e"
| "exec_actions mn (a # as) e = Option.bind (exec_action mn a e) (exec_actions mn as)"

lemma exec_actions_append [simp]:
  "exec_actions mn (as @ bs) e = Option.bind (exec_actions mn as e) (exec_actions mn bs)"
  by (induction mn as e rule: exec_actions.induct) (auto split: bind_splits)

fun item_word :: "'w Meaning \<Rightarrow> StackItem \<Rightarrow> 'w" where
  "item_word mn (Value v) = m_value mn v"
| "item_word mn FuncRetAddr = m_ret mn"
| "item_word mn CallRetAddr = m_cont mn"

definition words :: "'w Meaning \<Rightarrow> SymStack \<Rightarrow> 'w list" where
  "words mn s = map (item_word mn) s @ m_below mn"

lemma words_simps [simp]:
  "words mn (x # s) = item_word mn x # words mn s" "words mn [] = m_below mn" "length (words mn s) = length s + length (m_below mn)"
  by (simp_all add: words_def)

lemma words_nth [simp]: "i < length s \<Longrightarrow> words mn s ! i = item_word mn (s ! i)"
  by (simp add: words_def nth_append)

lemma words_swap: "d < length s \<Longrightarrow> swap_items d (words mn s) = words mn (swap_items d s)"
  by (simp add: words_def swap_items_append map_swap_items)

text \<open>
  \<open>emits mn m p p'\<close>: planning went from \<open>p\<close> to \<open>p'\<close>, and what it emitted takes the words of the
  one stack to the words of the other and leaves the memory \<open>m\<close> as it is. This is a preorder, so an
  operation emits what its steps emit.
\<close>

definition emits :: "'w Meaning \<Rightarrow> 'w Memory \<Rightarrow> planned \<Rightarrow> planned \<Rightarrow> bool" where
  "emits mn m p p' \<longleftrightarrow> (\<exists>\<delta>. snd p' = snd p @ \<delta> \<and> exec_actions mn \<delta> (words mn (fst p), m) = Some (words mn (fst p'), m))"

lemma emits_refl [simp, intro]: "emits mn m p p"
  unfolding emits_def by (rule exI [of _ "[]"]) simp

lemma emits_trans [trans]: "emits mn m p q \<Longrightarrow> emits mn m q r \<Longrightarrow> emits mn m p r"
  unfolding emits_def by fastforce

lemma emits_one: "exec_action mn x (words mn s, m) = Some (words mn s', m) \<Longrightarrow> emits mn m (s, a) (s', a @ [x])"
  unfolding emits_def by (rule exI [of _ "[x]"]) simp

lemma len_above_le: "len_above_func_ret s \<le> length s"
  using position_SomeD [of "\<lambda>i. i = FuncRetAddr" s]
  by (auto simp: len_above_func_ret_def func_ret_index_def split: option.split)

lemma emits_dup: "stk_dup pos p = Inr p' \<Longrightarrow> emits mn m p p'"
  using len_above_le [of "fst p"] by (auto simp: stk_dup_def split: prod.splits intro!: emits_one)

lemma emits_swap: "stk_swap d p = Inr p' \<Longrightarrow> emits mn m p p'"
  using len_above_le [of "fst p"]
  by (auto simp: stk_swap_def words_swap split: prod.splits if_splits intro!: emits_one)

lemma emits_pop: "stk_pop p = Inr p' \<Longrightarrow> emits mn m p p'"
  by (auto simp: stk_pop_def pop_operand_def split: prod.splits list.splits StackItem.splits intro!: emits_one)

lemma emits_pop_n: "stk_pop_n n p = Inr p' \<Longrightarrow> emits mn m p p'"
  by (induction n arbitrary: p) (auto intro: emits_trans emits_pop)

lemma emits_swap_each: "swap_each ks p = Inr p' \<Longrightarrow> emits mn m p p'"
  by (induction ks p rule: swap_each.induct) (auto intro: emits_trans emits_swap)

lemma emits_stable_delete: "stable_delete_at_depth d p = Inr p' \<Longrightarrow> emits mn m p p'"
  by (auto simp: stable_delete_at_depth_def intro: emits_trans emits_swap_each emits_pop)

lemma emits_stable_rotate: "stable_rotate_to_top d p = Inr p' \<Longrightarrow> emits mn m p p'"
  by (auto simp: stable_rotate_to_top_def split: if_splits intro: emits_swap_each)

lemma emits_clear: "clear_above_func_ret p = Inr p' \<Longrightarrow> emits mn m p p'"
proof (induction p rule: clear_above_func_ret.induct)
  case (1 p)
  from "1.prems" show ?case
    by (subst (asm) clear_above_func_ret.simps)
      (auto split: list.splits if_splits intro: emits_trans emits_pop "1.IH")
qed

lemma emits_push_imm: "m_value mn v = m_imm mn imm \<Longrightarrow> emits mn m p (push_imm v imm p)"
  by (cases p) (auto simp: push_imm_def push_value_def intro!: emits_one)

lemma emits_call_continuation: "emits mn m p (push_call_continuation p)"
  by (cases p) (auto simp: push_call_continuation_def push_call_ret_addr_def intro!: emits_one)

lemma emits_position_call_ret: "position_call_ret_below_operands n p = Inr p' \<Longrightarrow> emits mn m p p'"
  by (auto simp: position_call_ret_below_operands_def split: if_splits intro: emits_swap)

lemmas emits_ops = emits_dup emits_swap emits_pop emits_pop_n emits_swap_each emits_stable_delete emits_stable_rotate
  emits_clear emits_call_continuation emits_position_call_ret

section \<open>Where the rearrangements put the items\<close>

lemma swap_each_append: "swap_each (ks @ [k]) p = rbind (swap_each ks p) (stk_swap k)"
proof (induction ks p rule: swap_each.induct)
  case (1 p)
  show ?case by (cases "stk_swap k p") simp_all
next
  case (2 j ks p)
  then show ?case by (cases "stk_swap j p") simp_all
qed

lemma swap_each_above:
  assumes "FuncRetAddr \<notin> set up" and "barrier dn" and "n \<le> 16" and "n < length up"
  shows "swap_each [1..<Suc n] (up @ dn, a) =
    Inr ((up ! n # take n up @ drop (Suc n) up) @ dn, a @ map StackSwap [1..<Suc n])"
  using assms(3,4)
proof (induction n)
  case 0
  with assms show ?case by (cases up) auto
next
  case (Suc n)
  let ?L = "up ! n # take n up @ drop (Suc n) up"
  have L: "FuncRetAddr \<notin> set ?L" "Suc n < length ?L"
    using assms(1) Suc.prems by (auto dest: in_set_takeD in_set_dropD)
      (metis Suc_lessD nth_mem)
  have "swap_items (Suc n) ?L = up ! Suc n # take (Suc n) up @ drop (Suc (Suc n)) up"
    using Suc.prems by (auto simp: swap_items_def nth_append take_Suc_conv_app_nth list_update_append Cons_nth_drop_Suc [symmetric])
  moreover have "[1..<Suc (Suc n)] = [1..<Suc n] @ [Suc n]" by simp
  moreover have "swap_each [1..<Suc n] (up @ dn, a) = Inr (?L @ dn, a @ map StackSwap [1..<Suc n])"
    by (rule Suc.IH) (use Suc.prems in simp_all)
  ultimately show ?case using stk_swap_above [OF L(1) assms(2) Suc.prems(1) L(2)]
    by (simp only: swap_each_append) (simp del: upt_Suc)
qed

lemma stable_rotate_above:
  assumes "FuncRetAddr \<notin> set up" and "barrier dn" and "n \<le> 16" and "n < length up"
  shows "stable_rotate_to_top n (up @ dn, a) =
    Inr ((up ! n # take n up @ drop (Suc n) up) @ dn, a @ map StackSwap [1..<Suc n])"
proof (cases "n = 0")
  case True
  with assms show ?thesis by (cases up) (auto simp: stable_rotate_to_top_def)
next
  case False
  with assms swap_each_above [OF assms] show ?thesis by (simp add: stable_rotate_to_top_def del: upt_Suc)
qed

lemma stable_delete_above:
  assumes "FuncRetAddr \<notin> set up" and "barrier dn" and "n \<le> 16" and "n < length up"
  shows "stable_delete_at_depth (Suc n) (up @ dn, a) =
    Inr ((take n up @ drop (Suc n) up) @ dn, a @ map StackSwap [1..<Suc n] @ [PopTop])"
proof -
  have "up ! n \<noteq> FuncRetAddr" using assms(1,4) by (metis nth_mem)
  with assms swap_each_above [OF assms] show ?thesis
    by (simp add: stable_delete_at_depth_def stk_pop_above del: upt_Suc)
qed

section \<open>Properties\<close>

text \<open>C24: The operations of the symbolic stack that emit actions are simulations: on any machine whose stack
  the symbolic stack describes (for \<open>push_imm\<close>, one where the value pushed for the immediate is that
  immediate), the emitted actions run without underflow and leave a stack that the
  new symbolic stack describes, with the memory and everything below untouched.\<close>
theorem sym_stack_simulates:
  assumes "stk_dup k p = Inr p' \<or> stk_swap k p = Inr p' \<or> stk_pop p = Inr p' \<or> stk_pop_n k p = Inr p'
     \<or> stable_delete_at_depth k p = Inr p' \<or> stable_rotate_to_top k p = Inr p' \<or> clear_above_func_ret p = Inr p'
     \<or> push_call_continuation p = p' \<or> position_call_ret_below_operands k p = Inr p'
     \<or> (\<exists>v imm. m_value mn v = m_imm mn imm \<and> push_imm v imm p = p')"
  shows "\<exists>\<delta>. snd p' = snd p @ \<delta> \<and> exec_actions mn \<delta> (words mn (fst p), m) = Some (words mn (fst p'), m)"
  using assms unfolding emits_def [symmetric] by (elim disjE) (auto intro: emits_ops emits_push_imm)

lemma remove_call_ret_addr_above:
  "CallRetAddr \<notin> set xs \<Longrightarrow> remove_call_ret_addr (xs @ CallRetAddr # ys) = Inr (xs @ ys)"
  by (simp add: remove_call_ret_addr_def position_eq_append)

lemma pop_n_operands_above: "FuncRetAddr \<notin> set up \<Longrightarrow> pop_n_operands (length up) (up @ dn) = Inr dn"
  by (induction up) (auto simp: pop_operand_def split: StackItem.splits)

text \<open>The call sequence: with the operands on the stack as a left rotation of the callee's order, pushing
  the continuation and one swap put the operands in order on top of it, with nothing else moved; after the
  call has consumed the operands and the continuation the stack is what was below them.\<close>
theorem call_sequence_positions:
  assumes "FuncRetAddr \<notin> set up" and "barrier dn" and "length args \<le> 16"
  shows "position_call_ret_below_operands (length args) (push_call_continuation (map Value (rotate1 args) @ up @ dn, a))
      = Inr (map Value args @ CallRetAddr # up @ dn, a @ PushContinuationOffset # (if args = [] then [] else [StackSwap (length args)]))
    \<and> rbind (pop_n_operands (length args) (map Value args @ CallRetAddr # up @ dn)) remove_call_ret_addr = Inr (up @ dn)"
proof
  have nf: "FuncRetAddr \<notin> set (map Value args)" by auto
  show "rbind (pop_n_operands (length args) (map Value args @ CallRetAddr # up @ dn)) remove_call_ret_addr = Inr (up @ dn)"
    using pop_n_operands_above [OF nf, of "CallRetAddr # up @ dn"] remove_call_ret_addr_above [of "[]" "up @ dn"] by simp
  show "position_call_ret_below_operands (length args) (push_call_continuation (map Value (rotate1 args) @ up @ dn, a))
      = Inr (map Value args @ CallRetAddr # up @ dn, a @ PushContinuationOffset # (if args = [] then [] else [StackSwap (length args)]))"
  proof (cases args)
    case Nil
    then show ?thesis by (simp add: position_call_ret_below_operands_def push_call_continuation_def push_call_ret_addr_def)
  next
    case (Cons x xs)
    let ?up = "CallRetAddr # map Value xs @ Value x # up"
    have f: "FuncRetAddr \<notin> set ?up" using assms(1) by auto
    have "swap_items (length args) ?up = map Value args @ CallRetAddr # up"
      using Cons by (simp add: swap_items_def nth_append list_update_append)
    with stk_swap_above [OF f assms(2), of "length args" "a @ [PushContinuationOffset]"] len_above [OF f assms(2)] assms(3) Cons
    show ?thesis
      by (simp add: position_call_ret_below_operands_def push_call_continuation_def push_call_ret_addr_def item_at_def nth_append)
  qed
qed

text \<open>A stack of two values over a return address.\<close>

definition sample_meaning :: "nat Meaning" where
  "sample_meaning = \<lparr>m_value = (\<lambda>v. v + 100), m_imm = (\<lambda>_. 7), m_ret = 1, m_cont = 2, m_below = [3]\<rparr>"

definition sample_memory :: "nat Memory" where
  "sample_memory = \<lparr>at_abs = (\<lambda>_. 0), at_slot = (\<lambda>_. 0), at_obj = (\<lambda>_. 0)\<rparr>"

theorem sym_stack_simulates_witness:
  "stk_swap 1 ([Value 4, Value 5, FuncRetAddr], []) = Inr ([Value 5, Value 4, FuncRetAddr], [StackSwap 1])
   \<and> exec_actions sample_meaning [StackSwap 1] ([104, 105, 1, 3], sample_memory) = Some ([105, 104, 1, 3], sample_memory)
   \<and> (\<exists>\<delta>. snd (push_imm 9 (Imm_I8 7) ([Value 4, FuncRetAddr], [])) = \<delta>
        \<and> exec_actions (sample_meaning\<lparr>m_imm := (\<lambda>_. 109)\<rparr>) \<delta> ([104, 1, 3], sample_memory) = Some ([109, 104, 1, 3], sample_memory))"
proof -
  have r: "stk_swap 1 ([Value 4, Value 5] @ [FuncRetAddr], []) = Inr ([Value 5, Value 4, FuncRetAddr], [StackSwap 1])"
    by (subst stk_swap_above) (auto simp: barrier_def swap_items_def)
  then have "stk_swap 1 ([Value 4, Value 5, FuncRetAddr], []) = Inr ([Value 5, Value 4, FuncRetAddr], [StackSwap 1])" by simp
  with sym_stack_simulates [of 1 "([Value 4, Value 5, FuncRetAddr], [])" "([Value 5, Value 4, FuncRetAddr], [StackSwap 1])"
      sample_meaning sample_memory]
    sym_stack_simulates [of 0 "([Value 4, FuncRetAddr], [])" "push_imm 9 (Imm_I8 7) ([Value 4, FuncRetAddr], [])"
      "sample_meaning\<lparr>m_imm := (\<lambda>_. 109)\<rparr>" sample_memory]
  show ?thesis
    by (force simp: words_def sample_meaning_def push_imm_def push_value_def)
qed

theorem call_sequence_positions_witness:
  "position_call_ret_below_operands 2 (push_call_continuation ([Value 5, Value 4, Value 9, FuncRetAddr], []))
     = Inr ([Value 4, Value 5, CallRetAddr, Value 9, FuncRetAddr], [PushContinuationOffset, StackSwap 2])"
  using call_sequence_positions [of "[Value 9]" "[FuncRetAddr]" "[4, 5]" "[]"] by (simp add: barrier_def numeral_2_eq_2)

end
