(* ===== verification/Slots.thy ===== *)
theory Slots
  imports Sonatina_Prelude
begin

text \<open>
  \<open>stackalloc/stackify/slots.rs\<close> and \<open>spill.rs\<close>: the pool of scratch slots that spilled values are
  stored in, the free list of one block, and the record of the values whose spilling planning asked
  for. A slot is reused for a value whose live blocks are disjoint from those of its earlier owners,
  or when it was released in the block being planned.
\<close>

section \<open>The spill set\<close>

text \<open>\<open>BitSet\<close> is a set; \<open>SpilledValueId\<close> is a value that was found in the spill set.\<close>

type_synonym SpillSet = "ValueId set"

definition spilled :: "ValueId \<Rightarrow> SpillSet \<Rightarrow> ValueId option" where
  "spilled v s = (if v \<in> s then Some v else None)"

record SpillDiscovery =
  spill :: SpillSet
  spill_requests :: "ValueId set"

definition request_spill :: "ValueId \<Rightarrow> SpillDiscovery \<Rightarrow> bool \<times> SpillDiscovery" where
  "request_spill v d = (v \<notin> spill_requests d, d\<lparr>spill_requests := insert v (spill_requests d)\<rparr>)"

section \<open>Free slots\<close>

type_synonym FreeSlots = "nat set"

definition release :: "nat \<Rightarrow> FreeSlots \<Rightarrow> FreeSlots" where
  "release slot fs = insert slot fs"

definition take_released :: "FreeSlots \<Rightarrow> nat option \<times> FreeSlots" where
  "take_released fs = (if fs = {} then (None, fs) else (Some (Min fs), fs - {Min fs}))"

section \<open>The pool\<close>

record SlotPool =
  slot_of :: "ValueId \<Rightarrow> nat option"
  next_slot :: nat
  slot_live_blocks :: "BlockId set list"

definition slot_pool_default :: SlotPool where
  "slot_pool_default = \<lparr>slot_of = (\<lambda>_. None), next_slot = 0, slot_live_blocks = []\<rparr>"

definition take_slot_map :: "SlotPool \<Rightarrow> (ValueId \<Rightarrow> nat option) \<times> SlotPool" where
  "take_slot_map p = (slot_of p, p\<lparr>slot_of := (\<lambda>_. None)\<rparr>)"

definition slot_for :: "ValueId \<Rightarrow> SlotPool \<Rightarrow> nat option" where
  "slot_for v p = slot_of p v"

text \<open>The loop over the candidates \<open>0..next_slot\<close>: the first whose live blocks are disjoint.\<close>

fun scan_candidates :: "nat list \<Rightarrow> BlockId set list \<Rightarrow> BlockId set \<Rightarrow> fault + nat option" where
  "scan_candidates [] blocks live = Inr None"
| "scan_candidates (candidate # cs) blocks live =
     rbind (assert_that (candidate < length blocks) ''slot_live_blocks out of sync'') (\<lambda>_.
       if blocks ! candidate \<inter> live = {} then Inr (Some candidate) else scan_candidates cs blocks live)"

definition grow_pool :: "nat option \<Rightarrow> SlotPool \<Rightarrow> fault + (nat option \<times> SlotPool)" where
  "grow_pool max_slots p =
     (if (case max_slots of None \<Rightarrow> True | Some mx \<Rightarrow> next_slot p < mx) then
        rbind (assert_that (Suc (next_slot p) < u32_limit) ''frame slot index overflow'') (\<lambda>_.
          Inr (Some (next_slot p), p\<lparr>next_slot := Suc (next_slot p), slot_live_blocks := slot_live_blocks p @ [{}]\<rparr>))
      else Inr (None, p))"

definition pick_slot :: "BlockId set \<Rightarrow> nat option \<Rightarrow> FreeSlots \<times> SlotPool \<Rightarrow> fault + (nat option \<times> FreeSlots \<times> SlotPool)" where
  "pick_slot live max_slots = (\<lambda>(fs, p).
     case take_released fs of
       (Some slot, fs) \<Rightarrow> Inr (Some slot, fs, p)
     | (None, fs) \<Rightarrow>
         rbind (scan_candidates [0..<next_slot p] (slot_live_blocks p) live) (\<lambda>found.
         case found of
           Some slot \<Rightarrow> Inr (Some slot, fs, p)
         | None \<Rightarrow> rbind (grow_pool max_slots p) (\<lambda>(s, p). Inr (s, fs, p))))"

definition try_ensure_slot :: "ValueId \<Rightarrow> (ValueId \<Rightarrow> BlockId set) \<Rightarrow> nat option \<Rightarrow> FreeSlots \<times> SlotPool
    \<Rightarrow> fault + (nat option \<times> FreeSlots \<times> SlotPool)" where
  "try_ensure_slot v val_live_blocks max_slots = (\<lambda>(fs, p).
     case slot_of p v of
       Some slot \<Rightarrow> Inr (Some slot, fs, p)
     | None \<Rightarrow>
         rbind (pick_slot (val_live_blocks v) max_slots (fs, p)) (\<lambda>(s, fs, p).
         case s of
           None \<Rightarrow> Inr (None, fs, p)
         | Some slot \<Rightarrow>
             rbind (assert_that (slot < length (slot_live_blocks p)) ''slot_live_blocks missing slot'') (\<lambda>_.
               Inr (Some slot, fs, p\<lparr>slot_of := (slot_of p)(v \<mapsto> slot),
                 slot_live_blocks := (slot_live_blocks p)[slot := slot_live_blocks p ! slot \<union> val_live_blocks v]\<rparr>))))"

definition release_if_assigned :: "ValueId \<Rightarrow> SlotPool \<Rightarrow> FreeSlots \<Rightarrow> FreeSlots" where
  "release_if_assigned v p fs = (case slot_of p v of Some slot \<Rightarrow> release slot fs | None \<Rightarrow> fs)"

section \<open>Invariant\<close>

text \<open>
  The list of live blocks is in step with the slots and covers every owner; a slot that is free was
  handed out before.
\<close>

definition pool_ok :: "(ValueId \<Rightarrow> BlockId set) \<Rightarrow> FreeSlots \<times> SlotPool \<Rightarrow> bool" where
  "pool_ok live fp \<longleftrightarrow> (case fp of (fs, p) \<Rightarrow>
       length (slot_live_blocks p) = next_slot p \<and> finite fs \<and> (\<forall>s\<in>fs. s < next_slot p)
     \<and> (\<forall>v s. slot_of p v = Some s \<longrightarrow> s < next_slot p \<and> live v \<subseteq> slot_live_blocks p ! s))"

lemma pool_ok_default: "pool_ok live ({}, slot_pool_default)"
  by (simp add: pool_ok_def slot_pool_default_def)

lemma pool_ok_release: "pool_ok live (fs, p) \<Longrightarrow> pool_ok live (release_if_assigned v p fs, p)"
  by (auto simp: pool_ok_def release_if_assigned_def release_def split: option.split)

lemma scan_candidates_ok:
  "\<forall>c\<in>set cs. c < length blocks \<Longrightarrow> \<exists>r. scan_candidates cs blocks live = Inr r
     \<and> (case r of Some c \<Rightarrow> c \<in> set cs \<and> blocks ! c \<inter> live = {} | None \<Rightarrow> \<forall>c\<in>set cs. blocks ! c \<inter> live \<noteq> {})"
proof (induction cs)
  case (Cons c cs)
  then obtain r where r: "scan_candidates cs blocks live = Inr r"
    "case r of Some c \<Rightarrow> c \<in> set cs \<and> blocks ! c \<inter> live = {} | None \<Rightarrow> \<forall>c\<in>set cs. blocks ! c \<inter> live \<noteq> {}" by auto
  with Cons.prems show ?case by (cases "blocks ! c \<inter> live = {}") (auto split: option.splits)
qed simp

text \<open>The slot a value gets, and why: it had it, it was released, nobody who ever had it is live where the value is, or it is new.\<close>

definition slot_reason :: "(ValueId \<Rightarrow> BlockId set) \<Rightarrow> ValueId \<Rightarrow> nat \<Rightarrow> FreeSlots \<times> SlotPool \<Rightarrow> bool" where
  "slot_reason live v slot fp \<longleftrightarrow> (case fp of (fs, p) \<Rightarrow>
     slot_of p v = Some slot \<or> slot \<in> fs \<or> (\<forall>u. slot_of p u = Some slot \<longrightarrow> live u \<inter> live v = {}))"

lemma pick_slot_ok:
  assumes ok: "pool_ok live (fs, p)" and room: "next_slot p + 1 < u32_limit"
  obtains s fs' p' where "pick_slot (live v) mx (fs, p) = Inr (s, fs', p')" "pool_ok live (fs', p')" "fs' \<subseteq> fs" "slot_of p' = slot_of p"
    "next_slot p \<le> next_slot p'"
    "case s of Some slot \<Rightarrow> slot < next_slot p' \<and> slot \<notin> fs' \<and> slot_reason live v slot (fs, p)
       \<and> (\<forall>k. mx = Some k \<and> next_slot p \<le> k \<longrightarrow> next_slot p' \<le> k)
     | None \<Rightarrow> p' = p \<and> (\<exists>k. mx = Some k \<and> k \<le> next_slot p)"
proof (cases "fs = {}")
  case False
  have m: "Min fs \<in> fs" using ok False by (simp add: pool_ok_def)
  show ?thesis
    by (rule that [of "Some (Min fs)" "fs - {Min fs}" p])
      (use m ok False in \<open>auto simp: pick_slot_def take_released_def pool_ok_def slot_reason_def\<close>)
next
  case True
  have c: "\<forall>c\<in>set [0..<next_slot p]. c < length (slot_live_blocks p)" using ok by (simp add: pool_ok_def)
  from scan_candidates_ok [OF this, of "live v"] obtain r where
    r: "scan_candidates [0..<next_slot p] (slot_live_blocks p) (live v) = Inr r" and
    rs: "case r of Some c \<Rightarrow> c \<in> set [0..<next_slot p] \<and> slot_live_blocks p ! c \<inter> live v = {}
       | None \<Rightarrow> \<forall>c\<in>set [0..<next_slot p]. slot_live_blocks p ! c \<inter> live v \<noteq> {}" by auto
  show ?thesis
  proof (cases r)
    case (Some c)
    have "live u \<inter> live v = {}" if "slot_of p u = Some c" for u
    proof -
      have "live u \<subseteq> slot_live_blocks p ! c" using ok that by (simp add: pool_ok_def)
      with rs Some show ?thesis by auto
    qed
    then show ?thesis
      by (intro that [of "Some c" fs p])
        (use r rs Some ok True in \<open>auto simp: pick_slot_def take_released_def slot_reason_def\<close>)
  next
    case None
    show ?thesis
    proof (cases "case mx of None \<Rightarrow> True | Some k \<Rightarrow> next_slot p < k")
      case grow: True
      have n: "slot_of p u \<noteq> Some (next_slot p)" for u using ok by (auto simp: pool_ok_def)
      have "pool_ok live (fs, p\<lparr>next_slot := Suc (next_slot p), slot_live_blocks := slot_live_blocks p @ [{}]\<rparr>)"
        using ok by (auto simp: pool_ok_def nth_append less_Suc_eq)
      then show ?thesis
        by (intro that [of "Some (next_slot p)" fs "p\<lparr>next_slot := Suc (next_slot p), slot_live_blocks := slot_live_blocks p @ [{}]\<rparr>"])
          (use r None True room grow n in
            \<open>auto simp: pick_slot_def take_released_def grow_pool_def slot_reason_def split: option.splits\<close>)
    next
      case False
      then obtain k where "mx = Some k" "k \<le> next_slot p" by (auto split: option.splits)
      with r None True ok show ?thesis
        by (intro that [of None fs p]) (auto simp: pick_slot_def take_released_def grow_pool_def)
    qed
  qed
qed

lemma try_ensure_slot_ok:
  assumes "pool_ok live (fs, p)" and "next_slot p + 1 < u32_limit"
  shows "\<exists>s fs' p'. try_ensure_slot v live mx (fs, p) = Inr (s, fs', p') \<and> pool_ok live (fs', p') \<and> fs' \<subseteq> fs
    \<and> (case s of
        Some slot \<Rightarrow> slot_of p' = (slot_of p)(v \<mapsto> slot) \<and> slot_reason live v slot (fs, p)
          \<and> (slot_of p v = None \<longrightarrow> slot \<notin> fs') \<and> (\<forall>k. mx = Some k \<and> next_slot p \<le> k \<longrightarrow> next_slot p' \<le> k)
      | None \<Rightarrow> p' = p \<and> slot_of p v = None \<and> (\<exists>k. mx = Some k \<and> k \<le> next_slot p))"
proof (cases "slot_of p v")
  case (Some slot)
  then have "(slot_of p)(v \<mapsto> slot) = slot_of p" by (simp add: fun_upd_idem)
  with Some assms show ?thesis by (auto simp: try_ensure_slot_def slot_reason_def)
next
  case None
  obtain s fs' p' where
    pk: "pick_slot (live v) mx (fs, p) = Inr (s, fs', p')" and ok: "pool_ok live (fs', p')" and fs: "fs' \<subseteq> fs"
    and so: "slot_of p' = slot_of p" and "next_slot p \<le> next_slot p'" and
    cs: "case s of Some slot \<Rightarrow> slot < next_slot p' \<and> slot \<notin> fs' \<and> slot_reason live v slot (fs, p)
       \<and> (\<forall>k. mx = Some k \<and> next_slot p \<le> k \<longrightarrow> next_slot p' \<le> k)
     | None \<Rightarrow> p' = p \<and> (\<exists>k. mx = Some k \<and> k \<le> next_slot p)"
    by (rule pick_slot_ok [OF assms, of v mx])
  show ?thesis
  proof (cases s)
    case s: None
    with None pk ok fs cs show ?thesis by (simp add: try_ensure_slot_def)
  next
    case s: (Some slot)
    let ?p = "p'\<lparr>slot_of := (slot_of p')(v \<mapsto> slot),
      slot_live_blocks := (slot_live_blocks p')[slot := slot_live_blocks p' ! slot \<union> live v]\<rparr>"
    have l: "slot < length (slot_live_blocks p')" using ok cs s by (simp add: pool_ok_def)
    have "pool_ok live (fs', ?p)" using ok l by (auto simp: pool_ok_def nth_list_update)
    with s None pk fs so cs l show ?thesis by (auto simp: try_ensure_slot_def)
  qed
qed

section \<open>Properties\<close>

text \<open>C25: Assigning a slot always ends with a pool that is in step, never changes the slot of another value, never
  exceeds the bound on the slots, and a value shares its slot only with values that are live in no block it
  is live in, or with one whose slot was released in this block. It fails only when the bound is reached.\<close>
theorem slot_assignment_safe:
  assumes "pool_ok live (fs, p)" and "next_slot p + 1 < u32_limit"
  shows "\<exists>s fs' p'. try_ensure_slot v live mx (fs, p) = Inr (s, fs', p') \<and> pool_ok live (fs', p') \<and> fs' \<subseteq> fs
    \<and> (case s of
        Some slot \<Rightarrow> slot_of p' = (slot_of p)(v \<mapsto> slot) \<and> slot_reason live v slot (fs, p)
          \<and> (slot_of p v = None \<longrightarrow> slot \<notin> fs') \<and> (\<forall>k. mx = Some k \<and> next_slot p \<le> k \<longrightarrow> next_slot p' \<le> k)
      | None \<Rightarrow> p' = p \<and> slot_of p v = None \<and> (\<exists>k. mx = Some k \<and> k \<le> next_slot p))"
  by (rule try_ensure_slot_ok [OF assms])

theorem slot_assignment_safe_witness:
  "\<exists>fs' p'. try_ensure_slot 3 (\<lambda>_. {1}) (Some 4) ({}, slot_pool_default) = Inr (Some 0, fs', p') \<and> slot_of p' 3 = Some 0"
proof -
  from slot_assignment_safe [OF pool_ok_default, of 3 "\<lambda>_. {1}" "Some 4"]
  obtain s fs' p' where r: "try_ensure_slot 3 (\<lambda>_. {1}) (Some 4) ({}, slot_pool_default) = Inr (s, fs', p')"
    by (auto simp: slot_pool_default_def u32_limit_def)
  then have "s = Some 0 \<and> slot_of p' 3 = Some 0"
    by (auto simp: try_ensure_slot_def pick_slot_def take_released_def slot_pool_default_def grow_pool_def u32_limit_def)
  with r show ?thesis by blast
qed

text \<open>What the pool does if it is used again with empty free lists, as the loop in
  \<open>builder.rs\<close> (not modelled) does when it restarts the planning of a function: a value keeps its slot
  from before, so if \<open>v\<close> once took the slot that \<open>u\<close> released, and \<open>w\<close> takes it after \<open>u\<close> the next time,
  then \<open>v\<close> and \<open>w\<close> share it without either having been released.\<close>
lemma reused_pool_shares_slot:
  assumes "distinct [u, v, w]"
  shows "\<exists>p1 p2 p3. try_ensure_slot u live None ({}, slot_pool_default) = Inr (Some 0, {}, p1)
    \<and> try_ensure_slot v live None (release_if_assigned u p1 {}, p1) = Inr (Some 0, {}, p2)
    \<and> try_ensure_slot u live None ({}, p2) = Inr (Some 0, {}, p2)
    \<and> try_ensure_slot w live None (release_if_assigned u p2 {}, p2) = Inr (Some 0, {}, p3)
    \<and> try_ensure_slot v live None ({}, p3) = Inr (Some 0, {}, p3)"
proof -
  let ?p1 = "\<lparr>slot_of = [u \<mapsto> 0], next_slot = 1, slot_live_blocks = [live u]\<rparr>"
  let ?p2 = "\<lparr>slot_of = [u \<mapsto> 0, v \<mapsto> 0], next_slot = 1, slot_live_blocks = [live u \<union> live v]\<rparr>"
  let ?p3 = "\<lparr>slot_of = [u \<mapsto> 0, v \<mapsto> 0, w \<mapsto> 0], next_slot = 1, slot_live_blocks = [live u \<union> live v \<union> live w]\<rparr>"
  have "try_ensure_slot u live None ({}, slot_pool_default) = Inr (Some 0, {}, ?p1)"
    by (simp add: try_ensure_slot_def pick_slot_def take_released_def slot_pool_default_def grow_pool_def u32_limit_def)
  moreover have "try_ensure_slot v live None (release_if_assigned u ?p1 {}, ?p1) = Inr (Some 0, {}, ?p2)"
    using assms by (simp add: try_ensure_slot_def pick_slot_def take_released_def release_if_assigned_def release_def)
  moreover have "try_ensure_slot u live None ({}, ?p2) = Inr (Some 0, {}, ?p2)"
    using assms by (simp add: try_ensure_slot_def)
  moreover have "try_ensure_slot w live None (release_if_assigned u ?p2 {}, ?p2) = Inr (Some 0, {}, ?p3)"
    using assms by (simp add: try_ensure_slot_def pick_slot_def take_released_def release_if_assigned_def release_def)
  moreover have "try_ensure_slot v live None ({}, ?p3) = Inr (Some 0, {}, ?p3)"
    using assms by (simp add: try_ensure_slot_def)
  ultimately show ?thesis by blast
qed

end
