(* ===== verification/Planner.thy ===== *)
theory Planner
  imports SymStack Slots Cfg
begin

text \<open>
  \<open>stackalloc/stackify/planner/mod.rs\<close> and \<open>planner/normalize.rs\<close>: the planner of one instruction or
  edge. It rewrites the symbolic stack to a wanted one by deleting, duplicating, pushing, reloading
  and permuting, and falls back to popping and rebuilding. The main result: the stack it ends with is
  exactly the wanted one, and unless a value had to be marked for spilling the emitted actions
  produce it on the machine.
\<close>

section \<open>Context and state\<close>

record StackifyReachability =
  dup_max :: nat
  swap_max :: nat

definition reachability_new :: "nat \<Rightarrow> fault + StackifyReachability" where
  "reachability_new reach_depth =
     rbind (assert_that (1 \<le> reach_depth \<and> reach_depth \<le> DUP_MAX) ''stackify reach_depth out of range'') (\<lambda>_.
       Inr \<lparr>dup_max = reach_depth, swap_max = min (reach_depth + 1) SWAP_WINDOW_MAX\<rparr>)"

record StackifyContext =
  c_func :: Function
  val_live_blocks :: "ValueId \<Rightarrow> BlockId set"
  scratch_live_values :: "ValueId set"
  scratch_spill_slots :: nat
  c_entry :: BlockId
  c_cfg :: ControlFlowGraph
  dom_rpo :: "BlockId list"
  dom_reachable :: "BlockId \<Rightarrow> bool"
  block_live_outs :: "BlockId \<Rightarrow> ValueId set"
  phi_results :: "BlockId \<Rightarrow> ValueId list"
  phi_out_sources :: "BlockId \<Rightarrow> ValueId set"
  has_internal_return :: bool
  reach :: StackifyReachability

abbreviation c_dfg :: "StackifyContext \<Rightarrow> DataFlowGraph" where
  "c_dfg ctx \<equiv> f_dfg (c_func ctx)"

record MemPlan =
  mp_spill :: SpillDiscovery
  spill_obj :: "ValueId \<Rightarrow> nat option"
  free_slots :: FreeSlots
  slots :: SlotPool

record Planner =
  p_stack :: SymStack
  p_actions :: Actions
  p_mem :: MemPlan

text \<open>The byte offset of a slot is a \<open>u32\<close> multiplication.\<close>

definition slot_offset :: "nat \<Rightarrow> fault + nat" where
  "slot_offset slot = (if slot * 32 < u32_limit then Inr (slot * 32) else Inl (Panic ''attempt to multiply with overflow''))"

definition uses_scratch :: "StackifyContext \<Rightarrow> ValueId \<Rightarrow> bool" where
  "uses_scratch ctx v \<longleftrightarrow> scratch_spill_slots ctx \<noteq> 0 \<and> v \<notin> scratch_live_values ctx"

definition obj_of :: "MemPlan \<Rightarrow> ValueId \<Rightarrow> fault + nat" where
  "obj_of mem v = (case spill_obj mem v of
       Some obj \<Rightarrow> Inr obj
     | None \<Rightarrow> Inl (Panic ''spilled value missing stack object id''))"

definition load_frame_slot_or_placeholder :: "StackifyContext \<Rightarrow> ValueId \<Rightarrow> MemPlan \<Rightarrow> fault + (StackAction \<times> MemPlan)" where
  "load_frame_slot_or_placeholder ctx v mem =
     (case spilled v (spill (mp_spill mem)) of
        None \<Rightarrow> Inr (MemLoadObj 0, mem\<lparr>mp_spill := snd (request_spill v (mp_spill mem))\<rparr>)
      | Some _ \<Rightarrow>
          (case (if uses_scratch ctx v then slot_for v (slots mem) else None) of
             Some slot \<Rightarrow> rbind (slot_offset slot) (\<lambda>off. Inr (MemLoadAbs off, mem))
           | None \<Rightarrow> rbind (obj_of mem v) (\<lambda>obj. Inr (MemLoadObj obj, mem))))"

definition mem_store_if_spilled :: "StackifyContext \<Rightarrow> ValueId \<Rightarrow> nat \<Rightarrow> MemPlan \<times> Actions \<Rightarrow> fault + (MemPlan \<times> Actions)" where
  "mem_store_if_spilled ctx v depth = (\<lambda>(mem, actions).
     case spilled v (spill (mp_spill mem)) of
       None \<Rightarrow> Inr (mem, actions)
     | Some sv \<Rightarrow>
         let actions = actions @ [StackDup depth]
         in rbind (if uses_scratch ctx v then
                     try_ensure_slot sv (val_live_blocks ctx) (Some (scratch_spill_slots ctx)) (free_slots mem, slots mem)
                   else Inr (None, free_slots mem, slots mem)) (\<lambda>(slot, fs, pool).
            let mem = mem\<lparr>free_slots := fs, slots := pool\<rparr>
            in case slot of
                 Some slot \<Rightarrow> rbind (slot_offset slot) (\<lambda>off. Inr (mem, actions @ [MemStoreAbs off]))
               | None \<Rightarrow> rbind (obj_of mem v) (\<lambda>obj. Inr (mem, actions @ [MemStoreObj obj]))))"

definition emit_store_if_spilled :: "StackifyContext \<Rightarrow> ValueId \<Rightarrow> Planner \<Rightarrow> fault + Planner" where
  "emit_store_if_spilled ctx v pl =
     rbind (mem_store_if_spilled ctx v 0 (p_mem pl, p_actions pl)) (\<lambda>(mem, actions).
       Inr (pl\<lparr>p_mem := mem, p_actions := actions\<rparr>))"

definition emit_store_if_spilled_at_depth :: "StackifyContext \<Rightarrow> ValueId \<Rightarrow> nat \<Rightarrow> Planner \<Rightarrow> fault + Planner" where
  "emit_store_if_spilled_at_depth ctx v depth pl =
     (if v \<notin> spill (mp_spill (p_mem pl)) then Inr pl
      else
        rbind (assert_that (depth < dup_max (reach ctx)) ''DUP out of range'') (\<lambda>_.
        rbind (mem_store_if_spilled ctx v depth (p_mem pl, p_actions pl)) (\<lambda>(mem, actions).
          Inr (pl\<lparr>p_mem := mem, p_actions := actions\<rparr>))))"

definition push_value_from_spill_slot_or_mark :: "StackifyContext \<Rightarrow> ValueId \<Rightarrow> ValueId \<Rightarrow> Planner \<Rightarrow> fault + Planner" where
  "push_value_from_spill_slot_or_mark ctx load_from stack_as pl =
     rbind (value_is_imm (c_dfg ctx) load_from) (\<lambda>imm.
     rbind (assert_that (\<not> imm) ''immediates must be pushed via Action::Push'') (\<lambda>_.
     rbind (load_frame_slot_or_placeholder ctx load_from (p_mem pl)) (\<lambda>(act, mem).
       Inr (pl\<lparr>p_mem := mem, p_actions := p_actions pl @ [act], p_stack := push_value stack_as (p_stack pl)\<rparr>))))"

text \<open>Running an operation of the symbolic stack on the stack and the actions of the planner.\<close>

definition on_planned :: "(planned \<Rightarrow> fault + planned) \<Rightarrow> Planner \<Rightarrow> fault + Planner" where
  "on_planned f pl = rbind (f (p_stack pl, p_actions pl)) (\<lambda>(s, a). Inr (pl\<lparr>p_stack := s, p_actions := a\<rparr>))"

definition push_imm_value :: "StackifyContext \<Rightarrow> ValueId \<Rightarrow> Planner \<Rightarrow> fault + Planner" where
  "push_imm_value ctx v pl =
     rbind (value_imm (c_dfg ctx) v) (\<lambda>oi.
     rbind (unwrap oi) (\<lambda>imm. on_planned (\<lambda>p. Inr (push_imm v imm p)) pl))"

section \<open>What the planner emits\<close>

text \<open>
  The word a load reads. A plan is only used when no value was marked for spilling; under that
  condition, when every spilled value is in memory where the plan looks for it and immediates mean
  what they say, the emitted actions take the words of the old stack to the words of the new one.
\<close>

fun loaded_word :: "StackAction \<Rightarrow> 'w Memory \<Rightarrow> 'w option" where
  "loaded_word (MemLoadAbs a) m = Some (at_abs m a)"
| "loaded_word (MemLoadObj a) m = Some (at_obj m a)"
| "loaded_word _ m = None"

definition home_action :: "StackifyContext \<Rightarrow> MemPlan \<Rightarrow> ValueId \<Rightarrow> fault + StackAction" where
  "home_action ctx mem v =
     (case (if uses_scratch ctx v then slot_for v (slots mem) else None) of
        Some slot \<Rightarrow> rbind (slot_offset slot) (\<lambda>off. Inr (MemLoadAbs off))
      | None \<Rightarrow> rbind (obj_of mem v) (\<lambda>obj. Inr (MemLoadObj obj)))"

lemma load_home:
  "v \<in> spill (mp_spill mem) \<Longrightarrow> load_frame_slot_or_placeholder ctx v mem = rbind (home_action ctx mem v) (\<lambda>a. Inr (a, mem))"
  by (simp add: load_frame_slot_or_placeholder_def spilled_def home_action_def rbind_assoc split: option.split)

definition stored_ok :: "StackifyContext \<Rightarrow> MemPlan \<Rightarrow> 'w Meaning \<Rightarrow> 'w Memory \<Rightarrow> bool" where
  "stored_ok ctx mem mn m \<longleftrightarrow> (\<forall>v \<in> spill (mp_spill mem). \<forall>a. home_action ctx mem v = Inr a \<longrightarrow> loaded_word a m = Some (m_value mn v))"

definition imms_ok :: "StackifyContext \<Rightarrow> 'w Meaning \<Rightarrow> bool" where
  "imms_ok ctx mn \<longleftrightarrow> (\<forall>v imm. value_imm (c_dfg ctx) v = Inr (Some imm) \<longrightarrow> m_value mn v = m_imm mn imm)"

definition same_homes :: "MemPlan \<Rightarrow> MemPlan \<Rightarrow> bool" where
  "same_homes mem mem' \<longleftrightarrow> spill (mp_spill mem') = spill (mp_spill mem) \<and> spill_obj mem' = spill_obj mem
     \<and> free_slots mem' = free_slots mem \<and> slots mem' = slots mem
     \<and> spill_requests (mp_spill mem) \<subseteq> spill_requests (mp_spill mem')"

lemma same_homes_refl [simp]: "same_homes mem mem"
  by (simp add: same_homes_def)

lemma same_homes_trans: "same_homes a b \<Longrightarrow> same_homes b c \<Longrightarrow> same_homes a c"
  by (auto simp: same_homes_def)

lemma load_homes:
  "load_frame_slot_or_placeholder ctx v mem = Inr (a, mem') \<Longrightarrow> same_homes mem mem'
    \<and> (v \<notin> spill (mp_spill mem) \<longrightarrow> v \<in> spill_requests (mp_spill mem'))"
  by (cases "v \<in> spill (mp_spill mem)")
    (auto simp: load_home, auto simp: load_frame_slot_or_placeholder_def same_homes_def request_spill_def spilled_def)

lemma same_homes_action: "same_homes mem mem' \<Longrightarrow> home_action ctx mem' v = home_action ctx mem v"
  by (simp add: same_homes_def home_action_def obj_of_def cong: option.case_cong)

lemma same_homes_stored: "same_homes mem mem' \<Longrightarrow> stored_ok ctx mem' mn m = stored_ok ctx mem mn m"
  using same_homes_action [of mem mem' ctx] by (simp add: stored_ok_def) (simp add: same_homes_def)

definition plans :: "StackifyContext \<Rightarrow> 'w Meaning \<Rightarrow> 'w Memory \<Rightarrow> Planner \<Rightarrow> Planner \<Rightarrow> bool" where
  "plans ctx mn m pl pl' \<longleftrightarrow> same_homes (p_mem pl) (p_mem pl')
     \<and> (spill_requests (mp_spill (p_mem pl')) = {} \<and> stored_ok ctx (p_mem pl) mn m \<and> imms_ok ctx mn \<longrightarrow>
          emits mn m (p_stack pl, p_actions pl) (p_stack pl', p_actions pl'))"

lemma plans_refl [simp, intro]: "plans ctx mn m pl pl"
  by (simp add: plans_def)

lemma plans_trans [trans]: "plans ctx mn m a b \<Longrightarrow> plans ctx mn m b c \<Longrightarrow> plans ctx mn m a c"
proof -
  assume ab: "plans ctx mn m a b" and bc: "plans ctx mn m b c"
  then have h: "same_homes (p_mem a) (p_mem b)" "same_homes (p_mem b) (p_mem c)" by (simp_all add: plans_def)
  then have r: "spill_requests (mp_spill (p_mem b)) \<subseteq> spill_requests (mp_spill (p_mem c))" by (simp add: same_homes_def)
  show ?thesis using ab bc r same_homes_trans [OF h] same_homes_stored [OF h(1), of ctx mn m]
    by (auto simp: plans_def intro: emits_trans)
qed

lemma plans_on_planned:
  assumes "on_planned f pl = Inr pl'" and "\<And>p'. f (p_stack pl, p_actions pl) = Inr p' \<Longrightarrow> emits mn m (p_stack pl, p_actions pl) p'"
  shows "plans ctx mn m pl pl'"
proof -
  from assms(1) obtain s a where f: "f (p_stack pl, p_actions pl) = Inr (s, a)" and pl': "pl' = pl\<lparr>p_stack := s, p_actions := a\<rparr>"
    by (auto simp: on_planned_def)
  from assms(2) [OF f] pl' show ?thesis by (simp add: plans_def)
qed

lemma plans_push_imm: "push_imm_value ctx v pl = Inr pl' \<Longrightarrow> plans ctx mn m pl pl'"
proof -
  assume "push_imm_value ctx v pl = Inr pl'"
  then obtain imm where i: "value_imm (c_dfg ctx) v = Inr (Some imm)"
    and pl': "pl' = pl\<lparr>p_stack := push_value v (p_stack pl), p_actions := p_actions pl @ [Push imm]\<rparr>"
    by (auto simp: push_imm_value_def on_planned_def push_imm_def)
  have "emits mn m (p_stack pl, p_actions pl) (push_imm v imm (p_stack pl, p_actions pl))" if "imms_ok ctx mn"
    using that i by (intro emits_push_imm) (simp add: imms_ok_def)
  with pl' show ?thesis by (auto simp: plans_def push_imm_def)
qed

lemma plans_push_load: "push_value_from_spill_slot_or_mark ctx v v pl = Inr pl' \<Longrightarrow> plans ctx mn m pl pl'"
proof -
  assume "push_value_from_spill_slot_or_mark ctx v v pl = Inr pl'"
  then obtain a mem where l: "load_frame_slot_or_placeholder ctx v (p_mem pl) = Inr (a, mem)"
    and pl': "pl' = pl\<lparr>p_mem := mem, p_actions := p_actions pl @ [a], p_stack := push_value v (p_stack pl)\<rparr>"
    by (auto simp: push_value_from_spill_slot_or_mark_def)
  have "emits mn m (p_stack pl, p_actions pl) (Value v # p_stack pl, p_actions pl @ [a])"
    if "spill_requests (mp_spill mem) = {}" "stored_ok ctx (p_mem pl) mn m"
  proof -
    have "v \<in> spill (mp_spill (p_mem pl))" using load_homes [OF l] that(1) by auto
    with that(2) l have "loaded_word a m = Some (m_value mn v)" by (auto simp: stored_ok_def load_home)
    then show ?thesis by (cases a) (auto intro!: emits_one)
  qed
  with load_homes [OF l] pl' show ?thesis by (auto simp: plans_def push_value_def)
qed

end
