(* ===== verification/Normalize.thy ===== *)
theory Normalize
  imports Planner
begin

text \<open>
  \<open>stackalloc/stackify/planner/normalize.rs\<close>: rewriting the stack above the return address to a wanted
  list of values. First the extra items are deleted, the missing ones duplicated, pushed or loaded, and
  the result permuted; when that is out of reach of DUP and SWAP, everything above the common suffix is
  popped and built anew.
\<close>

section \<open>Normalization\<close>

definition matches_exact :: "SymStack \<Rightarrow> ValueId list \<Rightarrow> bool" where
  "matches_exact s desired \<longleftrightarrow> len_above_func_ret s = length desired
     \<and> list_all (\<lambda>(item, v). item = Value v) (zip (take (len_above_func_ret s) s) desired)"

text \<open>A \<open>BTreeMap<ValueId, usize>\<close> of counts, absent keys being zero.\<close>

definition count_values :: "ValueId list \<Rightarrow> ValueId \<Rightarrow> nat" where
  "count_values vs = fold (\<lambda>v m. m(v := Suc (m v))) vs (\<lambda>_. 0)"

text \<open>The loop from the deepest item up that chooses what to keep.\<close>

fun mark_keep :: "StackItem list \<Rightarrow> (ValueId \<Rightarrow> nat) \<Rightarrow> bool list \<Rightarrow> bool list option" where
  "mark_keep [] remaining keep = Some keep"
| "mark_keep (Value v # items) remaining keep =
     (if remaining v = 0 then mark_keep items remaining (False # keep)
      else mark_keep items (remaining(v := remaining v - 1)) (True # keep))"
| "mark_keep (_ # items) remaining keep = None"

definition swap_mask :: "nat \<Rightarrow> bool list \<Rightarrow> fault + bool list" where
  "swap_mask d keep = (if d < length keep then Inr (swap_items d keep) else Inl (Panic ''index out of bounds''))"

definition drop_mask :: "bool list \<Rightarrow> fault + bool list" where
  "drop_mask keep = (case keep of False # ks \<Rightarrow> Inr ks | _ \<Rightarrow> Inl (Panic ''expected deletable value on top''))"

text \<open>One swap of the top with position \<open>d\<close>, in the stack and in the mask, and a pop.\<close>

definition swap_and_pop :: "nat \<Rightarrow> bool list \<times> planned \<Rightarrow> fault + (bool list \<times> planned)" where
  "swap_and_pop d = (\<lambda>(keep, p).
     rbind (stk_swap d p) (\<lambda>p. rbind (swap_mask d keep) (\<lambda>keep. rbind (stk_pop p) (\<lambda>p. rbind (drop_mask keep) (\<lambda>keep. Inr (keep, p))))))"

primrec bulk_sink :: "nat \<Rightarrow> nat \<Rightarrow> bool list \<times> planned \<Rightarrow> fault + (nat \<times> bool list \<times> planned)" where
  "bulk_sink 0 run kp = Inr (run, kp)"
| "bulk_sink (Suc prefix) run kp = rbind (swap_and_pop (Suc prefix + run - 1) kp) (bulk_sink prefix (run - 1))"

primrec bulk_pop :: "nat \<Rightarrow> bool list \<times> planned \<Rightarrow> fault + (bool list \<times> planned)" where
  "bulk_pop 0 kp = Inr kp"
| "bulk_pop (Suc n) kp = (case kp of (keep, p) \<Rightarrow>
     rbind (stk_pop p) (\<lambda>p. rbind (drop_mask keep) (\<lambda>keep. bulk_pop n (keep, p))))"

lemma drop_mask_eq_Inr [simp]: "drop_mask keep = Inr ks \<longleftrightarrow> keep = False # ks"
  by (auto simp: drop_mask_def split: list.splits bool.splits)

lemma swap_and_pop_length: "swap_and_pop d kp = Inr kp' \<Longrightarrow> length (fst kp) = Suc (length (fst kp'))"
  by (auto simp: swap_and_pop_def swap_mask_def split: prod.splits if_splits dest: arg_cong [where f = length])

lemma bulk_sink_length: "bulk_sink n run kp = Inr (run', kp') \<Longrightarrow> length (fst kp) = length (fst kp') + n"
  by (induction n arbitrary: run kp) (auto dest!: swap_and_pop_length)

lemma bulk_pop_length: "bulk_pop n kp = Inr kp' \<Longrightarrow> length (fst kp) = length (fst kp') + n"
  by (induction n arbitrary: kp) (auto split: prod.splits)

function delete_unkept_values :: "bool list \<times> planned \<Rightarrow> fault + planned" where
  "delete_unkept_values kp =
     (if list_all id (fst kp) then Inr (snd kp)
      else if \<not> hd (fst kp) then rbind (bulk_pop 1 kp) delete_unkept_values
      else
        let keep = fst kp;
            keep_prefix_len = length (takeWhile id keep);
            run_len = length (takeWhile (\<lambda>k. \<not> k) (drop keep_prefix_len keep));
            can_bulk_delete = run_len \<noteq> 0 \<and> keep_prefix_len + run_len < length keep
              \<and> run_len > keep_prefix_len * 2 - 1
        in if can_bulk_delete then
             rbind (bulk_sink keep_prefix_len run_len kp) (\<lambda>(run, kp). rbind (bulk_pop run kp) delete_unkept_values)
           else
             rbind (unwrap (position (\<lambda>k. \<not> k) keep)) (\<lambda>pos. rbind (swap_and_pop pos kp) delete_unkept_values))"
  by pat_completeness auto
termination
proof (relation "measure (\<lambda>kp. length (fst kp))", goal_cases)
  case 1
  show ?case by simp
next
  case (2 kp x)
  then show ?case using bulk_pop_length [OF 2(3)] by simp
next
  case (3 kp keep pre run can r run' kp' kp'')
  have "keep \<noteq> []" "hd keep" using 3(1-3) by auto
  then have "0 < pre" using 3(4) by (cases keep) auto
  with 3 bulk_sink_length [of pre run kp run' kp'] bulk_pop_length [of run' kp' kp''] show ?case by simp
next
  case (4 kp keep pre run can pos kp')
  then show ?case by (auto dest: swap_and_pop_length)
qed

declare delete_unkept_values.simps [simp del]

definition delete_to_match_multiset :: "(ValueId \<Rightarrow> nat) \<Rightarrow> Planner \<Rightarrow> fault + (bool \<times> Planner)" where
  "delete_to_match_multiset req pl =
     (case mark_keep (rev (take (len_above_func_ret (p_stack pl)) (p_stack pl))) req [] of
        None \<Rightarrow> Inr (False, pl)
      | Some keep \<Rightarrow> rbind (on_planned (\<lambda>p. delete_unkept_values (keep, p)) pl) (\<lambda>pl. Inr (True, pl)))"

text \<open>The length of the prefix of immediates.\<close>

fun imm_prefix_len :: "DataFlowGraph \<Rightarrow> ValueId list \<Rightarrow> fault + nat" where
  "imm_prefix_len d [] = Inr 0"
| "imm_prefix_len d (v # vs) =
     rbind (value_is_imm d v) (\<lambda>imm. if imm then rbind (imm_prefix_len d vs) (\<lambda>n. Inr (Suc n)) else Inr 0)"

fun push_imms :: "StackifyContext \<Rightarrow> ValueId list \<Rightarrow> Planner \<Rightarrow> fault + Planner" where
  "push_imms ctx [] pl = Inr pl"
| "push_imms ctx (v # vs) pl = rbind (push_imm_value ctx v pl) (push_imms ctx vs)"

text \<open>One more copy of \<open>v\<close>, by PUSH, DUP or a load; \<open>n\<close> copies; the missing copies of each value in order.\<close>

definition materialize_one :: "StackifyContext \<Rightarrow> ValueId \<Rightarrow> Planner \<Rightarrow> fault + Planner" where
  "materialize_one ctx v pl =
     rbind (value_is_imm (c_dfg ctx) v) (\<lambda>imm.
       if imm then push_imm_value ctx v pl
       else case find_reachable_value v (dup_max (reach ctx)) (p_stack pl) of
              Some pos \<Rightarrow> on_planned (stk_dup pos) pl
            | None \<Rightarrow> push_value_from_spill_slot_or_mark ctx v v pl)"

primrec materialize_n :: "StackifyContext \<Rightarrow> ValueId \<Rightarrow> nat \<Rightarrow> Planner \<Rightarrow> fault + Planner" where
  "materialize_n ctx v 0 pl = Inr pl"
| "materialize_n ctx v (Suc n) pl = rbind (materialize_one ctx v pl) (materialize_n ctx v n)"

fun materialize_all :: "StackifyContext \<Rightarrow> (ValueId \<Rightarrow> nat) \<Rightarrow> (ValueId \<Rightarrow> nat) \<Rightarrow> ValueId list \<Rightarrow> Planner \<Rightarrow> fault + Planner" where
  "materialize_all ctx req cur [] pl = Inr pl"
| "materialize_all ctx req cur (v # vs) pl = rbind (materialize_n ctx v (req v - cur v) pl) (materialize_all ctx req cur vs)"

text \<open>The loop over the depths from the bottom up that permutes with two swaps a step.\<close>

fun permute :: "(nat \<times> ValueId) list \<Rightarrow> planned \<Rightarrow> fault + (bool \<times> planned)" where
  "permute [] p = Inr (True, p)"
| "permute ((depth, want) # ds) p =
     (if item_at depth (fst p) = Some (Value want) then permute ds p
      else case find_reachable_value want (depth + 1) (fst p) of
             None \<Rightarrow> Inr (False, p)
           | Some pos \<Rightarrow>
               rbind (if pos \<noteq> 0 then stk_swap pos p else Inr p) (\<lambda>p.
               rbind (stk_swap depth p) (\<lambda>p.
               rbind (assert_that (item_at depth (fst p) = Some (Value want)) ''permuted value not in place'') (\<lambda>_.
                 permute ds p))))"

fun values_on :: "SymStack \<Rightarrow> ValueId list" where
  "values_on [] = []"
| "values_on (Value v # s) = v # values_on s"
| "values_on (_ # s) = values_on s"

definition permute_to :: "ValueId list \<Rightarrow> Planner \<Rightarrow> fault + (bool \<times> Planner)" where
  "permute_to desired pl =
     (let base_len = common_suffix_len desired (p_stack pl);
          permute_limit = length desired - base_len
      in rbind (permute (rev (zip [0..<permute_limit] (take permute_limit desired))) (p_stack pl, p_actions pl)) (\<lambda>(ok, s, a).
           Inr (ok, pl\<lparr>p_stack := s, p_actions := a\<rparr>)))"

text \<open>Without a leading immediate: delete, materialize, permute.\<close>

definition normalize_tail :: "StackifyContext \<Rightarrow> ValueId list \<Rightarrow> Planner \<Rightarrow> fault + (bool \<times> Planner)" where
  "normalize_tail ctx desired pl =
     (let req = count_values desired
      in rbind (delete_to_match_multiset req pl) (\<lambda>(ok, pl).
         if \<not> ok then Inr (False, pl)
         else if len_above_func_ret (p_stack pl) > swap_max (reach ctx) then Inr (False, pl)
         else
           let cur = count_values (values_on (take (len_above_func_ret (p_stack pl)) (p_stack pl)))
           in rbind (materialize_all ctx req cur (sorted_list_of_set (set desired)) pl) (\<lambda>pl.
              if len_above_func_ret (p_stack pl) \<noteq> length desired then Inr (False, pl)
              else permute_to desired pl)))"

lemma imm_prefix_len_le: "imm_prefix_len d vs = Inr n \<Longrightarrow> n \<le> length vs"
  by (induction d vs arbitrary: n rule: imm_prefix_len.induct) (fastforce split: if_splits)+

function try_normalize_to_exact :: "StackifyContext \<Rightarrow> ValueId list \<Rightarrow> Planner \<Rightarrow> fault + (bool \<times> Planner)" where
  "try_normalize_to_exact ctx desired pl =
     (if length desired > swap_max (reach ctx) then Inr (False, pl)
      else if len_above_func_ret (p_stack pl) > swap_max (reach ctx) then Inr (False, pl)
      else rbind (imm_prefix_len (c_dfg ctx) desired) (\<lambda>n.
        if n \<noteq> 0 then
          rbind (try_normalize_to_exact ctx (drop n desired) pl) (\<lambda>(ok, pl).
            if \<not> ok then Inr (False, pl)
            else rbind (push_imms ctx (rev (take n desired)) pl) (\<lambda>pl. Inr (True, pl)))
        else normalize_tail ctx desired pl))"
  by pat_completeness auto
termination
  by (relation "measure (\<lambda>(ctx, desired, pl). length desired)") (auto dest: imm_prefix_len_le)

declare try_normalize_to_exact.simps [simp del]

lemma on_stk_pop_length: "on_planned stk_pop pl = Inr pl' \<Longrightarrow> length (p_stack pl) = Suc (length (p_stack pl'))"
  by (auto simp: on_planned_def dest: stk_pop_length)

function pop_to_base :: "nat \<Rightarrow> Planner \<Rightarrow> fault + Planner" where
  "pop_to_base base_len pl =
     (if len_above_func_ret (p_stack pl) > base_len then rbind (on_planned stk_pop pl) (pop_to_base base_len) else Inr pl)"
  by pat_completeness auto
termination
  by (relation "measure (\<lambda>(n, pl). length (p_stack pl))") (auto dest: on_stk_pop_length)

declare pop_to_base.simps [simp del]

fun rebuild :: "StackifyContext \<Rightarrow> ValueId list \<Rightarrow> Planner \<Rightarrow> fault + Planner" where
  "rebuild ctx [] pl = Inr pl"
| "rebuild ctx (v # vs) pl =
     rbind (value_is_imm (c_dfg ctx) v) (\<lambda>imm.
     rbind (if imm then push_imm_value ctx v pl else push_value_from_spill_slot_or_mark ctx v v pl) (rebuild ctx vs))"

definition flush_rebuild :: "StackifyContext \<Rightarrow> ValueId list \<Rightarrow> Planner \<Rightarrow> fault + Planner" where
  "flush_rebuild ctx desired pl =
     (let base_len = common_suffix_len desired (p_stack pl)
      in rbind (pop_to_base base_len pl) (rebuild ctx (rev (take (length desired - base_len) desired))))"

definition normalize_to_exact :: "StackifyContext \<Rightarrow> ValueId list \<Rightarrow> Planner \<Rightarrow> fault + Planner" where
  "normalize_to_exact ctx desired pl =
     (if matches_exact (p_stack pl) desired then Inr pl
      else rbind (try_normalize_to_exact ctx desired pl) (\<lambda>(ok, pl).
        if ok then Inr pl else flush_rebuild ctx desired pl))"

lemma stk_pop_n_length: "stk_pop_n n p = Inr p' \<Longrightarrow> length (fst p) = length (fst p') + n"
  by (induction n arbitrary: p) (auto dest: stk_pop_length)

lemma stk_swap_length: "stk_swap d p = Inr p' \<Longrightarrow> length (fst p') = length (fst p)"
  by (auto simp: stk_swap_def split: prod.splits if_splits)

text \<open>The loop that sinks the return value; a swap of depth zero is excluded by the assertion.\<close>

function delete_between_top_and_func_ret :: "nat \<Rightarrow> planned \<Rightarrow> fault + planned" where
  "delete_between_top_and_func_ret reach_dup p =
     (case func_ret_index (fst p) of
        None \<Rightarrow> Inr p
      | Some barrier_pos \<Rightarrow>
          if barrier_pos \<le> 1 then Inr p
          else
            let swap_depth = min (barrier_pos - 1) reach_dup
            in rbind (assert_that (1 \<le> swap_depth) ''swap_depth >= 1'') (\<lambda>_.
               rbind (stk_swap swap_depth p) (\<lambda>p.
               rbind (stk_pop_n swap_depth p) (delete_between_top_and_func_ret reach_dup))))"
  by pat_completeness auto
termination
proof (relation "measure (\<lambda>(n, p). length (fst p))", goal_cases)
  case (2 n p pos d u p1 p2)
  then show ?case using stk_swap_length [of d p p1] stk_pop_n_length [of d p1 p2] by auto
qed simp

declare delete_between_top_and_func_ret.simps [simp del]

section \<open>Deleting what is not kept\<close>

definition kept :: "bool list \<Rightarrow> 'a list \<Rightarrow> 'a list" where
  "kept keep xs = map snd (filter fst (zip keep xs))"

lemma kept_simps [simp]:
  "kept [] xs = []" "kept keep [] = []" "kept (b # keep) (x # xs) = (if b then x # kept keep xs else kept keep xs)"
  by (simp_all add: kept_def)

lemma kept_append:
  "length ks = length xs \<Longrightarrow> kept (ks @ ks') (xs @ xs') = kept ks xs @ kept ks' xs'"
  by (simp add: kept_def)

lemma kept_all: "list_all id keep \<Longrightarrow> length keep = length xs \<Longrightarrow> kept keep xs = xs"
  by (induction keep xs rule: list_induct2') auto

lemma swap_items_Nil [simp]: "swap_items d xs = [] \<longleftrightarrow> xs = []"
  by (metis length_0_conv length_swap_items)

lemma zip_swap_items:
  "length xs = length ys \<Longrightarrow> d < length xs \<Longrightarrow> zip (swap_items d xs) (swap_items d ys) = swap_items d (zip xs ys)"
  by (rule nth_equalityI) (auto simp: nth_swap_items intro: nth_zip [symmetric])

lemma mset_kept_swap:
  assumes "length keep = length xs" and "d < length xs"
  shows "mset (kept (swap_items d keep) (swap_items d xs)) = mset (kept keep xs)"
  using assms by (simp add: kept_def zip_swap_items mset_swap_items)

lemma kept_tl: "length keep = length xs \<Longrightarrow> keep \<noteq> [] \<Longrightarrow> \<not> hd keep \<Longrightarrow> kept (tl keep) (tl xs) = kept keep xs"
  by (cases keep; cases xs) auto

text \<open>The states of the deletion: a mask over the items above the barrier, within reach.\<close>

definition masked :: "SymStack \<Rightarrow> bool list \<times> planned \<Rightarrow> SymStack \<Rightarrow> bool" where
  "masked dn kp up \<longleftrightarrow> fst (snd kp) = up @ dn \<and> length (fst kp) = length up \<and> length up \<le> 17
     \<and> FuncRetAddr \<notin> set up \<and> barrier dn"

lemma swap_and_pop_masked:
  assumes m: "masked dn kp up" and d: "d < length up" and k: "\<not> fst kp ! d"
  obtains a where "swap_and_pop d kp = Inr (tl (swap_items d (fst kp)), tl (swap_items d up) @ dn, a)"
    "masked dn (tl (swap_items d (fst kp)), tl (swap_items d up) @ dn, a) (tl (swap_items d up))"
    "mset (kept (tl (swap_items d (fst kp))) (tl (swap_items d up))) = mset (kept (fst kp) up)"
proof -
  obtain keep s a where kp: "kp = (keep, s, a)" by (cases kp) auto
  let ?u = "swap_items d up" and ?k = "swap_items d keep"
  from m kp have s: "s = up @ dn" "length keep = length up" "length up \<le> 17" "FuncRetAddr \<notin> set up" "barrier dn"
    by (auto simp: masked_def)
  have u: "length ?u = length up" "FuncRetAddr \<notin> set ?u" "?u \<noteq> []" "?k \<noteq> []" using d s by auto
  have "up \<noteq> []" using d by auto
  with k kp d s(2) u(4) have k0: "\<not> hd ?k" by (simp add: hd_conv_nth nth_swap_items)
  obtain x xs where xs: "?u = x # xs" using u(3) by (cases ?u) auto
  then have x: "x \<noteq> FuncRetAddr" using u(2) by auto
  obtain ks where ks: "?k = False # ks" using u(4) k0 by (cases ?k) auto
  have "stk_swap d (up @ dn, a) = Inr (?u @ dn, a @ (if d = 0 then [] else [StackSwap d]))"
    using stk_swap_above s d by simp
  then have r: "swap_and_pop d kp = Inr (ks, xs @ dn, (a @ (if d = 0 then [] else [StackSwap d])) @ [PopTop])"
    using kp s d u(2) xs ks stk_pop_above [OF x] by (simp add: swap_and_pop_def swap_mask_def)
  have "length ks = length xs" using xs ks s(2) by (metis length_Cons length_swap_items nat.inject)
  moreover have "kept ks xs = kept ?k ?u" using xs ks by simp
  then have "mset (kept ks xs) = mset (kept keep up)" using mset_kept_swap [OF s(2) d] by simp
  moreover have "length xs \<le> 17" using u(1) xs s(3) by simp
  ultimately show thesis using r xs ks kp s u(2) by (intro that) (auto simp: masked_def)
qed

lemma bulk_pop_masked:
  "masked dn kp up \<Longrightarrow> fst kp = replicate n False @ ks \<Longrightarrow>
    \<exists>a. bulk_pop n kp = Inr (ks, drop n up @ dn, a) \<and> masked dn (ks, drop n up @ dn, a) (drop n up)
      \<and> kept ks (drop n up) = kept (fst kp) up"
proof (induction n arbitrary: kp up)
  case 0
  then show ?case by (cases kp) (auto simp: masked_def)
next
  case (Suc n)
  obtain s a where kp: "kp = (False # replicate n False @ ks, s, a)" using Suc.prems(2) by (cases kp) auto
  then obtain x xs where up: "up = x # xs" using Suc.prems(1) by (cases up) (auto simp: masked_def)
  have m: "masked dn (replicate n False @ ks, xs @ dn, a @ [PopTop]) xs" and s: "s = x # xs @ dn" "x \<noteq> FuncRetAddr"
    using Suc.prems(1) kp up by (auto simp: masked_def)
  from Suc.IH [OF m] up kp s show ?case by (simp add: stk_pop_above)
qed

lemma swap_true_false:
  "swap_items (Suc (n + run)) (replicate (Suc n) True @ replicate (Suc run) False @ ks)
     = False # replicate n True @ replicate run False @ True # ks"
proof -
  have "replicate (Suc n) True @ replicate (Suc run) False @ ks = True # (replicate n True @ replicate run False) @ False # ks"
    by (simp add: replicate_app_Cons_same)
  then show ?thesis by (auto simp: swap_items_def nth_append list_update_append split: nat.split)
qed

lemma bulk_sink_masked:
  "masked dn kp up \<Longrightarrow> fst kp = replicate n True @ replicate (n + r) False @ ks \<Longrightarrow>
    \<exists>up' a. bulk_sink n (n + r) kp = Inr (r, replicate r False @ replicate n True @ ks, up' @ dn, a)
      \<and> masked dn (replicate r False @ replicate n True @ ks, up' @ dn, a) up'
      \<and> mset (kept (replicate r False @ replicate n True @ ks) up') = mset (kept (fst kp) up)"
proof (induction n arbitrary: kp up ks)
  case 0
  then show ?case by (cases kp) (auto simp: masked_def)
next
  case (Suc n)
  let ?d = "Suc (n + (n + r))" and ?ks = "True # ks"
  have f: "fst kp = replicate (Suc n) True @ replicate (Suc (n + r)) False @ ks" using Suc.prems(2) by simp
  have d: "?d < length up" using Suc.prems(1) f by (simp add: masked_def)
  have k: "\<not> fst kp ! ?d" unfolding f by (simp add: nth_append del: replicate_Suc)
  obtain a where sp: "swap_and_pop ?d kp = Inr (tl (swap_items ?d (fst kp)), tl (swap_items ?d up) @ dn, a)"
    and m: "masked dn (tl (swap_items ?d (fst kp)), tl (swap_items ?d up) @ dn, a) (tl (swap_items ?d up))"
    and ms: "mset (kept (tl (swap_items ?d (fst kp))) (tl (swap_items ?d up))) = mset (kept (fst kp) up)"
    by (rule swap_and_pop_masked [OF Suc.prems(1) d k])
  have t: "tl (swap_items ?d (fst kp)) = replicate n True @ replicate (n + r) False @ ?ks"
    unfolding f swap_true_false by simp
  note sp = sp [unfolded t] and m = m [unfolded t] and ms = ms [unfolded t]
  have "fst (replicate n True @ replicate (n + r) False @ ?ks, tl (swap_items ?d up) @ dn, a) = replicate n True @ replicate (n + r) False @ ?ks"
    by simp
  from Suc.IH [OF m this] ms obtain up' a' where
    "bulk_sink n (n + r) (replicate n True @ replicate (n + r) False @ ?ks, tl (swap_items ?d up) @ dn, a)
       = Inr (r, replicate r False @ replicate n True @ ?ks, up' @ dn, a')"
    "masked dn (replicate r False @ replicate n True @ ?ks, up' @ dn, a') up'"
    "mset (kept (replicate r False @ replicate n True @ ?ks) up') = mset (kept (fst kp) up)"
    by auto
  moreover have "replicate n True @ ?ks = replicate (Suc n) True @ ks" by (simp add: replicate_app_Cons_same)
  ultimately have "bulk_sink (Suc n) (Suc n + r) kp = Inr (r, replicate r False @ replicate (Suc n) True @ ks, up' @ dn, a')"
    "masked dn (replicate r False @ replicate (Suc n) True @ ks, up' @ dn, a') up'"
    "mset (kept (replicate r False @ replicate (Suc n) True @ ks) up') = mset (kept (fst kp) up)"
    using sp by (simp_all del: replicate_Suc)
  then show ?case by blast
qed

lemma takeWhile_replicate:
  "xs = replicate (length (takeWhile id xs)) True @ dropWhile id xs"
  "xs = replicate (length (takeWhile HOL.Not xs)) False @ dropWhile HOL.Not xs"
  by (induction xs) auto

lemma run_split:
  assumes "n = length (takeWhile id keep)" and "r = length (takeWhile HOL.Not (drop n keep))"
  shows "\<exists>ks. keep = replicate n True @ replicate r False @ ks"
proof -
  have d: "drop n keep = dropWhile id keep" using assms(1) by (simp add: dropWhile_eq_drop)
  have "keep = replicate n True @ drop n keep" by (metis assms(1) d takeWhile_replicate(1))
  moreover have "drop n keep = replicate r False @ dropWhile HOL.Not (drop n keep)"
    by (metis assms(2) takeWhile_replicate(2))
  ultimately show ?thesis by metis
qed

lemma delete_unkept_masked:
  "masked dn kp up \<Longrightarrow> \<exists>up' a. delete_unkept_values kp = Inr (up' @ dn, a) \<and> mset up' = mset (kept (fst kp) up)"
proof (induction kp arbitrary: up rule: delete_unkept_values.induct)
  case (1 kp)
  obtain keep s a where kp: "kp = (keep, s, a)" by (cases kp) auto
  from "1.prems" kp have s: "s = up @ dn" "length keep = length up" by (auto simp: masked_def)
  show ?case
  proof (cases "list_all id keep")
    case True
    then show ?thesis using kp s by (subst delete_unkept_values.simps) (auto simp: kept_all)
  next
    case False
    then have ne: "keep \<noteq> []" by auto
    show ?thesis
    proof (cases "hd keep")
      case h: False
      then have "fst kp = replicate 1 False @ tl keep" using kp ne by (cases keep) auto
      from bulk_pop_masked [OF "1.prems" this] obtain a' where
        b: "bulk_pop 1 kp = Inr (tl keep, drop 1 up @ dn, a')" "masked dn (tl keep, drop 1 up @ dn, a') (drop 1 up)"
        "kept (tl keep) (drop 1 up) = kept keep up" using kp by auto
      have "\<not> list_all id (fst kp)" "\<not> hd (fst kp)" using False h kp by auto
      from "1.IH"(1) [OF this b(1) b(2)] b show ?thesis using False h kp
        by (subst delete_unkept_values.simps) auto
    next
      case h: True
      let ?n = "length (takeWhile id keep)"
      let ?r = "length (takeWhile HOL.Not (drop ?n keep))"
      let ?can = "?r \<noteq> 0 \<and> ?n + ?r < length keep \<and> ?n * 2 - 1 < ?r"
      note c = False h kp
      show ?thesis
      proof (cases ?can)
        case can: True
        from run_split [of ?n keep ?r] obtain ks where ks: "keep = replicate ?n True @ replicate ?r False @ ks" by auto
        have n: "0 < ?n" using h ne by (cases keep) auto
        have "?n \<le> ?r" using can n by linarith
        then obtain r where r: "?r = ?n + r" by (metis le_add_diff_inverse)
        have "fst kp = replicate ?n True @ replicate (?n + r) False @ ks" using ks r kp by simp
        from bulk_sink_masked [OF "1.prems" this] obtain up1 a1 where
          b1: "bulk_sink ?n ?r kp = Inr (r, replicate r False @ replicate ?n True @ ks, up1 @ dn, a1)"
            "masked dn (replicate r False @ replicate ?n True @ ks, up1 @ dn, a1) up1"
            "mset (kept (replicate r False @ replicate ?n True @ ks) up1) = mset (kept keep up)"
          using r kp by auto
        from bulk_pop_masked [OF b1(2), of r "replicate ?n True @ ks"] obtain a2 where
          b2: "bulk_pop r (replicate r False @ replicate ?n True @ ks, up1 @ dn, a1) = Inr (replicate ?n True @ ks, drop r up1 @ dn, a2)"
            "masked dn (replicate ?n True @ ks, drop r up1 @ dn, a2) (drop r up1)"
            "kept (replicate ?n True @ ks) (drop r up1) = kept (replicate r False @ replicate ?n True @ ks) up1"
          by auto
        have "\<exists>up' a. delete_unkept_values (replicate ?n True @ ks, drop r up1 @ dn, a2) = Inr (up' @ dn, a)
            \<and> mset up' = mset (kept (replicate ?n True @ ks) (drop r up1))"
          using "1.IH"(2) [OF _ _ refl refl refl refl, of "(r, replicate r False @ replicate ?n True @ ks, up1 @ dn, a1)"
            r "(replicate r False @ replicate ?n True @ ks, up1 @ dn, a1)" "(replicate ?n True @ ks, drop r up1 @ dn, a2)" "drop r up1"]
            c can b1(1) b2(1,2) by simp
        moreover have "delete_unkept_values kp = delete_unkept_values (replicate ?n True @ ks, drop r up1 @ dn, a2)"
          using c can b1(1) b2(1) by (subst delete_unkept_values.simps) (auto simp: Let_def)
        ultimately show ?thesis using b1(3) b2(3) kp by simp
      next
        case can: False
        have "position HOL.Not keep \<noteq> None" using False by (auto simp: position_None list_all_iff)
        then obtain pos where pos: "position HOL.Not keep = Some pos" by auto
        then have p: "pos < length up" "\<not> fst kp ! pos" using position_SomeD [OF pos] s kp by auto
        obtain a1 where sp: "swap_and_pop pos kp = Inr (tl (swap_items pos (fst kp)), tl (swap_items pos up) @ dn, a1)"
          and m: "masked dn (tl (swap_items pos (fst kp)), tl (swap_items pos up) @ dn, a1) (tl (swap_items pos up))"
          and ms: "mset (kept (tl (swap_items pos (fst kp))) (tl (swap_items pos up))) = mset (kept (fst kp) up)"
          by (rule swap_and_pop_masked [OF "1.prems" p])
        have "\<exists>up' a. delete_unkept_values (tl (swap_items pos (fst kp)), tl (swap_items pos up) @ dn, a1) = Inr (up' @ dn, a)
            \<and> mset up' = mset (kept (tl (swap_items pos (fst kp))) (tl (swap_items pos up)))"
          using "1.IH"(3) [OF _ _ refl refl refl refl _ _ sp m] c can pos by simp
        moreover have "delete_unkept_values kp = delete_unkept_values (tl (swap_items pos (fst kp)), tl (swap_items pos up) @ dn, a1)"
          using c can pos sp by (subst delete_unkept_values.simps) (auto simp: Let_def)
        ultimately show ?thesis using ms by simp
      qed
    qed
  qed
qed

section \<open>Steps that end\<close>

text \<open>
  The assumptions on the context: the reach the constructor gives, an object or a slot for every
  spilled value, value ids that exist.
\<close>

definition reach_ok :: "StackifyContext \<Rightarrow> bool" where
  "reach_ok ctx \<longleftrightarrow> 1 \<le> dup_max (reach ctx) \<and> dup_max (reach ctx) \<le> 16 \<and> swap_max (reach ctx) = dup_max (reach ctx) + 1"

definition homes_ok :: "StackifyContext \<Rightarrow> MemPlan \<Rightarrow> bool" where
  "homes_ok ctx mem \<longleftrightarrow> (\<forall>v \<in> spill (mp_spill mem). \<exists>a. home_action ctx mem v = Inr a)"

definition valid_values :: "StackifyContext \<Rightarrow> ValueId list \<Rightarrow> bool" where
  "valid_values ctx vs \<longleftrightarrow> (\<forall>v \<in> set vs. v < length (d_values (c_dfg ctx)))"

definition is_imm :: "StackifyContext \<Rightarrow> ValueId \<Rightarrow> bool" where
  "is_imm ctx v = (case d_values (c_dfg ctx) ! v of V_Immediate _ _ \<Rightarrow> True | _ \<Rightarrow> False)"

lemma reachability_new_ok: "reachability_new d = Inr r \<Longrightarrow> reach_ok (ctx\<lparr>reach := r\<rparr>)"
  by (auto simp: reachability_new_def reach_ok_def)

lemma value_is_imm_valid: "v < length (d_values (c_dfg ctx)) \<Longrightarrow> value_is_imm (c_dfg ctx) v = Inr (is_imm ctx v)"
  by (simp add: value_is_imm_def get_value_def index_list_def is_imm_def)

lemma value_imm_valid:
  "v < length (d_values (c_dfg ctx)) \<Longrightarrow> is_imm ctx v \<Longrightarrow> \<exists>imm. value_imm (c_dfg ctx) v = Inr (Some imm)"
  by (auto simp: value_imm_def get_value_def index_list_def is_imm_def split: Value.splits)

definition reaches :: "StackifyContext \<Rightarrow> 'w Meaning \<Rightarrow> 'w Memory \<Rightarrow> Planner \<Rightarrow> fault + Planner \<Rightarrow> SymStack \<Rightarrow> bool" where
  "reaches ctx mn m pl r s' \<longleftrightarrow> (\<exists>pl'. r = Inr pl' \<and> p_stack pl' = s' \<and> plans ctx mn m pl pl')"

lemma plans_homes: "plans ctx mn m pl pl' \<Longrightarrow> homes_ok ctx (p_mem pl') = homes_ok ctx (p_mem pl)"
  using same_homes_action [of "p_mem pl" "p_mem pl'" ctx] by (simp add: plans_def homes_ok_def) (simp add: same_homes_def)

lemma reaches_bind:
  assumes "reaches ctx mn m pl r s'" and "\<And>pl'. p_stack pl' = s' \<Longrightarrow> plans ctx mn m pl pl' \<Longrightarrow> reaches ctx mn m pl' (g pl') s''"
  shows "reaches ctx mn m pl (rbind r g) s''"
proof -
  from assms(1) obtain pl' where r: "r = Inr pl'" "p_stack pl' = s'" "plans ctx mn m pl pl'" by (auto simp: reaches_def)
  from assms(2) [OF r(2,3)] r show ?thesis by (auto simp: reaches_def intro: plans_trans)
qed

lemma reaches_done: "p_stack pl = s' \<Longrightarrow> reaches ctx mn m pl (Inr pl) s'"
  by (auto simp: reaches_def)

lemma reaches_on_planned:
  assumes "f (p_stack pl, p_actions pl) = Inr (s', a)" and "emits mn m (p_stack pl, p_actions pl) (s', a)"
  shows "reaches ctx mn m pl (on_planned f pl) s'"
  using assms by (auto simp: reaches_def on_planned_def plans_def)

lemma reaches_push_imm:
  assumes "v < length (d_values (c_dfg ctx))" and "is_imm ctx v"
  shows "reaches ctx mn m pl (push_imm_value ctx v pl) (Value v # p_stack pl)"
proof -
  from value_imm_valid [OF assms] obtain imm where "value_imm (c_dfg ctx) v = Inr (Some imm)" by blast
  then have "push_imm_value ctx v pl = Inr (pl\<lparr>p_stack := Value v # p_stack pl, p_actions := p_actions pl @ [Push imm]\<rparr>)"
    by (simp add: push_imm_value_def on_planned_def push_imm_def push_value_def)
  with plans_push_imm [OF this] show ?thesis by (simp add: reaches_def)
qed

lemma reaches_push_load:
  assumes "v < length (d_values (c_dfg ctx))" and "\<not> is_imm ctx v" and "homes_ok ctx (p_mem pl)"
  shows "reaches ctx mn m pl (push_value_from_spill_slot_or_mark ctx v v pl) (Value v # p_stack pl)"
proof -
  have "\<exists>a mem. load_frame_slot_or_placeholder ctx v (p_mem pl) = Inr (a, mem)"
  proof (cases "v \<in> spill (mp_spill (p_mem pl))")
    case True
    with assms(3) show ?thesis by (auto simp: load_home homes_ok_def)
  next
    case False
    then show ?thesis by (simp add: load_frame_slot_or_placeholder_def spilled_def)
  qed
  then obtain a mem where "load_frame_slot_or_placeholder ctx v (p_mem pl) = Inr (a, mem)" by blast
  then have "push_value_from_spill_slot_or_mark ctx v v pl
      = Inr (pl\<lparr>p_mem := mem, p_actions := p_actions pl @ [a], p_stack := Value v # p_stack pl\<rparr>)"
    using assms(1,2) by (simp add: push_value_from_spill_slot_or_mark_def value_is_imm_valid push_value_def)
  with plans_push_load [OF this] show ?thesis by (simp add: reaches_def)
qed

section \<open>Materializing\<close>

lemma find_reachable_above:
  assumes "FuncRetAddr \<notin> set up" and "barrier dn" and "find_reachable_value v k (up @ dn) = Some pos"
  shows "pos < length up \<and> pos < k \<and> up ! pos = Value v"
  using position_SomeD [of "\<lambda>i. i = Value v" "take (min (length up) k) (up @ dn)" pos] assms
  by (auto simp: find_reachable_value_def nth_append)

lemma find_reachable_exists:
  assumes "FuncRetAddr \<notin> set up" and "barrier dn" and "Value v \<in> set (take k up)"
  shows "\<exists>pos. find_reachable_value v k (up @ dn) = Some pos"
proof -
  have "take (min (length up) k) (up @ dn) = take k up" by (simp add: min_def)
  with assms show ?thesis
    using position_None [of "\<lambda>i. i = Value v" "take k up"] by (cases "position (\<lambda>i. i = Value v) (take k up)") (auto simp: find_reachable_value_def)
qed

lemma reaches_materialize_one:
  assumes "reach_ok ctx" and "v < length (d_values (c_dfg ctx))" and "homes_ok ctx (p_mem pl)"
    and "p_stack pl = up @ dn" and "FuncRetAddr \<notin> set up" and "barrier dn"
  shows "reaches ctx mn m pl (materialize_one ctx v pl) (Value v # up @ dn)"
proof (cases "is_imm ctx v")
  case True
  with reaches_push_imm [OF assms(2) True, of mn m pl] assms show ?thesis by (simp add: materialize_one_def value_is_imm_valid)
next
  case False
  show ?thesis
  proof (cases "find_reachable_value v (dup_max (reach ctx)) (up @ dn)")
    case None
    with reaches_push_load [OF assms(2) False assms(3), of mn m] False assms(2,4) show ?thesis
      by (simp add: materialize_one_def value_is_imm_valid)
  next
    case (Some pos)
    from find_reachable_above [OF assms(5,6) Some] assms(1) have pos: "pos < length up" "pos < 16" "up ! pos = Value v"
      by (auto simp: reach_ok_def)
    have d: "stk_dup pos (p_stack pl, p_actions pl) = Inr (Value v # up @ dn, p_actions pl @ [StackDup pos])"
      using stk_dup_above [OF assms(5,6) pos(1,2)] assms(4) pos(3) by simp
    have "reaches ctx mn m pl (on_planned (stk_dup pos) pl) (Value v # up @ dn)"
      by (rule reaches_on_planned, rule d, rule emits_dup, rule d)
    with False Some assms(2,4) show ?thesis
      by (simp add: materialize_one_def value_is_imm_valid)
  qed
qed

lemma reaches_materialize_n:
  assumes "reach_ok ctx" and "v < length (d_values (c_dfg ctx))" and "homes_ok ctx (p_mem pl)"
    and "p_stack pl = up @ dn" and "FuncRetAddr \<notin> set up" and "barrier dn"
  shows "reaches ctx mn m pl (materialize_n ctx v n pl) (replicate n (Value v) @ up @ dn)"
  using assms(3-5)
proof (induction n arbitrary: pl up)
  case 0
  then show ?case by (simp add: reaches_done)
next
  case (Suc n)
  have s: "replicate (Suc n) (Value v) @ up @ dn = replicate n (Value v) @ (Value v # up) @ dn"
    by (simp add: replicate_app_Cons_same)
  show ?case unfolding s materialize_n.simps
  proof (rule reaches_bind [OF reaches_materialize_one [OF assms(1,2) Suc.prems(1,2,3) assms(6)]])
    fix pl'
    assume "p_stack pl' = Value v # up @ dn" "plans ctx mn m pl pl'"
    then show "reaches ctx mn m pl' (materialize_n ctx v n pl') (replicate n (Value v) @ (Value v # up) @ dn)"
      using Suc.prems plans_homes [of ctx mn m pl pl'] by (intro Suc.IH) auto
  qed
qed

lemma reaches_materialize_all:
  assumes "reach_ok ctx" and "valid_values ctx vs" and "homes_ok ctx (p_mem pl)"
    and "p_stack pl = up @ dn" and "FuncRetAddr \<notin> set up" and "barrier dn"
  shows "reaches ctx mn m pl (materialize_all ctx req cur vs pl)
    (concat (map (\<lambda>v. replicate (req v - cur v) (Value v)) (rev vs)) @ up @ dn)"
  using assms(2-5)
proof (induction vs arbitrary: pl up)
  case Nil
  then show ?case by (simp add: reaches_done)
next
  case (Cons v vs)
  let ?r = "replicate (req v - cur v) (Value v)"
  have v: "v < length (d_values (c_dfg ctx))" "valid_values ctx vs" using Cons.prems(1) by (auto simp: valid_values_def)
  have s: "concat (map (\<lambda>v. replicate (req v - cur v) (Value v)) (rev (v # vs))) @ up @ dn
      = concat (map (\<lambda>v. replicate (req v - cur v) (Value v)) (rev vs)) @ (?r @ up) @ dn" by simp
  show ?case unfolding s materialize_all.simps
  proof (rule reaches_bind [OF reaches_materialize_n [OF assms(1) v(1) Cons.prems(2,3,4) assms(6)]])
    fix pl'
    assume "p_stack pl' = ?r @ up @ dn" "plans ctx mn m pl pl'"
    then show "reaches ctx mn m pl' (materialize_all ctx req cur vs pl')
        (concat (map (\<lambda>v. replicate (req v - cur v) (Value v)) (rev vs)) @ (?r @ up) @ dn)"
      using Cons.prems v plans_homes [of ctx mn m pl pl'] by (intro Cons.IH) auto
  qed
qed

section \<open>Counting\<close>

lemma fold_count: "fold (\<lambda>v m. m(v := Suc (m v))) vs f v = f v + count_list vs v"
  by (induction vs arbitrary: f) auto

lemma count_values_eq: "count_values vs v = count_list vs v"
  by (simp add: count_values_def fold_count)

lemma count_mset_Value: "count (image_mset Value (mset vs)) (Value v) = count_list vs v"
  by (induction vs) auto

lemma count_list_values_on:
  "(\<forall>i\<in>set up. \<exists>v. i = Value v) \<Longrightarrow> count_list (values_on up) v = count (mset up) (Value v)"
  by (induction up rule: values_on.induct) auto

lemma count_concat_replicate:
  "distinct vs \<Longrightarrow> count (mset (concat (map (\<lambda>v. replicate (f v) (Value v)) (rev vs)))) (Value v) = (if v \<in> set vs then f v else 0)"
  by (induction vs) auto

lemma mark_keep_kept:
  "mark_keep items rem acc = Some keep \<Longrightarrow> \<exists>ks. keep = ks @ acc \<and> length ks = length items
     \<and> (\<forall>i\<in>set items. \<exists>v. i = Value v)
     \<and> (\<forall>v. count (mset (kept ks (rev items))) (Value v) = min (rem v) (count (mset items) (Value v)))"
proof (induction items rem acc rule: mark_keep.induct)
  case (2 v items rem acc)
  show ?case
  proof (cases "rem v = 0")
    case True
    with 2 obtain ks where ks: "keep = ks @ False # acc" "length ks = length items" "\<forall>i\<in>set items. \<exists>v. i = Value v"
      "\<forall>v. count (mset (kept ks (rev items))) (Value v) = min (rem v) (count (mset items) (Value v))" by auto
    with True show ?thesis by (intro exI [of _ "ks @ [False]"]) (auto simp: kept_append)
  next
    case False
    then have "mark_keep items (rem(v := rem v - 1)) (True # acc) = Some keep" using 2(3) by simp
    from 2(2) [OF False this] obtain ks where ks: "keep = ks @ True # acc" "length ks = length items" "\<forall>i\<in>set items. \<exists>v. i = Value v"
      "\<forall>u. count (mset (kept ks (rev items))) (Value u) = min ((rem(v := rem v - 1)) u) (count (mset items) (Value u))" by blast
    with False show ?thesis by (intro exI [of _ "ks @ [True]"]) (auto simp: kept_append)
  qed
qed auto

section \<open>Permuting\<close>

lemma permute_above:
  assumes "barrier dn" and "length desired \<le> 17" and "k \<le> length desired"
    and "FuncRetAddr \<notin> set up" and "mset up = mset (map Value desired)" and "drop k up = drop k (map Value desired)"
  shows "\<exists>a'. permute (rev (zip [0..<k] (take k desired))) (up @ dn, a) = Inr (True, map Value desired @ dn, a')"
  using assms(3-6)
proof (induction k arbitrary: up a)
  case 0
  then show ?case by simp
next
  case (Suc k)
  let ?D = "map Value desired"
  have len: "length up = length desired" using Suc.prems(3) by (metis length_map size_mset)
  have k: "k < length desired" "k < length up" using Suc.prems(1) len by simp_all
  have z: "rev (zip [0..<Suc k] (take (Suc k) desired)) = (k, desired ! k) # rev (zip [0..<k] (take k desired))"
    using k by (simp add: take_Suc_conv_app_nth)
  have "mset (take (Suc k) up) + mset (drop (Suc k) up) = mset (take (Suc k) ?D) + mset (drop (Suc k) ?D)"
    using Suc.prems(3) by (metis append_take_drop_id mset_append)
  then have "mset (take (Suc k) up) = mset (take (Suc k) ?D)" using Suc.prems(4) by simp
  then have "set (take (Suc k) up) = set (take (Suc k) ?D)" by (rule mset_eq_setD)
  then have mem: "Value (desired ! k) \<in> set (take (Suc k) up)" using k by (auto simp: take_Suc_conv_app_nth)
  have item: "item_at k (up @ dn) = Some (up ! k)" using k by (simp add: item_at_def nth_append)
  show ?case
  proof (cases "up ! k = Value (desired ! k)")
    case True
    have "drop k up = drop k ?D" using True k Suc.prems(4) by (metis Cons_nth_drop_Suc length_map nth_map)
    from Suc.IH [OF _ Suc.prems(2,3) this] k show ?thesis unfolding z using True item by simp
  next
    case False
    from find_reachable_exists [OF Suc.prems(2) assms(1) mem] obtain pos where
      pos: "find_reachable_value (desired ! k) (Suc k) (up @ dn) = Some pos" by blast
    from find_reachable_above [OF Suc.prems(2) assms(1) pos] have p: "pos < length up" "pos < Suc k" "up ! pos = Value (desired ! k)" by auto
    with False have pk: "pos < k" by (metis less_SucE)
    let ?u1 = "swap_items pos up" and ?u2 = "swap_items k (swap_items pos up)"
    have l: "length ?u1 = length up" "FuncRetAddr \<notin> set ?u1" "pos \<le> 16" "k \<le> 16"
      using p(1) pk k Suc.prems(2) assms(2) by auto
    obtain a1 where s1: "(if pos \<noteq> 0 then stk_swap pos (up @ dn, a) else Inr (up @ dn, a)) = Inr (?u1 @ dn, a1)"
      using stk_swap_above [OF Suc.prems(2) assms(1) l(3) p(1), of a] by (cases "pos = 0") (auto simp: swap_items_def)
    obtain a2 where s2: "stk_swap k (?u1 @ dn, a1) = Inr (?u2 @ dn, a2)"
      using stk_swap_above [OF l(2) assms(1) l(4), of a1] k l(1) by (cases "k = 0") auto
    have "?u2 ! k = ?u1 ! 0" "?u1 ! 0 = up ! pos" using k p pk l(1) by (subst nth_swap_items; force)+
    then have u2: "?u2 ! k = Value (desired ! k)" using p(3) by simp
    have i2: "item_at k (?u2 @ dn) = Some (Value (desired ! k))" using u2 k l(1) by (simp add: item_at_def nth_append)
    have m2: "mset ?u2 = mset ?D" using mset_swap_items p(1) k l(1) Suc.prems(3) by (metis)
    have "drop (Suc k) ?u2 = drop (Suc k) up"
      using pk k l(1) p(1) by (intro nth_equalityI) (auto simp: nth_swap_items)
    then have d2: "drop (Suc k) ?u2 = drop (Suc k) ?D" using Suc.prems(4) by simp
    have "drop k ?u2 = drop k ?D" using u2 k l(1) d2 by (metis Cons_nth_drop_Suc length_map length_swap_items nth_map)
    moreover have "FuncRetAddr \<notin> set ?u2" using l(1,2) k by simp
    ultimately obtain a' where "permute (rev (zip [0..<k] (take k desired))) (?u2 @ dn, a2) = Inr (True, ?D @ dn, a')"
      using Suc.IH [of ?u2 a2] m2 k by auto
    then show ?thesis unfolding z using False item pos s1 s2 i2 by simp
  qed
qed

lemma zip_map_eq: "length xs = length ys \<Longrightarrow> \<forall>x\<in>set (zip xs ys). (\<lambda>(a, b). a = f b) x \<Longrightarrow> xs = map f ys"
  by (induction xs ys rule: list_induct2) auto

lemma common_suffix:
  fixes desired :: "ValueId list" and up dn :: SymStack
  assumes "FuncRetAddr \<notin> set up" and "barrier dn"
  defines "n \<equiv> common_suffix_len desired (up @ dn)"
  shows "n \<le> length up" "n \<le> length desired"
    "drop (length up - n) up = drop (length desired - n) (map Value desired)"
proof -
  let ?z = "zip (rev up) (rev desired)" and ?P = "\<lambda>(item, want). item = Value want"
  have n: "n = length (takeWhile ?P ?z)" using assms(1,2) by (simp add: n_def common_suffix_len_def)
  have t: "takeWhile ?P ?z = zip (take n (rev up)) (take n (rev desired))"
    using takeWhile_eq_take [of ?P ?z] n by (simp add: take_zip)
  have "n \<le> length ?z" using n length_takeWhile_le [of ?P ?z] by simp
  then show le: "n \<le> length up" "n \<le> length desired" by simp_all
  have "\<forall>x\<in>set (zip (take n (rev up)) (take n (rev desired))). ?P x" unfolding t [symmetric] by (auto dest: set_takeWhileD)
  then have "take n (rev up) = map Value (take n (rev desired))"
    using le by (intro zip_map_eq) auto
  then have "rev (drop (length up - n) up) = rev (drop (length desired - n) (map Value desired))"
    using le by (simp add: rev_drop take_map rev_map)
  then show "drop (length up - n) up = drop (length desired - n) (map Value desired)" by simp
qed

section \<open>The three phases\<close>

lemma on_planned_ok:
  assumes "f (p_stack pl, p_actions pl) = Inr (s', a)" and "\<And>p'. f (p_stack pl, p_actions pl) = Inr p' \<Longrightarrow> emits mn m (p_stack pl, p_actions pl) p'"
  shows "reaches ctx mn m pl (on_planned f pl) s'"
  using assms by (intro reaches_on_planned) auto

lemma emits_swap_and_pop: "swap_and_pop d kp = Inr kp' \<Longrightarrow> emits mn m (snd kp) (snd kp')"
proof -
  assume "swap_and_pop d kp = Inr kp'"
  then obtain p1 where "stk_swap d (snd kp) = Inr p1" "stk_pop p1 = Inr (snd kp')"
    by (cases kp) (fastforce simp: swap_and_pop_def)
  then show ?thesis by (blast intro: emits_trans emits_swap emits_pop)
qed

lemma emits_bulk_sink: "bulk_sink n run kp = Inr rk \<Longrightarrow> emits mn m (snd kp) (snd (snd rk))"
proof (induction n arbitrary: run kp)
  case (Suc n)
  then obtain k where "swap_and_pop (Suc n + run - 1) kp = Inr k" "bulk_sink n (run - 1) k = Inr rk" by auto
  then show ?case by (blast intro: emits_trans emits_swap_and_pop Suc.IH)
qed auto

lemma emits_bulk_pop: "bulk_pop n kp = Inr kp' \<Longrightarrow> emits mn m (snd kp) (snd kp')"
proof (induction n arbitrary: kp)
  case (Suc n)
  then obtain p1 ks where "stk_pop (snd kp) = Inr p1" "bulk_pop n (ks, p1) = Inr kp'" by (cases kp) fastforce
  with Suc.IH [of "(ks, p1)"] show ?case by (auto intro: emits_trans emits_pop)
qed auto

lemma emits_delete_unkept: "delete_unkept_values kp = Inr p' \<Longrightarrow> emits mn m (snd kp) p'"
proof (induction kp rule: delete_unkept_values.induct)
  case (1 kp)
  let ?n = "length (takeWhile id (fst kp))"
  let ?r = "length (takeWhile HOL.Not (drop ?n (fst kp)))"
  let ?can = "?r \<noteq> 0 \<and> ?n + ?r < length (fst kp) \<and> ?n * 2 - 1 < ?r"
  consider "list_all id (fst kp)" | "\<not> list_all id (fst kp)" "\<not> hd (fst kp)"
    | "\<not> list_all id (fst kp)" "hd (fst kp)" "?can" | "\<not> list_all id (fst kp)" "hd (fst kp)" "\<not> ?can" by blast
  then show ?case
  proof cases
    case 1
    with "1.prems" show ?thesis by (subst (asm) delete_unkept_values.simps) auto
  next
    case 2
    then obtain k where "bulk_pop 1 kp = Inr k" "delete_unkept_values k = Inr p'"
      using "1.prems" by (subst (asm) delete_unkept_values.simps) (simp del: bulk_pop.simps, blast)
    with "1.IH"(1) [OF 2] show ?thesis by (blast intro: emits_trans emits_bulk_pop)
  next
    case 3
    then obtain rk k where b: "bulk_sink ?n ?r kp = Inr rk" "bulk_pop (fst rk) (snd rk) = Inr k" "delete_unkept_values k = Inr p'"
      using "1.prems" by (subst (asm) delete_unkept_values.simps) (auto simp: Let_def)
    have "emits mn m (snd k) p'"
      using "1.IH"(2) [OF _ _ refl refl refl refl _ b(1) _ b(2)] 3 b(3) by (metis prod.collapse)
    with b show ?thesis by (blast intro: emits_trans emits_bulk_sink emits_bulk_pop)
  next
    case 4
    then obtain pos k where b: "position HOL.Not (fst kp) = Some pos" "swap_and_pop pos kp = Inr k" "delete_unkept_values k = Inr p'"
      using "1.prems" by (subst (asm) delete_unkept_values.simps) (auto simp: Let_def split: if_splits)
    have "emits mn m (snd k) p'"
      using "1.IH"(3) [OF _ _ refl refl refl refl _ _ b(2)] 4 b by simp
    with b show ?thesis by (blast intro: emits_trans emits_swap_and_pop)
  qed
qed

lemma emits_permute: "permute ds p = Inr okp \<Longrightarrow> emits mn m p (snd okp)"
proof (induction ds p rule: permute.induct)
  case (2 depth want ds p)
  show ?case
  proof (cases "item_at depth (fst p) = Some (Value want)")
    case True
    with 2 show ?thesis by simp
  next
    case False
    show ?thesis
    proof (cases "find_reachable_value want (depth + 1) (fst p)")
      case None
      with False "2.prems" show ?thesis by auto
    next
      case (Some pos)
      then obtain p1 p2 where s: "(if pos \<noteq> 0 then stk_swap pos p else Inr p) = Inr p1" "stk_swap depth p1 = Inr p2"
        "item_at depth (fst p2) = Some (Value want)" "permute ds p2 = Inr okp"
        using False "2.prems" by auto
      have "emits mn m p p1" using s(1) by (auto split: if_splits intro: emits_swap)
      moreover have "emits mn m p1 p2" using s(2) by (rule emits_swap)
      moreover have "emits mn m p2 (snd okp)"
        using "2.IH"(2) [OF False Some s(1) s(2) _ s(4)] s(3) by simp
      ultimately show ?thesis by (blast intro: emits_trans)
    qed
  qed
qed auto

lemma values_only: "(\<forall>i\<in>set xs. \<exists>v. i = Value v) \<Longrightarrow> count (mset xs) i = (case i of Value v \<Rightarrow> count (mset xs) (Value v) | _ \<Rightarrow> 0)"
  by (cases i) (auto simp: count_eq_zero_iff)

lemma kept_set: "set (kept ks xs) \<subseteq> set xs"
  by (auto simp: kept_def dest: set_zip_rightD)

lemma delete_to_match_ok:
  assumes "p_stack pl = up @ dn" and "FuncRetAddr \<notin> set up" and "barrier dn" and "length up \<le> 17"
  shows "\<exists>ok pl' up'. delete_to_match_multiset req pl = Inr (ok, pl') \<and> plans ctx mn m pl pl' \<and> p_stack pl' = up' @ dn
    \<and> FuncRetAddr \<notin> set up' \<and> (ok \<longrightarrow> (\<forall>i\<in>set up'. \<exists>v. i = Value v) \<and> (\<forall>v. count (mset up') (Value v) \<le> req v))"
proof (cases "mark_keep (rev up) req []")
  case None
  with assms show ?thesis by (auto simp: delete_to_match_multiset_def)
next
  case (Some keep)
  from mark_keep_kept [OF Some] have k: "length keep = length up" "\<forall>i\<in>set up. \<exists>v. i = Value v"
    "\<forall>v. count (mset (kept keep up)) (Value v) = min (req v) (count (mset up) (Value v))" by auto
  have "masked dn (keep, up @ dn, p_actions pl) up" using assms k by (simp add: masked_def)
  from delete_unkept_masked [OF this] obtain up' a where
    d: "delete_unkept_values (keep, up @ dn, p_actions pl) = Inr (up' @ dn, a)" and ms: "mset up' = mset (kept keep up)" by auto
  from on_planned_ok [of "\<lambda>p. delete_unkept_values (keep, p)" pl "up' @ dn" a mn m ctx] d emits_delete_unkept [of "(keep, up @ dn, p_actions pl)"]
  obtain pl' where pl': "on_planned (\<lambda>p. delete_unkept_values (keep, p)) pl = Inr pl'" "p_stack pl' = up' @ dn" "plans ctx mn m pl pl'"
    using assms(1) by (fastforce simp: reaches_def)
  have "set up' \<subseteq> set up" using mset_eq_setD [OF ms] kept_set [of keep up] by simp
  with k assms ms have "FuncRetAddr \<notin> set up'" "\<forall>i\<in>set up'. \<exists>v. i = Value v" "\<forall>v. count (mset up') (Value v) \<le> req v"
    by (auto simp: min_def)
  with pl' Some assms show ?thesis by (auto simp: delete_to_match_multiset_def)
qed

lemma permute_to_ok:
  assumes "p_stack pl = up @ dn" and "FuncRetAddr \<notin> set up" and "barrier dn" and "length desired \<le> 17"
    and "mset up = mset (map Value desired)"
  shows "\<exists>pl'. permute_to desired pl = Inr (True, pl') \<and> plans ctx mn m pl pl' \<and> p_stack pl' = map Value desired @ dn"
proof -
  let ?k = "length desired - common_suffix_len desired (up @ dn)"
  have len: "length up = length desired" using assms(5) by (metis length_map size_mset)
  from common_suffix [OF assms(2,3), of desired] len have "drop ?k up = drop ?k (map Value desired)" by simp
  from permute_above [OF assms(3,4) _ assms(2,5) this, of "p_actions pl"] obtain a' where
    p: "permute (rev (zip [0..<?k] (take ?k desired))) (up @ dn, p_actions pl) = Inr (True, map Value desired @ dn, a')" by auto
  from emits_permute [OF p, of mn m] have "plans ctx mn m pl (pl\<lparr>p_stack := map Value desired @ dn, p_actions := a'\<rparr>)"
    using assms(1) by (simp add: plans_def)
  with p assms(1) show ?thesis by (auto simp: permute_to_def Let_def)
qed

lemma normalize_tail_ok:
  assumes r: "reach_ok ctx" and v: "valid_values ctx desired" and h: "homes_ok ctx (p_mem pl)"
    and s: "p_stack pl = up @ dn" "FuncRetAddr \<notin> set up" "barrier dn"
    and l: "length desired \<le> swap_max (reach ctx)" "length up \<le> swap_max (reach ctx)"
  shows "\<exists>ok pl' up'. normalize_tail ctx desired pl = Inr (ok, pl') \<and> plans ctx mn m pl pl' \<and> p_stack pl' = up' @ dn
    \<and> FuncRetAddr \<notin> set up' \<and> (ok \<longrightarrow> up' = map Value desired)"
proof -
  let ?req = "count_values desired"
  have l17: "length up \<le> 17" "length desired \<le> 17" using r l by (auto simp: reach_ok_def)
  from delete_to_match_ok [OF s l17(1), of ?req ctx mn m] obtain ok pl1 up1 where
    d: "delete_to_match_multiset ?req pl = Inr (ok, pl1)" "plans ctx mn m pl pl1" "p_stack pl1 = up1 @ dn" "FuncRetAddr \<notin> set up1"
    and ok: "ok \<Longrightarrow> (\<forall>i\<in>set up1. \<exists>v. i = Value v)" "ok \<Longrightarrow> \<forall>v. count (mset up1) (Value v) \<le> ?req v" by blast
  show ?thesis
  proof (cases "ok \<and> length up1 \<le> swap_max (reach ctx)")
    case False
    with d s(3) show ?thesis by (auto simp: normalize_tail_def Let_def)
  next
    case True
    let ?cur = "count_values (values_on up1)" and ?vs = "sorted_list_of_set (set desired)"
    let ?news = "concat (map (\<lambda>v. replicate (?req v - ?cur v) (Value v)) (rev ?vs))"
    have v': "valid_values ctx ?vs" using v by (simp add: valid_values_def)
    have h1: "homes_ok ctx (p_mem pl1)" using h plans_homes [OF d(2)] by simp
    from reaches_materialize_all [OF r v' h1 d(3,4) s(3), of mn m ?req ?cur] obtain pl2 where
      m: "materialize_all ctx ?req ?cur ?vs pl1 = Inr pl2" "p_stack pl2 = (?news @ up1) @ dn" "plans ctx mn m pl1 pl2"
      by (auto simp: reaches_def)
    have cur: "?cur v = count (mset up1) (Value v)" for v
      using count_list_values_on ok(1) True by (simp add: count_values_eq)
    have ns: "\<forall>i\<in>set ?news. \<exists>v. i = Value v" by auto
    have f: "FuncRetAddr \<notin> set (?news @ up1)" using d(4) by auto
    have ms: "mset (?news @ up1) = mset (map Value desired)"
    proof (rule multiset_eqI)
      fix i
      have o: "\<forall>i\<in>set (?news @ up1). \<exists>v. i = Value v" "\<forall>i\<in>set (map Value desired). \<exists>v. i = Value v" using ns ok(1) True by auto
      show "count (mset (?news @ up1)) i = count (mset (map Value desired)) i"
      proof (cases i)
        case (Value v)
        have "count (mset ?news) (Value v) = (if v \<in> set desired then ?req v - ?cur v else 0)"
          by (subst count_concat_replicate) auto
        moreover have "count (mset up1) (Value v) \<le> ?req v" using ok(2) True by blast
        moreover have "v \<notin> set desired \<Longrightarrow> ?req v = 0" by (simp add: count_values_eq)
        ultimately show ?thesis using Value cur [of v] count_mset_Value [of desired v]
          by (cases "v \<in> set desired") (auto simp: count_values_eq)
      next
        case FuncRetAddr
        then have "i \<notin> set (?news @ up1)" "i \<notin> set (map Value desired)" using o by blast+
        then show ?thesis by (metis count_mset_0_iff)
      next
        case CallRetAddr
        then have "i \<notin> set (?news @ up1)" "i \<notin> set (map Value desired)" using o by blast+
        then show ?thesis by (metis count_mset_0_iff)
      qed
    qed
    have len: "length (?news @ up1) = length desired" using ms by (metis length_map size_mset)
    from permute_to_ok [OF m(2) f s(3) l17(2) ms, of ctx mn m] obtain pl3 where
      p: "permute_to desired pl2 = Inr (True, pl3)" "plans ctx mn m pl2 pl3" "p_stack pl3 = map Value desired @ dn" by blast
    have "normalize_tail ctx desired pl = Inr (True, pl3)"
      using True d m p len len_above [OF d(4) s(3)] len_above [OF f s(3)] by (simp add: normalize_tail_def Let_def)
    moreover have "plans ctx mn m pl pl3" using d(2) m(3) p(2) by (blast intro: plans_trans)
    moreover have "FuncRetAddr \<notin> set (map Value desired)" by auto
    ultimately show ?thesis using p(3) by blast
  qed
qed

lemma imm_prefix_len_ok:
  "valid_values ctx vs \<Longrightarrow> \<exists>n. imm_prefix_len (c_dfg ctx) vs = Inr n \<and> n \<le> length vs \<and> (\<forall>v\<in>set (take n vs). is_imm ctx v)"
proof (induction vs)
  case (Cons v vs)
  then show ?case by (cases "is_imm ctx v") (auto simp: valid_values_def value_is_imm_valid)
qed simp

lemma reaches_push_imms:
  "valid_values ctx vs \<Longrightarrow> \<forall>v\<in>set vs. is_imm ctx v \<Longrightarrow> reaches ctx mn m pl (push_imms ctx vs pl) (map Value (rev vs) @ p_stack pl)"
proof (induction vs arbitrary: pl)
  case Nil
  then show ?case by (simp add: reaches_done)
next
  case (Cons v vs)
  have v: "v < length (d_values (c_dfg ctx))" "valid_values ctx vs" "is_imm ctx v" using Cons.prems by (auto simp: valid_values_def)
  show ?case unfolding push_imms.simps
  proof (rule reaches_bind [OF reaches_push_imm [OF v(1,3)]])
    fix pl' :: Planner
    assume "p_stack pl' = Value v # p_stack pl"
    with Cons.IH [OF v(2), of pl'] Cons.prems(2)
    show "reaches ctx mn m pl' (push_imms ctx vs pl') (map Value (rev (v # vs)) @ p_stack pl)" by simp
  qed
qed

lemma try_normalize_ok:
  assumes r: "reach_ok ctx" and "valid_values ctx desired" and "homes_ok ctx (p_mem pl)"
    and "p_stack pl = up @ dn" and "FuncRetAddr \<notin> set up" and b: "barrier dn"
  shows "\<exists>ok pl' up'. try_normalize_to_exact ctx desired pl = Inr (ok, pl') \<and> plans ctx mn m pl pl' \<and> p_stack pl' = up' @ dn
    \<and> FuncRetAddr \<notin> set up' \<and> (ok \<longrightarrow> up' = map Value desired)"
  using assms
proof (induction ctx desired pl rule: try_normalize_to_exact.induct)
  case (1 ctx desired pl)
  note P = "1.prems"
  consider "length desired > swap_max (reach ctx)" | "length up > swap_max (reach ctx)" "\<not> length desired > swap_max (reach ctx)"
    | "length desired \<le> swap_max (reach ctx)" "length up \<le> swap_max (reach ctx)" by linarith
  then show ?case
  proof cases
    case 3
    from imm_prefix_len_ok [OF P(2)] obtain n where
      n: "imm_prefix_len (c_dfg ctx) desired = Inr n" "n \<le> length desired" "\<forall>v\<in>set (take n desired). is_imm ctx v" by blast
    show ?thesis
    proof (cases "n = 0")
      case True
      from normalize_tail_ok [OF P(1-6) 3, of mn m] True 3 n(1) P(4-6) show ?thesis
        by (subst try_normalize_to_exact.simps) simp
    next
      case False
      have vt: "valid_values ctx (drop n desired)" "valid_values ctx (rev (take n desired))"
        using P(2) by (auto simp: valid_values_def dest: in_set_dropD in_set_takeD)
      have "\<not> length desired > swap_max (reach ctx)" "\<not> len_above_func_ret (p_stack pl) > swap_max (reach ctx)"
        using 3 P(4-6) by simp_all
      from "1.IH" [OF this n(1) False P(1) vt(1) P(3-6)] obtain ok pl1 up1 where
        t: "try_normalize_to_exact ctx (drop n desired) pl = Inr (ok, pl1)" "plans ctx mn m pl pl1" "p_stack pl1 = up1 @ dn"
          "FuncRetAddr \<notin> set up1" "ok \<longrightarrow> up1 = map Value (drop n desired)" by blast
      show ?thesis
      proof (cases ok)
        case False
        with t n \<open>n \<noteq> 0\<close> 3 P(4-6) show ?thesis by (subst try_normalize_to_exact.simps) auto
      next
        case True
        have "reaches ctx mn m pl1 (push_imms ctx (rev (take n desired)) pl1) (map Value (rev (rev (take n desired))) @ p_stack pl1)"
          by (rule reaches_push_imms [OF vt(2)]) (use n(3) in simp)
        then obtain pl2 where p: "push_imms ctx (rev (take n desired)) pl1 = Inr pl2" "plans ctx mn m pl1 pl2"
          "p_stack pl2 = map Value (take n desired) @ p_stack pl1" by (auto simp: reaches_def)
        have "p_stack pl2 = map Value desired @ dn" using p(3) t(3,5) True by (simp add: map_append [symmetric] del: map_append)
        moreover have "try_normalize_to_exact ctx desired pl = Inr (True, pl2)"
          using t(1) p(1) n(1) True \<open>n \<noteq> 0\<close> 3 P(4-6) by (subst try_normalize_to_exact.simps) simp
        moreover have "FuncRetAddr \<notin> set (map Value desired)" by auto
        ultimately show ?thesis using plans_trans [OF t(2) p(2)] by blast
      qed
    qed
  qed (use P in \<open>(subst try_normalize_to_exact.simps, auto)+\<close>)
qed

lemma reaches_pop_to_base:
  assumes "p_stack pl = up @ dn" and "FuncRetAddr \<notin> set up" and "barrier dn" and "n \<le> length up"
  shows "reaches ctx mn m pl (pop_to_base n pl) (drop (length up - n) up @ dn)"
  using assms
proof (induction up arbitrary: pl)
  case Nil
  then show ?case using len_above [of "[]" dn] by (subst pop_to_base.simps) (simp add: reaches_done)
next
  case (Cons x up)
  show ?case
  proof (cases "n = length (x # up)")
    case True
    then show ?thesis using Cons.prems len_above [OF Cons.prems(2,3)] by (subst pop_to_base.simps) (simp add: reaches_done)
  next
    case False
    then have n: "n \<le> length up" using Cons.prems(4) by simp
    have x: "x \<noteq> FuncRetAddr" "FuncRetAddr \<notin> set up" using Cons.prems(2) by auto
    have p: "stk_pop (p_stack pl, p_actions pl) = Inr (up @ dn, p_actions pl @ [PopTop])"
      using stk_pop_above [OF x(1), of "up @ dn"] Cons.prems(1) by simp
    have "reaches ctx mn m pl (on_planned stk_pop pl) (up @ dn)"
      by (rule on_planned_ok, rule p, rule emits_pop)
    then have "reaches ctx mn m pl (rbind (on_planned stk_pop pl) (pop_to_base n)) (drop (length up - n) up @ dn)"
      by (rule reaches_bind) (rule Cons.IH [OF _ x(2) Cons.prems(3) n])
    moreover have "drop (length (x # up) - n) (x # up) = drop (length up - n) up" using n by (simp add: Suc_diff_le)
    moreover have "len_above_func_ret (p_stack pl) > n" using Cons.prems(1) len_above [OF Cons.prems(2,3)] n by simp
    then have "pop_to_base n pl = rbind (on_planned stk_pop pl) (pop_to_base n)" by (subst pop_to_base.simps) simp
    ultimately show ?thesis by simp
  qed
qed

lemma reaches_rebuild:
  "valid_values ctx vs \<Longrightarrow> homes_ok ctx (p_mem pl) \<Longrightarrow> reaches ctx mn m pl (rebuild ctx vs pl) (map Value (rev vs) @ p_stack pl)"
proof (induction vs arbitrary: pl)
  case Nil
  then show ?case by (simp add: reaches_done)
next
  case (Cons v vs)
  have v: "v < length (d_values (c_dfg ctx))" "valid_values ctx vs" using Cons.prems by (auto simp: valid_values_def)
  have "reaches ctx mn m pl (if is_imm ctx v then push_imm_value ctx v pl else push_value_from_spill_slot_or_mark ctx v v pl) (Value v # p_stack pl)"
    using reaches_push_imm [OF v(1)] reaches_push_load [OF v(1) _ Cons.prems(2)] by (cases "is_imm ctx v") auto
  then have "reaches ctx mn m pl (rbind (if is_imm ctx v then push_imm_value ctx v pl else push_value_from_spill_slot_or_mark ctx v v pl)
      (rebuild ctx vs)) (map Value (rev (v # vs)) @ p_stack pl)"
  proof (rule reaches_bind)
    fix pl'
    assume "p_stack pl' = Value v # p_stack pl" "plans ctx mn m pl pl'"
    with Cons.IH [OF v(2), of pl'] Cons.prems(2) plans_homes [of ctx mn m pl pl']
    show "reaches ctx mn m pl' (rebuild ctx vs pl') (map Value (rev (v # vs)) @ p_stack pl)" by simp
  qed
  then show ?case by (simp add: value_is_imm_valid [OF v(1)])
qed

lemma reaches_flush:
  assumes "valid_values ctx desired" and "homes_ok ctx (p_mem pl)"
    and s: "p_stack pl = up @ dn" "FuncRetAddr \<notin> set up" "barrier dn"
  shows "reaches ctx mn m pl (flush_rebuild ctx desired pl) (map Value desired @ dn)"
proof -
  let ?n = "common_suffix_len desired (up @ dn)"
  let ?vs = "rev (take (length desired - ?n) desired)"
  note c = common_suffix [OF s(2,3), of desired]
  have v: "valid_values ctx ?vs" using assms(1) by (auto simp: valid_values_def dest: in_set_takeD)
  have "reaches ctx mn m pl (rbind (pop_to_base ?n pl) (rebuild ctx ?vs)) (map Value desired @ dn)"
  proof (rule reaches_bind [OF reaches_pop_to_base [OF s c(1)]])
    fix pl'
    assume p: "p_stack pl' = drop (length up - ?n) up @ dn" "plans ctx mn m pl pl'"
    have "map Value (rev ?vs) @ drop (length up - ?n) up = take (length desired - ?n) (map Value desired) @ drop (length desired - ?n) (map Value desired)"
      unfolding c(3) by (simp add: take_map)
    then have "map Value (rev ?vs) @ p_stack pl' = map Value desired @ dn"
      unfolding p(1) append_take_drop_id by (metis append.assoc)
    with reaches_rebuild [OF v, of pl' mn m] assms(2) plans_homes [OF p(2)]
    show "reaches ctx mn m pl' (rebuild ctx ?vs pl') (map Value desired @ dn)" by simp
  qed
  with s show ?thesis by (simp add: flush_rebuild_def Let_def)
qed

lemma matches_exact_stack:
  assumes "FuncRetAddr \<notin> set up" and "barrier dn"
  shows "matches_exact (up @ dn) desired \<longleftrightarrow> up = map Value desired"
proof -
  have "list_all (\<lambda>(item, v). item = Value v) (zip up desired) \<longleftrightarrow> up = map Value desired" if "length up = length desired"
    using that by (induction up desired rule: list_induct2) auto
  with assms show ?thesis by (auto simp: matches_exact_def)
qed

lemma reaches_normalize:
  assumes "reach_ok ctx" and "valid_values ctx desired" and "homes_ok ctx (p_mem pl)"
    and s: "p_stack pl = up @ dn" "FuncRetAddr \<notin> set up" "barrier dn"
  shows "reaches ctx mn m pl (normalize_to_exact ctx desired pl) (map Value desired @ dn)"
proof (cases "matches_exact (p_stack pl) desired")
  case True
  then show ?thesis using s matches_exact_stack [OF s(2,3), of desired] by (simp add: normalize_to_exact_def reaches_done)
next
  case False
  from try_normalize_ok [OF assms, of mn m] obtain ok pl1 up1 where
    t: "try_normalize_to_exact ctx desired pl = Inr (ok, pl1)" "plans ctx mn m pl pl1" "p_stack pl1 = up1 @ dn"
      "FuncRetAddr \<notin> set up1" "ok \<longrightarrow> up1 = map Value desired" by blast
  show ?thesis
  proof (cases ok)
    case True
    with t False show ?thesis by (auto simp: normalize_to_exact_def reaches_def)
  next
    case f: False
    have "homes_ok ctx (p_mem pl1)" using assms(3) plans_homes [OF t(2)] by simp
    from reaches_flush [OF assms(2) this t(3,4) s(3), of mn m] obtain pl2 where
      "flush_rebuild ctx desired pl1 = Inr pl2" "p_stack pl2 = map Value desired @ dn" "plans ctx mn m pl1 pl2"
      by (auto simp: reaches_def)
    with t f False show ?thesis by (auto simp: normalize_to_exact_def reaches_def intro: plans_trans)
  qed
qed

section \<open>Clearing above the return address\<close>

lemma drop_swap_items: "0 < d \<Longrightarrow> d < length xs \<Longrightarrow> drop d (swap_items d xs) = xs ! 0 # drop (Suc d) xs"
  by (rule nth_equalityI) (auto simp: nth_swap_items nth_Cons split: nat.split)

lemma delete_between_above:
  assumes "1 \<le> d" and "d \<le> 16" and "x \<noteq> FuncRetAddr" and "FuncRetAddr \<notin> set up"
  shows "\<exists>a'. delete_between_top_and_func_ret d (x # up @ FuncRetAddr # rest, a) = Inr (x # FuncRetAddr # rest, a')"
  using assms(4)
proof (induction "length up" arbitrary: up a rule: less_induct)
  case less
  let ?dn = "FuncRetAddr # rest"
  have b: "barrier ?dn" "FuncRetAddr \<notin> set (x # up)" using assms(3) less.prems by (auto simp: barrier_def)
  have i: "func_ret_index (x # up @ ?dn) = Some (Suc (length up))" using func_ret_index_split [OF b(2,1)] by simp
  show ?case
  proof (cases up)
    case Nil
    with i show ?thesis by (subst delete_between_top_and_func_ret.simps) simp
  next
    case (Cons y ys)
    let ?k = "min (length up) d"
    have k: "0 < ?k" "?k \<le> 16" "?k < length (x # up)" using assms(1,2) Cons by auto
    let ?u = "swap_items ?k (x # up)"
    obtain a1 where sw: "stk_swap ?k (x # up @ ?dn, a) = Inr (?u @ ?dn, a1)"
      using stk_swap_above [OF b(2,1) k(2,3), of a] by simp
    have "FuncRetAddr \<notin> set ?u" "?k \<le> length ?u" using k b(2) by simp_all
    from stk_pop_n_above [OF this, of ?dn a1] drop_swap_items [OF k(1,3)] obtain a2 where
      pp: "stk_pop_n ?k (?u @ ?dn, a1) = Inr (x # drop ?k up @ ?dn, a2)" by auto
    have "length (drop ?k up) < length up" "FuncRetAddr \<notin> set (drop ?k up)" using k Cons less.prems by (auto dest: in_set_dropD)
    from less.hyps [OF this, of a2] obtain a' where
      "delete_between_top_and_func_ret d (x # drop ?k up @ ?dn, a2) = Inr (x # ?dn, a')" by blast
    with i sw pp k(1) Cons show ?thesis by (subst delete_between_top_and_func_ret.simps) simp
  qed
qed

lemma emits_delete_between: "delete_between_top_and_func_ret d p = Inr p' \<Longrightarrow> emits mn m p p'"
proof (induction d p rule: delete_between_top_and_func_ret.induct)
  case (1 d p)
  show ?case
  proof (cases "case func_ret_index (fst p) of None \<Rightarrow> True | Some pos \<Rightarrow> pos \<le> 1")
    case True
    with "1.prems" show ?thesis by (subst (asm) delete_between_top_and_func_ret.simps) (auto split: option.splits)
  next
    case False
    then obtain pos where pos: "func_ret_index (fst p) = Some pos" "\<not> pos \<le> 1" by (auto split: option.splits)
    with "1.prems" obtain p1 p2 where s: "stk_swap (min (pos - 1) d) p = Inr p1" "stk_pop_n (min (pos - 1) d) p1 = Inr p2"
      "delete_between_top_and_func_ret d p2 = Inr p'" "1 \<le> min (pos - 1) d"
      by (subst (asm) delete_between_top_and_func_ret.simps) (auto simp: Let_def)
    have "emits mn m p2 p'" using "1.IH" [OF pos refl _ s(1,2,3)] s(4) by simp
    with s show ?thesis by (blast intro: emits_trans emits_swap emits_pop_n)
  qed
qed

section \<open>Properties\<close>

text \<open>C7: normalization always ends with exactly the wanted values above the return address and the rest of the
  stack as it was, whatever the reach and the fallbacks taken; and when no value had to be marked for
  spilling, the actions it emits bring a machine whose stack the old symbolic stack describes to one that
  the new stack describes, memory unchanged.\<close>
theorem normalize_to_exact_correct:
  assumes "reach_ok ctx" and "valid_values ctx desired" and "homes_ok ctx (p_mem pl)"
    and "p_stack pl = up @ dn" and "FuncRetAddr \<notin> set up" and "barrier dn"
  shows "\<exists>pl'. normalize_to_exact ctx desired pl = Inr pl' \<and> p_stack pl' = map Value desired @ dn
    \<and> (spill_requests (mp_spill (p_mem pl')) = {} \<and> stored_ok ctx (p_mem pl) mn m \<and> imms_ok ctx mn \<longrightarrow>
       (\<exists>\<delta>. p_actions pl' = p_actions pl @ \<delta>
          \<and> exec_actions mn \<delta> (words mn (up @ dn), m) = Some (words mn (map Value desired @ dn), m)))"
  using reaches_normalize [OF assms, of mn m] assms(4) by (auto simp: reaches_def plans_def emits_def)

text \<open>A context with two arguments and an immediate, and a stack with the arguments in the wrong order.\<close>

definition sample_context :: StackifyContext where
  "sample_context = \<lparr>c_func = sample_func\<lparr>f_dfg := dfg_new\<lparr>d_values := [V_Arg Ty_I8 0, V_Arg Ty_I8 1, V_Immediate (Imm_I8 7) Ty_I8]\<rparr>\<rparr>,
     val_live_blocks = (\<lambda>_. {0}), scratch_live_values = {}, scratch_spill_slots = 0,
     c_entry = 0, c_cfg = cfg_new, dom_rpo = [0], dom_reachable = (\<lambda>_. True), block_live_outs = (\<lambda>_. {}),
     phi_results = (\<lambda>_. []), phi_out_sources = (\<lambda>_. {}), has_internal_return = True, reach = \<lparr>dup_max = 16, swap_max = 17\<rparr>\<rparr>"

definition sample_planner :: Planner where
  "sample_planner = \<lparr>p_stack = [Value 0, Value 1, FuncRetAddr], p_actions = [],
     p_mem = \<lparr>mp_spill = \<lparr>spill = {}, spill_requests = {}\<rparr>, spill_obj = (\<lambda>_. None), free_slots = {}, slots = slot_pool_default\<rparr>\<rparr>"

lemma sample_context_ok: "reach_ok sample_context" "valid_values sample_context [2, 1, 0]" "homes_ok sample_context (p_mem sample_planner)"
  "stored_ok sample_context (p_mem sample_planner) mn m"
  by (simp_all add: sample_context_def sample_planner_def reach_ok_def valid_values_def homes_ok_def stored_ok_def)

theorem normalize_to_exact_correct_witness:
  "\<exists>pl'. normalize_to_exact sample_context [2, 1, 0] sample_planner = Inr pl'
    \<and> p_stack pl' = [Value 2, Value 1, Value 0, FuncRetAddr]"
  using normalize_to_exact_correct [OF sample_context_ok(1-3), of "[Value 0, Value 1]" "[FuncRetAddr]"]
  by (auto simp: sample_planner_def barrier_def)

end
