(* ===== verification/OperandPrep.thy ===== *)
theory OperandPrep
  imports Normalize
begin

text \<open>
  \<open>stackalloc/stackify/planner/operand_prep.rs\<close>: bringing the operands of an instruction to the top of
  the stack. Operands are prepared one by one from the last, consuming a last use in place where that is
  cheap; two different operands are prepared by a cheapest-first search over SWAP, DUP and PUSH. The
  search is shown to end and to be sound.
\<close>

section \<open>Cost\<close>

datatype OperandPrepMetric = Metric (m_spill_requests: nat) (m_mem_loads: nat) (m_swaps: nat) (m_actions: nat)

text \<open>The derived order of a struct is lexicographic.\<close>

instantiation OperandPrepMetric :: wellorder
begin

fun less_OperandPrepMetric :: "OperandPrepMetric \<Rightarrow> OperandPrepMetric \<Rightarrow> bool" where
  "less_OperandPrepMetric (Metric a b c d) (Metric a' b' c' d') \<longleftrightarrow>
     a < a' \<or> a = a' \<and> (b < b' \<or> b = b' \<and> (c < c' \<or> c = c' \<and> d < d'))"

definition less_eq_OperandPrepMetric :: "OperandPrepMetric \<Rightarrow> OperandPrepMetric \<Rightarrow> bool" where
  "less_eq_OperandPrepMetric x y \<longleftrightarrow> x < y \<or> x = y"

instance
proof
  fix x y z :: OperandPrepMetric
  show "x < y \<longleftrightarrow> x \<le> y \<and> \<not> y \<le> x" by (cases x; cases y) (auto simp: less_eq_OperandPrepMetric_def)
  show "x \<le> x" by (simp add: less_eq_OperandPrepMetric_def)
  show "x \<le> y \<Longrightarrow> y \<le> z \<Longrightarrow> x \<le> z" by (cases x; cases y; cases z) (auto simp: less_eq_OperandPrepMetric_def)
  show "x \<le> y \<Longrightarrow> y \<le> x \<Longrightarrow> x = y" by (cases x; cases y) (auto simp: less_eq_OperandPrepMetric_def)
  show "x \<le> y \<or> y \<le> x" by (cases x; cases y) (auto simp: less_eq_OperandPrepMetric_def)
next
  fix P :: "OperandPrepMetric \<Rightarrow> bool" and x :: OperandPrepMetric
  assume step: "\<And>x. (\<And>y. y < x \<Longrightarrow> P y) \<Longrightarrow> P x"
  have wf: "wf (less_than <*lex*> less_than <*lex*> less_than <*lex*> less_than)" by (intro wf_lex_prod) auto
  have "P (Metric a b c d)" for a b c d
  proof (induction "(a, b, c, d)" arbitrary: a b c d rule: wf_induct_rule [OF wf])
    case (1 a b c d)
    show ?case
    proof (rule step)
      fix y
      assume "y < Metric a b c d"
      with 1 show "P y" by (cases y) auto
    qed
  qed
  then show "P x" by (cases x) auto
qed

end

section \<open>One operand after the other\<close>

text \<open>\<open>CONSUME_LAST_USE_MAX_SWAPS\<close> is 3.\<close>

definition dup_or_load :: "StackifyContext \<Rightarrow> ValueId \<Rightarrow> Planner \<Rightarrow> fault + Planner" where
  "dup_or_load ctx v pl = (case find_reachable_value v (dup_max (reach ctx)) (p_stack pl) of
       Some pos \<Rightarrow> on_planned (stk_dup pos) pl
     | None \<Rightarrow> push_value_from_spill_slot_or_mark ctx v v pl)"

text \<open>The position from which a last use may be consumed in place.\<close>

definition consumable :: "StackifyContext \<Rightarrow> ValueId set \<Rightarrow> ValueId \<Rightarrow> nat \<Rightarrow> ValueId set \<Rightarrow> SymStack \<Rightarrow> nat option" where
  "consumable ctx consume_last_use v prepared consumed s =
     (if v \<in> consume_last_use \<and> v \<notin> consumed then
        (case find_reachable_value_from v prepared (swap_max (reach ctx)) s of
           Some pos \<Rightarrow> if pos \<le> 3 then Some pos else None
         | None \<Rightarrow> None)
      else None)"

fun prepare_loop :: "StackifyContext \<Rightarrow> ValueId set \<Rightarrow> ValueId list \<Rightarrow> nat \<Rightarrow> ValueId set \<Rightarrow> Planner \<Rightarrow> fault + Planner" where
  "prepare_loop ctx cl [] prepared consumed pl = Inr pl"
| "prepare_loop ctx cl (v # vs) prepared consumed pl =
     rbind (value_is_imm (c_dfg ctx) v) (\<lambda>imm.
       if imm then rbind (push_imm_value ctx v pl) (prepare_loop ctx cl vs (Suc prepared) consumed)
       else case consumable ctx cl v prepared consumed (p_stack pl) of
              Some pos \<Rightarrow> rbind (on_planned (stable_rotate_to_top pos) pl) (prepare_loop ctx cl vs (Suc prepared) (insert v consumed))
            | None \<Rightarrow> rbind (dup_or_load ctx v pl) (prepare_loop ctx cl vs (Suc prepared) consumed))"

definition prepare_operands :: "StackifyContext \<Rightarrow> ValueId list \<Rightarrow> ValueId set \<Rightarrow> Planner \<Rightarrow> fault + Planner" where
  "prepare_operands ctx args consume_last_use pl = prepare_loop ctx consume_last_use (rev args) 0 {} pl"

fun is_mem_load :: "StackAction \<Rightarrow> bool" where
  "is_mem_load (MemLoadAbs _) = True"
| "is_mem_load (MemLoadObj _) = True"
| "is_mem_load _ = False"

fun is_swap :: "StackAction \<Rightarrow> bool" where
  "is_swap (StackSwap _) = True"
| "is_swap _ = False"

definition simulate_operand_prep_metric :: "StackifyContext \<Rightarrow> ValueId list \<Rightarrow> ValueId set \<Rightarrow> Planner \<Rightarrow> fault + OperandPrepMetric" where
  "simulate_operand_prep_metric ctx args consume_last_use pl =
     rbind (prepare_operands ctx args consume_last_use (pl\<lparr>p_actions := []\<rparr>)) (\<lambda>sim.
       Inr (Metric
         (card (spill_requests (mp_spill (p_mem sim))) - card (spill_requests (mp_spill (p_mem pl))))
         (length (filter is_mem_load (p_actions sim)))
         (length (filter is_swap (p_actions sim)))
         (length (p_actions sim))))"

section \<open>The search\<close>

type_synonym SearchState = "StackItem list"

record HeapItem =
  h_metric :: OperandPrepMetric
  h_id :: nat
  h_state :: SearchState

record SearchEnv =
  se_imm :: "ValueId \<Rightarrow> Immediate option"
  se_target :: "ValueId \<times> ValueId"
  se_consume :: "ValueId set"
  se_reach :: StackifyReachability

record Frontier =
  best :: "SearchState \<Rightarrow> OperandPrepMetric option"
  prev :: "SearchState \<Rightarrow> (SearchState \<times> StackAction) option"
  heap :: "HeapItem list"
  next_id :: nat

abbreviation targets :: "SearchEnv \<Rightarrow> ValueId list" where
  "targets env \<equiv> [fst (se_target env), snd (se_target env)]"

definition preserve_needed :: "SearchEnv \<Rightarrow> ValueId \<Rightarrow> bool" where
  "preserve_needed env v \<longleftrightarrow> v \<notin> se_consume env \<and> se_imm env v = None"

definition is_goal :: "SearchEnv \<Rightarrow> SearchState \<Rightarrow> bool" where
  "is_goal env s \<longleftrightarrow> 2 \<le> length s \<and> s ! 0 = Value (fst (se_target env)) \<and> s ! 1 = Value (snd (se_target env))
     \<and> list_all (\<lambda>v. preserve_needed env v \<longrightarrow> 2 \<le> count_list s (Value v)) (targets env)"

text \<open>The least item by cost, then by number, of a heap kept as a list.\<close>

definition heap_before :: "HeapItem \<Rightarrow> HeapItem \<Rightarrow> bool" where
  "heap_before a b \<longleftrightarrow> h_metric a < h_metric b \<or> h_metric a = h_metric b \<and> h_id a < h_id b"

fun heap_min :: "HeapItem \<Rightarrow> HeapItem list \<Rightarrow> HeapItem" where
  "heap_min x [] = x"
| "heap_min x (y # ys) = (if heap_before y x then heap_min y ys else heap_min x ys)"

definition heap_pop :: "HeapItem list \<Rightarrow> (HeapItem \<times> HeapItem list) option" where
  "heap_pop h = (case h of [] \<Rightarrow> None | x # xs \<Rightarrow> let y = heap_min x xs in Some (y, remove1 y h))"

definition add_swap :: "OperandPrepMetric \<Rightarrow> OperandPrepMetric" where
  "add_swap m = Metric (m_spill_requests m) (m_mem_loads m) (m_swaps m + 1) (m_actions m + 1)"

definition add_action :: "OperandPrepMetric \<Rightarrow> OperandPrepMetric" where
  "add_action m = Metric (m_spill_requests m) (m_mem_loads m) (m_swaps m) (m_actions m + 1)"

definition swap_neighbors :: "SearchEnv \<Rightarrow> SearchState \<Rightarrow> OperandPrepMetric \<Rightarrow> (SearchState \<times> OperandPrepMetric \<times> StackAction) list" where
  "swap_neighbors env s m =
     map (\<lambda>k. (swap_items k s, add_swap m, StackSwap k)) [1..<Suc (min (swap_max (se_reach env) - 1) (length s - 1))]"

definition dup_neighbor :: "SearchEnv \<Rightarrow> SearchState \<Rightarrow> OperandPrepMetric \<Rightarrow> ValueId \<Rightarrow> (SearchState \<times> OperandPrepMetric \<times> StackAction) list" where
  "dup_neighbor env s m v =
     (if preserve_needed env v then
        (case position (\<lambda>i. i = Value v) (take (dup_max (se_reach env)) s) of
           Some pos \<Rightarrow> [(Value v # s, add_action m, StackDup pos)]
         | None \<Rightarrow> [])
      else [])"

definition push_neighbor :: "SearchEnv \<Rightarrow> SearchState \<Rightarrow> OperandPrepMetric \<Rightarrow> ValueId \<Rightarrow> (SearchState \<times> OperandPrepMetric \<times> StackAction) list" where
  "push_neighbor env s m v = (case se_imm env v of Some imm \<Rightarrow> [(Value v # s, add_action m, Push imm)] | None \<Rightarrow> [])"

definition neighbors :: "SearchEnv \<Rightarrow> SearchState \<Rightarrow> OperandPrepMetric \<Rightarrow> (SearchState \<times> OperandPrepMetric \<times> StackAction) list" where
  "neighbors env s m = swap_neighbors env s m
     @ concat (map (dup_neighbor env s m) (targets env)) @ concat (map (push_neighbor env s m) (targets env))"

definition relax :: "SearchState \<Rightarrow> SearchState \<times> OperandPrepMetric \<times> StackAction \<Rightarrow> Frontier \<Rightarrow> Frontier" where
  "relax from = (\<lambda>(next_state, next_metric, action) f.
     if (case best f next_state of Some m \<Rightarrow> next_metric < m | None \<Rightarrow> True) then
       f\<lparr>best := (best f)(next_state \<mapsto> next_metric),
         prev := (prev f)(next_state \<mapsto> (from, action)),
         heap := heap f @ [\<lparr>h_metric = next_metric, h_id = next_id f, h_state = next_state\<rparr>],
         next_id := next_id f + 1\<rparr>
     else f)"

abbreviation (input) MAX_ACTIONS :: nat where "MAX_ACTIONS \<equiv> 12"

definition item_stale :: "Frontier \<Rightarrow> HeapItem \<Rightarrow> bool" where
  "item_stale f item \<longleftrightarrow> best f (h_state item) \<noteq> Some (h_metric item) \<or> MAX_ACTIONS < m_actions (h_metric item)"

text \<open>Each popped item is worth more than everything it can add, so the loop ends.\<close>

definition worth :: "SearchEnv \<Rightarrow> HeapItem \<Rightarrow> nat" where
  "worth env item = (swap_max (se_reach env) + 5) ^ (13 - m_actions (h_metric item))"

lemma length_neighbors: "length (neighbors env s m) \<le> swap_max (se_reach env) + 4"
proof -
  have "length (dup_neighbor env s m v) \<le> 1" "length (push_neighbor env s m v) \<le> 1" for v
    by (auto simp: dup_neighbor_def push_neighbor_def split: option.split)
  then have "length (concat (map (dup_neighbor env s m) (targets env))) \<le> 2" "length (concat (map (push_neighbor env s m) (targets env))) \<le> 2"
    by (simp_all, (metis add_mono one_add_one)+)
  moreover have "length (swap_neighbors env s m) \<le> swap_max (se_reach env)"
    by (simp add: swap_neighbors_def del: upt_Suc)
  ultimately show ?thesis by (simp add: neighbors_def)
qed

lemma metric_grows [simp]: "m < add_swap m" "m < add_action m" "m_actions (add_swap m) = m_actions m + 1"
  "m_actions (add_action m) = m_actions m + 1"
  by (atomize (full), cases m, simp add: add_swap_def add_action_def)

text \<open>A legal move, and that the neighbours are exactly legal moves with their cost.\<close>

inductive legal_move :: "SearchEnv \<Rightarrow> SearchState \<Rightarrow> StackAction \<Rightarrow> SearchState \<Rightarrow> bool" for env where
  swap: "1 \<le> k \<Longrightarrow> k < swap_max (se_reach env) \<Longrightarrow> k < length s \<Longrightarrow> legal_move env s (StackSwap k) (swap_items k s)"
| dup: "pos < dup_max (se_reach env) \<Longrightarrow> pos < length s \<Longrightarrow> s ! pos = Value v \<Longrightarrow> v \<in> set (targets env) \<Longrightarrow>
    legal_move env s (StackDup pos) (Value v # s)"
| push: "se_imm env v = Some imm \<Longrightarrow> v \<in> set (targets env) \<Longrightarrow> legal_move env s (Push imm) (Value v # s)"

lemma dup_neighbor_cases:
  assumes "x \<in> set (dup_neighbor env s m v)"
  obtains pos where "position (\<lambda>i. i = Value v) (take (dup_max (se_reach env)) s) = Some pos" "x = (Value v # s, add_action m, StackDup pos)"
proof (cases "preserve_needed env v")
  case True
  show ?thesis
  proof (cases "position (\<lambda>i. i = Value v) (take (dup_max (se_reach env)) s)")
    case None
    with assms True show ?thesis by (simp add: dup_neighbor_def)
  next
    case (Some pos)
    from assms True have "x = (Value v # s, add_action m, StackDup pos)" unfolding dup_neighbor_def Some by simp
    with Some show ?thesis by (rule that)
  qed
next
  case False
  with assms show ?thesis by (simp add: dup_neighbor_def)
qed

lemma push_neighbor_cases:
  assumes "x \<in> set (push_neighbor env s m v)"
  obtains imm where "se_imm env v = Some imm" "x = (Value v # s, add_action m, Push imm)"
  using assms by (cases "se_imm env v") (simp_all add: push_neighbor_def)

lemma swap_neighbors_cases:
  assumes "x \<in> set (swap_neighbors env s m)"
  obtains k where "1 \<le> k" "k < swap_max (se_reach env)" "k < length s" "x = (swap_items k s, add_swap m, StackSwap k)"
proof -
  from assms obtain k where "k \<in> {1..<Suc (min (swap_max (se_reach env) - 1) (length s - 1))}" and x: "x = (swap_items k s, add_swap m, StackSwap k)"
    unfolding swap_neighbors_def set_map set_upt by blast
  then have "1 \<le> k" "k < swap_max (se_reach env)" "k < length s" by (auto simp: less_Suc_eq_le)
  with x show ?thesis by (intro that)
qed

lemma neighbor_legal:
  assumes "(s', m', a) \<in> set (neighbors env s m)"
  shows "legal_move env s a s' \<and> (m' = add_swap m \<or> m' = add_action m)"
proof -
  consider "(s', m', a) \<in> set (swap_neighbors env s m)"
    | v where "v \<in> set (targets env)" "(s', m', a) \<in> set (dup_neighbor env s m v)"
    | v where "v \<in> set (targets env)" "(s', m', a) \<in> set (push_neighbor env s m v)"
    using assms unfolding neighbors_def set_append set_concat set_map by blast
  then show ?thesis
  proof cases
    case 1
    then show ?thesis by (elim swap_neighbors_cases) (simp add: legal_move.swap)
  next
    case (2 v)
    from 2(2) obtain pos where p: "position (\<lambda>i. i = Value v) (take (dup_max (se_reach env)) s) = Some pos"
      and e: "s' = Value v # s" "m' = add_action m" "a = StackDup pos" by (elim dup_neighbor_cases) simp
    from position_SomeD [OF p] have "pos < dup_max (se_reach env)" "pos < length s" "s ! pos = Value v" by auto
    with 2(1) e show ?thesis by (simp only: legal_move.dup simp_thms)
  next
    case (3 v)
    from 3(2) obtain imm where "se_imm env v = Some imm" "s' = Value v # s" "m' = add_action m" "a = Push imm"
      by (elim push_neighbor_cases) simp
    with 3(1) show ?thesis by (simp only: legal_move.push simp_thms)
  qed
qed

lemma neighbors_actions: "(s', m', a) \<in> set (neighbors env s m) \<Longrightarrow> m_actions m' = m_actions m + 1 \<and> m < m'"
  by (drule neighbor_legal, elim conjE disjE) simp_all

lemma heap_relax_all:
  "\<forall>(s', m', a) \<in> set ns. m_actions m' = Suc n \<Longrightarrow>
    sum_list (map (worth env) (heap (fold (relax from) ns f)))
      \<le> sum_list (map (worth env) (heap f)) + length ns * (swap_max (se_reach env) + 5) ^ (12 - n)"
proof (induction ns arbitrary: f)
  case (Cons x ns)
  obtain s' m' a where x: "x = (s', m', a)" by (cases x) auto
  have "sum_list (map (worth env) (heap (relax from x f))) \<le> sum_list (map (worth env) (heap f)) + (swap_max (se_reach env) + 5) ^ (12 - n)"
    using Cons.prems x by (auto simp: relax_def worth_def)
  with Cons.IH [of "relax from x f"] Cons.prems show ?case by simp
qed simp

lemma heap_min_mem: "heap_min x xs \<in> set (x # xs)"
  by (induction x xs rule: heap_min.induct) auto

lemma heap_pop_mem: "heap_pop h = Some (item, h') \<Longrightarrow> item \<in> set h \<and> h' = remove1 item h"
  using heap_min_mem by (auto simp: heap_pop_def Let_def split: list.splits)

lemma heap_pop_worth:
  "heap_pop h = Some (item, h') \<Longrightarrow> sum_list (map (worth env) h) = worth env item + sum_list (map (worth env) h')"
  by (auto dest!: heap_pop_mem simp: sum_list_map_remove1)

function search_loop :: "SearchEnv \<Rightarrow> Frontier \<Rightarrow> (HeapItem \<times> Frontier) option" where
  "search_loop env f =
     (case heap_pop (heap f) of
        None \<Rightarrow> None
      | Some (item, h) \<Rightarrow>
          let f = f\<lparr>heap := h\<rparr>
          in if item_stale f item then search_loop env f
             else if is_goal env (h_state item) then Some (item, f)
             else search_loop env (fold (relax (h_state item)) (neighbors env (h_state item) (h_metric item)) f))"
  by pat_completeness auto
termination
proof (relation "measure (\<lambda>(env, f). sum_list (map (worth env) (heap f)))", goal_cases)
  case 1
  show ?case by simp
next
  case (2 env f x item h f')
  then show ?case by (auto simp: heap_pop_worth [of "heap f" item h env] worth_def)
next
  case (3 env f x item h f')
  let ?B = "swap_max (se_reach env) + 5" and ?n = "m_actions (h_metric item)"
  let ?ns = "neighbors env (h_state item) (h_metric item)"
  have n: "?n \<le> 12" using 3 by (simp add: item_stale_def)
  have w: "sum_list (map (worth env) (heap f)) = worth env item + sum_list (map (worth env) h)"
    using 3 by (intro heap_pop_worth) simp
  have "sum_list (map (worth env) (heap (fold (relax (h_state item)) ?ns f'))) \<le> sum_list (map (worth env) (heap f')) + length ?ns * ?B ^ (12 - ?n)"
    by (rule heap_relax_all) (use neighbors_actions in fastforce)
  also have "\<dots> < sum_list (map (worth env) h) + ?B * ?B ^ (12 - ?n)"
    using 3 length_neighbors [of env "h_state item" "h_metric item"] by simp
  also have "?B * ?B ^ (12 - ?n) = worth env item" using n by (simp add: worth_def Suc_diff_le flip: power_Suc)
  finally show ?case using w by simp
qed

declare search_loop.simps [simp del]

text \<open>
  Walking the predecessors back from the goal. \<open>None\<close>: the walk does not end, which is shown not to
  happen.
\<close>

partial_function (option) trace_back :: "(SearchState \<Rightarrow> (SearchState \<times> StackAction) option) \<Rightarrow> SearchState \<Rightarrow> Actions \<Rightarrow> Actions option" where
  "trace_back pr cur acc = (case pr cur of None \<Rightarrow> Some acc | Some (p, a) \<Rightarrow> trace_back pr p (a # acc))"


declare trace_back.simps [code]

record BinaryOperandPrepPlan =
  bp_actions :: Actions
  final_stack :: "StackItem list"
  bp_metric :: OperandPrepMetric

fun operands_at_hand :: "StackifyContext \<Rightarrow> SearchState \<Rightarrow> ValueId list \<Rightarrow> fault + bool" where
  "operands_at_hand ctx initial [] = Inr True"
| "operands_at_hand ctx initial (v # vs) = rbind (value_is_imm (c_dfg ctx) v) (\<lambda>imm.
     if \<not> imm \<and> Value v \<notin> set (take (swap_max (reach ctx)) initial) then Inr False
     else operands_at_hand ctx initial vs)"

definition search_env :: "StackifyContext \<Rightarrow> ValueId \<times> ValueId \<Rightarrow> ValueId set \<Rightarrow> SearchEnv" where
  "search_env ctx target consume_last_use =
     \<lparr>se_imm = (\<lambda>v. case value_imm (c_dfg ctx) v of Inr x \<Rightarrow> x | Inl _ \<Rightarrow> None),
      se_target = target, se_consume = consume_last_use, se_reach = reach ctx\<rparr>"

definition metric0 :: OperandPrepMetric where
  "metric0 = Metric 0 0 0 0"

definition search_start :: "SearchState \<Rightarrow> Frontier" where
  "search_start initial = \<lparr>best = [initial \<mapsto> metric0], prev = Map.empty,
     heap = [\<lparr>h_metric = metric0, h_id = 0, h_state = initial\<rparr>], next_id = 1\<rparr>"

definition search_binary_operand_prep ::
  "StackifyContext \<Rightarrow> ValueId \<times> ValueId \<Rightarrow> ValueId set \<Rightarrow> SymStack \<Rightarrow> fault + BinaryOperandPrepPlan option" where
  "search_binary_operand_prep ctx target consume_last_use s =
     (let initial = take (len_above_func_ret s) s in
      rbind (operands_at_hand ctx initial [fst target, snd target]) (\<lambda>at_hand.
        if \<not> at_hand then Inr None
        else case search_loop (search_env ctx target consume_last_use) (search_start initial) of
               None \<Rightarrow> Inr None
             | Some (item, f) \<Rightarrow>
                 (case trace_back (prev f) (h_state item) [] of
                    None \<Rightarrow> Inl Out_of_fuel
                  | Some actions \<Rightarrow> Inr (Some \<lparr>bp_actions = actions, final_stack = h_state item, bp_metric = h_metric item\<rparr>))))"

definition apply_plan :: "BinaryOperandPrepPlan \<Rightarrow> Planner \<Rightarrow> Planner" where
  "apply_plan plan pl = pl\<lparr>p_actions := p_actions pl @ bp_actions plan, p_stack := replace_above_func_ret (final_stack plan) (p_stack pl)\<rparr>"

text \<open>\<open>None\<close>: no plan was found. Otherwise the operands in the order of the plan, and the planner.\<close>

definition better_plan :: "BinaryOperandPrepPlan option \<Rightarrow> BinaryOperandPrepPlan \<Rightarrow> bool" where
  "better_plan plan swapped = (case plan of None \<Rightarrow> True | Some cur \<Rightarrow> bp_metric swapped < bp_metric cur)"

definition try_prepare_operands_binary_via_search ::
  "StackifyContext \<Rightarrow> ValueId \<times> ValueId \<Rightarrow> ValueId set \<Rightarrow> bool \<Rightarrow> Planner \<Rightarrow> fault + (ValueId list \<times> Planner) option" where
  "try_prepare_operands_binary_via_search ctx order consume_last_use commutative pl =
     rbind (search_binary_operand_prep ctx order consume_last_use (p_stack pl)) (\<lambda>original.
     rbind (if commutative then search_binary_operand_prep ctx (snd order, fst order) consume_last_use (p_stack pl) else Inr None) (\<lambda>swapped.
       Inr (case swapped of
              Some sw \<Rightarrow>
                if better_plan original sw then Some ([snd order, fst order], apply_plan sw pl)
                else map_option (\<lambda>plan. ([fst order, snd order], apply_plan plan pl)) original
            | None \<Rightarrow> map_option (\<lambda>plan. ([fst order, snd order], apply_plan plan pl)) original)))"

section \<open>The operands of an instruction\<close>

fun commutative_data :: "inst \<Rightarrow> bool" where
  "commutative_data (Add _ _) = True"
| "commutative_data (Mul _ _) = True"
| "commutative_data (And _ _) = True"
| "commutative_data (Or _ _) = True"
| "commutative_data (Xor _ _) = True"
| "commutative_data (Eq _ _) = True"
| "commutative_data (Ne _ _) = True"
| "commutative_data _ = False"

definition inst_is_commutative :: "StackifyContext \<Rightarrow> InstId \<Rightarrow> fault + bool" where
  "inst_is_commutative ctx i = rbind (get_inst (c_dfg ctx) i) (\<lambda>data. Inr (commutative_data data))"

definition stack_prefix_matches :: "ValueId list \<Rightarrow> SymStack \<Rightarrow> bool" where
  "stack_prefix_matches args s \<longleftrightarrow> length args \<le> len_above_func_ret s
     \<and> list_all (\<lambda>(item, arg). item = Value arg) (zip (take (length args) s) args)"

definition choose_order :: "StackifyContext \<Rightarrow> ValueId list \<Rightarrow> ValueId set \<Rightarrow> Planner \<Rightarrow> fault + ValueId list" where
  "choose_order ctx args consume_last_use pl =
     rbind (simulate_operand_prep_metric ctx args consume_last_use pl) (\<lambda>original.
     rbind (simulate_operand_prep_metric ctx (rev args) consume_last_use pl) (\<lambda>swapped.
       Inr (if swapped < original then rev args else args)))"

definition prepare_greedily :: "StackifyContext \<Rightarrow> ValueId list \<Rightarrow> ValueId set \<Rightarrow> Planner \<Rightarrow> fault + (ValueId list \<times> Planner)" where
  "prepare_greedily ctx args consume_last_use pl = rbind (prepare_operands ctx args consume_last_use pl) (\<lambda>pl. Inr (args, pl))"

definition prepare_commutative :: "StackifyContext \<Rightarrow> ValueId list \<Rightarrow> ValueId set \<Rightarrow> Planner \<Rightarrow> fault + (ValueId list \<times> Planner)" where
  "prepare_commutative ctx args consume_last_use pl =
     (if set args \<subseteq> consume_last_use \<and> stack_prefix_matches args (p_stack pl) then Inr (args, pl)
      else if set args \<subseteq> consume_last_use \<and> stack_prefix_matches (rev args) (p_stack pl) then Inr (rev args, pl)
      else rbind (choose_order ctx args consume_last_use pl) (\<lambda>args. prepare_greedily ctx args consume_last_use pl))"

text \<open>A pair is swapped by reversing the list of the two.\<close>

definition prepare_operands_for_inst ::
  "StackifyContext \<Rightarrow> InstId \<Rightarrow> ValueId list \<Rightarrow> ValueId set \<Rightarrow> Planner \<Rightarrow> fault + (ValueId list \<times> Planner)" where
  "prepare_operands_for_inst ctx i args consume_last_use pl =
     (if args \<noteq> [] \<and> set args \<subseteq> consume_last_use \<and> stack_prefix_matches args (p_stack pl) then Inr (args, pl)
      else if length args = 2 \<and> args ! 0 \<noteq> args ! 1 then
        rbind (inst_is_commutative ctx i) (\<lambda>commutative.
        rbind (try_prepare_operands_binary_via_search ctx (args ! 0, args ! 1) consume_last_use commutative pl) (\<lambda>found.
          case found of
            Some r \<Rightarrow> Inr r
          | None \<Rightarrow> if commutative then prepare_commutative ctx args consume_last_use pl
                    else prepare_greedily ctx args consume_last_use pl))
      else prepare_greedily ctx args consume_last_use pl)"

section \<open>Soundness of the search\<close>

text \<open>
  The invariant of the search: the start has cost zero and no predecessor; every other known state has
  one, reached by a legal move from a cheaper state.
\<close>

definition search_inv :: "SearchEnv \<Rightarrow> SearchState \<Rightarrow> Frontier \<Rightarrow> bool" where
  "search_inv env s0 f \<longleftrightarrow> best f s0 = Some metric0 \<and> prev f s0 = None
     \<and> (\<forall>s m. s \<noteq> s0 \<longrightarrow> best f s = Some m \<longrightarrow> prev f s \<noteq> None)
     \<and> (\<forall>s p a. prev f s = Some (p, a) \<longrightarrow>
          (\<exists>mp ms. best f p = Some mp \<and> best f s = Some ms \<and> mp < ms \<and> legal_move env p a s))"

lemma metric0_least: "\<not> m < metric0"
  by (cases m) (simp add: metric0_def)

lemma search_inv_start: "search_inv env s0 (search_start s0)"
  by (simp add: search_inv_def search_start_def)

lemma relax_inv:
  assumes inv: "search_inv env s0 f" and b: "best f from = Some m" and n: "(s', m', a) \<in> set (neighbors env from m)"
  shows "search_inv env s0 (relax from (s', m', a) f) \<and> best (relax from (s', m', a) f) from = Some m"
proof (cases "case best f s' of Some m'' \<Rightarrow> m' < m'' | None \<Rightarrow> True")
  case False
  then show ?thesis using inv b by (simp add: relax_def)
next
  case True
  have lt: "m < m'" and lg: "legal_move env from a s'" using neighbors_actions [OF n] neighbor_legal [OF n] by auto
  have "s' \<noteq> s0" using True inv metric0_least [of m'] by (auto simp: search_inv_def)
  have "s' \<noteq> from"
  proof
    assume "s' = from"
    with True b have "m' < m" by simp
    with lt show False by (rule less_asym)
  qed
  have old: "best f p = Some mp \<Longrightarrow> p = s' \<Longrightarrow> m' < mp" for p mp using True by simp
  let ?f = "relax from (s', m', a) f"
  have f: "best ?f = (best f)(s' \<mapsto> m')" "prev ?f = (prev f)(s' \<mapsto> (from, a))" using True by (simp_all add: relax_def)
  have step: "\<exists>mp ms. best ?f p = Some mp \<and> best ?f t = Some ms \<and> mp < ms \<and> legal_move env p c t"
    if t: "prev ?f t = Some (p, c)" for t p c
  proof (cases "t = s'")
    case True
    with t f have "p = from" "c = a" by auto
    with True f b lt lg \<open>s' \<noteq> from\<close> show ?thesis by simp
  next
    case False
    with t f have "prev f t = Some (p, c)" by simp
    with inv obtain mp ms where o: "best f p = Some mp" "best f t = Some ms" "mp < ms" "legal_move env p c t"
      unfolding search_inv_def by blast
    show ?thesis
    proof (cases "p = s'")
      case True
      from old [OF o(1) True] o(3) have "m' < ms" by (rule less_trans)
      with True False o f show ?thesis by simp
    next
      case False
      with \<open>t \<noteq> s'\<close> o f show ?thesis by simp
    qed
  qed
  have "best ?f s0 = Some metric0" "prev ?f s0 = None" using inv \<open>s' \<noteq> s0\<close> f by (simp_all add: search_inv_def)
  moreover have "prev ?f t \<noteq> None" if "t \<noteq> s0" "best ?f t = Some m''" for t m''
    using that inv f by (cases "t = s'") (simp_all add: search_inv_def)
  ultimately have "search_inv env s0 ?f" unfolding search_inv_def using step by blast
  with f b \<open>s' \<noteq> from\<close> show ?thesis by simp
qed

lemma relax_all_inv:
  assumes "set ns \<subseteq> set (neighbors env from m)" and "search_inv env s0 f" and "best f from = Some m"
  shows "search_inv env s0 (fold (relax from) ns f)"
  using assms
proof (induction ns arbitrary: f)
  case (Cons x ns)
  obtain s' m' a where x: "x = (s', m', a)" by (cases x) auto
  have "search_inv env s0 (relax from x f) \<and> best (relax from x f) from = Some m"
    unfolding x by (rule relax_inv) (use Cons.prems x in auto)
  with Cons show ?case by simp
qed simp

lemma search_inv_heap [simp]: "search_inv env s0 (f\<lparr>heap := h\<rparr>) = search_inv env s0 f"
  by (simp add: search_inv_def)

lemma search_loop_inv:
  "search_loop env f = Some (item, f') \<Longrightarrow> search_inv env s0 f \<Longrightarrow>
    search_inv env s0 f' \<and> is_goal env (h_state item) \<and> best f' (h_state item) = Some (h_metric item)"
proof (induction env f rule: search_loop.induct)
  case (1 env f)
  from "1.prems"(1) obtain it h where p: "heap_pop (heap f) = Some (it, h)"
    by (subst (asm) search_loop.simps) (auto split: option.splits)
  let ?f = "f\<lparr>heap := h\<rparr>"
  let ?g = "fold (relax (h_state it)) (neighbors env (h_state it) (h_metric it)) ?f"
  consider (stale) "item_stale ?f it" | (goal) "\<not> item_stale ?f it" "is_goal env (h_state it)"
    | (go) "\<not> item_stale ?f it" "\<not> is_goal env (h_state it)" by blast
  then show ?case
  proof cases
    case stale
    with "1.prems"(1) p have "search_loop env ?f = Some (item, f')" by (subst (asm) search_loop.simps) (simp add: Let_def)
    with "1.IH"(1) [OF p refl refl stale] "1.prems"(2) show ?thesis by simp
  next
    case goal
    with "1.prems" p have "item = it" "f' = ?f" by (subst (asm) search_loop.simps, simp add: Let_def)+
    with goal "1.prems"(2) show ?thesis by (simp add: item_stale_def)
  next
    case go
    with "1.prems"(1) p have r: "search_loop env ?g = Some (item, f')" by (subst (asm) search_loop.simps) (simp add: Let_def)
    have "search_inv env s0 ?g" by (rule relax_all_inv [OF subset_refl]) (use "1.prems"(2) go(1) in \<open>simp_all add: item_stale_def\<close>)
    with "1.IH"(2) [OF p refl refl go r] show ?thesis .
  qed
qed

text \<open>A sequence of legal moves.\<close>

inductive legal_path :: "SearchEnv \<Rightarrow> SearchState \<Rightarrow> Actions \<Rightarrow> SearchState \<Rightarrow> bool" for env where
  stay: "legal_path env s [] s"
| move: "legal_path env s as t \<Longrightarrow> legal_move env t a u \<Longrightarrow> legal_path env s (as @ [a]) u"

lemma trace_back_path:
  assumes inv: "search_inv env s0 f" and "best f s = Some m"
  shows "\<exists>as. legal_path env s0 as s \<and> (\<forall>acc. trace_back (prev f) s acc = Some (as @ acc))"
  using assms(2)
proof (induction m arbitrary: s rule: less_induct)
  case (less m)
  show ?case
  proof (cases "prev f s")
    case None
    with inv less.prems have "s = s0" by (auto simp: search_inv_def)
    with None show ?thesis by (intro exI [of _ "[]"]) (auto intro: legal_path.stay simp: trace_back.simps [of "prev f" s0])
  next
    case (Some pa)
    obtain p a where pa: "pa = (p, a)" by (cases pa)
    with Some inv obtain mp ms where "best f p = Some mp" "best f s = Some ms" "mp < ms" and l: "legal_move env p a s"
      unfolding search_inv_def by blast
    with less.prems have "mp < m" "best f p = Some mp" by simp_all
    from less.IH [OF this] obtain as where as: "legal_path env s0 as p" "\<forall>acc. trace_back (prev f) p acc = Some (as @ acc)" by blast
    have "trace_back (prev f) s acc = Some ((as @ [a]) @ acc)" for acc
      using Some pa as(2) by (subst trace_back.simps) simp
    with as(1) l show ?thesis by (blast intro: legal_path.move)
  qed
qed

lemma legal_move_grows:
  assumes "legal_move env s a t" shows "mset s \<subseteq># mset t" and "set t \<subseteq> set s \<union> Value ` set (targets env)"
  using assms by (auto elim!: legal_move.cases simp: mset_swap_items)

lemma legal_path_grows:
  "legal_path env s as t \<Longrightarrow> mset s \<subseteq># mset t \<and> set t \<subseteq> set s \<union> Value ` set (targets env)"
proof (induction rule: legal_path.induct)
  case (move s as t a u)
  from move(3) legal_move_grows [OF move(2)] show ?case by (meson Un_iff subset_iff subset_mset.order_trans)
qed auto

lemma emits_legal_move:
  assumes "legal_move (search_env ctx target cl) s a t" and "imms_ok ctx mn"
  shows "emits mn m (s @ dn, as) (t @ dn, as @ [a])"
  using assms(1)
proof cases
  case (swap k)
  then have "swap_items k (words mn (s @ dn)) = words mn (t @ dn)" by (simp add: words_swap swap_items_append)
  with swap show ?thesis by (intro emits_one) simp
next
  case (dup pos v)
  then have "words mn (s @ dn) ! pos = m_value mn v" by (simp add: nth_append)
  with dup show ?thesis by (intro emits_one) simp
next
  case (push v imm)
  then have "value_imm (c_dfg ctx) v = Inr (Some imm)" by (simp add: search_env_def split: sum.splits)
  with assms(2) have "m_value mn v = m_imm mn imm" by (simp add: imms_ok_def)
  with push show ?thesis by (intro emits_one) simp
qed

lemma emits_legal_path:
  assumes "legal_path (search_env ctx target cl) s bs t" and "imms_ok ctx mn"
  shows "emits mn m (s @ dn, as) (t @ dn, as @ bs)"
  using assms(1)
proof induction
  case (move s bs t a u)
  have "emits mn m (t @ dn, as @ bs) (u @ dn, (as @ bs) @ [a])" by (rule emits_legal_move) (use move assms(2) in auto)
  with move(3) show ?case by (auto intro: emits_trans)
qed simp

lemma operands_at_hand_ok: "valid_values ctx vs \<Longrightarrow> \<exists>b. operands_at_hand ctx initial vs = Inr b"
proof (induction vs)
  case (Cons v vs)
  then have "value_is_imm (c_dfg ctx) v = Inr (is_imm ctx v)" "valid_values ctx vs" by (simp_all add: valid_values_def value_is_imm_valid)
  with Cons.IH obtain b where "operands_at_hand ctx initial vs = Inr b" "value_is_imm (c_dfg ctx) v = Inr (is_imm ctx v)" by blast
  then show ?case by (auto intro: exI [of _ False])
qed (auto intro: exI [of _ True])

lemma search_ok:
  assumes "valid_values ctx [fst target, snd target]"
  shows "\<exists>r. search_binary_operand_prep ctx target cl s = Inr r
    \<and> (\<forall>plan. r = Some plan \<longrightarrow>
         legal_path (search_env ctx target cl) (take (len_above_func_ret s) s) (bp_actions plan) (final_stack plan)
         \<and> is_goal (search_env ctx target cl) (final_stack plan))"
proof -
  let ?s0 = "take (len_above_func_ret s) s" and ?env = "search_env ctx target cl"
  obtain b where b: "operands_at_hand ctx ?s0 [fst target, snd target] = Inr b" using operands_at_hand_ok [OF assms] by blast
  show ?thesis
  proof (cases "b \<and> search_loop ?env (search_start ?s0) \<noteq> None")
    case False
    then consider "\<not> b" | "b" "search_loop ?env (search_start ?s0) = None" by blast
    then show ?thesis by cases (simp_all add: search_binary_operand_prep_def Let_def b del: operands_at_hand.simps)
  next
    case True
    then obtain item f where l: "search_loop ?env (search_start ?s0) = Some (item, f)" by auto
    from search_loop_inv [OF l search_inv_start]
    have f: "search_inv ?env ?s0 f" "is_goal ?env (h_state item)" "best f (h_state item) = Some (h_metric item)" by simp_all
    from trace_back_path [OF f(1,3)] obtain as where
      "legal_path ?env ?s0 as (h_state item)" "trace_back (prev f) (h_state item) [] = Some as" by auto
    with True l f(2) b show ?thesis unfolding search_binary_operand_prep_def Let_def b by simp
  qed
qed

section \<open>What preparation leaves on the stack\<close>

text \<open>
  Below the operands: nothing that was not on the stack or an operand, and everything that was, except
  values consumed at their last use and immediates.
\<close>

definition leaves :: "StackifyContext \<Rightarrow> ValueId set \<Rightarrow> ValueId list \<Rightarrow> SymStack \<Rightarrow> SymStack \<Rightarrow> bool" where
  "leaves ctx cl args up rest \<longleftrightarrow> FuncRetAddr \<notin> set rest \<and> set rest \<subseteq> set up \<union> Value ` set args
     \<and> (\<forall>i \<in> set up. i \<in> set rest \<or> i \<in> Value ` cl \<or> (\<exists>v \<in> set args. is_imm ctx v \<and> i = Value v))"

lemma goal_leaves:
  assumes g: "is_goal (search_env ctx (v, w) cl) t" and p: "legal_path (search_env ctx (v, w) cl) up as t"
    and valid: "valid_values ctx [v, w]" and "FuncRetAddr \<notin> set up" and "v \<noteq> w"
  shows "\<exists>rest. t = map Value [v, w] @ rest \<and> leaves ctx cl [v, w] up rest"
proof -
  from g obtain rest where t: "t = Value v # Value w # rest"
    by (cases t; cases "tl t") (auto simp: is_goal_def search_env_def)
  have grows: "mset up \<subseteq># mset t" "set t \<subseteq> set up \<union> {Value v, Value w}"
    using legal_path_grows [OF p] by (auto simp: search_env_def)
  have pres: "preserve_needed (search_env ctx (v, w) cl) x \<longleftrightarrow> x \<notin> cl \<and> \<not> is_imm ctx x" if "x \<in> {v, w}" for x
    using that valid by (auto simp: preserve_needed_def search_env_def valid_values_def value_imm_def get_value_def index_list_def
        is_imm_def split: Value.split)
  have kept: "Value x \<in> set rest" if "x \<in> {v, w}" "x \<notin> cl" "\<not> is_imm ctx x" for x
  proof -
    have "2 \<le> count_list t (Value x)" using g that pres [OF that(1)] by (auto simp: is_goal_def search_env_def)
    with t assms(5) that(1) have "count_list rest (Value x) \<noteq> 0" by auto
    then show ?thesis by (simp add: count_list_0_iff)
  qed
  have "i \<in> set rest \<or> i \<in> Value ` cl \<or> (\<exists>x \<in> {v, w}. is_imm ctx x \<and> i = Value x)" if "i \<in> set up" for i
  proof -
    from that grows(1) have "i \<in> set t" by (metis mset_subset_eqD set_mset_mset)
    with t kept show ?thesis by auto
  qed
  moreover have "FuncRetAddr \<notin> set rest" "set rest \<subseteq> set up \<union> {Value v, Value w}" using grows(2) t assms(4) by auto
  ultimately show ?thesis using t by (auto simp: leaves_def)
qed

lemma find_from_above:
  assumes "FuncRetAddr \<notin> set (pre @ rest)" and "barrier dn" and "find_reachable_value_from v (length pre) k (pre @ rest @ dn) = Some pos"
  shows "\<exists>i. pos = length pre + i \<and> i < length rest \<and> rest ! i = Value v"
proof -
  have l: "len_above_func_ret (pre @ rest @ dn) = length pre + length rest" using len_above [OF assms(1,2)] by simp
  from assms(3) obtain i where i: "pos = length pre + i"
    and p: "position (\<lambda>i. i = Value v) (take (min (length pre + length rest) k - length pre) (rest @ dn)) = Some i"
    by (auto simp: find_reachable_value_from_def l Let_def)
  from position_SomeD [OF p] have "i < length rest" "rest ! i = Value v" by (auto simp: nth_append)
  with i show ?thesis by blast
qed

lemma prepare_loop_ok:
  assumes "reach_ok ctx" and "valid_values ctx vs" and "homes_ok ctx (p_mem pl)" and "barrier dn"
    and "p_stack pl = map Value ps @ rest @ dn" and "FuncRetAddr \<notin> set rest"
  shows "\<exists>pl' rest'. prepare_loop ctx cl vs (length ps) consumed pl = Inr pl' \<and> plans ctx mn m pl pl'
    \<and> p_stack pl' = map Value (rev vs @ ps) @ rest' @ dn \<and> set rest' \<subseteq> set rest \<and> set rest \<subseteq> set rest' \<union> Value ` cl"
  using assms(2,3,5,6)
proof (induction vs arbitrary: pl ps rest consumed)
  case Nil
  then show ?case by (intro exI [of _ pl] exI [of _ rest]) auto
next
  case (Cons v vs)
  have v: "v < length (d_values (c_dfg ctx))" "valid_values ctx vs" using Cons.prems(1) by (auto simp: valid_values_def)
  let ?step = "\<lambda>c. rbind (materialize_one ctx v pl) (prepare_loop ctx cl vs (Suc (length ps)) c)"
  have step: "\<exists>pl' rest'. ?step consumed = Inr pl' \<and> plans ctx mn m pl pl'
      \<and> p_stack pl' = map Value (rev (v # vs) @ ps) @ rest' @ dn \<and> set rest' \<subseteq> set rest \<and> set rest \<subseteq> set rest' \<union> Value ` cl"
  proof -
    have "p_stack pl = (map Value ps @ rest) @ dn" "FuncRetAddr \<notin> set (map Value ps @ rest)" using Cons.prems by auto
    from reaches_materialize_one [OF assms(1) v(1) Cons.prems(2) this assms(4), of mn m] obtain pl1 where
      1: "materialize_one ctx v pl = Inr pl1" "p_stack pl1 = map Value (v # ps) @ rest @ dn" "plans ctx mn m pl pl1"
      by (auto simp: reaches_def)
    have "homes_ok ctx (p_mem pl1)" using Cons.prems(2) plans_homes [OF 1(3)] by simp
    from Cons.IH [OF v(2) this 1(2) Cons.prems(4), of consumed] obtain pl' rest' where
      "prepare_loop ctx cl vs (length (v # ps)) consumed pl1 = Inr pl'" "plans ctx mn m pl1 pl'"
      "p_stack pl' = map Value (rev vs @ v # ps) @ rest' @ dn" "set rest' \<subseteq> set rest" "set rest \<subseteq> set rest' \<union> Value ` cl" by blast
    with 1(1,3) show ?thesis by (intro exI [of _ pl'] exI [of _ rest']) (auto intro: plans_trans)
  qed
  show ?case
  proof (cases "is_imm ctx v")
    case True
    with step v(1) show ?thesis by (simp add: value_is_imm_valid materialize_one_def)
  next
    case imm: False
    show ?thesis
    proof (cases "consumable ctx cl v (length ps) consumed (p_stack pl)")
      case None
      with step imm v(1) show ?thesis by (simp add: value_is_imm_valid materialize_one_def dup_or_load_def)
    next
      case (Some pos)
      then have cl: "v \<in> cl" "pos \<le> 3"
        and "find_reachable_value_from v (length ps) (swap_max (reach ctx)) (p_stack pl) = Some pos"
        by (auto simp: consumable_def split: if_splits option.splits)
      moreover have "FuncRetAddr \<notin> set (map Value ps @ rest)" using Cons.prems(4) by auto
      ultimately obtain i where i: "pos = length ps + i" "i < length rest" "rest ! i = Value v"
        using find_from_above [of "map Value ps" rest dn v _ pos] Cons.prems(3) assms(4) by auto
      let ?rest = "take i rest @ drop (Suc i) rest"
      have rest: "rest = take i rest @ Value v # drop (Suc i) rest" using i by (metis id_take_nth_drop)
      let ?up = "map Value ps @ rest"
      have "FuncRetAddr \<notin> set ?up" "pos \<le> 16" "pos < length ?up" using Cons.prems(4) cl(2) i by auto
      from stable_rotate_above [OF this(1) assms(4) this(2,3), of "p_actions pl"] Cons.prems(3) i obtain a1 where
        r: "stable_rotate_to_top pos (p_stack pl, p_actions pl) = Inr ((Value v # map Value ps @ ?rest) @ dn, a1)"
        by (simp add: nth_append del: upt_Suc)
      from reaches_on_planned [where f = "stable_rotate_to_top pos", OF r emits_stable_rotate [OF r], of ctx] obtain pl1 where
        1: "on_planned (stable_rotate_to_top pos) pl = Inr pl1" "p_stack pl1 = map Value (v # ps) @ ?rest @ dn" "plans ctx mn m pl pl1"
        by (auto simp: reaches_def)
      have h: "homes_ok ctx (p_mem pl1)" using Cons.prems(2) plans_homes [OF 1(3)] by simp
      have "FuncRetAddr \<notin> set ?rest" using Cons.prems(4) by (auto dest: in_set_takeD in_set_dropD)
      from Cons.IH [OF v(2) h 1(2) this, of "insert v consumed"] obtain pl' rest' where
        "prepare_loop ctx cl vs (length (v # ps)) (insert v consumed) pl1 = Inr pl'" "plans ctx mn m pl1 pl'"
        "p_stack pl' = map Value (rev vs @ v # ps) @ rest' @ dn" "set rest' \<subseteq> set ?rest" "set ?rest \<subseteq> set rest' \<union> Value ` cl" by blast
      moreover have "set rest = insert (Value v) (set ?rest)" using rest by (metis Un_insert_right list.simps(15) set_append)
      ultimately show ?thesis using imm v(1) Some 1(1,3) cl(1)
        by (intro exI [of _ pl'] exI [of _ rest']) (auto simp: value_is_imm_valid intro: plans_trans)
    qed
  qed
qed

text \<open>What each way of preparing operands establishes.\<close>

definition prepared ::
  "StackifyContext \<Rightarrow> 'w Meaning \<Rightarrow> 'w Memory \<Rightarrow> ValueId set \<Rightarrow> ValueId list \<Rightarrow> Planner \<Rightarrow> SymStack \<Rightarrow> SymStack \<Rightarrow> ValueId list \<times> Planner \<Rightarrow> bool" where
  "prepared ctx mn m cl args pl up dn = (\<lambda>(args', pl'). plans ctx mn m pl pl'
     \<and> (\<exists>rest. p_stack pl' = map Value args' @ rest @ dn \<and> leaves ctx cl args up rest))"

lemma leaves_same_set: "set args' = set args \<Longrightarrow> leaves ctx cl args' up rest = leaves ctx cl args up rest"
  by (simp add: leaves_def)

lemma prepared_same_set: "set args' = set args \<Longrightarrow> prepared ctx mn m cl args' pl up dn = prepared ctx mn m cl args pl up dn"
  by (simp add: prepared_def leaves_same_set [of args' args])

lemma prepare_operands_ok:
  assumes "reach_ok ctx" and "valid_values ctx args" and "homes_ok ctx (p_mem pl)" and "p_stack pl = up @ dn"
    and "FuncRetAddr \<notin> set up" and "barrier dn"
  shows "\<exists>pl'. prepare_operands ctx args cl pl = Inr pl' \<and> prepared ctx mn m cl args pl up dn (args, pl')"
proof -
  have "valid_values ctx (rev args)" "p_stack pl = map Value [] @ up @ dn" using assms by (simp_all add: valid_values_def)
  from prepare_loop_ok [OF assms(1) this(1) assms(3,6) this(2) assms(5), of cl "{}" mn m] obtain pl' rest' where
    "prepare_loop ctx cl (rev args) 0 {} pl = Inr pl'" "plans ctx mn m pl pl'" "p_stack pl' = map Value args @ rest' @ dn"
    "set rest' \<subseteq> set up" "set up \<subseteq> set rest' \<union> Value ` cl" by auto
  with assms(5) show ?thesis by (intro exI [of _ pl']) (auto simp: prepare_operands_def prepared_def leaves_def)
qed

lemma prepare_greedily_ok:
  assumes "reach_ok ctx" and "valid_values ctx args" and "homes_ok ctx (p_mem pl)" and "p_stack pl = up @ dn"
    and "FuncRetAddr \<notin> set up" and "barrier dn"
  shows "\<exists>pl'. prepare_greedily ctx args cl pl = Inr (args, pl') \<and> prepared ctx mn m cl args pl up dn (args, pl')"
  using prepare_operands_ok [OF assms, of cl mn m] by (auto simp: prepare_greedily_def)

lemma simulate_ok:
  assumes "reach_ok ctx" and "valid_values ctx args" and "homes_ok ctx (p_mem pl)" and "p_stack pl = up @ dn"
    and "FuncRetAddr \<notin> set up" and "barrier dn"
  shows "\<exists>x. simulate_operand_prep_metric ctx args cl pl = Inr x"
proof -
  have "homes_ok ctx (p_mem (pl\<lparr>p_actions := []\<rparr>))" "p_stack (pl\<lparr>p_actions := []\<rparr>) = up @ dn" using assms by simp_all
  from prepare_operands_ok [OF assms(1,2) this assms(5,6), of cl] show ?thesis by (auto simp: simulate_operand_prep_metric_def)
qed

lemma stack_prefix_prepared:
  assumes "stack_prefix_matches args (p_stack pl)" and "set args \<subseteq> cl" and "p_stack pl = up @ dn" and "FuncRetAddr \<notin> set up" and "barrier dn"
  shows "prepared ctx mn m cl args pl up dn (args, pl)"
proof -
  have l: "length args \<le> length up" using assms len_above [OF assms(4,5)] by (simp add: stack_prefix_matches_def)
  have "take (length args) up = map Value args"
    by (rule zip_map_eq) (use assms(1,3) l in \<open>simp_all add: stack_prefix_matches_def list_all_iff\<close>)
  then have up: "up = map Value args @ drop (length args) up" by (metis append_take_drop_id)
  have "set up = set (map Value args) \<union> set (drop (length args) up)" by (subst up) simp
  then have "leaves ctx cl args up (drop (length args) up)" using assms(2,4) by (auto simp: leaves_def)
  moreover have "p_stack pl = map Value args @ drop (length args) up @ dn" using assms(3) up by (metis append.assoc)
  ultimately show ?thesis by (auto simp: prepared_def)
qed

lemma prepare_commutative_ok:
  assumes "reach_ok ctx" and "valid_values ctx args" and "homes_ok ctx (p_mem pl)" and s: "p_stack pl = up @ dn"
    "FuncRetAddr \<notin> set up" "barrier dn"
  shows "\<exists>args' pl'. prepare_commutative ctx args cl pl = Inr (args', pl') \<and> args' \<in> {args, rev args}
    \<and> prepared ctx mn m cl args pl up dn (args', pl')"
proof -
  have rv: "valid_values ctx (rev args)" using assms(2) by (simp add: valid_values_def)
  consider (a) "set args \<subseteq> cl" "stack_prefix_matches args (p_stack pl)"
    | (b) "set args \<subseteq> cl" "\<not> stack_prefix_matches args (p_stack pl)" "stack_prefix_matches (rev args) (p_stack pl)"
    | (c) "\<not> (set args \<subseteq> cl \<and> stack_prefix_matches args (p_stack pl))" "\<not> (set args \<subseteq> cl \<and> stack_prefix_matches (rev args) (p_stack pl))"
    by blast
  then show ?thesis
  proof cases
    case a
    with stack_prefix_prepared [OF a(2,1) s] show ?thesis by (simp add: prepare_commutative_def)
  next
    case b
    have "prepared ctx mn m cl (rev args) pl up dn (rev args, pl)" by (rule stack_prefix_prepared [OF b(3) _ s]) (use b in simp)
    with b show ?thesis by (simp add: prepare_commutative_def prepared_same_set [of "rev args" args])
  next
    case c
    obtain x y where "simulate_operand_prep_metric ctx args cl pl = Inr x" "simulate_operand_prep_metric ctx (rev args) cl pl = Inr y"
      using simulate_ok [OF assms(1,2,3) s, of cl] simulate_ok [OF assms(1) rv assms(3) s, of cl] by blast
    then have co: "choose_order ctx args cl pl = Inr (if y < x then rev args else args)" by (simp add: choose_order_def)
    obtain p1 where 1: "prepare_greedily ctx args cl pl = Inr (args, p1)" "prepared ctx mn m cl args pl up dn (args, p1)"
      using prepare_greedily_ok [OF assms(1,2,3) s] by blast
    obtain p2 where 2: "prepare_greedily ctx (rev args) cl pl = Inr (rev args, p2)" "prepared ctx mn m cl (rev args) pl up dn (rev args, p2)"
      using prepare_greedily_ok [OF assms(1) rv assms(3) s] by blast
    have "prepare_commutative ctx args cl pl = rbind (choose_order ctx args cl pl) (\<lambda>args. prepare_greedily ctx args cl pl)"
      unfolding prepare_commutative_def using c by argo
    with co 1 2 show ?thesis by (cases "y < x") (simp_all add: prepared_same_set [of "rev args" args])
  qed
qed

lemma apply_plan_prepared:
  assumes "search_binary_operand_prep ctx (v, w) cl (p_stack pl) = Inr (Some plan)" and "valid_values ctx [v, w]" and "v \<noteq> w"
    and s: "p_stack pl = up @ dn" "FuncRetAddr \<notin> set up" "barrier dn"
  shows "prepared ctx mn m cl [v, w] pl up dn ([v, w], apply_plan plan pl)"
proof -
  have up: "take (len_above_func_ret (p_stack pl)) (p_stack pl) = up" using s len_above [OF s(2,3)] by simp
  from search_ok [of ctx "(v, w)" cl "p_stack pl"] assms(1,2) up
  have p: "legal_path (search_env ctx (v, w) cl) up (bp_actions plan) (final_stack plan)" "is_goal (search_env ctx (v, w) cl) (final_stack plan)"
    by auto
  from goal_leaves [OF p(2,1) assms(2) s(2) assms(3)] obtain rest where
    r: "final_stack plan = map Value [v, w] @ rest" "leaves ctx cl [v, w] up rest" by blast
  have st: "p_stack (apply_plan plan pl) = final_stack plan @ dn"
    using s func_ret_index_split [OF s(2,3)] by (auto simp: apply_plan_def replace_above_func_ret_def split: if_splits)
  have "emits mn m (p_stack pl, p_actions pl) (p_stack (apply_plan plan pl), p_actions (apply_plan plan pl))" if "imms_ok ctx mn"
    using emits_legal_path [OF p(1) that, of m dn "p_actions pl"] st s(1) by (simp add: apply_plan_def)
  then have "plans ctx mn m pl (apply_plan plan pl)" by (simp add: plans_def apply_plan_def)
  with st r show ?thesis by (simp add: prepared_def)
qed

lemma via_search_ok:
  assumes "valid_values ctx [v, w]" and "v \<noteq> w" and s: "p_stack pl = up @ dn" "FuncRetAddr \<notin> set up" "barrier dn"
  shows "\<exists>r. try_prepare_operands_binary_via_search ctx (v, w) cl commutative pl = Inr r
    \<and> (\<forall>args' pl'. r = Some (args', pl') \<longrightarrow> (args' = [v, w] \<or> commutative \<and> args' = [w, v])
         \<and> prepared ctx mn m cl [v, w] pl up dn (args', pl'))"
proof -
  have sw: "valid_values ctx [w, v]" "w \<noteq> v" using assms by (auto simp: valid_values_def)
  obtain r1 r2 where r: "search_binary_operand_prep ctx (v, w) cl (p_stack pl) = Inr r1"
    "(if commutative then search_binary_operand_prep ctx (w, v) cl (p_stack pl) else Inr None) = Inr r2"
    using search_ok [of ctx "(v, w)" cl "p_stack pl"] search_ok [of ctx "(w, v)" cl "p_stack pl"] assms(1) sw(1) by (cases commutative) auto
  have 1: "prepared ctx mn m cl [v, w] pl up dn ([v, w], apply_plan plan pl)" if "r1 = Some plan" for plan
    by (rule apply_plan_prepared [OF _ assms(1,2) s]) (use r(1) that in simp)
  have 2: "commutative" "prepared ctx mn m cl [v, w] pl up dn ([w, v], apply_plan plan pl)" if "r2 = Some plan" for plan
  proof -
    from r(2) that show c: commutative by (cases commutative) auto
    from r(2) that c have "search_binary_operand_prep ctx (w, v) cl (p_stack pl) = Inr (Some plan)" by simp
    from apply_plan_prepared [OF this sw s, of mn m] show "prepared ctx mn m cl [v, w] pl up dn ([w, v], apply_plan plan pl)"
      by (simp add: prepared_same_set [of "[w, v]" "[v, w]"] insert_commute)
  qed
  show ?thesis unfolding try_prepare_operands_binary_via_search_def using r 1 2
    by (cases r2; cases r1) (auto simp: better_plan_def)
qed

lemma prepare_for_inst_ok:
  assumes "reach_ok ctx" and "valid_values ctx args" and "homes_ok ctx (p_mem pl)" and "p_stack pl = up @ dn"
    and "FuncRetAddr \<notin> set up" and "barrier dn" and "get_inst (c_dfg ctx) i = Inr data"
  shows "\<exists>args' pl'. prepare_operands_for_inst ctx i args cl pl = Inr (args', pl')
    \<and> (args' = args \<or> args' = rev args \<and> length args = 2 \<and> commutative_data data) \<and> prepared ctx mn m cl args pl up dn (args', pl')"
proof (cases "args \<noteq> [] \<and> set args \<subseteq> cl \<and> stack_prefix_matches args (p_stack pl)")
  case True
  with stack_prefix_prepared [OF _ _ assms(4-6), of args cl] show ?thesis by (simp add: prepare_operands_for_inst_def)
next
  case fast: False
  show ?thesis
  proof (cases "length args = 2 \<and> args ! 0 \<noteq> args ! 1")
    case False
    with fast prepare_greedily_ok [OF assms(1-6), of cl mn m] show ?thesis unfolding prepare_operands_for_inst_def by auto
  next
    case True
    then obtain v w where args: "args = [v, w]" "v \<noteq> w" by (auto simp: numeral_2_eq_2 length_Suc_conv)
    obtain r where r: "try_prepare_operands_binary_via_search ctx (v, w) cl (commutative_data data) pl = Inr r"
      "\<forall>args' pl'. r = Some (args', pl') \<longrightarrow> (args' = [v, w] \<or> commutative_data data \<and> args' = [w, v]) \<and> prepared ctx mn m cl [v, w] pl up dn (args', pl')"
      using via_search_ok [of ctx v w pl up dn cl "commutative_data data" mn m] assms args by blast
    have e: "prepare_operands_for_inst ctx i args cl pl = (case r of Some r \<Rightarrow> Inr r
        | None \<Rightarrow> if commutative_data data then prepare_commutative ctx args cl pl else prepare_greedily ctx args cl pl)"
      using fast True args r(1) assms(7) by (auto simp: prepare_operands_for_inst_def inst_is_commutative_def)
    show ?thesis
    proof (cases r)
      case None
      with e args prepare_greedily_ok [OF assms(1-6), of cl mn m] prepare_commutative_ok [OF assms(1-6), of cl mn m]
      show ?thesis by (cases "commutative_data data") auto
    next
      case (Some q)
      with e r(2) args show ?thesis by (cases q) auto
    qed
  qed
qed

section \<open>Properties\<close>

text \<open>C22: Preparing the operands of an instruction always succeeds. The operands end up on top in order, exchanged
  only if the instruction commutes; below them is everything that was on the stack except values consumed
  at their last use and immediates, and nothing new but copies of operands; and unless a value was marked
  for spilling the emitted actions do the same to the machine stack and leave memory alone. This covers
  the search, which therefore always ends and whose plans are sound, and the greedy fallback.\<close>
theorem prepare_operands_correct:
  assumes "reach_ok ctx" and "valid_values ctx args" and "homes_ok ctx (p_mem pl)" and "p_stack pl = up @ dn"
    and "FuncRetAddr \<notin> set up" and "barrier dn" and "get_inst (c_dfg ctx) i = Inr data"
  shows "\<exists>args' pl' rest. prepare_operands_for_inst ctx i args cl pl = Inr (args', pl')
    \<and> (args' = args \<or> args' = rev args \<and> length args = 2 \<and> commutative_data data)
    \<and> p_stack pl' = map Value args' @ rest @ dn \<and> leaves ctx cl args up rest \<and> same_homes (p_mem pl) (p_mem pl')
    \<and> (spill_requests (mp_spill (p_mem pl')) = {} \<and> stored_ok ctx (p_mem pl) mn m \<and> imms_ok ctx mn \<longrightarrow>
       (\<exists>\<delta>. p_actions pl' = p_actions pl @ \<delta>
          \<and> exec_actions mn \<delta> (words mn (up @ dn), m) = Some (words mn (map Value args' @ rest @ dn), m)))"
  using prepare_for_inst_ok [OF assms, of cl mn m] assms(4) by (fastforce simp: prepared_def plans_def emits_def)

text \<open>Subtraction of the second argument from the first, the stack holding them the wrong way round.\<close>

definition sub_context :: StackifyContext where
  "sub_context = sample_context\<lparr>c_func := (c_func sample_context)\<lparr>f_dfg := (c_dfg sample_context)\<lparr>d_insts := [Sub 1 0]\<rparr>\<rparr>\<rparr>"

lemma sub_context_ok: "reach_ok sub_context" "valid_values sub_context [1, 0]" "homes_ok sub_context (p_mem sample_planner)"
  "get_inst (c_dfg sub_context) 0 = Inr (Sub 1 0)"
  by (simp_all add: sub_context_def sample_context_def sample_planner_def reach_ok_def valid_values_def homes_ok_def get_inst_def)

theorem prepare_operands_correct_witness:
  "\<exists>pl' rest. prepare_operands_for_inst sub_context 0 [1, 0] {0, 1} sample_planner = Inr ([1, 0], pl')
    \<and> p_stack pl' = Value 1 # Value 0 # rest @ [FuncRetAddr]"
proof -
  have "p_stack sample_planner = [Value 0, Value 1] @ [FuncRetAddr]" "FuncRetAddr \<notin> set [Value 0, Value 1]" "barrier [FuncRetAddr]"
    by (simp_all add: sample_planner_def barrier_def)
  from prepare_operands_correct [OF sub_context_ok(1-3) this sub_context_ok(4), where cl = "{0, 1}" and mn = sample_meaning and m = sample_memory]
  obtain args' pl' rest where "prepare_operands_for_inst sub_context 0 [1, 0] {0, 1} sample_planner = Inr (args', pl')"
    "args' = [1, 0]" "p_stack pl' = map Value args' @ rest @ [FuncRetAddr]" by auto
  then show ?thesis by (intro exI [of _ pl'] exI [of _ rest]) simp
qed

end
