(* ===== verification/EdgePlan.thy ===== *)
theory EdgePlan
  imports OperandPrep
begin

text \<open>
  \<open>stackalloc/stackify/planner/control_flow.rs\<close>: the stack at the end of a block. An edge brings it to
  the template the successor expects, with the sources of the phis in place of their results, renames
  them and stores the spilled ones; a return of an internal call leaves the value directly above the
  return address. The phi part of \<open>templates.rs\<close> is here as well.
\<close>

section \<open>Phis of an edge\<close>

definition phi_arg_from :: "BlockId \<Rightarrow> inst \<Rightarrow> ValueId option" where
  "phi_arg_from pred data = (case data of Phi args \<Rightarrow> map_option fst (find (\<lambda>(val, block). block = pred) args) | _ \<Rightarrow> None)"

fun phi_args_while :: "DataFlowGraph \<Rightarrow> BlockId \<Rightarrow> InstId list \<Rightarrow> fault + ValueId list" where
  "phi_args_while d pred [] = Inr []"
| "phi_args_while d pred (i # js) = rbind (get_inst d i) (\<lambda>data.
     case phi_arg_from pred data of
       Some v \<Rightarrow> rbind (phi_args_while d pred js) (\<lambda>vs. Inr (v # vs))
     | None \<Rightarrow> Inr [])"

definition phi_args_for_edge :: "Function \<Rightarrow> BlockId \<Rightarrow> BlockId \<Rightarrow> fault + ValueId list" where
  "phi_args_for_edge func pred succ = rbind (insts_of func succ) (phi_args_while (f_dfg func) pred)"

section \<open>Edges\<close>

fun rename_and_store :: "StackifyContext \<Rightarrow> nat \<Rightarrow> (ValueId \<times> ValueId) list \<Rightarrow> Planner \<Rightarrow> fault + Planner" where
  "rename_and_store ctx depth [] pl = Inr pl"
| "rename_and_store ctx depth ((phi_res, src) # ps) pl =
     rbind (assert_that (item_at depth (p_stack pl) = Some (Value src)) ''edge normalization failed to place phi source'') (\<lambda>_.
     rbind (rename_value_at_depth depth phi_res (p_stack pl)) (\<lambda>s.
     rbind (emit_store_if_spilled_at_depth ctx phi_res depth (pl\<lparr>p_stack := s\<rparr>)) (rename_and_store ctx (Suc depth) ps)))"

definition plan_edge_fixup :: "StackifyContext \<Rightarrow> (BlockId \<Rightarrow> BlockTemplate) \<Rightarrow> BlockId \<Rightarrow> BlockId \<Rightarrow> Planner \<Rightarrow> fault + Planner" where
  "plan_edge_fixup ctx templates pred succ pl =
     (let tmpl = templates succ; phis = phi_results ctx succ in
      rbind (phi_args_for_edge (c_func ctx) pred succ) (\<lambda>phi_srcs.
      rbind (assert_that (length phi_srcs = length phis) ''phi source/result arity mismatch'') (\<lambda>_.
      rbind (assert_that (length phis \<le> length (params tmpl)) ''template params missing phi results'') (\<lambda>_.
        let args_prefix_len = length (params tmpl) - length phis in
        rbind (assert_that (drop args_prefix_len (params tmpl) = phis) ''template phi prefix mismatch'') (\<lambda>_.
        rbind (normalize_to_exact ctx (take args_prefix_len (params tmpl) @ phi_srcs @ transfer tmpl) pl)
          (rename_and_store ctx args_prefix_len (zip phis phi_srcs)))))))"

section \<open>Internal returns\<close>

text \<open>The search for an equal immediate on the stack.\<close>

fun find_imm :: "DataFlowGraph \<Rightarrow> Immediate \<Rightarrow> nat \<Rightarrow> StackItem list \<Rightarrow> fault + nat option" where
  "find_imm d imm idx [] = Inr None"
| "find_imm d imm idx (Value v # js) = rbind (value_imm d v) (\<lambda>x.
     if x = Some imm then Inr (Some idx) else find_imm d imm (Suc idx) js)"
| "find_imm d imm idx (_ # js) = find_imm d imm (Suc idx) js"

function pop_until_value :: "ValueId \<Rightarrow> planned \<Rightarrow> fault + planned" where
  "pop_until_value ret_val p = (case fst p of
       [] \<Rightarrow> Inr p
     | item # _ \<Rightarrow> if item = Value ret_val \<or> item = FuncRetAddr then Inr p else rbind (stk_pop p) (pop_until_value ret_val))"
  by pat_completeness auto
termination
  by (relation "measure (\<lambda>(v, p). length (fst p))") (auto simp: stk_pop_def pop_operand_def split: list.splits prod.splits StackItem.splits)

declare pop_until_value.simps [simp del]

definition delete_between :: "StackifyContext \<Rightarrow> Planner \<Rightarrow> fault + Planner" where
  "delete_between ctx = on_planned (delete_between_top_and_func_ret (dup_max (reach ctx)))"

definition return_imm :: "StackifyContext \<Rightarrow> ValueId \<Rightarrow> Immediate \<Rightarrow> Planner \<Rightarrow> fault + Planner" where
  "return_imm ctx ret_val imm pl =
     rbind (find_imm (c_dfg ctx) imm 0 (take (len_above_func_ret (p_stack pl)) (p_stack pl))) (\<lambda>existing_pos.
     case existing_pos of
       Some pos \<Rightarrow>
         rbind (on_planned (stk_pop_n pos) pl) (\<lambda>pl.
         rbind (rename_top_value ret_val (p_stack pl)) (\<lambda>s. delete_between ctx (pl\<lparr>p_stack := s\<rparr>)))
     | None \<Rightarrow>
         rbind (on_planned clear_above_func_ret pl) (on_planned (\<lambda>p. Inr (push_imm ret_val imm p))))"

definition plan_internal_return :: "StackifyContext \<Rightarrow> InstId \<Rightarrow> Planner \<Rightarrow> fault + Planner" where
  "plan_internal_return ctx i pl =
     rbind (as_return (c_dfg ctx) i) (\<lambda>r. case r of
       None \<Rightarrow> on_planned clear_above_func_ret pl
     | Some ret_val \<Rightarrow>
         rbind (value_imm (c_dfg ctx) ret_val) (\<lambda>oi. case oi of
           Some imm \<Rightarrow> return_imm ctx ret_val imm pl
         | None \<Rightarrow>
             rbind (on_planned (pop_until_value ret_val) pl) (\<lambda>pl.
             rbind (if item_at 0 (p_stack pl) = Some (Value ret_val) then Inr pl
                    else push_value_from_spill_slot_or_mark ctx ret_val ret_val pl) (delete_between ctx))))"

section \<open>Stores\<close>

text \<open>
  The memory side of the plan: slots in step and within the bound the context gives, small enough for
  their offsets, and a stack object for every spilled value.
\<close>

definition mem_ok :: "StackifyContext \<Rightarrow> MemPlan \<Rightarrow> bool" where
  "mem_ok ctx mem \<longleftrightarrow> pool_ok (val_live_blocks ctx) (free_slots mem, slots mem)
     \<and> next_slot (slots mem) \<le> scratch_spill_slots ctx \<and> scratch_spill_slots ctx \<le> 2 ^ 27
     \<and> (\<forall>v \<in> spill (mp_spill mem). spill_obj mem v \<noteq> None)"

fun store_of :: "StackAction \<Rightarrow> StackAction" where
  "store_of (MemLoadAbs a) = MemStoreAbs a"
| "store_of (MemLoadObj a) = MemStoreObj a"
| "store_of x = x"

fun put_word :: "StackAction \<Rightarrow> 'w \<Rightarrow> 'w Memory \<Rightarrow> 'w Memory" where
  "put_word (MemLoadAbs a) w m = m\<lparr>at_abs := (at_abs m)(a := w)\<rparr>"
| "put_word (MemLoadObj a) w m = m\<lparr>at_obj := (at_obj m)(a := w)\<rparr>"
| "put_word _ w m = m"

definition put_home :: "StackifyContext \<Rightarrow> MemPlan \<Rightarrow> ValueId \<Rightarrow> 'w \<Rightarrow> 'w Memory \<Rightarrow> 'w Memory" where
  "put_home ctx mem v w m = (if v \<in> spill (mp_spill mem) then
       (case home_action ctx mem v of Inr ld \<Rightarrow> put_word ld w m | Inl _ \<Rightarrow> m) else m)"

fun store_homes :: "StackifyContext \<Rightarrow> MemPlan \<Rightarrow> (ValueId \<times> 'w) list \<Rightarrow> 'w Memory \<Rightarrow> 'w Memory" where
  "store_homes ctx mem [] m = m"
| "store_homes ctx mem ((v, w) # vws) m = store_homes ctx mem vws (put_home ctx mem v w m)"

lemma home_action_cong:
  "spill_obj mem' = spill_obj mem \<Longrightarrow> slot_for v (slots mem') = slot_for v (slots mem) \<Longrightarrow> home_action ctx mem' v = home_action ctx mem v"
  by (cases "slot_for v (slots mem)") (simp_all add: home_action_def obj_of_def)

lemma mem_ok_slot_offset: "mem_ok ctx mem \<Longrightarrow> slot_for v (slots mem) = Some slot \<Longrightarrow> slot_offset slot = Inr (slot * 32)"
  by (auto simp: mem_ok_def pool_ok_def slot_for_def slot_offset_def u32_limit_def) force

lemma mem_ok_homes: "mem_ok ctx mem \<Longrightarrow> homes_ok ctx mem"
  using mem_ok_slot_offset [of ctx mem]
  by (auto simp: homes_ok_def home_action_def obj_of_def split: option.split) (auto simp: mem_ok_def)

lemma home_action_cases: "home_action ctx mem v = Inr ld \<Longrightarrow> (\<exists>a. ld = MemLoadAbs a) \<or> (\<exists>a. ld = MemLoadObj a)"
  by (auto simp: home_action_def split: option.splits)

lemma put_word_loaded: "home_action ctx mem v = Inr ld \<Longrightarrow> loaded_word ld (put_word ld w m) = Some w"
  by (drule home_action_cases) auto

lemma exec_store:
  assumes "home_action ctx mem v = Inr ld" and "depth < length st"
  shows "exec_actions mn [StackDup depth, store_of ld] (st, m) = Some (st, put_word ld (st ! depth) m)"
  using home_action_cases [OF assms(1)] assms(2) by auto

lemma mem_store_ok:
  assumes ok: "mem_ok ctx mem" and v: "v \<in> spill (mp_spill mem)"
  shows "\<exists>mem' ld. mem_store_if_spilled ctx v depth (mem, actions) = Inr (mem', actions @ [StackDup depth, store_of ld])
    \<and> mem_ok ctx mem' \<and> home_action ctx mem' v = Inr ld \<and> mp_spill mem' = mp_spill mem \<and> spill_obj mem' = spill_obj mem
    \<and> (\<forall>w. w \<noteq> v \<longrightarrow> home_action ctx mem' w = home_action ctx mem w)"
proof -
  obtain ob where ob: "spill_obj mem v = Some ob" using ok v by (auto simp: mem_ok_def)
  show ?thesis
  proof (cases "uses_scratch ctx v")
    case False
    with ob v ok show ?thesis
      by (intro exI [of _ mem] exI [of _ "MemLoadObj ob"]) (simp add: mem_store_if_spilled_def spilled_def home_action_def obj_of_def)
  next
    case True
    have p: "pool_ok (val_live_blocks ctx) (free_slots mem, slots mem)" "next_slot (slots mem) + 1 < u32_limit"
      "next_slot (slots mem) \<le> scratch_spill_slots ctx" using ok by (simp_all add: mem_ok_def u32_limit_def)
    from try_ensure_slot_ok [OF p(1,2), of v "Some (scratch_spill_slots ctx)"] obtain s fs' p' where
      e: "try_ensure_slot v (val_live_blocks ctx) (Some (scratch_spill_slots ctx)) (free_slots mem, slots mem) = Inr (s, fs', p')"
        "pool_ok (val_live_blocks ctx) (fs', p')" and
      c: "case s of Some slot \<Rightarrow> slot_of p' = (slot_of (slots mem))(v \<mapsto> slot) \<and> slot_reason (val_live_blocks ctx) v slot (free_slots mem, slots mem)
          \<and> (slot_of (slots mem) v = None \<longrightarrow> slot \<notin> fs') \<and> (\<forall>k. Some (scratch_spill_slots ctx) = Some k \<and> next_slot (slots mem) \<le> k \<longrightarrow> next_slot p' \<le> k)
        | None \<Rightarrow> p' = slots mem \<and> slot_of (slots mem) v = None \<and> (\<exists>k. Some (scratch_spill_slots ctx) = Some k \<and> k \<le> next_slot (slots mem))" by blast
    let ?mem = "mem\<lparr>free_slots := fs', slots := p'\<rparr>"
    have n: "next_slot p' \<le> scratch_spill_slots ctx" using c p(3) by (auto split: option.splits)
    then have ok': "mem_ok ctx ?mem" using ok e(2) by (simp add: mem_ok_def)
    show ?thesis
    proof (cases s)
      case None
      have "home_action ctx ?mem w = home_action ctx mem w" for w using c None by (intro home_action_cong) simp_all
      moreover have "home_action ctx mem v = Inr (MemLoadObj ob)" using c None True ob by (simp add: home_action_def obj_of_def slot_for_def)
      moreover have "mem_store_if_spilled ctx v depth (mem, actions) = Inr (?mem, actions @ [StackDup depth, store_of (MemLoadObj ob)])"
        using None e(1) True v ob by (simp add: mem_store_if_spilled_def spilled_def obj_of_def)
      ultimately show ?thesis using ok' by (intro exI [of _ ?mem] exI [of _ "MemLoadObj ob"]) simp
    next
      case (Some slot)
      then have sl: "slot_of p' = (slot_of (slots mem))(v \<mapsto> slot)" using c by simp
      have off: "slot_offset slot = Inr (slot * 32)" using mem_ok_slot_offset [OF ok', of v slot] sl by (simp add: slot_for_def)
      have sf: "slot_for v p' = Some slot" "\<And>w. w \<noteq> v \<Longrightarrow> slot_for w p' = slot_for w (slots mem)" using sl by (simp_all add: slot_for_def)
      have "mem_store_if_spilled ctx v depth (mem, actions) = Inr (?mem, actions @ [StackDup depth, store_of (MemLoadAbs (slot * 32))])"
        using Some e(1) True v off by (simp add: mem_store_if_spilled_def spilled_def)
      moreover have "home_action ctx ?mem v = Inr (MemLoadAbs (slot * 32))" using sf(1) True off by (simp add: home_action_def)
      moreover have "home_action ctx ?mem w = home_action ctx mem w" if "w \<noteq> v" for w
        using sf(2) [OF that] by (intro home_action_cong) simp_all
      ultimately show ?thesis using ok' by (intro exI [of _ ?mem] exI [of _ "MemLoadAbs (slot * 32)"]) simp
    qed
  qed
qed

lemma mem_store_unspilled: "v \<notin> spill (mp_spill mem) \<Longrightarrow> mem_store_if_spilled ctx v depth (mem, actions) = Inr (mem, actions)"
  by (simp add: mem_store_if_spilled_def spilled_def)

section \<open>Storing the phis\<close>

lemma store_homes_append: "store_homes ctx mem (xs @ ys) m = store_homes ctx mem ys (store_homes ctx mem xs m)"
  by (induction ctx mem xs m rule: store_homes.induct) auto

lemma put_home_cong:
  "spill (mp_spill mem') = spill (mp_spill mem) \<Longrightarrow> home_action ctx mem' v = home_action ctx mem v \<Longrightarrow> put_home ctx mem' v w m = put_home ctx mem v w m"
  by (simp add: put_home_def)

text \<open>What one store leaves: the same spilled values, the same homes but that of the stored value.\<close>

definition stores_only :: "StackifyContext \<Rightarrow> ValueId set \<Rightarrow> MemPlan \<Rightarrow> MemPlan \<Rightarrow> bool" where
  "stores_only ctx vs mem mem' \<longleftrightarrow> mem_ok ctx mem' \<and> mp_spill mem' = mp_spill mem \<and> spill_obj mem' = spill_obj mem
     \<and> (\<forall>w. w \<notin> vs \<longrightarrow> home_action ctx mem' w = home_action ctx mem w)"

lemma emit_store_at_depth_ok:
  assumes ok: "mem_ok ctx (p_mem pl)" and d: "v \<in> spill (mp_spill (p_mem pl)) \<Longrightarrow> depth < dup_max (reach ctx)"
  shows "\<exists>pl' \<delta>. emit_store_if_spilled_at_depth ctx v depth pl = Inr pl' \<and> p_stack pl' = p_stack pl \<and> p_actions pl' = p_actions pl @ \<delta>
    \<and> stores_only ctx {v} (p_mem pl) (p_mem pl')
    \<and> (\<forall>(mn :: 'w Meaning) st m. depth < length st \<longrightarrow> exec_actions mn \<delta> (st, m) = Some (st, put_home ctx (p_mem pl') v (st ! depth) m))"
proof (cases "v \<in> spill (mp_spill (p_mem pl))")
  case False
  with ok show ?thesis by (intro exI [of _ pl] exI [of _ "[]"]) (simp add: emit_store_if_spilled_at_depth_def stores_only_def put_home_def)
next
  case True
  from mem_store_ok [OF ok True, of depth "p_actions pl"] obtain mem' ld where
    s: "mem_store_if_spilled ctx v depth (p_mem pl, p_actions pl) = Inr (mem', p_actions pl @ [StackDup depth, store_of ld])" and
    m: "mem_ok ctx mem'" "home_action ctx mem' v = Inr ld" "mp_spill mem' = mp_spill (p_mem pl)" "spill_obj mem' = spill_obj (p_mem pl)"
      "\<forall>w. w \<noteq> v \<longrightarrow> home_action ctx mem' w = home_action ctx (p_mem pl) w" by blast
  let ?pl = "pl\<lparr>p_mem := mem', p_actions := p_actions pl @ [StackDup depth, store_of ld]\<rparr>"
  have "emit_store_if_spilled_at_depth ctx v depth pl = Inr ?pl"
    using True d [OF True] s by (simp add: emit_store_if_spilled_at_depth_def)
  moreover have "exec_actions mn [StackDup depth, store_of ld] (st, m) = Some (st, put_home ctx mem' v (st ! depth) m)"
    if "depth < length st" for mn :: "'w Meaning" and st m
    unfolding exec_store [OF m(2) that] using True m(2,3) by (simp add: put_home_def)
  ultimately show ?thesis using m
    by (intro exI [of _ ?pl] exI [of _ "[StackDup depth, store_of ld]"]) (simp add: stores_only_def del: exec_actions.simps)
qed

lemma rename_above:
  assumes "FuncRetAddr \<notin> set pre" and "FuncRetAddr \<notin> set suf" and "barrier dn"
  shows "rename_value_at_depth (length pre) v ((pre @ Value u # suf) @ dn) = Inr ((pre @ Value v # suf) @ dn)"
proof -
  have "len_above_func_ret ((pre @ Value u # suf) @ dn) = length pre + Suc (length suf)"
    by (subst len_above [OF _ assms(3)]) (use assms in auto)
  then show ?thesis by (simp add: rename_value_at_depth_def item_at_def nth_append)
qed

lemma planner_update: "p_actions (pl\<lparr>p_stack := s\<rparr>) = p_actions pl" "p_mem (pl\<lparr>p_stack := s\<rparr>) = p_mem pl" for pl :: Planner
  by simp_all

lemma rename_and_store_ok:
  assumes "mem_ok ctx (p_mem pl)" and "distinct (map fst ps)" and "p_stack pl = (pre @ map (Value \<circ> snd) ps @ suf) @ dn"
    and "FuncRetAddr \<notin> set pre" and "FuncRetAddr \<notin> set suf" and "barrier dn"
    and "\<forall>k < length ps. fst (ps ! k) \<in> spill (mp_spill (p_mem pl)) \<longrightarrow> length pre + k < dup_max (reach ctx)"
  shows "\<exists>pl' \<delta>. rename_and_store ctx (length pre) ps pl = Inr pl' \<and> p_stack pl' = (pre @ map (Value \<circ> fst) ps @ suf) @ dn
    \<and> p_actions pl' = p_actions pl @ \<delta> \<and> stores_only ctx (fst ` set ps) (p_mem pl) (p_mem pl')
    \<and> (\<forall>(mn :: 'w Meaning) st m. length pre + length ps \<le> length st \<longrightarrow>
         exec_actions mn \<delta> (st, m) = Some (st, store_homes ctx (p_mem pl') (zip (map fst ps) (drop (length pre) st)) m))"
  using assms(1-4,7)
proof (induction ps arbitrary: pl pre)
  case Nil
  then show ?case by (intro exI [of _ pl] exI [of _ "[]"]) (simp add: stores_only_def)
next
  case (Cons p ps)
  obtain phi src where p: "p = (phi, src)" by (cases p)
  let ?rest = "map (Value \<circ> snd) ps @ suf"
  have st: "p_stack pl = (pre @ Value src # ?rest) @ dn" using Cons.prems(3) p by simp
  have nr: "FuncRetAddr \<notin> set ?rest" using assms(5) by auto
  let ?pl1 = "pl\<lparr>p_stack := (pre @ Value phi # ?rest) @ dn\<rparr>"
  have ren: "rename_value_at_depth (length pre) phi (p_stack pl) = Inr (p_stack ?pl1)"
    unfolding st using rename_above [OF Cons.prems(4) nr assms(6)] by simp
  have "mem_ok ctx (p_mem ?pl1)" "phi \<in> spill (mp_spill (p_mem ?pl1)) \<Longrightarrow> length pre < dup_max (reach ctx)"
    using Cons.prems(1,5) p by force+
  from emit_store_at_depth_ok [OF this] obtain pl2 \<delta>1 where
    2: "emit_store_if_spilled_at_depth ctx phi (length pre) ?pl1 = Inr pl2" "p_stack pl2 = p_stack ?pl1" "p_actions pl2 = p_actions pl @ \<delta>1"
      "stores_only ctx {phi} (p_mem pl) (p_mem pl2)" and
    x1: "\<forall>(mn :: 'w Meaning) st m. length pre < length st \<longrightarrow> exec_actions mn \<delta>1 (st, m) = Some (st, put_home ctx (p_mem pl2) phi (st ! length pre) m)"
    unfolding planner_update by blast
  let ?pre = "pre @ [Value phi]"
  have "mem_ok ctx (p_mem pl2)" "distinct (map fst ps)" "p_stack pl2 = (?pre @ ?rest) @ dn" "FuncRetAddr \<notin> set ?pre"
    "\<forall>k < length ps. fst (ps ! k) \<in> spill (mp_spill (p_mem pl2)) \<longrightarrow> length ?pre + k < dup_max (reach ctx)"
    using 2 Cons.prems p by (auto simp: stores_only_def)
  from Cons.IH [OF this] obtain pl' \<delta>2 where
    r: "rename_and_store ctx (length ?pre) ps pl2 = Inr pl'" "p_stack pl' = (?pre @ map (Value \<circ> fst) ps @ suf) @ dn"
      "p_actions pl' = p_actions pl2 @ \<delta>2" "stores_only ctx (fst ` set ps) (p_mem pl2) (p_mem pl')" and
    x2: "\<forall>(mn :: 'w Meaning) st m. length ?pre + length ps \<le> length st \<longrightarrow>
      exec_actions mn \<delta>2 (st, m) = Some (st, store_homes ctx (p_mem pl') (zip (map fst ps) (drop (length ?pre) st)) m)" by blast
  have "phi \<notin> fst ` set ps" using Cons.prems(2) p by simp
  then have ph: "put_home ctx (p_mem pl') phi w m = put_home ctx (p_mem pl2) phi w m" for w :: 'w and m
    using r(4) by (intro put_home_cong) (auto simp: stores_only_def)
  have ex: "exec_actions mn (\<delta>1 @ \<delta>2) (st, m) = Some (st, store_homes ctx (p_mem pl') (zip (map fst (p # ps)) (drop (length pre) st)) m)"
    if "length pre + length (p # ps) \<le> length st" for mn :: "'w Meaning" and st m
  proof -
    have "drop (length pre) st = st ! length pre # drop (Suc (length pre)) st" using that by (intro Cons_nth_drop_Suc [symmetric]) simp
    with that show ?thesis by (simp add: x1 x2 ph p)
  qed
  have "rename_and_store ctx (length pre) (p # ps) pl = Inr pl'" using p st ren 2(1) r(1) by (simp add: item_at_def nth_append)
  moreover have "stores_only ctx (fst ` set (p # ps)) (p_mem pl) (p_mem pl')" using 2(4) r(4) p by (auto simp: stores_only_def)
  ultimately show ?case using r(2,3) 2(3) p ex by (intro exI [of _ pl'] exI [of _ "\<delta>1 @ \<delta>2"]) auto
qed

section \<open>Edges and returns are planned right\<close>

text \<open>The meaning of values after the phis have been assigned in parallel.\<close>

definition assign_phis :: "ValueId list \<Rightarrow> ValueId list \<Rightarrow> 'w Meaning \<Rightarrow> 'w Meaning" where
  "assign_phis phis srcs mn = mn\<lparr>m_value := (\<lambda>v. case map_of (zip phis srcs) v of Some s \<Rightarrow> m_value mn s | None \<Rightarrow> m_value mn v)\<rparr>"

lemma words_same_items:
  assumes "\<forall>i \<in> set s. item_word mn' i = item_word mn i" and "m_below mn' = m_below mn"
  shows "words mn' s = words mn s"
  using assms by (auto simp: words_def)

lemma words_append: "words mn (xs @ ys) = map (item_word mn) xs @ words mn ys"
  by (simp add: words_def)

lemma words_assign_phis:
  assumes "distinct phis" and "length srcs = length phis" and "set phis \<inter> (set pre \<union> set tr) = {}" and "\<forall>v \<in> set phis. Value v \<notin> set dn"
  shows "words (assign_phis phis srcs mn) (map Value (pre @ phis @ tr) @ dn) = words mn (map Value (pre @ srcs @ tr) @ dn)"
proof -
  have d: "dom (map_of (zip phis srcs)) = set phis" using assms(2) by simp
  have o: "item_word (assign_phis phis srcs mn) i = item_word mn i" if "i \<notin> Value ` set phis" for i
  proof (cases i)
    case (Value v)
    with that d have "map_of (zip phis srcs) v = None" by (metis domIff image_eqI)
    with Value show ?thesis by (simp add: assign_phis_def)
  qed (simp_all add: assign_phis_def)
  have "map (item_word (assign_phis phis srcs mn) \<circ> Value) phis = map (item_word mn \<circ> Value) srcs"
    by (rule nth_equalityI) (use assms(1,2) in \<open>simp_all add: assign_phis_def map_of_zip_nth\<close>)
  moreover have "map (item_word (assign_phis phis srcs mn) \<circ> Value) vs = map (item_word mn \<circ> Value) vs" if "set phis \<inter> set vs = {}" for vs
  proof -
    have "item_word (assign_phis phis srcs mn) (Value x) = item_word mn (Value x)" if "x \<in> set vs" for x
      using \<open>set phis \<inter> set vs = {}\<close> that by (intro o) auto
    then show ?thesis by simp
  qed
  moreover have "words (assign_phis phis srcs mn) dn = words mn dn"
  proof (intro words_same_items ballI o)
    fix i
    assume "i \<in> set dn"
    with assms(4) show "i \<notin> Value ` set phis" by auto
  qed (simp add: assign_phis_def)
  moreover have "set phis \<inter> set pre = {}" "set phis \<inter> set tr = {}" using assms(3) by auto
  ultimately show ?thesis by (simp add: words_append)
qed

lemma same_homes_mem_ok: "same_homes mem mem' \<Longrightarrow> mem_ok ctx mem' = mem_ok ctx mem"
  by (simp add: same_homes_def mem_ok_def)

lemma plan_edge_ok:
  assumes "reach_ok ctx" and "mem_ok ctx (p_mem pl)" and "p_stack pl = up @ dn" and "FuncRetAddr \<notin> set up" and "barrier dn"
    and srcs: "phi_args_for_edge (c_func ctx) pred succ = Inr srcs" and phis: "phi_results ctx succ = phis" "length srcs = length phis" "distinct phis"
    and tmpl: "params (templates succ) = pre @ phis" and valid: "valid_values ctx (pre @ srcs @ transfer (templates succ))"
    and dup: "\<forall>k < length phis. phis ! k \<in> spill (mp_spill (p_mem pl)) \<longrightarrow> length pre + k < dup_max (reach ctx)"
  shows "\<exists>pl'. plan_edge_fixup ctx templates pred succ pl = Inr pl' \<and> p_stack pl' = map Value (pre @ phis @ transfer (templates succ)) @ dn
    \<and> mem_ok ctx (p_mem pl') \<and> spill (mp_spill (p_mem pl')) = spill (mp_spill (p_mem pl))
    \<and> spill_requests (mp_spill (p_mem pl)) \<subseteq> spill_requests (mp_spill (p_mem pl'))
    \<and> (\<forall>w. w \<notin> set phis \<longrightarrow> home_action ctx (p_mem pl') w = home_action ctx (p_mem pl) w)
    \<and> (spill_requests (mp_spill (p_mem pl')) = {} \<and> stored_ok ctx (p_mem pl) mn m \<and> imms_ok ctx mn \<longrightarrow>
        (\<exists>\<delta>. p_actions pl' = p_actions pl @ \<delta> \<and> exec_actions mn \<delta> (words mn (up @ dn), m)
           = Some (words mn (map Value (pre @ srcs @ transfer (templates succ)) @ dn),
                   store_homes ctx (p_mem pl') (zip phis (map (m_value mn) srcs)) m)))"
proof -
  let ?want = "pre @ srcs @ transfer (templates succ)"
  from reaches_normalize [OF assms(1) valid mem_ok_homes [OF assms(2)] assms(3-5), of mn m] obtain pl1 where
    n: "normalize_to_exact ctx ?want pl = Inr pl1" "p_stack pl1 = map Value ?want @ dn" "plans ctx mn m pl pl1"
    by (auto simp: reaches_def)
  have h: "same_homes (p_mem pl) (p_mem pl1)" using n(3) by (simp add: plans_def)
  let ?ps = "zip phis srcs"
  have ps: "map fst ?ps = phis" "map snd ?ps = srcs" "length ?ps = length phis" using phis(2) by simp_all
  have v: "map (Value \<circ> snd) ?ps = map Value srcs" "map (Value \<circ> fst) ?ps = map Value phis"
    using ps by (metis map_map)+
  have "mem_ok ctx (p_mem pl1)" "distinct (map fst ?ps)" using same_homes_mem_ok [OF h] assms(2) phis(3) ps(1) by simp_all
  moreover have "p_stack pl1 = (map Value pre @ map (Value \<circ> snd) ?ps @ map Value (transfer (templates succ))) @ dn" using n(2) v by simp
  moreover have "FuncRetAddr \<notin> set (map Value pre)" "FuncRetAddr \<notin> set (map Value (transfer (templates succ)))" by auto
  moreover have "\<forall>k < length ?ps. fst (?ps ! k) \<in> spill (mp_spill (p_mem pl1)) \<longrightarrow> length (map Value pre) + k < dup_max (reach ctx)"
    using dup h phis(2) by (simp add: same_homes_def)
  ultimately obtain pl' \<delta>2 where
    r: "rename_and_store ctx (length (map Value pre)) ?ps pl1 = Inr pl'"
      "p_stack pl' = (map Value pre @ map (Value \<circ> fst) ?ps @ map Value (transfer (templates succ))) @ dn"
      "p_actions pl' = p_actions pl1 @ \<delta>2" "stores_only ctx (fst ` set ?ps) (p_mem pl1) (p_mem pl')" and
    x: "\<forall>(mn :: 'a Meaning) st m. length (map Value pre) + length ?ps \<le> length st \<longrightarrow>
         exec_actions mn \<delta>2 (st, m) = Some (st, store_homes ctx (p_mem pl') (zip (map fst ?ps) (drop (length (map Value pre)) st)) m)"
    using rename_and_store_ok [of ctx pl1 ?ps "map Value pre" "map Value (transfer (templates succ))" dn] assms(5) by blast
  have "plan_edge_fixup ctx templates pred succ pl = Inr pl'"
    using srcs phis tmpl n(1) r(1) by (simp add: plan_edge_fixup_def Let_def)
  moreover have "p_stack pl' = map Value (pre @ phis @ transfer (templates succ)) @ dn" using r(2) v by simp
  moreover have "fst ` set ?ps = set phis" using ps(1) by (metis list.set_map)
  then have "mem_ok ctx (p_mem pl')" "mp_spill (p_mem pl') = mp_spill (p_mem pl1)"
    "\<forall>w. w \<notin> set phis \<longrightarrow> home_action ctx (p_mem pl') w = home_action ctx (p_mem pl) w"
    using r(4) same_homes_action [OF h] by (auto simp: stores_only_def)
  moreover have "\<exists>\<delta>. p_actions pl' = p_actions pl @ \<delta> \<and> exec_actions mn \<delta> (words mn (up @ dn), m)
      = Some (words mn (map Value ?want @ dn), store_homes ctx (p_mem pl') (zip phis (map (m_value mn) srcs)) m)"
    if "spill_requests (mp_spill (p_mem pl')) = {}" "stored_ok ctx (p_mem pl) mn m" "imms_ok ctx mn"
  proof -
    have "spill_requests (mp_spill (p_mem pl1)) = {}" using that(1) r(4) by (simp add: stores_only_def)
    with n(2,3) that assms(3) obtain \<delta>1 where d: "p_actions pl1 = p_actions pl @ \<delta>1"
      "exec_actions mn \<delta>1 (words mn (up @ dn), m) = Some (words mn (map Value ?want @ dn), m)"
      by (auto simp: plans_def emits_def)
    let ?st = "words mn (map Value ?want @ dn)"
    have l: "length (map Value pre) + length ?ps \<le> length ?st" using phis(2) by simp
    have "drop (length (map Value pre)) ?st = map (m_value mn) srcs @ words mn (map Value (transfer (templates succ)) @ dn)"
      by (simp add: words_append comp_def)
    then have "zip (map fst ?ps) (drop (length (map Value pre)) ?st) = zip phis (map (m_value mn) srcs)"
      using ps(1) zip_append [of phis "map (m_value mn) srcs" "[]" "words mn (map Value (transfer (templates succ)) @ dn)"] phis(2) by simp
    with x l have "exec_actions mn \<delta>2 (?st, m) = Some (?st, store_homes ctx (p_mem pl') (zip phis (map (m_value mn) srcs)) m)" by simp
    with d r(3) show ?thesis by (intro exI [of _ "\<delta>1 @ \<delta>2"]) simp
  qed
  moreover have "spill (mp_spill (p_mem pl1)) = spill (mp_spill (p_mem pl))"
    "spill_requests (mp_spill (p_mem pl)) \<subseteq> spill_requests (mp_spill (p_mem pl1))" using h by (simp_all add: same_homes_def)
  ultimately show ?thesis by (intro exI [of _ pl']) simp
qed

subsection \<open>Returns\<close>

lemma emits_renamed: "words mn s' = words mn s \<Longrightarrow> emits mn m (s, a) (s', a)"
  by (auto simp: emits_def intro: exI [of _ "[]"])

lemma find_imm_ok:
  assumes "\<forall>v. Value v \<in> set js \<longrightarrow> v < length (d_values d)"
  shows "\<exists>r. find_imm d imm idx js = Inr r
    \<and> (\<forall>pos. r = Some pos \<longrightarrow> (\<exists>k v. pos = idx + k \<and> k < length js \<and> js ! k = Value v \<and> value_imm d v = Inr (Some imm)))"
  using assms
proof (induction js arbitrary: idx)
  case (Cons j js)
  from Cons.IH [of "Suc idx"] Cons.prems obtain r where
    r: "find_imm d imm (Suc idx) js = Inr r"
      "\<forall>pos. r = Some pos \<longrightarrow> (\<exists>k v. pos = Suc idx + k \<and> k < length js \<and> js ! k = Value v \<and> value_imm d v = Inr (Some imm))" by auto
  have later: "\<exists>k v. pos = idx + k \<and> k < length (j # js) \<and> (j # js) ! k = Value v \<and> value_imm d v = Inr (Some imm)" if "r = Some pos" for pos
  proof -
    from r(2) that obtain k v where "pos = Suc idx + k" "k < length js" "js ! k = Value v" "value_imm d v = Inr (Some imm)" by blast
    then show ?thesis by (intro exI [of _ "Suc k"] exI [of _ v]) simp
  qed
  show ?case
  proof (cases j)
    case (Value v)
    with Cons.prems obtain x where x: "value_imm d v = Inr x" by (auto simp: value_imm_def get_value_def index_list_def)
    show ?thesis
    proof (cases "x = Some imm")
      case True
      with x Value show ?thesis by (intro exI [of _ "Some idx"]) auto
    next
      case False
      with x Value r(1) later show ?thesis by (intro exI [of _ r]) simp
    qed
  qed (use r(1) later in \<open>auto intro!: exI [of _ r]\<close>)
qed simp

lemma pop_until_value_above:
  "FuncRetAddr \<notin> set up \<Longrightarrow> \<exists>up' a'. pop_until_value v (up @ FuncRetAddr # below, a) = Inr (up' @ FuncRetAddr # below, a')
     \<and> (up' = [] \<or> hd up' = Value v) \<and> set up' \<subseteq> set up"
proof (induction up arbitrary: a)
  case Nil
  then show ?case by (subst pop_until_value.simps) simp
next
  case (Cons x up)
  show ?case
  proof (cases "x = Value v")
    case True
    then show ?thesis by (intro exI [of _ "x # up"] exI [of _ a], subst pop_until_value.simps) simp
  next
    case False
    have x: "x \<noteq> FuncRetAddr" using Cons.prems by auto
    from Cons.IH [of "a @ [PopTop]"] Cons.prems obtain up' a' where
      "pop_until_value v (up @ FuncRetAddr # below, a @ [PopTop]) = Inr (up' @ FuncRetAddr # below, a')"
      "up' = [] \<or> hd up' = Value v" "set up' \<subseteq> set up" by auto
    with False x show ?thesis
      by (intro exI [of _ up'] exI [of _ a'], subst pop_until_value.simps) (auto simp: stk_pop_above)
  qed
qed

lemma emits_pop_until_value: "pop_until_value v p = Inr p' \<Longrightarrow> emits mn m p p'"
proof (induction v p rule: pop_until_value.induct)
  case (1 v p)
  from "1.prems" show ?case
    by (subst (asm) pop_until_value.simps) (auto split: list.splits if_splits intro: emits_trans emits_pop "1.IH")
qed

lemma reaches_delete_between:
  assumes "reach_ok ctx" and "p_stack pl = x # up @ FuncRetAddr # below" and "x \<noteq> FuncRetAddr" and "FuncRetAddr \<notin> set up"
  shows "reaches ctx mn m pl (delete_between ctx pl) (x # FuncRetAddr # below)"
proof -
  from assms(1) have "1 \<le> dup_max (reach ctx)" "dup_max (reach ctx) \<le> 16" by (simp_all add: reach_ok_def)
  from delete_between_above [OF this assms(3,4), of below "p_actions pl"] obtain a' where
    d: "delete_between_top_and_func_ret (dup_max (reach ctx)) (p_stack pl, p_actions pl) = Inr (x # FuncRetAddr # below, a')"
    using assms(2) by auto
  show ?thesis unfolding delete_between_def by (rule reaches_on_planned, rule d, rule emits_delete_between, rule d)
qed

lemma reaches_clear:
  assumes "p_stack pl = up @ dn" and "FuncRetAddr \<notin> set up" and "barrier dn"
  shows "reaches ctx mn m pl (on_planned clear_above_func_ret pl) dn"
proof -
  have c: "clear_above_func_ret (p_stack pl, p_actions pl) = Inr (dn, p_actions pl @ replicate (length up) PopTop)"
    using clear_above_func_ret_above [OF assms(2,3)] assms(1) by simp
  show ?thesis by (rule reaches_on_planned, rule c, rule emits_clear, rule c)
qed

lemma plans_emits:
  assumes "same_homes (p_mem pl) (p_mem pl')" and "imms_ok ctx mn \<Longrightarrow> emits mn m (p_stack pl, p_actions pl) (p_stack pl', p_actions pl')"
  shows "plans ctx mn m pl pl'"
  using assms by (simp add: plans_def)

lemma reaches_return_imm:
  assumes "reach_ok ctx" and s: "p_stack pl = up @ FuncRetAddr # below" "FuncRetAddr \<notin> set up"
    and vals: "\<forall>v. Value v \<in> set up \<longrightarrow> v < length (d_values (c_dfg ctx))" and r: "value_imm (c_dfg ctx) ret_val = Inr (Some imm)"
  shows "reaches ctx mn m pl (return_imm ctx ret_val imm pl) (Value ret_val # FuncRetAddr # below)"
proof -
  let ?dn = "FuncRetAddr # below"
  have b: "barrier ?dn" by (simp add: barrier_def)
  have up: "take (len_above_func_ret (p_stack pl)) (p_stack pl) = up" using s len_above [OF s(2) b] by simp
  obtain e where e: "find_imm (c_dfg ctx) imm 0 up = Inr e" "\<forall>pos. e = Some pos \<longrightarrow>
      (\<exists>v. pos < length up \<and> up ! pos = Value v \<and> value_imm (c_dfg ctx) v = Inr (Some imm))"
    using find_imm_ok [OF vals, of imm 0] by auto
  show ?thesis
  proof (cases e)
    case None
    have "reaches ctx mn m pl' (on_planned (\<lambda>p. Inr (push_imm ret_val imm p)) pl') (Value ret_val # ?dn)" if "p_stack pl' = ?dn" for pl'
    proof -
      have "on_planned (\<lambda>p. Inr (push_imm ret_val imm p)) pl' = push_imm_value ctx ret_val pl'" using r by (simp add: push_imm_value_def)
      with plans_push_imm [of ctx ret_val pl' _ mn m] that r show ?thesis
        by (auto simp: reaches_def push_imm_value_def on_planned_def push_imm_def push_value_def)
    qed
    with None e(1) up reaches_bind [OF reaches_clear [OF s b, of ctx mn m]] show ?thesis by (simp add: return_imm_def)
  next
    case (Some pos)
    with e(2) obtain v where p: "pos < length up" "up ! pos = Value v" "value_imm (c_dfg ctx) v = Inr (Some imm)" by blast
    have dr: "drop pos up = Value v # drop (Suc pos) up" using p by (metis Cons_nth_drop_Suc)
    have "stk_pop_n pos (p_stack pl, p_actions pl) = Inr (Value v # drop (Suc pos) up @ ?dn, p_actions pl @ replicate pos PopTop)"
      using stk_pop_n_above [OF s(2), of pos ?dn "p_actions pl"] p(1) s(1) dr by simp
    from reaches_on_planned [where f = "stk_pop_n pos", OF this emits_pop_n [OF this], of ctx] obtain pl1 where
      1: "on_planned (stk_pop_n pos) pl = Inr pl1" "p_stack pl1 = Value v # drop (Suc pos) up @ ?dn" "plans ctx mn m pl pl1" by (auto simp: reaches_def)
    let ?pl2 = "pl1\<lparr>p_stack := Value ret_val # drop (Suc pos) up @ ?dn\<rparr>"
    have "m_value mn ret_val = m_value mn v" if "imms_ok ctx mn" using that r p(3) by (simp add: imms_ok_def)
    then have 2: "plans ctx mn m pl1 ?pl2" using 1(2) by (intro plans_emits) (auto intro!: emits_renamed)
    have "FuncRetAddr \<notin> set (drop (Suc pos) up)" using s(2) by (auto dest: in_set_dropD)
    from reaches_delete_between [OF assms(1) _ _ this, of ?pl2 "Value ret_val" below mn m] obtain pl3 where
      "delete_between ctx ?pl2 = Inr pl3" "p_stack pl3 = Value ret_val # ?dn" "plans ctx mn m ?pl2 pl3" by (auto simp: reaches_def)
    with Some e(1) up 1 2 show ?thesis
      by (auto simp: reaches_def return_imm_def rename_top_value_def intro: plans_trans)
  qed
qed

lemma reaches_internal_return:
  assumes "reach_ok ctx" and "homes_ok ctx (p_mem pl)" and s: "p_stack pl = up @ FuncRetAddr # below" "FuncRetAddr \<notin> set up"
    and vals: "\<forall>v. Value v \<in> set up \<longrightarrow> v < length (d_values (c_dfg ctx))" and r: "as_return (c_dfg ctx) i = Inr r"
    and rv: "\<forall>v. r = Some v \<longrightarrow> v < length (d_values (c_dfg ctx))"
  shows "reaches ctx mn m pl (plan_internal_return ctx i pl) ((case r of None \<Rightarrow> [] | Some v \<Rightarrow> [Value v]) @ FuncRetAddr # below)"
proof (cases r)
  case None
  with r reaches_clear [OF s, of ctx mn m] show ?thesis by (simp add: plan_internal_return_def barrier_def)
next
  case (Some v)
  let ?dn = "FuncRetAddr # below"
  have v: "v < length (d_values (c_dfg ctx))" using rv Some by simp
  show ?thesis
  proof (cases "is_imm ctx v")
    case True
    from value_imm_valid [OF v this] obtain imm where "value_imm (c_dfg ctx) v = Inr (Some imm)" by blast
    with reaches_return_imm [OF assms(1) s vals this, of mn m] r Some show ?thesis by (simp add: plan_internal_return_def)
  next
    case False
    then have vi: "value_imm (c_dfg ctx) v = Inr None"
      using v by (auto simp: value_imm_def get_value_def index_list_def is_imm_def split: Value.splits)
    from pop_until_value_above [OF s(2), of v below "p_actions pl"] obtain up' a' where
      p: "pop_until_value v (p_stack pl, p_actions pl) = Inr (up' @ ?dn, a')" "up' = [] \<or> hd up' = Value v" "set up' \<subseteq> set up" using s(1) by auto
    from reaches_on_planned [where f = "pop_until_value v", OF p(1) emits_pop_until_value [OF p(1)], of ctx] obtain pl1 where
      1: "on_planned (pop_until_value v) pl = Inr pl1" "p_stack pl1 = up' @ ?dn" "plans ctx mn m pl pl1" by (auto simp: reaches_def)
    have "\<exists>up2. reaches ctx mn m pl1 (if item_at 0 (p_stack pl1) = Some (Value v) then Inr pl1
        else push_value_from_spill_slot_or_mark ctx v v pl1) (Value v # up2 @ ?dn) \<and> FuncRetAddr \<notin> set up2"
    proof (cases up')
      case Nil
      have "homes_ok ctx (p_mem pl1)" using plans_homes [OF 1(3)] assms(2) by simp
      from reaches_push_load [OF v False this, of mn m] Nil 1(2) show ?thesis
        by (intro exI [of _ "[]"]) (simp add: item_at_def)
    next
      case (Cons x us)
      with p(2,3) s(2) 1(2) show ?thesis by (intro exI [of _ us]) (auto simp: item_at_def intro!: reaches_done)
    qed
    then obtain up2 where q: "reaches ctx mn m pl1 (if item_at 0 (p_stack pl1) = Some (Value v) then Inr pl1
        else push_value_from_spill_slot_or_mark ctx v v pl1) (Value v # up2 @ ?dn)" "FuncRetAddr \<notin> set up2" by blast
    have "reaches ctx mn m pl1 (rbind (if item_at 0 (p_stack pl1) = Some (Value v) then Inr pl1
        else push_value_from_spill_slot_or_mark ctx v v pl1) (delete_between ctx)) (Value v # ?dn)"
      by (rule reaches_bind [OF q(1)]) (rule reaches_delete_between [OF assms(1) _ _ q(2)], simp_all)
    with 1(1,3) vi r Some show ?thesis by (auto simp: plan_internal_return_def reaches_def intro: plans_trans)
  qed
qed

section \<open>Properties\<close>

text \<open>C23: Planning an edge leaves exactly the entry template of the successor on the stack. When nothing had to be
  marked for spilling, the emitted actions leave on the machine stack the words of the template under
  the meaning in which all phis of the successor have been assigned at once from the values of their
  sources, and the spilled phis are stored, each in its home, with nothing else written.\<close>
theorem plan_edge_fixup_correct:
  assumes "reach_ok ctx" and "mem_ok ctx (p_mem pl)" and "p_stack pl = up @ dn" and "FuncRetAddr \<notin> set up" and "barrier dn"
    and "phi_args_for_edge (c_func ctx) pred succ = Inr srcs" and "phi_results ctx succ = phis" and "length srcs = length phis" and "distinct phis"
    and "params (templates succ) = pre @ phis" and "valid_values ctx (pre @ srcs @ transfer (templates succ))"
    and "\<forall>k < length phis. phis ! k \<in> spill (mp_spill (p_mem pl)) \<longrightarrow> length pre + k < dup_max (reach ctx)"
    and "set phis \<inter> (set pre \<union> set (transfer (templates succ))) = {}" and "\<forall>v \<in> set phis. Value v \<notin> set dn"
  shows "\<exists>pl'. plan_edge_fixup ctx templates pred succ pl = Inr pl' \<and> p_stack pl' = map Value (params (templates succ) @ transfer (templates succ)) @ dn
    \<and> (spill_requests (mp_spill (p_mem pl')) = {} \<and> stored_ok ctx (p_mem pl) mn m \<and> imms_ok ctx mn \<longrightarrow>
        (\<exists>\<delta>. p_actions pl' = p_actions pl @ \<delta> \<and> exec_actions mn \<delta> (words mn (up @ dn), m)
           = Some (words (assign_phis phis srcs mn) (p_stack pl'), store_homes ctx (p_mem pl') (zip phis (map (m_value mn) srcs)) m)))"
  using plan_edge_ok [where m = m and mn = mn and templates = templates and succ = succ and pre = pre and up = up and dn = dn and srcs = srcs, OF assms(1-12)]
    words_assign_phis [OF assms(9,8,13,14), of mn] assms(10) by auto

text \<open>One block jumping to another whose phi takes the first argument.\<close>

definition phi_func :: Function where
  "phi_func = sample_func\<lparr>f_dfg := dfg_new\<lparr>d_values := [V_Arg Ty_I8 0, V_Inst 2 Ty_I8], d_insts := [Add 0 0, Jump 1, Phi [(0, 0)]]\<rparr>\<rparr>"

definition phi_context :: StackifyContext where
  "phi_context = sample_context\<lparr>c_func := phi_func, phi_results := (\<lambda>b. if b = 1 then [1] else [])\<rparr>"

definition phi_templates :: "BlockId \<Rightarrow> BlockTemplate" where
  "phi_templates b = (if b = 1 then \<lparr>params = [1], transfer = []\<rparr> else \<lparr>params = [0], transfer = []\<rparr>)"

lemma sample_insts_of: "insts_of sample_func 1 = Inr [2]"
proof -
  have "layout_view (f_layout sample_func) [0, 1] sample_insts" using sample_func_ok by (simp add: function_ok_def)
  from iter_inst_view [OF this, of 1] show ?thesis by (simp add: insts_of_def sample_insts_def)
qed

lemma phi_context_ok: "reach_ok phi_context" "mem_ok phi_context (p_mem sample_planner)"
  "phi_args_for_edge (c_func phi_context) 0 1 = Inr [0]" "phi_results phi_context 1 = [1]"
  "valid_values phi_context ([] @ [0] @ transfer (phi_templates 1))"
proof -
  have "insts_of phi_func 1 = Inr [2]" using sample_insts_of by (simp add: phi_func_def insts_of_def)
  then show "phi_args_for_edge (c_func phi_context) 0 1 = Inr [0]"
    by (simp add: phi_args_for_edge_def phi_context_def) (simp add: phi_func_def get_inst_def phi_arg_from_def)
qed (simp_all add: phi_context_def sample_context_def reach_ok_def mem_ok_def sample_planner_def slot_pool_default_def pool_ok_def
    valid_values_def phi_func_def phi_templates_def)

theorem plan_edge_fixup_correct_witness:
  "\<exists>pl'. plan_edge_fixup phi_context phi_templates 0 1 sample_planner = Inr pl' \<and> p_stack pl' = [Value 1, FuncRetAddr]"
proof -
  have "p_stack sample_planner = [Value 0, Value 1] @ [FuncRetAddr]" "FuncRetAddr \<notin> set [Value 0, Value 1]" "barrier [FuncRetAddr]"
    by (simp_all add: sample_planner_def barrier_def)
  from plan_edge_fixup_correct [where templates = phi_templates and succ = 1 and pre = "[]" and srcs = "[0]" and dn = "[FuncRetAddr]" and mn = sample_meaning and m = sample_memory,
      OF phi_context_ok(1,2) this phi_context_ok(3,4) _ _ _ phi_context_ok(5)]
  show ?thesis by (auto simp: phi_templates_def sample_planner_def)
qed

text \<open>Planning an internal return leaves on the stack, above whatever is below the return address, exactly
  the return address and on top of it the returned value if there is one; a value that is an immediate may
  reuse an equal immediate, any other is taken from the stack or from its home.\<close>
theorem internal_return_correct:
  assumes "reach_ok ctx" and "homes_ok ctx (p_mem pl)" and "p_stack pl = up @ FuncRetAddr # below" and "FuncRetAddr \<notin> set up"
    and "\<forall>v. Value v \<in> set up \<longrightarrow> v < length (d_values (c_dfg ctx))" and "as_return (c_dfg ctx) i = Inr r"
    and "\<forall>v. r = Some v \<longrightarrow> v < length (d_values (c_dfg ctx))"
  shows "\<exists>pl'. plan_internal_return ctx i pl = Inr pl'
    \<and> p_stack pl' = (case r of None \<Rightarrow> [] | Some v \<Rightarrow> [Value v]) @ FuncRetAddr # below
    \<and> (spill_requests (mp_spill (p_mem pl')) = {} \<and> stored_ok ctx (p_mem pl) mn m \<and> imms_ok ctx mn \<longrightarrow>
       (\<exists>\<delta>. p_actions pl' = p_actions pl @ \<delta>
          \<and> exec_actions mn \<delta> (words mn (up @ FuncRetAddr # below), m) = Some (words mn (p_stack pl'), m)))"
  using reaches_internal_return [OF assms, of mn m] assms(3) by (auto simp: reaches_def plans_def emits_def)

definition return_context :: StackifyContext where
  "return_context = sample_context\<lparr>c_func := (c_func sample_context)\<lparr>f_dfg := (c_dfg sample_context)\<lparr>d_insts := [Return (Some 1)]\<rparr>\<rparr>\<rparr>"

theorem internal_return_correct_witness:
  "\<exists>pl'. plan_internal_return return_context 0 sample_planner = Inr pl' \<and> p_stack pl' = [Value 1, FuncRetAddr]"
proof -
  have "reach_ok return_context" "homes_ok return_context (p_mem sample_planner)" "p_stack sample_planner = [Value 0, Value 1] @ FuncRetAddr # []"
    "FuncRetAddr \<notin> set [Value 0, Value 1]" "\<forall>v. Value v \<in> set [Value 0, Value 1] \<longrightarrow> v < length (d_values (c_dfg return_context))"
    "as_return (c_dfg return_context) 0 = Inr (Some 1)" "\<forall>v. Some 1 = Some v \<longrightarrow> v < length (d_values (c_dfg return_context))"
    by (simp_all add: return_context_def sample_context_def sample_planner_def reach_ok_def homes_ok_def as_return_def get_inst_def)
  from internal_return_correct [OF this] show ?thesis by auto
qed

end
