(* ===== verification/Eval.thy ===== *)
theory Eval
  imports Immediates Insts
begin

text \<open>
  \<open>crates/ir/src/interpret\<close>: the evaluation of one instruction over an abstract machine. The trait
  \<open>State\<close> is a record of operations, so \<open>interp st\<close> is the code of every \<open>Interpret\<close> instance
  for whatever implements the trait: the interpreter's machine and the constant propagation's
  cells. The locale \<open>env_state\<close> states what the two have in common.
\<close>

section \<open>Evaluated values and the State trait\<close>

datatype EvalValue = EImm Immediate | Aggregate "EvalValue list" IrType | Undef

datatype Action = Continue | JumpTo BlockId | FallThrough | ReturnVal EvalValue

record 's State =
  lookup_val :: "ValueId \<Rightarrow> ('s, EvalValue) op"
  call_func :: "FuncRef \<Rightarrow> EvalValue list \<Rightarrow> ('s, EvalValue) op"
  set_action :: "Action \<Rightarrow> ('s, unit) op"
  prev_block :: "('s, BlockId) op"
  load :: "EvalValue \<Rightarrow> IrType \<Rightarrow> ('s, EvalValue) op"
  store :: "EvalValue \<Rightarrow> EvalValue \<Rightarrow> IrType \<Rightarrow> ('s, EvalValue) op"
  alloca :: "IrType \<Rightarrow> ('s, EvalValue) op"
  dfg_value_ty :: "'s \<Rightarrow> ValueId \<Rightarrow> fault + IrType"
  dfg_ty_store :: "'s \<Rightarrow> TypeStore"

fun as_imm :: "EvalValue \<Rightarrow> Immediate option" where
  "as_imm (EImm imm) = Some imm"
| "as_imm _ = None"

definition is_undef :: "EvalValue \<Rightarrow> bool" where
  "is_undef v \<longleftrightarrow> v = Undef"

fun with_imm :: "EvalValue \<Rightarrow> (Immediate \<Rightarrow> fault + EvalValue) \<Rightarrow> fault + EvalValue" where
  "with_imm (EImm value) f = f value"
| "with_imm (Aggregate _ _) f = Inl (Panic ''Type checker needs to handle this!'')"
| "with_imm Undef f = Inr Undef"

fun zip_with_imm :: "EvalValue \<Rightarrow> EvalValue \<Rightarrow> (Immediate \<Rightarrow> Immediate \<Rightarrow> fault + EvalValue) \<Rightarrow> fault + EvalValue" where
  "zip_with_imm (EImm l) (EImm r) f = f l r"
| "zip_with_imm (Aggregate _ _) _ f = Inl (Panic ''Type checker needs to handle this!'')"
| "zip_with_imm _ (Aggregate _ _) f = Inl (Panic ''Type checker needs to handle this!'')"
| "zip_with_imm _ _ f = Inr Undef"

definition to_eval :: "fault + Immediate \<Rightarrow> fault + EvalValue" where
  "to_eval r = rbind r (\<lambda>imm. Inr (EImm imm))"

section \<open>Arithmetic, logic, comparisons and casts\<close>

text \<open>The two orders in which the code calls \<open>set_action\<close> and looks the operands up.\<close>

definition unop_first :: "'s State \<Rightarrow> ValueId \<Rightarrow> (Immediate \<Rightarrow> fault + EvalValue) \<Rightarrow> ('s, EvalValue) op" where
  "unop_first st a f =
     sbind (set_action st Continue) (\<lambda>_. sbind (lookup_val st a) (\<lambda>v. slift (with_imm v f)))"

definition unop_last :: "'s State \<Rightarrow> ValueId \<Rightarrow> (Immediate \<Rightarrow> fault + EvalValue) \<Rightarrow> ('s, EvalValue) op" where
  "unop_last st a f =
     sbind (lookup_val st a) (\<lambda>v. sbind (set_action st Continue) (\<lambda>_. slift (with_imm v f)))"

definition binop_first :: "'s State \<Rightarrow> ValueId \<Rightarrow> ValueId \<Rightarrow> (Immediate \<Rightarrow> Immediate \<Rightarrow> fault + EvalValue) \<Rightarrow> ('s, EvalValue) op" where
  "binop_first st a b f =
     sbind (set_action st Continue) (\<lambda>_. sbind (lookup_val st a) (\<lambda>l. sbind (lookup_val st b) (\<lambda>r.
       slift (zip_with_imm l r f))))"

definition binop_last :: "'s State \<Rightarrow> ValueId \<Rightarrow> ValueId \<Rightarrow> (Immediate \<Rightarrow> Immediate \<Rightarrow> fault + EvalValue) \<Rightarrow> ('s, EvalValue) op" where
  "binop_last st a b f =
     sbind (lookup_val st a) (\<lambda>l. sbind (lookup_val st b) (\<lambda>r. sbind (set_action st Continue) (\<lambda>_.
       slift (zip_with_imm l r f))))"

definition div_by :: "(Immediate \<Rightarrow> Immediate \<Rightarrow> fault + Immediate) \<Rightarrow> Immediate \<Rightarrow> Immediate \<Rightarrow> fault + EvalValue" where
  "div_by f lhs rhs = (if imm_is_zero rhs then Inr Undef else to_eval (f lhs rhs))"

definition sar_imm :: "Immediate \<Rightarrow> Immediate \<Rightarrow> fault + Immediate" where
  "sar_imm bits value =
     rbind (imm_shr value bits) (\<lambda>shifted.
       if imm_is_positive value then Inr shifted else imm_neg shifted)"

definition int_to_ptr_imm :: "IrType \<Rightarrow> Immediate \<Rightarrow> fault + Immediate" where
  "int_to_ptr_imm ty value =
     (if evm_pointer_repl < ty then imm_trunc value evm_pointer_repl else imm_zext value evm_pointer_repl)"

definition ptr_to_int_imm :: "IrType \<Rightarrow> Immediate \<Rightarrow> fault + Immediate" where
  "ptr_to_int_imm ty value =
     (if evm_pointer_repl < ty then imm_zext value ty else imm_trunc value ty)"

section \<open>EVM arithmetic\<close>

definition u256_sub :: "U256 \<Rightarrow> U256 \<Rightarrow> fault + U256" where
  "u256_sub a b = (if b \<le> a then Inr (a - b) else Inl (Panic ''arithmetic operation overflow''))"

definition mask_for_ty :: "IrType \<Rightarrow> U256" where
  "mask_for_ty ty = (if ty_bits ty = 256 then NOT 0 else push_bit (ty_bits ty) 1 - 1)"

definition imm_to_u256 :: "Immediate \<Rightarrow> fault + U256" where
  "imm_to_u256 imm = rbind (to_u256 (as_i256 imm)) (\<lambda>w. Inr (w AND mask_for_ty (imm_ty imm)))"

definition u256_to_imm :: "U256 \<Rightarrow> IrType \<Rightarrow> fault + Immediate" where
  "u256_to_imm value ty = from_i256 (from_u256 value) ty"

definition evm_addmod :: "U256 \<Rightarrow> U256 \<Rightarrow> U256 \<Rightarrow> fault + U256" where
  "evm_addmod lhs rhs modulus =
     (if modulus = 0 then Inr 0
      else
        let lhs = lhs mod modulus;
            rhs = rhs mod modulus
        in rbind (u256_sub modulus rhs) (\<lambda>modulus_minus_rhs.
             if lhs \<ge> modulus_minus_rhs then u256_sub lhs modulus_minus_rhs
             else u256_add lhs rhs))"

lemma unat_drop_bit_less: "0 < (w :: U256) \<Longrightarrow> unat (drop_bit 1 w) < unat w"
proof -
  assume "0 < w"
  then have "0 < unat w" by (simp add: word_greater_zero_iff unat_gt_0)
  moreover have "unat (drop_bit 1 w) = unat w div 2" by (simp add: drop_bit_Suc unat_div)
  ultimately show ?thesis by simp
qed

function mulmod_loop :: "U256 \<Rightarrow> U256 \<Rightarrow> U256 \<Rightarrow> U256 \<Rightarrow> fault + U256" where
  "mulmod_loop modulus result addend multiplier =
     (if multiplier > 0 then
        rbind (if multiplier AND 1 = 1 then evm_addmod result addend modulus else Inr result) (\<lambda>result.
        rbind (evm_addmod addend addend modulus) (\<lambda>addend.
          mulmod_loop modulus result addend (drop_bit 1 multiplier)))
      else Inr result)"
  by pat_completeness auto
termination
  by (relation "measure (\<lambda>(_, _, _, multiplier). unat multiplier)") (use unat_drop_bit_less in auto)

declare mulmod_loop.simps [simp del]

definition evm_mulmod :: "U256 \<Rightarrow> U256 \<Rightarrow> U256 \<Rightarrow> fault + U256" where
  "evm_mulmod lhs rhs modulus =
     (if modulus = 0 then Inr 0 else mulmod_loop modulus 0 (lhs mod modulus) (rhs mod modulus))"

function exp_loop :: "U256 \<Rightarrow> U256 \<Rightarrow> U256 \<Rightarrow> U256 \<Rightarrow> U256" where
  "exp_loop msk result base exponent =
     (if exponent > 0 then
        exp_loop msk (if exponent AND 1 = 1 then result * base AND msk else result)
          (base * base AND msk) (drop_bit 1 exponent)
      else result)"
  by pat_completeness auto
termination
  by (relation "measure (\<lambda>(_, _, _, exponent). unat exponent)") (use unat_drop_bit_less in auto)

declare exp_loop.simps [simp del]

definition evm_exp :: "U256 \<Rightarrow> U256 \<Rightarrow> U256 \<Rightarrow> U256" where
  "evm_exp base exponent msk = exp_loop msk (1 AND msk) (base AND msk) exponent"

definition evm_byte :: "U256 \<Rightarrow> U256 \<Rightarrow> nat \<Rightarrow> U256" where
  "evm_byte pos value value_bytes =
     (if pos \<ge> 32 then 0
      else
        let pos = unat pos
        in if pos < 32 - value_bytes then 0
           else
             let idx = pos - (32 - value_bytes);
                 shift_bytes = value_bytes - 1 - idx
             in drop_bit (shift_bytes * 8) value AND 0xff)"

definition zero_div_by :: "(Immediate \<Rightarrow> Immediate \<Rightarrow> fault + Immediate) \<Rightarrow> Immediate \<Rightarrow> Immediate \<Rightarrow> fault + EvalValue" where
  "zero_div_by f lhs rhs = to_eval (if imm_is_zero rhs then Inr rhs else f lhs rhs)"

text \<open>\<open>EvmAddMod\<close> and \<open>EvmMulMod\<close> look all three operands up before they check them.\<close>

definition modular_imm :: "(U256 \<Rightarrow> U256 \<Rightarrow> U256 \<Rightarrow> fault + U256) \<Rightarrow> EvalValue \<Rightarrow> EvalValue \<Rightarrow> EvalValue \<Rightarrow> fault + EvalValue" where
  "modular_imm f l r m =
     (case (l, r, m) of
        (EImm lhs, EImm rhs, EImm modulus) \<Rightarrow>
          rbind (assert_that (imm_ty lhs = imm_ty rhs) ''lhs.ty() == rhs.ty()'') (\<lambda>_.
          rbind (assert_that (imm_ty lhs = imm_ty modulus) ''lhs.ty() == modulus.ty()'') (\<lambda>_.
          rbind (imm_to_u256 lhs) (\<lambda>a. rbind (imm_to_u256 rhs) (\<lambda>b. rbind (imm_to_u256 modulus) (\<lambda>c.
          rbind (f a b c) (\<lambda>v. to_eval (u256_to_imm v (imm_ty lhs))))))))
      | _ \<Rightarrow> Inr Undef)"

definition exp_imm :: "EvalValue \<Rightarrow> EvalValue \<Rightarrow> fault + EvalValue" where
  "exp_imm b e =
     (case (b, e) of
        (EImm base, EImm exponent) \<Rightarrow>
          rbind (assert_that (imm_ty base = imm_ty exponent) ''base.ty() == exponent.ty()'') (\<lambda>_.
          rbind (imm_to_u256 base) (\<lambda>x. rbind (imm_to_u256 exponent) (\<lambda>y.
            to_eval (u256_to_imm (evm_exp x y (mask_for_ty (imm_ty base))) (imm_ty base)))))
      | _ \<Rightarrow> Inr Undef)"

definition byte_imm :: "EvalValue \<Rightarrow> EvalValue \<Rightarrow> fault + EvalValue" where
  "byte_imm p v =
     (case (p, v) of
        (EImm pos, EImm value) \<Rightarrow>
          rbind (assert_that (imm_ty pos = imm_ty value) ''pos.ty() == value.ty()'') (\<lambda>_.
          rbind (imm_to_u256 pos) (\<lambda>x. rbind (imm_to_u256 value) (\<lambda>y.
            to_eval (u256_to_imm (evm_byte x y ((ty_bits (imm_ty value) + 7) div 8)) (imm_ty value)))))
      | _ \<Rightarrow> Inr Undef)"

definition triop_first :: "'s State \<Rightarrow> ValueId \<Rightarrow> ValueId \<Rightarrow> ValueId \<Rightarrow> (EvalValue \<Rightarrow> EvalValue \<Rightarrow> EvalValue \<Rightarrow> fault + EvalValue) \<Rightarrow> ('s, EvalValue) op" where
  "triop_first st a b c f =
     sbind (set_action st Continue) (\<lambda>_. sbind (lookup_val st a) (\<lambda>x. sbind (lookup_val st b) (\<lambda>y. sbind (lookup_val st c) (\<lambda>z.
       slift (f x y z)))))"

definition pairop_first :: "'s State \<Rightarrow> ValueId \<Rightarrow> ValueId \<Rightarrow> (EvalValue \<Rightarrow> EvalValue \<Rightarrow> fault + EvalValue) \<Rightarrow> ('s, EvalValue) op" where
  "pairop_first st a b f =
     sbind (set_action st Continue) (\<lambda>_. sbind (lookup_val st a) (\<lambda>x. sbind (lookup_val st b) (\<lambda>y. slift (f x y))))"

definition interpret_evm2 :: "'s State \<Rightarrow> EvmOp \<Rightarrow> ValueId \<Rightarrow> ValueId \<Rightarrow> ('s, EvalValue) op" where
  "interpret_evm2 st e a b =
     (if e = EvmUdiv then binop_first st a b (zero_div_by imm_udiv)
      else if e = EvmSdiv then binop_first st a b (zero_div_by imm_sdiv)
      else if e = EvmUmod then binop_first st a b (zero_div_by imm_urem)
      else if e = EvmSmod then binop_first st a b (zero_div_by imm_srem)
      else if e = EvmExp then pairop_first st a b exp_imm
      else if e = EvmByte then pairop_first st a b byte_imm
      else sfail ''`Interpret` is not yet implemented'')"

definition interpret_evm3 :: "'s State \<Rightarrow> EvmOp \<Rightarrow> ValueId \<Rightarrow> ValueId \<Rightarrow> ValueId \<Rightarrow> ('s, EvalValue) op" where
  "interpret_evm3 st e a b c =
     (if e = EvmAddMod then triop_first st a b c (modular_imm evm_addmod)
      else if e = EvmMulMod then triop_first st a b c (modular_imm evm_mulmod)
      else sfail ''`Interpret` is not yet implemented'')"

definition interpret_evm :: "'s State \<Rightarrow> EvmOp \<Rightarrow> ValueId list \<Rightarrow> ('s, EvalValue) op" where
  "interpret_evm st e vs =
     (case vs of
        [a, b] \<Rightarrow> interpret_evm2 st e a b
      | [a, b, c] \<Rightarrow> interpret_evm3 st e a b c
      | _ \<Rightarrow> sfail ''`Interpret` is not yet implemented'')"

section \<open>Memory and aggregates\<close>

definition align_to :: "nat \<Rightarrow> nat \<Rightarrow> fault + nat" where
  "align_to offset alignment =
     (if alignment = 0 then Inl (Panic ''attempt to subtract with overflow'')
      else rbind (assert_that (alignment AND (alignment - 1) = 0) ''alignment is not a power of two'') (\<lambda>_.
           rbind (usize_add offset alignment) (\<lambda>sum.
             Inr (unat (of_nat (sum - 1) AND NOT (of_nat (alignment - 1)) :: 64 word)))))"

text \<open>The loop over the fields before the indexed one adds up rounded sums, each of them starting
  from the offset reached before the struct.\<close>

fun gep_struct_offset :: "TypeStore \<Rightarrow> nat \<Rightarrow> IrType list \<Rightarrow> nat \<Rightarrow> nat \<Rightarrow> nat \<Rightarrow> fault + nat" where
  "gep_struct_offset s offset flds i 0 local_offset = Inr local_offset"
| "gep_struct_offset s offset flds i (Suc n) local_offset =
     rbind (index_list flds i) (\<lambda>field_ty.
     rbind (size_of_unchecked s field_ty) (\<lambda>sz.
     rbind (align_of_unchecked s field_ty) (\<lambda>al.
     rbind (usize_add offset sz) (\<lambda>o1.
     rbind (align_to o1 al) (\<lambda>o2.
     rbind (usize_add local_offset o2) (\<lambda>l.
       gep_struct_offset s offset flds (Suc i) n l))))))"

definition gep_step :: "TypeStore \<Rightarrow> IrType \<Rightarrow> nat \<Rightarrow> nat \<Rightarrow> fault + (IrType \<times> nat)" where
  "gep_step s current_ty offset idx_value =
     (case current_ty of
        Compound cmpd \<Rightarrow> rbind (resolve_compound s cmpd) (\<lambda>cmpd_data. case cmpd_data of
            Array elem _ \<Rightarrow>
              rbind (size_of_unchecked s elem) (\<lambda>sz. rbind (usize_mul sz idx_value) (\<lambda>k.
              rbind (usize_add offset k) (\<lambda>offset. Inr (elem, offset))))
          | Ptr ty \<Rightarrow>
              rbind (size_of_unchecked s ty) (\<lambda>sz. rbind (usize_mul sz idx_value) (\<lambda>k.
              rbind (usize_add offset k) (\<lambda>offset. Inr (ty, offset))))
          | Struct sd \<Rightarrow>
              rbind (gep_struct_offset s offset (struct_fields sd) 0 idx_value 0) (\<lambda>local_offset.
              rbind (usize_add offset local_offset) (\<lambda>offset.
              rbind (index_list (struct_fields sd) idx_value) (\<lambda>ty. Inr (ty, offset))))
          | Func _ _ \<Rightarrow> Inl (Panic ''Invalid GEP: indexing into a function type with more indices remaining''))
      | _ \<Rightarrow> Inl (Panic ''Invalid GEP: indexing into a scalar type or unit with more indices remaining''))"

fun gep_loop :: "'s State \<Rightarrow> ValueId list \<Rightarrow> IrType \<Rightarrow> nat \<Rightarrow> ('s, nat option) op" where
  "gep_loop st [] current_ty offset = sret (Some offset)"
| "gep_loop st (value # rest) current_ty offset =
     sbind (lookup_val st value) (\<lambda>v. case as_imm v of
         None \<Rightarrow> sret None
       | Some imm \<Rightarrow> (\<lambda>s.
           rbind (imm_as_usize imm) (\<lambda>idx.
           rbind (gep_step (dfg_ty_store st s) current_ty offset idx) (\<lambda>(ty, off).
             gep_loop st rest ty off s))))"

definition interpret_gep :: "'s State \<Rightarrow> ValueId list \<Rightarrow> ('s, EvalValue) op" where
  "interpret_gep st values =
     sbind (set_action st Continue) (\<lambda>_.
     sbind (slift (index_list values 0)) (\<lambda>v0.
     sbind (lookup_val st v0) (\<lambda>base. case as_imm base of
         None \<Rightarrow> sret Undef
       | Some base_addr \<Rightarrow> (\<lambda>s.
           rbind (dfg_value_ty st s v0) (\<lambda>current_ty.
           rbind (is_ptr (dfg_ty_store st s) current_ty) (\<lambda>p.
           rbind (assert_that p ''GEP must start with a pointer type'') (\<lambda>_.
             sbind (gep_loop st (tl values) current_ty 0) (\<lambda>r. case r of
                 None \<Rightarrow> sret Undef
               | Some offset \<Rightarrow>
                   slift (rbind (from_i256 (from_usize offset) evm_pointer_repl) (\<lambda>off. to_eval (imm_add base_addr off)))) s)))))))"

definition undef_fields :: "TypeStore \<Rightarrow> IrType \<Rightarrow> fault + EvalValue list" where
  "undef_fields s ty =
     (case ty of
        Compound r \<Rightarrow> rbind (resolve_compound s r) (\<lambda>c. case c of
            Array _ len \<Rightarrow> Inr (replicate len Undef)
          | Struct sd \<Rightarrow> Inr (replicate (length (struct_fields sd)) Undef)
          | Ptr _ \<Rightarrow> Inl (Panic ''unreachable'')
          | Func _ _ \<Rightarrow> Inl (Panic ''unreachable''))
      | _ \<Rightarrow> Inl (Panic ''unwrap on None''))"

definition interpret_insert_value :: "'s State \<Rightarrow> ValueId \<Rightarrow> ValueId \<Rightarrow> ValueId \<Rightarrow> ('s, EvalValue) op" where
  "interpret_insert_value st dest_id idx_id value_id =
     sbind (set_action st Continue) (\<lambda>_.
     sbind (lookup_val st dest_id) (\<lambda>dest. (\<lambda>s.
       rbind (dfg_value_ty st s dest_id) (\<lambda>ty.
         sbind (slift (case dest of
                   Aggregate flds _ \<Rightarrow> Inr flds
                 | Undef \<Rightarrow> undef_fields (dfg_ty_store st s) ty
                 | EImm _ \<Rightarrow> Inl (Panic ''unreachable''))) (\<lambda>flds.
         sbind (lookup_val st idx_id) (\<lambda>idx_val. case as_imm idx_val of
             None \<Rightarrow> slift (rbind (assert_that (is_undef idx_val) ''insert_value index must be an immediate'') (\<lambda>_. Inr Undef))
           | Some imm \<Rightarrow>
               sbind (slift (imm_as_usize imm)) (\<lambda>idx.
                 if idx \<ge> length flds then sfail ''insert_value index out of bounds''
                 else sbind (lookup_val st value_id) (\<lambda>v. sret (Aggregate (flds[idx := v]) ty))))) s))))"

definition interpret_extract_value :: "'s State \<Rightarrow> ValueId \<Rightarrow> ValueId \<Rightarrow> ('s, EvalValue) op" where
  "interpret_extract_value st dest_id idx_id =
     sbind (set_action st Continue) (\<lambda>_.
     sbind (lookup_val st dest_id) (\<lambda>dest. case dest of
         Undef \<Rightarrow> sret Undef
       | EImm _ \<Rightarrow> sfail ''unreachable''
       | Aggregate flds _ \<Rightarrow>
           sbind (lookup_val st idx_id) (\<lambda>idx_val. case as_imm idx_val of
               None \<Rightarrow> slift (rbind (assert_that (is_undef idx_val) ''extract_value index must be an immediate'') (\<lambda>_. Inr Undef))
             | Some imm \<Rightarrow>
                 sbind (slift (imm_as_usize imm)) (\<lambda>idx.
                   if idx < length flds then sret (flds ! idx) else sfail ''extract_value index out of bounds''))))"

section \<open>Control flow\<close>

definition interpret_br :: "'s State \<Rightarrow> ValueId \<Rightarrow> BlockId \<Rightarrow> BlockId \<Rightarrow> ('s, EvalValue) op" where
  "interpret_br st cond nz_dest z_dest =
     sbind (lookup_val st cond) (\<lambda>c. case as_imm c of
         None \<Rightarrow> sbind (set_action st FallThrough) (\<lambda>_. sret Undef)
       | Some imm \<Rightarrow>
           sbind (set_action st (JumpTo (if imm_is_zero imm then z_dest else nz_dest))) (\<lambda>_. sret Undef))"

fun br_table_scan :: "'s State \<Rightarrow> Immediate \<Rightarrow> (ValueId \<times> BlockId) list \<Rightarrow> ('s, BlockId option) op" where
  "br_table_scan st scrutinee [] = sret None"
| "br_table_scan st scrutinee ((value, block) # rest) =
     sbind (lookup_val st value) (\<lambda>v. case as_imm v of
         None \<Rightarrow> br_table_scan st scrutinee rest
       | Some imm \<Rightarrow> if scrutinee = imm then sret (Some block) else br_table_scan st scrutinee rest)"

definition interpret_br_table :: "'s State \<Rightarrow> ValueId \<Rightarrow> BlockId option \<Rightarrow> (ValueId \<times> BlockId) list \<Rightarrow> ('s, EvalValue) op" where
  "interpret_br_table st scrutinee dflt table =
     sbind (lookup_val st scrutinee) (\<lambda>sc. case as_imm sc of
         None \<Rightarrow> sbind (set_action st FallThrough) (\<lambda>_. sret Undef)
       | Some imm \<Rightarrow>
           sbind (br_table_scan st imm table) (\<lambda>hit.
           sbind (set_action st (case hit of
                     Some block \<Rightarrow> JumpTo block
                   | None \<Rightarrow> (case dflt of Some d \<Rightarrow> JumpTo d | None \<Rightarrow> FallThrough))) (\<lambda>_. sret Undef)))"

definition interpret_phi :: "'s State \<Rightarrow> (ValueId \<times> BlockId) list \<Rightarrow> ('s, EvalValue) op" where
  "interpret_phi st args =
     sbind (prev_block st) (\<lambda>prev. sbind (set_action st Continue) (\<lambda>_.
       case find (\<lambda>(_, block). prev = block) args of
         Some (value, _) \<Rightarrow> lookup_val st value
       | None \<Rightarrow> sret Undef))"

definition interpret_call :: "'s State \<Rightarrow> FuncRef \<Rightarrow> ValueId list \<Rightarrow> ('s, EvalValue) op" where
  "interpret_call st callee args =
     sbind (smap (lookup_val st) args) (\<lambda>vals. sbind (call_func st callee vals) (\<lambda>val.
       sbind (set_action st Continue) (\<lambda>_. sret val)))"

definition interpret_return :: "'s State \<Rightarrow> ValueId option \<Rightarrow> ('s, EvalValue) op" where
  "interpret_return st arg =
     sbind (case arg of Some v \<Rightarrow> lookup_val st v | None \<Rightarrow> sret Undef) (\<lambda>ret_val.
     sbind (set_action st (ReturnVal ret_val)) (\<lambda>_. sret Undef))"

definition undef_first :: "'s State \<Rightarrow> ('s, EvalValue) op" where
  "undef_first st = sbind (set_action st Continue) (\<lambda>_. sret Undef)"

text \<open>One definition per \<open>Interpret\<close> instance that is not defined above.\<close>

definition interpret_neg :: "'s State \<Rightarrow> ValueId \<Rightarrow> ('s, EvalValue) op" where
  "interpret_neg st arg = unop_first st arg (\<lambda>v. to_eval (imm_neg v))"

definition interpret_add :: "'s State \<Rightarrow> ValueId \<Rightarrow> ValueId \<Rightarrow> ('s, EvalValue) op" where
  "interpret_add st lhs rhs = binop_first st lhs rhs (\<lambda>l r. to_eval (imm_add l r))"

definition interpret_sub :: "'s State \<Rightarrow> ValueId \<Rightarrow> ValueId \<Rightarrow> ('s, EvalValue) op" where
  "interpret_sub st lhs rhs = binop_first st lhs rhs (\<lambda>l r. to_eval (imm_sub l r))"

definition interpret_mul :: "'s State \<Rightarrow> ValueId \<Rightarrow> ValueId \<Rightarrow> ('s, EvalValue) op" where
  "interpret_mul st lhs rhs = binop_first st lhs rhs (\<lambda>l r. to_eval (imm_mul l r))"

definition interpret_sdiv :: "'s State \<Rightarrow> ValueId \<Rightarrow> ValueId \<Rightarrow> ('s, EvalValue) op" where
  "interpret_sdiv st lhs rhs = binop_first st lhs rhs (div_by imm_sdiv)"

definition interpret_udiv :: "'s State \<Rightarrow> ValueId \<Rightarrow> ValueId \<Rightarrow> ('s, EvalValue) op" where
  "interpret_udiv st lhs rhs = binop_first st lhs rhs (div_by imm_udiv)"

definition interpret_umod :: "'s State \<Rightarrow> ValueId \<Rightarrow> ValueId \<Rightarrow> ('s, EvalValue) op" where
  "interpret_umod st lhs rhs = binop_first st lhs rhs (div_by imm_urem)"

definition interpret_smod :: "'s State \<Rightarrow> ValueId \<Rightarrow> ValueId \<Rightarrow> ('s, EvalValue) op" where
  "interpret_smod st lhs rhs = binop_first st lhs rhs (div_by imm_srem)"

definition interpret_shl :: "'s State \<Rightarrow> ValueId \<Rightarrow> ValueId \<Rightarrow> ('s, EvalValue) op" where
  "interpret_shl st bits value = binop_first st bits value (\<lambda>b v. to_eval (imm_shl v b))"

definition interpret_shr :: "'s State \<Rightarrow> ValueId \<Rightarrow> ValueId \<Rightarrow> ('s, EvalValue) op" where
  "interpret_shr st bits value = binop_first st bits value (\<lambda>b v. to_eval (imm_shr v b))"

definition interpret_sar :: "'s State \<Rightarrow> ValueId \<Rightarrow> ValueId \<Rightarrow> ('s, EvalValue) op" where
  "interpret_sar st bits value = binop_first st bits value (\<lambda>b v. to_eval (sar_imm b v))"

definition interpret_not :: "'s State \<Rightarrow> ValueId \<Rightarrow> ('s, EvalValue) op" where
  "interpret_not st arg = unop_last st arg (\<lambda>v. to_eval (imm_not v))"

definition interpret_and :: "'s State \<Rightarrow> ValueId \<Rightarrow> ValueId \<Rightarrow> ('s, EvalValue) op" where
  "interpret_and st lhs rhs = binop_last st lhs rhs (\<lambda>l r. to_eval (imm_and l r))"

definition interpret_or :: "'s State \<Rightarrow> ValueId \<Rightarrow> ValueId \<Rightarrow> ('s, EvalValue) op" where
  "interpret_or st lhs rhs = binop_last st lhs rhs (\<lambda>l r. to_eval (imm_or l r))"

definition interpret_xor :: "'s State \<Rightarrow> ValueId \<Rightarrow> ValueId \<Rightarrow> ('s, EvalValue) op" where
  "interpret_xor st lhs rhs = binop_last st lhs rhs (\<lambda>l r. to_eval (imm_xor l r))"

definition interpret_lt :: "'s State \<Rightarrow> ValueId \<Rightarrow> ValueId \<Rightarrow> ('s, EvalValue) op" where
  "interpret_lt st lhs rhs = binop_last st lhs rhs (\<lambda>l r. to_eval (imm_lt l r))"

definition interpret_gt :: "'s State \<Rightarrow> ValueId \<Rightarrow> ValueId \<Rightarrow> ('s, EvalValue) op" where
  "interpret_gt st lhs rhs = binop_last st lhs rhs (\<lambda>l r. to_eval (imm_gt l r))"

definition interpret_slt :: "'s State \<Rightarrow> ValueId \<Rightarrow> ValueId \<Rightarrow> ('s, EvalValue) op" where
  "interpret_slt st lhs rhs = binop_last st lhs rhs (\<lambda>l r. to_eval (imm_slt l r))"

definition interpret_sgt :: "'s State \<Rightarrow> ValueId \<Rightarrow> ValueId \<Rightarrow> ('s, EvalValue) op" where
  "interpret_sgt st lhs rhs = binop_last st lhs rhs (\<lambda>l r. to_eval (imm_sgt l r))"

definition interpret_le :: "'s State \<Rightarrow> ValueId \<Rightarrow> ValueId \<Rightarrow> ('s, EvalValue) op" where
  "interpret_le st lhs rhs = binop_last st lhs rhs (\<lambda>l r. to_eval (imm_le l r))"

definition interpret_ge :: "'s State \<Rightarrow> ValueId \<Rightarrow> ValueId \<Rightarrow> ('s, EvalValue) op" where
  "interpret_ge st lhs rhs = binop_last st lhs rhs (\<lambda>l r. to_eval (imm_ge l r))"

definition interpret_sle :: "'s State \<Rightarrow> ValueId \<Rightarrow> ValueId \<Rightarrow> ('s, EvalValue) op" where
  "interpret_sle st lhs rhs = binop_last st lhs rhs (\<lambda>l r. to_eval (imm_sle l r))"

definition interpret_sge :: "'s State \<Rightarrow> ValueId \<Rightarrow> ValueId \<Rightarrow> ('s, EvalValue) op" where
  "interpret_sge st lhs rhs = binop_last st lhs rhs (\<lambda>l r. to_eval (imm_sge l r))"

definition interpret_eq :: "'s State \<Rightarrow> ValueId \<Rightarrow> ValueId \<Rightarrow> ('s, EvalValue) op" where
  "interpret_eq st lhs rhs = binop_last st lhs rhs (\<lambda>l r. to_eval (imm_eq l r))"

definition interpret_ne :: "'s State \<Rightarrow> ValueId \<Rightarrow> ValueId \<Rightarrow> ('s, EvalValue) op" where
  "interpret_ne st lhs rhs = binop_last st lhs rhs (\<lambda>l r. to_eval (imm_ne l r))"

definition interpret_is_zero :: "'s State \<Rightarrow> ValueId \<Rightarrow> ('s, EvalValue) op" where
  "interpret_is_zero st lhs = unop_last st lhs (\<lambda>v. Inr (EImm (Imm_I1 (imm_is_zero v))))"

definition interpret_sext :: "'s State \<Rightarrow> ValueId \<Rightarrow> IrType \<Rightarrow> ('s, EvalValue) op" where
  "interpret_sext st a ty = unop_first st a (\<lambda>v. to_eval (imm_sext v ty))"

definition interpret_zext :: "'s State \<Rightarrow> ValueId \<Rightarrow> IrType \<Rightarrow> ('s, EvalValue) op" where
  "interpret_zext st a ty = unop_first st a (\<lambda>v. to_eval (imm_zext v ty))"

definition interpret_trunc :: "'s State \<Rightarrow> ValueId \<Rightarrow> IrType \<Rightarrow> ('s, EvalValue) op" where
  "interpret_trunc st a ty = unop_last st a (\<lambda>v. to_eval (imm_trunc v ty))"

definition interpret_bitcast :: "'s State \<Rightarrow> ValueId \<Rightarrow> IrType \<Rightarrow> ('s, EvalValue) op" where
  "interpret_bitcast st a ty = sbind (set_action st Continue) (\<lambda>_. lookup_val st a)"

definition interpret_int_to_ptr :: "'s State \<Rightarrow> ValueId \<Rightarrow> IrType \<Rightarrow> ('s, EvalValue) op" where
  "interpret_int_to_ptr st a ty = unop_first st a (\<lambda>v. to_eval (int_to_ptr_imm ty v))"

definition interpret_ptr_to_int :: "'s State \<Rightarrow> ValueId \<Rightarrow> IrType \<Rightarrow> ('s, EvalValue) op" where
  "interpret_ptr_to_int st a ty = unop_first st a (\<lambda>v. to_eval (ptr_to_int_imm ty v))"

definition interpret_mload :: "'s State \<Rightarrow> ValueId \<Rightarrow> IrType \<Rightarrow> ('s, EvalValue) op" where
  "interpret_mload st a ty = sbind (set_action st Continue) (\<lambda>_. sbind (lookup_val st a) (\<lambda>addr. load st addr ty))"

definition interpret_mstore :: "'s State \<Rightarrow> ValueId \<Rightarrow> ValueId \<Rightarrow> IrType \<Rightarrow> ('s, EvalValue) op" where
  "interpret_mstore st a v ty = sbind (set_action st Continue) (\<lambda>_. sbind (lookup_val st a) (\<lambda>addr. sbind (lookup_val st v) (\<lambda>value. store st addr value ty)))"

definition interpret_get_function_ptr :: "'s State \<Rightarrow> FuncRef \<Rightarrow> ('s, EvalValue) op" where
  "interpret_get_function_ptr st f = undef_first st"

definition interpret_sym_addr :: "'s State \<Rightarrow> SymbolRef \<Rightarrow> ('s, EvalValue) op" where
  "interpret_sym_addr st sy = undef_first st"

definition interpret_sym_size :: "'s State \<Rightarrow> SymbolRef \<Rightarrow> ('s, EvalValue) op" where
  "interpret_sym_size st sy = undef_first st"

definition interpret_alloca :: "'s State \<Rightarrow> IrType \<Rightarrow> ('s, EvalValue) op" where
  "interpret_alloca st ty = alloca st ty"

definition interpret_jump :: "'s State \<Rightarrow> BlockId \<Rightarrow> ('s, EvalValue) op" where
  "interpret_jump st d = sbind (set_action st (JumpTo d)) (\<lambda>_. sret Undef)"

definition interpret_unreachable :: "'s State \<Rightarrow> ('s, EvalValue) op" where
  "interpret_unreachable st = sfail ''unreachable executed''"

lemmas interpret_defs [simp] =
  interpret_neg_def interpret_add_def interpret_sub_def interpret_mul_def interpret_sdiv_def 
  interpret_udiv_def interpret_umod_def interpret_smod_def interpret_shl_def interpret_shr_def 
  interpret_sar_def interpret_not_def interpret_and_def interpret_or_def interpret_xor_def 
  interpret_lt_def interpret_gt_def interpret_slt_def interpret_sgt_def interpret_le_def 
  interpret_ge_def interpret_sle_def interpret_sge_def interpret_eq_def interpret_ne_def 
  interpret_is_zero_def interpret_sext_def interpret_zext_def interpret_trunc_def 
  interpret_bitcast_def interpret_int_to_ptr_def interpret_ptr_to_int_def interpret_mload_def 
  interpret_mstore_def interpret_get_function_ptr_def interpret_sym_addr_def interpret_sym_size_def 
  interpret_alloca_def interpret_jump_def interpret_unreachable_def

fun interp :: "'s State \<Rightarrow> inst \<Rightarrow> ('s, EvalValue) op" where
  "interp st (Neg arg) = interpret_neg st arg"
| "interp st (Add lhs rhs) = interpret_add st lhs rhs"
| "interp st (Sub lhs rhs) = interpret_sub st lhs rhs"
| "interp st (Mul lhs rhs) = interpret_mul st lhs rhs"
| "interp st (Sdiv lhs rhs) = interpret_sdiv st lhs rhs"
| "interp st (Udiv lhs rhs) = interpret_udiv st lhs rhs"
| "interp st (Umod lhs rhs) = interpret_umod st lhs rhs"
| "interp st (Smod lhs rhs) = interpret_smod st lhs rhs"
| "interp st (Shl bits value) = interpret_shl st bits value"
| "interp st (Shr bits value) = interpret_shr st bits value"
| "interp st (Sar bits value) = interpret_sar st bits value"
| "interp st (Not arg) = interpret_not st arg"
| "interp st (And lhs rhs) = interpret_and st lhs rhs"
| "interp st (Or lhs rhs) = interpret_or st lhs rhs"
| "interp st (Xor lhs rhs) = interpret_xor st lhs rhs"
| "interp st (Lt lhs rhs) = interpret_lt st lhs rhs"
| "interp st (Gt lhs rhs) = interpret_gt st lhs rhs"
| "interp st (Slt lhs rhs) = interpret_slt st lhs rhs"
| "interp st (Sgt lhs rhs) = interpret_sgt st lhs rhs"
| "interp st (Le lhs rhs) = interpret_le st lhs rhs"
| "interp st (Ge lhs rhs) = interpret_ge st lhs rhs"
| "interp st (Sle lhs rhs) = interpret_sle st lhs rhs"
| "interp st (Sge lhs rhs) = interpret_sge st lhs rhs"
| "interp st (Eq lhs rhs) = interpret_eq st lhs rhs"
| "interp st (Ne lhs rhs) = interpret_ne st lhs rhs"
| "interp st (IsZero lhs) = interpret_is_zero st lhs"
| "interp st (Sext a ty) = interpret_sext st a ty"
| "interp st (Zext a ty) = interpret_zext st a ty"
| "interp st (Trunc a ty) = interpret_trunc st a ty"
| "interp st (Bitcast a ty) = interpret_bitcast st a ty"
| "interp st (IntToPtr a ty) = interpret_int_to_ptr st a ty"
| "interp st (PtrToInt a ty) = interpret_ptr_to_int st a ty"
| "interp st (Mload a ty) = interpret_mload st a ty"
| "interp st (Mstore a v ty) = interpret_mstore st a v ty"
| "interp st (Gep values) = interpret_gep st values"
| "interp st (GetFunctionPtr f) = interpret_get_function_ptr st f"
| "interp st (SymAddr sy) = interpret_sym_addr st sy"
| "interp st (SymSize sy) = interpret_sym_size st sy"
| "interp st (Alloca ty) = interpret_alloca st ty"
| "interp st (InsertValue d i v) = interpret_insert_value st d i v"
| "interp st (ExtractValue d i) = interpret_extract_value st d i"
| "interp st (Jump d) = interpret_jump st d"
| "interp st (Br c nz z) = interpret_br st c nz z"
| "interp st (BrTable s d tbl) = interpret_br_table st s d tbl"
| "interp st (Phi args) = interpret_phi st args"
| "interp st (Call f args) = interpret_call st f args"
| "interp st (Return arg) = interpret_return st arg"
| "interp st Unreachable = interpret_unreachable st"
| "interp st (Evm e vs) = interpret_evm st e vs"

section \<open>EVM arithmetic against the integers\<close>

lemma uint_ne_0: "w \<noteq> 0 \<Longrightarrow> 0 < uint w"
  by (simp add: word_uint_eq_iff)

lemma u256_sub_ok: "uint b \<le> uint a \<Longrightarrow> u256_sub a b = Inr (a - b) \<and> uint (a - b) = uint a - uint b"
  by (simp add: u256_sub_def word_le_def uint_sub_lem [THEN iffD1])

lemma u256_add_ok: "uint a + uint b < 2 ^ 256 \<Longrightarrow> u256_add a b = Inr (a + b) \<and> uint (a + b) = uint a + uint b"
  using uint_add_lem [of a b] u256_carry(1) [of a b] by (simp add: u256_add_def)

lemma evm_addmod_spec:
  assumes "m \<noteq> 0"
  shows "\<exists>r. evm_addmod a b m = Inr r \<and> uint r = (uint a + uint b) mod uint m"
proof -
  let ?M = "uint m" and ?A = "uint a mod uint m" and ?B = "uint b mod uint m"
  have M: "0 < ?M" "?M < 2 ^ 256" using uint_ne_0 [OF assms] uint_lt2p [of m] by simp_all
  have AB: "0 \<le> ?A" "?A < ?M" "0 \<le> ?B" "?B < ?M" using M by simp_all
  have sum: "(uint a + uint b) mod ?M = (?A + ?B) mod ?M" by (simp add: mod_simps)
  have s: "u256_sub m (b mod m) = Inr (m - b mod m)" "uint (m - b mod m) = ?M - ?B"
    using u256_sub_ok [of "b mod m" m] AB by (simp_all add: uint_mod)
  show ?thesis
  proof (cases "?M - ?B \<le> ?A")
    case True
    have "(?A + ?B) mod ?M = (?A + ?B - ?M) mod ?M" by (rule minus_mod_self2 [symmetric])
    also have "\<dots> = ?A + ?B - ?M" using AB True by (intro mod_pos_pos_trivial) linarith+
    finally have "(?A + ?B) mod ?M = ?A + ?B - ?M" .
    with True s u256_sub_ok [of "m - b mod m" "a mod m"] assms sum show ?thesis
      by (simp add: evm_addmod_def word_le_def uint_mod)
  next
    case False
    with AB have "(?A + ?B) mod ?M = ?A + ?B" by (intro mod_pos_pos_trivial) linarith+
    with False s u256_add_ok [of "a mod m" "b mod m"] M assms sum show ?thesis
      by (simp add: evm_addmod_def word_le_def uint_mod)
  qed
qed

lemma uint_half: "uint (drop_bit 1 (w :: U256)) = uint w div 2"
  by (simp add: drop_bit_Suc uint_div)

lemma unat_half: "unat (drop_bit 1 (w :: U256)) = unat w div 2"
  by (simp add: drop_bit_Suc unat_div)

lemma odd_unat: "odd (unat (w :: U256)) \<longleftrightarrow> odd (uint w)"
  using even_of_nat [of "unat w", where 'a = int] by simp

lemma and_1_iff: "(w :: U256) AND 1 = 1 \<longleftrightarrow> odd (uint w)"
  by (simp add: and_one_eq odd_iff_mod_2_eq_one [symmetric]) (metis bit_0 bit_uint_iff len_gt_0)

lemma mod_add_mult: "((x :: int) mod m + (y mod m) * k) mod m = (x + y * k) mod m"
  using mod_add_eq [of "x mod m" m "(y mod m) * k"] mod_add_eq [of x m "y * k"] mod_mult_left_eq [of y m k]
  by (simp only: mod_mod_trivial)

lemma mod_mult_power: "((x :: int) mod m * (y mod m) ^ k) mod m = (x * y ^ k) mod m"
  using mod_mult_eq [of "x mod m" m "(y mod m) ^ k"] mod_mult_eq [of x m "y ^ k"] power_mod [of y m k]
  by (simp only: mod_mod_trivial)

lemma mulmod_loop_spec:
  assumes "m \<noteq> 0"
  shows "uint res < uint m \<Longrightarrow> \<exists>r. mulmod_loop m res ad k = Inr r \<and> uint r = (uint res + uint ad * uint k) mod uint m"
proof (induction "unat k" arbitrary: k res ad rule: less_induct)
  case less
  show ?case
  proof (cases "0 < k")
    case False
    then have "k = 0" by (simp add: word_greater_zero_iff)
    with less.prems show ?thesis by (subst mulmod_loop.simps) simp
  next
    case True
    obtain res' where res': "(if k AND 1 = 1 then evm_addmod res ad m else Inr res) = Inr res'"
        "uint res' = (uint res + (uint k mod 2) * uint ad) mod uint m"
      using evm_addmod_spec [OF assms, of res ad] less.prems by (cases "odd (uint k)") (auto simp: and_1_iff odd_iff_mod_2_eq_one)
    obtain ad' where ad': "evm_addmod ad ad m = Inr ad'" "uint ad' = (uint ad + uint ad) mod uint m"
      using evm_addmod_spec [OF assms] by blast
    have "uint res' < uint m" using res'(2) uint_ne_0 [OF assms] by simp
    from less.hyps [OF unat_drop_bit_less [OF True] this, of ad'] obtain r where
      r: "mulmod_loop m res' ad' (drop_bit 1 k) = Inr r" "uint r = (uint res' + uint ad' * (uint k div 2)) mod uint m"
      unfolding uint_half by blast
    have "uint res + uint ad * uint k = uint res + (uint k mod 2) * uint ad + (uint ad + uint ad) * (uint k div 2)"
    proof -
      have "uint ad * uint k = uint ad * (uint k mod 2 + 2 * (uint k div 2))" by simp
      then show ?thesis by (simp only: algebra_simps)
    qed
    then have "uint r = (uint res + uint ad * uint k) mod uint m"
      unfolding r(2) res'(2) ad'(2) using mod_add_mult [of _ "uint m"] by (simp only: add.assoc)
    with True r(1) res'(1) ad'(1) show ?thesis by (subst mulmod_loop.simps) simp
  qed
qed

lemma mask_for_ty_eq: "is_integral ty \<Longrightarrow> mask_for_ty ty = mask (ty_bits ty)"
  by (auto simp: is_integral_def mask_for_ty_def mask_eq_exp_minus_1 push_bit_of_1)

lemma uint_and_mask_256: "n \<le> 256 \<Longrightarrow> uint ((w :: U256) AND mask n) = uint w mod 2 ^ n"
  by (simp only: take_bit_eq_mask [symmetric] unsigned_take_bit_eq) (simp only: take_bit_eq_mod)

lemma uint_mult_mask: "n \<le> 256 \<Longrightarrow> uint ((a :: U256) * b AND mask n) = (uint a * uint b) mod 2 ^ n"
  using mod_mod_cancel [OF le_imp_power_dvd [of n 256 "2 :: int"], of "uint a * uint b"]
  by (simp add: uint_and_mask_256 uint_word_ariths)

lemma exp_loop_spec:
  assumes "n \<le> 256"
  shows "uint res < 2 ^ n \<Longrightarrow> uint (exp_loop (mask n) res b e) = (uint res * uint b ^ unat e) mod 2 ^ n"
proof (induction "unat e" arbitrary: e res b rule: less_induct)
  case less
  show ?case
  proof (cases "0 < e")
    case False
    then have "e = 0" by (simp add: word_greater_zero_iff)
    with less.prems show ?thesis by (subst exp_loop.simps) simp
  next
    case True
    let ?res = "if e AND 1 = 1 then res * b AND mask n else res" and ?b = "b * b AND mask n"
    have res: "uint ?res = (uint res * uint b ^ (unat e mod 2)) mod 2 ^ n"
    proof (cases "odd (uint e)")
      case True
      then have "e AND 1 = 1" "unat e mod 2 = 1" using odd_unat [of e] by (simp_all add: and_1_iff odd_iff_mod_2_eq_one)
      then show ?thesis using uint_mult_mask [OF assms, of res b] by simp
    next
      case False
      then have "\<not> e AND 1 = 1" "unat e mod 2 = 0" using odd_unat [of e] by (simp_all add: and_1_iff even_iff_mod_2_eq_zero)
      then show ?thesis using less.prems by (simp only: if_False power_0 mult_1_right) simp
    qed
    then have "uint ?res < 2 ^ n" by simp
    from less.hyps [OF unat_drop_bit_less [OF True] this, of ?b]
    have "uint (exp_loop (mask n) ?res ?b (drop_bit 1 e)) = (uint ?res * uint ?b ^ (unat e div 2)) mod 2 ^ n"
      by (simp only: unat_half)
    also have "\<dots> = (uint res * (uint b ^ (unat e mod 2) * (uint b * uint b) ^ (unat e div 2))) mod 2 ^ n"
      unfolding res uint_mult_mask [OF assms] by (simp only: mod_mult_power mult.assoc)
    also have "uint b ^ (unat e mod 2) * (uint b * uint b) ^ (unat e div 2) = uint b ^ (unat e mod 2 + 2 * (unat e div 2))"
      by (simp only: power_add power_mult power2_eq_square)
    also have "unat e mod 2 + 2 * (unat e div 2) = unat e" by simp
    finally show ?thesis using True by (subst exp_loop.simps) simp
  qed
qed

lemma evm_exp_spec:
  assumes "is_integral ty"
  shows "uint (evm_exp b e (mask_for_ty ty)) = (uint b ^ unat e) mod 2 ^ ty_bits ty"
proof -
  have n: "ty_bits ty \<le> 256" using integral_bits [OF assms] by simp
  have one: "uint (1 AND mask (ty_bits ty) :: U256) = 1 mod 2 ^ ty_bits ty"
    using uint_and_mask_256 [OF n, of 1] by (simp only: unsigned_1)
  then have "uint (1 AND mask (ty_bits ty) :: U256) < 2 ^ ty_bits ty" by simp
  from exp_loop_spec [OF n this, of "b AND mask (ty_bits ty)" e] show ?thesis
    unfolding evm_exp_def mask_for_ty_eq [OF assms] one unfolding uint_and_mask_256 [OF n] mod_mult_power mult_1 .
qed

text \<open>C32: the EVM modular operations never fault and equal the mathematical ones on the full product
  or sum (no 256-bit wrap-around), with result zero for modulus zero; exponentiation by squaring
  is exponentiation modulo the width; \<open>BYTE\<close> selects the byte counted from the most significant
  end of the 32-byte word.\<close>
theorem evm_arith_spec:
  "(\<exists>r. evm_addmod a b m = Inr r \<and> uint r = (if m = 0 then 0 else (uint a + uint b) mod uint m))
   \<and> (\<exists>r. evm_mulmod a b m = Inr r \<and> uint r = (if m = 0 then 0 else (uint a * uint b) mod uint m))
   \<and> uint (evm_exp a b (mask_for_ty Ty_I256)) = (uint a ^ unat b) mod 2 ^ 256
   \<and> evm_byte p a 32 = (if 32 \<le> p then 0 else drop_bit (8 * (31 - unat p)) a AND 0xff)"
proof (intro conjI)
  show "\<exists>r. evm_addmod a b m = Inr r \<and> uint r = (if m = 0 then 0 else (uint a + uint b) mod uint m)"
  proof (cases "m = 0")
    case True then show ?thesis by (simp add: evm_addmod_def)
  next
    case False then show ?thesis using evm_addmod_spec by simp
  qed
  show "\<exists>r. evm_mulmod a b m = Inr r \<and> uint r = (if m = 0 then 0 else (uint a * uint b) mod uint m)"
  proof (cases "m = 0")
    case True then show ?thesis by (simp add: evm_mulmod_def)
  next
    case False
    with mulmod_loop_spec [OF False, of 0 "a mod m" "b mod m"] uint_ne_0 [OF False] show ?thesis
      by (simp add: evm_mulmod_def uint_mod mod_mult_eq)
  qed
  show "uint (evm_exp a b (mask_for_ty Ty_I256)) = (uint a ^ unat b) mod 2 ^ 256"
    using evm_exp_spec [of Ty_I256] by (simp add: is_integral_def)
  show "evm_byte p a 32 = (if 32 \<le> p then 0 else drop_bit (8 * (31 - unat p)) a AND 0xff)"
    by (simp add: evm_byte_def mult.commute)
qed

section \<open>What a State promises\<close>

text \<open>
  \<open>env_state\<close>: looking up a value that is defined gives the value of an environment and changes
  neither the environment nor what is defined nor the rest of the state (whatever an
  implementation chooses to call so), and neither does \<open>set_action Continue\<close>. An
  instruction without side effects, phi and address computation then computes a function of
  the environment: \<open>pure_eval\<close>, the same code run on the trait's smallest implementation.
\<close>

definition pure_state :: "(ValueId \<Rightarrow> EvalValue) \<Rightarrow> unit State" where
  "pure_state env = \<lparr>lookup_val = (\<lambda>v. sret (env v)), call_func = (\<lambda>_ _. sfail ''not available''),
     set_action = (\<lambda>_. sret ()), prev_block = sfail ''not available'', load = (\<lambda>_ _. sfail ''not available''),
     store = (\<lambda>_ _ _. sfail ''not available''), alloca = (\<lambda>_. sfail ''not available''),
     dfg_value_ty = (\<lambda>_ _. Inl (Panic ''not available'')), dfg_ty_store = (\<lambda>_. empty_store)\<rparr>"

definition pure_eval :: "(ValueId \<Rightarrow> EvalValue) \<Rightarrow> inst \<Rightarrow> fault + EvalValue" where
  "pure_eval env i = rbind (interp (pure_state env) i ()) (\<lambda>(x, _). Inr x)"

fun is_pure :: "inst \<Rightarrow> bool" where
  "is_pure (Mload _ _) = False"
| "is_pure (Mstore _ _ _) = False"
| "is_pure (Gep _) = False"
| "is_pure (Alloca _) = False"
| "is_pure (InsertValue _ _ _) = False"
| "is_pure (ExtractValue _ _) = False"
| "is_pure (Call _ _) = False"
| "is_pure (Jump _) = False"
| "is_pure (Br _ _ _) = False"
| "is_pure (BrTable _ _ _) = False"
| "is_pure (Return _) = False"
| "is_pure Unreachable = False"
| "is_pure (Phi _) = False"
| "is_pure _ = True"

text \<open>\<open>runs_as\<close>: an operation gives exactly this result or fault and keeps what is observed of the state.\<close>

definition runs_as :: "('s, 'a) op \<Rightarrow> 's \<Rightarrow> fault + 'a \<Rightarrow> ('s \<Rightarrow> 'o) \<Rightarrow> bool" where
  "runs_as m s r obs \<longleftrightarrow> (\<exists>s'. m s = rbind r (\<lambda>x. Inr (x, s')) \<and> obs s' = obs s)"

lemma runs_as_slift [intro]: "runs_as (slift r) s r obs"
  by (auto simp: runs_as_def slift_def)

lemma runs_as_sret [intro]: "runs_as (sret x) s (Inr x) obs"
  by (auto simp: runs_as_def)

lemma runs_as_sfail [intro]: "runs_as (sfail msg) s (Inl (Panic msg)) obs"
  by (auto simp: runs_as_def)

lemma runs_as_bind:
  assumes "runs_as m s (Inr x) obs" "\<And>s'. obs s' = obs s \<Longrightarrow> runs_as (f x) s' r obs"
  shows "runs_as (sbind m f) s r obs"
  using assms unfolding runs_as_def sbind_def by fastforce

locale env_state =
  fixes st :: "'s State" and env :: "'s \<Rightarrow> ValueId \<Rightarrow> EvalValue" and dfn :: "'s \<Rightarrow> ValueId set" and rest :: "'s \<Rightarrow> 'r"
  assumes lookup: "v \<in> dfn s \<Longrightarrow>
      \<exists>s'. lookup_val st v s = Inr (env s v, s') \<and> env s' = env s \<and> dfn s' = dfn s \<and> rest s' = rest s"
    and continue_ok: "\<exists>s'. set_action st Continue s = Inr ((), s') \<and> env s' = env s \<and> dfn s' = dfn s \<and> rest s' = rest s"
begin

definition obs :: "'s \<Rightarrow> (ValueId \<Rightarrow> EvalValue) \<times> ValueId set \<times> 'r" where
  "obs s = (env s, dfn s, rest s)"

lemma runs_lookup: "v \<in> dfn s \<Longrightarrow> runs_as (lookup_val st v) s (Inr (env s v)) obs"
  using lookup [of v s] by (auto simp: runs_as_def obs_def)

lemma runs_continue: "runs_as (set_action st Continue) s (Inr ()) obs"
  using continue_ok [of s] by (auto simp: runs_as_def obs_def)

lemma obsD: "obs s' = obs s \<Longrightarrow> env s' = env s" "obs s' = obs s \<Longrightarrow> dfn s' = dfn s" "obs s' = obs s \<Longrightarrow> rest s' = rest s"
  by (simp_all add: obs_def)

lemma runs_unop:
  assumes "a \<in> dfn s"
  shows "runs_as (unop_first st a f) s (with_imm (env s a) f) obs" "runs_as (unop_last st a f) s (with_imm (env s a) f) obs"
proof -
  show "runs_as (unop_first st a f) s (with_imm (env s a) f) obs"
    unfolding unop_first_def
  proof (rule runs_as_bind [OF runs_continue])
    fix s1 assume "obs s1 = obs s"
    note o1 = obsD [OF this]
    have "runs_as (lookup_val st a) s1 (Inr (env s a)) obs" using runs_lookup [of a s1] assms o1 by simp
    then show "runs_as (sbind (lookup_val st a) (\<lambda>v. slift (with_imm v f))) s1 (with_imm (env s a) f) obs"
      by (rule runs_as_bind) (rule runs_as_slift)
  qed
  show "runs_as (unop_last st a f) s (with_imm (env s a) f) obs"
    unfolding unop_last_def
    by (rule runs_as_bind [OF runs_lookup [OF assms]], rule runs_as_bind [OF runs_continue], rule runs_as_slift)
qed

lemma lookup_then:
  assumes "a \<in> dfn s" "\<And>s'. obs s' = obs s \<Longrightarrow> runs_as (f (env s a)) s' r obs"
  shows "runs_as (sbind (lookup_val st a) f) s r obs"
  by (rule runs_as_bind [OF runs_lookup [OF assms(1)]]) (rule assms(2))

lemma lookup_then':
  assumes "a \<in> dfn s0" "obs s = obs s0" "\<And>s'. obs s' = obs s0 \<Longrightarrow> runs_as (f (env s0 a)) s' r obs"
  shows "runs_as (sbind (lookup_val st a) f) s r obs"
  using assms(1,2) obsD [OF assms(2)] by (intro lookup_then) (auto intro!: assms(3))

lemma continue_then:
  assumes "obs s = obs s0" "\<And>s'. obs s' = obs s0 \<Longrightarrow> runs_as f s' r obs"
  shows "runs_as (sbind (set_action st Continue) (\<lambda>_. f)) s r obs"
  using assms(1) by (intro runs_as_bind [OF runs_continue]) (auto intro!: assms(2))

lemma runs_binop:
  assumes "a \<in> dfn s" "b \<in> dfn s"
  shows "runs_as (binop_first st a b f) s (zip_with_imm (env s a) (env s b) f) obs"
    "runs_as (binop_last st a b f) s (zip_with_imm (env s a) (env s b) f) obs"
  unfolding binop_first_def binop_last_def
   apply (rule continue_then [OF refl])
   apply (rule lookup_then' [OF assms(1)], assumption)
   apply (rule lookup_then' [OF assms(2)], assumption)
   apply (rule runs_as_slift)
  apply (rule lookup_then' [OF assms(1) refl])
  apply (rule lookup_then' [OF assms(2)], assumption)
  apply (rule continue_then, assumption)
  apply (rule runs_as_slift)
  done

lemma runs_triop:
  assumes "a \<in> dfn s" "b \<in> dfn s" "c \<in> dfn s"
  shows "runs_as (triop_first st a b c f) s (f (env s a) (env s b) (env s c)) obs"
  unfolding triop_first_def
  by (rule continue_then [OF refl], rule lookup_then' [OF assms(1)], assumption, rule lookup_then' [OF assms(2)], assumption,
      rule lookup_then' [OF assms(3)], assumption, rule runs_as_slift)

lemma runs_pairop:
  assumes "a \<in> dfn s" "b \<in> dfn s"
  shows "runs_as (pairop_first st a b g) s (g (env s a) (env s b)) obs"
  unfolding pairop_first_def
  by (rule continue_then [OF refl], rule lookup_then' [OF assms(1)], assumption, rule lookup_then' [OF assms(2)], assumption,
      rule runs_as_slift)

end

text \<open>The smallest State satisfies the contract, so what holds of every State holds of \<open>pure_eval\<close>.\<close>

interpretation pure_st: env_state "pure_state e" "\<lambda>_. e" "\<lambda>_. UNIV" id
  by unfold_locales (auto simp: pure_state_def)

lemma runs_as_unit: "runs_as m () r obs \<Longrightarrow> rbind (m ()) (\<lambda>(x, _). Inr x) = r"
  by (cases r) (auto simp: runs_as_def)

lemma pure_eval_runs: "runs_as (interp (pure_state e) i) () r (pure_st.obs e) \<Longrightarrow> pure_eval e i = r"
  unfolding pure_eval_def by (rule runs_as_unit)

lemma pure_ops:
  "rbind (unop_first (pure_state e) a f ()) (\<lambda>(x, _). Inr x) = with_imm (e a) f"
  "rbind (unop_last (pure_state e) a f ()) (\<lambda>(x, _). Inr x) = with_imm (e a) f"
  "rbind (binop_first (pure_state e) a b g ()) (\<lambda>(x, _). Inr x) = zip_with_imm (e a) (e b) g"
  "rbind (binop_last (pure_state e) a b g ()) (\<lambda>(x, _). Inr x) = zip_with_imm (e a) (e b) g"
  "rbind (triop_first (pure_state e) a b c h ()) (\<lambda>(x, _). Inr x) = h (e a) (e b) (e c)"
  "rbind (pairop_first (pure_state e) a b k ()) (\<lambda>(x, _). Inr x) = k (e a) (e b)"
  by (rule runs_as_unit, rule pure_st.runs_unop pure_st.runs_binop pure_st.runs_triop pure_st.runs_pairop; simp)+

lemma pure_others:
  "rbind (sfail msg ()) (\<lambda>(x, _). Inr x) = Inl (Panic msg)"
  "rbind (undef_first (pure_state e) ()) (\<lambda>(x, _). Inr x) = Inr Undef"
  "rbind (sbind (set_action (pure_state e) Continue) (\<lambda>_. lookup_val (pure_state e) a) ()) (\<lambda>(x, _). Inr x) = Inr (e a)"
  by (simp_all add: pure_state_def undef_first_def sbind_def)

lemma pure_eval_Evm:
  "pure_eval e (Evm op vs) =
     (case vs of
        [a, b] \<Rightarrow>
          if op = EvmUdiv then zip_with_imm (e a) (e b) (zero_div_by imm_udiv)
          else if op = EvmSdiv then zip_with_imm (e a) (e b) (zero_div_by imm_sdiv)
          else if op = EvmUmod then zip_with_imm (e a) (e b) (zero_div_by imm_urem)
          else if op = EvmSmod then zip_with_imm (e a) (e b) (zero_div_by imm_srem)
          else if op = EvmExp then exp_imm (e a) (e b)
          else if op = EvmByte then byte_imm (e a) (e b)
          else Inl (Panic ''`Interpret` is not yet implemented'')
      | [a, b, c] \<Rightarrow>
          if op = EvmAddMod then modular_imm evm_addmod (e a) (e b) (e c)
          else if op = EvmMulMod then modular_imm evm_mulmod (e a) (e b) (e c)
          else Inl (Panic ''`Interpret` is not yet implemented'')
      | _ \<Rightarrow> Inl (Panic ''`Interpret` is not yet implemented''))"
  by (auto simp: pure_eval_def interpret_evm_def interpret_evm2_def interpret_evm3_def pure_ops pure_others split: list.split)

context env_state
begin

lemma runs_bitcast: "a \<in> dfn s \<Longrightarrow> runs_as (sbind (set_action st Continue) (\<lambda>_. lookup_val st a)) s (Inr (env s a)) obs"
  using obsD by (intro runs_as_bind [OF runs_continue]) (metis runs_lookup)

lemma runs_undef: "runs_as (undef_first st) s (Inr Undef) obs"
  unfolding undef_first_def by (rule runs_as_bind [OF runs_continue], rule runs_as_sret)

lemma runs_evm:
  assumes "set vs \<subseteq> dfn s"
  shows "runs_as (interpret_evm st op vs) s (pure_eval (env s) (Evm op vs)) obs"
  unfolding pure_eval_Evm interpret_evm_def using assms
  by (auto simp: interpret_evm2_def interpret_evm3_def runs_binop runs_triop runs_pairop split: list.split)

lemma runs_pure:
  assumes "is_pure i" "set (values_of i) \<subseteq> dfn s"
  shows "runs_as (interp st i) s (pure_eval (env s) i) obs"
proof (cases "\<exists>op vs. i = Evm op vs")
  case True
  with assms runs_evm show ?thesis by auto
next
  case False
  with assms show ?thesis
    by (cases i) (simp_all add: pure_eval_def pure_ops pure_others runs_unop runs_binop runs_bitcast runs_undef)
qed

end

section \<open>What evaluation keeps\<close>

text \<open>
  \<open>kept_state\<close>: a relation between the state before and after that every operation of the trait
  respects. Then the evaluation of any instruction respects it.
\<close>

locale kept_state =
  fixes st :: "'s State" and R :: "'s \<Rightarrow> 's \<Rightarrow> bool"
  assumes R_refl: "R s s"
    and R_trans: "R s t \<Longrightarrow> R t u \<Longrightarrow> R s u"
    and lookup_keeps: "lookup_val st v s = Inr (x, s') \<Longrightarrow> R s s'"
    and call_keeps: "call_func st f args s = Inr (x, s') \<Longrightarrow> R s s'"
    and action_keeps: "set_action st a s = Inr (y, s') \<Longrightarrow> R s s'"
    and prev_keeps: "prev_block st s = Inr (b, s') \<Longrightarrow> R s s'"
    and load_keeps: "load st addr ty s = Inr (x, s') \<Longrightarrow> R s s'"
    and store_keeps: "store st addr w ty s = Inr (x, s') \<Longrightarrow> R s s'"
    and alloca_keeps: "alloca st ty s = Inr (x, s') \<Longrightarrow> R s s'"
begin

definition keeps :: "('s, 'a) op \<Rightarrow> bool" where
  "keeps m \<longleftrightarrow> (\<forall>s x s'. m s = Inr (x, s') \<longrightarrow> R s s')"

lemma keeps_ops [intro, simp]:
  "keeps (lookup_val st v)" "keeps (call_func st f args)" "keeps (set_action st a)" "keeps (prev_block st)"
  "keeps (load st addr ty)" "keeps (store st addr w ty)" "keeps (alloca st ty)"
  by (simp_all add: keeps_def lookup_keeps call_keeps action_keeps prev_keeps load_keeps store_keeps alloca_keeps)

lemma keeps_basic [intro, simp]: "keeps (sret x)" "keeps (sfail msg)" "keeps (slift r)" "keeps (\<lambda>s. Inr (x, s))"
  by (auto simp: keeps_def R_refl)

lemma keeps_bind [intro!]:
  assumes "keeps m" "\<And>x. keeps (f x)"
  shows "keeps (sbind m f)"
  unfolding keeps_def
proof (intro allI impI)
  fix s x s' assume "sbind m f s = Inr (x, s')"
  then obtain y t where "m s = Inr (y, t)" "f y t = Inr (x, s')" by auto
  with assms have "R s t" "R t s'" unfolding keeps_def by blast+
  then show "R s s'" by (rule R_trans)
qed

lemma keeps_shapes [intro, simp]:
  "keeps (unop_first st a f)" "keeps (unop_last st a f)" "keeps (binop_first st a b g)" "keeps (binop_last st a b g)"
  "keeps (triop_first st a b c h)" "keeps (pairop_first st a b k)" "keeps (undef_first st)"
  unfolding unop_first_def unop_last_def binop_first_def binop_last_def triop_first_def pairop_first_def undef_first_def
  by auto

lemma keeps_evm [intro, simp]: "keeps (interpret_evm st e vs)"
  unfolding interpret_evm_def interpret_evm2_def interpret_evm3_def by (auto split: list.split)

lemma keeps_scan [intro, simp]: "keeps (br_table_scan st imm tbl)"
  by (induction tbl) (auto split: option.split)

lemma keeps_smap [intro!]: "(\<And>x. keeps (f x)) \<Longrightarrow> keeps (smap f xs)"
  by (induction xs) auto

lemma keeps_gep_loop [intro, simp]: "keeps (gep_loop st vs ty off)"
proof (induction vs arbitrary: ty off)
  case (Cons v vs)
  have "keeps (\<lambda>s. rbind (imm_as_usize imm) (\<lambda>idx. rbind (gep_step (dfg_ty_store st s) ty off idx) (\<lambda>(ty, off). gep_loop st vs ty off s)))" for imm
    using Cons.IH unfolding keeps_def by fastforce
  then show ?case by (auto split: option.split)
qed simp

lemma keeps_gep [intro, simp]: "keeps (interpret_gep st vs)"
proof -
  have "keeps (\<lambda>s. rbind (dfg_value_ty st s v0) (\<lambda>ty. rbind (is_ptr (dfg_ty_store st s) ty) (\<lambda>p.
      rbind (assert_that p msg) (\<lambda>_. sbind (gep_loop st (tl vs) ty 0) f s))))" if "\<And>x. keeps (f x)" for f v0 msg
    using keeps_bind [OF keeps_gep_loop that] unfolding keeps_def by fastforce
  note step = this
  show ?thesis
    unfolding interpret_gep_def by (auto intro!: step split: option.split)
qed

lemma keeps_insert [intro, simp]: "keeps (interpret_insert_value st d i v)"
proof -
  have tail: "keeps (sbind (slift r) (\<lambda>flds. sbind (lookup_val st i) (\<lambda>idx_val. case as_imm idx_val of
             None \<Rightarrow> slift (rbind (assert_that (is_undef idx_val) msg) (\<lambda>_. Inr Undef))
           | Some imm \<Rightarrow> sbind (slift (imm_as_usize imm)) (\<lambda>idx.
                 if idx \<ge> length flds then sfail msg'
                 else sbind (lookup_val st v) (\<lambda>v. sret (Aggregate (flds[idx := v]) ty))))))" for r msg msg' ty
    by (auto split: option.split)
  show ?thesis
    unfolding interpret_insert_value_def
    by (intro keeps_bind keeps_ops) (use tail [unfolded keeps_def] in \<open>fastforce simp: keeps_def simp del: sbind_eq_Inr\<close>)
qed

lemma keeps_rest [intro, simp]:
  "keeps (interpret_extract_value st d i)" "keeps (interpret_br st c nz z)" "keeps (interpret_br_table st sc dflt tbl)"
  "keeps (interpret_phi st args)" "keeps (interpret_call st f vs)" "keeps (interpret_return st arg)"
  unfolding interpret_extract_value_def interpret_br_def interpret_br_table_def interpret_phi_def interpret_call_def interpret_return_def
  by (auto split: option.split EvalValue.split prod.split)

lemma interp_keeps: "keeps (interp st i)"
  by (cases i) auto

end

section \<open>Better environments\<close>

text \<open>Constants survive in a better environment.\<close>

definition refines :: "(ValueId \<Rightarrow> EvalValue) \<Rightarrow> (ValueId \<Rightarrow> EvalValue) \<Rightarrow> bool" where
  "refines e e' \<longleftrightarrow> (\<forall>v c. e v = EImm c \<longrightarrow> e' v = EImm c)"

lemma with_imm_EImm: "with_imm v f = Inr (EImm c) \<longleftrightarrow> (\<exists>k. v = EImm k \<and> f k = Inr (EImm c))"
  by (cases v) auto

lemma zip_with_imm_EImm:
  "zip_with_imm v w f = Inr (EImm c) \<longleftrightarrow> (\<exists>k l. v = EImm k \<and> w = EImm l \<and> f k l = Inr (EImm c))"
  by (cases v; cases w) auto

lemma modular_imm_EImm: "modular_imm f x y z = Inr (EImm c) \<Longrightarrow> \<exists>k l m. x = EImm k \<and> y = EImm l \<and> z = EImm m"
  by (auto simp: modular_imm_def split: EvalValue.splits)

lemma exp_imm_EImm: "exp_imm x y = Inr (EImm c) \<Longrightarrow> \<exists>k l. x = EImm k \<and> y = EImm l"
  by (auto simp: exp_imm_def split: EvalValue.splits)

lemma byte_imm_EImm: "byte_imm x y = Inr (EImm c) \<Longrightarrow> \<exists>k l. x = EImm k \<and> y = EImm l"
  by (auto simp: byte_imm_def split: EvalValue.splits)

lemma pure_eval_refines:
  assumes r: "refines e e'" and i: "is_pure i" and c: "pure_eval e i = Inr (EImm c)"
  shows "pure_eval e' i = Inr (EImm c)"
proof (cases "\<exists>op vs. i = Evm op vs")
  case True
  then obtain op vs where evm: "i = Evm op vs" by blast
  show ?thesis
  proof (cases "\<exists>x y. vs = [x, y]")
    case True
    then obtain x y where vs: "vs = [x, y]" by blast
    from c have "\<exists>k l. e x = EImm k \<and> e y = EImm l"
      unfolding evm pure_eval_Evm vs
      by (auto simp: zip_with_imm_EImm dest: exp_imm_EImm byte_imm_EImm split: if_splits)
    with r have "e' x = e x" "e' y = e y" by (auto simp: refines_def)
    with c show ?thesis unfolding evm pure_eval_Evm vs by (simp only: list.case)
  next
    case no2: False
    show ?thesis
    proof (cases "\<exists>x y z. vs = [x, y, z]")
      case True
      then obtain x y z where vs: "vs = [x, y, z]" by blast
      from c have "\<exists>k l m. e x = EImm k \<and> e y = EImm l \<and> e z = EImm m"
        unfolding evm pure_eval_Evm vs by (auto dest: modular_imm_EImm split: if_splits)
      with r have "e' x = e x" "e' y = e y" "e' z = e z" by (auto simp: refines_def)
      with c show ?thesis unfolding evm pure_eval_Evm vs by (simp only: list.case)
    next
      case False
      with no2 c show ?thesis unfolding evm pure_eval_Evm by (auto split: list.splits)
    qed
  qed
next
  case False
  with i c r show ?thesis
    by (cases i) (auto simp: pure_eval_def pure_ops pure_others with_imm_EImm zip_with_imm_EImm refines_def)
qed

section \<open>Branches\<close>

text \<open>Where a branch goes in an environment.\<close>

fun branch_target :: "(ValueId \<Rightarrow> EvalValue) \<Rightarrow> inst \<Rightarrow> Action" where
  "branch_target e (Jump d) = JumpTo d"
| "branch_target e (Br c nz z) = (case as_imm (e c) of None \<Rightarrow> FallThrough
     | Some imm \<Rightarrow> JumpTo (if imm_is_zero imm then z else nz))"
| "branch_target e (BrTable sc dflt table) = (case as_imm (e sc) of None \<Rightarrow> FallThrough
     | Some imm \<Rightarrow> (case find (\<lambda>(v, _). as_imm (e v) = Some imm) table of
           Some (_, block) \<Rightarrow> JumpTo block
         | None \<Rightarrow> (case dflt of Some d \<Rightarrow> JumpTo d | None \<Rightarrow> FallThrough)))"
| "branch_target e _ = Continue"

text \<open>An implementation that also accepts jumps remembers the action it is given.\<close>

locale jump_state = env_state st env dfn rest
  for st :: "'s State" and env :: "'s \<Rightarrow> ValueId \<Rightarrow> EvalValue" and dfn :: "'s \<Rightarrow> ValueId set" and rest :: "'s \<Rightarrow> 'r" +
  fixes act :: "'s \<Rightarrow> Action"
  assumes action_ok: "\<exists>s'. set_action st a s = Inr ((), s') \<and> env s' = env s \<and> dfn s' = dfn s \<and> rest s' = rest s \<and> act s' = a"
begin

definition goes :: "('s, EvalValue) op \<Rightarrow> 's \<Rightarrow> Action \<Rightarrow> bool" where
  "goes m s a \<longleftrightarrow> (\<exists>s'. m s = Inr (Undef, s') \<and> obs s' = obs s \<and> act s' = a)"

lemma goes_action: "goes (sbind (set_action st a) (\<lambda>_. sret Undef)) s a"
  using action_ok [of a s] by (auto simp: goes_def obs_def sbind_def)

lemma goes_bind: "runs_as m s (Inr x) obs \<Longrightarrow> (\<And>s'. obs s' = obs s \<Longrightarrow> goes (f x) s' a) \<Longrightarrow> goes (sbind m f) s a"
  unfolding runs_as_def goes_def sbind_def by fastforce

lemma br_table_scan_runs:
  "fst ` set table \<subseteq> dfn s \<Longrightarrow>
    runs_as (br_table_scan st imm table) s
      (Inr (map_option snd (find (\<lambda>(v, _). as_imm (env s v) = Some imm) table))) obs"
proof (induction table arbitrary: s)
  case (Cons p table)
  obtain v b where p: "p = (v, b)" by (cases p)
  have v: "v \<in> dfn s" using Cons.prems p by simp
  show ?case
    unfolding p br_table_scan.simps
  proof (rule runs_as_bind [OF runs_lookup [OF v]])
    fix s1 assume "obs s1 = obs s"
    note o1 = obsD [OF this]
    have "fst ` set table \<subseteq> dfn s1" using Cons.prems o1(2) by simp
    from Cons.IH [OF this] o1(1)
    show "runs_as (case as_imm (env s v) of None \<Rightarrow> br_table_scan st imm table
        | Some k \<Rightarrow> if imm = k then sret (Some b) else br_table_scan st imm table) s1
      (Inr (map_option snd (find (\<lambda>(v, _). as_imm (env s v) = Some imm) ((v, b) # table)))) obs"
      by (auto split: option.split)
  qed
qed (auto simp: runs_as_def)

lemma branch_goes:
  assumes "is_branch_inst i" "set (values_of i) \<subseteq> dfn s"
  shows "goes (interp st i) s (branch_target (env s) i)"
proof (cases i)
  case (Jump d)
  then show ?thesis by (simp add: goes_action)
next
  case (Br c nz z)
  with assms have c: "c \<in> dfn s" by simp
  have "goes (interpret_br st c nz z) s (branch_target (env s) (Br c nz z))"
    unfolding interpret_br_def
    by (rule goes_bind [OF runs_lookup [OF c]]) (auto intro!: goes_action split: option.split)
  with Br show ?thesis by simp
next
  case (BrTable sc dflt table)
  with assms have sc: "sc \<in> dfn s" and tbl: "fst ` set table \<subseteq> dfn s" by auto
  have "goes (interpret_br_table st sc dflt table) s (branch_target (env s) (BrTable sc dflt table))"
    unfolding interpret_br_table_def
  proof (rule goes_bind [OF runs_lookup [OF sc]])
    fix s1 assume "obs s1 = obs s"
    note o1 = obsD [OF this]
    show "goes (case as_imm (env s sc) of None \<Rightarrow> sbind (set_action st FallThrough) (\<lambda>_. sret Undef)
       | Some imm \<Rightarrow> sbind (br_table_scan st imm table) (\<lambda>hit. sbind (set_action st (case hit of
             Some block \<Rightarrow> JumpTo block | None \<Rightarrow> (case dflt of Some d \<Rightarrow> JumpTo d | None \<Rightarrow> FallThrough))) (\<lambda>_. sret Undef)))
      s1 (branch_target (env s) (BrTable sc dflt table))"
    proof (cases "as_imm (env s sc)")
      case None
      then show ?thesis by (simp add: goes_action)
    next
      case (Some imm)
      have "fst ` set table \<subseteq> dfn s1" using tbl o1 by simp
      note scan = br_table_scan_runs [OF this, of imm, unfolded o1]
      show ?thesis
        unfolding Some option.case branch_target.simps
        by (rule goes_bind [OF scan]) (auto intro!: goes_action split: option.split)
    qed
  qed
  with BrTable show ?thesis by simp
qed (use assms in auto)

end

lemma find_mem: "find P xs = Some x \<Longrightarrow> x \<in> set xs"
  by (auto simp: find_Some_iff)

lemma branch_target_mem: "branch_target e i = JumpTo t \<Longrightarrow> t \<in> set (dests i)"
proof (cases i)
  case (BrTable sc dflt table)
  assume "branch_target e i = JumpTo t"
  with BrTable show ?thesis by (auto split: option.splits dest!: find_mem intro: rev_image_eqI)
qed (auto split: option.splits)

lemma branch_target_converted:
  assumes "branch_target e br = JumpTo t"
  shows "branch_target e (case try_convert_branch_to_jump br of Some i \<Rightarrow> i | None \<Rightarrow> br) = JumpTo t"
  using branch_target_mem [OF assms] assms
  by (auto simp: try_convert_branch_to_jump_def list_all_iff split: list.split)

lemma find_map_snd: "find (\<lambda>(v, _). P v) (map (\<lambda>(v, b). (v, f b)) xs) = map_option (\<lambda>(v, b). (v, f b)) (find (\<lambda>(v, _). P v) xs)"
  by (induction xs) auto

lemma find_filter_None: "find P xs = None \<Longrightarrow> find P (filter Q xs) = None"
  by (auto simp: find_None_iff)

lemma find_filter_Some: "find P xs = Some p \<Longrightarrow> Q p \<Longrightarrow> find P (filter Q xs) = Some p"
  by (induction xs) (auto split: if_splits)

lemma branch_target_rewrite_dest:
  assumes "branch_target e i = JumpTo t"
  shows "branch_target e (rewrite_dest i from to) = JumpTo (rewrite_if_match from to t)"
proof (cases i)
  case (Br c nz z)
  have "branch_target e (Br c (rewrite_if_match from to nz) (rewrite_if_match from to z)) = JumpTo (rewrite_if_match from to t)"
    using assms Br by (auto split: option.splits)
  from branch_target_converted [OF this] show ?thesis unfolding Br rewrite_dest.simps Let_def .
next
  case (BrTable sc dflt table)
  have "branch_target e (BrTable sc (map_option (rewrite_if_match from to) dflt)
      (map (\<lambda>(v, b). (v, rewrite_if_match from to b)) table)) = JumpTo (rewrite_if_match from to t)"
    using assms BrTable by (auto simp: find_map_snd split: option.splits)
  from branch_target_converted [OF this] show ?thesis unfolding BrTable rewrite_dest.simps Let_def .
qed (use assms in auto)

lemma branch_target_shrunk:
  assumes "branch_target e brt = JumpTo t"
  shows "branch_target e (case dests brt of [] \<Rightarrow> Unreachable | [d] \<Rightarrow> Jump d | _ \<Rightarrow> brt) = JumpTo t"
  using branch_target_mem [OF assms] assms by (auto split: list.split)

lemma branch_target_remove_dest:
  assumes "branch_target e i = JumpTo t" "t \<noteq> d"
  shows "branch_target e (remove_dest i d) = JumpTo t"
proof (cases i)
  case (BrTable sc dflt table)
  let ?brt = "BrTable sc (if Some d = dflt then None else dflt) (filter (\<lambda>(_, b). b \<noteq> d) table)"
  have "branch_target e ?brt = JumpTo t"
    using assms BrTable by (auto split: option.splits if_splits simp: find_filter_None find_filter_Some)
  from branch_target_shrunk [OF this] show ?thesis unfolding BrTable remove_dest.simps Let_def .
qed (use assms in \<open>auto split: option.splits if_splits\<close>)

section \<open>Arithmetic shifts\<close>

lemma imm_neg_uval:
  assumes "imm_ok a"
  shows "\<exists>r. imm_neg a = Inr r \<and> imm_ok r \<and> imm_ty r = imm_ty a \<and> imm_uval r = (- imm_uval a) mod 2 ^ ty_bits (imm_ty a)"
proof -
  have "imm_neg a = Inr (imm_of_word (imm_ty a) (word_of_int (- imm_sval a)))"
    using imm_unops_word [OF assms] by (simp_all only: imm_word_def wi_hom_neg)
  moreover have "imm_uval (imm_of_word (imm_ty a) (word_of_int (- imm_sval a))) = (- imm_uval a) mod 2 ^ ty_bits (imm_ty a)"
    by (simp only: imm_uval_of_word ty_bits_imm uint_mod_256_mod) (simp add: mod_minus_eq imm_uval_def)
  ultimately show ?thesis by simp
qed

lemma shifted_negative:
  fixes x :: int
  assumes "- (2 ^ 255) \<le> x" and "x < 0" and "k + n \<le> 256"
  shows "(- ((x mod 2 ^ 256) div 2 ^ k)) mod 2 ^ n = (- (x div 2 ^ k)) mod 2 ^ n"
proof -
  have "x mod 2 ^ 256 = (x + 2 ^ 256) mod 2 ^ 256" by simp
  also have "\<dots> = x + 2 ^ 256" using assms(1,2) by (intro mod_pos_pos_trivial) simp_all
  finally have m: "x mod 2 ^ 256 = x + 2 ^ 256" .
  have p: "(2 :: int) ^ 256 = 2 ^ k * (2 ^ n * 2 ^ (256 - k - n))" using assms(3) by (simp add: power_add [symmetric])
  have "(x + 2 ^ 256) div 2 ^ k = x div 2 ^ k + 2 ^ n * 2 ^ (256 - k - n)" unfolding p by simp
  then have "- ((x + 2 ^ 256) div 2 ^ k) = - (x div 2 ^ k) + 2 ^ n * (- (2 ^ (256 - k - n)))" by simp
  then show ?thesis unfolding m by (simp only: mod_mult_self2)
qed

text \<open>C0: the arithmetic right shift of a value that is not negative is the division by the power of two, but that of
  a negative value is the negated result: for an amount that with the width stays within 256 bits, shifting \<open>v\<close> by
  \<open>k\<close> gives \<open>- (v div 2 ^ k)\<close>, so \<open>-8\<close> shifted by one is \<open>4\<close>.\<close>
theorem sar_negates:
  assumes "imm_ok v" and "imm_ok b" and "imm_ty v = imm_ty b" and "env x = EImm b" and "env y = EImm v"
  shows "\<exists>r. pure_eval env (Sar x y) = Inr (EImm r) \<and> imm_ok r \<and> imm_ty r = imm_ty v
    \<and> (0 \<le> imm_sval v \<and> 0 \<le> imm_sval b \<longrightarrow> imm_uval r = imm_sval v div 2 ^ nat (imm_sval b))
    \<and> (imm_sval v < 0 \<and> 0 \<le> imm_sval b \<and> nat (imm_sval b) + ty_bits (imm_ty v) \<le> 256 \<longrightarrow>
         imm_uval r = (- (imm_sval v div 2 ^ nat (imm_sval b))) mod 2 ^ ty_bits (imm_ty v))"
proof -
  let ?W = "if 256 \<le> imm_word b then 0 else drop_bit (unat (imm_word b)) (imm_word v)" and ?ty = "imm_ty v"
  let ?s = "imm_of_word ?ty ?W" and ?k = "nat (imm_sval b)" and ?M = "2 ^ ty_bits (imm_ty v) :: int"
  have r: "- (2 ^ 255) \<le> imm_sval v" "imm_sval v < 2 ^ 255" "imm_sval b < 2 ^ 255"
    using imm_sval_range_256 [OF assms(1)] imm_sval_range_256 [OF assms(2)] by simp_all
  have s: "imm_shr v b = Inr ?s" "imm_ok ?s" "imm_ty ?s = ?ty" using imm_ops_word(8) [OF assms(1-3)] by simp_all
  have us: "imm_uval ?s = ((imm_sval v mod 2 ^ 256) div 2 ^ nat (imm_sval b mod 2 ^ 256)) mod ?M"
    by (simp only: imm_uval_of_word ty_bits_imm drop_bit_imm_sval [OF assms(1,2)])
  have e: "pure_eval env (Sar x y) = to_eval (if imm_is_positive v then Inr ?s else imm_neg ?s)"
    using assms(4,5) s(1) by (simp add: pure_eval_def pure_ops sar_imm_def)
  from imm_neg_uval [OF s(2)] obtain n where n: "imm_neg ?s = Inr n" "imm_ok n" "imm_ty n = ?ty" "imm_uval n = (- imm_uval ?s) mod ?M"
    using s(3) by auto
  have kb: "imm_sval b mod 2 ^ 256 = imm_sval b" if "0 \<le> imm_sval b" using that r(3) by (intro mod_pos_pos_trivial) simp_all
  have pos: "imm_is_positive v \<longleftrightarrow> 0 < imm_sval v"
  proof -
    note a = as_i256_int [OF assms(1)]
    have "i256_is_zero (as_i256 v) \<longleftrightarrow> imm_sval v = 0" using a i256_int_eq_0 [of "as_i256 v"] by simp
    moreover have e: "imm_sval v = (if neg_flag (as_i256 v) then - uint (mag (as_i256 v)) else uint (mag (as_i256 v)))"
      using a by (simp add: i256_int_def)
    have "neg_flag (as_i256 v) \<longrightarrow> imm_sval v \<le> 0" "\<not> neg_flag (as_i256 v) \<longrightarrow> 0 \<le> imm_sval v"
      by (simp_all add: e)
    ultimately show ?thesis by (auto simp: imm_is_positive_def i256_is_positive_def i256_ok_def)
  qed
  have nn: "imm_uval ?s = imm_sval v div 2 ^ ?k" if "0 \<le> imm_sval v" "0 \<le> imm_sval b"
  proof -
    have "imm_sval v mod 2 ^ 256 = imm_sval v" using that(1) r(2) by (intro mod_pos_pos_trivial) simp_all
    moreover have "imm_sval v div 2 ^ ?k \<le> imm_sval v" using that(1) div_by_1 zdiv_mono2 [of "imm_sval v" 1 "2 ^ ?k"] by simp
    moreover have "imm_sval v < ?M" using imm_sval_range [OF assms(1)] half_width [OF ty_bits_imm(1) [of v]] by simp
    ultimately show ?thesis using us kb [OF that(2)] that(1) by (simp add: pos_imp_zdiv_nonneg_iff)
  qed
  show ?thesis
  proof (cases "imm_is_positive v")
    case True
    with e s(2,3) nn pos show ?thesis by (intro exI [of _ ?s]) (simp add: to_eval_def)
  next
    case False
    have "imm_uval n = imm_sval v div 2 ^ ?k" if "0 \<le> imm_sval v" "0 \<le> imm_sval b"
      using nn [OF that] n(4) False pos that by simp
    moreover have "imm_uval n = (- (imm_sval v div 2 ^ ?k)) mod ?M"
      if "imm_sval v < 0" "0 \<le> imm_sval b" "?k + ty_bits ?ty \<le> 256"
      using shifted_negative [OF r(1) that(1,3)] n(4) us kb [OF that(2)] by (simp add: mod_minus_eq)
    ultimately show ?thesis using e n(1-3) False by (intro exI [of _ n]) (simp add: to_eval_def)
  qed
qed

theorem sar_negates_witness:
  "\<exists>r. pure_eval (\<lambda>v. EImm (if v = 0 then Imm_I8 1 else Imm_I8 (- 8))) (Sar 0 1) = Inr (EImm r) \<and> imm_uval r = 4"
proof -
  have ok: "imm_ok (Imm_I8 (- 8))" "imm_ok (Imm_I8 1)" "imm_ty (Imm_I8 (- 8)) = imm_ty (Imm_I8 1)" by (simp_all add: imm_ok_def)
  from sar_negates [OF ok, where env = "\<lambda>v. EImm (if v = 0 then Imm_I8 1 else Imm_I8 (- 8))" and x = 0 and y = 1]
  show ?thesis by auto
qed

end
