(* ===== verification/Iteration.thy ===== *)
theory Iteration
  imports EdgePlan
begin

text \<open>
  \<open>stackalloc/stackify/iteration.rs\<close> and \<open>alloc.rs\<close>: one pass of the stack planner over the blocks of a
  function, given the entry templates. For every instruction it cleans up dead values, prepares the
  operands, tracks the remaining uses and stores spilled results. The observer of the code only traces
  and is left out.
\<close>

section \<open>Result of the pass\<close>

record StackifyAlloc =
  pre_actions :: "InstId \<Rightarrow> Actions"
  post_actions :: "InstId \<Rightarrow> Actions"
  brtable_actions :: "InstId \<times> ValueId \<times> ValueId \<Rightarrow> Actions option"
  al_spill_obj :: "ValueId \<Rightarrow> nat option"
  scratch_slot_of_value :: "ValueId \<Rightarrow> nat option"

fun enter_args :: "StackifyAlloc \<Rightarrow> nat \<Rightarrow> ValueId list \<Rightarrow> fault + Actions" where
  "enter_args al idx [] = Inr []"
| "enter_args al idx (arg # args) =
     rbind (assert_that (idx < DUP_MAX) ''function arg depth exceeds DUP16 reach'') (\<lambda>_.
     rbind (case scratch_slot_of_value al arg of
              Some slot \<Rightarrow> rbind (slot_offset slot) (\<lambda>off. Inr [StackDup idx, MemStoreAbs off])
            | None \<Rightarrow> Inr (case al_spill_obj al arg of Some ob \<Rightarrow> [StackDup idx, MemStoreObj ob] | None \<Rightarrow> [])) (\<lambda>act.
     rbind (enter_args al (Suc idx) args) (\<lambda>acts. Inr (act @ acts))))"

definition enter_function :: "StackifyAlloc \<Rightarrow> Function \<Rightarrow> fault + Actions" where
  "enter_function al func = enter_args al 0 (arg_values func)"

definition al_read :: "StackifyAlloc \<Rightarrow> InstId \<Rightarrow> ValueId list \<Rightarrow> Actions" where
  "al_read al i vals = (case vals of
       [scrutinee, case_val] \<Rightarrow> (case brtable_actions al (i, scrutinee, case_val) of Some act \<Rightarrow> act | None \<Rightarrow> pre_actions al i)
     | _ \<Rightarrow> pre_actions al i)"

definition al_write :: "StackifyAlloc \<Rightarrow> InstId \<Rightarrow> Actions" where
  "al_write al i = post_actions al i"

section \<open>State\<close>

record Iter =
  it_spill :: SpillSet
  it_requests :: "ValueId set"
  it_slots :: SlotPool
  it_alloc :: StackifyAlloc
  inherited_stack :: "BlockId \<Rightarrow> (BlockId \<times> SymStack) option"

record BlockPlanState =
  ps_block :: BlockId
  ps_free :: FreeSlots
  prologue :: Actions
  injected_prologue :: bool
  remaining_uses :: "ValueId \<Rightarrow> nat option"
  live_future :: "ValueId set"
  live_out :: "ValueId set"
  ps_stack :: SymStack

datatype InstOutcome = ContinueBlock | TerminateBlock

text \<open>\<open>with_planner\<close>: a planner over the shared state, appending to given actions.\<close>

definition mem_plan_of :: "FreeSlots \<Rightarrow> Iter \<Rightarrow> MemPlan" where
  "mem_plan_of free it = \<lparr>mp_spill = \<lparr>spill = it_spill it, spill_requests = it_requests it\<rparr>,
     spill_obj = al_spill_obj (it_alloc it), free_slots = free, slots = it_slots it\<rparr>"

definition with_planner :: "(Planner \<Rightarrow> fault + ('r \<times> Planner)) \<Rightarrow> SymStack \<Rightarrow> Actions \<Rightarrow> FreeSlots \<Rightarrow> Iter
    \<Rightarrow> fault + ('r \<times> SymStack \<times> Actions \<times> FreeSlots \<times> Iter)" where
  "with_planner f s actions free it =
     rbind (f \<lparr>p_stack = s, p_actions = actions, p_mem = mem_plan_of free it\<rparr>) (\<lambda>(r, pl).
       Inr (r, p_stack pl, p_actions pl, free_slots (p_mem pl),
            it\<lparr>it_requests := spill_requests (mp_spill (p_mem pl)), it_slots := slots (p_mem pl)\<rparr>))"

definition no_result :: "('a \<Rightarrow> fault + 'a) \<Rightarrow> 'a \<Rightarrow> fault + (unit \<times> 'a)" where
  "no_result f pl = rbind (f pl) (\<lambda>pl. Inr ((), pl))"

definition set_pre :: "InstId \<Rightarrow> Actions \<Rightarrow> Iter \<Rightarrow> Iter" where
  "set_pre i acts it = it\<lparr>it_alloc := (it_alloc it)\<lparr>pre_actions := (pre_actions (it_alloc it))(i := acts)\<rparr>\<rparr>"

definition set_post :: "InstId \<Rightarrow> Actions \<Rightarrow> Iter \<Rightarrow> Iter" where
  "set_post i acts it = it\<lparr>it_alloc := (it_alloc it)\<lparr>post_actions := (post_actions (it_alloc it))(i := acts)\<rparr>\<rparr>"

definition with_pre_actions_planner :: "InstId \<Rightarrow> (Planner \<Rightarrow> fault + ('r \<times> Planner)) \<Rightarrow> BlockPlanState \<times> Iter
    \<Rightarrow> fault + ('r \<times> BlockPlanState \<times> Iter)" where
  "with_pre_actions_planner i f = (\<lambda>(st, it).
     rbind (with_planner f (ps_stack st) (pre_actions (it_alloc it) i) (ps_free st) it) (\<lambda>(r, s, acts, free, it).
       Inr (r, st\<lparr>ps_stack := s, ps_free := free\<rparr>, set_pre i acts it)))"

definition with_post_actions_planner :: "InstId \<Rightarrow> (Planner \<Rightarrow> fault + ('r \<times> Planner)) \<Rightarrow> BlockPlanState \<times> Iter
    \<Rightarrow> fault + ('r \<times> BlockPlanState \<times> Iter)" where
  "with_post_actions_planner i f = (\<lambda>(st, it).
     rbind (with_planner f (ps_stack st) (post_actions (it_alloc it) i) (ps_free st) it) (\<lambda>(r, s, acts, free, it).
       Inr (r, st\<lparr>ps_stack := s, ps_free := free\<rparr>, set_post i acts it)))"

text \<open>An operation on the stack of the block that appends to the actions before an instruction.\<close>

definition on_pre :: "InstId \<Rightarrow> (planned \<Rightarrow> fault + planned) \<Rightarrow> BlockPlanState \<times> Iter \<Rightarrow> fault + (BlockPlanState \<times> Iter)" where
  "on_pre i f = (\<lambda>(st, it). rbind (f (ps_stack st, pre_actions (it_alloc it) i)) (\<lambda>(s, acts).
     Inr (st\<lparr>ps_stack := s\<rparr>, set_pre i acts it)))"

section \<open>Uses\<close>

fun bump :: "ValueId list \<Rightarrow> (ValueId \<Rightarrow> nat option) \<Rightarrow> ValueId \<Rightarrow> nat option" where
  "bump [] counts = counts"
| "bump (v # vs) counts = bump vs (counts(v \<mapsto> (case counts v of None \<Rightarrow> 0 | Some n \<Rightarrow> n) + 1))"

fun non_imms :: "DataFlowGraph \<Rightarrow> ValueId list \<Rightarrow> fault + ValueId list" where
  "non_imms d [] = Inr []"
| "non_imms d (v # vs) = rbind (value_is_imm d v) (\<lambda>imm. rbind (non_imms d vs) (\<lambda>ws. Inr (if imm then ws else v # ws)))"

fun count_uses :: "DataFlowGraph \<Rightarrow> InstId list \<Rightarrow> (ValueId \<Rightarrow> nat option) \<Rightarrow> fault + (ValueId \<Rightarrow> nat option)" where
  "count_uses d [] counts = Inr counts"
| "count_uses d (i # js) counts = rbind (is_phi d i) (\<lambda>phi.
     if phi then count_uses d js counts
     else rbind (get_inst d i) (\<lambda>data. rbind (non_imms d (values_of data)) (\<lambda>vs. count_uses d js (bump vs counts))))"

definition count_block_uses :: "Function \<Rightarrow> BlockId \<Rightarrow> fault + ((ValueId \<Rightarrow> nat option) \<times> ValueId set)" where
  "count_block_uses func block = rbind (insts_of func block) (\<lambda>js.
     rbind (count_uses (f_dfg func) js Map.empty) (\<lambda>counts. Inr (counts, dom counts)))"

definition operand_order_for_evm :: "Function \<Rightarrow> InstId \<Rightarrow> fault + ValueId list" where
  "operand_order_for_evm func i = rbind (get_inst (f_dfg func) i) (\<lambda>data.
     rbind (is_call (f_dfg func) i) (\<lambda>call. Inr (if call then rotate1 (values_of data) else values_of data)))"

definition last_use_values_in_inst :: "Function \<Rightarrow> ValueId list \<Rightarrow> (ValueId \<Rightarrow> nat option) \<Rightarrow> ValueId set \<Rightarrow> fault + ValueId set" where
  "last_use_values_in_inst func args uses outs = rbind (non_imms (f_dfg func) args) (\<lambda>vs.
     Inr {v \<in> set vs. (case uses v of None \<Rightarrow> 0 | Some n \<Rightarrow> n) = count_list vs v \<and> v \<notin> outs})"

section \<open>Cleaning up\<close>

function pop_dead_tops :: "(ValueId \<Rightarrow> bool) \<Rightarrow> planned \<Rightarrow> fault + planned" where
  "pop_dead_tops live p = (case fst p of
       Value v # _ \<Rightarrow> if live v then Inr p else rbind (stk_pop p) (pop_dead_tops live)
     | _ \<Rightarrow> Inr p)"
  by pat_completeness auto
termination
  by (relation "measure (\<lambda>(live, p). length (fst p))") (auto simp: stk_pop_def pop_operand_def split: list.splits prod.splits StackItem.splits)

declare pop_dead_tops.simps [simp del]

text \<open>
  The top value is sunk below a run of dead values in chunks. A reach of one would make the chunks empty
  and the loop endless, which the constructor of the reach excludes.
\<close>

function sink_top :: "StackifyReachability \<Rightarrow> nat \<Rightarrow> planned \<Rightarrow> fault + planned" where
  "sink_top rc remaining p =
     (if remaining = 0 then Inr p
      else let swap_depth = min remaining (swap_max rc - 1) in
        if swap_depth = 0 then Inl Out_of_fuel
        else rbind (stk_swap swap_depth p) (\<lambda>p. rbind (stk_pop_n swap_depth p) (sink_top rc (remaining - swap_depth))))"
  by pat_completeness auto
termination
  by (relation "measure (\<lambda>(r, n, p). n)") auto

declare sink_top.simps [simp del]

definition dead_item :: "(ValueId \<Rightarrow> bool) \<Rightarrow> StackItem \<Rightarrow> bool" where
  "dead_item live i = (case i of Value v \<Rightarrow> \<not> live v | _ \<Rightarrow> False)"

lemma dead_item_simps [simp]:
  "dead_item live (Value v) \<longleftrightarrow> \<not> live v" "\<not> dead_item live FuncRetAddr" "\<not> dead_item live CallRetAddr"
  by (simp_all add: dead_item_def)

lemma sink_top_cases:
  assumes "sink_top rc n p = Inr p'" and "n \<noteq> 0"
  obtains d p1 p2 where "d = min n (swap_max rc - 1)" "d \<noteq> 0" "stk_swap d p = Inr p1" "stk_pop_n d p1 = Inr p2" "sink_top rc (n - d) p2 = Inr p'"
proof -
  define d where "d = min n (swap_max rc - 1)"
  from assms have "d \<noteq> 0 \<and> (\<exists>p1 p2. stk_swap d p = Inr p1 \<and> stk_pop_n d p1 = Inr p2 \<and> sink_top rc (n - d) p2 = Inr p')"
    unfolding sink_top.simps [of rc n p] Let_def d_def [symmetric] by (cases "d = 0") auto
  then show ?thesis using that d_def by blast
qed

lemma sink_top_length: "sink_top rc n p = Inr p' \<Longrightarrow> length (fst p) = length (fst p') + n"
proof (induction n arbitrary: p rule: less_induct)
  case (less n)
  show ?case
  proof (cases "n = 0")
    case True
    with less.prems show ?thesis by (simp add: sink_top.simps)
  next
    case False
    from less.prems False obtain d p1 p2 where d: "d = min n (swap_max rc - 1)" "d \<noteq> 0"
      and s: "stk_swap d p = Inr p1" "stk_pop_n d p1 = Inr p2" "sink_top rc (n - d) p2 = Inr p'" by (rule sink_top_cases)
    have "n - d < n" "d \<le> n" using d by auto
    with less.IH [OF this(1) s(3)] stk_swap_length [OF s(1)] stk_pop_n_length [OF s(2)] show ?thesis by simp
  qed
qed

lemma stk_pop_length_Suc: "stk_pop p = Inr p' \<Longrightarrow> length (fst p) = Suc (length (fst p'))"
  using stk_pop_n_length [of 1 p p'] by simp

lemma pop_dead_tops_cases:
  assumes "pop_dead_tops live p = Inr p'"
  obtains "p' = p" "\<And>v s. fst p = Value v # s \<Longrightarrow> live v"
  | v s p1 where "fst p = Value v # s" "\<not> live v" "stk_pop p = Inr p1" "pop_dead_tops live p1 = Inr p'"
proof (cases "\<exists>v s. fst p = Value v # s \<and> \<not> live v")
  case True
  then obtain v s where v: "fst p = Value v # s" "\<not> live v" by blast
  with assms have "\<exists>p1. stk_pop p = Inr p1 \<and> pop_dead_tops live p1 = Inr p'" unfolding pop_dead_tops.simps [of live p] by simp
  with v that(2) show ?thesis by blast
next
  case False
  with assms have "p' = p" unfolding pop_dead_tops.simps [of live p] by (auto split: list.splits StackItem.splits)
  with False that(1) show ?thesis by blast
qed

lemma pop_dead_tops_length: "pop_dead_tops live p = Inr p' \<Longrightarrow> length (fst p') \<le> length (fst p)"
proof (induction "length (fst p)" arbitrary: p)
  case 0
  then show ?case by (auto elim: pop_dead_tops_cases)
next
  case (Suc n)
  from Suc.prems show ?case
  proof (cases rule: pop_dead_tops_cases)
    case (2 v s p1)
    with Suc.hyps(1) [of p1] Suc.hyps(2) stk_pop_length_Suc [OF 2(3)] show ?thesis by simp
  qed simp
qed

lemma pop_dead_tops_live: "pop_dead_tops live p = Inr p' \<Longrightarrow> fst p' = Value v # s \<Longrightarrow> live v"
proof (induction "length (fst p)" arbitrary: p)
  case 0
  then show ?case by (auto elim: pop_dead_tops_cases)
next
  case (Suc n)
  from Suc.prems(1) show ?case
  proof (cases rule: pop_dead_tops_cases)
    case 1
    with Suc.prems(2) show ?thesis by simp
  next
    case (2 w t p1)
    with Suc.hyps(1) [of p1] Suc.hyps(2) stk_pop_length_Suc [OF 2(3)] Suc.prems(2) show ?thesis by simp
  qed
qed

function clean_dead_stack_prefix :: "StackifyReachability \<Rightarrow> (ValueId \<Rightarrow> bool) \<Rightarrow> planned \<Rightarrow> fault + planned" where
  "clean_dead_stack_prefix rc live p =
     rbind (pop_dead_tops live p) (\<lambda>q.
     case fst q of
       Value t # below \<Rightarrow>
         if \<not> live t then clean_dead_stack_prefix rc live q
         else
           let dead_run = length (takeWhile (dead_item live) below) in
           if dead_run = 0 then Inr q
           else rbind (sink_top rc dead_run q) (\<lambda>r.
             if length (fst r) = length (fst p) then Inr r else clean_dead_stack_prefix rc live r)
     | _ \<Rightarrow> Inr q)"
  by pat_completeness auto
termination
proof (relation "measure (\<lambda>(rc, live, p). length (fst p))", goal_cases)
  case (2 rc live p q)
  then show ?case using pop_dead_tops_live by blast
next
  case (3 rc live p q)
  then show ?case by (auto dest!: sink_top_length pop_dead_tops_length simp: Let_def)
qed simp

declare clean_dead_stack_prefix.simps [simp del]

section \<open>Bringing operands into reach\<close>

definition shrink_len :: "8 word list \<Rightarrow> fault + nat" where
  "shrink_len bytes =
     rbind (assert_that (bytes \<noteq> []) ''!bytes.is_empty()'') (\<lambda>_.
       let is_neg = bit (bytes ! 0) 7;
           skip = (if is_neg then 255 else 0);
           idx = length (takeWhile (\<lambda>b. b = skip) bytes);
           len = (if length bytes - idx = 0 then 1 else length bytes - idx)
       in Inr (if is_neg \<and> (if idx < length bytes then bytes ! idx else 255) < 128 then len + 1 else len))"

definition imm_push_data_len :: "Immediate \<Rightarrow> fault + nat" where
  "imm_push_data_len imm =
     (if imm_is_zero imm then Inr 0
      else case imm of
        Imm_I1 v \<Rightarrow> Inr (if v then 1 else 0)
      | Imm_I8 v \<Rightarrow> shrink_len (be_bytes 1 (ucast v))
      | Imm_I16 v \<Rightarrow> shrink_len (be_bytes 2 (ucast v))
      | Imm_I32 v \<Rightarrow> shrink_len (be_bytes 4 (ucast v))
      | Imm_I64 v \<Rightarrow> shrink_len (be_bytes 8 (ucast v))
      | Imm_I128 v \<Rightarrow> shrink_len (be_bytes 16 (ucast v))
      | Imm_I256 v \<Rightarrow> rbind (to_u256 v) (\<lambda>w. shrink_len (be_bytes 32 w)))"

definition is_evictable_imm :: "Function \<Rightarrow> ValueId \<Rightarrow> fault + bool" where
  "is_evictable_imm func v = rbind (value_imm (f_dfg func) v) (\<lambda>x. case x of
       None \<Rightarrow> Inr False
     | Some imm \<Rightarrow> rbind (imm_push_data_len imm) (\<lambda>n. Inr (n \<le> 2)))"

text \<open>The first value of a list of items that a test accepts, by position.\<close>

fun find_item :: "(nat \<Rightarrow> ValueId \<Rightarrow> fault + bool) \<Rightarrow> nat \<Rightarrow> StackItem list \<Rightarrow> fault + nat option" where
  "find_item t idx [] = Inr None"
| "find_item t idx (Value v # js) = rbind (t idx v) (\<lambda>b. if b then Inr (Some idx) else find_item t (Suc idx) js)"
| "find_item t idx (_ # js) = find_item t (Suc idx) js"

definition or_else :: "fault + 'a option \<Rightarrow> (unit \<Rightarrow> fault + 'a option) \<Rightarrow> fault + 'a option" where
  "or_else a b = rbind a (\<lambda>x. case x of Some y \<Rightarrow> Inr (Some y) | None \<Rightarrow> b ())"

definition choose_reachability_victim :: "Function \<Rightarrow> SymStack \<Rightarrow> nat \<Rightarrow> ValueId set \<Rightarrow> StackifyReachability \<Rightarrow> (ValueId \<Rightarrow> bool) \<Rightarrow> fault + nat option" where
  "choose_reachability_victim func s depth_above protected_args rc live =
     (let window = take (min depth_above (min (len_above_func_ret s) (swap_max rc))) s in
      or_else (find_item (\<lambda>i v. Inr (v \<notin> protected_args \<and> \<not> live v)) 0 window) (\<lambda>_.
      or_else (find_item (\<lambda>i v. if v \<in> protected_args then Inr False
          else rbind (value_is_imm (f_dfg func) v) (\<lambda>imm. if imm then is_evictable_imm func v else Inr False)) 0 window) (\<lambda>_.
      find_item (\<lambda>i v. Inr (v \<notin> protected_args \<and> Value v \<in> set (take i window))) 0 window)))"

definition out_of_reach :: "StackifyReachability \<Rightarrow> SymStack \<Rightarrow> ValueId \<Rightarrow> nat option" where
  "out_of_reach rc s arg = (if find_reachable_value arg (dup_max rc) s = None then find_reachable_value arg 20 s else None)"

fun find_victim :: "Function \<Rightarrow> SymStack \<Rightarrow> ValueId set \<Rightarrow> StackifyReachability \<Rightarrow> (ValueId \<Rightarrow> bool) \<Rightarrow> ValueId list \<Rightarrow> fault + nat option" where
  "find_victim func s protected_args rc live [] = Inr None"
| "find_victim func s protected_args rc live (arg # args) =
     (case out_of_reach rc s arg of
        Some pos \<Rightarrow> or_else (choose_reachability_victim func s pos protected_args rc live)
          (\<lambda>_. find_victim func s protected_args rc live args)
      | None \<Rightarrow> find_victim func s protected_args rc live args)"

primrec improve_loop :: "nat \<Rightarrow> Function \<Rightarrow> ValueId list \<Rightarrow> StackifyReachability \<Rightarrow> (ValueId \<Rightarrow> bool) \<Rightarrow> planned \<Rightarrow> fault + planned" where
  "improve_loop 0 func args rc live p = Inr p"
| "improve_loop (Suc n) func args rc live p =
     rbind (find_victim func (fst p) (set args) rc live args) (\<lambda>victim. case victim of
       None \<Rightarrow> Inr p
     | Some victim \<Rightarrow> rbind (stable_delete_at_depth (victim + 1) p) (improve_loop n func args rc live))"

text \<open>\<open>MAX_DELETIONS\<close> is 8. The operands that are immediates are skipped in every loop.\<close>

definition improve_reachability_before_operands :: "Function \<Rightarrow> ValueId list \<Rightarrow> StackifyReachability \<Rightarrow> (ValueId \<Rightarrow> bool) \<Rightarrow> planned \<Rightarrow> fault + planned" where
  "improve_reachability_before_operands func args rc live p =
     rbind (non_imms (f_dfg func) args) (\<lambda>args.
       if list_ex (\<lambda>arg. out_of_reach rc (fst p) arg \<noteq> None) args
       then improve_loop 8 func args rc live p else Inr p)"

section \<open>Instructions\<close>

abbreviation live_in_state :: "BlockPlanState \<Rightarrow> ValueId \<Rightarrow> bool" where
  "live_in_state st v \<equiv> v \<in> live_future st \<or> v \<in> live_out st"

definition inject_prologue :: "InstId \<Rightarrow> BlockPlanState \<times> Iter \<Rightarrow> BlockPlanState \<times> Iter" where
  "inject_prologue i = (\<lambda>(st, it).
     if prologue st \<noteq> [] \<and> \<not> injected_prologue st
     then (st\<lparr>injected_prologue := True\<rparr>, set_pre i (pre_actions (it_alloc it) i @ prologue st) it) else (st, it))"

text \<open>The uses an instruction consumes; a slot is released at the last use of its value.\<close>

fun consume_uses :: "DataFlowGraph \<Rightarrow> SlotPool \<Rightarrow> ValueId list \<Rightarrow> BlockPlanState \<Rightarrow> fault + BlockPlanState" where
  "consume_uses d pool [] st = Inr st"
| "consume_uses d pool (v # vs) st = rbind (value_is_imm d v) (\<lambda>imm.
     if imm then consume_uses d pool vs st
     else case remaining_uses st v of
       None \<Rightarrow> consume_uses d pool vs st
     | Some before \<Rightarrow>
         let st = st\<lparr>remaining_uses := (remaining_uses st)(v \<mapsto> before - 1)\<rparr>
         in if before \<noteq> 0 \<and> before - 1 = 0 then
              let st = st\<lparr>live_future := live_future st - {v}\<rparr>
              in consume_uses d pool vs (if v \<in> live_out st then st else st\<lparr>ps_free := release_if_assigned v pool (ps_free st)\<rparr>)
            else consume_uses d pool vs st)"

definition push_result :: "StackifyContext \<Rightarrow> InstId \<Rightarrow> BlockPlanState \<times> Iter \<Rightarrow> fault + (BlockPlanState \<times> Iter)" where
  "push_result ctx i = (\<lambda>(st, it). case inst_result (c_dfg ctx) i of
       None \<Rightarrow> Inr (st, it)
     | Some res \<Rightarrow>
         let st = st\<lparr>ps_stack := push_value res (ps_stack st)\<rparr>
         in if live_in_state st res
            then rbind (with_post_actions_planner i (no_result (emit_store_if_spilled ctx res)) (st, it)) (\<lambda>(u, r). Inr r)
            else Inr (st, it))"

definition plan_normal :: "StackifyContext \<Rightarrow> InstId \<Rightarrow> bool \<Rightarrow> ValueId list \<Rightarrow> ValueId set \<Rightarrow> BlockPlanState \<times> Iter \<Rightarrow> fault + (BlockPlanState \<times> Iter)" where
  "plan_normal ctx i call args consume_last_use sti =
     rbind (with_pre_actions_planner i (prepare_operands_for_inst ctx i args consume_last_use) sti) (\<lambda>(args, sti).
     rbind (if call then on_pre i (\<lambda>p. position_call_ret_below_operands (length args) (push_call_continuation p)) sti else Inr sti) (\<lambda>(st, it).
     rbind (consume_uses (c_dfg ctx) (it_slots it) args st) (\<lambda>st.
     rbind (pop_n_operands (length args) (ps_stack st)) (\<lambda>s.
     rbind (if call then remove_call_ret_addr s else Inr s) (\<lambda>s.
       push_result ctx i (st\<lparr>ps_stack := s\<rparr>, it))))))"

fun inherit :: "StackifyContext \<Rightarrow> BlockId \<Rightarrow> SymStack \<Rightarrow> BlockId list \<Rightarrow> Iter \<Rightarrow> fault + Iter" where
  "inherit ctx block s [] it = Inr it"
| "inherit ctx block s (succ # bs) it =
     rbind (assert_that (pred_num_of (c_cfg ctx) succ = 1) ''no critical edges'') (\<lambda>_.
       inherit ctx block s bs (it\<lparr>inherited_stack := (inherited_stack it)(succ :=
         (case inherited_stack it succ of Some x \<Rightarrow> Some x | None \<Rightarrow> Some (block, s)))\<rparr>))"

text \<open>The compare sequences of a \<open>br_table\<close>; the first also carries the actions collected so far.\<close>

fun plan_cases :: "StackifyContext \<Rightarrow> InstId \<Rightarrow> ValueId \<Rightarrow> Actions \<Rightarrow> (ValueId \<times> BlockId) list \<Rightarrow> BlockPlanState \<times> Iter \<Rightarrow> fault + (BlockPlanState \<times> Iter)" where
  "plan_cases ctx i scrutinee base [] sti = Inr sti"
| "plan_cases ctx i scrutinee base ((case_val, dest) # cases) (st, it) =
     rbind (with_planner (no_result (prepare_operands ctx [scrutinee, case_val] {})) (ps_stack st) base (ps_free st) it) (\<lambda>(u, s, acts, free, it).
     rbind (inherit ctx (ps_block st) (ps_stack st) [dest]
              (it\<lparr>it_alloc := (it_alloc it)\<lparr>brtable_actions := (brtable_actions (it_alloc it))((i, scrutinee, case_val) \<mapsto> acts)\<rparr>\<rparr>)) (\<lambda>it.
       plan_cases ctx i scrutinee [] cases (st\<lparr>ps_free := free\<rparr>, it)))"

fun plan_branch :: "StackifyContext \<Rightarrow> (BlockId \<Rightarrow> BlockTemplate) \<Rightarrow> InstId \<Rightarrow> inst \<Rightarrow> BlockPlanState \<times> Iter \<Rightarrow> fault + (BlockPlanState \<times> Iter)" where
  "plan_branch ctx templates i (Jump dest) (st, it) =
     rbind (with_pre_actions_planner i (no_result (plan_edge_fixup ctx templates (ps_block st) dest)) (st, it)) (\<lambda>(u, sti). Inr sti)"
| "plan_branch ctx templates i (Br cond nz z) (st, it) =
     rbind (last_use_values_in_inst (c_func ctx) [cond] (remaining_uses st) (live_out st)) (\<lambda>consume_last_use.
     rbind (on_pre i (improve_reachability_before_operands (c_func ctx) [cond] (reach ctx) (live_in_state st)) (st, it)) (\<lambda>sti.
     rbind (with_pre_actions_planner i (no_result (prepare_operands ctx [cond] consume_last_use)) sti) (\<lambda>(u, st, it).
     rbind (pop_operand (ps_stack st)) (\<lambda>s.
     rbind (inherit ctx (ps_block st) s [nz, z] it) (\<lambda>it. Inr (st, it))))))"
| "plan_branch ctx templates i (BrTable scrutinee dflt table) (st, it) =
     rbind (on_pre i (improve_reachability_before_operands (c_func ctx) [scrutinee] (reach ctx) (live_in_state st)) (st, it)) (\<lambda>(st, it).
     rbind (plan_cases ctx i scrutinee (pre_actions (it_alloc it) i) table (st, set_pre i [] it)) (\<lambda>(st, it).
     rbind (inherit ctx (ps_block st) (ps_stack st) (case dflt of Some d \<Rightarrow> [d] | None \<Rightarrow> []) it) (\<lambda>it. Inr (st, it))))"
| "plan_branch ctx templates i _ sti = Inr sti"

definition plan_inst :: "StackifyContext \<Rightarrow> (BlockId \<Rightarrow> BlockTemplate) \<Rightarrow> InstId \<Rightarrow> BlockPlanState \<times> Iter \<Rightarrow> fault + (InstOutcome \<times> BlockPlanState \<times> Iter)" where
  "plan_inst ctx templates i sti =
     (let (st, it) = inject_prologue i sti in
      rbind (is_call (c_dfg ctx) i) (\<lambda>call.
      rbind (branch_info (c_dfg ctx) i) (\<lambda>branch.
      rbind (is_return (c_dfg ctx) i) (\<lambda>ret.
      let normal = (branch = None \<and> \<not> ret) in
      rbind (if normal then operand_order_for_evm (c_func ctx) i else Inr []) (\<lambda>args.
      rbind (if normal then last_use_values_in_inst (c_func ctx) args (remaining_uses st) (live_out st) else Inr {}) (\<lambda>consume_last_use.
      rbind (on_pre i (clean_dead_stack_prefix (reach ctx) (live_in_state st)) (st, it)) (\<lambda>sti.
      rbind (if normal then on_pre i (improve_reachability_before_operands (c_func ctx) args (reach ctx) (live_in_state st)) sti else Inr sti) (\<lambda>sti.
      case branch of
        Some data \<Rightarrow> rbind (plan_branch ctx templates i data sti) (\<lambda>sti. Inr (TerminateBlock, sti))
      | None \<Rightarrow>
          if ret then rbind (with_pre_actions_planner i (no_result (plan_internal_return ctx i)) sti) (\<lambda>(u, sti). Inr (TerminateBlock, sti))
          else rbind (plan_normal ctx i call args consume_last_use sti) (\<lambda>sti. Inr (ContinueBlock, sti))))))))))"

section \<open>Blocks\<close>

fun plan_insts :: "StackifyContext \<Rightarrow> (BlockId \<Rightarrow> BlockTemplate) \<Rightarrow> InstId list \<Rightarrow> BlockPlanState \<times> Iter \<Rightarrow> fault + (BlockPlanState \<times> Iter)" where
  "plan_insts ctx templates [] sti = Inr sti"
| "plan_insts ctx templates (i # js) sti = rbind (is_phi (c_dfg ctx) i) (\<lambda>phi.
     if phi then plan_insts ctx templates js sti
     else rbind (plan_inst ctx templates i sti) (\<lambda>(outcome, sti).
       if outcome = TerminateBlock then Inr sti else plan_insts ctx templates js sti))"

definition entry_of_block :: "StackifyContext \<Rightarrow> (BlockId \<Rightarrow> BlockTemplate) \<Rightarrow> BlockId \<Rightarrow> Iter \<Rightarrow> fault + (SymStack \<times> Actions \<times> FreeSlots \<times> Iter)" where
  "entry_of_block ctx templates block it = (case inherited_stack it block of
       Some (pred, inh) \<Rightarrow>
         let it = it\<lparr>inherited_stack := (inherited_stack it)(block := None)\<rparr> in
         if block = c_entry ctx then Inr (inh, [], {}, it)
         else rbind (assert_that (pred_num_of (c_cfg ctx) block = 1) ''inherited stack implies single-predecessor block'') (\<lambda>_.
              rbind (with_planner (no_result (plan_edge_fixup ctx templates pred block)) inh [] {} it) (\<lambda>(u, r). Inr r))
     | None \<Rightarrow> Inr (from_template (templates block) (has_internal_return ctx), [], {}, it))"

definition plan_block :: "StackifyContext \<Rightarrow> (BlockId \<Rightarrow> BlockTemplate) \<Rightarrow> BlockId \<Rightarrow> Iter \<Rightarrow> fault + Iter" where
  "plan_block ctx templates block it =
     rbind (count_block_uses (c_func ctx) block) (\<lambda>(uses, future).
     rbind (entry_of_block ctx templates block it) (\<lambda>(s, pro, free, it).
     rbind (insts_of (c_func ctx) block) (\<lambda>js.
     rbind (plan_insts ctx templates js
       (\<lparr>ps_block = block, ps_free = free, prologue = pro, injected_prologue = False, remaining_uses = uses, live_future = future,
         live_out = block_live_outs ctx block \<union> phi_out_sources ctx block, ps_stack = s\<rparr>, it)) (\<lambda>(st, it).
     if prologue st \<noteq> [] \<and> \<not> injected_prologue st then
       rbind (last_inst_of (f_layout (c_func ctx)) block) (\<lambda>term. case term of
         Some term \<Rightarrow> Inr (set_pre term (pre_actions (it_alloc it) term @ prologue st) it)
       | None \<Rightarrow> Inr it)
     else Inr it))))"

fun plan_block_list :: "StackifyContext \<Rightarrow> (BlockId \<Rightarrow> BlockTemplate) \<Rightarrow> BlockId list \<Rightarrow> Iter \<Rightarrow> fault + Iter" where
  "plan_block_list ctx templates [] it = Inr it"
| "plan_block_list ctx templates (b # bs) it =
     (if b \<noteq> c_entry ctx \<and> \<not> dom_reachable ctx b then plan_block_list ctx templates bs it
      else rbind (plan_block ctx templates b it) (plan_block_list ctx templates bs))"

definition plan_blocks :: "StackifyContext \<Rightarrow> (BlockId \<Rightarrow> BlockTemplate) \<Rightarrow> Iter \<Rightarrow> fault + Iter" where
  "plan_blocks ctx templates = plan_block_list ctx templates (dom_rpo ctx)"

text \<open>\<open>assign_spill_obj_ids\<close>: stack objects numbered in the order of the spilled values.\<close>

definition assign_spill_obj_ids :: "SpillSet \<Rightarrow> ValueId \<Rightarrow> nat option" where
  "assign_spill_obj_ids sp = map_of (zip (sorted_list_of_set sp) [0..<card sp])"

section \<open>Cleaning up keeps what is live\<close>

lemma emits_pop_dead_tops: "pop_dead_tops live p = Inr p' \<Longrightarrow> emits mn m p p'"
proof (induction "length (fst p)" arbitrary: p)
  case 0
  then show ?case by (auto elim: pop_dead_tops_cases)
next
  case (Suc n)
  from Suc.prems show ?case
  proof (cases rule: pop_dead_tops_cases)
    case (2 v s p1)
    have "emits mn m p1 p'" using Suc.hyps(1) [of p1] Suc.hyps(2) stk_pop_length_Suc [OF 2(3)] 2(4) by simp
    with emits_pop [OF 2(3)] show ?thesis by (rule emits_trans)
  qed simp
qed

lemma pop_dead_tops_above:
  "FuncRetAddr \<notin> set up \<Longrightarrow> barrier dn \<Longrightarrow>
    pop_dead_tops live (up @ dn, a) = Inr (dropWhile (dead_item live) up @ dn, a @ replicate (length (takeWhile (dead_item live) up)) PopTop)"
proof (induction up arbitrary: a)
  case Nil
  then show ?case by (cases dn) (simp_all add: pop_dead_tops.simps [of live "(_, _)"] barrier_def)
next
  case (Cons x up)
  then show ?case
    by (cases x; subst pop_dead_tops.simps) (auto simp: stk_pop_above)
qed

lemma emits_sink_top: "sink_top rc n p = Inr p' \<Longrightarrow> emits mn m p p'"
proof (induction n arbitrary: p rule: less_induct)
  case (less n)
  show ?case
  proof (cases "n = 0")
    case True
    with less.prems show ?thesis by (simp add: sink_top.simps)
  next
    case False
    from less.prems False obtain d p1 p2 where d: "d = min n (swap_max rc - 1)" "d \<noteq> 0"
      and s: "stk_swap d p = Inr p1" "stk_pop_n d p1 = Inr p2" "sink_top rc (n - d) p2 = Inr p'" by (rule sink_top_cases)
    have "emits mn m p2 p'" using less.IH [OF _ s(3)] d by simp
    with s show ?thesis by (blast intro: emits_trans emits_swap emits_pop_n)
  qed
qed

lemma sink_top_above:
  assumes "1 < swap_max rc" and "swap_max rc \<le> 17" and "x \<noteq> FuncRetAddr" and "barrier dn"
  shows "FuncRetAddr \<notin> set ds \<Longrightarrow> FuncRetAddr \<notin> set us \<Longrightarrow>
    \<exists>a'. sink_top rc (length ds) (x # ds @ us @ dn, a) = Inr (x # us @ dn, a')"
proof (induction "length ds" arbitrary: ds a rule: less_induct)
  case less
  show ?case
  proof (cases "ds = []")
    case True
    then show ?thesis by (simp add: sink_top.simps)
  next
    case False
    define d where "d = min (length ds) (swap_max rc - 1)"
    let ?up = "x # ds @ us"
    have d: "d \<noteq> 0" "0 < d" "d \<le> 16" "d \<le> length ds" "d < length ?up" using False assms(1,2) by (auto simp: d_def)
    have up: "FuncRetAddr \<notin> set ?up" using less.prems assms(3) by auto
    from stk_swap_above [OF up assms(4) d(3,5), of a] obtain a1 where
      sw: "stk_swap d (?up @ dn, a) = Inr (swap_items d ?up @ dn, a1)" by blast
    have "FuncRetAddr \<notin> set (swap_items d ?up)" "d \<le> length (swap_items d ?up)" using up d by simp_all
    from stk_pop_n_above [OF this, of dn a1] drop_swap_items [OF d(2,5)] d(4) obtain a2 where
      pp: "stk_pop_n d (swap_items d ?up @ dn, a1) = Inr (x # drop d ds @ us @ dn, a2)" by auto
    have "length (drop d ds) < length ds" "FuncRetAddr \<notin> set (drop d ds)" using d less.prems by (auto dest: in_set_dropD)
    from less.hyps [OF this less.prems(2), of a2] obtain a' where
      "sink_top rc (length ds - d) (x # drop d ds @ us @ dn, a2) = Inr (x # us @ dn, a')" by auto
    with sw pp False d(1) show ?thesis
      unfolding sink_top.simps [of rc "length ds"] Let_def d_def [symmetric] by auto
  qed
qed

lemma clean_ok:
  assumes "1 < swap_max rc" and "swap_max rc \<le> 17" and dn: "barrier dn"
  shows "FuncRetAddr \<notin> set up \<Longrightarrow> \<exists>up' a'. clean_dead_stack_prefix rc live (up @ dn, a) = Inr (up' @ dn, a')
    \<and> emits mn m (up @ dn, a) (up' @ dn, a') \<and> set up' \<subseteq> set up \<and> (\<forall>i \<in> set up. dead_item live i \<or> i \<in> set up')"
proof (induction "length up" arbitrary: up a rule: less_induct)
  case less
  let ?D = "dead_item live"
  define up1 where "up1 = dropWhile ?D up"
  obtain a1 where p: "pop_dead_tops live (up @ dn, a) = Inr (up1 @ dn, a1)" using pop_dead_tops_above [OF less.prems dn] up1_def by blast
  note e1 = emits_pop_dead_tops [OF p, of mn m]
  have up1: "set up1 \<subseteq> set up" "\<forall>i \<in> set up. ?D i \<or> i \<in> set up1" "length up1 \<le> length up"
    unfolding up1_def by (auto dest: set_dropWhileD simp: length_dropWhile_le)
      (metis Un_iff set_append set_takeWhileD takeWhile_dropWhile_id)
  show ?case
  proof (cases "\<exists>t us. up1 = Value t # us \<and> takeWhile ?D us \<noteq> []")
    case False
    have "clean_dead_stack_prefix rc live (up @ dn, a) = Inr (up1 @ dn, a1)"
    proof (cases up1)
      case Nil
      with p dn show ?thesis by (cases dn) (auto simp: clean_dead_stack_prefix.simps [of rc live "(_, _)"] barrier_def)
    next
      case (Cons x us)
      show ?thesis
      proof (cases x)
        case (Value t)
        have "live t" using pop_dead_tops_live [OF p] Cons Value by simp
        moreover have "takeWhile ?D us = []" using False Cons Value by blast
        then have "takeWhile ?D (us @ dn) = []" using dn by (cases us; cases dn) (auto simp: barrier_def split: if_splits)
        ultimately show ?thesis using p Cons Value by (simp add: clean_dead_stack_prefix.simps [of rc live "(_, _)"])
      qed (use p Cons up1(1) less.prems in \<open>auto simp: clean_dead_stack_prefix.simps [of rc live "(_, _)"]\<close>)
    qed
    with e1 up1 show ?thesis by blast
  next
    case True
    then obtain t us where t: "up1 = Value t # us" "takeWhile ?D us \<noteq> []" by blast
    let ?ds = "takeWhile ?D us" and ?us = "dropWhile ?D us"
    have lt: "live t" using pop_dead_tops_live [OF p] t by simp
    have tw: "takeWhile ?D (us @ dn) = ?ds"
      using dn by (cases dn) (auto simp: barrier_def takeWhile_append takeWhile_eq_all_conv [THEN iffD2])
    have nf: "FuncRetAddr \<notin> set us" using up1(1) t less.prems by auto
    then have nfd: "FuncRetAddr \<notin> set ?ds" "FuncRetAddr \<notin> set ?us" by (auto dest: set_takeWhileD set_dropWhileD)
    obtain a2 where s: "sink_top rc (length ?ds) (up1 @ dn, a1) = Inr ((Value t # ?us) @ dn, a2)"
      using sink_top_above [OF assms(1,2) _ dn nfd, of "Value t" a1] t by (auto simp flip: append_assoc)
    have len: "length (Value t # ?us) < length up" using t up1(3) takeWhile_dropWhile_id [of ?D us] by (metis append_Nil dual_order.strict_trans1 length_Cons length_append length_greater_0_conv less_add_same_cancel2 not_less_eq)
    have "FuncRetAddr \<notin> set (Value t # ?us)" using nfd by simp
    from less.hyps [OF len this, of a2] obtain up' a' where
      c: "clean_dead_stack_prefix rc live ((Value t # ?us) @ dn, a2) = Inr (up' @ dn, a')" "emits mn m ((Value t # ?us) @ dn, a2) (up' @ dn, a')"
        "set up' \<subseteq> set (Value t # ?us)" "\<forall>i \<in> set (Value t # ?us). ?D i \<or> i \<in> set up'" by blast
    have "clean_dead_stack_prefix rc live (up @ dn, a) = Inr (up' @ dn, a')"
      using p t lt tw s c(1) len by (simp add: clean_dead_stack_prefix.simps [of rc live "(up @ dn, a)"])
    moreover have "emits mn m (up @ dn, a) (up' @ dn, a')" using e1 emits_sink_top [OF s] c(2) by (blast intro: emits_trans)
    moreover have "set up' \<subseteq> set up" using c(3) t up1(1) by (auto dest: set_dropWhileD)
    moreover have "?D i \<or> i \<in> set up'" if "i \<in> set up" for i
    proof -
      from that up1(2) consider "?D i" | "i = Value t" | "i \<in> set us" using t by auto
      then show ?thesis
      proof cases
        case 3
        then have "i \<in> set ?ds \<or> i \<in> set ?us" by (metis Un_iff set_append takeWhile_dropWhile_id)
        with c(4) show ?thesis by (auto dest: set_takeWhileD)
      qed (use c(4) in auto)
    qed
    ultimately show ?thesis by blast
  qed
qed

section \<open>Improving the reach keeps what is live\<close>

lemma find_item_ok:
  assumes "\<forall>k < length js. \<forall>v. js ! k = Value v \<longrightarrow> (\<exists>b. t (idx + k) v = Inr b)"
  shows "\<exists>r. find_item t idx js = Inr r
    \<and> (\<forall>pos. r = Some pos \<longrightarrow> (\<exists>k v. pos = idx + k \<and> k < length js \<and> js ! k = Value v \<and> t pos v = Inr True))"
  using assms
proof (induction js arbitrary: idx)
  case (Cons j js)
  have "\<forall>k < length js. \<forall>v. js ! k = Value v \<longrightarrow> (\<exists>b. t (Suc idx + k) v = Inr b)"
  proof (intro allI impI)
    fix k v
    assume "k < length js" "js ! k = Value v"
    then show "\<exists>b. t (Suc idx + k) v = Inr b" using Cons.prems [rule_format, of "Suc k" v] by simp
  qed
  from Cons.IH [OF this] obtain r where
    r: "find_item t (Suc idx) js = Inr r"
      "\<forall>pos. r = Some pos \<longrightarrow> (\<exists>k v. pos = Suc idx + k \<and> k < length js \<and> js ! k = Value v \<and> t pos v = Inr True)" by blast
  have later: "\<exists>k v. pos = idx + k \<and> k < length (j # js) \<and> (j # js) ! k = Value v \<and> t pos v = Inr True" if "r = Some pos" for pos
  proof -
    from r(2) that obtain k v where "pos = Suc idx + k" "k < length js" "js ! k = Value v" "t pos v = Inr True" by blast
    then show ?thesis by (intro exI [of _ "Suc k"] exI [of _ v]) simp
  qed
  show ?case
  proof (cases j)
    case (Value v)
    with Cons.prems [rule_format, of 0 v] obtain b where b: "t idx v = Inr b" by auto
    show ?thesis
    proof (cases b)
      case True
      with b Value show ?thesis by (intro exI [of _ "Some idx"]) auto
    next
      case False
      with b Value r(1) later show ?thesis by (intro exI [of _ r]) simp
    qed
  qed (use r(1) later in \<open>auto intro!: exI [of _ r]\<close>)
qed simp

lemma shrink_len_ok: "bytes \<noteq> [] \<Longrightarrow> \<exists>n. shrink_len bytes = Inr n"
  by (simp add: shrink_len_def Let_def)

lemma imm_push_data_len_ok: "\<exists>n. imm_push_data_len imm = Inr n"
proof -
  have sh: "\<exists>k. shrink_len (be_bytes n w) = Inr k" if "0 < n" for n w
    using shrink_len_ok [of "be_bytes n w"] that length_be_bytes [of n w] by fastforce
  show ?thesis
  proof (cases imm)
    case (Imm_I256 v)
    show ?thesis
    proof (cases "imm_is_zero imm")
      case False
      with Imm_I256 have "mag v \<noteq> 0" by (simp add: imm_is_zero_def i256_is_zero_def)
      then obtain w where "to_u256 v = Inr w" by (cases "neg_flag v") (auto simp: to_u256_def u256_add_not_1)
      with Imm_I256 False sh [of 32 w] show ?thesis by (simp add: imm_push_data_len_def)
    qed (simp add: imm_push_data_len_def)
  qed (simp_all add: imm_push_data_len_def sh del: be_bytes.simps)
qed

lemma is_evictable_ok: "v < length (d_values (f_dfg func)) \<Longrightarrow> \<exists>b. is_evictable_imm func v = Inr b"
proof -
  assume "v < length (d_values (f_dfg func))"
  then obtain x where "value_imm (f_dfg func) v = Inr x" by (simp add: value_imm_def get_value_def index_list_def)
  moreover obtain n where "imm_push_data_len (the x) = Inr n" using imm_push_data_len_ok by blast
  ultimately show ?thesis by (cases x) (auto simp: is_evictable_imm_def intro: exI [of _ False])
qed

text \<open>What a victim may be: dead, an immediate, or a value with a copy above it.\<close>

definition expendable :: "StackifyContext \<Rightarrow> (ValueId \<Rightarrow> bool) \<Rightarrow> StackItem \<Rightarrow> bool" where
  "expendable ctx live i \<longleftrightarrow> dead_item live i \<or> (\<exists>v. i = Value v \<and> is_imm ctx v)"

definition values_valid :: "StackifyContext \<Rightarrow> SymStack \<Rightarrow> bool" where
  "values_valid ctx s \<longleftrightarrow> (\<forall>v. Value v \<in> set s \<longrightarrow> v < length (d_values (c_dfg ctx)))"

lemma or_else_ok:
  assumes "\<exists>r. a = Inr r \<and> (\<forall>p. r = Some p \<longrightarrow> P p)" and "\<exists>r. b () = Inr r \<and> (\<forall>p. r = Some p \<longrightarrow> P p)"
  shows "\<exists>r. or_else a b = Inr r \<and> (\<forall>p. r = Some p \<longrightarrow> P p)"
proof -
  from assms(1) obtain r where r: "a = Inr r" "\<forall>p. r = Some p \<longrightarrow> P p" by blast
  with assms(2) show ?thesis by (cases r) (simp_all add: or_else_def)
qed

lemma choose_victim_ok:
  assumes s: "FuncRetAddr \<notin> set up" "barrier dn" and vals: "values_valid ctx up"
  shows "\<exists>r. choose_reachability_victim (c_func ctx) (up @ dn) n prot rc live = Inr r
    \<and> (\<forall>p. r = Some p \<longrightarrow> p < length up \<and> p < swap_max rc \<and> (expendable ctx live (up ! p) \<or> up ! p \<in> set (take p up)))"
proof -
  define k where "k = min n (min (length up) (swap_max rc))"
  define w where "w = take k up"
  have w: "take (min n (min (len_above_func_ret (up @ dn)) (swap_max rc))) (up @ dn) = w"
    using len_above [OF s] by (simp add: w_def k_def)
  have wn: "p < length up \<and> p < swap_max rc \<and> up ! p = w ! p \<and> take p w = take p up" if "p < length w" for p
    using that by (auto simp: w_def k_def)
  have wv: "v < length (d_values (c_dfg ctx))" if "p < length w" "w ! p = Value v" for p v
  proof -
    have "Value v \<in> set up" using wn [OF that(1)] that(2) by (metis nth_mem)
    with vals show ?thesis by (simp add: values_valid_def)
  qed
  let ?P = "\<lambda>p. p < length up \<and> p < swap_max rc \<and> (expendable ctx live (up ! p) \<or> up ! p \<in> set (take p up))"
  have 1: "\<exists>r. find_item (\<lambda>i v. Inr (v \<notin> prot \<and> \<not> live v)) 0 w = Inr r \<and> (\<forall>p. r = Some p \<longrightarrow> ?P p)"
    using find_item_ok [of w "\<lambda>i v. Inr (v \<notin> prot \<and> \<not> live v)" 0] wn by (fastforce simp: expendable_def)
  let ?t2 = "\<lambda>i v. if v \<in> prot then Inr False else rbind (value_is_imm (c_dfg ctx) v) (\<lambda>imm. if imm then is_evictable_imm (c_func ctx) v else Inr False)"
  have t2: "\<exists>b. ?t2 i v = Inr b" if "v < length (d_values (c_dfg ctx))" for i v
    using that is_evictable_ok [of v "c_func ctx"] by (auto simp: value_is_imm_valid)
  have 2: "\<exists>r. find_item ?t2 0 w = Inr r \<and> (\<forall>p. r = Some p \<longrightarrow> ?P p)"
  proof -
    obtain r where r: "find_item ?t2 0 w = Inr r" "\<forall>p. r = Some p \<longrightarrow> (\<exists>v. p < length w \<and> w ! p = Value v \<and> ?t2 p v = Inr True)"
      using find_item_ok [of w ?t2 0] t2 wv by fastforce
    have "?P p" if "r = Some p" for p
    proof -
      from r(2) that obtain v where v: "p < length w" "w ! p = Value v" "?t2 p v = Inr True" by blast
      then have "is_imm ctx v" using wv by (auto simp: value_is_imm_valid split: if_splits)
      with v wn show ?thesis by (auto simp: expendable_def)
    qed
    with r(1) show ?thesis by blast
  qed
  have 3: "\<exists>r. find_item (\<lambda>i v. Inr (v \<notin> prot \<and> Value v \<in> set (take i w))) 0 w = Inr r \<and> (\<forall>p. r = Some p \<longrightarrow> ?P p)"
    using find_item_ok [of w "\<lambda>i v. Inr (v \<notin> prot \<and> Value v \<in> set (take i w))" 0] wn by fastforce
  show ?thesis unfolding choose_reachability_victim_def Let_def w
    by (intro or_else_ok 1 2 3)
qed

lemma find_victim_ok:
  assumes s: "FuncRetAddr \<notin> set up" "barrier dn" and vals: "values_valid ctx up"
  shows "\<exists>r. find_victim (c_func ctx) (up @ dn) prot rc live args = Inr r
    \<and> (\<forall>p. r = Some p \<longrightarrow> p < length up \<and> p < swap_max rc \<and> (expendable ctx live (up ! p) \<or> up ! p \<in> set (take p up)))"
proof (induction args)
  case (Cons arg args)
  show ?case
  proof (cases "out_of_reach rc (up @ dn) arg")
    case (Some pos)
    show ?thesis unfolding find_victim.simps Some option.case by (rule or_else_ok [OF choose_victim_ok [OF assms] Cons.IH])
  qed (simp add: Cons.IH)
qed simp

lemma improve_loop_ok:
  assumes "swap_max rc \<le> 17" and dn: "barrier dn"
  shows "FuncRetAddr \<notin> set up \<Longrightarrow> values_valid ctx up \<Longrightarrow> \<exists>up' a'. improve_loop n (c_func ctx) args rc live (up @ dn, a) = Inr (up' @ dn, a')
    \<and> emits mn m (up @ dn, a) (up' @ dn, a') \<and> set up' \<subseteq> set up \<and> (\<forall>i \<in> set up. expendable ctx live i \<or> i \<in> set up')"
proof (induction n arbitrary: up a)
  case 0
  then show ?case by auto
next
  case (Suc n)
  from find_victim_ok [OF Suc.prems(1) dn Suc.prems(2), of "set args" rc live args] obtain r where
    r: "find_victim (c_func ctx) (up @ dn) (set args) rc live args = Inr r"
      "\<forall>p. r = Some p \<longrightarrow> p < length up \<and> p < swap_max rc \<and> (expendable ctx live (up ! p) \<or> up ! p \<in> set (take p up))" by blast
  show ?case
  proof (cases r)
    case None
    with r(1) show ?thesis by (intro exI [of _ up] exI [of _ a]) auto
  next
    case (Some p)
    with r(2) have p: "p < length up" "p < swap_max rc" "expendable ctx live (up ! p) \<or> up ! p \<in> set (take p up)" by simp_all
    let ?up = "take p up @ drop (Suc p) up"
    have p16: "p \<le> 16" using p(2) assms(1) by simp
    from stable_delete_above [OF Suc.prems(1) dn p16 p(1), of a] obtain a1 where
      d: "stable_delete_at_depth (Suc p) (up @ dn, a) = Inr (?up @ dn, a1)" by blast
    have up: "up = take p up @ up ! p # drop (Suc p) up" using p(1) by (rule id_take_nth_drop)
    then have su: "set up = insert (up ! p) (set ?up)" by (metis Un_insert_right list.simps(15) set_append)
    have "FuncRetAddr \<notin> set ?up" "values_valid ctx ?up" using Suc.prems su by (auto simp: values_valid_def)
    from Suc.IH [OF this, of a1] obtain up' a' where
      i: "improve_loop n (c_func ctx) args rc live (?up @ dn, a1) = Inr (up' @ dn, a')" "emits mn m (?up @ dn, a1) (up' @ dn, a')"
        "set up' \<subseteq> set ?up" "\<forall>i \<in> set ?up. expendable ctx live i \<or> i \<in> set up'" by blast
    have "improve_loop (Suc n) (c_func ctx) args rc live (up @ dn, a) = Inr (up' @ dn, a')" using r(1) Some d i(1) by simp
    moreover have "emits mn m (up @ dn, a) (up' @ dn, a')" using emits_stable_delete [OF d] i(2) by (rule emits_trans)
    moreover have "\<forall>i \<in> set up. expendable ctx live i \<or> i \<in> set up'" using su i(4) p(3) by auto
    ultimately show ?thesis using su i(3) by (intro exI [of _ up'] exI [of _ a']) auto
  qed
qed

lemma non_imms_ok: "valid_values ctx vs \<Longrightarrow> non_imms (c_dfg ctx) vs = Inr (filter (\<lambda>v. \<not> is_imm ctx v) vs)"
  by (induction vs) (auto simp: valid_values_def value_is_imm_valid)

lemma improve_ok:
  assumes "swap_max rc \<le> 17" and "barrier dn" and "FuncRetAddr \<notin> set up" and "values_valid ctx up" and "valid_values ctx args"
  shows "\<exists>up' a'. improve_reachability_before_operands (c_func ctx) args rc live (up @ dn, a) = Inr (up' @ dn, a')
    \<and> emits mn m (up @ dn, a) (up' @ dn, a') \<and> set up' \<subseteq> set up \<and> (\<forall>i \<in> set up. expendable ctx live i \<or> i \<in> set up')"
  using improve_loop_ok [OF assms(1-4), of 8 "filter (\<lambda>v. \<not> is_imm ctx v) args" live a mn m]
  by (auto simp: improve_reachability_before_operands_def non_imms_ok [OF assms(5)])

section \<open>The planner of an instruction\<close>

text \<open>The pass seen as the planner of one instruction, and what such a planner leaves alone.\<close>

definition planner_of :: "InstId \<Rightarrow> BlockPlanState \<times> Iter \<Rightarrow> Planner" where
  "planner_of i sti = \<lparr>p_stack = ps_stack (fst sti), p_actions = pre_actions (it_alloc (snd sti)) i,
     p_mem = mem_plan_of (ps_free (fst sti)) (snd sti)\<rparr>"

lemma planner_of_simps [simp]:
  "p_stack (planner_of i (st, it)) = ps_stack st" "p_actions (planner_of i (st, it)) = pre_actions (it_alloc it) i"
  "p_mem (planner_of i (st, it)) = mem_plan_of (ps_free st) it"
  by (simp_all add: planner_of_def)

definition pre_frame :: "InstId \<Rightarrow> BlockPlanState \<times> Iter \<Rightarrow> BlockPlanState \<times> Iter \<Rightarrow> bool" where
  "pre_frame i sti sti' \<longleftrightarrow>
     (\<exists>s free rq sl acts. fst sti' = (fst sti)\<lparr>ps_stack := s, ps_free := free\<rparr>
        \<and> snd sti' = (snd sti)\<lparr>it_requests := rq, it_slots := sl,
            it_alloc := (it_alloc (snd sti))\<lparr>pre_actions := (pre_actions (it_alloc (snd sti)))(i := acts)\<rparr>\<rparr>)"

lemma pre_frame_refl: "pre_frame i sti sti"
  unfolding pre_frame_def
  by (rule exI [of _ "ps_stack (fst sti)"], rule exI [of _ "ps_free (fst sti)"], rule exI [of _ "it_requests (snd sti)"],
      rule exI [of _ "it_slots (snd sti)"], rule exI [of _ "pre_actions (it_alloc (snd sti)) i"]) simp

lemma pre_frame_trans:
  assumes "pre_frame i a b" and "pre_frame i b c"
  shows "pre_frame i a c"
proof -
  from assms(1) obtain s free rq sl acts where
    ab: "fst b = (fst a)\<lparr>ps_stack := s, ps_free := free\<rparr>"
      "snd b = (snd a)\<lparr>it_requests := rq, it_slots := sl, it_alloc := (it_alloc (snd a))\<lparr>pre_actions := (pre_actions (it_alloc (snd a)))(i := acts)\<rparr>\<rparr>"
    unfolding pre_frame_def by blast
  from assms(2) obtain s' free' rq' sl' acts' where
    bc: "fst c = (fst b)\<lparr>ps_stack := s', ps_free := free'\<rparr>"
      "snd c = (snd b)\<lparr>it_requests := rq', it_slots := sl', it_alloc := (it_alloc (snd b))\<lparr>pre_actions := (pre_actions (it_alloc (snd b)))(i := acts')\<rparr>\<rparr>"
    unfolding pre_frame_def by blast
  show ?thesis unfolding pre_frame_def
    by (rule exI [of _ s'], rule exI [of _ free'], rule exI [of _ rq'], rule exI [of _ sl'], rule exI [of _ acts']) (simp add: ab bc)
qed

lemma on_pre_ok:
  assumes "f (ps_stack st, pre_actions (it_alloc it) i) = Inr (s, acts)"
  shows "\<exists>sti'. on_pre i f (st, it) = Inr sti' \<and> pre_frame i (st, it) sti'
    \<and> planner_of i sti' = (planner_of i (st, it))\<lparr>p_stack := s, p_actions := acts\<rparr>"
proof -
  let ?sti = "(st\<lparr>ps_stack := s\<rparr>, set_pre i acts it)"
  have "pre_frame i (st, it) ?sti" unfolding pre_frame_def
    by (rule exI [of _ s], rule exI [of _ "ps_free st"], rule exI [of _ "it_requests it"], rule exI [of _ "it_slots it"], rule exI [of _ acts])
      (simp add: set_pre_def)
  moreover have "on_pre i f (st, it) = Inr ?sti" using assms by (simp add: on_pre_def)
  moreover have "planner_of i ?sti = (planner_of i (st, it))\<lparr>p_stack := s, p_actions := acts\<rparr>"
    by (simp add: planner_of_def set_pre_def mem_plan_of_def)
  ultimately show ?thesis by blast
qed

lemma with_pre_ok:
  assumes "f (planner_of i (st, it)) = Inr (r, pl')" and h: "spill (mp_spill (p_mem pl')) = it_spill it" "spill_obj (p_mem pl') = al_spill_obj (it_alloc it)"
  shows "\<exists>sti'. with_pre_actions_planner i f (st, it) = Inr (r, sti') \<and> pre_frame i (st, it) sti' \<and> planner_of i sti' = pl'"
proof -
  let ?sti = "(st\<lparr>ps_stack := p_stack pl', ps_free := free_slots (p_mem pl')\<rparr>,
    set_pre i (p_actions pl') (it\<lparr>it_requests := spill_requests (mp_spill (p_mem pl')), it_slots := slots (p_mem pl')\<rparr>))"
  have "planner_of i (st, it) = \<lparr>p_stack = ps_stack st, p_actions = pre_actions (it_alloc it) i, p_mem = mem_plan_of (ps_free st) it\<rparr>"
    by (simp add: planner_of_def)
  with assms(1) have "with_pre_actions_planner i f (st, it) = Inr (r, ?sti)" by (simp add: with_pre_actions_planner_def with_planner_def)
  moreover have "pre_frame i (st, it) ?sti" unfolding pre_frame_def
    by (rule exI [of _ "p_stack pl'"], rule exI [of _ "free_slots (p_mem pl')"], rule exI [of _ "spill_requests (mp_spill (p_mem pl'))"],
        rule exI [of _ "slots (p_mem pl')"], rule exI [of _ "p_actions pl'"]) (simp add: set_pre_def)
  moreover have "planner_of i ?sti = pl'"
    using h by (simp add: planner_of_def set_pre_def mem_plan_of_def)
  ultimately show ?thesis by blast
qed

text \<open>The two clean-ups as steps of that planner.\<close>

lemma on_pre_plans:
  assumes f: "f (up @ dn, pre_actions (it_alloc it) i) = Inr (up' @ dn, a')" "emits mn m (up @ dn, pre_actions (it_alloc it) i) (up' @ dn, a')"
    and st: "ps_stack st = up @ dn"
  shows "\<exists>sti'. on_pre i f (st, it) = Inr sti' \<and> pre_frame i (st, it) sti' \<and> ps_stack (fst sti') = up' @ dn
    \<and> plans ctx mn m (planner_of i (st, it)) (planner_of i sti')"
proof -
  from f(1) st have "f (ps_stack st, pre_actions (it_alloc it) i) = Inr (up' @ dn, a')" by simp
  from on_pre_ok [of f, OF this] obtain sti' where r: "on_pre i f (st, it) = Inr sti'" "pre_frame i (st, it) sti'"
    "planner_of i sti' = (planner_of i (st, it))\<lparr>p_stack := up' @ dn, p_actions := a'\<rparr>" by blast
  have "ps_stack (fst sti') = p_stack (planner_of i sti')" by (simp add: planner_of_def)
  with r st f(2) show ?thesis by (intro exI [of _ sti']) (simp add: plans_def)
qed

lemma live_frame:
  "pre_frame i sti sti' \<Longrightarrow> live_future (fst sti') = live_future (fst sti) \<and> live_out (fst sti') = live_out (fst sti)
    \<and> remaining_uses (fst sti') = remaining_uses (fst sti) \<and> ps_block (fst sti') = ps_block (fst sti)
    \<and> it_spill (snd sti') = it_spill (snd sti) \<and> al_spill_obj (it_alloc (snd sti')) = al_spill_obj (it_alloc (snd sti))
    \<and> post_actions (it_alloc (snd sti')) = post_actions (it_alloc (snd sti)) \<and> inherited_stack (snd sti') = inherited_stack (snd sti)"
  by (auto simp: pre_frame_def)

section \<open>Consuming uses\<close>

lemma last_use_ok:
  assumes "valid_values ctx args"
  shows "last_use_values_in_inst (c_func ctx) args uses outs
    = Inr {v \<in> set args. \<not> is_imm ctx v \<and> (case uses v of None \<Rightarrow> 0 | Some n \<Rightarrow> n) = count_list args v \<and> v \<notin> outs}"
proof -
  have "count_list (filter (\<lambda>v. \<not> is_imm ctx v) args) v = count_list args v" if "\<not> is_imm ctx v" for v
    using that by (induction args) auto
  then show ?thesis by (auto simp: last_use_values_in_inst_def non_imms_ok [OF assms])
qed

text \<open>
  Consuming uses touches only the counts, the values with a use to come and the free slots; a value whose
  count drops to zero has no use to come afterwards.
\<close>

lemma consume_uses_ok:
  assumes "valid_values ctx args"
  shows "\<exists>st'. consume_uses (c_dfg ctx) pool args st = Inr st'
    \<and> (\<exists>u f fr. st' = st\<lparr>remaining_uses := u, live_future := f, ps_free := fr\<rparr> \<and> f \<subseteq> live_future st
        \<and> (\<forall>v. v \<notin> set args \<or> is_imm ctx v \<longrightarrow> (v \<in> f \<longleftrightarrow> v \<in> live_future st) \<and> u v = remaining_uses st v)
        \<and> (\<forall>v n. v \<in> set args \<and> \<not> is_imm ctx v \<and> remaining_uses st v = Some n \<longrightarrow>
             u v = Some (n - count_list args v) \<and> (n = count_list args v \<longrightarrow> v \<notin> f)
             \<and> (count_list args v < n \<longrightarrow> (v \<in> f \<longleftrightarrow> v \<in> live_future st)))
        \<and> (\<forall>live. pool_ok live (ps_free st, pool) \<longrightarrow> pool_ok live (fr, pool)))"
  using assms
proof (induction args arbitrary: st)
  case Nil
  show ?case
    by (rule exI [of _ st], rule conjI, simp, rule exI [of _ "remaining_uses st"], rule exI [of _ "live_future st"], rule exI [of _ "ps_free st"]) simp
next
  case (Cons v vs)
  have v: "value_is_imm (c_dfg ctx) v = Inr (is_imm ctx v)" "valid_values ctx vs" using Cons.prems by (simp_all add: valid_values_def value_is_imm_valid)
  note IH = Cons.IH [OF v(2)]
  show ?case
  proof (cases "is_imm ctx v \<or> remaining_uses st v = None")
    case True
    then have e: "consume_uses (c_dfg ctx) pool (v # vs) st = consume_uses (c_dfg ctx) pool vs st" using v(1) by auto
    from IH [of st] obtain u f fr where
      c: "consume_uses (c_dfg ctx) pool vs st = Inr (st\<lparr>remaining_uses := u, live_future := f, ps_free := fr\<rparr>)" "f \<subseteq> live_future st" and
      o: "\<forall>w. w \<notin> set vs \<or> is_imm ctx w \<longrightarrow> (w \<in> f \<longleftrightarrow> w \<in> live_future st) \<and> u w = remaining_uses st w" and
      k: "\<forall>w k. w \<in> set vs \<and> \<not> is_imm ctx w \<and> remaining_uses st w = Some k \<longrightarrow> u w = Some (k - count_list vs w) \<and> (k = count_list vs w \<longrightarrow> w \<notin> f)
        \<and> (count_list vs w < k \<longrightarrow> (w \<in> f \<longleftrightarrow> w \<in> live_future st))" and
      p: "\<forall>live. pool_ok live (ps_free st, pool) \<longrightarrow> pool_ok live (fr, pool)" by blast
    have b: "u w = Some (k - count_list (v # vs) w) \<and> (k = count_list (v # vs) w \<longrightarrow> w \<notin> f)
        \<and> (count_list (v # vs) w < k \<longrightarrow> (w \<in> f \<longleftrightarrow> w \<in> live_future st))"
      if "w \<in> set (v # vs)" "\<not> is_imm ctx w" "remaining_uses st w = Some k" for w k
    proof -
      have "w \<noteq> v" using that True by auto
      with that k show ?thesis by simp
    qed
    show ?thesis unfolding e c(1)
      by (rule exI [of _ "st\<lparr>remaining_uses := u, live_future := f, ps_free := fr\<rparr>"], rule conjI, rule refl,
          rule exI [of _ u], rule exI [of _ f], rule exI [of _ fr]) (use c(2) o b p in auto)
  next
    case False
    then obtain n where n: "remaining_uses st v = Some n" and imm: "\<not> is_imm ctx v" by auto
    let ?u = "(remaining_uses st)(v \<mapsto> n - 1)"
    define gone where "gone \<longleftrightarrow> n \<noteq> 0 \<and> n - 1 = 0"
    define f1 where "f1 = (if gone then live_future st - {v} else live_future st)"
    define fr1 where "fr1 = (if gone \<and> v \<notin> live_out st then release_if_assigned v pool (ps_free st) else ps_free st)"
    let ?st = "st\<lparr>remaining_uses := ?u, live_future := f1, ps_free := fr1\<rparr>"
    have step: "consume_uses (c_dfg ctx) pool (v # vs) st = consume_uses (c_dfg ctx) pool vs ?st"
      using v(1) n imm by (simp add: Let_def f1_def fr1_def gone_def)
    from IH [of ?st] obtain u f fr where
      c: "consume_uses (c_dfg ctx) pool vs ?st = Inr (?st\<lparr>remaining_uses := u, live_future := f, ps_free := fr\<rparr>)" "f \<subseteq> f1" and
      o: "\<forall>w. w \<notin> set vs \<or> is_imm ctx w \<longrightarrow> (w \<in> f \<longleftrightarrow> w \<in> f1) \<and> u w = ?u w" and
      k: "\<forall>w k. w \<in> set vs \<and> \<not> is_imm ctx w \<and> ?u w = Some k \<longrightarrow> u w = Some (k - count_list vs w) \<and> (k = count_list vs w \<longrightarrow> w \<notin> f)
        \<and> (count_list vs w < k \<longrightarrow> (w \<in> f \<longleftrightarrow> w \<in> f1))" and
      p: "\<forall>live. pool_ok live (fr1, pool) \<longrightarrow> pool_ok live (fr, pool)" by auto
    have f1: "f1 \<subseteq> live_future st" "\<And>w. w \<noteq> v \<Longrightarrow> w \<in> f1 \<longleftrightarrow> w \<in> live_future st" by (auto simp: f1_def)
    have p1: "pool_ok live (ps_free st, pool) \<longrightarrow> pool_ok live (fr1, pool)" for live using pool_ok_release by (simp add: fr1_def)
    have a: "(w \<in> f \<longleftrightarrow> w \<in> live_future st) \<and> u w = remaining_uses st w" if "w \<notin> set (v # vs) \<or> is_imm ctx w" for w
    proof -
      have "w \<noteq> v" "w \<notin> set vs \<or> is_imm ctx w" using that imm by auto
      with o f1(2) show ?thesis by simp
    qed
    have b: "u w = Some (k - count_list (v # vs) w) \<and> (k = count_list (v # vs) w \<longrightarrow> w \<notin> f)
        \<and> (count_list (v # vs) w < k \<longrightarrow> (w \<in> f \<longleftrightarrow> w \<in> live_future st))"
      if "w \<in> set (v # vs)" "\<not> is_imm ctx w" "remaining_uses st w = Some k" for w k
    proof (cases "w \<in> set vs")
      case True
      show ?thesis
      proof (cases "w = v")
        case True
        with that n have "k = n" by simp
        have "count_list vs v \<noteq> 0" using \<open>w \<in> set vs\<close> True by (simp add: count_list_0_iff)
        with k [rule_format, of v "n - 1"] \<open>w \<in> set vs\<close> True imm \<open>k = n\<close> show ?thesis by (auto simp: f1_def gone_def)
      next
        case False
        with k [rule_format, of w k] True that f1(2) [OF False] show ?thesis by auto
      qed
    next
      case False
      then have "w = v" "count_list vs v = 0" using that(1) by (auto simp: count_list_0_iff)
      moreover have "n = 1 \<longrightarrow> v \<notin> f" "1 < n \<longrightarrow> f1 = live_future st" using c(2) by (auto simp: f1_def gone_def)
      ultimately show ?thesis using o [rule_format, of w] False n that(3) by auto
    qed
    show ?thesis unfolding step c(1)
      by (rule exI [of _ "?st\<lparr>remaining_uses := u, live_future := f, ps_free := fr\<rparr>"], rule conjI, rule refl,
          rule exI [of _ u], rule exI [of _ f], rule exI [of _ fr])
        (use c(2) f1(1) a b p p1 in auto)
  qed
qed

section \<open>Storing the result\<close>

lemma mem_plan_of_simps [simp]:
  "mp_spill (mem_plan_of free it) = \<lparr>spill = it_spill it, spill_requests = it_requests it\<rparr>"
  "spill_obj (mem_plan_of free it) = al_spill_obj (it_alloc it)" "free_slots (mem_plan_of free it) = free"
  "slots (mem_plan_of free it) = it_slots it"
  by (simp_all add: mem_plan_of_def)

lemma emit_store_ok:
  assumes ok: "mem_ok ctx (p_mem pl)"
  shows "\<exists>pl' \<delta>. emit_store_if_spilled ctx v pl = Inr pl' \<and> p_stack pl' = p_stack pl \<and> p_actions pl' = p_actions pl @ \<delta>
    \<and> stores_only ctx {v} (p_mem pl) (p_mem pl')
    \<and> (\<forall>(mn :: 'w Meaning) w st m. exec_actions mn \<delta> (w # st, m) = Some (w # st, put_home ctx (p_mem pl') v w m))"
proof (cases "v \<in> spill (mp_spill (p_mem pl))")
  case False
  with ok show ?thesis
    by (intro exI [of _ pl] exI [of _ "[]"]) (simp add: emit_store_if_spilled_def mem_store_unspilled stores_only_def put_home_def)
next
  case True
  from mem_store_ok [OF ok True, of 0 "p_actions pl"] obtain mem' ld where
    s: "mem_store_if_spilled ctx v 0 (p_mem pl, p_actions pl) = Inr (mem', p_actions pl @ [StackDup 0, store_of ld])" and
    m: "mem_ok ctx mem'" "home_action ctx mem' v = Inr ld" "mp_spill mem' = mp_spill (p_mem pl)" "spill_obj mem' = spill_obj (p_mem pl)"
      "\<forall>w. w \<noteq> v \<longrightarrow> home_action ctx mem' w = home_action ctx (p_mem pl) w" by blast
  let ?pl = "pl\<lparr>p_mem := mem', p_actions := p_actions pl @ [StackDup 0, store_of ld]\<rparr>"
  have "emit_store_if_spilled ctx v pl = Inr ?pl" using s by (simp add: emit_store_if_spilled_def)
  moreover have "exec_actions mn [StackDup 0, store_of ld] (w # st, m) = Some (w # st, put_home ctx mem' v w m)" for mn :: "'w Meaning" and w st m
    using exec_store [OF m(2), of 0 "w # st" mn m] True m(2,3) by (simp add: put_home_def del: exec_actions.simps)
  ultimately show ?thesis using m
    by (intro exI [of _ ?pl] exI [of _ "[StackDup 0, store_of ld]"]) (simp add: stores_only_def del: exec_actions.simps)
qed

text \<open>What pushing the result changes: the stack, the slots, and the actions after the instruction.\<close>

definition result_items :: "StackifyContext \<Rightarrow> InstId \<Rightarrow> StackItem list" where
  "result_items ctx i = (case inst_result (c_dfg ctx) i of None \<Rightarrow> [] | Some r \<Rightarrow> [Value r])"

definition stored_result :: "StackifyContext \<Rightarrow> InstId \<Rightarrow> BlockPlanState \<times> Iter \<Rightarrow> 'w Meaning \<Rightarrow> 'w Memory \<Rightarrow> 'w Memory" where
  "stored_result ctx i sti mn m = (case inst_result (c_dfg ctx) i of
       Some r \<Rightarrow> if live_in_state (fst sti) r then put_home ctx (mem_plan_of (ps_free (fst sti)) (snd sti)) r (m_value mn r) m else m
     | None \<Rightarrow> m)"

lemma push_result_ok:
  assumes ok: "mem_ok ctx (mem_plan_of (ps_free st) it)"
  shows "\<exists>st' it' \<delta>. push_result ctx i (st, it) = Inr (st', it')
    \<and> (\<exists>fr. st' = st\<lparr>ps_stack := result_items ctx i @ ps_stack st, ps_free := fr\<rparr>)
    \<and> (\<exists>sl. it' = it\<lparr>it_slots := sl, it_alloc := (it_alloc it)\<lparr>post_actions := (post_actions (it_alloc it))(i := post_actions (it_alloc it) i @ \<delta>)\<rparr>\<rparr>)
    \<and> mem_ok ctx (mem_plan_of (ps_free st') it')
    \<and> (\<forall>w. inst_result (c_dfg ctx) i \<noteq> Some w \<longrightarrow> home_action ctx (mem_plan_of (ps_free st') it') w = home_action ctx (mem_plan_of (ps_free st) it) w)
    \<and> (\<forall>(mn :: 'w Meaning) m. exec_actions mn \<delta> (words mn (ps_stack st'), m) = Some (words mn (ps_stack st'), stored_result ctx i (st', it') mn m))"
proof (cases "inst_result (c_dfg ctx) i")
  case None
  with ok show ?thesis
    by (intro exI [of _ st] exI [of _ it] exI [of _ "[]"]) (auto simp: push_result_def result_items_def stored_result_def intro: exI [of _ "ps_free st"] exI [of _ "it_slots it"])
next
  case (Some res)
  let ?st = "st\<lparr>ps_stack := Value res # ps_stack st\<rparr>"
  show ?thesis
  proof (cases "live_in_state st res")
    case False
    with Some ok show ?thesis
      by (intro exI [of _ ?st] exI [of _ it] exI [of _ "[]"])
        (auto simp: push_result_def push_value_def result_items_def stored_result_def intro: exI [of _ "ps_free st"] exI [of _ "it_slots it"])
  next
    case True
    let ?pl = "\<lparr>p_stack = Value res # ps_stack st, p_actions = post_actions (it_alloc it) i, p_mem = mem_plan_of (ps_free st) it\<rparr>"
    have "mem_ok ctx (p_mem ?pl)" using ok by simp
    from emit_store_ok [OF this, of res] obtain pl' \<delta> where
      e: "emit_store_if_spilled ctx res ?pl = Inr pl'" "p_stack pl' = p_stack ?pl" "p_actions pl' = post_actions (it_alloc it) i @ \<delta>"
        "stores_only ctx {res} (mem_plan_of (ps_free st) it) (p_mem pl')" and
      x: "\<forall>(mn :: 'w Meaning) w st m. exec_actions mn \<delta> (w # st, m) = Some (w # st, put_home ctx (p_mem pl') res w m)" by auto
    let ?st' = "?st\<lparr>ps_free := free_slots (p_mem pl')\<rparr>"
    let ?it' = "it\<lparr>it_slots := slots (p_mem pl'), it_alloc := (it_alloc it)\<lparr>post_actions := (post_actions (it_alloc it))(i := post_actions (it_alloc it) i @ \<delta>)\<rparr>\<rparr>"
    have q: "spill_requests (mp_spill (p_mem pl')) = it_requests it" "spill (mp_spill (p_mem pl')) = it_spill it"
      "spill_obj (p_mem pl') = al_spill_obj (it_alloc it)" using e(4) by (simp_all add: stores_only_def)
    have m: "mem_plan_of (ps_free ?st') ?it' = p_mem pl'" using q by (simp add: mem_plan_of_def)
    have "push_result ctx i (st, it) = Inr (?st', ?it')"
      using Some True e(1,2,3) q(1)
      by (simp add: push_result_def push_value_def with_post_actions_planner_def with_planner_def no_result_def set_post_def)
    moreover have "mem_ok ctx (mem_plan_of (ps_free ?st') ?it')" unfolding m using e(4) by (simp add: stores_only_def)
    moreover have "home_action ctx (mem_plan_of (ps_free ?st') ?it') w = home_action ctx (mem_plan_of (ps_free st) it) w" if "res \<noteq> w" for w
      unfolding m using e(4) that by (simp add: stores_only_def)
    moreover have "exec_actions mn \<delta> (words mn (ps_stack ?st'), m) = Some (words mn (ps_stack ?st'), stored_result ctx i (?st', ?it') mn m)"
      for mn :: "'w Meaning" and m using x Some True unfolding stored_result_def fst_conv snd_conv m by simp
    ultimately show ?thesis using Some
      by (intro exI [of _ ?st'] exI [of _ ?it'] exI [of _ \<delta>]) (auto simp: result_items_def)
  qed
qed

section \<open>A normal instruction\<close>

text \<open>
  The operands as the instruction finds them: a call has its operands in the order of the callee and the
  continuation below them, any other instruction has them in order or, if it commutes, possibly exchanged.
\<close>

definition abi_order :: "'a list \<Rightarrow> 'a list" where
  "abi_order args = (if args = [] then [] else last args # butlast args)"

lemma abi_order_simps [simp]: "abi_order [] = []" "abi_order (xs @ [x]) = x # xs"
  by (simp_all add: abi_order_def)

definition operands_for :: "inst \<Rightarrow> ValueId list \<Rightarrow> bool" where
  "operands_for data ops \<longleftrightarrow> ops = values_of data \<or> ops = rev (values_of data) \<and> length (values_of data) = 2 \<and> commutative_data data"

definition cont_items :: "bool \<Rightarrow> StackItem list" where
  "cont_items call = (if call then [CallRetAddr] else [])"

lemma abi_order_rotate1 [simp]: "abi_order (rotate1 xs) = xs"
  by (cases xs) simp_all

lemma length_abi_order [simp]: "length (abi_order xs) = length xs"
  by (cases xs) (auto simp: abi_order_def)

lemma set_abi_order [simp]: "set (abi_order xs) = set xs"
  by (cases xs rule: rev_cases) auto

lemma swap_behind: "args \<noteq> [] \<Longrightarrow> swap_items (length args) (c # args @ rest) = abi_order args @ c # rest"
proof -
  assume "args \<noteq> []"
  then obtain xs x where a: "args = xs @ [x]" by (cases args rule: rev_cases) auto
  show ?thesis by (rule nth_equalityI) (auto simp: a swap_items_def nth_append nth_Cons split: nat.split)
qed

lemma position_call_ok:
  assumes "FuncRetAddr \<notin> set rest" and "barrier dn" and "length args \<le> 16"
  shows "\<exists>a'. position_call_ret_below_operands (length args) (push_call_continuation (map Value args @ rest @ dn, a))
     = Inr (map Value (abi_order args) @ CallRetAddr # rest @ dn, a')
   \<and> emits mn m (map Value args @ rest @ dn, a) (map Value (abi_order args) @ CallRetAddr # rest @ dn, a')"
proof -
  let ?p = "push_call_continuation (map Value args @ rest @ dn, a)"
  have p: "?p = ((CallRetAddr # map Value args @ rest) @ dn, a @ [PushContinuationOffset])"
    by (simp add: push_call_continuation_def push_call_ret_addr_def)
  show ?thesis
  proof (cases "args = []")
    case True
    with p emits_call_continuation [of mn m "(map Value args @ rest @ dn, a)"] show ?thesis
      by (simp add: position_call_ret_below_operands_def abi_order_def)
  next
    case False
    have nf: "FuncRetAddr \<notin> set (CallRetAddr # map Value args @ rest)" using assms(1) by auto
    have l: "length args < length (CallRetAddr # map Value args @ rest)" by simp
    from stk_swap_above [OF nf assms(2,3) l, of "a @ [PushContinuationOffset]"] obtain a' where
      sw: "stk_swap (length args) ?p = Inr (swap_items (length args) (CallRetAddr # map Value args @ rest) @ dn, a')" unfolding p by blast
    have si: "swap_items (length args) (CallRetAddr # map Value args @ rest) = map Value (abi_order args) @ CallRetAddr # rest"
      using swap_behind [of "map Value args" CallRetAddr rest] False by (simp add: abi_order_def last_map map_butlast)
    have it: "item_at (length args) (map Value (abi_order args) @ CallRetAddr # rest @ dn) = Some CallRetAddr"
      by (simp add: item_at_def nth_append)
    have lf: "length args < len_above_func_ret (fst ?p)" unfolding p fst_conv len_above [OF nf assms(2)] by simp
    have "position_call_ret_below_operands (length args) ?p = Inr (map Value (abi_order args) @ CallRetAddr # rest @ dn, a')"
      using sw lf it False assms(3) unfolding si by (simp add: position_call_ret_below_operands_def p item_at_def)
    with emits_call_continuation [of mn m "(map Value args @ rest @ dn, a)"] emits_position_call_ret show ?thesis
      by (blast intro: emits_trans)
  qed
qed

text \<open>What planning an instruction establishes; \<open>before\<close> and \<open>after\<close> are the states of the pass around it.\<close>

definition planned_inst ::
  "StackifyContext \<Rightarrow> InstId \<Rightarrow> inst \<Rightarrow> 'w Meaning \<Rightarrow> 'w Memory \<Rightarrow> SymStack \<Rightarrow> SymStack \<Rightarrow> BlockPlanState \<times> Iter \<Rightarrow> BlockPlanState \<times> Iter \<Rightarrow> bool" where
  "planned_inst ctx i data mn m rest dn before after \<longleftrightarrow>
     (let call = (\<exists>f as. data = Call f as); mem = mem_plan_of (ps_free (fst before)) (snd before); mem' = mem_plan_of (ps_free (fst after)) (snd after) in
       ps_stack (fst after) = result_items ctx i @ rest @ dn
     \<and> live_out (fst after) = live_out (fst before) \<and> live_future (fst after) \<subseteq> live_future (fst before) \<and> ps_block (fst after) = ps_block (fst before)
     \<and> mem_ok ctx mem' \<and> it_spill (snd after) = it_spill (snd before) \<and> it_requests (snd before) \<subseteq> it_requests (snd after) \<and> inherited_stack (snd after) = inherited_stack (snd before)
     \<and> (\<forall>w. inst_result (c_dfg ctx) i \<noteq> Some w \<longrightarrow> home_action ctx mem' w = home_action ctx mem w)
     \<and> (it_requests (snd after) = {} \<and> stored_ok ctx mem mn m \<and> imms_ok ctx mn \<longrightarrow>
         (\<exists>ops \<delta>. operands_for data ops \<and> pre_actions (it_alloc (snd after)) i = pre_actions (it_alloc (snd before)) i @ \<delta>
            \<and> exec_actions mn \<delta> (words mn (ps_stack (fst before)), m)
                = Some (map (m_value mn) ops @ (if call then [m_cont mn] else []) @ words mn (rest @ dn), m)))
     \<and> (\<exists>\<delta>. post_actions (it_alloc (snd after)) i = post_actions (it_alloc (snd before)) i @ \<delta>
            \<and> (\<forall>(mn' :: 'w Meaning) m'. exec_actions mn' \<delta> (words mn' (ps_stack (fst after)), m')
                 = Some (words mn' (ps_stack (fst after)), stored_result ctx i after mn' m'))))"

text \<open>What consuming the uses in \<open>args\<close> does to the counts and to the values with a use to come.\<close>

definition consumed :: "StackifyContext \<Rightarrow> ValueId list \<Rightarrow> BlockPlanState \<Rightarrow> BlockPlanState \<Rightarrow> bool" where
  "consumed ctx args st st' \<longleftrightarrow>
     (\<forall>v. v \<notin> set args \<or> is_imm ctx v \<longrightarrow> (v \<in> live_future st' \<longleftrightarrow> v \<in> live_future st) \<and> remaining_uses st' v = remaining_uses st v)
   \<and> (\<forall>v n. v \<in> set args \<and> \<not> is_imm ctx v \<and> remaining_uses st v = Some n \<longrightarrow>
        remaining_uses st' v = Some (n - count_list args v) \<and> (n = count_list args v \<longrightarrow> v \<notin> live_future st')
        \<and> (count_list args v < n \<longrightarrow> (v \<in> live_future st' \<longleftrightarrow> v \<in> live_future st)))"

lemma consumed_cong:
  "consumed ctx args st st' \<Longrightarrow> set args' = set args \<Longrightarrow> (\<And>v. count_list args' v = count_list args v) \<Longrightarrow>
    live_future sta = live_future st \<Longrightarrow> remaining_uses sta = remaining_uses st \<Longrightarrow> consumed ctx args' sta st'"
  by (simp add: consumed_def)

lemma count_rotate1 [simp]: "count_list (rotate1 xs) v = count_list xs v"
  by (cases xs) simp_all

text \<open>The values the code takes as consumed at their last use.\<close>

definition last_uses :: "StackifyContext \<Rightarrow> BlockPlanState \<Rightarrow> ValueId list \<Rightarrow> ValueId set" where
  "last_uses ctx st args = {v \<in> set args. \<not> is_imm ctx v \<and> (case remaining_uses st v of None \<Rightarrow> 0 | Some n \<Rightarrow> n) = count_list args v \<and> v \<notin> live_out st}"

lemma plan_normal_ok:
  assumes ctx: "reach_ok ctx" and ok: "mem_ok ctx (mem_plan_of (ps_free st) it)" and s: "ps_stack st = up @ dn" "FuncRetAddr \<notin> set up" "barrier dn"
    and i: "get_inst (c_dfg ctx) i = Inr data" and call: "call \<longleftrightarrow> (\<exists>f as. data = Call f as)" "call \<longrightarrow> length (values_of data) \<le> 16"
    and args: "args = (if call then rotate1 (values_of data) else values_of data)" "valid_values ctx (values_of data)"
  shows "\<exists>st' it' rest. plan_normal ctx i call args (last_uses ctx st args) (st, it) = Inr (st', it')
    \<and> planned_inst ctx i data mn m rest dn (st, it) (st', it') \<and> leaves ctx (last_uses ctx st args) args up rest
    \<and> live_future st' \<inter> last_uses ctx st args = {} \<and> consumed ctx args st st'"
proof -
  let ?cl = "last_uses ctx st args" and ?pl = "planner_of i (st, it)"
  have va: "valid_values ctx args" using args by (simp add: valid_values_def)
  have "homes_ok ctx (p_mem ?pl)" "p_stack ?pl = up @ dn" using mem_ok_homes [OF ok] s by simp_all
  from prepare_for_inst_ok [OF ctx va this s(2,3) i, of ?cl mn m] obtain args' pl1 where
    p1: "prepare_operands_for_inst ctx i args ?cl ?pl = Inr (args', pl1)"
      "args' = args \<or> args' = rev args \<and> length args = 2 \<and> commutative_data data" "prepared ctx mn m ?cl args ?pl up dn (args', pl1)" by blast
  from p1(3) obtain rest where r: "plans ctx mn m ?pl pl1" "p_stack pl1 = map Value args' @ rest @ dn" "leaves ctx ?cl args up rest"
    by (auto simp: prepared_def)
  have h1: "same_homes (mem_plan_of (ps_free st) it) (p_mem pl1)" using r(1) by (simp add: plans_def)
  from with_pre_ok [where f = "prepare_operands_for_inst ctx i args ?cl", OF p1(1)] h1 obtain st1 it1 where
    w: "with_pre_actions_planner i (prepare_operands_for_inst ctx i args ?cl) (st, it) = Inr (args', st1, it1)"
      "pre_frame i (st, it) (st1, it1)" "planner_of i (st1, it1) = pl1" by (auto simp: same_homes_def)
  have st1: "ps_stack st1 = map Value args' @ rest @ dn" using w(3) r(2) by (metis planner_of_simps(1))
  have nr: "FuncRetAddr \<notin> set rest" using r(3) by (simp add: leaves_def)
  have la: "length args' = length args" "set args' = set args" using p1(2) by auto
  define ops where "ops = (if call then abi_order args' else args')"
  have ops: "operands_for data ops" "length ops = length args'"
  proof -
    have "\<not> commutative_data data" if call using that call(1) by auto
    with p1(2) args(1) show "operands_for data ops" by (auto simp: ops_def operands_for_def)
    show "length ops = length args'" by (simp add: ops_def)
  qed
  have "\<exists>sti2. (if call then on_pre i (\<lambda>p. position_call_ret_below_operands (length args') (push_call_continuation p)) (st1, it1) else Inr (st1, it1)) = Inr sti2
      \<and> pre_frame i (st1, it1) sti2 \<and> ps_stack (fst sti2) = map Value ops @ cont_items call @ rest @ dn
      \<and> plans ctx mn m pl1 (planner_of i sti2)"
  proof (cases call)
    case False
    then show ?thesis using st1 w(3) pre_frame_refl by (simp add: ops_def cont_items_def)
  next
    case True
    have l: "length args' \<le> 16" using True call(2) la(1) args(1) by simp
    from position_call_ok [OF nr s(3) l, of "pre_actions (it_alloc it1) i" mn m] obtain a' where
      c: "position_call_ret_below_operands (length args') (push_call_continuation (map Value args' @ rest @ dn, pre_actions (it_alloc it1) i))
         = Inr (map Value (abi_order args') @ CallRetAddr # rest @ dn, a')"
        "emits mn m (map Value args' @ rest @ dn, pre_actions (it_alloc it1) i) (map Value (abi_order args') @ CallRetAddr # rest @ dn, a')" by blast
    have "\<exists>sti'. on_pre i (\<lambda>p. position_call_ret_below_operands (length args') (push_call_continuation p)) (st1, it1) = Inr sti' \<and> pre_frame i (st1, it1) sti'
      \<and> ps_stack (fst sti') = (map Value (abi_order args') @ CallRetAddr # rest) @ dn \<and> plans ctx mn m (planner_of i (st1, it1)) (planner_of i sti')"
      by (rule on_pre_plans [where up = "map Value args' @ rest"]) (use c st1 in simp_all)
    with True w(3) show ?thesis by (simp add: ops_def cont_items_def)
  qed
  then obtain st2 it2 where
    q: "(if call then on_pre i (\<lambda>p. position_call_ret_below_operands (length args') (push_call_continuation p)) (st1, it1) else Inr (st1, it1)) = Inr (st2, it2)"
      "pre_frame i (st1, it1) (st2, it2)" "ps_stack st2 = map Value ops @ cont_items call @ rest @ dn" "plans ctx mn m pl1 (planner_of i (st2, it2))" by auto
  have pl: "plans ctx mn m ?pl (planner_of i (st2, it2))" using r(1) q(4) by (rule plans_trans)
  have fr: "pre_frame i (st, it) (st2, it2)" using w(2) q(2) by (rule pre_frame_trans)
  note lf = live_frame [OF fr, simplified]
  have h2: "same_homes (mem_plan_of (ps_free st) it) (mem_plan_of (ps_free st2) it2)" using pl by (simp add: plans_def)
  have va': "valid_values ctx args'" using va la(2) by (simp add: valid_values_def)
  from consume_uses_ok [OF va', of "it_slots it2" st2] obtain u f free where
    c: "consume_uses (c_dfg ctx) (it_slots it2) args' st2 = Inr (st2\<lparr>remaining_uses := u, live_future := f, ps_free := free\<rparr>)" "f \<subseteq> live_future st2"
      "\<forall>v. v \<notin> set args' \<or> is_imm ctx v \<longrightarrow> (v \<in> f \<longleftrightarrow> v \<in> live_future st2) \<and> u v = remaining_uses st2 v"
      "\<forall>v n. v \<in> set args' \<and> \<not> is_imm ctx v \<and> remaining_uses st2 v = Some n \<longrightarrow> u v = Some (n - count_list args' v) \<and> (n = count_list args' v \<longrightarrow> v \<notin> f)
        \<and> (count_list args' v < n \<longrightarrow> (v \<in> f \<longleftrightarrow> v \<in> live_future st2))"
      "\<forall>live. pool_ok live (ps_free st2, it_slots it2) \<longrightarrow> pool_ok live (free, it_slots it2)" by auto
  let ?st3 = "st2\<lparr>remaining_uses := u, live_future := f, ps_free := free, ps_stack := rest @ dn\<rparr>"
  have "FuncRetAddr \<notin> set (map Value ops)" by auto
  from pop_n_operands_above [OF this, of "cont_items call @ rest @ dn"] q(3) ops(2)
  have pop: "pop_n_operands (length args') (ps_stack st2) = Inr (cont_items call @ rest @ dn)" by simp
  have rem: "(if call then remove_call_ret_addr (cont_items call @ rest @ dn) else Inr (cont_items call @ rest @ dn)) = Inr (rest @ dn)"
    using remove_call_ret_addr_above [of "[]" "rest @ dn"] by (simp add: cont_items_def)
  have ok3: "mem_ok ctx (mem_plan_of (ps_free ?st3) it2)"
    using same_homes_mem_ok [OF h2, of ctx] ok c(5) by (simp add: mem_ok_def)
  from push_result_ok [OF ok3, of i, where 'w = 'a] obtain st' it' \<delta>2 where
    res: "push_result ctx i (?st3, it2) = Inr (st', it')" and
    st': "\<exists>fr. st' = ?st3\<lparr>ps_stack := result_items ctx i @ rest @ dn, ps_free := fr\<rparr>" and
    it': "\<exists>sl. it' = it2\<lparr>it_slots := sl, it_alloc := (it_alloc it2)\<lparr>post_actions := (post_actions (it_alloc it2))(i := post_actions (it_alloc it2) i @ \<delta>2)\<rparr>\<rparr>" and
    ok': "mem_ok ctx (mem_plan_of (ps_free st') it')" and
    ho: "\<forall>w. inst_result (c_dfg ctx) i \<noteq> Some w \<longrightarrow> home_action ctx (mem_plan_of (ps_free st') it') w = home_action ctx (mem_plan_of (ps_free ?st3) it2) w" and
    x: "\<forall>(mn :: 'a Meaning) m. exec_actions mn \<delta>2 (words mn (ps_stack st'), m) = Some (words mn (ps_stack st'), stored_result ctx i (st', it') mn m)"
    by auto
  have run: "plan_normal ctx i call args ?cl (st, it) = Inr (st', it')"
    using w(1) q(1) c(1) pop rem res by (simp add: plan_normal_def split del: if_split)
  have rq: "it_requests it' = spill_requests (mp_spill (p_mem (planner_of i (st2, it2))))" "pre_actions (it_alloc it') i = pre_actions (it_alloc it2) i"
    using it' by auto
  have hom: "home_action ctx (mem_plan_of (ps_free ?st3) it2) v = home_action ctx (mem_plan_of (ps_free st) it) v" for v
    using same_homes_action [OF h2, of ctx v] home_action_cong [of "mem_plan_of free it2" "mem_plan_of (ps_free st2) it2" v ctx] by simp
  have pre: "\<exists>ops \<delta>. operands_for data ops \<and> pre_actions (it_alloc it') i = pre_actions (it_alloc it) i @ \<delta>
      \<and> exec_actions mn \<delta> (words mn (ps_stack st), m) = Some (map (m_value mn) ops @ (if call then [m_cont mn] else []) @ words mn (rest @ dn), m)"
    if "it_requests it' = {}" "stored_ok ctx (mem_plan_of (ps_free st) it) mn m" "imms_ok ctx mn"
  proof -
    have "emits mn m (p_stack ?pl, p_actions ?pl) (p_stack (planner_of i (st2, it2)), p_actions (planner_of i (st2, it2)))"
      using pl that rq(1) by (simp add: plans_def)
    then obtain \<delta> where d: "pre_actions (it_alloc it2) i = pre_actions (it_alloc it) i @ \<delta>"
      "exec_actions mn \<delta> (words mn (ps_stack st), m) = Some (words mn (ps_stack st2), m)" by (auto simp: emits_def)
    have "words mn (ps_stack st2) = map (m_value mn) ops @ (if call then [m_cont mn] else []) @ words mn (rest @ dn)"
      unfolding q(3) by (simp add: words_append cont_items_def comp_def)
    with d rq(2) ops(1) show ?thesis by auto
  qed
  have cl': "live_future st' \<inter> ?cl = {}"
  proof -
    have "v \<notin> f" if "v \<in> ?cl" for v
    proof -
      from that have v: "v \<in> set args'" "\<not> is_imm ctx v" "(case remaining_uses st v of None \<Rightarrow> 0 | Some n \<Rightarrow> n) = count_list args v"
        using la(2) by (auto simp: last_uses_def)
      have "count_list args v \<noteq> 0" using v(1) la(2) by (simp add: count_list_0_iff)
      with v(3) obtain n where "remaining_uses st v = Some n" "n = count_list args v" by (auto split: option.splits)
      moreover have "count_list args' v = count_list args v" using p1(2) by auto
      ultimately show ?thesis using c(4) v(1,2) lf by auto
    qed
    with st' show ?thesis by auto
  qed
  have "it_requests it \<subseteq> it_requests it'" using h2 rq(1) by (simp add: same_homes_def)
  then have "planned_inst ctx i data mn m rest dn (st, it) (st', it')"
    unfolding planned_inst_def Let_def fst_conv snd_conv call(1) [symmetric]
    using st' it' lf ok' ho hom pre x c(2) by (intro conjI) auto
  moreover have "consumed ctx args st st'"
  proof (rule consumed_cong)
    show "consumed ctx args' st2 st'" using st' c(3,4) unfolding consumed_def by auto
    show "count_list args v = count_list args' v" for v using p1(2) by auto
  qed (use la(2) lf in auto)
  ultimately show ?thesis using run r(3) cl' by blast
qed

lemma planned_inst_after:
  assumes f: "pre_frame i a b" and p: "plans ctx mn m (planner_of i a) (planner_of i b)" and n: "planned_inst ctx i data mn m rest dn b c"
  shows "planned_inst ctx i data mn m rest dn a c"
proof -
  obtain sa ia sb ib sc ic where e: "a = (sa, ia)" "b = (sb, ib)" "c = (sc, ic)" by (metis surj_pair)
  note lf = live_frame [OF f [unfolded e], simplified]
  have h: "same_homes (mem_plan_of (ps_free sa) ia) (mem_plan_of (ps_free sb) ib)" using p by (simp add: plans_def e)
  have rq: "it_requests ia \<subseteq> it_requests ib" using h by (simp add: same_homes_def)
  let ?call = "\<exists>f as. data = Call f as"
  have pre: "\<exists>ops \<delta>. operands_for data ops \<and> pre_actions (it_alloc ic) i = pre_actions (it_alloc ia) i @ \<delta>
      \<and> exec_actions mn \<delta> (words mn (ps_stack sa), m) = Some (map (m_value mn) ops @ (if ?call then [m_cont mn] else []) @ words mn (rest @ dn), m)"
    if t: "it_requests ic = {}" "stored_ok ctx (mem_plan_of (ps_free sa) ia) mn m" "imms_ok ctx mn"
  proof -
    have ib: "it_requests ib = {}" using n t(1) by (simp add: planned_inst_def Let_def e)
    have sb: "stored_ok ctx (mem_plan_of (ps_free sb) ib) mn m" using same_homes_stored [OF h, of ctx mn m] t(2) by simp
    from p ib t(2,3) obtain \<delta>1 where
      1: "pre_actions (it_alloc ib) i = pre_actions (it_alloc ia) i @ \<delta>1" "exec_actions mn \<delta>1 (words mn (ps_stack sa), m) = Some (words mn (ps_stack sb), m)"
      by (auto simp: plans_def emits_def e)
    from n t(1,3) sb obtain ops \<delta>2 where
      2: "operands_for data ops" "pre_actions (it_alloc ic) i = pre_actions (it_alloc ib) i @ \<delta>2"
        "exec_actions mn \<delta>2 (words mn (ps_stack sb), m) = Some (map (m_value mn) ops @ (if ?call then [m_cont mn] else []) @ words mn (rest @ dn), m)"
      unfolding planned_inst_def Let_def e fst_conv snd_conv by blast
    from 1 2 show ?thesis by (intro exI [of _ ops] exI [of _ "\<delta>1 @ \<delta>2"]) simp
  qed
  have hom: "home_action ctx (mem_plan_of (ps_free sb) ib) w = home_action ctx (mem_plan_of (ps_free sa) ia) w" for w
    by (rule same_homes_action [OF h])
  show ?thesis
    unfolding planned_inst_def Let_def e fst_conv snd_conv
  proof (intro conjI)
    show "(it_requests ic = {} \<and> stored_ok ctx (mem_plan_of (ps_free sa) ia) mn m \<and> imms_ok ctx mn \<longrightarrow>
         (\<exists>ops \<delta>. operands_for data ops \<and> pre_actions (it_alloc ic) i = pre_actions (it_alloc ia) i @ \<delta>
            \<and> exec_actions mn \<delta> (words mn (ps_stack sa), m)
                = Some (map (m_value mn) ops @ (if ?call then [m_cont mn] else []) @ words mn (rest @ dn), m)))"
      using pre by blast
  qed (use n lf rq hom in \<open>unfold planned_inst_def Let_def e fst_conv snd_conv, auto\<close>)
qed

lemma plan_inst_ok:
  assumes ctx: "reach_ok ctx" and b: "inject_prologue i sti = (st, it)" and ok: "mem_ok ctx (mem_plan_of (ps_free st) it)"
    and s: "ps_stack st = up @ dn" "FuncRetAddr \<notin> set up" "barrier dn" and vals: "values_valid ctx up"
    and i: "get_inst (c_dfg ctx) i = Inr data" "\<not> is_branch_inst data" "\<forall>r. data \<noteq> Return r"
    and va: "valid_values ctx (values_of data)" and call: "(\<exists>f as. data = Call f as) \<longrightarrow> length (values_of data) \<le> 16"
  shows "\<exists>after rest. plan_inst ctx templates i sti = Inr (ContinueBlock, after) \<and> planned_inst ctx i data mn m rest dn (st, it) after
    \<and> FuncRetAddr \<notin> set rest \<and> set rest \<subseteq> set up \<union> Value ` set (values_of data)
    \<and> (\<forall>v. Value v \<in> set up \<and> live_in_state (fst after) v \<and> \<not> is_imm ctx v \<longrightarrow> Value v \<in> set rest)
    \<and> consumed ctx (values_of data) st (fst after)"
proof -
  let ?live = "live_in_state st"
  define args where "args = (if \<exists>f as. data = Call f as then rotate1 (values_of data) else values_of data)"
  have ic: "is_call (c_dfg ctx) i = Inr (\<exists>f as. data = Call f as)" using i(1) by (simp add: is_call_def split: inst.split)
  have ib: "branch_info (c_dfg ctx) i = Inr None" "is_return (c_dfg ctx) i = Inr False"
    using i by (simp_all add: branch_info_def is_return_def split: inst.split)
  have oo: "operand_order_for_evm (c_func ctx) i = Inr args" using i(1) ic by (simp add: operand_order_for_evm_def args_def)
  have vargs: "valid_values ctx args" "set args = set (values_of data)" using va by (auto simp: args_def valid_values_def)
  have sw: "1 < swap_max (reach ctx)" "swap_max (reach ctx) \<le> 17" using ctx by (auto simp: reach_ok_def)
  from clean_ok [OF sw s(3,2), of ?live "pre_actions (it_alloc it) i" mn m] obtain up1 a1 where
    1: "clean_dead_stack_prefix (reach ctx) ?live (up @ dn, pre_actions (it_alloc it) i) = Inr (up1 @ dn, a1)"
      "emits mn m (up @ dn, pre_actions (it_alloc it) i) (up1 @ dn, a1)" "set up1 \<subseteq> set up" "\<forall>j \<in> set up. dead_item ?live j \<or> j \<in> set up1" by blast
  from on_pre_plans [where f = "clean_dead_stack_prefix (reach ctx) ?live", OF 1(1,2) s(1), of ctx] obtain st1 it1 where
    p1: "on_pre i (clean_dead_stack_prefix (reach ctx) ?live) (st, it) = Inr (st1, it1)" "pre_frame i (st, it) (st1, it1)"
      "ps_stack st1 = up1 @ dn" "plans ctx mn m (planner_of i (st, it)) (planner_of i (st1, it1))" by auto
  note l1 = live_frame [OF p1(2), simplified]
  have n1: "FuncRetAddr \<notin> set up1" "values_valid ctx up1" using 1(3) s(2) vals by (auto simp: values_valid_def)
  from improve_ok [OF sw(2) s(3) n1 vargs(1), of ?live "pre_actions (it_alloc it1) i" mn m] obtain up2 a2 where
    2: "improve_reachability_before_operands (c_func ctx) args (reach ctx) ?live (up1 @ dn, pre_actions (it_alloc it1) i) = Inr (up2 @ dn, a2)"
      "emits mn m (up1 @ dn, pre_actions (it_alloc it1) i) (up2 @ dn, a2)" "set up2 \<subseteq> set up1" "\<forall>j \<in> set up1. expendable ctx ?live j \<or> j \<in> set up2" by blast
  from on_pre_plans [where f = "improve_reachability_before_operands (c_func ctx) args (reach ctx) ?live", OF 2(1,2) p1(3), of ctx] obtain st2 it2 where
    p2: "on_pre i (improve_reachability_before_operands (c_func ctx) args (reach ctx) ?live) (st1, it1) = Inr (st2, it2)"
      "pre_frame i (st1, it1) (st2, it2)" "ps_stack st2 = up2 @ dn" "plans ctx mn m (planner_of i (st1, it1)) (planner_of i (st2, it2))" by auto
  note l2 = live_frame [OF p2(2), simplified]
  have pl: "plans ctx mn m (planner_of i (st, it)) (planner_of i (st2, it2))" using p1(4) p2(4) by (rule plans_trans)
  have fr: "pre_frame i (st, it) (st2, it2)" using p1(2) p2(2) by (rule pre_frame_trans)
  have "same_homes (mem_plan_of (ps_free st) it) (mem_plan_of (ps_free st2) it2)" using pl by (simp add: plans_def)
  from same_homes_mem_ok [OF this, of ctx] ok have ok2: "mem_ok ctx (mem_plan_of (ps_free st2) it2)" by simp
  have n2: "FuncRetAddr \<notin> set up2" using n1(1) 2(3) by auto
  have lu: "last_uses ctx st2 args = last_uses ctx st args" using l1 l2 by (simp add: last_uses_def)
  from plan_normal_ok [OF ctx ok2 p2(3) n2 s(3) i(1) refl call args_def va, of mn m, unfolded lu] obtain st' it' rest where
    r: "plan_normal ctx i (\<exists>f as. data = Call f as) args (last_uses ctx st args) (st2, it2) = Inr (st', it')"
      "planned_inst ctx i data mn m rest dn (st2, it2) (st', it')" "leaves ctx (last_uses ctx st args) args up2 rest"
      "live_future st' \<inter> last_uses ctx st args = {}" "consumed ctx args st2 st'" by blast
  have lv: "last_use_values_in_inst (c_func ctx) args (remaining_uses st) (live_out st) = Inr (last_uses ctx st args)"
    using last_use_ok [OF vargs(1)] by (simp add: last_uses_def)
  have run: "plan_inst ctx templates i sti = Inr (ContinueBlock, st', it')"
    using b ic ib oo lv p1(1) p2(1) r(1) by (simp add: plan_inst_def)
  have pi: "planned_inst ctx i data mn m rest dn (st, it) (st', it')" by (rule planned_inst_after [OF fr pl r(2)])
  have lf': "live_out st' = live_out st" "live_future st' \<subseteq> live_future st" using pi by (simp_all add: planned_inst_def Let_def)
  have keep: "Value v \<in> set rest" if "Value v \<in> set up" "live_in_state st' v" "\<not> is_imm ctx v" for v
  proof -
    have lv: "live_in_state st v" using that(2) lf' by auto
    then have "Value v \<in> set up1" using that(1) 1(4) by force
    then have "Value v \<in> set up2" using 2(4) lv that(3) by (force simp: expendable_def)
    moreover have "v \<notin> last_uses ctx st args" using that(2) r(4) lf'(1) by (auto simp: last_uses_def)
    ultimately show ?thesis using r(3) that(3) by (auto simp: leaves_def)
  qed
  have "FuncRetAddr \<notin> set rest" "set rest \<subseteq> set up \<union> Value ` set (values_of data)"
    using r(3) 1(3) 2(3) vargs(2) by (auto simp: leaves_def)
  moreover have "consumed ctx (values_of data) st st'"
  proof (rule consumed_cong [OF r(5)])
    show "count_list (values_of data) v = count_list args v" for v by (simp add: args_def count_rotate1)
  qed (use vargs(2) l1 l2 in auto)
  ultimately show ?thesis using run pi keep by (intro exI [of _ "(st', it')"] exI [of _ rest]) auto
qed

section \<open>Uses to come\<close>

text \<open>How often the instructions read a value, phis left out, and the book-keeping of the planner being exact for
  the instructions still to be planned.\<close>

fun reads_of :: "inst \<Rightarrow> ValueId \<Rightarrow> nat" where
  "reads_of (Phi _) v = 0"
| "reads_of data v = count_list (values_of data) v"

definition uses_in :: "DataFlowGraph \<Rightarrow> InstId list \<Rightarrow> ValueId \<Rightarrow> nat" where
  "uses_in d js v = sum_list (map (\<lambda>i. reads_of (d_insts d ! i) v) js)"

definition uses_exact :: "StackifyContext \<Rightarrow> InstId list \<Rightarrow> BlockPlanState \<Rightarrow> bool" where
  "uses_exact ctx js st \<longleftrightarrow> (\<forall>v. \<not> is_imm ctx v \<longrightarrow>
     (case remaining_uses st v of None \<Rightarrow> 0 | Some n \<Rightarrow> n) = uses_in (c_dfg ctx) js v
   \<and> (v \<in> live_future st \<longleftrightarrow> 0 < uses_in (c_dfg ctx) js v))"

lemma uses_in_simps [simp]:
  "uses_in d [] v = 0" "uses_in d (i # js) v = reads_of (d_insts d ! i) v + uses_in d js v"
  "uses_in d (xs @ ys) v = uses_in d xs v + uses_in d ys v"
  by (simp_all add: uses_in_def)

lemma reads_of_no_phi: "(\<forall>as. data \<noteq> Phi as) \<Longrightarrow> reads_of data v = count_list (values_of data) v"
  by (cases data) simp_all

lemma uses_exact_step:
  assumes c: "consumed ctx (values_of data) st st'" and x: "uses_exact ctx (i # js) st"
    and d: "d_insts (c_dfg ctx) ! i = data" "\<forall>as. data \<noteq> Phi as"
  shows "uses_exact ctx js st'"
  unfolding uses_exact_def
proof (intro allI impI)
  fix v assume v: "\<not> is_imm ctx v"
  let ?n = "count_list (values_of data) v" and ?k = "uses_in (c_dfg ctx) js v"
  from x v have e: "(case remaining_uses st v of None \<Rightarrow> 0 | Some n \<Rightarrow> n) = ?n + ?k" "v \<in> live_future st \<longleftrightarrow> 0 < ?n + ?k"
    using d reads_of_no_phi [OF d(2)] by (simp_all add: uses_exact_def)
  show "(case remaining_uses st' v of None \<Rightarrow> 0 | Some n \<Rightarrow> n) = ?k \<and> (v \<in> live_future st' \<longleftrightarrow> 0 < ?k)"
  proof (cases "v \<in> set (values_of data)")
    case False
    then have "?n = 0" by (simp add: count_list_0_iff)
    with c False e show ?thesis by (simp add: consumed_def)
  next
    case True
    then have "?n \<noteq> 0" by (simp add: count_list_0_iff)
    with e(1) have "remaining_uses st v = Some (?n + ?k)" by (auto split: option.splits)
    with c True v have "remaining_uses st' v = Some ?k" "?k = 0 \<longrightarrow> v \<notin> live_future st'"
      "0 < ?k \<longrightarrow> (v \<in> live_future st' \<longleftrightarrow> v \<in> live_future st)" by (simp_all add: consumed_def)
    with e(2) show ?thesis by auto
  qed
qed

text \<open>The counts taken at the start of a block are exact, and taking them has looked at every operand.\<close>

lemma non_imms_Inr: "non_imms (c_dfg ctx) vs = Inr ws \<Longrightarrow> valid_values ctx vs \<and> ws = filter (\<lambda>v. \<not> is_imm ctx v) vs"
proof (induction vs arbitrary: ws)
  case (Cons v vs)
  then obtain imm us where u: "value_is_imm (c_dfg ctx) v = Inr imm" "non_imms (c_dfg ctx) vs = Inr us" "ws = (if imm then us else v # us)" by auto
  from u(1) have l: "v < length (d_values (c_dfg ctx))"
    by (auto simp: value_is_imm_def get_value_def index_list_def split: if_splits)
  with u value_is_imm_valid [OF l] Cons.IH [OF u(2)] show ?case by (simp add: valid_values_def)
qed (simp add: valid_values_def)

lemma bump_eq: "(case bump vs counts v of None \<Rightarrow> 0 | Some n \<Rightarrow> n) = (case counts v of None \<Rightarrow> 0 | Some n \<Rightarrow> n) + count_list vs v"
  "bump vs counts v = None \<longleftrightarrow> counts v = None \<and> v \<notin> set vs"
  by (induction vs arbitrary: counts) (auto split: option.split)

lemma count_uses_Inr:
  "count_uses (c_dfg ctx) js counts = Inr counts' \<Longrightarrow>
    (\<forall>v. \<not> is_imm ctx v \<longrightarrow> (case counts' v of None \<Rightarrow> 0 | Some n \<Rightarrow> n) = (case counts v of None \<Rightarrow> 0 | Some n \<Rightarrow> n) + uses_in (c_dfg ctx) js v
        \<and> (counts' v = None \<longleftrightarrow> counts v = None \<and> uses_in (c_dfg ctx) js v = 0))
    \<and> (\<forall>i \<in> set js. i < length (d_insts (c_dfg ctx)) \<and> ((\<forall>as. d_insts (c_dfg ctx) ! i \<noteq> Phi as) \<longrightarrow> valid_values ctx (values_of (d_insts (c_dfg ctx) ! i))))"
proof (induction js arbitrary: counts)
  case (Cons i js)
  let ?data = "d_insts (c_dfg ctx) ! i"
  from Cons.prems obtain phi where p: "is_phi (c_dfg ctx) i = Inr phi" by auto
  then have i: "i < length (d_insts (c_dfg ctx))" "phi \<longleftrightarrow> (\<exists>as. ?data = Phi as)" "get_inst (c_dfg ctx) i = Inr ?data"
    by (auto simp: is_phi_def get_inst_def index_list_def split: if_splits inst.splits)
  show ?case
  proof (cases phi)
    case True
    with Cons.prems p have "count_uses (c_dfg ctx) js counts = Inr counts'" by simp
    from Cons.IH [OF this] True i show ?thesis by auto
  next
    case False
    with Cons.prems p i(3) obtain ws where w: "non_imms (c_dfg ctx) (values_of ?data) = Inr ws" "count_uses (c_dfg ctx) js (bump ws counts) = Inr counts'"
      by auto
    from non_imms_Inr [OF w(1)] have ws: "valid_values ctx (values_of ?data)" "ws = filter (\<lambda>v. \<not> is_imm ctx v) (values_of ?data)" by simp_all
    have c: "count_list ws v = reads_of ?data v" "v \<in> set ws \<longleftrightarrow> reads_of ?data v \<noteq> 0" if "\<not> is_imm ctx v" for v
    proof -
      have "count_list (filter (\<lambda>v. \<not> is_imm ctx v) xs) v = count_list xs v" for xs using that by (induction xs) auto
      then show e: "count_list ws v = reads_of ?data v" using False i(2) ws(2) reads_of_no_phi [of ?data v] by simp
      then show "v \<in> set ws \<longleftrightarrow> reads_of ?data v \<noteq> 0" using count_list_0_iff [of ws v] by simp
    qed
    from Cons.IH [OF w(2)] i ws(1) show ?thesis by (auto simp: bump_eq c)
  qed
qed simp

lemma count_block_uses_exact:
  assumes "count_block_uses (c_func ctx) b = Inr (remaining_uses st, live_future st)" and "insts_of (c_func ctx) b = Inr js"
  shows "uses_exact ctx js st"
    and "\<forall>i \<in> set js. i < length (d_insts (c_dfg ctx)) \<and> ((\<forall>as. d_insts (c_dfg ctx) ! i \<noteq> Phi as) \<longrightarrow> valid_values ctx (values_of (d_insts (c_dfg ctx) ! i)))"
proof -
  from assms have c: "count_uses (c_dfg ctx) js Map.empty = Inr (remaining_uses st)" "live_future st = dom (remaining_uses st)"
    by (auto simp: count_block_uses_def)
  note u = count_uses_Inr [OF c(1)]
  show "uses_exact ctx js st"
    unfolding uses_exact_def c(2) dom_def using conjunct1 [OF u] by auto
  show "\<forall>i \<in> set js. i < length (d_insts (c_dfg ctx)) \<and> ((\<forall>as. d_insts (c_dfg ctx) ! i \<noteq> Phi as) \<longrightarrow> valid_values ctx (values_of (d_insts (c_dfg ctx) ! i)))"
    using conjunct2 [OF u] .
qed

section \<open>A run of instructions\<close>

text \<open>An instruction the planner handles in line: no branch and no return, a call with at most sixteen operands, and a result
  that is a value of the function.\<close>

definition in_line :: "StackifyContext \<Rightarrow> InstId \<Rightarrow> bool" where
  "in_line ctx i \<longleftrightarrow> (let data = d_insts (c_dfg ctx) ! i in \<not> is_branch_inst data \<and> (\<forall>r. data \<noteq> Return r)
     \<and> ((\<exists>f as. data = Call f as) \<longrightarrow> length (values_of data) \<le> 16)
     \<and> (\<forall>r. inst_result (c_dfg ctx) i = Some r \<longrightarrow> r < length (d_values (c_dfg ctx))))"

text \<open>The values there are to keep: those on the stack and the results of the instructions.\<close>

definition available :: "StackifyContext \<Rightarrow> SymStack \<Rightarrow> InstId list \<Rightarrow> ValueId \<Rightarrow> bool" where
  "available ctx up js v \<longleftrightarrow> Value v \<in> set up
     \<or> (\<exists>i \<in> set js. inst_result (c_dfg ctx) i = Some v \<and> (\<forall>as. d_insts (c_dfg ctx) ! i \<noteq> Phi as))"

lemma inject_prologue_frame:
  "\<exists>st' it'. inject_prologue i (st, it) = (st', it') \<and> mem_plan_of (ps_free st') it' = mem_plan_of (ps_free st) it
     \<and> ps_stack st' = ps_stack st \<and> live_out st' = live_out st \<and> uses_exact ctx js st' = uses_exact ctx js st"
  by (simp add: inject_prologue_def set_pre_def mem_plan_of_def uses_exact_def)

lemma plan_insts_ok:
  assumes "reach_ok ctx" and "barrier dn"
    and "\<forall>i \<in> set js. i < length (d_insts (c_dfg ctx)) \<and> in_line ctx i
      \<and> ((\<forall>as. d_insts (c_dfg ctx) ! i \<noteq> Phi as) \<longrightarrow> valid_values ctx (values_of (d_insts (c_dfg ctx) ! i)))"
  shows "mem_ok ctx (mem_plan_of (ps_free st) it) \<Longrightarrow> ps_stack st = up @ dn \<Longrightarrow> FuncRetAddr \<notin> set up \<Longrightarrow> values_valid ctx up \<Longrightarrow>
      uses_exact ctx (js @ ks) st \<Longrightarrow>
    \<exists>st' it' up'. plan_insts ctx templates js (st, it) = Inr (st', it') \<and> ps_stack st' = up' @ dn \<and> FuncRetAddr \<notin> set up'
      \<and> uses_exact ctx ks st' \<and> live_out st' = live_out st \<and> mem_ok ctx (mem_plan_of (ps_free st') it')
      \<and> (\<forall>v. \<not> is_imm ctx v \<and> available ctx up js v \<and> (0 < uses_in (c_dfg ctx) ks v \<or> v \<in> live_out st) \<longrightarrow> Value v \<in> set up')"
  using assms(3)
proof (induction js arbitrary: st it up)
  case Nil
  then show ?case by (auto simp: available_def)
next
  case (Cons i js)
  let ?data = "d_insts (c_dfg ctx) ! i"
  have i: "i < length (d_insts (c_dfg ctx))" "in_line ctx i" using Cons.prems(6) by simp_all
  have g: "get_inst (c_dfg ctx) i = Inr ?data" using i(1) by (simp add: get_inst_def index_list_def)
  then have ph: "is_phi (c_dfg ctx) i = Inr (\<exists>as. ?data = Phi as)" by (simp add: is_phi_def split: inst.split)
  show ?case
  proof (cases "\<exists>as. ?data = Phi as")
    case True
    then have "uses_exact ctx (js @ ks) st" using Cons.prems(5) by (auto simp: uses_exact_def)
    moreover have "available ctx up (i # js) v \<longleftrightarrow> available ctx up js v" for v using True by (auto simp: available_def)
    ultimately show ?thesis using Cons.IH [OF Cons.prems(1-4)] Cons.prems(6) True ph by simp
  next
    case False
    have il: "\<not> is_branch_inst ?data" "\<forall>r. ?data \<noteq> Return r" "(\<exists>f as. ?data = Call f as) \<longrightarrow> length (values_of ?data) \<le> 16"
      "\<forall>r. inst_result (c_dfg ctx) i = Some r \<longrightarrow> r < length (d_values (c_dfg ctx))" using i(2) by (simp_all add: in_line_def Let_def)
    have va: "valid_values ctx (values_of ?data)" using Cons.prems(6) False by simp
    from inject_prologue_frame [of i st it ctx "i # js @ ks"] obtain st0 it0 where
      0: "inject_prologue i (st, it) = (st0, it0)" "mem_plan_of (ps_free st0) it0 = mem_plan_of (ps_free st) it" "ps_stack st0 = ps_stack st"
        "live_out st0 = live_out st" "uses_exact ctx (i # js @ ks) st0 = uses_exact ctx (i # js @ ks) st" by blast
    have ok0: "mem_ok ctx (mem_plan_of (ps_free st0) it0)" "ps_stack st0 = up @ dn" using Cons.prems(1,2) 0 by simp_all
    from plan_inst_ok [OF assms(1) 0(1) ok0 Cons.prems(3) assms(2) Cons.prems(4) g il(1,2) va il(3), of templates sample_meaning sample_memory]
    obtain st1 it1 rest where
      1: "plan_inst ctx templates i (st, it) = Inr (ContinueBlock, st1, it1)" "planned_inst ctx i ?data sample_meaning sample_memory rest dn (st0, it0) (st1, it1)"
        "FuncRetAddr \<notin> set rest" "set rest \<subseteq> set up \<union> Value ` set (values_of ?data)"
        "\<forall>v. Value v \<in> set up \<and> live_in_state st1 v \<and> \<not> is_imm ctx v \<longrightarrow> Value v \<in> set rest" "consumed ctx (values_of ?data) st0 st1" by auto
    have s1: "ps_stack st1 = (result_items ctx i @ rest) @ dn" "live_out st1 = live_out st" "mem_ok ctx (mem_plan_of (ps_free st1) it1)"
      using 1(2) 0(4) by (simp_all add: planned_inst_def Let_def)
    have n1: "FuncRetAddr \<notin> set (result_items ctx i @ rest)" using 1(3) by (simp add: result_items_def split: option.split)
    have v1: "values_valid ctx (result_items ctx i @ rest)"
      using 1(4) Cons.prems(4) va il(4) by (auto simp: values_valid_def valid_values_def result_items_def split: option.splits)
    have x1: "uses_exact ctx (js @ ks) st1" using uses_exact_step [OF 1(6) _ refl] 0(5) Cons.prems(5) False by auto
    from Cons.IH [OF s1(3,1) n1 v1 x1] Cons.prems(6) obtain st' it' up' where
      2: "plan_insts ctx templates js (st1, it1) = Inr (st', it')" "ps_stack st' = up' @ dn" "FuncRetAddr \<notin> set up'" "uses_exact ctx ks st'"
        "live_out st' = live_out st" "mem_ok ctx (mem_plan_of (ps_free st') it')"
        "\<forall>v. \<not> is_imm ctx v \<and> available ctx (result_items ctx i @ rest) js v \<and> (0 < uses_in (c_dfg ctx) ks v \<or> v \<in> live_out st) \<longrightarrow> Value v \<in> set up'"
      using s1(2) by auto
    have "available ctx (result_items ctx i @ rest) js v"
      if v: "\<not> is_imm ctx v" "available ctx up (i # js) v" "0 < uses_in (c_dfg ctx) ks v \<or> v \<in> live_out st" for v
    proof -
      have "live_in_state st1 v" using x1 v(1,3) s1(2) by (auto simp: uses_exact_def)
      with 1(5) v(1,2) False show ?thesis by (auto simp: available_def result_items_def)
    qed
    with 1(1) 2 ph False show ?thesis by auto
  qed
qed

section \<open>Properties\<close>

text \<open>C8: planning an instruction that is neither a branch nor a return succeeds and simulates it: unless a value
  had to be marked for spilling, the actions before it turn the machine stack into the operands of the
  instruction on top (in order, or exchanged if it commutes; for a call in argument order with the
  continuation below them) over the rest, memory unchanged; afterwards the symbolic stack has the result in
  place of the operands, and the actions after it store the result in its home if it has one and is live.\<close>
theorem plan_inst_correct:
  assumes "reach_ok ctx" and "mem_ok ctx (mem_plan_of (ps_free st) it)" and "prologue st = [] \<or> injected_prologue st"
    and "ps_stack st = up @ dn" and "FuncRetAddr \<notin> set up" and "barrier dn" and "values_valid ctx up"
    and "get_inst (c_dfg ctx) i = Inr data" and "\<not> is_branch_inst data" and "\<forall>r. data \<noteq> Return r"
    and "valid_values ctx (values_of data)" and "(\<exists>f as. data = Call f as) \<longrightarrow> length (values_of data) \<le> 16"
  shows "\<exists>st' it' rest. plan_inst ctx templates i (st, it) = Inr (ContinueBlock, st', it')
    \<and> ps_stack st' = result_items ctx i @ rest @ dn \<and> mem_ok ctx (mem_plan_of (ps_free st') it')
    \<and> (\<forall>w. inst_result (c_dfg ctx) i \<noteq> Some w \<longrightarrow>
         home_action ctx (mem_plan_of (ps_free st') it') w = home_action ctx (mem_plan_of (ps_free st) it) w)
    \<and> (it_requests it' = {} \<and> stored_ok ctx (mem_plan_of (ps_free st) it) (mn :: 'w Meaning) m \<and> imms_ok ctx mn \<longrightarrow>
        (\<exists>ops \<delta>. operands_for data ops \<and> pre_actions (it_alloc it') i = pre_actions (it_alloc it) i @ \<delta>
           \<and> exec_actions mn \<delta> (words mn (up @ dn), m)
               = Some (map (m_value mn) ops @ (if \<exists>f as. data = Call f as then [m_cont mn] else []) @ words mn (rest @ dn), m)))
    \<and> (\<exists>\<delta>. post_actions (it_alloc it') i = post_actions (it_alloc it) i @ \<delta>
         \<and> (\<forall>(mn' :: 'w Meaning) m'. exec_actions mn' \<delta> (words mn' (ps_stack st'), m')
              = Some (words mn' (ps_stack st'), stored_result ctx i (st', it') mn' m')))"
proof -
  have "inject_prologue i (st, it) = (st, it)" using assms(3) by (auto simp: inject_prologue_def)
  from plan_inst_ok [OF assms(1) this assms(2,4-12), of templates mn m] obtain st' it' rest where
    "plan_inst ctx templates i (st, it) = Inr (ContinueBlock, st', it')" "planned_inst ctx i data mn m rest dn (st, it) (st', it')" by auto
  then show ?thesis unfolding planned_inst_def Let_def fst_conv snd_conv assms(4)
    by (intro exI [of _ st'] exI [of _ it'] exI [of _ rest]) (elim conjE, intro conjI; assumption)
qed

text \<open>C21: no value that is still needed is lost. From the counts taken at the start of a block, planning any run of
  instructions that are no branches and no returns succeeds, whatever cleaning, victim selection, operand preparation and
  consumption at last uses do. Every value that is no immediate, was on the stack or was computed by the run,
  and is read by an instruction of the block after the run or is live out of the block, is then on the stack, and the
  book-keeping is exact: the remaining count of a value is the number of its uses after the run, and it is in the future
  set exactly if there is one.\<close>
theorem planning_keeps_live:
  assumes "reach_ok ctx" and "mem_ok ctx (mem_plan_of (ps_free st) it)"
    and "ps_stack st = up @ dn" and "FuncRetAddr \<notin> set up" and "barrier dn" and "values_valid ctx up"
    and "insts_of (c_func ctx) b = Inr (js @ ks)" and "count_block_uses (c_func ctx) b = Inr (remaining_uses st, live_future st)"
    and "\<forall>i \<in> set js. in_line ctx i"
  shows "\<exists>st' it' up'. plan_insts ctx templates js (st, it) = Inr (st', it') \<and> ps_stack st' = up' @ dn \<and> live_out st' = live_out st
    \<and> (\<forall>v. \<not> is_imm ctx v \<and> available ctx up js v \<and> (0 < uses_in (c_dfg ctx) ks v \<or> v \<in> live_out st) \<longrightarrow> Value v \<in> set up')
    \<and> (\<forall>v. \<not> is_imm ctx v \<longrightarrow> (case remaining_uses st' v of None \<Rightarrow> 0 | Some n \<Rightarrow> n) = uses_in (c_dfg ctx) ks v
         \<and> (v \<in> live_future st' \<longleftrightarrow> 0 < uses_in (c_dfg ctx) ks v))"
proof -
  note x = count_block_uses_exact [OF assms(8,7)]
  have "\<forall>i \<in> set js. i < length (d_insts (c_dfg ctx)) \<and> in_line ctx i
      \<and> ((\<forall>as. d_insts (c_dfg ctx) ! i \<noteq> Phi as) \<longrightarrow> valid_values ctx (values_of (d_insts (c_dfg ctx) ! i)))"
    using x(2) assms(9) by simp
  from plan_insts_ok [OF assms(1,5) this assms(2-4,6) x(1), of templates] show ?thesis
    unfolding uses_exact_def by blast
qed

definition empty_iter :: Iter where
  "empty_iter = \<lparr>it_spill = {}, it_requests = {}, it_slots = slot_pool_default,
     it_alloc = \<lparr>pre_actions = \<lambda>_. [], post_actions = \<lambda>_. [], brtable_actions = \<lambda>_. None, al_spill_obj = \<lambda>_. None, scratch_slot_of_value = \<lambda>_. None\<rparr>,
     inherited_stack = \<lambda>_. None\<rparr>"

definition sample_state :: BlockPlanState where
  "sample_state = \<lparr>ps_block = 0, ps_free = {}, prologue = [], injected_prologue = False, remaining_uses = [0 \<mapsto> 1, 1 \<mapsto> 2],
     live_future = {0, 1}, live_out = {}, ps_stack = [Value 0, Value 1, FuncRetAddr]\<rparr>"

lemma sample_state_ok:
  "mem_ok sub_context (mem_plan_of (ps_free sample_state) empty_iter)" "prologue sample_state = [] \<or> injected_prologue sample_state"
  "ps_stack sample_state = [Value 0, Value 1] @ [FuncRetAddr]" "FuncRetAddr \<notin> set [Value 0, Value 1]" "barrier [FuncRetAddr]"
  "values_valid sub_context [Value 0, Value 1]" "\<not> is_branch_inst (Sub 1 0)" "\<forall>r. Sub 1 0 \<noteq> Return r"
  "valid_values sub_context (values_of (Sub 1 0))" "(\<exists>f as. Sub 1 0 = Call f as) \<longrightarrow> length (values_of (Sub 1 0)) \<le> 16"
  by (simp_all add: sub_context_def sample_context_def mem_ok_def mem_plan_of_def empty_iter_def sample_state_def slot_pool_default_def pool_ok_def
      barrier_def values_valid_def valid_values_def)

theorem plan_inst_correct_witness:
  "\<exists>st' it'. plan_inst sub_context (\<lambda>_. \<lparr>params = [], transfer = []\<rparr>) 0 (sample_state, empty_iter) = Inr (ContinueBlock, st', it')
    \<and> mem_ok sub_context (mem_plan_of (ps_free st') it')"
  using plan_inst_correct [OF sub_context_ok(1) sample_state_ok(1-6) sub_context_ok(4) sample_state_ok(7-10),
      where mn = sample_meaning and m = sample_memory and templates = "\<lambda>_. \<lparr>params = [], transfer = []\<rparr>"] by auto

text \<open>A block that subtracts its arguments and adds one of them to the difference.\<close>

definition block_context :: StackifyContext where
  "block_context = sample_context\<lparr>c_func := sample_func\<lparr>f_dfg := dfg_new\<lparr>
     d_values := [V_Arg Ty_I8 0, V_Arg Ty_I8 1, V_Immediate (Imm_I8 7) Ty_I8, V_Inst 0 Ty_I8], d_insts := [Sub 1 0, Add 3 1, Return (Some 3)],
     inst_results := [0 \<mapsto> 3]\<rparr>\<rparr>\<rparr>"

definition block_state :: BlockPlanState where
  "block_state = sample_state\<lparr>remaining_uses := bump [3, 1] (bump [1, 0] Map.empty), live_future := dom (bump [3, 1] (bump [1, 0] Map.empty))\<rparr>"

lemma block_context_ok:
  "insts_of (c_func block_context) 0 = Inr ([0] @ [1])"
  "count_block_uses (c_func block_context) 0 = Inr (remaining_uses block_state, live_future block_state)"
proof -
  have "iter_inst (f_layout sample_func) 0 = Inr (Some (sample_insts 0))"
    by (rule iter_inst_view [OF function_okD(1) [OF sample_func_ok]]) simp
  then show i: "insts_of (c_func block_context) 0 = Inr ([0] @ [1])"
    by (simp add: insts_of_def block_context_def sample_insts_def)
  show "count_block_uses (c_func block_context) 0 = Inr (remaining_uses block_state, live_future block_state)"
    unfolding count_block_uses_def i
    by (simp add: block_context_def block_state_def is_phi_def get_inst_def index_list_def value_is_imm_def get_value_def del: bump.simps)
qed

theorem planning_keeps_live_witness:
  "\<exists>st' it' up'. plan_insts block_context (\<lambda>_. \<lparr>params = [], transfer = []\<rparr>) [0] (block_state, empty_iter) = Inr (st', it')
    \<and> ps_stack st' = up' @ [FuncRetAddr] \<and> Value 1 \<in> set up' \<and> Value 3 \<in> set up' \<and> 0 \<notin> live_future st'"
proof -
  have h: "reach_ok block_context" "mem_ok block_context (mem_plan_of (ps_free block_state) empty_iter)"
    "ps_stack block_state = [Value 0, Value 1] @ [FuncRetAddr]" "values_valid block_context [Value 0, Value 1]" "\<forall>i \<in> set [0]. in_line block_context i"
    by (simp_all add: block_context_def sample_context_def block_state_def sample_state_def mem_ok_def mem_plan_of_def empty_iter_def slot_pool_default_def
        pool_ok_def values_valid_def in_line_def reach_ok_def inst_result_def)
  have n: "\<not> is_imm block_context v" if "v \<in> {0, 1, 3}" for v using that by (auto simp: is_imm_def block_context_def)
  have u: "uses_in (c_dfg block_context) [1] 1 = 1" "uses_in (c_dfg block_context) [1] 3 = 1" "uses_in (c_dfg block_context) [1] 0 = 0"
    by (simp_all add: block_context_def)
  have a: "available block_context [Value 0, Value 1] [0] 1" "available block_context [Value 0, Value 1] [0] 3"
    by (simp_all add: available_def block_context_def inst_result_def)
  from planning_keeps_live [OF h(1-3) sample_state_ok(4,5) h(4) block_context_ok h(5), where templates = "\<lambda>_. \<lparr>params = [], transfer = []\<rparr>"]
  obtain st' it' up' where
    p: "plan_insts block_context (\<lambda>_. \<lparr>params = [], transfer = []\<rparr>) [0] (block_state, empty_iter) = Inr (st', it')" "ps_stack st' = up' @ [FuncRetAddr]"
      "\<forall>v. \<not> is_imm block_context v \<and> available block_context [Value 0, Value 1] [0] v
        \<and> (0 < uses_in (c_dfg block_context) [1] v \<or> v \<in> live_out block_state) \<longrightarrow> Value v \<in> set up'"
      "\<forall>v. \<not> is_imm block_context v \<longrightarrow> (case remaining_uses st' v of None \<Rightarrow> 0 | Some n \<Rightarrow> n) = uses_in (c_dfg block_context) [1] v
         \<and> (v \<in> live_future st' \<longleftrightarrow> 0 < uses_in (c_dfg block_context) [1] v)" by blast
  from p(3) n u a have "Value 1 \<in> set up'" "Value 3 \<in> set up'" by simp_all
  moreover from p(4) n [of 0] u(3) have "0 \<notin> live_future st'" by simp
  ultimately show ?thesis using p(1,2) by blast
qed

fun store_args :: "StackifyAlloc \<Rightarrow> (ValueId \<times> 'w) list \<Rightarrow> 'w Memory \<Rightarrow> 'w Memory" where
  "store_args al [] m = m"
| "store_args al ((v, w) # vws) m = store_args al vws
     (case scratch_slot_of_value al v of
        Some k \<Rightarrow> m\<lparr>at_abs := (at_abs m)(k * 32 := w)\<rparr>
      | None \<Rightarrow> (case al_spill_obj al v of Some ob \<Rightarrow> m\<lparr>at_obj := (at_obj m)(ob := w)\<rparr> | None \<Rightarrow> m))"

lemma enter_args_ok:
  assumes "\<forall>v k. scratch_slot_of_value al v = Some k \<longrightarrow> k * 32 < u32_limit"
  shows "idx + length args \<le> DUP_MAX \<Longrightarrow> length front = idx \<Longrightarrow> length ws = length args
    \<Longrightarrow> \<exists>acts. enter_args al idx args = Inr acts
      \<and> exec_actions mn acts (front @ ws @ st, m) = Some (front @ ws @ st, store_args al (zip args ws) m)"
proof (induction args arbitrary: idx front ws m)
  case (Cons v args)
  from Cons.prems(3) obtain w ws' where ws: "ws = w # ws'" "length ws' = length args" by (cases ws) auto
  have "\<exists>acts. enter_args al (Suc idx) args = Inr acts \<and> exec_actions mn acts ((front @ [w]) @ ws' @ st, m')
      = Some ((front @ [w]) @ ws' @ st, store_args al (zip args ws') m')" for m'
    by (rule Cons.IH) (use Cons.prems ws in auto)
  then have ih: "\<exists>acts. enter_args al (Suc idx) args = Inr acts \<and> exec_actions mn acts (front @ w # ws' @ st, m')
      = Some (front @ w # ws' @ st, store_args al (zip args ws') m')" for m' by simp
  have n: "(front @ w # ws' @ st) ! idx = w" "idx < DUP_MAX" using Cons.prems by (auto simp: nth_append)
  show ?case
  proof (cases "scratch_slot_of_value al v")
    case (Some k)
    with assms have "slot_offset k = Inr (k * 32)" by (simp add: slot_offset_def)
    with Some n ws Cons.prems(2) ih [of "m\<lparr>at_abs := (at_abs m)(k * 32 := w)\<rparr>"] show ?thesis by auto
  next
    case None
    show ?thesis
    proof (cases "al_spill_obj al v")
      case None': None
      with None n ws ih [of m] show ?thesis by auto
    next
      case (Some ob)
      with None n ws Cons.prems(2) ih [of "m\<lparr>at_obj := (at_obj m)(ob := w)\<rparr>"] show ?thesis by auto
    qed
  qed
qed simp

text \<open>Entering a function stores exactly the arguments that have a home: with a word for every argument on top of
  the machine stack and the arguments within the reach of a dup, the entry actions run, leave the stack
  unchanged and write each argument into its scratch slot, or else its object, in the order of the arguments.\<close>
theorem enter_function_stores_arguments:
  assumes "length (arg_values func) \<le> DUP_MAX" and "\<forall>v k. scratch_slot_of_value al v = Some k \<longrightarrow> k * 32 < u32_limit"
    and "length ws = length (arg_values func)"
  shows "\<exists>acts. enter_function al func = Inr acts
    \<and> exec_actions mn acts (ws @ st, m) = Some (ws @ st, store_args al (zip (arg_values func) ws) m)"
  using enter_args_ok [OF assms(2), of 0 "arg_values func" "[]" ws mn st m] assms(1,3) by (simp add: enter_function_def)

theorem enter_function_stores_arguments_witness:
  "\<exists>acts. enter_function (it_alloc empty_iter\<lparr>scratch_slot_of_value := [0 \<mapsto> 2]\<rparr>) (sample_func\<lparr>arg_values := [0]\<rparr>) = Inr acts
    \<and> (\<exists>m'. exec_actions sample_meaning acts ([7], sample_memory) = Some ([7], m') \<and> at_abs m' 64 = 7)"
proof -
  let ?al = "it_alloc empty_iter\<lparr>scratch_slot_of_value := [0 \<mapsto> 2]\<rparr>" and ?f = "sample_func\<lparr>arg_values := [0]\<rparr>"
  have "length (arg_values ?f) \<le> DUP_MAX" "\<forall>v k. scratch_slot_of_value ?al v = Some k \<longrightarrow> k * 32 < u32_limit"
    by (auto simp: u32_limit_def)
  from enter_function_stores_arguments [OF this, of "[7]" sample_meaning "[]" sample_memory] show ?thesis by auto
qed

end
