(* ===== verification/Liveness.thy ===== *)
theory Liveness
  imports Cfg
begin

text \<open>
  \<open>crates/codegen/src/liveness.rs\<close>: the live-in and live-out sets of the blocks by path exploration from the uses
  of each value, the values live after each instruction, and those live across calls. The exploration is
  shown to end and to compute liveness as it is defined by paths.
\<close>

section \<open>State\<close>

datatype ValDef = FnArg | NormalDef BlockId | PhiDef BlockId

record Liveness =
  live_ins :: "BlockId \<Rightarrow> ValueId set"
  live_outs :: "BlockId \<Rightarrow> ValueId set"
  val_defs :: "ValueId \<Rightarrow> ValDef option"
  val_live_blocks :: "ValueId \<Rightarrow> BlockId set"
  val_use_blocks :: "ValueId \<Rightarrow> BlockId set"
  val_use_count :: "ValueId \<Rightarrow> nat"

definition liveness_new :: Liveness where
  "liveness_new = \<lparr>live_ins = (\<lambda>_. {}), live_outs = (\<lambda>_. {}), val_defs = (\<lambda>_. None), val_live_blocks = (\<lambda>_. {}),
     val_use_blocks = (\<lambda>_. {}), val_use_count = (\<lambda>_. 0)\<rparr>"

text \<open>The counts and blocks of uses are not reset.\<close>

definition liveness_clear :: "Liveness \<Rightarrow> Liveness" where
  "liveness_clear lv = lv\<lparr>live_ins := (\<lambda>_. {}), live_outs := (\<lambda>_. {}), val_defs := (\<lambda>_. None), val_live_blocks := (\<lambda>_. {})\<rparr>"

section \<open>Definitions and uses of a block\<close>

text \<open>\<open>for_each_def\<close> and \<open>for_each_use\<close> as the list of what they hand to their callback.\<close>

fun inst_defs :: "DataFlowGraph \<Rightarrow> InstId list \<Rightarrow> fault + (ValueId \<times> bool) list" where
  "inst_defs d [] = Inr []"
| "inst_defs d (i # js) = rbind (case inst_result d i of
        None \<Rightarrow> Inr []
      | Some v \<Rightarrow> rbind (is_phi d i) (\<lambda>phi. Inr [(v, phi)])) (\<lambda>xs. rbind (inst_defs d js) (\<lambda>ys. Inr (xs @ ys)))"

definition for_each_def :: "Function \<Rightarrow> BlockId \<Rightarrow> fault + (ValueId \<times> bool) list" where
  "for_each_def func block = rbind (insts_of func block) (inst_defs (f_dfg func))"

fun inst_uses :: "DataFlowGraph \<Rightarrow> InstId list \<Rightarrow> fault + (ValueId \<times> BlockId option) list" where
  "inst_uses d [] = Inr []"
| "inst_uses d (i # js) = rbind (get_inst d i) (\<lambda>data.
     rbind (inst_uses d js) (\<lambda>ys.
       Inr ((case data of
               Phi args \<Rightarrow> map (\<lambda>(val, block). (val, Some block)) args
             | _ \<Rightarrow> map (\<lambda>v. (v, None)) (values_of data)) @ ys)))"

definition for_each_use :: "Function \<Rightarrow> BlockId \<Rightarrow> fault + (ValueId \<times> BlockId option) list" where
  "for_each_use func block = rbind (insts_of func block) (inst_uses (f_dfg func))"

definition value_uses_in_block_matching_predicate :: "Function \<Rightarrow> BlockId \<Rightarrow> (ValueId \<Rightarrow> bool) \<Rightarrow> fault + (ValueId \<Rightarrow> nat option)" where
  "value_uses_in_block_matching_predicate func block pred = rbind (for_each_use func block) (\<lambda>us.
     Inr (fold (\<lambda>(v, _) counts. if pred v then counts(v := Some (case counts v of Some n \<Rightarrow> n + 1 | None \<Rightarrow> 1)) else counts) us Map.empty))"

section \<open>Path exploration\<close>

definition mark_use :: "ValueId \<Rightarrow> BlockId \<Rightarrow> Liveness \<Rightarrow> Liveness" where
  "mark_use val block lv = lv\<lparr>val_use_blocks := (val_use_blocks lv)(val := insert block (val_use_blocks lv val)),
     val_use_count := (val_use_count lv)(val := val_use_count lv val + 1)\<rparr>"

definition mark_live_block :: "ValueId \<Rightarrow> BlockId \<Rightarrow> Liveness \<Rightarrow> Liveness" where
  "mark_live_block val block lv = lv\<lparr>val_live_blocks := (val_live_blocks lv)(val := insert block (val_live_blocks lv val))\<rparr>"

definition mark_live_in :: "ValueId \<Rightarrow> BlockId \<Rightarrow> Liveness \<Rightarrow> Liveness" where
  "mark_live_in val block lv = lv\<lparr>live_ins := (live_ins lv)(block := insert val (live_ins lv block))\<rparr>"

definition mark_live_out :: "ValueId \<Rightarrow> BlockId \<Rightarrow> Liveness \<Rightarrow> Liveness" where
  "mark_live_out val block lv = lv\<lparr>live_outs := (live_outs lv)(block := insert val (live_outs lv block))\<rparr>"

partial_function (option) up_and_mark :: "ControlFlowGraph \<Rightarrow> BlockId \<Rightarrow> ValueId \<Rightarrow> Liveness \<Rightarrow> (fault + Liveness) option" where
  "up_and_mark cfg block val lv =
     (case val_defs lv val of
        None \<Rightarrow> Some (Inl (Panic ''called unwrap on a None value''))
      | Some def \<Rightarrow>
          let lv = mark_live_block val block lv
          in if def = NormalDef block then Some (Inr lv)
             else if val \<in> live_ins lv block then Some (Inr lv)
             else let lv = mark_live_in val block lv
                  in if def = PhiDef block then Some (Inr lv)
                     else for_each (\<lambda>pred lv. up_and_mark cfg pred val (mark_live_out val pred lv)) (preds_of cfg block) lv)"

fun record_defs :: "Function \<Rightarrow> BlockId list \<Rightarrow> Liveness \<Rightarrow> fault + Liveness" where
  "record_defs func [] lv = Inr lv"
| "record_defs func (block # bs) lv = rbind (for_each_def func block) (\<lambda>ds.
     record_defs func bs (lv\<lparr>val_defs := fold (\<lambda>(val, is_phi_def) m. m(val \<mapsto> if is_phi_def then PhiDef block else NormalDef block)) ds (val_defs lv)\<rparr>))"

fun explore_uses :: "Function \<Rightarrow> ControlFlowGraph \<Rightarrow> BlockId \<Rightarrow> (ValueId \<times> BlockId option) list \<Rightarrow> Liveness \<Rightarrow> fault + Liveness" where
  "explore_uses func cfg block [] lv = Inr lv"
| "explore_uses func cfg block ((val, phi_source_block) # us) lv =
     rbind (value_is_imm (f_dfg func) val) (\<lambda>imm.
     rbind (if imm then Inr (mark_use val block lv)
            else case phi_source_block of
              Some pred_block \<Rightarrow> ended (up_and_mark cfg pred_block val (mark_use val pred_block lv))
            | None \<Rightarrow> ended (up_and_mark cfg block val (mark_use val block lv)))
       (explore_uses func cfg block us))"

fun explore_blocks :: "Function \<Rightarrow> ControlFlowGraph \<Rightarrow> BlockId list \<Rightarrow> Liveness \<Rightarrow> fault + Liveness" where
  "explore_blocks func cfg [] lv = Inr lv"
| "explore_blocks func cfg (block # bs) lv = rbind (for_each_use func block) (\<lambda>us.
     rbind (explore_uses func cfg block us lv) (explore_blocks func cfg bs))"

definition liveness_compute :: "Function \<Rightarrow> ControlFlowGraph \<Rightarrow> Liveness \<Rightarrow> fault + Liveness" where
  "liveness_compute func cfg lv =
     (let lv = liveness_clear lv;
          lv = lv\<lparr>val_defs := fold (\<lambda>arg m. m(arg \<mapsto> FnArg)) (arg_values func) (val_defs lv)\<rparr>
      in case post_order cfg of
           None \<Rightarrow> Inl Out_of_fuel
         | Some po \<Rightarrow> rbind (record_defs func po lv) (explore_blocks func cfg po))"

section \<open>Liveness of instructions\<close>

fun inst_live_outs :: "DataFlowGraph \<Rightarrow> InstId list \<Rightarrow> ValueId set \<Rightarrow> (InstId \<Rightarrow> ValueId set) \<Rightarrow> fault + (InstId \<Rightarrow> ValueId set)" where
  "inst_live_outs d [] live out = Inr out"
| "inst_live_outs d (i # js) live out =
     (let out = out(i := live);
          live = (case inst_result d i of Some v \<Rightarrow> live - {v} | None \<Rightarrow> live)
      in rbind (is_phi d i) (\<lambda>phi.
         if phi then inst_live_outs d js live out
         else rbind (get_inst d i) (\<lambda>data.
              rbind (rmap (\<lambda>v. rbind (value_is_imm d v) (\<lambda>imm. Inr (if imm then {} else {v}))) (values_of data)) (\<lambda>vs.
                inst_live_outs d js (live \<union> \<Union> (set vs)) out))))"

fun inst_liveness_blocks :: "Function \<Rightarrow> Liveness \<Rightarrow> BlockId list \<Rightarrow> (InstId \<Rightarrow> ValueId set) \<Rightarrow> fault + (InstId \<Rightarrow> ValueId set)" where
  "inst_liveness_blocks func lv [] out = Inr out"
| "inst_liveness_blocks func lv (block # bs) out = rbind (insts_of func block) (\<lambda>js.
     rbind (inst_live_outs (f_dfg func) (rev js) (live_outs lv block) out) (inst_liveness_blocks func lv bs))"

definition inst_liveness_compute :: "Function \<Rightarrow> ControlFlowGraph \<Rightarrow> Liveness \<Rightarrow> fault + (InstId \<Rightarrow> ValueId set)" where
  "inst_liveness_compute func cfg lv = (case post_order cfg of
       None \<Rightarrow> Inl Out_of_fuel
     | Some po \<Rightarrow> inst_liveness_blocks func lv po (\<lambda>_. {}))"

fun call_live_insts :: "DataFlowGraph \<Rightarrow> (InstId \<Rightarrow> ValueId set) \<Rightarrow> InstId list \<Rightarrow> ValueId set \<Rightarrow> fault + ValueId set" where
  "call_live_insts d out [] acc = Inr acc"
| "call_live_insts d out (i # js) acc = rbind (is_call d i) (\<lambda>call.
     call_live_insts d out js
       (if call then (case inst_result d i of Some v \<Rightarrow> (acc \<union> out i) - {v} | None \<Rightarrow> acc \<union> out i) else acc))"

fun call_live_blocks :: "Function \<Rightarrow> (InstId \<Rightarrow> ValueId set) \<Rightarrow> BlockId list \<Rightarrow> ValueId set \<Rightarrow> fault + ValueId set" where
  "call_live_blocks func out [] acc = Inr acc"
| "call_live_blocks func out (b # bs) acc = rbind (insts_of func b) (\<lambda>js.
     rbind (call_live_insts (f_dfg func) out js acc) (call_live_blocks func out bs))"

definition call_live_values :: "Function \<Rightarrow> (InstId \<Rightarrow> ValueId set) \<Rightarrow> fault + ValueId set" where
  "call_live_values func out = (case iter_block (f_layout func) of
       None \<Rightarrow> Inl Out_of_fuel
     | Some bs \<Rightarrow> call_live_blocks func out bs {})"

section \<open>What an exploration marks\<close>

text \<open>
  The edges along which liveness of a value goes up: those into blocks that do not define it. A value is visited at
  the blocks from which such edges lead to a use.
\<close>

definition live_edges :: "ControlFlowGraph \<Rightarrow> ValDef \<Rightarrow> (BlockId \<times> BlockId) set" where
  "live_edges cfg def = {(p, s). (p, s) \<in> cfg_edges cfg \<and> def \<noteq> NormalDef s \<and> def \<noteq> PhiDef s}"

definition synced :: "ValDef \<Rightarrow> ValueId \<Rightarrow> Liveness \<Rightarrow> bool" where
  "synced def v lv \<longleftrightarrow> (\<forall>b. v \<in> live_ins lv b \<longleftrightarrow> b \<in> val_live_blocks lv v \<and> def \<noteq> NormalDef b)"

definition same_but :: "ValueId \<Rightarrow> Liveness \<Rightarrow> Liveness \<Rightarrow> bool" where
  "same_but v lv lv' \<longleftrightarrow> val_defs lv' = val_defs lv \<and> val_use_blocks lv' = val_use_blocks lv \<and> val_use_count lv' = val_use_count lv
     \<and> (\<forall>w. w \<noteq> v \<longrightarrow> val_live_blocks lv' w = val_live_blocks lv w
          \<and> (\<forall>b. (w \<in> live_ins lv' b \<longleftrightarrow> w \<in> live_ins lv b) \<and> (w \<in> live_outs lv' b \<longleftrightarrow> w \<in> live_outs lv b)))"

text \<open>Exploring from the blocks \<open>S\<close>, those in \<open>T\<close> marked live-out by the caller.\<close>

definition explored :: "ControlFlowGraph \<Rightarrow> ValDef \<Rightarrow> ValueId \<Rightarrow> BlockId set \<Rightarrow> BlockId set \<Rightarrow> Liveness \<Rightarrow> Liveness \<Rightarrow> bool" where
  "explored cfg def v S T lv lv' \<longleftrightarrow> same_but v lv lv' \<and> synced def v lv'
     \<and> S \<subseteq> val_live_blocks lv' v \<and> val_live_blocks lv v \<subseteq> val_live_blocks lv' v
     \<and> val_live_blocks lv' v \<subseteq> val_live_blocks lv v \<union> {b. \<exists>s \<in> S. (b, s) \<in> (live_edges cfg def)\<^sup>*}
     \<and> (\<forall>b. v \<in> live_outs lv b \<or> b \<in> T \<longrightarrow> v \<in> live_outs lv' b)
     \<and> (\<forall>s p. s \<in> val_live_blocks lv' v \<and> s \<notin> val_live_blocks lv v \<and> (p, s) \<in> live_edges cfg def
          \<longrightarrow> v \<in> live_outs lv' p \<and> p \<in> val_live_blocks lv' v)
     \<and> (\<forall>p. v \<in> live_outs lv' p \<longrightarrow> v \<in> live_outs lv p \<or> p \<in> T \<or> (\<exists>s \<in> val_live_blocks lv' v. (p, s) \<in> live_edges cfg def))"

lemma exploredD:
  assumes "explored cfg def v S T lv lv'"
  shows "val_defs lv' = val_defs lv" "synced def v lv'" "same_but v lv lv'" "S \<subseteq> val_live_blocks lv' v"
    "val_live_blocks lv v \<subseteq> val_live_blocks lv' v"
    "b \<in> val_live_blocks lv' v \<Longrightarrow> b \<in> val_live_blocks lv v \<or> (\<exists>s \<in> S. (b, s) \<in> (live_edges cfg def)\<^sup>*)"
    "v \<in> live_outs lv b \<or> b \<in> T \<Longrightarrow> v \<in> live_outs lv' b"
    "s \<in> val_live_blocks lv' v \<Longrightarrow> s \<notin> val_live_blocks lv v \<Longrightarrow> (p, s) \<in> live_edges cfg def \<Longrightarrow> v \<in> live_outs lv' p \<and> p \<in> val_live_blocks lv' v"
    "v \<in> live_outs lv' p \<Longrightarrow> v \<in> live_outs lv p \<or> p \<in> T \<or> (\<exists>s \<in> val_live_blocks lv' v. (p, s) \<in> live_edges cfg def)"
  using assms unfolding explored_def same_but_def by blast+

lemma same_but_refl [simp]: "same_but v lv lv"
  by (simp add: same_but_def)

lemma same_but_trans: "same_but v a b \<Longrightarrow> same_but v b c \<Longrightarrow> same_but v a c"
  by (simp add: same_but_def)

lemma same_but_marks [simp]:
  "same_but v lv (mark_live_block v b lv)" "same_but v lv (mark_live_in v b lv)" "same_but v lv (mark_live_out v b lv)"
  by (simp_all add: same_but_def mark_live_block_def mark_live_in_def mark_live_out_def)

lemma explored_refl: "synced def v lv \<Longrightarrow> explored cfg def v {} {} lv lv"
  by (auto simp: explored_def)

lemma explored_trans:
  assumes "explored cfg def v S T lv lv'" and "explored cfg def v S' T' lv' lv''"
  shows "explored cfg def v (S \<union> S') (T \<union> T') lv lv''"
proof -
  note a = exploredD [OF assms(1)] and b = exploredD [OF assms(2)]
  have "same_but v lv lv''" using a(3) b(3) by (rule same_but_trans)
  moreover have "S \<union> S' \<subseteq> val_live_blocks lv'' v" "val_live_blocks lv v \<subseteq> val_live_blocks lv'' v" using a(4,5) b(4,5) by blast+
  moreover have "val_live_blocks lv'' v \<subseteq> val_live_blocks lv v \<union> {b. \<exists>s \<in> S \<union> S'. (b, s) \<in> (live_edges cfg def)\<^sup>*}"
    using a(6) b(6) by blast
  moreover have "\<forall>b. v \<in> live_outs lv b \<or> b \<in> T \<union> T' \<longrightarrow> v \<in> live_outs lv'' b" using a(7) b(7) by blast
  moreover have "v \<in> live_outs lv'' p \<and> p \<in> val_live_blocks lv'' v"
    if "s \<in> val_live_blocks lv'' v" "s \<notin> val_live_blocks lv v" "(p, s) \<in> live_edges cfg def" for s p
    using that a(8) [of s p] b(5,7,8) by (cases "s \<in> val_live_blocks lv' v") blast+
  moreover have "v \<in> live_outs lv p \<or> p \<in> T \<union> T' \<or> (\<exists>s \<in> val_live_blocks lv'' v. (p, s) \<in> live_edges cfg def)"
    if "v \<in> live_outs lv'' p" for p
    using b(9) [OF that] a(9) [of p] b(5) by blast
  ultimately show ?thesis unfolding explored_def using b(2) by blast
qed

lemma for_each_preds:
  assumes "\<And>lv p. p \<in> set ps \<Longrightarrow> I lv \<Longrightarrow> \<exists>lv'. f p lv = Some (Inr lv') \<and> explored cfg def v {p} {p} lv lv' \<and> I lv'"
  shows "I lv \<Longrightarrow> synced def v lv \<Longrightarrow> \<exists>lv'. for_each f ps lv = Some (Inr lv') \<and> explored cfg def v (set ps) (set ps) lv lv' \<and> I lv'"
  using assms
proof (induction ps arbitrary: lv)
  case Nil
  then show ?case by (simp add: explored_refl)
next
  case (Cons p ps)
  from Cons.prems(3) [of p lv] Cons.prems(1) obtain lv1 where
    1: "f p lv = Some (Inr lv1)" "explored cfg def v {p} {p} lv lv1" "I lv1" by auto
  have ps: "\<And>lv q. q \<in> set ps \<Longrightarrow> I lv \<Longrightarrow> \<exists>lv'. f q lv = Some (Inr lv') \<and> explored cfg def v {q} {q} lv lv' \<and> I lv'"
    using Cons.prems(3) by simp
  from Cons.IH [OF 1(3) exploredD(2) [OF 1(2)] ps] obtain lv' where
    2: "for_each f ps lv1 = Some (Inr lv')" "explored cfg def v (set ps) (set ps) lv1 lv'" "I lv'" by blast
  from explored_trans [OF 1(2) 2(2)] 1(1) 2 show ?case by auto
qed

text \<open>The blocks not yet marked live-in bound the depth of the recursion.\<close>

lemma up_and_mark_ok:
  assumes ok: "cfg_ok cfg" and U: "finite U" "fst ` cfg_edges cfg \<subseteq> U"
  shows "b \<in> U \<Longrightarrow> val_defs lv v = Some def \<Longrightarrow> synced def v lv \<Longrightarrow>
    \<exists>lv'. up_and_mark cfg b v lv = Some (Inr lv') \<and> explored cfg def v {b} {} lv lv'"
proof (induction "card {x \<in> U. v \<notin> live_ins lv x}" arbitrary: lv b rule: less_induct)
  case less
  let ?lv1 = "mark_live_block v b lv"
  note syn = less.prems(3) [unfolded synced_def]
  consider "def = NormalDef b" | "def \<noteq> NormalDef b" "v \<in> live_ins lv b" | "def \<noteq> NormalDef b" "v \<notin> live_ins lv b" by blast
  then show ?case
  proof cases
    case 1
    then have "up_and_mark cfg b v lv = Some (Inr ?lv1)" using less.prems(2) by (subst up_and_mark.simps) simp
    moreover have "synced def v ?lv1" using syn 1 by (auto simp: mark_live_block_def synced_def)
    then have "explored cfg def v {b} {} lv ?lv1" using 1 same_but_marks(1) [of v lv b]
      unfolding explored_def by (auto simp: mark_live_block_def live_edges_def)
    ultimately show ?thesis by blast
  next
    case 2
    then have b: "b \<in> val_live_blocks lv v" using syn by blast
    then have "?lv1 = lv" by (simp add: mark_live_block_def insert_absorb)
    with 2 have "up_and_mark cfg b v lv = Some (Inr lv)" using less.prems(2) by (subst up_and_mark.simps) (simp add: Let_def)
    moreover have "explored cfg def v {b} {} lv lv" using b less.prems(3) by (auto simp: explored_def)
    ultimately show ?thesis by blast
  next
    case 3
    let ?lv2 = "mark_live_in v b ?lv1"
    have nb: "b \<notin> val_live_blocks lv v" using syn 3 by blast
    have s2: "synced def v ?lv2" using syn 3(1) by (auto simp: synced_def mark_live_block_def mark_live_in_def)
    have l2: "val_live_blocks ?lv2 v = insert b (val_live_blocks lv v)" "live_outs ?lv2 = live_outs lv" "same_but v lv ?lv2"
      "v \<in> live_ins ?lv2 x \<longleftrightarrow> x = b \<or> v \<in> live_ins lv x" "val_defs ?lv2 = val_defs lv" for x
      by (simp_all add: mark_live_block_def mark_live_in_def same_but_def)
    show ?thesis
    proof (cases "def = PhiDef b")
      case True
      then have "up_and_mark cfg b v lv = Some (Inr ?lv2)" using less.prems(2) 3
        by (subst up_and_mark.simps) (simp add: Let_def mark_live_block_def)
      moreover have "explored cfg def v {b} {} lv ?lv2"
        unfolding explored_def using True s2 l2 by (auto simp: live_edges_def)
      ultimately show ?thesis by blast
    next
      case False
      let ?f = "\<lambda>pred lv. up_and_mark cfg pred v (mark_live_out v pred lv)"
      let ?I = "\<lambda>lv'. synced def v lv' \<and> val_defs lv' v = Some def \<and> (\<forall>x. v \<in> live_ins ?lv2 x \<longrightarrow> v \<in> live_ins lv' x)"
      have step: "\<exists>lv'. ?f p l = Some (Inr lv') \<and> explored cfg def v {p} {p} l lv' \<and> ?I lv'" if p: "p \<in> set (preds_of cfg b)" and l: "?I l" for p l
      proof -
        let ?l = "mark_live_out v p l"
        have m: "live_ins ?l = live_ins l" "val_defs ?l = val_defs l" "val_live_blocks ?l = val_live_blocks l" "synced def v ?l"
          "v \<in> live_outs ?l x \<longleftrightarrow> x = p \<or> v \<in> live_outs l x" for x using l by (auto simp: mark_live_out_def synced_def)
        have "v \<in> live_ins l b" "\<And>x. v \<in> live_ins lv x \<Longrightarrow> v \<in> live_ins l x" using l l2(4) by simp_all
        then have "{x \<in> U. v \<notin> live_ins ?l x} \<subset> {x \<in> U. v \<notin> live_ins lv x}"
          unfolding m(1) using 3(2) less.prems(1) by blast
        then have card: "card {x \<in> U. v \<notin> live_ins ?l x} < card {x \<in> U. v \<notin> live_ins lv x}" using U(1) by (simp add: psubset_card_mono)
        have "(p, b) \<in> cfg_edges cfg" using p preds_of_edges [OF ok] by simp
        then have "p \<in> U" using U(2) by force
        from less.hyps [OF card this _ m(4)] m(2) l obtain l' where
          l': "up_and_mark cfg p v ?l = Some (Inr l')" "explored cfg def v {p} {} ?l l'" by auto
        note e = exploredD [OF l'(2)]
        have "explored cfg def v {p} {p} l l'"
          unfolding explored_def
        proof (intro conjI allI impI)
          show "same_but v l l'" using same_but_marks(3) e(3) by (rule same_but_trans)
          show "val_live_blocks l' v \<subseteq> val_live_blocks l v \<union> {b. \<exists>s \<in> {p}. (b, s) \<in> (live_edges cfg def)\<^sup>*}" using e(6) m(3) by auto
          fix x assume "v \<in> live_outs l x \<or> x \<in> {p}"
          then show "v \<in> live_outs l' x" using e(7) m(5) by blast
        next
          fix x assume "v \<in> live_outs l' x"
          then show "v \<in> live_outs l x \<or> x \<in> {p} \<or> (\<exists>s \<in> val_live_blocks l' v. (x, s) \<in> live_edges cfg def)" using e(9) m(5) by blast
        qed (use e(2,4,5,8) m(3) in auto)
        moreover have "v \<in> live_ins l x \<Longrightarrow> v \<in> live_ins l' x" for x
          using l e(2) subsetD [OF e(5), of x] m(3) by (simp add: synced_def)
        then have "?I l'" using e(1,2) m(2) l by simp
        ultimately show ?thesis using l'(1) by blast
      qed
      have "?I ?lv2" using s2 l2(5) less.prems(2) by auto
      from for_each_preds [where I = ?I and f = ?f, OF step this s2] obtain lv' where
        lv': "for_each ?f (preds_of cfg b) ?lv2 = Some (Inr lv')" "explored cfg def v (set (preds_of cfg b)) (set (preds_of cfg b)) ?lv2 lv'" by blast
      note e = exploredD [OF lv'(2)]
      have pr: "p \<in> set (preds_of cfg b) \<longleftrightarrow> (p, b) \<in> live_edges cfg def" for p
        using preds_of_edges [OF ok] 3(1) False by (auto simp: live_edges_def)
      have "up_and_mark cfg b v lv = Some (Inr lv')" using less.prems(2) 3 False lv'(1)
        by (subst up_and_mark.simps) (simp add: Let_def mark_live_block_def)
      moreover have "explored cfg def v {b} {} lv lv'"
        unfolding explored_def
      proof (intro conjI allI impI)
        show "same_but v lv lv'" using l2(3) e(3) by (rule same_but_trans)
        show "{b} \<subseteq> val_live_blocks lv' v" "val_live_blocks lv v \<subseteq> val_live_blocks lv' v" using e(5) l2(1) by auto
        show "val_live_blocks lv' v \<subseteq> val_live_blocks lv v \<union> {x. \<exists>s \<in> {b}. (x, s) \<in> (live_edges cfg def)\<^sup>*}"
        proof
          fix x assume "x \<in> val_live_blocks lv' v"
          from e(6) [OF this] l2(1) pr show "x \<in> val_live_blocks lv v \<union> {x. \<exists>s \<in> {b}. (x, s) \<in> (live_edges cfg def)\<^sup>*}"
            by (auto intro: rtrancl_into_rtrancl)
        qed
      next
        fix x assume "v \<in> live_outs lv x \<or> x \<in> {}"
        then show "v \<in> live_outs lv' x" using e(7) l2(2) by auto
      next
        fix s p assume s: "s \<in> val_live_blocks lv' v \<and> s \<notin> val_live_blocks lv v \<and> (p, s) \<in> live_edges cfg def"
        show "v \<in> live_outs lv' p" "p \<in> val_live_blocks lv' v"
          using s e(4) e(7) [of p] e(8) [of s p] pr [of p] l2(1) by (cases "s = b"; auto)+
      next
        fix p assume p: "v \<in> live_outs lv' p"
        show "v \<in> live_outs lv p \<or> p \<in> {} \<or> (\<exists>s \<in> val_live_blocks lv' v. (p, s) \<in> live_edges cfg def)"
          using e(9) [OF p] l2(1,2) pr e(5) by auto
      qed (rule e(2))
      ultimately show ?thesis by blast
    qed
  qed
qed

section \<open>The exploration of all uses\<close>

definition imm_value :: "Function \<Rightarrow> ValueId \<Rightarrow> bool" where
  "imm_value func v = (case d_values (f_dfg func) ! v of V_Immediate _ _ \<Rightarrow> True | _ \<Rightarrow> False)"

lemma value_is_imm_eq: "v < length (d_values (f_dfg func)) \<Longrightarrow> value_is_imm (f_dfg func) v = Inr (imm_value func v)"
  by (simp add: value_is_imm_def get_value_def index_list_def imm_value_def)

text \<open>The state of the exploration when the uses at \<open>us v\<close> have been explored.\<close>

definition live_state :: "ControlFlowGraph \<Rightarrow> (ValueId \<Rightarrow> ValDef option) \<Rightarrow> (ValueId \<Rightarrow> BlockId set) \<Rightarrow> Liveness \<Rightarrow> bool" where
  "live_state cfg ds us lv \<longleftrightarrow> val_defs lv = ds \<and> (\<forall>v. (case ds v of
       None \<Rightarrow> us v = {} \<and> val_live_blocks lv v = {} \<and> (\<forall>b. v \<notin> live_ins lv b \<and> v \<notin> live_outs lv b)
     | Some def \<Rightarrow> synced def v lv \<and> val_live_blocks lv v = {b. \<exists>u \<in> us v. (b, u) \<in> (live_edges cfg def)\<^sup>*}
         \<and> (\<forall>p. v \<in> live_outs lv p \<longleftrightarrow> (\<exists>s \<in> val_live_blocks lv v. (p, s) \<in> live_edges cfg def))))"

lemma live_stateD:
  assumes "live_state cfg ds us lv"
  shows "val_defs lv = ds" "ds v = None \<Longrightarrow> us v = {} \<and> val_live_blocks lv v = {} \<and> (\<forall>b. v \<notin> live_ins lv b \<and> v \<notin> live_outs lv b)"
    "ds v = Some def \<Longrightarrow> synced def v lv \<and> val_live_blocks lv v = {b. \<exists>u \<in> us v. (b, u) \<in> (live_edges cfg def)\<^sup>*}
         \<and> (\<forall>p. v \<in> live_outs lv p \<longleftrightarrow> (\<exists>s \<in> val_live_blocks lv v. (p, s) \<in> live_edges cfg def))"
proof -
  from assms show "val_defs lv = ds" by (simp add: live_state_def)
  from assms have "case ds v of
       None \<Rightarrow> us v = {} \<and> val_live_blocks lv v = {} \<and> (\<forall>b. v \<notin> live_ins lv b \<and> v \<notin> live_outs lv b)
     | Some def \<Rightarrow> synced def v lv \<and> val_live_blocks lv v = {b. \<exists>u \<in> us v. (b, u) \<in> (live_edges cfg def)\<^sup>*}
         \<and> (\<forall>p. v \<in> live_outs lv p \<longleftrightarrow> (\<exists>s \<in> val_live_blocks lv v. (p, s) \<in> live_edges cfg def))"
    unfolding live_state_def by blast
  then show "ds v = None \<Longrightarrow> us v = {} \<and> val_live_blocks lv v = {} \<and> (\<forall>b. v \<notin> live_ins lv b \<and> v \<notin> live_outs lv b)"
    "ds v = Some def \<Longrightarrow> synced def v lv \<and> val_live_blocks lv v = {b. \<exists>u \<in> us v. (b, u) \<in> (live_edges cfg def)\<^sup>*}
         \<and> (\<forall>p. v \<in> live_outs lv p \<longleftrightarrow> (\<exists>s \<in> val_live_blocks lv v. (p, s) \<in> live_edges cfg def))" by simp_all
qed

lemma live_state_mark_use [simp]: "live_state cfg ds us (mark_use v b lv) = live_state cfg ds us lv"
  by (simp add: live_state_def mark_use_def synced_def cong: option.case_cong)

lemma mark_use_count: "val_use_count (mark_use v b lv) w = val_use_count lv w + (if w = v then 1 else 0)"
  by (simp add: mark_use_def)

lemma explore_use_ok:
  assumes "cfg_ok cfg" and st: "live_state cfg ds us lv" and d: "ds v = Some def"
  shows "\<exists>lv'. up_and_mark cfg b v lv = Some (Inr lv') \<and> live_state cfg ds (us(v := insert b (us v))) lv' \<and> same_but v lv lv'"
proof -
  have U: "finite (insert b (fst ` cfg_edges cfg))" using assms(1) by (simp add: cfg_ok_def)
  note s = live_stateD [OF st]
  from up_and_mark_ok [OF assms(1) U _ _ _, of b lv v def] s(1) d s(3) [OF d] obtain lv' where
    lv': "up_and_mark cfg b v lv = Some (Inr lv')" "explored cfg def v {b} {} lv lv'" by auto
  note e = exploredD [OF lv'(2)]
  have closed: "v \<in> live_outs lv' p \<and> p \<in> val_live_blocks lv' v" if "x \<in> val_live_blocks lv' v" "(p, x) \<in> live_edges cfg def" for p x
  proof (cases "x \<in> val_live_blocks lv v")
    case True
    with s(3) [OF d] that(2) have "p \<in> val_live_blocks lv v" "v \<in> live_outs lv p" by (auto intro: converse_rtrancl_into_rtrancl)
    with e(5,7) show ?thesis by blast
  qed (use e(8) that in blast)
  have up: "(x, y) \<in> (live_edges cfg def)\<^sup>* \<Longrightarrow> y \<in> val_live_blocks lv' v \<Longrightarrow> x \<in> val_live_blocks lv' v" for x y
    by (induction rule: converse_rtrancl_induct) (use closed in blast)+
  have vb: "val_live_blocks lv' v = {x. \<exists>u \<in> insert b (us v). (x, u) \<in> (live_edges cfg def)\<^sup>*}"
  proof
    show "val_live_blocks lv' v \<subseteq> {x. \<exists>u \<in> insert b (us v). (x, u) \<in> (live_edges cfg def)\<^sup>*}" using e(6) s(3) [OF d] by blast
    have "b \<in> val_live_blocks lv' v" using e(4) by simp
    moreover have "us v \<subseteq> val_live_blocks lv' v" using e(5) s(3) [OF d] by blast
    ultimately show "{x. \<exists>u \<in> insert b (us v). (x, u) \<in> (live_edges cfg def)\<^sup>*} \<subseteq> val_live_blocks lv' v" using up by blast
  qed
  have vout: "v \<in> live_outs lv' p \<longleftrightarrow> (\<exists>x \<in> val_live_blocks lv' v. (p, x) \<in> live_edges cfg def)" for p
    using closed e(9) [of p] s(3) [OF d] e(5) by blast
  have "live_state cfg ds (us(v := insert b (us v))) lv'"
    unfolding live_state_def
  proof (intro conjI allI)
    show "val_defs lv' = ds" using e(1) s(1) by simp
    fix w
    show "case ds w of None \<Rightarrow> (us(v := insert b (us v))) w = {} \<and> val_live_blocks lv' w = {} \<and> (\<forall>b. w \<notin> live_ins lv' b \<and> w \<notin> live_outs lv' b)
      | Some def \<Rightarrow> synced def w lv' \<and> val_live_blocks lv' w = {x. \<exists>u \<in> (us(v := insert b (us v))) w. (x, u) \<in> (live_edges cfg def)\<^sup>*}
         \<and> (\<forall>p. w \<in> live_outs lv' p \<longleftrightarrow> (\<exists>s \<in> val_live_blocks lv' w. (p, s) \<in> live_edges cfg def))"
    proof (cases "w = v")
      case True
      with d vb vout e(2) show ?thesis by simp
    next
      case False
      with e(3) have "val_live_blocks lv' w = val_live_blocks lv w" "\<forall>b. (w \<in> live_ins lv' b \<longleftrightarrow> w \<in> live_ins lv b) \<and> (w \<in> live_outs lv' b \<longleftrightarrow> w \<in> live_outs lv b)"
        unfolding same_but_def by blast+
      with False s(2,3) [of w] show ?thesis by (cases "ds w") (auto simp: synced_def)
    qed
  qed
  with lv'(1) e(3) show ?thesis by blast
qed

text \<open>Where a use counts, and what a list of uses contributes.\<close>

definition use_site :: "BlockId \<Rightarrow> BlockId option \<Rightarrow> BlockId" where
  "use_site block src = (case src of Some p \<Rightarrow> p | None \<Rightarrow> block)"

definition sites :: "Function \<Rightarrow> BlockId \<Rightarrow> (ValueId \<times> BlockId option) list \<Rightarrow> ValueId \<Rightarrow> BlockId set" where
  "sites func block es v = (if imm_value func v then {} else use_site block ` {src. (v, src) \<in> set es})"

definition usable :: "Function \<Rightarrow> (ValueId \<Rightarrow> ValDef option) \<Rightarrow> (ValueId \<times> BlockId option) list \<Rightarrow> bool" where
  "usable func ds es \<longleftrightarrow> (\<forall>v src. (v, src) \<in> set es \<longrightarrow> v < length (d_values (f_dfg func)) \<and> (imm_value func v \<or> ds v \<noteq> None))"

lemma explore_uses_ok:
  assumes "cfg_ok cfg"
  shows "usable func ds es \<Longrightarrow> live_state cfg ds us lv \<Longrightarrow>
    \<exists>lv'. explore_uses func cfg block es lv = Inr lv' \<and> live_state cfg ds (\<lambda>v. us v \<union> sites func block es v) lv'
      \<and> (\<forall>v. val_use_count lv' v = val_use_count lv v + length (filter (\<lambda>u. fst u = v) es))"
proof (induction es arbitrary: us lv)
  case Nil
  have "(\<lambda>v. us v \<union> sites func block [] v) = us" by (auto simp: sites_def fun_eq_iff)
  with Nil show ?case by simp
next
  case (Cons u es)
  obtain v src where u: "u = (v, src)" by (cases u)
  from Cons.prems(1) u have v: "v < length (d_values (f_dfg func))" "imm_value func v \<or> ds v \<noteq> None" and us: "usable func ds es"
    by (auto simp: usable_def)
  note vi = value_is_imm_eq [OF v(1)]
  obtain lv1 where lv1: "explore_uses func cfg block (u # es) lv = explore_uses func cfg block es lv1"
    "live_state cfg ds (\<lambda>w. us w \<union> sites func block [u] w) lv1"
    "\<forall>w. val_use_count lv1 w = val_use_count lv w + (if w = v then 1 else 0)"
  proof (cases "imm_value func v")
    case True
    have "(\<lambda>w. us w \<union> sites func block [u] w) = us" using True u by (auto simp: sites_def fun_eq_iff)
    with True vi u Cons.prems(2) that [of "mark_use v block lv"] show ?thesis by (simp add: mark_use_count)
  next
    case False
    let ?b = "use_site block src"
    let ?lv = "mark_use v ?b lv"
    from v(2) False obtain def where "ds v = Some def" by blast
    with explore_use_ok [where v = v and us = us and lv = ?lv and b = ?b and ds = ds, OF assms] Cons.prems(2) obtain lv1 where
      1: "up_and_mark cfg ?b v ?lv = Some (Inr lv1)" "live_state cfg ds (us(v := insert ?b (us v))) lv1" "same_but v ?lv lv1" by auto
    have "(\<lambda>w. us w \<union> sites func block [u] w) = us(v := insert ?b (us v))" using False u by (auto simp: sites_def fun_eq_iff)
    moreover have "explore_uses func cfg block (u # es) lv = explore_uses func cfg block es lv1"
      using False vi u 1(1) by (cases src) (simp_all add: use_site_def)
    moreover have "\<forall>w. val_use_count lv1 w = val_use_count lv w + (if w = v then 1 else 0)"
      using 1(3) by (simp add: same_but_def mark_use_def)
    ultimately show ?thesis using that 1(2) by simp
  qed
  from Cons.IH [OF us lv1(2)] obtain lv' where
    2: "explore_uses func cfg block es lv1 = Inr lv'" "live_state cfg ds (\<lambda>w. (us w \<union> sites func block [u] w) \<union> sites func block es w) lv'"
      "\<forall>w. val_use_count lv' w = val_use_count lv1 w + length (filter (\<lambda>u. fst u = w) es)" by blast
  have "(us w \<union> sites func block [u] w) \<union> sites func block es w = us w \<union> sites func block (u # es) w" for w
    by (auto simp: sites_def)
  then have "live_state cfg ds (\<lambda>w. us w \<union> sites func block (u # es) w) lv'" using 2(2) by (simp only:)
  moreover have "explore_uses func cfg block (u # es) lv = Inr lv'" using lv1(1) 2(1) by (simp only:)
  moreover have "val_use_count lv' w = val_use_count lv w + length (filter (\<lambda>x. fst x = w) (u # es))" for w
    using 2(3) lv1(3) u by simp
  ultimately show ?case by blast
qed

lemma explore_blocks_ok:
  assumes "cfg_ok cfg"
  shows "\<forall>b \<in> set bs. for_each_use func b = Inr (es b) \<and> usable func ds (es b) \<Longrightarrow> live_state cfg ds us lv \<Longrightarrow>
    \<exists>lv'. explore_blocks func cfg bs lv = Inr lv' \<and> live_state cfg ds (\<lambda>v. us v \<union> (\<Union>b \<in> set bs. sites func b (es b) v)) lv'
      \<and> (\<forall>v. val_use_count lv' v = val_use_count lv v + (\<Sum>b \<leftarrow> bs. length (filter (\<lambda>u. fst u = v) (es b))))"
proof (induction bs arbitrary: us lv)
  case (Cons b bs)
  from Cons.prems(1) have b: "for_each_use func b = Inr (es b)" "usable func ds (es b)" by simp_all
  from explore_uses_ok [OF assms b(2) Cons.prems(2), of b] obtain lv1 where
    1: "explore_uses func cfg b (es b) lv = Inr lv1" "live_state cfg ds (\<lambda>v. us v \<union> sites func b (es b) v) lv1"
      "\<forall>v. val_use_count lv1 v = val_use_count lv v + length (filter (\<lambda>u. fst u = v) (es b))" by blast
  from Cons.IH [OF _ 1(2)] Cons.prems(1) obtain lv' where
    2: "explore_blocks func cfg bs lv1 = Inr lv'"
      "live_state cfg ds (\<lambda>v. (us v \<union> sites func b (es b) v) \<union> (\<Union>b \<in> set bs. sites func b (es b) v)) lv'"
      "\<forall>v. val_use_count lv' v = val_use_count lv1 v + (\<Sum>b \<leftarrow> bs. length (filter (\<lambda>u. fst u = v) (es b)))" by auto
  with 1 b(1) show ?case by (auto simp: Un_assoc)
qed simp

section \<open>Liveness of a function\<close>

definition phi_data :: "inst \<Rightarrow> bool" where
  "phi_data data = (case data of Phi _ \<Rightarrow> True | _ \<Rightarrow> False)"

text \<open>\<open>v\<close> is defined in \<open>b\<close> by a phi, or by another instruction.\<close>

definition defined_in :: "Function \<Rightarrow> (BlockId \<Rightarrow> InstId list) \<Rightarrow> bool \<Rightarrow> ValueId \<Rightarrow> BlockId \<Rightarrow> bool" where
  "defined_in func ins phi v b \<longleftrightarrow>
     (\<exists>i \<in> set (ins b). inst_result (f_dfg func) i = Some v \<and> phi_data (d_insts (f_dfg func) ! i) = phi)"

text \<open>The blocks that use \<open>v\<close>; a phi uses an argument at the end of the block it comes from.\<close>

definition used_in :: "Function \<Rightarrow> (BlockId \<Rightarrow> InstId list) \<Rightarrow> BlockId set \<Rightarrow> ValueId \<Rightarrow> BlockId set" where
  "used_in func ins R v =
     {b \<in> R. \<exists>i \<in> set (ins b). \<not> phi_data (d_insts (f_dfg func) ! i) \<and> v \<in> set (values_of (d_insts (f_dfg func) ! i))}
   \<union> {p. \<exists>b \<in> R. \<exists>i \<in> set (ins b). \<exists>args. d_insts (f_dfg func) ! i = Phi args \<and> (v, p) \<in> set args}"

text \<open>Liveness crosses an edge unless the block it enters defines the value.\<close>

definition carries :: "Function \<Rightarrow> ControlFlowGraph \<Rightarrow> (BlockId \<Rightarrow> InstId list) \<Rightarrow> ValueId \<Rightarrow> (BlockId \<times> BlockId) set" where
  "carries func cfg ins v = {(p, s). (p, s) \<in> cfg_edges cfg \<and> \<not> defined_in func ins False v s \<and> \<not> defined_in func ins True v s}"

definition live_in_spec :: "Function \<Rightarrow> ControlFlowGraph \<Rightarrow> (BlockId \<Rightarrow> InstId list) \<Rightarrow> BlockId set \<Rightarrow> ValueId \<Rightarrow> BlockId \<Rightarrow> bool" where
  "live_in_spec func cfg ins R v b \<longleftrightarrow> \<not> defined_in func ins False v b \<and> (\<exists>u \<in> used_in func ins R v. (b, u) \<in> (carries func cfg ins v)\<^sup>*)"

definition live_out_spec :: "Function \<Rightarrow> ControlFlowGraph \<Rightarrow> (BlockId \<Rightarrow> InstId list) \<Rightarrow> BlockId set \<Rightarrow> ValueId \<Rightarrow> BlockId \<Rightarrow> bool" where
  "live_out_spec func cfg ins R v b \<longleftrightarrow> (\<exists>u \<in> used_in func ins R v. (b, u) \<in> (carries func cfg ins v)\<^sup>+)"

text \<open>Every value has one definition, and what is used in a reachable block is defined in one.\<close>

definition single_defs :: "Function \<Rightarrow> (BlockId \<Rightarrow> InstId list) \<Rightarrow> bool" where
  "single_defs func ins \<longleftrightarrow>
     (\<forall>b b' i j v. i \<in> set (ins b) \<and> j \<in> set (ins b') \<and> inst_result (f_dfg func) i = Some v \<and> inst_result (f_dfg func) j = Some v \<longrightarrow> i = j \<and> b = b')
   \<and> (\<forall>v \<in> set (arg_values func). \<forall>b. \<forall>i \<in> set (ins b). inst_result (f_dfg func) i \<noteq> Some v)"

definition uses_ok :: "Function \<Rightarrow> (BlockId \<Rightarrow> InstId list) \<Rightarrow> BlockId set \<Rightarrow> bool" where
  "uses_ok func ins R \<longleftrightarrow> (\<forall>b \<in> R. \<forall>i \<in> set (ins b). \<forall>v \<in> set (values_of (d_insts (f_dfg func) ! i)).
     v < length (d_values (f_dfg func))
     \<and> (imm_value func v \<or> v \<in> set (arg_values func) \<or> (\<exists>c \<in> R. defined_in func ins True v c \<or> defined_in func ins False v c)))"

lemma inst_defs_ok:
  "\<forall>i \<in> set js. i < length (d_insts d) \<Longrightarrow>
     \<exists>xs. inst_defs d js = Inr xs \<and> (\<forall>v phi. (v, phi) \<in> set xs \<longleftrightarrow> (\<exists>i \<in> set js. inst_result d i = Some v \<and> phi_data (d_insts d ! i) = phi))"
proof (induction js)
  case (Cons i js)
  then obtain xs where xs: "inst_defs d js = Inr xs"
    "\<forall>v phi. (v, phi) \<in> set xs \<longleftrightarrow> (\<exists>i \<in> set js. inst_result d i = Some v \<and> phi_data (d_insts d ! i) = phi)" by auto
  have "is_phi d i = Inr (phi_data (d_insts d ! i))" using Cons.prems
    by (simp add: is_phi_def get_inst_def index_list_def phi_data_def)
  with xs show ?case by (cases "inst_result d i") auto
qed simp

lemma inst_uses_ok:
  "\<forall>i \<in> set js. i < length (d_insts d) \<Longrightarrow>
     \<exists>xs. inst_uses d js = Inr xs
       \<and> (\<forall>v. (v, None) \<in> set xs \<longleftrightarrow> (\<exists>i \<in> set js. \<not> phi_data (d_insts d ! i) \<and> v \<in> set (values_of (d_insts d ! i))))
       \<and> (\<forall>v p. (v, Some p) \<in> set xs \<longleftrightarrow> (\<exists>i \<in> set js. \<exists>args. d_insts d ! i = Phi args \<and> (v, p) \<in> set args))"
proof (induction js)
  case (Cons i js)
  then obtain xs where xs: "inst_uses d js = Inr xs"
    "\<forall>v. (v, None) \<in> set xs \<longleftrightarrow> (\<exists>i \<in> set js. \<not> phi_data (d_insts d ! i) \<and> v \<in> set (values_of (d_insts d ! i)))"
    "\<forall>v p. (v, Some p) \<in> set xs \<longleftrightarrow> (\<exists>i \<in> set js. \<exists>args. d_insts d ! i = Phi args \<and> (v, p) \<in> set args)" by auto
  have g: "get_inst d i = Inr (d_insts d ! i)" using Cons.prems by (simp add: get_inst_def index_list_def)
  show ?case
  proof (cases "phi_data (d_insts d ! i)")
    case True
    then obtain args where "d_insts d ! i = Phi args" by (auto simp: phi_data_def split: inst.splits)
    with g xs True show ?thesis by auto
  next
    case False
    then have "(case d_insts d ! i of Phi args \<Rightarrow> map (\<lambda>(val, block). (val, Some block)) args | _ \<Rightarrow> map (\<lambda>v. (v, None)) (values_of (d_insts d ! i)))
        = map (\<lambda>v. (v, None)) (values_of (d_insts d ! i))" "\<nexists>args. d_insts d ! i = Phi args"
      by (auto simp: phi_data_def split: inst.splits)
    with g xs False show ?thesis by auto
  qed
qed simp

lemma fold_defs:
  "\<forall>phi phi'. (v, phi) \<in> set xs \<and> (v, phi') \<in> set xs \<longrightarrow> phi = phi' \<Longrightarrow>
   fold (\<lambda>(val, is_phi_def) m. m(val \<mapsto> if is_phi_def then PhiDef block else NormalDef block)) xs m v
     = (if (v, True) \<in> set xs then Some (PhiDef block) else if (v, False) \<in> set xs then Some (NormalDef block) else m v)"
proof (induction xs arbitrary: m rule: rev_induct)
  case (snoc x xs)
  obtain w phi where x: "x = (w, phi)" by (cases x)
  from snoc.prems x have "\<forall>phi phi'. (v, phi) \<in> set xs \<and> (v, phi') \<in> set xs \<longrightarrow> phi = phi'" by auto
  note ih = snoc.IH [OF this]
  show ?case
  proof (cases "w = v")
    case True
    with snoc.prems x have "(v, \<not> phi) \<notin> set xs" by (cases phi) auto
    with True x show ?thesis by (cases phi) auto
  qed (use ih x in auto)
qed simp

lemma fold_args: "fold (\<lambda>arg m. m(arg \<mapsto> FnArg)) args m v = (if v \<in> set args then Some FnArg else m v)"
  by (induction args arbitrary: m) auto

lemma record_defs_ok:
  assumes fok: "function_ok func bs ins" and sd: "single_defs func ins"
  shows "set cs \<subseteq> set bs \<Longrightarrow> distinct cs \<Longrightarrow>
    \<exists>ds. record_defs func cs lv = Inr (lv\<lparr>val_defs := ds\<rparr>) \<and> (\<forall>v.
       (\<forall>b \<in> set cs. defined_in func ins True v b \<longrightarrow> ds v = Some (PhiDef b))
     \<and> (\<forall>b \<in> set cs. defined_in func ins False v b \<longrightarrow> ds v = Some (NormalDef b))
     \<and> ((\<forall>b \<in> set cs. \<not> defined_in func ins True v b \<and> \<not> defined_in func ins False v b) \<longrightarrow> ds v = val_defs lv v))"
proof (induction cs arbitrary: lv)
  case Nil
  then show ?case by (intro exI [of _ "val_defs lv"]) simp
next
  case (Cons b cs)
  have lt: "\<forall>i \<in> set (ins b). i < length (d_insts (f_dfg func))" using function_okD(3) [OF fok] by blast
  from inst_defs_ok [OF this] obtain xs where xs: "inst_defs (f_dfg func) (ins b) = Inr xs"
    "\<forall>v phi. (v, phi) \<in> set xs \<longleftrightarrow> defined_in func ins phi v b" by (auto simp: defined_in_def)
  have fd: "for_each_def func b = Inr xs" using insts_of_ok [OF fok, of b] Cons.prems(1) xs(1) by (simp add: for_each_def_def)
  have uniq: "phi = phi' \<and> c = c'" if "defined_in func ins phi v c" "defined_in func ins phi' v c'" for phi phi' v c c'
    using that sd unfolding defined_in_def single_defs_def by (metis (no_types))
  let ?ds = "fold (\<lambda>(val, is_phi_def) m. m(val \<mapsto> if is_phi_def then PhiDef b else NormalDef b)) xs (val_defs lv)"
  have fo: "?ds v = (if defined_in func ins True v b then Some (PhiDef b) else if defined_in func ins False v b then Some (NormalDef b) else val_defs lv v)" for v
  proof -
    have "\<forall>phi phi'. (v, phi) \<in> set xs \<and> (v, phi') \<in> set xs \<longrightarrow> phi = phi'" using xs(2) uniq by blast
    from fold_defs [OF this, of b "val_defs lv"] show ?thesis by (simp only: xs(2))
  qed
  from Cons.IH [of "lv\<lparr>val_defs := ?ds\<rparr>"] Cons.prems obtain ds where ds: "record_defs func cs (lv\<lparr>val_defs := ?ds\<rparr>) = Inr (lv\<lparr>val_defs := ds\<rparr>)"
    and dsv: "\<And>v. (\<forall>b \<in> set cs. defined_in func ins True v b \<longrightarrow> ds v = Some (PhiDef b))
     \<and> (\<forall>b \<in> set cs. defined_in func ins False v b \<longrightarrow> ds v = Some (NormalDef b))
     \<and> ((\<forall>b \<in> set cs. \<not> defined_in func ins True v b \<and> \<not> defined_in func ins False v b) \<longrightarrow> ds v = ?ds v)" by auto
  have "(\<forall>c \<in> set (b # cs). defined_in func ins True v c \<longrightarrow> ds v = Some (PhiDef c))
     \<and> (\<forall>c \<in> set (b # cs). defined_in func ins False v c \<longrightarrow> ds v = Some (NormalDef c))
     \<and> ((\<forall>c \<in> set (b # cs). \<not> defined_in func ins True v c \<and> \<not> defined_in func ins False v c) \<longrightarrow> ds v = val_defs lv v)" for v
  proof (cases "defined_in func ins True v b \<or> defined_in func ins False v b")
    case True
    then obtain phi where phi: "defined_in func ins phi v b" by blast
    have "\<forall>c \<in> set cs. \<not> defined_in func ins phi' v c" for phi' using uniq [OF phi] Cons.prems(2) by auto
    with dsv [of v] have "ds v = ?ds v" by blast
    moreover have p: "defined_in func ins phi' v c \<longleftrightarrow> phi' = phi \<and> c = b" if "c \<in> set (b # cs)" for phi' c
      using phi uniq [OF phi, of phi' c] by blast
    ultimately have "ds v = (if phi then Some (PhiDef b) else Some (NormalDef b))" using fo [of v] by (cases phi) simp_all
    with p show ?thesis by (cases phi) simp_all
  next
    case False
    with dsv [of v] fo [of v] show ?thesis by simp
  qed
  with ds fd show ?case by (intro exI [of _ ds]) simp
qed

text \<open>The definitions found by the first loop tell the same edges apart as the definitions of the function.\<close>

lemma carries_eq:
  assumes sd: "single_defs func ins" and dv: "ds v = Some def"
    and ds: "\<forall>b \<in> R. defined_in func ins True v b \<longrightarrow> ds v = Some (PhiDef b)" "\<forall>b \<in> R. defined_in func ins False v b \<longrightarrow> ds v = Some (NormalDef b)"
      "(\<forall>b \<in> R. \<not> defined_in func ins True v b \<and> \<not> defined_in func ins False v b) \<longrightarrow> ds v = (if v \<in> set (arg_values func) then Some FnArg else None)"
  shows "live_edges cfg def = carries func cfg ins v" "def = NormalDef b \<longleftrightarrow> defined_in func ins False v b"
proof -
  have uniq: "phi = phi' \<and> c = c'" if "defined_in func ins phi v c" "defined_in func ins phi' v c'" for phi phi' c c'
    using that sd unfolding defined_in_def single_defs_def by (metis (no_types))
  consider (a) phi b where "b \<in> R" "defined_in func ins phi v b" | (b) "\<forall>b \<in> R. \<not> defined_in func ins True v b \<and> \<not> defined_in func ins False v b"
    by blast
  then have both: "(def = NormalDef b \<longleftrightarrow> defined_in func ins False v b) \<and> (def = PhiDef b \<longleftrightarrow> defined_in func ins True v b)" for b
  proof cases
    case (a phi c)
    then have d: "def = (if phi then PhiDef c else NormalDef c)" using ds(1,2) dv by (cases phi) simp_all
    have "defined_in func ins phi' v b \<longleftrightarrow> phi' = phi \<and> b = c" for phi' using a(2) uniq [OF a(2), of phi' b] by blast
    with d show ?thesis by (cases phi) auto
  next
    case b
    with ds(3) dv have d: "def = FnArg" "v \<in> set (arg_values func)" by (simp_all split: if_splits)
    then have "\<not> defined_in func ins phi v b" for phi b using sd unfolding single_defs_def defined_in_def by blast
    with d show ?thesis by simp
  qed
  then show "live_edges cfg def = carries func cfg ins v" by (simp add: live_edges_def carries_def)
  from both show "def = NormalDef b \<longleftrightarrow> defined_in func ins False v b" by simp
qed

lemma liveness_compute_ok:
  assumes fok: "function_ok func bs ins" and ok: "cfg_ok cfg" and e: "cfg_entry cfg = Some e"
    and R: "R = {b. (e, b) \<in> (cfg_edges cfg)\<^sup>*}" "R \<subseteq> set bs" and sd: "single_defs func ins" and us: "uses_ok func ins R"
  shows "\<exists>lv'. liveness_compute func cfg lv = Inr lv' \<and> (\<forall>v. if imm_value func v then \<forall>b. v \<notin> live_ins lv' b \<and> v \<notin> live_outs lv' b
    else (\<forall>b. v \<in> live_ins lv' b \<longleftrightarrow> live_in_spec func cfg ins R v b) \<and> (\<forall>b. v \<in> live_outs lv' b \<longleftrightarrow> live_out_spec func cfg ins R v b))"
proof -
  from post_order_of [OF ok e] obtain po where po: "post_order cfg = Some po" "distinct po" "set po = R" using R(1) by blast
  let ?lv = "(liveness_clear lv)\<lparr>val_defs := fold (\<lambda>arg m. m(arg \<mapsto> FnArg)) (arg_values func) (\<lambda>_. None)\<rparr>"
  from record_defs_ok [OF fok sd _ po(2), of ?lv] po(3) R(2) obtain ds where ds: "record_defs func po ?lv = Inr (?lv\<lparr>val_defs := ds\<rparr>)"
    "\<And>v. (\<forall>b \<in> R. defined_in func ins True v b \<longrightarrow> ds v = Some (PhiDef b)) \<and> (\<forall>b \<in> R. defined_in func ins False v b \<longrightarrow> ds v = Some (NormalDef b))
     \<and> ((\<forall>b \<in> R. \<not> defined_in func ins True v b \<and> \<not> defined_in func ins False v b) \<longrightarrow> ds v = (if v \<in> set (arg_values func) then Some FnArg else None))"
    by (auto simp: fold_args)
  have start: "live_state cfg ds (\<lambda>_. {}) (?lv\<lparr>val_defs := ds\<rparr>)"
    by (auto simp: live_state_def liveness_clear_def synced_def split: option.split)
  define evs where "evs b = (case inst_uses (f_dfg func) (ins b) of Inr xs \<Rightarrow> xs | Inl _ \<Rightarrow> [])" for b
  have ev: "for_each_use func b = Inr (evs b)"
      "(v, None) \<in> set (evs b) \<longleftrightarrow> (\<exists>i \<in> set (ins b). \<not> phi_data (d_insts (f_dfg func) ! i) \<and> v \<in> set (values_of (d_insts (f_dfg func) ! i)))"
      "(v, Some p) \<in> set (evs b) \<longleftrightarrow> (\<exists>i \<in> set (ins b). \<exists>args. d_insts (f_dfg func) ! i = Phi args \<and> (v, p) \<in> set args)" if "b \<in> R" for b v p
  proof -
    have "\<forall>i \<in> set (ins b). i < length (d_insts (f_dfg func))" using function_okD(3) [OF fok] by blast
    from inst_uses_ok [OF this] obtain xs where xs: "inst_uses (f_dfg func) (ins b) = Inr xs"
      "\<forall>v. (v, None) \<in> set xs \<longleftrightarrow> (\<exists>i \<in> set (ins b). \<not> phi_data (d_insts (f_dfg func) ! i) \<and> v \<in> set (values_of (d_insts (f_dfg func) ! i)))"
      "\<forall>v p. (v, Some p) \<in> set xs \<longleftrightarrow> (\<exists>i \<in> set (ins b). \<exists>args. d_insts (f_dfg func) ! i = Phi args \<and> (v, p) \<in> set args)" by blast
    moreover have "insts_of func b = Inr (ins b)" using insts_of_ok [OF fok] R(2) that by blast
    ultimately show "for_each_use func b = Inr (evs b)"
      "(v, None) \<in> set (evs b) \<longleftrightarrow> (\<exists>i \<in> set (ins b). \<not> phi_data (d_insts (f_dfg func) ! i) \<and> v \<in> set (values_of (d_insts (f_dfg func) ! i)))"
      "(v, Some p) \<in> set (evs b) \<longleftrightarrow> (\<exists>i \<in> set (ins b). \<exists>args. d_insts (f_dfg func) ! i = Phi args \<and> (v, p) \<in> set args)"
      by (simp_all add: for_each_use_def evs_def)
  qed
  have "usable func ds (evs b)" if b: "b \<in> R" for b
    unfolding usable_def
  proof (intro allI impI)
    fix v src assume m: "(v, src) \<in> set (evs b)"
    obtain i where i: "i \<in> set (ins b)" "v \<in> set (values_of (d_insts (f_dfg func) ! i))"
    proof (cases src)
      case None
      with m ev(2) [OF b] that show ?thesis by blast
    next
      case (Some p)
      with m ev(3) [OF b] obtain i args where "i \<in> set (ins b)" "d_insts (f_dfg func) ! i = Phi args" "(v, p) \<in> set args" by blast
      with that [of i] show ?thesis by (force simp: rev_image_eqI)
    qed
    with us b have u: "v < length (d_values (f_dfg func))"
      "imm_value func v \<or> v \<in> set (arg_values func) \<or> (\<exists>c \<in> R. defined_in func ins True v c \<or> defined_in func ins False v c)" unfolding uses_ok_def by blast+
    moreover have "ds v \<noteq> None" if "v \<in> set (arg_values func) \<or> (\<exists>c \<in> R. defined_in func ins True v c \<or> defined_in func ins False v c)"
      using that ds(2) [of v] by (cases "\<exists>c \<in> R. defined_in func ins True v c \<or> defined_in func ins False v c") auto
    ultimately show "v < length (d_values (f_dfg func)) \<and> (imm_value func v \<or> ds v \<noteq> None)" by blast
  qed
  then have "\<forall>b \<in> set po. for_each_use func b = Inr (evs b) \<and> usable func ds (evs b)" using ev(1) po(3) by blast
  from explore_blocks_ok [OF ok this start] obtain lv' where lv': "explore_blocks func cfg po (?lv\<lparr>val_defs := ds\<rparr>) = Inr lv'"
    "live_state cfg ds (\<lambda>v. \<Union>b \<in> set po. sites func b (evs b) v) lv'" by auto
  have st: "(\<Union>b \<in> set po. sites func b (evs b) v) = (if imm_value func v then {} else used_in func ins R v)" for v
  proof -
    have "x \<in> use_site b ` {src. (v, src) \<in> set (evs b)} \<longleftrightarrow> x = b \<and> (v, None) \<in> set (evs b) \<or> (v, Some x) \<in> set (evs b)" for b x
      by (auto simp: use_site_def split: option.splits intro: rev_image_eqI)
    then have "x \<in> (\<Union>b \<in> R. use_site b ` {src. (v, src) \<in> set (evs b)}) \<longleftrightarrow>
        (\<exists>b \<in> R. x = b \<and> (v, None) \<in> set (evs b) \<or> (v, Some x) \<in> set (evs b))" for x by simp
    also have "\<dots> x \<longleftrightarrow> x \<in> used_in func ins R v" for x
      unfolding used_in_def Un_iff mem_Collect_eq using ev(2) [where v = v] ev(3) [where v = v and p = x] by (simp cong: bex_cong) blast
    finally have "(\<Union>b \<in> R. use_site b ` {src. (v, src) \<in> set (evs b)}) = used_in func ins R v" by blast
    then show ?thesis by (simp add: sites_def po(3))
  qed
  have "liveness_compute func cfg lv = Inr lv'" using po(1) ds(1) lv'(1)
    by (simp add: liveness_compute_def Let_def liveness_clear_def)
  moreover have "if imm_value func v then \<forall>b. v \<notin> live_ins lv' b \<and> v \<notin> live_outs lv' b
    else (\<forall>b. v \<in> live_ins lv' b \<longleftrightarrow> live_in_spec func cfg ins R v b) \<and> (\<forall>b. v \<in> live_outs lv' b \<longleftrightarrow> live_out_spec func cfg ins R v b)" for v
  proof (cases "ds v")
    case None
    note n = live_stateD(2) [OF lv'(2) None]
    with st [of v] show ?thesis by (auto simp: live_in_spec_def live_out_spec_def)
  next
    case (Some def)
    note s = live_stateD(3) [OF lv'(2) Some, unfolded st]
    have c: "live_edges cfg def = carries func cfg ins v" "def = NormalDef b \<longleftrightarrow> defined_in func ins False v b" for b
      using carries_eq [where R = R and ds = ds and v = v and def = def, OF sd] Some ds(2) [of v] by blast+
    show ?thesis
    proof (cases "imm_value func v")
      case True
      with s show ?thesis by (simp add: synced_def)
    next
      case False
      have "(b, u) \<in> (carries func cfg ins v)\<^sup>+ \<longleftrightarrow> (\<exists>s. (b, s) \<in> carries func cfg ins v \<and> (s, u) \<in> (carries func cfg ins v)\<^sup>*)" for b u
        by (meson rtrancl_into_trancl2 tranclD)
      then have "v \<in> live_outs lv' b \<longleftrightarrow> live_out_spec func cfg ins R v b" for b
        using s False c(1) unfolding live_out_spec_def by (simp only: if_False mem_Collect_eq) blast
      moreover have "v \<in> live_ins lv' b \<longleftrightarrow> live_in_spec func cfg ins R v b" for b
        using s False c by (auto simp: synced_def live_in_spec_def)
      ultimately show ?thesis using False by simp
    qed
  qed
  ultimately show ?thesis by blast
qed

section \<open>Values live after an instruction\<close>

definition uses_value :: "Function \<Rightarrow> InstId \<Rightarrow> ValueId \<Rightarrow> bool" where
  "uses_value func i v \<longleftrightarrow> \<not> phi_data (d_insts (f_dfg func) ! i) \<and> v \<in> set (values_of (d_insts (f_dfg func) ! i)) \<and> \<not> imm_value func v"

text \<open>The values live above the instructions \<open>js\<close> when \<open>L\<close> are live below them.\<close>

fun live_above :: "Function \<Rightarrow> ValueId set \<Rightarrow> InstId list \<Rightarrow> ValueId set" where
  "live_above func L [] = L"
| "live_above func L (i # js) = {v \<in> live_above func L js. inst_result (f_dfg func) i \<noteq> Some v} \<union> {v. uses_value func i v}"

lemma live_above_append: "live_above func L (xs @ ys) = live_above func (live_above func L ys) xs"
  by (induction xs) auto

lemma live_above_iff:
  "v \<in> live_above func L js \<longleftrightarrow>
     (\<exists>mid j rest. js = mid @ j # rest \<and> uses_value func j v \<and> (\<forall>x \<in> set mid. inst_result (f_dfg func) x \<noteq> Some v))
   \<or> v \<in> L \<and> (\<forall>x \<in> set js. inst_result (f_dfg func) x \<noteq> Some v)"
proof (induction js)
  case (Cons i js)
  have "(\<exists>mid j rest. i # js = mid @ j # rest \<and> uses_value func j v \<and> (\<forall>x \<in> set mid. inst_result (f_dfg func) x \<noteq> Some v)) \<longleftrightarrow>
      uses_value func i v \<or> inst_result (f_dfg func) i \<noteq> Some v
        \<and> (\<exists>mid j rest. js = mid @ j # rest \<and> uses_value func j v \<and> (\<forall>x \<in> set mid. inst_result (f_dfg func) x \<noteq> Some v))"
    (is "?l \<longleftrightarrow> ?r")
  proof
    assume ?l
    then obtain mid j rest where l: "i # js = mid @ j # rest" "uses_value func j v" "\<forall>x \<in> set mid. inst_result (f_dfg func) x \<noteq> Some v" by blast
    show ?r
    proof (cases mid)
      case (Cons m mid')
      with l have "js = mid' @ j # rest" "m = i" "\<forall>x \<in> set mid'. inst_result (f_dfg func) x \<noteq> Some v" "inst_result (f_dfg func) i \<noteq> Some v" by auto
      with l(2) show ?thesis by blast
    qed (use l in simp)
  next
    assume ?r
    then show ?l
    proof (elim disjE conjE exE)
      assume "uses_value func i v"
      then show ?thesis by (intro exI [of _ "[]"]) simp
    next
      fix mid j rest
      assume "inst_result (f_dfg func) i \<noteq> Some v" "js = mid @ j # rest" "uses_value func j v"
        "\<forall>x \<in> set mid. inst_result (f_dfg func) x \<noteq> Some v"
      then show ?thesis by (intro exI [of _ "i # mid"] exI [of _ j] exI [of _ rest]) simp
    qed
  qed
  note eq = this
  show ?case unfolding eq by (simp only: live_above.simps Un_iff mem_Collect_eq Cons.IH list.set ball_simps) blast
qed simp

lemma non_immediates:
  assumes "\<forall>v \<in> set vs. v < length (d_values (f_dfg func))"
  shows "\<exists>ss. rmap (\<lambda>v. rbind (value_is_imm (f_dfg func) v) (\<lambda>imm. Inr (if imm then {} else {v}))) vs = Inr ss
    \<and> \<Union> (set ss) = {v \<in> set vs. \<not> imm_value func v}"
  using assms by (induction vs) (auto simp: value_is_imm_eq split: if_splits)

lemma inst_live_outs_ok:
  assumes "\<forall>i \<in> set js. i < length (d_insts (f_dfg func)) \<and> (\<forall>v \<in> set (values_of (d_insts (f_dfg func) ! i)). v < length (d_values (f_dfg func)))"
    and "distinct js"
  shows "\<exists>out'. inst_live_outs (f_dfg func) (rev js) L out = Inr out'
    \<and> (\<forall>pre i post. js = pre @ i # post \<longrightarrow> out' i = live_above func L post) \<and> (\<forall>i. i \<notin> set js \<longrightarrow> out' i = out i)"
  using assms
proof (induction js arbitrary: L out rule: rev_induct)
  case (snoc i js)
  let ?d = "f_dfg func"
  have g: "get_inst ?d i = Inr (d_insts ?d ! i)" using snoc.prems by (simp add: get_inst_def index_list_def)
  then have ph: "is_phi ?d i = Inr (phi_data (d_insts ?d ! i))" by (simp add: is_phi_def phi_data_def)
  let ?L = "case inst_result ?d i of Some v \<Rightarrow> L - {v} | None \<Rightarrow> L"
  have L: "live_above func L [i] = ?L \<union> {v. uses_value func i v}" by (auto split: option.split)
  have step: "inst_live_outs ?d (rev (js @ [i])) L out = inst_live_outs ?d (rev js) (live_above func L [i]) (out(i := L))"
  proof (cases "phi_data (d_insts ?d ! i)")
    case True
    with ph L show ?thesis by (simp add: uses_value_def Let_def)
  next
    case False
    from snoc.prems(1) have "\<forall>v \<in> set (values_of (d_insts ?d ! i)). v < length (d_values ?d)" by simp
    from non_immediates [OF this] obtain ss where
      "rmap (\<lambda>v. rbind (value_is_imm ?d v) (\<lambda>imm. Inr (if imm then {} else {v}))) (values_of (d_insts ?d ! i)) = Inr ss"
      "\<Union> (set ss) = {v \<in> set (values_of (d_insts ?d ! i)). \<not> imm_value func v}" by blast
    with False ph g L show ?thesis by (simp add: uses_value_def Let_def)
  qed
  from snoc.prems have "\<forall>i \<in> set js. i < length (d_insts ?d) \<and> (\<forall>v \<in> set (values_of (d_insts ?d ! i)). v < length (d_values ?d))" "distinct js"
    by simp_all
  from snoc.IH [OF this, of "live_above func L [i]" "out(i := L)"] obtain out' where
    o: "inst_live_outs ?d (rev js) (live_above func L [i]) (out(i := L)) = Inr out'"
      "\<And>pre j post. js = pre @ j # post \<Longrightarrow> out' j = live_above func (live_above func L [i]) post"
      "\<And>j. j \<notin> set js \<Longrightarrow> out' j = (out(i := L)) j" by blast
  have "out' j = live_above func L post" if "js @ [i] = pre @ j # post" for pre j post
  proof (cases post rule: rev_cases)
    case Nil
    with that o(3) [of i] snoc.prems(2) show ?thesis by auto
  next
    case (snoc post' k)
    with that have "js = pre @ j # post'" "k = i" by simp_all
    with o(2) snoc show ?thesis by (simp only: live_above_append)
  qed
  moreover have "out' j = out j" if "j \<notin> set (js @ [i])" for j using that o(3) [of j] by simp
  ultimately show ?case using step o(1) by (intro exI [of _ out']) simp
qed simp

lemma inst_liveness_blocks_ok:
  assumes fok: "function_ok func bs ins"
    and lt: "\<forall>b \<in> set cs. \<forall>i \<in> set (ins b). \<forall>v \<in> set (values_of (d_insts (f_dfg func) ! i)). v < length (d_values (f_dfg func))"
  shows "set cs \<subseteq> set bs \<Longrightarrow> distinct cs \<Longrightarrow> \<exists>out'. inst_liveness_blocks func lv cs out = Inr out'
    \<and> (\<forall>b \<in> set cs. \<forall>pre i post. ins b = pre @ i # post \<longrightarrow> out' i = live_above func (live_outs lv b) post)
    \<and> (\<forall>i. (\<forall>b \<in> set cs. i \<notin> set (ins b)) \<longrightarrow> out' i = out i)"
  using lt
proof (induction cs arbitrary: out)
  case (Cons b cs)
  note v = function_okD(1) [OF fok]
  have d: "distinct (ins b)" using layout_view_inst_links(4) [OF v, of b] by (cases "ins b") fastforce+
  have other: "i \<notin> set (ins c)" if "i \<in> set (ins b)" "c \<in> set cs" for i c
  proof
    assume "i \<in> set (ins c)"
    then have "c = b" using that(1) layout_view_inst_links(3) [OF v] by (metis option.inject split_list)
    with that(2) Cons.prems(2) show False by simp
  qed
  have "\<forall>i \<in> set (ins b). i < length (d_insts (f_dfg func)) \<and> (\<forall>v \<in> set (values_of (d_insts (f_dfg func) ! i)). v < length (d_values (f_dfg func)))"
    using function_okD(3) [OF fok] Cons.prems(3) by auto
  from inst_live_outs_ok [OF this d, of "live_outs lv b" out] obtain out1 where
    1: "inst_live_outs (f_dfg func) (rev (ins b)) (live_outs lv b) out = Inr out1"
      "\<forall>pre i post. ins b = pre @ i # post \<longrightarrow> out1 i = live_above func (live_outs lv b) post" "\<forall>i. i \<notin> set (ins b) \<longrightarrow> out1 i = out i" by blast
  from Cons.IH [of out1] Cons.prems obtain out' where
    2: "inst_liveness_blocks func lv cs out1 = Inr out'"
      "\<forall>b \<in> set cs. \<forall>pre i post. ins b = pre @ i # post \<longrightarrow> out' i = live_above func (live_outs lv b) post"
      "\<forall>i. (\<forall>b \<in> set cs. i \<notin> set (ins b)) \<longrightarrow> out' i = out1 i" by auto
  have "out' i = live_above func (live_outs lv b) post" if "ins b = pre @ i # post" for pre i post
    using that 2(3) 1(2) other [of i] by simp
  moreover have "insts_of func b = Inr (ins b)" using insts_of_ok [OF fok] Cons.prems(1) by simp
  ultimately show ?case using 1 2 by (intro exI [of _ out']) simp
qed simp

text \<open>The values collected at the calls: those live after one, some of the results of calls excepted.\<close>

lemma call_live_insts_ok:
  assumes "\<forall>i \<in> set js. i < length (d_insts d)"
  shows "\<exists>res. call_live_insts d out js acc = Inr res
    \<and> (\<forall>v. v \<in> res \<longrightarrow> v \<in> acc \<or> (\<exists>i \<in> set js. is_call d i = Inr True \<and> v \<in> out i))
    \<and> (\<forall>v. (\<forall>i \<in> set js. is_call d i = Inr True \<longrightarrow> inst_result d i \<noteq> Some v) \<longrightarrow>
          (v \<in> acc \<or> (\<exists>i \<in> set js. is_call d i = Inr True \<and> v \<in> out i)) \<longrightarrow> v \<in> res)"
  using assms
proof (induction js arbitrary: acc)
  case (Cons i js)
  have "get_inst d i = Inr (d_insts d ! i)" using Cons.prems by (simp add: get_inst_def index_list_def)
  then obtain c where c: "is_call d i = Inr c" by (auto simp: is_call_def)
  let ?acc = "if c then (case inst_result d i of Some v \<Rightarrow> (acc \<union> out i) - {v} | None \<Rightarrow> acc \<union> out i) else acc"
  from Cons.prems have "\<forall>i \<in> set js. i < length (d_insts d)" by simp
  from Cons.IH [OF this, of ?acc] obtain res where
    r: "call_live_insts d out js ?acc = Inr res"
      "\<And>v. v \<in> res \<Longrightarrow> v \<in> ?acc \<or> (\<exists>i \<in> set js. is_call d i = Inr True \<and> v \<in> out i)"
      "\<And>v. \<forall>i \<in> set js. is_call d i = Inr True \<longrightarrow> inst_result d i \<noteq> Some v \<Longrightarrow>
          v \<in> ?acc \<or> (\<exists>i \<in> set js. is_call d i = Inr True \<and> v \<in> out i) \<Longrightarrow> v \<in> res" by blast
  have "v \<in> acc \<or> (\<exists>i \<in> set (i # js). is_call d i = Inr True \<and> v \<in> out i)" if "v \<in> res" for v
    using r(2) [OF that] c by (auto split: if_splits option.splits)
  moreover have "v \<in> res" if "\<forall>i \<in> set (i # js). is_call d i = Inr True \<longrightarrow> inst_result d i \<noteq> Some v"
    "v \<in> acc \<or> (\<exists>i \<in> set (i # js). is_call d i = Inr True \<and> v \<in> out i)" for v
    using r(3) [of v] that c by (auto split: if_splits option.splits)
  ultimately show ?case using c r(1) by (intro exI [of _ res]) auto
qed simp

lemma call_live_blocks_concat:
  "function_ok func bs ins \<Longrightarrow> set cs \<subseteq> set bs \<Longrightarrow>
     call_live_blocks func out cs acc = call_live_insts (f_dfg func) out (concat (map ins cs)) acc"
proof (induction cs arbitrary: acc)
  case (Cons c cs)
  have app: "call_live_insts d out (xs @ ys) acc = rbind (call_live_insts d out xs acc) (call_live_insts d out ys)" for d xs ys and acc :: "ValueId set"
    by (induction xs arbitrary: acc) (simp_all add: rbind_assoc)
  have "call_live_blocks func out cs = call_live_insts (f_dfg func) out (concat (map ins cs))" using Cons by (simp add: fun_eq_iff)
  with insts_of_ok [OF Cons.prems(1), of c] Cons.prems(2) show ?case by (simp add: app)
qed simp

section \<open>Properties\<close>

text \<open>C12: The exploration of a well-formed function ends, and computes liveness as it is defined by paths: a value is
  live into a block exactly if the block does not define it by an instruction other than a phi and leads to a use of it
  through blocks that do not define it, and live out of it exactly if it is so over an edge;
  a phi uses an argument at the end of the block it comes from. Immediates are never live.\<close>
theorem liveness_correct:
  assumes "function_ok func bs ins" and "cfg_ok cfg" and "cfg_entry cfg = Some e"
    and "{b. (e, b) \<in> (cfg_edges cfg)\<^sup>*} \<subseteq> set bs" and "single_defs func ins" and "uses_ok func ins {b. (e, b) \<in> (cfg_edges cfg)\<^sup>*}"
  shows "\<exists>lv'. liveness_compute func cfg lv = Inr lv' \<and> (\<forall>v. if imm_value func v then \<forall>b. v \<notin> live_ins lv' b \<and> v \<notin> live_outs lv' b
    else (\<forall>b. v \<in> live_ins lv' b \<longleftrightarrow> live_in_spec func cfg ins {b. (e, b) \<in> (cfg_edges cfg)\<^sup>*} v b)
       \<and> (\<forall>b. v \<in> live_outs lv' b \<longleftrightarrow> live_out_spec func cfg ins {b. (e, b) \<in> (cfg_edges cfg)\<^sup>*} v b))"
  by (rule liveness_compute_ok [OF assms(1-3) refl assms(4-6)])

text \<open>C17: The liveness of instructions is that of straight-line code between the instruction and the end of its
  block: a value is live after an instruction exactly if a later instruction of the block uses it before any redefinition, or it is
  live out of the block and not defined below.\<close>
theorem inst_liveness_correct:
  assumes "function_ok func bs ins" and "cfg_ok cfg" and "cfg_entry cfg = Some e"
    and "{b. (e, b) \<in> (cfg_edges cfg)\<^sup>*} \<subseteq> set bs" and "uses_ok func ins {b. (e, b) \<in> (cfg_edges cfg)\<^sup>*}"
  shows "\<exists>out. inst_liveness_compute func cfg lv = Inr out
    \<and> (\<forall>b pre i post v. (e, b) \<in> (cfg_edges cfg)\<^sup>* \<and> ins b = pre @ i # post \<longrightarrow>
        (v \<in> out i \<longleftrightarrow>
           (\<exists>mid j rest. post = mid @ j # rest \<and> uses_value func j v \<and> (\<forall>x \<in> set mid. inst_result (f_dfg func) x \<noteq> Some v))
         \<or> v \<in> live_outs lv b \<and> (\<forall>x \<in> set post. inst_result (f_dfg func) x \<noteq> Some v)))"
proof -
  let ?R = "{b. (e, b) \<in> (cfg_edges cfg)\<^sup>*}"
  from post_order_of [OF assms(2,3)] obtain po where po: "post_order cfg = Some po" "distinct po" "set po = ?R" by blast
  have lt: "\<forall>b \<in> set po. \<forall>i \<in> set (ins b). \<forall>v \<in> set (values_of (d_insts (f_dfg func) ! i)). v < length (d_values (f_dfg func))"
    using assms(5) po(3) unfolding uses_ok_def by blast
  have "set po \<subseteq> set bs" using po(3) assms(4) by simp
  from inst_liveness_blocks_ok [OF assms(1) lt this po(2), of lv "\<lambda>_. {}"] obtain out where
    o: "inst_liveness_blocks func lv po (\<lambda>_. {}) = Inr out"
      "\<forall>b \<in> set po. \<forall>pre i post. ins b = pre @ i # post \<longrightarrow> out i = live_above func (live_outs lv b) post" by (elim exE conjE)
  have "v \<in> out i \<longleftrightarrow> v \<in> live_above func (live_outs lv b) post" if "(e, b) \<in> (cfg_edges cfg)\<^sup>* \<and> ins b = pre @ i # post" for b pre i post v
  proof -
    from that po(3) have "b \<in> set po" by simp
    with o(2) that have "out i = live_above func (live_outs lv b) post" by blast
    then show ?thesis by simp
  qed
  note ao = this [unfolded live_above_iff]
  show ?thesis
  proof (intro exI [of _ out] conjI allI impI)
    show "inst_liveness_compute func cfg lv = Inr out" using o(1) po(1) by (simp add: inst_liveness_compute_def)
  qed (rule ao)
qed

text \<open>The values kept for the calls are live after a call, and every value live after a call is among them unless it
  is itself the result of a call.\<close>
theorem call_live_values_bounds:
  assumes "function_ok func bs ins"
  shows "\<exists>res. call_live_values func out = Inr res
    \<and> (\<forall>v \<in> res. \<exists>b. \<exists>i \<in> set (ins b). is_call (f_dfg func) i = Inr True \<and> v \<in> out i)
    \<and> (\<forall>b. \<forall>i \<in> set (ins b). is_call (f_dfg func) i = Inr True \<longrightarrow> (\<forall>v \<in> out i.
         v \<in> res \<or> (\<exists>c. \<exists>j \<in> set (ins c). is_call (f_dfg func) j = Inr True \<and> inst_result (f_dfg func) j = Some v)))"
proof -
  note v = function_okD(1) [OF assms]
  let ?js = "concat (map ins bs)"
  have js: "i \<in> set ?js \<longleftrightarrow> (\<exists>b. i \<in> set (ins b))" for i
  proof -
    have "b \<in> set bs" if "i \<in> set (ins b)" for b using layout_view_insts(4) [OF v, of b] that by (cases "ins b") auto
    then show ?thesis by auto
  qed
  then have "\<forall>i \<in> set ?js. i < length (d_insts (f_dfg func))" using function_okD(3) [OF assms] by blast
  from call_live_insts_ok [OF this, of out "{}"] obtain res where
    r: "call_live_insts (f_dfg func) out ?js {} = Inr res"
      "\<forall>v. v \<in> res \<longrightarrow> v \<in> {} \<or> (\<exists>i \<in> set ?js. is_call (f_dfg func) i = Inr True \<and> v \<in> out i)"
      "\<forall>v. (\<forall>i \<in> set ?js. is_call (f_dfg func) i = Inr True \<longrightarrow> inst_result (f_dfg func) i \<noteq> Some v) \<longrightarrow>
          (v \<in> {} \<or> (\<exists>i \<in> set ?js. is_call (f_dfg func) i = Inr True \<and> v \<in> out i)) \<longrightarrow> v \<in> res" by blast
  have "call_live_values func out = Inr res"
    using r(1) iter_block_view [OF v] call_live_blocks_concat [OF assms, of bs out "{}"] by (simp add: call_live_values_def)
  moreover have "\<exists>b. \<exists>i \<in> set (ins b). is_call (f_dfg func) i = Inr True \<and> v \<in> out i" if "v \<in> res" for v
  proof -
    from r(2) that obtain i where "i \<in> set ?js" "is_call (f_dfg func) i = Inr True \<and> v \<in> out i" by blast
    with js [of i] show ?thesis by blast
  qed
  moreover have "v \<in> res \<or> (\<exists>c. \<exists>j \<in> set (ins c). is_call (f_dfg func) j = Inr True \<and> inst_result (f_dfg func) j = Some v)"
    if "i \<in> set (ins b)" "is_call (f_dfg func) i = Inr True" "v \<in> out i" for v i b
  proof (cases "\<forall>j \<in> set ?js. is_call (f_dfg func) j = Inr True \<longrightarrow> inst_result (f_dfg func) j \<noteq> Some v")
    case True
    moreover have "i \<in> set ?js" using js that(1) by blast
    ultimately have "v \<in> res" using r(3) that by blast
    then show ?thesis by blast
  next
    case False
    then obtain j where "j \<in> set ?js" "is_call (f_dfg func) j = Inr True \<and> inst_result (f_dfg func) j = Some v" by blast
    with js [of j] show ?thesis by blast
  qed
  ultimately show ?thesis by (intro exI [of _ res]) simp
qed

text \<open>
  A result is taken out when its call is reached, so it is lost if a call it is live after comes earlier in the layout.
\<close>

lemma call_live_values_order:
  "call_live_insts \<lparr>block_num = 2, d_values = [V_Inst 0 Ty_I8], d_insts = [Call 0 [], Call 0 []],
       inst_results = [0 \<mapsto> 0], immediates = Map.empty, users = (\<lambda>_. {})\<rparr> (\<lambda>_. {0}) [1, 0] {} = Inr {}"
  by (simp add: is_call_def get_inst_def index_list_def inst_result_def)

definition sample_line :: ControlFlowGraph where
  "sample_line = remove_edge 1 0 sample_graph"

lemma sample_line_ok: "cfg_ok sample_line" "cfg_edges sample_line = {(0, 1)}" "cfg_entry sample_line = Some 0"
  using cfg_ok_edits(2) [OF sample_graph_ok(1), of 1 0] remove_edge_edges [of 1 0 sample_graph] sample_graph_ok(2,3)
  by (auto simp: sample_line_def remove_edge_def upd_node_def)

lemma sample_line_reach: "{b. (0, b) \<in> (cfg_edges sample_line)\<^sup>*} = {0, 1}"
proof -
  have "b \<in> {0, 1}" if "(0, b) \<in> (cfg_edges sample_line)\<^sup>*" for b
    using that by (induction rule: rtrancl_induct) (auto simp: sample_line_ok(2))
  moreover have "(0, 1) \<in> (cfg_edges sample_line)\<^sup>*" by (auto simp: sample_line_ok(2))
  ultimately show ?thesis by blast
qed

lemma sample_single: "single_defs sample_func sample_insts" "uses_ok sample_func sample_insts {0, 1}"
  by (auto simp: single_defs_def uses_ok_def sample_func_def sample_insts_def inst_result_def imm_value_def defined_in_def
      phi_data_def split: if_splits)

theorem liveness_correct_witness:
  "\<exists>lv'. liveness_compute sample_func sample_line liveness_new = Inr lv' \<and> 1 \<in> live_ins lv' 1 \<and> 1 \<in> live_outs lv' 0 \<and> 1 \<notin> live_ins lv' 0"
proof -
  note r = sample_line_reach
  from liveness_correct [OF sample_func_ok sample_line_ok(1,3), unfolded r, OF _ sample_single, of liveness_new] obtain lv' where
    l: "liveness_compute sample_func sample_line liveness_new = Inr lv'"
      "\<And>v. if imm_value sample_func v then \<forall>b. v \<notin> live_ins lv' b \<and> v \<notin> live_outs lv' b
        else (\<forall>b. v \<in> live_ins lv' b \<longleftrightarrow> live_in_spec sample_func sample_line sample_insts {0, 1} v b)
          \<and> (\<forall>b. v \<in> live_outs lv' b \<longleftrightarrow> live_out_spec sample_func sample_line sample_insts {0, 1} v b)" by auto
  have i: "\<not> imm_value sample_func 1" by (simp add: imm_value_def sample_func_def)
  have d: "defined_in sample_func sample_insts phi 1 b \<longleftrightarrow> b = 0 \<and> \<not> phi" for phi b
    by (auto simp: defined_in_def sample_func_def sample_insts_def inst_result_def phi_data_def split: if_splits)
  have u: "1 \<in> used_in sample_func sample_insts {0, 1} 1"
    by (auto simp: used_in_def sample_func_def sample_insts_def phi_data_def)
  have c: "(0, 1) \<in> carries sample_func sample_line sample_insts 1" by (simp add: carries_def sample_line_ok(2) d del: One_nat_def)
  have "live_in_spec sample_func sample_line sample_insts {0, 1} 1 1" using u d [of False 1] unfolding live_in_spec_def by (simp del: One_nat_def) blast
  moreover have "live_out_spec sample_func sample_line sample_insts {0, 1} 1 0" using u c by (auto simp: live_out_spec_def)
  moreover have "\<not> live_in_spec sample_func sample_line sample_insts {0, 1} 1 0" using d by (auto simp: live_in_spec_def)
  ultimately show ?thesis using l(1) l(2) [of 1] i by (intro exI [of _ lv']) simp
qed

theorem inst_liveness_correct_witness:
  "\<exists>out. inst_liveness_compute sample_func sample_line (liveness_new\<lparr>live_outs := (\<lambda>b. if b = 0 then {1} else {})\<rparr>) = Inr out
     \<and> 1 \<in> out 0 \<and> 0 \<notin> out 0 \<and> 1 \<notin> out 2"
proof -
  note r = sample_line_reach
  have r0: "(0, b) \<in> (cfg_edges sample_line)\<^sup>* \<longleftrightarrow> b = 0 \<or> b = 1" for b using r by blast
  from inst_liveness_correct [OF sample_func_ok sample_line_ok(1,3), unfolded r, OF _ sample_single(2),
      of "liveness_new\<lparr>live_outs := (\<lambda>b. if b = 0 then {1} else {})\<rparr>"] obtain out where
    o: "inst_liveness_compute sample_func sample_line (liveness_new\<lparr>live_outs := (\<lambda>b. if b = 0 then {1} else {})\<rparr>) = Inr out"
      "\<And>b pre i post v. (0, b) \<in> (cfg_edges sample_line)\<^sup>* \<and> sample_insts b = pre @ i # post \<Longrightarrow>
        (v \<in> out i \<longleftrightarrow>
           (\<exists>mid j rest. post = mid @ j # rest \<and> uses_value sample_func j v \<and> (\<forall>x \<in> set mid. inst_result (f_dfg sample_func) x \<noteq> Some v))
         \<or> v \<in> (if b = 0 then {1} else {}) \<and> (\<forall>x \<in> set post. inst_result (f_dfg sample_func) x \<noteq> Some v))" by auto
  have u: "\<not> uses_value sample_func 1 v" "inst_result (f_dfg sample_func) 1 = None" for v
    by (auto simp: uses_value_def sample_func_def inst_result_def)
  have s: "sample_insts 0 = [] @ 0 # [1]" "sample_insts 1 = [] @ 2 # []" by (simp_all add: sample_insts_def)
  from o(2) [of 0 "[]" 0 "[1]"] o(2) [of 1 "[]" 2 "[]"] have "1 \<in> out 0 \<and> 0 \<notin> out 0 \<and> 1 \<notin> out 2"
    by (auto simp: s r0 u Cons_eq_append_conv simp del: One_nat_def)
  with o(1) show ?thesis by blast
qed

theorem call_live_values_bounds_witness: "call_live_values sample_func (\<lambda>_. {0}) = Inr {}"
proof -
  have "is_call (f_dfg sample_func) i \<noteq> Inr True" if "i \<in> set (sample_insts b)" for b i
    using that by (auto simp: is_call_def get_inst_def index_list_def sample_insts_def sample_func_def split: if_splits)
  with call_live_values_bounds [OF sample_func_ok, of "\<lambda>_. {0}"] show ?thesis by auto
qed

end
