(* ===== verification/Machine.thy ===== *)
theory Machine
  imports Cursor Eval
begin

text \<open>
  \<open>crates/interpreter/src/lib.rs\<close>: the IR interpreter. A machine runs one function after the other
  over a stack of frames and a byte memory; it implements the trait \<open>State\<close>, so each step
  evaluates the instruction under the program counter with \<open>interp\<close> and follows the action left
  behind. The loop may run forever, so \<open>run_loop\<close> carries fuel; \<open>run_loop_agrees\<close> shows that a
  result does not depend on how much.
\<close>

section \<open>State\<close>

text \<open>The stack of frames is a list whose head is the top, the last element of the \<open>Vec\<close>.\<close>

record Frame =
  fr_func :: FuncRef
  fr_locals :: "ValueId \<Rightarrow> EvalValue"
  fr_prev_block :: "BlockId option"

record Machine =
  frames :: "Frame list"
  pc :: InstId
  m_action :: Action
  funcs :: "FuncRef \<Rightarrow> Function option"
  m_types :: TypeStore
  memory :: "8 word list"
  free_region :: nat

definition machine_new :: "(FuncRef \<Rightarrow> Function option) \<Rightarrow> TypeStore \<Rightarrow> Machine" where
  "machine_new fs types = \<lparr>frames = [], pc = 0, m_action = Continue, funcs = fs, m_types = types,
     memory = [], free_region = 0\<rparr>"

definition clear_state :: "Machine \<Rightarrow> Machine" where
  "clear_state m = m\<lparr>frames := [], memory := []\<rparr>"

definition top_frame :: "Machine \<Rightarrow> fault + Frame" where
  "top_frame m = (case frames m of [] \<Rightarrow> Inl (Panic ''unwrap on None'') | f # _ \<Rightarrow> Inr f)"

definition upd_top_frame :: "(Frame \<Rightarrow> Frame) \<Rightarrow> Machine \<Rightarrow> fault + Machine" where
  "upd_top_frame g m = (case frames m of [] \<Rightarrow> Inl (Panic ''unwrap on None'') | f # fs \<Rightarrow> Inr (m\<lparr>frames := g f # fs\<rparr>))"

definition top_func :: "Machine \<Rightarrow> fault + Function" where
  "top_func m = rbind (top_frame m) (\<lambda>f. unwrap (funcs m (fr_func f)))"

definition map_val :: "ValueId \<Rightarrow> EvalValue \<Rightarrow> Frame \<Rightarrow> Frame" where
  "map_val v e_val f = f\<lparr>fr_locals := (fr_locals f)(v := e_val)\<rparr>"

definition frame_new :: "FuncRef \<Rightarrow> Function \<Rightarrow> EvalValue list \<Rightarrow> fault + Frame" where
  "frame_new func_ref func arg_e_values =
     rbind (assert_that (length (arg_values func) = length arg_e_values) ''arg_values.len() == arg_e_values.len()'') (\<lambda>_.
       Inr (fold (\<lambda>(arg_val, arg_e_val). map_val arg_val arg_e_val) (zip (arg_values func) arg_e_values)
         \<lparr>fr_func = func_ref, fr_locals = (\<lambda>_. Undef), fr_prev_block = None\<rparr>))"

section \<open>Memory\<close>

definition resolve_ty :: "TypeStore \<Rightarrow> IrType \<Rightarrow> fault + CompoundType" where
  "resolve_ty s ty = (case ty of Compound r \<Rightarrow> resolve_compound s r | _ \<Rightarrow> Inl (Panic ''unwrap on None''))"

definition usize_imm :: "nat \<Rightarrow> EvalValue" where
  "usize_imm n = EImm (Imm_I256 (from_usize n))"

text \<open>The two loops of \<open>load\<close>: \<open>sz\<close> is the size the address advances by after each element.\<close>

fun load_fields :: "(EvalValue \<Rightarrow> IrType \<Rightarrow> fault + EvalValue) \<Rightarrow> (IrType \<Rightarrow> fault + nat) \<Rightarrow> IrType list \<Rightarrow> nat \<Rightarrow> fault + EvalValue list" where
  "load_fields ld sz [] addr = Inr []"
| "load_fields ld sz (ty # tys) addr =
     rbind (ld (usize_imm addr) ty) (\<lambda>v.
     rbind (sz ty) (\<lambda>n.
     rbind (usize_add addr n) (\<lambda>addr'.
     rbind (load_fields ld sz tys addr') (\<lambda>vs. Inr (v # vs)))))"

primrec load_rec :: "nat \<Rightarrow> TypeStore \<Rightarrow> 8 word list \<Rightarrow> EvalValue \<Rightarrow> IrType \<Rightarrow> fault + EvalValue" where
  "load_rec 0 s mem addr ty = Inl Out_of_fuel"
| "load_rec (Suc fuel) s mem addr ty =
     (case as_imm addr of None \<Rightarrow> Inr Undef
      | Some a \<Rightarrow>
        rbind (imm_as_usize a) (\<lambda>addr.
        rbind (size_of_unchecked s ty) (\<lambda>sz.
        rbind (usize_add addr sz) (\<lambda>end.
          if end > length mem then Inr Undef
          else rbind (if is_integral ty then Inr True else is_ptr s ty) (\<lambda>scalar.
            if \<not> scalar then
              rbind (resolve_ty s ty) (\<lambda>c. case c of
                  Array elem len \<Rightarrow>
                    rbind (size_of_unchecked s elem) (\<lambda>elem_size.
                    rbind (load_fields (load_rec fuel s mem) (\<lambda>_. Inr elem_size) (replicate len elem) addr) (\<lambda>flds.
                      Inr (Aggregate flds ty)))
                | Struct sd \<Rightarrow>
                    rbind (load_fields (load_rec fuel s mem) (size_of_unchecked s) (struct_fields sd) addr) (\<lambda>flds.
                      Inr (Aggregate flds ty))
                | Ptr _ \<Rightarrow> Inl (Panic ''unreachable'')
                | Func _ _ \<Rightarrow> Inl (Panic ''function type can't be placed in memory''))
            else
              let slice = take sz (drop addr mem)
              in rbind (case evm_endian of Be \<Rightarrow> from_be_bytes slice | Endian.Le \<Rightarrow> from_le_bytes slice) (\<lambda>v.
                 to_eval (from_i256 v ty)))))))"

definition m_load :: "EvalValue \<Rightarrow> IrType \<Rightarrow> (Machine, EvalValue) op" where
  "m_load addr ty m = rbind (load_rec (evm_fuel (m_types m)) (m_types m) (memory m) addr ty) (\<lambda>v. Inr (v, m))"

text \<open>
  The loops of \<open>store\<close> call \<open>self.store(field, elem_addr, ty)\<close>, which passes the field where the
  parameter list has the address and the address where it has the value. The address is an
  immediate, so a nested call stores a scalar or panics, and two levels are all there are
  (\<open>store_rec_enough\<close>).
\<close>

fun store_fields :: "(EvalValue \<Rightarrow> EvalValue \<Rightarrow> IrType \<Rightarrow> 8 word list \<Rightarrow> fault + 8 word list) \<Rightarrow> (IrType \<Rightarrow> fault + nat) \<Rightarrow>
    (EvalValue option \<times> IrType) list \<Rightarrow> nat \<Rightarrow> 8 word list \<Rightarrow> fault + 8 word list" where
  "store_fields st sz [] addr mem = Inr mem"
| "store_fields st sz ((fld, ty) # rest) addr mem =
     rbind (unwrap fld) (\<lambda>v.
     rbind (st v (usize_imm addr) ty mem) (\<lambda>mem.
     rbind (sz ty) (\<lambda>n.
     rbind (usize_add addr n) (\<lambda>addr'. store_fields st sz rest addr' mem))))"

definition resize_to :: "nat \<Rightarrow> 8 word list \<Rightarrow> 8 word list" where
  "resize_to n mem = (if n > length mem then mem @ replicate (n - length mem) 0 else mem)"

definition copy_at :: "nat \<Rightarrow> 8 word list \<Rightarrow> 8 word list \<Rightarrow> 8 word list" where
  "copy_at addr bytes mem = take addr mem @ bytes @ drop (addr + length bytes) mem"

definition scalar_bytes :: "Immediate \<Rightarrow> nat \<Rightarrow> fault + 8 word list" where
  "scalar_bytes v sz =
     rbind (to_u256 (as_i256 v)) (\<lambda>w.
       if sz > 32 then Inl (Panic ''range out of bounds'')
       else Inr (case evm_endian of
            Be \<Rightarrow> drop (32 - sz) (be_bytes 32 w)
          | Endian.Le \<Rightarrow> take sz (rev (be_bytes 32 w))))"

primrec store_rec :: "nat \<Rightarrow> TypeStore \<Rightarrow> EvalValue \<Rightarrow> EvalValue \<Rightarrow> IrType \<Rightarrow> 8 word list \<Rightarrow> fault + 8 word list" where
  "store_rec 0 s addr v ty mem = Inl Out_of_fuel"
| "store_rec (Suc fuel) s addr v ty mem =
     (if is_undef v then Inr mem
      else (case as_imm addr of None \<Rightarrow> Inl (Panic ''udnef address in store'')
      | Some a \<Rightarrow>
        rbind (imm_as_usize a) (\<lambda>addr.
        rbind (size_of_unchecked s ty) (\<lambda>sz.
        rbind (usize_add addr sz) (\<lambda>end.
          let mem = resize_to end mem in
          rbind (if is_integral ty then Inr True else is_ptr s ty) (\<lambda>scalar.
            if \<not> scalar then
              (case v of Aggregate flds vty \<Rightarrow>
                rbind (resolve_ty s vty) (\<lambda>c. case c of
                  Array elem len \<Rightarrow>
                    rbind (size_of_unchecked s elem) (\<lambda>elem_size.
                      store_fields (store_rec fuel s) (\<lambda>_. Inr elem_size) (map (\<lambda>f. (Some f, elem)) flds) addr mem)
                | Struct sd \<Rightarrow>
                    store_fields (store_rec fuel s) (size_of_unchecked s)
                      (map (\<lambda>i. (if i < length flds then Some (flds ! i) else None, struct_fields sd ! i))
                        [0..<length (struct_fields sd)]) addr mem
                | Ptr _ \<Rightarrow> Inl (Panic ''unreachable'')
                | Func _ _ \<Rightarrow> Inl (Panic ''Function can't be stored in memory''))
               | _ \<Rightarrow> Inl (Panic ''unreachable''))
            else (case as_imm v of None \<Rightarrow> Inl (Panic ''undef value in store'')
              | Some imm \<Rightarrow> rbind (scalar_bytes imm sz) (\<lambda>bytes. Inr (copy_at addr bytes mem)))))))))"

lemma store_rec_imm: "store_rec (Suc n) s addr (EImm i) ty mem = store_rec (Suc 0) s addr (EImm i) ty mem"
  by (simp only: store_rec.simps EvalValue.case)

lemma store_fields_cong:
  assumes "\<And>f i ty mem. st f (EImm i) ty mem = st' f (EImm i) ty mem"
  shows "store_fields st sz fs addr mem = store_fields st' sz fs addr mem"
proof (induction fs arbitrary: addr mem)
  case (Cons f fs)
  have st: "st v (usize_imm addr) ty mem = st' v (usize_imm addr) ty mem" for v ty by (simp add: usize_imm_def assms)
  obtain fld ty where "f = (fld, ty)" by fastforce
  then show ?case by (simp only: store_fields.simps Cons.IH st)
qed simp

lemma store_rec_enough: "store_rec (Suc (Suc n)) s addr v ty mem = store_rec 2 s addr v ty mem"
  unfolding numeral_2_eq_2
  by (simp only: store_rec.simps(2) store_fields_cong [of "store_rec (Suc n) s" "store_rec (Suc 0) s", OF store_rec_imm])

definition m_store :: "EvalValue \<Rightarrow> EvalValue \<Rightarrow> IrType \<Rightarrow> (Machine, EvalValue) op" where
  "m_store addr v ty m =
     rbind (store_rec 2 (m_types m) addr v ty (memory m)) (\<lambda>mem. Inr (Undef, m\<lparr>memory := mem\<rparr>))"

definition m_alloca :: "IrType \<Rightarrow> (Machine, EvalValue) op" where
  "m_alloca ty m =
     (let ptr = free_region m
      in rbind (size_of_unchecked (m_types m) ty) (\<lambda>sz.
         rbind (usize_add (free_region m) sz) (\<lambda>fr.
           Inr (usize_imm ptr, m\<lparr>free_region := fr\<rparr>))))"

section \<open>The State instance and the loop\<close>

definition m_lookup_val :: "ValueId \<Rightarrow> (Machine, EvalValue) op" where
  "m_lookup_val value_id m =
     rbind (top_func m) (\<lambda>func.
     rbind (get_value (f_dfg func) value_id) (\<lambda>value. case value of
         V_Immediate imm _ \<Rightarrow> Inr (EImm imm, m)
       | V_Global _ _ \<Rightarrow> Inl (Panic ''not yet implemented'')
       | _ \<Rightarrow> rbind (top_frame m) (\<lambda>f. Inr (fr_locals f value_id, m))))"

definition m_call_func :: "(Machine, EvalValue) op \<Rightarrow> FuncRef \<Rightarrow> EvalValue list \<Rightarrow> (Machine, EvalValue) op" where
  "m_call_func run_on_func func_ref args m =
     (let ret_addr = pc m
      in rbind (unwrap (funcs m func_ref)) (\<lambda>func.
         rbind (frame_new func_ref func args) (\<lambda>new_frame.
         rbind (run_on_func (m\<lparr>frames := new_frame # frames m\<rparr>)) (\<lambda>(result, m).
           Inr (result, m\<lparr>frames := tl (frames m), pc := ret_addr\<rparr>)))))"

definition m_set_action :: "Action \<Rightarrow> (Machine, unit) op" where
  "m_set_action a m = Inr ((), m\<lparr>m_action := a\<rparr>)"

definition m_prev_block :: "(Machine, BlockId) op" where
  "m_prev_block m = rbind (top_frame m) (\<lambda>f. rbind (unwrap (fr_prev_block f)) (\<lambda>b. Inr (b, m)))"

definition machine_state :: "(Machine, EvalValue) op \<Rightarrow> Machine State" where
  "machine_state run_on_func = \<lparr>lookup_val = m_lookup_val, call_func = m_call_func run_on_func,
     set_action = m_set_action, prev_block = m_prev_block, load = m_load, store = m_store, alloca = m_alloca,
     dfg_value_ty = (\<lambda>m v. rbind (top_func m) (\<lambda>f. value_ty (f_dfg f) v)),
     dfg_ty_store = m_types\<rparr>"

text \<open>\<open>InstDowncast::downcast\<close> to \<open>Interpret\<close>: the instruction is in the instruction set and a member of the trait.\<close>

fun interpret_member :: "inst \<Rightarrow> bool" where
  "interpret_member (Evm e _) = (e \<in> {EvmUdiv, EvmSdiv, EvmUmod, EvmSmod, EvmAddMod, EvmMulMod, EvmExp, EvmByte})"
| "interpret_member _ = True"

definition interpretable :: "inst \<Rightarrow> bool" where
  "interpretable i \<longleftrightarrow> in_evm_inst_set i \<and> interpret_member i"

definition enter_func :: "Machine \<Rightarrow> fault + Machine" where
  "enter_func m =
     rbind (top_func m) (\<lambda>func.
     rbind (unwrap (entry_block (f_layout func))) (\<lambda>entry_block.
     rbind (first_inst_of (f_layout func) entry_block) (\<lambda>fi.
     rbind (unwrap fi) (\<lambda>first_inst. Inr (m\<lparr>pc := first_inst\<rparr>)))))"

definition follow_action :: "Machine \<Rightarrow> fault + (EvalValue option \<times> Machine)" where
  "follow_action m = (case m_action m of
       Continue \<Rightarrow>
         rbind (top_func m) (\<lambda>func.
         rbind (next_inst_of (f_layout func) (pc m)) (\<lambda>n.
         rbind (unwrap n) (\<lambda>next. Inr (None, m\<lparr>pc := next\<rparr>))))
     | JumpTo next_block \<Rightarrow>
         rbind (top_func m) (\<lambda>func.
         rbind (inst_block (f_layout func) (pc m)) (\<lambda>current_block.
         rbind (upd_top_frame (\<lambda>f. f\<lparr>fr_prev_block := Some current_block\<rparr>) m) (\<lambda>m.
         rbind (first_inst_of (f_layout func) next_block) (\<lambda>fi.
         rbind (unwrap fi) (\<lambda>first_inst. Inr (None, m\<lparr>pc := first_inst\<rparr>))))))
     | FallThrough \<Rightarrow> Inl (Panic ''fall through detected!'')
     | ReturnVal e_val \<Rightarrow> Inr (Some e_val, m))"

definition machine_step :: "(Machine, EvalValue) op \<Rightarrow> Machine \<Rightarrow> fault + (EvalValue option \<times> Machine)" where
  "machine_step run_on_func m =
     rbind (top_func m) (\<lambda>func.
     rbind (get_inst (f_dfg func) (pc m)) (\<lambda>inst.
     rbind (assert_that (interpretable inst) ''`Intepret is not yet implemented'') (\<lambda>_.
     rbind (interp (machine_state run_on_func) inst m) (\<lambda>(e_val, m).
     rbind (top_func m) (\<lambda>func.
     rbind (case inst_result (f_dfg func) (pc m) of
              Some r \<Rightarrow> upd_top_frame (map_val r e_val) m
            | None \<Rightarrow> Inr m) follow_action)))))"

primrec run_loop :: "nat \<Rightarrow> (Machine, EvalValue) op" where
  "run_loop 0 m = Inl Out_of_fuel"
| "run_loop (Suc n) m =
     rbind (machine_step (\<lambda>m. rbind (enter_func m) (run_loop n)) m) (\<lambda>(r, m). case r of
         Some e_val \<Rightarrow> Inr (e_val, m)
       | None \<Rightarrow> run_loop n m)"

definition run_on_func :: "nat \<Rightarrow> (Machine, EvalValue) op" where
  "run_on_func n m = rbind (enter_func m) (run_loop n)"

definition machine_run :: "nat \<Rightarrow> FuncRef \<Rightarrow> EvalValue list \<Rightarrow> (Machine, EvalValue) op" where
  "machine_run n func_ref args m =
     rbind (unwrap (funcs m func_ref)) (\<lambda>func.
     rbind (frame_new func_ref func args) (\<lambda>frame.
       run_on_func n (m\<lparr>frames := frame # frames m, m_action := Continue\<rparr>)))"

lemma run_on_func_eq: "(\<lambda>m. rbind (enter_func m) (run_loop n)) = run_on_func n"
  by (simp add: run_on_func_def fun_eq_iff)

section \<open>More fuel gives the same result\<close>

definition agrees :: "fault + 'a \<Rightarrow> fault + 'a \<Rightarrow> bool" where
  "agrees r r' \<longleftrightarrow> r = Inl Out_of_fuel \<or> r' = r"

lemma agrees_refl [intro, simp]: "agrees r r"
  by (simp add: agrees_def)

lemma agrees_rbind:
  assumes "agrees r r'" "\<And>x. r = Inr x \<Longrightarrow> agrees (f x) (f' x)"
  shows "agrees (rbind r f) (rbind r' f')"
  using assms by (cases r) (auto simp: agrees_def)

lemma machine_state_sel [simp]:
  "lookup_val (machine_state run) = m_lookup_val" "call_func (machine_state run) = m_call_func run"
  "set_action (machine_state run) = m_set_action" "prev_block (machine_state run) = m_prev_block"
  "load (machine_state run) = m_load" "store (machine_state run) = m_store" "alloca (machine_state run) = m_alloca"
  "dfg_ty_store (machine_state run) = m_types"
  "dfg_value_ty (machine_state run) = (\<lambda>m v. rbind (top_func m) (\<lambda>f. value_ty (f_dfg f) v))"
  by (simp_all add: machine_state_def)

lemma gep_loop_machine: "gep_loop (machine_state run) vs ty off = gep_loop (machine_state run') vs ty off"
  by (induction vs arbitrary: ty off) (simp_all cong: option.case_cong)

lemma br_table_scan_machine: "br_table_scan (machine_state run) imm tbl = br_table_scan (machine_state run') imm tbl"
  by (induction tbl) (auto cong: option.case_cong if_cong)

lemma interpret_evm_machine: "interpret_evm (machine_state run) e vs = interpret_evm (machine_state run') e vs"
  by (simp add: interpret_evm_def interpret_evm2_def interpret_evm3_def binop_first_def triop_first_def pairop_first_def
      split: list.split)

lemma interp_no_call:
  assumes "\<forall>f args. i \<noteq> Call f args"
  shows "interp (machine_state run) i = interp (machine_state run') i"
  using assms
  by (cases i)
    (simp_all add: unop_first_def unop_last_def binop_first_def binop_last_def undef_first_def interpret_gep_def
      interpret_insert_value_def interpret_extract_value_def interpret_br_def interpret_br_table_def interpret_phi_def
      interpret_return_def interpret_evm_machine [of run _ _ run'] gep_loop_machine [of run _ _ _ run'] br_table_scan_machine [of run _ _ run']
      cong: option.case_cong EvalValue.case_cong if_cong)

lemma interp_agrees:
  assumes "\<And>m. agrees (run m) (run' m)"
  shows "agrees (interp (machine_state run) i m) (interp (machine_state run') i m)"
proof (cases "\<exists>f args. i = Call f args")
  case False
  then show ?thesis using interp_no_call [of i run run'] by simp
next
  case True
  then obtain f args where i: "i = Call f args" by blast
  show ?thesis
    unfolding i interp.simps interpret_call_def machine_state_sel sbind_apply m_call_func_def Let_def
    by (auto intro!: agrees_rbind assms split: prod.split)
qed

lemma machine_step_agrees:
  assumes "\<And>m. agrees (run m) (run' m)"
  shows "agrees (machine_step run m) (machine_step run' m)"
  unfolding machine_step_def by (auto intro!: agrees_rbind interp_agrees assms split: prod.split)

lemma run_loop_agrees: "n \<le> k \<Longrightarrow> agrees (run_loop n m) (run_loop k m)"
proof (induction n arbitrary: k m)
  case 0
  show ?case by (simp add: agrees_def)
next
  case (Suc n)
  from Suc.prems obtain k' where k: "k = Suc k'" "n \<le> k'" by (cases k) auto
  have run: "agrees (rbind (enter_func m) (run_loop n)) (rbind (enter_func m) (run_loop k'))" for m
    by (rule agrees_rbind) (auto intro: Suc.IH k(2))
  show ?case
    unfolding k run_loop.simps
    using Suc.IH [OF k(2)] by (intro agrees_rbind [OF machine_step_agrees]) (auto intro: run split: option.split)
qed

section \<open>Frames\<close>

text \<open>What one evaluation keeps of the machine, and what running to the end of a function keeps.\<close>

definition grows :: "Machine \<Rightarrow> Machine \<Rightarrow> bool" where
  "grows m m' \<longleftrightarrow> funcs m' = funcs m \<and> m_types m' = m_types m
     \<and> length (memory m) \<le> length (memory m') \<and> free_region m \<le> free_region m'"

definition evaluated :: "Machine \<Rightarrow> Machine \<Rightarrow> bool" where
  "evaluated m m' \<longleftrightarrow> grows m m' \<and> frames m' = frames m \<and> pc m' = pc m"

definition same_func :: "Frame list \<Rightarrow> Frame list \<Rightarrow> bool" where
  "same_func fs fs' \<longleftrightarrow> tl fs' = tl fs \<and> map fr_func fs' = map fr_func fs"

definition advanced :: "Machine \<Rightarrow> Machine \<Rightarrow> bool" where
  "advanced m m' \<longleftrightarrow> grows m m' \<and> same_func (frames m) (frames m')"

lemma grows_refl [simp]: "grows m m"
  by (simp add: grows_def)

lemma grows_trans: "grows a b \<Longrightarrow> grows b c \<Longrightarrow> grows a c"
  by (auto simp: grows_def)

lemma advanced_refl [simp]: "advanced m m"
  by (simp add: advanced_def same_func_def)

lemma advanced_trans: "advanced a b \<Longrightarrow> advanced b c \<Longrightarrow> advanced a c"
  by (auto simp: advanced_def same_func_def intro: grows_trans)

lemma evaluated_advanced: "evaluated m m' \<Longrightarrow> advanced m m'"
  by (simp add: evaluated_def advanced_def same_func_def)

lemma resize_to_length: "length mem \<le> length (resize_to n mem)" "n \<le> length (resize_to n mem)"
  by (simp_all add: resize_to_def)

lemma store_fields_length:
  assumes "\<And>v a ty mem mem'. st v a ty mem = Inr mem' \<Longrightarrow> length mem \<le> length mem'"
  shows "store_fields st sz fs addr mem = Inr mem' \<Longrightarrow> length mem \<le> length mem'"
proof (induction fs arbitrary: addr mem)
  case (Cons f fs)
  obtain fld ty where f: "f = (fld, ty)" by (cases f)
  from Cons.prems obtain v mem1 n where s: "st v (usize_imm addr) ty mem = Inr mem1"
    and r: "store_fields st sz fs (addr + n) mem1 = Inr mem'"
    unfolding f by auto
  from assms [OF s] Cons.IH [OF r] show ?case by linarith
qed simp

lemma scalar_bytes_length: "scalar_bytes v sz = Inr bytes \<Longrightarrow> length bytes = sz"
  by (auto simp: scalar_bytes_def split: if_splits Endian.splits)

lemma copy_at_length: "addr + length bytes \<le> length mem \<Longrightarrow> length (copy_at addr bytes mem) = length mem"
  by (simp add: copy_at_def)

lemma store_rec_length: "store_rec n s addr v ty mem = Inr mem' \<Longrightarrow> length mem \<le> length mem'"
proof (induction n arbitrary: addr v ty mem mem')
  case (Suc n)
  show ?case
  proof (cases "is_undef v")
    case True
    with Suc.prems show ?thesis by simp
  next
    case False
    with Suc.prems obtain a ad sz where
      s0: "as_imm addr = Some a" "imm_as_usize a = Inr ad" "size_of_unchecked s ty = Inr sz" "ad + sz < usize_limit"
      by (auto split: option.splits)
    with False Suc.prems obtain scalar where sc: "(if is_integral ty then Inr True else is_ptr s ty) = Inr scalar"
      by (simp add: Let_def del: split_paired_Ex) blast
    note s = s0 sc
    note fl = store_fields_length [of "store_rec n s", OF Suc.IH]
    have "length (resize_to (ad + sz) mem) \<le> length mem'"
    proof (cases scalar)
      case True
      with False s Suc.prems obtain imm bytes where
        b: "scalar_bytes imm sz = Inr bytes" "mem' = copy_at ad bytes (resize_to (ad + sz) mem)"
        by (auto simp: Let_def split: option.splits)
      with resize_to_length(2) [of "ad + sz" mem] show ?thesis
        by (simp add: copy_at_length scalar_bytes_length)
    next
      case scalar: False
      with False s Suc.prems obtain flds vty c where "v = Aggregate flds vty" "resolve_ty s vty = Inr c"
        by (auto simp: Let_def split: EvalValue.splits)
      with scalar False s Suc.prems show ?thesis
        by (auto simp: Let_def split: CompoundType.splits intro: fl)
    qed
    with resize_to_length(1) [of mem "ad + sz"] show ?thesis by linarith
  qed
qed simp

lemma m_lookup_keeps:
  assumes "m_lookup_val v m = Inr (x, m')"
  shows "m' = m"
proof -
  from assms obtain func :: Function and val where "get_value (f_dfg func) v = Inr val"
    and "(case val of V_Immediate imm _ \<Rightarrow> Inr (EImm imm, m) | V_Global _ _ \<Rightarrow> Inl (Panic ''not yet implemented'')
       | _ \<Rightarrow> rbind (top_frame m) (\<lambda>f. Inr (fr_locals f v, m))) = Inr (x, m')"
    unfolding m_lookup_val_def rbind_eq_Inr by blast
  then show ?thesis by (cases val) auto
qed

lemma machine_kept:
  assumes run: "\<And>m v m'. run m = Inr (v, m') \<Longrightarrow> advanced m m'"
  shows "kept_state (machine_state run) evaluated"
proof unfold_locales
  show "evaluated s s" for s by (simp add: evaluated_def)
  show "evaluated s u" if "evaluated s t" "evaluated t u" for s t u
    using that by (auto simp: evaluated_def intro: grows_trans)
  show "evaluated s s'" if "lookup_val (machine_state run) v s = Inr (x, s')" for v s x s'
    using that m_lookup_keeps by (fastforce simp: evaluated_def)
  show "evaluated s s'" if call: "call_func (machine_state run) f args s = Inr (x, s')" for f args s x s'
  proof -
    from call obtain nf m1 where r: "run (s\<lparr>frames := nf # frames s\<rparr>) = Inr (x, m1)"
      and s': "s' = m1\<lparr>frames := tl (frames m1), pc := pc s\<rparr>"
      by (auto simp: m_call_func_def Let_def)
    from run [OF r] show ?thesis
      unfolding s' by (simp add: advanced_def evaluated_def grows_def same_func_def)
  qed
  show "evaluated s s'" if "set_action (machine_state run) a s = Inr (y, s')" for a s y s'
    using that by (auto simp: m_set_action_def evaluated_def grows_def)
  show "evaluated s s'" if "prev_block (machine_state run) s = Inr (b, s')" for s b s'
    using that by (auto simp: m_prev_block_def evaluated_def)
  show "evaluated s s'" if "load (machine_state run) addr ty s = Inr (x, s')" for addr ty s x s'
    using that by (auto simp: m_load_def evaluated_def)
  show "evaluated s s'" if "store (machine_state run) addr w ty s = Inr (x, s')" for addr w ty s x s'
    using that by (auto simp: m_store_def evaluated_def grows_def dest: store_rec_length)
  show "evaluated s s'" if "alloca (machine_state run) ty s = Inr (x, s')" for ty s x s'
    using that by (auto simp: m_alloca_def Let_def evaluated_def grows_def)
qed

lemma upd_top_frame_advanced:
  assumes "upd_top_frame g m = Inr m'" "\<And>f. fr_func (g f) = fr_func f"
  shows "advanced m m'"
  using assms by (auto simp: upd_top_frame_def advanced_def grows_def same_func_def split: list.splits)

lemma advanced_pc [simp]: "advanced m (m'\<lparr>pc := p\<rparr>) \<longleftrightarrow> advanced m m'"
  by (simp add: advanced_def grows_def)

lemma follow_action_advanced:
  assumes "follow_action m = Inr (r, m')"
  shows "advanced m m'"
proof (cases "m_action m")
  case (JumpTo b)
  with assms obtain c m1 p where "upd_top_frame (\<lambda>f. f\<lparr>fr_prev_block := Some c\<rparr>) m = Inr m1" "m' = m1\<lparr>pc := p\<rparr>"
    by (auto simp: follow_action_def)
  with upd_top_frame_advanced [OF this(1)] show ?thesis by simp
qed (use assms in \<open>auto simp: follow_action_def\<close>)

lemma machine_step_advanced:
  assumes run: "\<And>m v m'. run m = Inr (v, m') \<Longrightarrow> advanced m m'" and step: "machine_step run m = Inr (r, m')"
  shows "advanced m m'"
proof -
  from step obtain i e_val m1 m2 and func :: Function where
    i: "interp (machine_state run) i m = Inr (e_val, m1)"
    and m2: "(case inst_result (f_dfg func) (pc m1) of Some r \<Rightarrow> upd_top_frame (map_val r e_val) m1 | None \<Rightarrow> Inr m1) = Inr m2"
    and f: "follow_action m2 = Inr (r, m')"
    by (clarsimp simp: machine_step_def)
  have "kept_state.keeps evaluated (interp (machine_state run) i)"
    by (rule kept_state.interp_keeps [OF machine_kept [OF run]])
  with i have "advanced m m1"
    by (auto simp: kept_state.keeps_def [OF machine_kept [OF run]] dest: evaluated_advanced)
  moreover have "advanced m1 m2"
  proof (cases "inst_result (f_dfg func) (pc m1)")
    case None
    with m2 show ?thesis by simp
  next
    case (Some res)
    with m2 have "upd_top_frame (map_val res e_val) m1 = Inr m2" by simp
    then show ?thesis by (rule upd_top_frame_advanced) (simp add: map_val_def)
  qed
  ultimately show ?thesis using follow_action_advanced [OF f] advanced_trans by blast
qed

lemma enter_func_advanced: "enter_func m = Inr m' \<Longrightarrow> advanced m m'"
  by (auto simp: enter_func_def)

lemma follow_action_return: "follow_action m = Inr (Some e, m') \<Longrightarrow> m' = m \<and> m_action m = ReturnVal e"
  by (cases "m_action m") (auto simp: follow_action_def)

lemma run_loop_advanced: "run_loop n m = Inr (v, m') \<Longrightarrow> advanced m m' \<and> m_action m' = ReturnVal v"
proof (induction n arbitrary: m v m')
  case (Suc n)
  have run: "advanced m m'" if "rbind (enter_func m) (run_loop n) = Inr (v, m')" for m v m'
  proof -
    from that obtain m1 where "enter_func m = Inr m1" "run_loop n m1 = Inr (v, m')" by auto
    with Suc.IH enter_func_advanced advanced_trans show ?thesis by blast
  qed
  from Suc.prems obtain r m1 where s: "machine_step (\<lambda>m. rbind (enter_func m) (run_loop n)) m = Inr (r, m1)"
    and rest: "(case r of Some e_val \<Rightarrow> Inr (e_val, m1) | None \<Rightarrow> run_loop n m1) = Inr (v, m')"
    by auto
  have a: "advanced m m1" by (rule machine_step_advanced [OF _ s]) (rule run)
  show ?case
  proof (cases r)
    case None
    with rest have "run_loop n m1 = Inr (v, m')" by simp
    from Suc.IH [OF this] a show ?thesis by (auto intro: advanced_trans)
  next
    case (Some e)
    with s have "m_action m1 = ReturnVal e"
      by (auto simp: machine_step_def dest!: follow_action_return)
    with Some rest a show ?thesis by simp
  qed
qed simp

lemma run_on_func_advanced: "run_on_func n m = Inr (v, m') \<Longrightarrow> advanced m m'"
  unfolding run_on_func_def by (auto dest: enter_func_advanced run_loop_advanced intro: advanced_trans)

interpretation run_kept: kept_state "machine_state (run_on_func n)" evaluated
  by (rule machine_kept) (rule run_on_func_advanced)

section \<open>The machine as an environment\<close>

definition m_env :: "Machine \<Rightarrow> ValueId \<Rightarrow> EvalValue" where
  "m_env m v = (case m_lookup_val v m of Inr (x, _) \<Rightarrow> x | Inl _ \<Rightarrow> Undef)"

definition m_dfn :: "Machine \<Rightarrow> ValueId set" where
  "m_dfn m = {v. \<exists>x. m_lookup_val v m = Inr (x, m)}"

lemma m_lookup_dfn: "v \<in> m_dfn m \<Longrightarrow> m_lookup_val v m = Inr (m_env m v, m)"
  by (auto simp: m_dfn_def m_env_def)

lemma m_lookup_action:
  "m_lookup_val v (m\<lparr>m_action := a\<rparr>) = rbind (m_lookup_val v m) (\<lambda>(x, m'). Inr (x, m'\<lparr>m_action := a\<rparr>))"
proof -
  have "top_frame (m\<lparr>m_action := a\<rparr>) = top_frame m" by (simp add: top_frame_def)
  moreover have "top_func (m\<lparr>m_action := a\<rparr>) = top_func m" by (simp add: top_func_def top_frame_def)
  ultimately show ?thesis
    unfolding m_lookup_val_def
    by (cases "top_func m"; cases "top_frame m")
      (auto split: Value.split simp: get_value_def index_list_def)
qed

lemma m_env_action [simp]: "m_env (m\<lparr>m_action := a\<rparr>) = m_env m" "m_dfn (m\<lparr>m_action := a\<rparr>) = m_dfn m"
proof -
  show "m_env (m\<lparr>m_action := a\<rparr>) = m_env m"
  proof
    fix v show "m_env (m\<lparr>m_action := a\<rparr>) v = m_env m v"
      by (cases "m_lookup_val v m") (auto simp: m_env_def m_lookup_action)
  qed
  show "m_dfn (m\<lparr>m_action := a\<rparr>) = m_dfn m"
  proof (rule set_eqI)
    fix v show "v \<in> m_dfn (m\<lparr>m_action := a\<rparr>) \<longleftrightarrow> v \<in> m_dfn m"
      using m_lookup_keeps [of v m] by (cases "m_lookup_val v m") (auto simp: m_dfn_def m_lookup_action)
  qed
qed

interpretation mach: jump_state "machine_state run" m_env m_dfn "\<lambda>m. m\<lparr>m_action := Continue\<rparr>" m_action
  by unfold_locales (auto simp: m_lookup_dfn m_set_action_def)

text \<open>A pure instruction changes nothing but the action.\<close>

lemma m_pure_ops:
  assumes "a \<in> m_dfn m"
  shows "unop_first (machine_state run) a f m = rbind (with_imm (m_env m a) f) (\<lambda>x. Inr (x, m\<lparr>m_action := Continue\<rparr>))"
    "unop_last (machine_state run) a f m = rbind (with_imm (m_env m a) f) (\<lambda>x. Inr (x, m\<lparr>m_action := Continue\<rparr>))"
  using assms by (simp_all add: unop_first_def unop_last_def sbind_apply m_set_action_def m_lookup_dfn slift_def)

lemma m_pure_ops2:
  assumes "a \<in> m_dfn m" "b \<in> m_dfn m"
  shows "binop_first (machine_state run) a b g m = rbind (zip_with_imm (m_env m a) (m_env m b) g) (\<lambda>x. Inr (x, m\<lparr>m_action := Continue\<rparr>))"
    "binop_last (machine_state run) a b g m = rbind (zip_with_imm (m_env m a) (m_env m b) g) (\<lambda>x. Inr (x, m\<lparr>m_action := Continue\<rparr>))"
    "pairop_first (machine_state run) a b h m = rbind (h (m_env m a) (m_env m b)) (\<lambda>x. Inr (x, m\<lparr>m_action := Continue\<rparr>))"
  using assms by (simp_all add: binop_first_def binop_last_def pairop_first_def sbind_apply m_set_action_def m_lookup_dfn slift_def)

lemma m_pure_ops3:
  assumes "a \<in> m_dfn m" "b \<in> m_dfn m" "c \<in> m_dfn m"
  shows "triop_first (machine_state run) a b c h m = rbind (h (m_env m a) (m_env m b) (m_env m c)) (\<lambda>x. Inr (x, m\<lparr>m_action := Continue\<rparr>))"
  using assms by (simp add: triop_first_def sbind_apply m_set_action_def m_lookup_dfn slift_def)

lemma m_pure_evm:
  assumes "set vs \<subseteq> m_dfn m"
  shows "interpret_evm (machine_state run) e vs m = rbind (pure_eval (m_env m) (Evm e vs)) (\<lambda>x. Inr (x, m\<lparr>m_action := Continue\<rparr>))"
  using assms unfolding pure_eval_Evm interpret_evm_def interpret_evm2_def interpret_evm3_def
  by (auto simp: m_pure_ops2 m_pure_ops3 split: list.split)

lemma pure_sel: "set_action (pure_state e) a = sret ()" "lookup_val (pure_state e) v = sret (e v)"
  by (simp_all add: pure_state_def)

lemma machine_pure:
  assumes "is_pure i" "set (values_of i) \<subseteq> m_dfn m"
  shows "interp (machine_state run) i m = rbind (pure_eval (m_env m) i) (\<lambda>x. Inr (x, m\<lparr>m_action := Continue\<rparr>))"
proof (cases "\<exists>e vs. i = Evm e vs")
  case True
  with assms m_pure_evm show ?thesis by auto
next
  case False
  with assms show ?thesis
    by (cases i)
      (simp_all add: pure_eval_def pure_ops pure_others m_pure_ops m_pure_ops2 undef_first_def sbind_apply m_set_action_def m_lookup_dfn
        pure_sel)
qed

section \<open>Memory\<close>

lemma size_of_integral: "is_integral ty \<Longrightarrow> size_of_unchecked s ty = Inr 32"
  by (auto simp: size_of_unchecked_def evm_fuel_def evm_size_of_scalar is_integral_def)

lemma scalar_bytes_eq: "imm_ok v \<Longrightarrow> scalar_bytes v 32 = Inr (be_bytes 32 (imm_word v))"
  by (simp add: scalar_bytes_def as_i256_eq evm_endian_def)

lemma m_store_scalar:
  assumes "is_integral ty" "imm_ok v" "imm_as_usize a = Inr addr" "addr + 32 < usize_limit"
  shows "m_store (EImm a) (EImm v) ty m = Inr (Undef, m\<lparr>memory := copy_at addr (be_bytes 32 (imm_word v)) (resize_to (addr + 32) (memory m))\<rparr>)"
  using assms
  by (simp add: m_store_def numeral_2_eq_2 is_undef_def size_of_integral scalar_bytes_eq Let_def usize_add_def)

lemma m_load_scalar:
  assumes "is_integral ty" "imm_as_usize a = Inr addr" "addr + 32 < usize_limit" "addr + 32 \<le> length (memory m)"
    and "take 32 (drop addr (memory m)) = be_bytes 32 w"
  shows "m_load (EImm a) ty m = Inr (EImm (imm_of_word ty w), m)"
  using assms
  by (simp add: m_load_def evm_fuel_def size_of_integral usize_add_def Let_def evm_endian_def from_be_bytes_def
      assert_that_def be_word_be_bytes take_bit_word_eq_self to_eval_def from_i256_eq)

lemma take_drop_copy_at: "addr + length bs \<le> length mem \<Longrightarrow> take (length bs) (drop addr (copy_at addr bs mem)) = bs"
  by (simp add: copy_at_def)

lemma nth_copy_at:
  "addr + length bs \<le> length mem \<Longrightarrow> k < addr \<or> addr + length bs \<le> k \<Longrightarrow> k < length mem \<Longrightarrow> copy_at addr bs mem ! k = mem ! k"
  by (auto simp: copy_at_def nth_append min_def)

lemma nth_resize_to: "k < length mem \<Longrightarrow> resize_to n mem ! k = mem ! k"
  by (simp add: resize_to_def nth_append)

lemma length_resize_to: "length (resize_to n mem) = max n (length mem)"
  by (simp add: resize_to_def)

lemma imm_as_usize_usize: "n < usize_limit \<Longrightarrow> imm_as_usize (Imm_I256 (from_usize n)) = Inr n"
proof -
  assume n: "n < usize_limit"
  then have "n mod 2 ^ 256 = n" by (simp add: usize_limit_def)
  then have u: "unat (of_nat n :: U256) = n" by (simp add: unat_of_nat)
  then have "uint (of_nat n :: U256) = int n" by (metis uint_nat)
  with n have "uint (of_nat n :: U256) < 2 ^ 255" by (simp add: usize_limit_def)
  then have "from_usize n = I256 False (of_nat n)" by (simp add: from_usize_def from_u256_eq)
  with n u show ?thesis by (simp add: imm_as_usize_def imm_is_negative_def i256_is_negative_def u256_as_usize_def)
qed

section \<open>Properties\<close>

text \<open>A run that returns or panics within some fuel gives the same outcome, value and machine, with any
  larger amount: fuel only bounds how long the model watches the loop.\<close>
theorem run_fuel_irrelevant:
  assumes "machine_run n f args m \<noteq> Inl Out_of_fuel"
  shows "machine_run (n + k) f args m = machine_run n f args m"
proof -
  have "agrees (machine_run n f args m) (machine_run (n + k) f args m)"
    unfolding machine_run_def run_on_func_def by (auto intro!: agrees_rbind run_loop_agrees)
  with assms show ?thesis by (simp add: agrees_def)
qed

text \<open>C2: a call returns to its caller: the stack of frames and the program counter are what they were,
  however the callee ran; memory and the allocated region only grow, and functions and types
  stay. The value is the one the callee's return put in the action.\<close>
theorem call_returns_to_caller:
  assumes "m_call_func (run_on_func n) f args m = Inr (v, m')"
  shows "frames m' = frames m \<and> pc m' = pc m \<and> m_action m' = ReturnVal v \<and> funcs m' = funcs m \<and> m_types m' = m_types m
    \<and> length (memory m) \<le> length (memory m') \<and> free_region m \<le> free_region m'"
proof -
  from assms obtain nf m0 m1 where e: "enter_func (m\<lparr>frames := nf # frames m\<rparr>) = Inr m0"
    and r: "run_loop n m0 = Inr (v, m1)" and m': "m' = m1\<lparr>frames := tl (frames m1), pc := pc m\<rparr>"
    by (auto simp: m_call_func_def Let_def run_on_func_def)
  from run_loop_advanced [OF r] enter_func_advanced [OF e] show ?thesis
    unfolding m' by (auto simp: advanced_def grows_def same_func_def)
qed

text \<open>C1: at an instruction without side effects whose operands are defined, one step of the machine stores
  the value the instruction has in the machine's environment in its result, moves to the next
  instruction, and changes nothing else.\<close>
theorem machine_step_pure:
  assumes "frames m = fr # fs" and "funcs m (fr_func fr) = Some func" and "get_inst (f_dfg func) (pc m) = Inr i"
    and "interpretable i" and "is_pure i" and "set (values_of i) \<subseteq> m_dfn m" and "pure_eval (m_env m) i = Inr e_val"
    and "next_inst_of (f_layout func) (pc m) = Inr (Some nx)"
  shows "machine_step run m = Inr (None, m\<lparr>m_action := Continue, pc := nx,
      frames := (case inst_result (f_dfg func) (pc m) of Some r \<Rightarrow> map_val r e_val fr | None \<Rightarrow> fr) # fs\<rparr>)"
proof -
  have tf: "top_func (m'\<lparr>m_action := a\<rparr>) = Inr func" if "frames m' = fr' # fs" "fr_func fr' = fr_func fr" "funcs m' = funcs m" for m' a fr'
    using that assms(2) by (simp add: top_func_def top_frame_def)
  have "top_func m = Inr func" using assms(1,2) by (simp add: top_func_def top_frame_def)
  then show ?thesis
    using assms tf [OF assms(1)] machine_pure [OF assms(5,6), of run]
    by (auto simp: machine_step_def assert_that_def upd_top_frame_def follow_action_def top_func_def top_frame_def map_val_def
        split: option.split)
qed

text \<open>C3: at a branch whose condition is defined, one step jumps to the first instruction of the target the
  branch selects in the machine's environment and records the block it came from; and a branch
  edited by \<open>rewrite_dest\<close> or by removing another destination selects the corresponding target.\<close>
theorem machine_step_branch:
  assumes "frames m = fr # fs" and "funcs m (fr_func fr) = Some func" and "get_inst (f_dfg func) (pc m) = Inr i"
    and "is_branch_inst i" and "set (values_of i) \<subseteq> m_dfn m" and "branch_target (m_env m) i = JumpTo t"
    and "inst_result (f_dfg func) (pc m) = None" and "inst_block (f_layout func) (pc m) = Inr b"
    and "first_inst_of (f_layout func) t = Inr (Some p)"
  shows "machine_step run m = Inr (None, m\<lparr>m_action := JumpTo t, pc := p, frames := fr\<lparr>fr_prev_block := Some b\<rparr> # fs\<rparr>)
    \<and> branch_target (m_env m) (rewrite_dest i from to) = JumpTo (rewrite_if_match from to t)
    \<and> (d \<noteq> t \<longrightarrow> branch_target (m_env m) (remove_dest i d) = JumpTo t)"
proof -
  from mach.branch_goes [OF assms(4,5), of run] assms(6) obtain m1 where
    m1: "interp (machine_state run) i m = Inr (Undef, m1)" "mach.obs m1 = mach.obs m" "m_action m1 = JumpTo t"
    by (auto simp: mach.goes_def)
  then have "m1\<lparr>m_action := Continue\<rparr> = m\<lparr>m_action := Continue\<rparr>" by (simp add: mach.obs_def)
  then have "(m1\<lparr>m_action := Continue\<rparr>)\<lparr>m_action := JumpTo t\<rparr> = (m\<lparr>m_action := Continue\<rparr>)\<lparr>m_action := JumpTo t\<rparr>" by simp
  with m1(3) have e: "m1 = m\<lparr>m_action := JumpTo t\<rparr>" by (cases m1) simp
  have "interpretable i" using assms(4) by (cases i) (auto simp: interpretable_def)
  moreover have "top_func m = Inr func" using assms(1,2) by (simp add: top_func_def top_frame_def)
  ultimately have "machine_step run m = Inr (None, m\<lparr>m_action := JumpTo t, pc := p, frames := fr\<lparr>fr_prev_block := Some b\<rparr> # fs\<rparr>)"
    using assms m1(1) unfolding e
    by (simp add: machine_step_def assert_that_def upd_top_frame_def follow_action_def top_func_def top_frame_def)
  with branch_target_rewrite_dest [OF assms(6)] branch_target_remove_dest [OF assms(6)] show ?thesis by auto
qed

text \<open>C4: a scalar written to memory reads back unchanged, at any address that leaves room below the limit of
  \<open>usize\<close>; the memory grows to hold it and no other byte changes.\<close>
theorem store_load_roundtrip:
  assumes "imm_ok v" and "imm_as_usize a = Inr addr" and "addr + 32 < usize_limit"
  shows "\<exists>m'. m_store (EImm a) (EImm v) (imm_ty v) m = Inr (Undef, m') \<and> m_load (EImm a) (imm_ty v) m' = Inr (EImm v, m')
     \<and> length (memory m') = max (addr + 32) (length (memory m))
     \<and> (\<forall>k < length (memory m). k < addr \<or> addr + 32 \<le> k \<longrightarrow> memory m' ! k = memory m ! k)"
proof -
  let ?bs = "be_bytes 32 (imm_word v)" and ?mem = "resize_to (addr + 32) (memory m)"
  let ?m' = "m\<lparr>memory := copy_at addr ?bs ?mem\<rparr>"
  have l: "addr + length ?bs \<le> length ?mem" by (simp add: length_resize_to)
  have "m_load (EImm a) (imm_ty v) ?m' = Inr (EImm (imm_of_word (imm_ty v) (imm_word v)), ?m')"
    using assms l take_drop_copy_at [OF l] by (intro m_load_scalar) (simp_all add: copy_at_length)
  moreover have "m_store (EImm a) (EImm v) (imm_ty v) m = Inr (Undef, ?m')"
    using assms by (intro m_store_scalar) simp_all
  moreover have "memory ?m' ! k = memory m ! k" if "k < length (memory m)" "k < addr \<or> addr + 32 \<le> k" for k
    using nth_copy_at [OF l, of k] that by (simp add: nth_resize_to length_resize_to)
  ultimately show ?thesis
    using l assms(1) by (intro exI [of _ ?m']) (simp add: imm_word_of_word copy_at_length length_resize_to)
qed

section \<open>A sample program\<close>

text \<open>The function doubles its argument and returns it from its second block.\<close>

definition sample_machine :: Machine where
  "sample_machine = machine_new [7 \<mapsto> sample_func] empty_store"

lemma sample_add: "imm_add (Imm_I8 100) (Imm_I8 100) = Inr (Imm_I8 200)"
  by (simp add: imm_ops_word imm_ok_def imm_word_def)

lemma sample_layout:
  "inst_block (f_layout sample_func) 1 = Inr 0" "next_inst_of (f_layout sample_func) 0 = Inr (Some 1)"
  "first_inst_of (f_layout sample_func) 0 = Inr (Some 0)" "first_inst_of (f_layout sample_func) 1 = Inr (Some 2)"
  "entry_block (f_layout sample_func) = Some 0"
  by (simp_all add: sample_func_def inst_block_def next_inst_of_def first_inst_of_def is_inst_inserted_def is_block_inserted_def
      inst_node_default_def block_node_default_def assert_that_def)

lemma sample_dfg:
  "arg_values sample_func = [0]" "get_inst (f_dfg sample_func) 0 = Inr (Add 0 0)" "get_inst (f_dfg sample_func) 1 = Inr (Jump 1)"
  "get_inst (f_dfg sample_func) 2 = Inr (Return (Some 1))" "get_value (f_dfg sample_func) 0 = Inr (V_Arg Ty_I8 0)"
  "get_value (f_dfg sample_func) 1 = Inr (V_Inst 0 Ty_I8)" "inst_result (f_dfg sample_func) 0 = Some 1"
  "inst_result (f_dfg sample_func) 1 = None" "inst_result (f_dfg sample_func) 2 = None"
  by (simp_all add: sample_func_def get_inst_def get_value_def index_list_def inst_result_def)

lemma sample_run:
  "\<exists>m'. machine_run 3 7 [EImm (Imm_I8 100)] sample_machine = Inr (EImm (Imm_I8 200), m')"
  by (simp add: machine_run_def run_on_func_def enter_func_def sample_machine_def machine_new_def frame_new_def sample_dfg sample_layout
      top_func_def top_frame_def numeral_3_eq_3 machine_step_def interpretable_def binop_first_def m_set_action_def
      m_lookup_val_def map_val_def sample_add to_eval_def upd_top_frame_def follow_action_def sbind_apply slift_def
      interpret_return_def assert_that_def del: rbind_eq_Inr sbind_eq_Inr One_nat_def)

theorem run_fuel_irrelevant_witness:
  "\<exists>m'. machine_run 1000 7 [EImm (Imm_I8 100)] sample_machine = Inr (EImm (Imm_I8 200), m')"
proof -
  from sample_run obtain m' where r: "machine_run 3 7 [EImm (Imm_I8 100)] sample_machine = Inr (EImm (Imm_I8 200), m')" by blast
  then have "machine_run 3 7 [EImm (Imm_I8 100)] sample_machine \<noteq> Inl Out_of_fuel" by simp
  from run_fuel_irrelevant [OF this, of 997] r show ?thesis by simp
qed

theorem call_returns_to_caller_witness:
  "\<exists>m'. m_call_func (run_on_func 3) 7 [EImm (Imm_I8 100)] sample_machine = Inr (EImm (Imm_I8 200), m')
     \<and> frames m' = [] \<and> pc m' = 0 \<and> m_action m' = ReturnVal (EImm (Imm_I8 200))"
proof -
  have "\<exists>m'. m_call_func (run_on_func 3) 7 [EImm (Imm_I8 100)] sample_machine = Inr (EImm (Imm_I8 200), m')"
    using sample_run
    by (auto simp: machine_run_def m_call_func_def sample_machine_def machine_new_def)
  then obtain m' where m': "m_call_func (run_on_func 3) 7 [EImm (Imm_I8 100)] sample_machine = Inr (EImm (Imm_I8 200), m')" by blast
  from call_returns_to_caller [OF this] m' show ?thesis by (auto simp: sample_machine_def machine_new_def)
qed

definition sample_frame :: Frame where
  "sample_frame = \<lparr>fr_func = 7, fr_locals = (\<lambda>_. Undef)(0 := EImm (Imm_I8 100)), fr_prev_block = None\<rparr>"

definition sample_at :: "InstId \<Rightarrow> Machine" where
  "sample_at p = sample_machine\<lparr>frames := [sample_frame], pc := p\<rparr>"

lemma sample_at_sel:
  "frames (sample_at p) = [sample_frame]" "fr_func sample_frame = 7" "funcs (sample_at p) 7 = Some sample_func" "pc (sample_at p) = p"
  "m_types (sample_at p) = empty_store" "memory (sample_at p) = []" "free_region (sample_at p) = 0"
  by (simp_all add: sample_at_def sample_machine_def machine_new_def sample_frame_def)

lemma sample_lookup: "m_lookup_val 0 (sample_at p) = Inr (EImm (Imm_I8 100), sample_at p)"
  by (simp add: m_lookup_val_def top_func_def top_frame_def sample_at_sel sample_dfg) (simp add: sample_frame_def)

lemma sample_env: "0 \<in> m_dfn (sample_at p)" "m_env (sample_at p) 0 = EImm (Imm_I8 100)"
  by (simp_all add: m_dfn_def m_env_def sample_lookup)

theorem machine_step_pure_witness:
  "\<exists>m'. machine_step (run_on_func 0) (sample_at 0) = Inr (None, m') \<and> pc m' = 1
     \<and> frames m' = [map_val 1 (EImm (Imm_I8 200)) sample_frame]"
proof -
  have "pure_eval (m_env (sample_at 0)) (Add 0 0) = Inr (EImm (Imm_I8 200))"
    by (simp add: pure_eval_def pure_ops sample_env sample_add to_eval_def del: One_nat_def)
  moreover have "get_inst (f_dfg sample_func) (pc (sample_at 0)) = Inr (Add 0 0)"
    "next_inst_of (f_layout sample_func) (pc (sample_at 0)) = Inr (Some 1)"
    "inst_result (f_dfg sample_func) (pc (sample_at 0)) = Some 1"
    by (simp_all only: sample_at_sel sample_dfg sample_layout)
  moreover have "interpretable (Add 0 0)" by (simp add: interpretable_def)
  ultimately show ?thesis
    using machine_step_pure [of "sample_at 0" sample_frame "[]" sample_func "Add 0 0" "EImm (Imm_I8 200)" 1 "run_on_func 0"]
    by (simp add: sample_at_sel sample_env del: One_nat_def)
qed

theorem machine_step_branch_witness:
  "\<exists>m'. machine_step (run_on_func 0) (sample_at 1) = Inr (None, m') \<and> pc m' = 2
     \<and> frames m' = [sample_frame\<lparr>fr_prev_block := Some 0\<rparr>]
     \<and> branch_target (m_env (sample_at 1)) (rewrite_dest (Jump 1) 1 5) = JumpTo 5"
proof -
  have "get_inst (f_dfg sample_func) (pc (sample_at 1)) = Inr (Jump 1)" "inst_result (f_dfg sample_func) (pc (sample_at 1)) = None"
    "inst_block (f_layout sample_func) (pc (sample_at 1)) = Inr 0"
    by (simp_all only: sample_at_sel sample_dfg sample_layout)
  with machine_step_branch [of "sample_at 1" sample_frame "[]" sample_func "Jump 1" 1 0 2 "run_on_func 0" 1 5 7]
  show ?thesis
    by (simp add: sample_at_sel sample_layout rewrite_if_match_def del: One_nat_def)
qed

theorem store_load_roundtrip_witness:
  "\<exists>m'. m_store (usize_imm 5) (EImm (Imm_I8 100)) Ty_I8 (sample_at 0) = Inr (Undef, m')
     \<and> m_load (usize_imm 5) Ty_I8 m' = Inr (EImm (Imm_I8 100), m') \<and> length (memory m') = 37"
proof -
  have "imm_as_usize (Imm_I256 (from_usize 5)) = Inr 5" by (rule imm_as_usize_usize) (simp add: usize_limit_def)
  with store_load_roundtrip [of "Imm_I8 100" "Imm_I256 (from_usize 5)" 5 "sample_at 0"]
  show ?thesis by (auto simp: imm_ok_def usize_limit_def usize_imm_def sample_at_sel)
qed

text \<open>An allocation hands out the region behind everything allocated before. The step does not set the
  action: after an instruction that continues it moves on, but as the first instruction after a
  jump it finds the jump still there and jumps to the start of the block again.\<close>
theorem alloca_step:
  assumes "frames m = fr # fs" and "funcs m (fr_func fr) = Some func" and "get_inst (f_dfg func) (pc m) = Inr (Alloca ty)"
    and "size_of_unchecked (m_types m) ty = Inr n" and "free_region m + n < usize_limit"
    and "inst_result (f_dfg func) (pc m) = Some r"
  shows "m_alloca ty m = Inr (usize_imm (free_region m), m\<lparr>free_region := free_region m + n\<rparr>)
    \<and> (m_action m = Continue \<and> next_inst_of (f_layout func) (pc m) = Inr (Some nx) \<longrightarrow>
        machine_step run m = Inr (None, m\<lparr>free_region := free_region m + n, pc := nx,
          frames := map_val r (usize_imm (free_region m)) fr # fs\<rparr>))
    \<and> (m_action m = JumpTo t \<and> inst_block (f_layout func) (pc m) = Inr b \<and> first_inst_of (f_layout func) t = Inr (Some p) \<longrightarrow>
        machine_step run m = Inr (None, m\<lparr>free_region := free_region m + n, pc := p,
          frames := (map_val r (usize_imm (free_region m)) fr)\<lparr>fr_prev_block := Some b\<rparr> # fs\<rparr>))"
proof -
  have al: "m_alloca ty m = Inr (usize_imm (free_region m), m\<lparr>free_region := free_region m + n\<rparr>)"
    using assms(4,5) by (simp add: m_alloca_def Let_def usize_add_def)
  have "top_func m = Inr func" using assms(1,2) by (simp add: top_func_def top_frame_def)
  with assms al show ?thesis
    by (simp add: machine_step_def interpretable_def assert_that_def upd_top_frame_def follow_action_def top_func_def top_frame_def
        map_val_def)
qed

lemma size_of_pointer: "resolve_compound s q = Inr (Ptr t) \<Longrightarrow> size_of_unchecked s (Compound q) = Inr 32"
  by (simp add: size_of_unchecked_def evm_fuel_def evm_size_of.simps(2))

lemma size_of_singleton_array:
  assumes "resolve_compound s r = Inr (Array elem 1)" "is_integral elem"
  shows "size_of_unchecked s (Compound r) = Inr 32"
proof -
  have "r < length (compounds s)" using assms(1) by (auto simp: resolve_compound_def)
  then obtain n where n: "length (compounds s) = Suc n" by (cases "length (compounds s)") auto
  have "evm_size_of (Suc n) s elem = Inr (Inr 32)"
    using assms(2) by (subst evm_size_of_scalar) (auto simp: is_integral_def)
  then show ?thesis
    using assms(1) by (simp add: size_of_unchecked_def evm_fuel_def n evm_size_of.simps(2) usize_mul_def usize_limit_def)
qed

lemma to_u256_usize: "n < usize_limit \<Longrightarrow> to_u256 (from_usize n) = Inr (of_nat n)"
  by (simp add: from_usize_def)



theorem alloca_step_witness:
  "\<exists>m m'. m_action m = JumpTo 0 \<and> pc m = 0 \<and> free_region m = 0
     \<and> machine_step (run_on_func 0) m = Inr (None, m') \<and> pc m' = 0 \<and> free_region m' = 32"
proof -
  let ?f = "sample_func\<lparr>f_dfg := (f_dfg sample_func)\<lparr>d_insts := [Alloca Ty_I8]\<rparr>\<rparr>"
  let ?m = "(sample_at 0)\<lparr>funcs := [7 \<mapsto> ?f], m_action := JumpTo 0\<rparr>"
  let ?m' = "?m\<lparr>free_region := free_region ?m + 32, pc := 0,
      frames := (map_val 1 (usize_imm (free_region ?m)) sample_frame)\<lparr>fr_prev_block := Some 0\<rparr> # []\<rparr>"
  have "get_inst (f_dfg ?f) (pc ?m) = Inr (Alloca Ty_I8)" "inst_result (f_dfg ?f) (pc ?m) = Some 1"
    by (simp_all add: get_inst_def index_list_def inst_result_def sample_func_def sample_at_sel)
  moreover have "inst_block (f_layout ?f) (pc ?m) = Inr 0" "first_inst_of (f_layout ?f) 0 = Inr (Some 0)"
    by (simp_all add: sample_at_sel sample_layout inst_block_def is_inst_inserted_def sample_func_def inst_node_default_def
        first_inst_of_def is_block_inserted_def)
  moreover have "size_of_unchecked (m_types ?m) Ty_I8 = Inr 32" by (rule size_of_integral) (simp add: is_integral_def)
  ultimately have "machine_step (run_on_func 0) ?m = Inr (None, ?m')"
    using alloca_step [of ?m sample_frame "[]" ?f Ty_I8 32 1 0 "run_on_func 0" 0 0 0]
    by (simp add: sample_at_sel usize_limit_def)
  then show ?thesis by (intro exI [of _ ?m] exI [of _ ?m']) (simp add: sample_at_sel)
qed

end
