(* ===== verification/StaticArena.thy ===== *)
theory StaticArena
  imports Cfg "HOL-Library.Product_Lexorder" "HOL-Library.Multiset"
begin

text \<open>
  \<open>crates/codegen/src/isa/evm/static_arena_alloc.rs\<close>: the layout of the stack objects of a function (allocas and
  spilled values) in the static arena. Objects are packed by a linear scan over their live intervals with a map of
  free segments; the packing is shown to pass the code's own verifier, never to panic within the \<open>u32\<close> range, and to respect the lower bounds
  that protect objects from calls.
\<close>

section \<open>Stack objects\<close>

type_synonym StackObjId = nat

datatype StackObjKind = AllocaObj InstId | SpillObj ValueId

record LiveInterval =
  iv_start :: nat
  iv_end :: nat

record StackObj =
  so_id :: StackObjId
  so_kind :: StackObjKind
  size_words :: nat
  interval :: LiveInterval
  min_offset_words :: nat

record CallSiteLiveObjects =
  cs_inst :: InstId
  cs_callee :: FuncRef
  cs_has_return :: bool
  cs_arg_count :: nat
  live_out_objs :: "StackObjId list"
  must_layout_objs :: "StackObjId list"

record FuncStackObjects =
  so_objects :: "StackObj list"
  obj_size_words :: "StackObjId \<Rightarrow> nat option"
  alloca_ids :: "InstId \<Rightarrow> StackObjId option"
  fs_spill_obj :: "ValueId \<Rightarrow> StackObjId option"
  call_sites :: "CallSiteLiveObjects list"
  requires_dynamic_frame :: bool

record FuncObjectLayout =
  obj_offset_words :: "StackObjId \<Rightarrow> nat option"
  alloca_offset_words :: "InstId \<Rightarrow> nat option"
  fl_spill_obj :: "ValueId \<Rightarrow> StackObjId option"
  locals_words :: nat

section \<open>Free segments\<close>

text \<open>
  The \<open>BTreeMap\<close> from the start of a free segment to its length is the list of its entries in ascending order.
\<close>

type_synonym free_map = "(nat \<times> nat) list"

fun btree_insert :: "nat \<Rightarrow> nat \<Rightarrow> free_map \<Rightarrow> free_map" where
  "btree_insert k v [] = [(k, v)]"
| "btree_insert k v ((k', v') # m) =
     (if k < k' then (k, v) # (k', v') # m else if k = k' then (k, v) # m else (k', v') # btree_insert k v m)"

definition btree_remove :: "nat \<Rightarrow> free_map \<Rightarrow> free_map" where
  "btree_remove k m = filter (\<lambda>(s, _). s \<noteq> k) m"

definition last_before :: "nat \<Rightarrow> free_map \<Rightarrow> (nat \<times> nat) option" where
  "last_before k m = last_opt (filter (\<lambda>(s, _). s < k) m)"

definition last_upto :: "nat \<Rightarrow> free_map \<Rightarrow> (nat \<times> nat) option" where
  "last_upto k m = last_opt (filter (\<lambda>(s, _). s \<le> k) m)"

definition first_from :: "nat \<Rightarrow> free_map \<Rightarrow> (nat \<times> nat) option" where
  "first_from k m = find (\<lambda>(s, _). k \<le> s) m"

abbreviation (input) "seg_add \<equiv> checked_add u32_limit ''free segment overflow''"

definition merge_prev :: "nat \<Rightarrow> nat \<Rightarrow> free_map \<Rightarrow> fault + (nat \<times> nat \<times> free_map)" where
  "merge_prev start len m = (case last_before start m of
       None \<Rightarrow> Inr (start, len, m)
     | Some (p_start, p_len) \<Rightarrow> rbind (seg_add p_start p_len) (\<lambda>p_end.
         if p_end = start then rbind (seg_add len p_len) (\<lambda>len. Inr (p_start, len, btree_remove p_start m))
         else Inr (start, len, m)))"

definition merge_next :: "nat \<Rightarrow> nat \<Rightarrow> free_map \<Rightarrow> fault + (nat \<times> free_map)" where
  "merge_next start len m = (case first_from start m of
       None \<Rightarrow> Inr (len, m)
     | Some (n_start, n_len) \<Rightarrow> rbind (seg_add start len) (\<lambda>fin.
         if fin = n_start then rbind (seg_add len n_len) (\<lambda>len. Inr (len, btree_remove n_start m))
         else Inr (len, m)))"

definition insert_free_segment :: "free_map \<Rightarrow> nat \<Rightarrow> nat \<Rightarrow> fault + free_map" where
  "insert_free_segment m start len =
     (if len = 0 then Inr m
      else rbind (merge_prev start len m) (\<lambda>(start, len, m).
           rbind (merge_next start len m) (\<lambda>(len, m). Inr (btree_insert start len m))))"

section \<open>Packing\<close>

text \<open>The heap of active objects, least \<open>(end, offset, size, id)\<close> first, is a sorted list.\<close>

type_synonym active_heap = "(nat \<times> nat \<times> nat \<times> nat) list"

fun release_expired :: "nat \<Rightarrow> active_heap \<Rightarrow> free_map \<Rightarrow> fault + (active_heap \<times> free_map)" where
  "release_expired start [] free = Inr ([], free)"
| "release_expired start ((fin, off, sz, oid) # active) free =
     (if fin \<le> start then rbind (insert_free_segment free off sz) (release_expired start active)
      else Inr ((fin, off, sz, oid) # active, free))"

definition find_segment :: "free_map \<Rightarrow> nat \<Rightarrow> nat \<Rightarrow> fault + (nat \<times> nat) option" where
  "find_segment free min_off sz =
     rbind (case last_upto min_off free of
              None \<Rightarrow> Inr None
            | Some (start, len) \<Rightarrow> rbind (seg_add start len) (\<lambda>fin.
                rbind (seg_add (max start min_off) sz) (\<lambda>alloc_end.
                  Inr (if alloc_end \<le> fin then Some (start, len) else None))))
       (\<lambda>found. Inr (case found of
          Some seg \<Rightarrow> Some seg
        | None \<Rightarrow> find (\<lambda>(start, len). min_off \<le> start \<and> sz \<le> len) free))"

definition take_segment :: "free_map \<Rightarrow> nat \<Rightarrow> nat \<Rightarrow> nat \<times> nat \<Rightarrow> fault + (nat \<times> free_map)" where
  "take_segment free min_off sz seg = (case seg of (start, len) \<Rightarrow>
     rbind (seg_add start len) (\<lambda>fin.
     let alloc_start = max start min_off in
     rbind (seg_add alloc_start sz) (\<lambda>alloc_end.
     rbind (checked_sub ''free segment underflow'' alloc_start start) (\<lambda>before.
     rbind (insert_free_segment (btree_remove start free) start before) (\<lambda>free.
     rbind (checked_sub ''free segment underflow'' fin alloc_end) (\<lambda>after.
     rbind (insert_free_segment free alloc_end after) (\<lambda>free. Inr (alloc_start, free))))))))"

definition place_object :: "free_map \<Rightarrow> nat \<Rightarrow> nat \<Rightarrow> nat \<Rightarrow> fault + (nat \<times> free_map \<times> nat)" where
  "place_object free max_used min_off sz =
     rbind (find_segment free min_off sz) (\<lambda>found.
     rbind (case found of
              Some seg \<Rightarrow> rbind (take_segment free min_off sz seg) (\<lambda>(off, free). Inr (off, free, max_used))
            | None \<Rightarrow> let off = max min_off max_used in
                rbind (checked_add u32_limit ''locals size overflow'' off sz) (\<lambda>fin. Inr (off, free, fin)))
       (\<lambda>(off, free, max_used).
         rbind (checked_add u32_limit ''locals size overflow'' off sz) (\<lambda>fin. Inr (off, free, max max_used fin))))"

fun pack_loop :: "StackObj list \<Rightarrow> active_heap \<Rightarrow> free_map \<Rightarrow> nat \<Rightarrow> (StackObjId \<Rightarrow> nat option)
    \<Rightarrow> fault + ((StackObjId \<Rightarrow> nat option) \<times> nat)" where
  "pack_loop [] active free max_used out = Inr (out, max_used)"
| "pack_loop (obj # objs) active free max_used out =
     rbind (release_expired (iv_start (interval obj)) active free) (\<lambda>(active, free).
       if size_words obj = 0 then pack_loop objs active free max_used (out(so_id obj \<mapsto> 0))
       else rbind (place_object free max_used (min_offset_words obj) (size_words obj)) (\<lambda>(off, free, max_used).
            pack_loop objs (insort (iv_end (interval obj), off, size_words obj, so_id obj) active) free max_used (out(so_id obj \<mapsto> off))))"

definition pack_objects :: "StackObj list \<Rightarrow> fault + ((StackObjId \<Rightarrow> nat option) \<times> nat)" where
  "pack_objects objects =
     pack_loop (sort_key (\<lambda>ob. (iv_start (interval ob), iv_end (interval ob), so_id ob)) objects) [] [] 0 Map.empty"

definition raise_min_offset :: "(StackObjId \<Rightarrow> nat option) \<Rightarrow> StackObj \<Rightarrow> StackObj" where
  "raise_min_offset mins obj = (case mins (so_id obj) of
       Some k \<Rightarrow> obj\<lparr>min_offset_words := max k (min_offset_words obj)\<rparr>
     | None \<Rightarrow> obj)"

definition pack_objects_with_min_offsets ::
    "FuncStackObjects \<Rightarrow> (StackObjId \<Rightarrow> nat option) \<Rightarrow> fault + ((StackObjId \<Rightarrow> nat option) \<times> nat)" where
  "pack_objects_with_min_offsets stack mins = pack_objects (map (raise_min_offset mins) (so_objects stack))"

definition build_func_object_layout :: "FuncStackObjects \<Rightarrow> (StackObjId \<Rightarrow> nat option) \<Rightarrow> nat \<Rightarrow> FuncObjectLayout" where
  "build_func_object_layout stack offs words =
     \<lparr>obj_offset_words = offs,
      alloca_offset_words = (\<lambda>inst. case alloca_ids stack inst of Some oid \<Rightarrow> offs oid | None \<Rightarrow> None),
      fl_spill_obj = fs_spill_obj stack, locals_words = words\<rparr>"

section \<open>The verifier\<close>

fun verify_extents :: "(StackObjId \<Rightarrow> nat option) \<Rightarrow> nat \<Rightarrow> StackObj list \<Rightarrow> nat \<Rightarrow> fault + nat" where
  "verify_extents offs words [] max_end = Inr max_end"
| "verify_extents offs words (obj # objs) max_end = (case offs (so_id obj) of
       None \<Rightarrow> Inl (Panic ''missing offset for obj'')
     | Some off \<Rightarrow> rbind (checked_add u32_limit ''obj end overflows'' off (size_words obj)) (\<lambda>fin.
         if words < fin then Inl (Panic ''StaticArena density violated'')
         else verify_extents offs words objs (max max_end fin)))"

definition verify_pair :: "(StackObjId \<Rightarrow> nat option) \<Rightarrow> StackObj \<Rightarrow> StackObj \<Rightarrow> fault + unit" where
  "verify_pair offs o1 o2 =
     (if size_words o1 = 0 \<or> size_words o2 = 0 \<or> iv_end (interval o1) \<le> iv_start (interval o2)
         \<or> iv_end (interval o2) \<le> iv_start (interval o1)
      then Inr ()
      else case (offs (so_id o1), offs (so_id o2)) of
        (Some off1, Some off2) \<Rightarrow>
          rbind (checked_add u32_limit ''attempt to add with overflow'' off1 (size_words o1)) (\<lambda>end1.
          rbind (checked_add u32_limit ''attempt to add with overflow'' off2 (size_words o2)) (\<lambda>end2.
            if end1 \<le> off2 \<or> end2 \<le> off1 then Inr () else Inl (Panic ''StaticArena overlap'')))
      | _ \<Rightarrow> Inl (Panic ''no entry found for key''))"

fun verify_against :: "(StackObjId \<Rightarrow> nat option) \<Rightarrow> StackObj \<Rightarrow> StackObj list \<Rightarrow> fault + unit" where
  "verify_against offs o1 [] = Inr ()"
| "verify_against offs o1 (o2 # os) = rbind (verify_pair offs o1 o2) (\<lambda>_. verify_against offs o1 os)"

fun verify_pairs :: "(StackObjId \<Rightarrow> nat option) \<Rightarrow> StackObj list \<Rightarrow> fault + unit" where
  "verify_pairs offs [] = Inr ()"
| "verify_pairs offs (o1 # os) = rbind (verify_against offs o1 os) (\<lambda>_. verify_pairs offs os)"

definition verify_object_packing :: "FuncStackObjects \<Rightarrow> (StackObjId \<Rightarrow> nat option) \<Rightarrow> nat \<Rightarrow> fault + unit" where
  "verify_object_packing stack offs words =
     rbind (verify_extents offs words (so_objects stack) 0) (\<lambda>max_end.
     rbind (assert_that (max_end = words) ''StaticArena locals_words mismatch'') (\<lambda>_.
       verify_pairs offs (so_objects stack)))"

section \<open>Positions and live intervals\<close>

fun keep_new :: "BlockId list \<Rightarrow> BlockId set \<Rightarrow> BlockId list" where
  "keep_new [] seen = []"
| "keep_new (b # bs) seen = (if b \<in> seen then keep_new bs seen else b # keep_new bs (insert b seen))"

type_synonym positions = "InstId \<Rightarrow> nat option"

fun number_insts :: "InstId list \<Rightarrow> InstId list \<times> positions \<times> nat \<Rightarrow> fault + (InstId list \<times> positions \<times> nat)" where
  "number_insts [] st = Inr st"
| "number_insts (i # js) (order, pos, next) =
     rbind (checked_add u32_limit ''instruction position overflow'' next 1) (\<lambda>next'.
       number_insts js (order @ [i], pos(i \<mapsto> next), next'))"

fun number_blocks :: "Function \<Rightarrow> BlockId list \<Rightarrow> InstId list \<times> positions \<times> nat \<Rightarrow> fault + (InstId list \<times> positions)" where
  "number_blocks func [] (order, pos, next) = Inr (order, pos)"
| "number_blocks func (b # bs) st = rbind (insts_of func b) (\<lambda>js. rbind (number_insts js st) (number_blocks func bs))"

definition compute_inst_order :: "Function \<Rightarrow> BlockId list \<Rightarrow> fault + (InstId list \<times> positions)" where
  "compute_inst_order func block_order = (case iter_block (f_layout func) of
       None \<Rightarrow> Inl Out_of_fuel
     | Some bs \<Rightarrow> number_blocks func (keep_new (block_order @ bs) {}) ([], Map.empty, 0))"

definition pos_or_0 :: "positions \<Rightarrow> InstId \<Rightarrow> nat" where
  "pos_or_0 pos i = (case pos i of Some n \<Rightarrow> n | None \<Rightarrow> 0)"

fun block_ends :: "Function \<Rightarrow> positions \<Rightarrow> BlockId list \<Rightarrow> (BlockId \<Rightarrow> nat option) \<Rightarrow> fault + (BlockId \<Rightarrow> nat option)" where
  "block_ends func pos [] out = Inr out"
| "block_ends func pos (b # bs) out = rbind (insts_of func b) (\<lambda>js.
     block_ends func pos bs (out(b \<mapsto> (case last_opt js of Some i \<Rightarrow> pos_or_0 pos i | None \<Rightarrow> 0))))"

definition compute_block_end_pos :: "Function \<Rightarrow> positions \<Rightarrow> fault + (BlockId \<Rightarrow> nat option)" where
  "compute_block_end_pos func pos = (case iter_block (f_layout func) of
       None \<Rightarrow> Inl Out_of_fuel
     | Some bs \<Rightarrow> block_ends func pos bs Map.empty)"

text \<open>A set of spilled values is the list of its members in ascending order; liveness is the set live after an instruction.\<close>

definition spill_start :: "Function \<Rightarrow> positions \<Rightarrow> ValueId \<Rightarrow> fault + nat" where
  "spill_start func pos v = rbind (get_value (f_dfg func) v) (\<lambda>val. case val of
       V_Arg _ _ \<Rightarrow> Inr 0
     | _ \<Rightarrow> rbind (value_inst (f_dfg func) v) (\<lambda>inst. Inr (case inst of Some i \<Rightarrow> pos_or_0 pos i | None \<Rightarrow> 0)))"

fun spill_starts :: "Function \<Rightarrow> positions \<Rightarrow> ValueId list \<Rightarrow> fault + (ValueId \<Rightarrow> nat option)" where
  "spill_starts func pos [] = Inr Map.empty"
| "spill_starts func pos (v # vs) = rbind (spill_start func pos v) (\<lambda>p. rbind (spill_starts func pos vs) (\<lambda>m. Inr (m(v \<mapsto> p))))"

definition extend_end :: "ValueId list \<Rightarrow> nat \<Rightarrow> ValueId \<Rightarrow> (ValueId \<Rightarrow> nat option) \<Rightarrow> ValueId \<Rightarrow> nat option" where
  "extend_end spilled pos v fin = (if v \<in> set spilled then fin(v := map_option (\<lambda>e. max e pos) (fin v)) else fin)"

fun spill_uses :: "inst \<Rightarrow> nat \<Rightarrow> (BlockId \<Rightarrow> nat option) \<Rightarrow> (ValueId \<times> nat) list" where
  "spill_uses (Phi args) pos ends = map (\<lambda>(v, p). (v, case ends p of Some n \<Rightarrow> n | None \<Rightarrow> 0)) args"
| "spill_uses data pos ends = map (\<lambda>v. (v, pos)) (values_of data)"

fun spill_ends :: "Function \<Rightarrow> positions \<Rightarrow> (BlockId \<Rightarrow> nat option) \<Rightarrow> (InstId \<Rightarrow> ValueId set) \<Rightarrow> ValueId list \<Rightarrow> InstId list
    \<Rightarrow> (ValueId \<Rightarrow> nat option) \<Rightarrow> fault + (ValueId \<Rightarrow> nat option)" where
  "spill_ends func pos ends live spilled [] fin = Inr fin"
| "spill_ends func pos ends live spilled (i # js) fin =
     rbind (get_inst (f_dfg func) i) (\<lambda>data.
       let p = pos_or_0 pos i;
           fin = fold (\<lambda>(v, n). extend_end spilled n v) (spill_uses data p ends) fin;
           fin = (\<lambda>v. if v \<in> live i \<and> v \<in> set spilled then map_option (\<lambda>e. max e p) (fin v) else fin v)
       in spill_ends func pos ends live spilled js fin)"

definition compute_spill_intervals :: "Function \<Rightarrow> InstId list \<Rightarrow> positions \<Rightarrow> (BlockId \<Rightarrow> nat option)
    \<Rightarrow> (InstId \<Rightarrow> ValueId set) \<Rightarrow> ValueId list \<Rightarrow> fault + (ValueId \<Rightarrow> LiveInterval option)" where
  "compute_spill_intervals func order pos ends live spilled =
     rbind (spill_starts func pos spilled) (\<lambda>start.
     rbind (spill_ends func pos ends live spilled order start) (\<lambda>fin.
       Inr (\<lambda>v. if v \<in> set spilled
             then (let s = case start v of Some n \<Rightarrow> n | None \<Rightarrow> 0 in
                   Some \<lparr>iv_start = s, iv_end = (case fin v of Some n \<Rightarrow> n | None \<Rightarrow> s)\<rparr>)
             else None)))"

section \<open>Allocas reached through stored pointers\<close>

text \<open>
  The work list is a stack whose head is its top. The outer option says whether the loop ends, the inner one is
  the result of the code: \<open>None\<close> for a pointer of unknown origin. The children of an alloca are a list in the order
  in which the set is iterated; the result does not depend on it.
\<close>

fun push_new :: "InstId list \<Rightarrow> InstId list \<times> InstId set \<Rightarrow> InstId list \<times> InstId set" where
  "push_new [] (work, out) = (work, out)"
| "push_new (c # cs) (work, out) = (if c \<in> out then push_new cs (work, out) else push_new cs (c # work, insert c out))"

partial_function (option) closure_loop :: "(InstId \<Rightarrow> InstId list option) \<Rightarrow> InstId set \<Rightarrow> InstId list \<times> InstId set \<Rightarrow> InstId set option option" where
  "closure_loop edges unknown st = (case st of
       ([], out) \<Rightarrow> Some (Some out)
     | (base # work, out) \<Rightarrow>
         if base \<in> unknown then Some None
         else case edges base of
           None \<Rightarrow> closure_loop edges unknown (work, out)
         | Some next \<Rightarrow> closure_loop edges unknown (push_new next (work, out)))"

definition closure_allocas :: "InstId list \<Rightarrow> (InstId \<Rightarrow> InstId list option) \<Rightarrow> InstId set \<Rightarrow> InstId set option option" where
  "closure_allocas roots edges unknown = closure_loop edges unknown (push_new roots ([], {}))"

section \<open>The words of the free map\<close>

definition words_of :: "nat \<Rightarrow> nat \<Rightarrow> nat set" where
  "words_of off sz = {off..<off + sz}"

definition free_words :: "free_map \<Rightarrow> nat set" where
  "free_words m = (\<Union>(s, l) \<in> set m. words_of s l)"

text \<open>Segments are not empty, in ascending order, do not overlap, and stay below a bound.\<close>

definition free_ok :: "free_map \<Rightarrow> bool" where
  "free_ok m \<longleftrightarrow> sorted_wrt (\<lambda>(s, l) (s', l'). s + l \<le> s') m \<and> (\<forall>(s, l) \<in> set m. 0 < l)"

lemma words_of_disjoint: "0 < l \<Longrightarrow> 0 < l' \<Longrightarrow> words_of s l \<inter> words_of s' l' = {} \<longleftrightarrow> s + l \<le> s' \<or> s' + l' \<le> s"
proof -
  assume l: "0 < l" "0 < l'"
  have "max s s' \<in> words_of s l \<inter> words_of s' l'" if "\<not> (s + l \<le> s' \<or> s' + l' \<le> s)"
    using that l by (auto simp: words_of_def max_def)
  then show ?thesis by (auto simp: words_of_def)
qed

lemma free_ok_Cons: "free_ok ((s, l) # m) \<longleftrightarrow> 0 < l \<and> (\<forall>(s', l') \<in> set m. s + l \<le> s') \<and> free_ok m"
  by (auto simp: free_ok_def)

lemma free_ok_Nil [simp]: "free_ok []" "free_words [] = {}"
  by (simp_all add: free_ok_def free_words_def)

lemma free_words_Cons [simp]: "free_words ((s, l) # m) = words_of s l \<union> free_words m"
  by (simp add: free_words_def)

lemma btree_insert_ok:
  "free_ok m \<Longrightarrow> 0 < v \<Longrightarrow> words_of k v \<inter> free_words m = {} \<Longrightarrow>
     free_ok (btree_insert k v m) \<and> set (btree_insert k v m) = insert (k, v) (set m)"
proof (induction m)
  case (Cons x m)
  obtain s l where x: "x = (s, l)" by (cases x)
  from Cons.prems x have l: "0 < l" "\<forall>(s', l') \<in> set m. s + l \<le> s'" "free_ok m" by (auto simp: free_ok_Cons)
  from Cons.prems(2,3) x l(1) words_of_disjoint [of v l k s] have d: "k + v \<le> s \<or> s + l \<le> k" by auto
  consider "k < s" "k + v \<le> s" | "s + l \<le> k" "s < k" using d Cons.prems(2) l(1) by linarith
  then show ?case
  proof cases
    case 1
    with x l Cons.prems(2) show ?thesis by (auto simp: free_ok_Cons)
  next
    case 2
    with Cons.IH [OF l(3) Cons.prems(2)] Cons.prems(3) x have
      "free_ok (btree_insert k v m) \<and> set (btree_insert k v m) = insert (k, v) (set m)" by (auto simp: Int_Un_distrib)
    with 2 x l show ?thesis by (auto simp: free_ok_Cons)
  qed
qed (simp add: free_ok_Cons)

lemma free_ok_filter: "free_ok m \<Longrightarrow> free_ok (filter p m)"
  by (auto simp: free_ok_def intro: sorted_wrt_filter)

lemma free_ok_distinct:
  assumes "free_ok m" and "(s, l) \<in> set m" and "(s', l') \<in> set m"
  shows "(s, l) = (s', l') \<or> words_of s l \<inter> words_of s' l' = {} \<and> s \<noteq> s'"
  using assms
proof (induction m)
  case (Cons x m)
  obtain a b where x: "x = (a, b)" by (cases x)
  with Cons.prems(1) have m: "0 < b" "\<forall>(s', l') \<in> set m. a + b \<le> s'" "free_ok m" by (auto simp: free_ok_Cons)
  have "words_of a b \<inter> words_of c d = {} \<and> a \<noteq> c" if "(c, d) \<in> set m" for c d
    using m that by (fastforce simp: words_of_def)
  with Cons x m(3) show ?case by (auto simp: Int_commute)
qed simp

lemma btree_remove_ok:
  assumes "free_ok m" and "(s, l) \<in> set m"
  shows "free_ok (btree_remove s m)" "free_words (btree_remove s m) = free_words m - words_of s l"
    "set (btree_remove s m) = set m - {(s, l)}"
proof -
  show "free_ok (btree_remove s m)" by (simp add: btree_remove_def free_ok_filter [OF assms(1)])
  show st: "set (btree_remove s m) = set m - {(s, l)}"
    using free_ok_distinct [OF assms(1,2)] by (auto simp: btree_remove_def)
  show "free_words (btree_remove s m) = free_words m - words_of s l"
    unfolding free_words_def st using free_ok_distinct [OF assms(1,2)] assms(2) by fastforce
qed

definition below :: "nat \<Rightarrow> free_map \<Rightarrow> bool" where
  "below B m \<longleftrightarrow> (\<forall>(s, l) \<in> set m. s + l \<le> B)"

lemma words_of_Un: "words_of s l \<union> words_of (s + l) l' = words_of s (l + l')"
  by (auto simp: words_of_def)

lemma words_of_sub: "(s, l) \<in> set m \<Longrightarrow> words_of s l \<subseteq> free_words m"
  by (auto simp: free_words_def)

lemma last_before_mem: "last_before k m = Some (s, l) \<Longrightarrow> (s, l) \<in> set m \<and> s < k"
  unfolding last_before_def using last_opt_mem by fastforce

lemma last_upto_mem: "last_upto k m = Some (s, l) \<Longrightarrow> (s, l) \<in> set m \<and> s \<le> k"
  unfolding last_upto_def using last_opt_mem by fastforce

lemma find_segment_mem: "find p m = Some x \<Longrightarrow> x \<in> set m \<and> p x"
  by (auto simp: find_Some_iff in_set_conv_nth)

text \<open>Merging a segment with a neighbour: the segment and the rest still partition the same words.\<close>

definition split_ok :: "nat \<Rightarrow> nat set \<Rightarrow> nat \<Rightarrow> nat \<Rightarrow> free_map \<Rightarrow> bool" where
  "split_ok B W s l m \<longleftrightarrow> 0 < l \<and> s + l \<le> B \<and> free_ok m \<and> below B m \<and> words_of s l \<inter> free_words m = {} \<and> words_of s l \<union> free_words m = W"

lemma split_ok_merge:
  assumes "split_ok B W s l m" and "(s', l') \<in> set m" and "s' + l' = s \<or> s + l = s'"
  shows "split_ok B W (min s s') (l + l') (btree_remove s' m)" "0 < l'"
proof -
  have ok: "free_ok m" using assms(1) by (simp add: split_ok_def)
  with assms(2) show l': "0 < l'" by (auto simp: free_ok_def)
  have w: "words_of (min s s') (l + l') = words_of s l \<union> words_of s' l'"
    using assms(3) words_of_Un [of s' l' l] words_of_Un [of s l l'] by (auto simp: min_def add.commute)
  show "split_ok B W (min s s') (l + l') (btree_remove s' m)"
    using assms btree_remove_ok [OF ok assms(2)] words_of_sub [OF assms(2)] w
    by (auto simp: split_ok_def below_def min_def)
qed

lemma merge_prev_ok:
  assumes "split_ok B W s l m" and "B < u32_limit"
  shows "\<exists>s' l' m'. merge_prev s l m = Inr (s', l', m') \<and> split_ok B W s' l' m'"
proof (cases "last_before s m")
  case (Some p)
  obtain a b where p: "p = (a, b)" by (cases p)
  with last_before_mem [of s m a b] Some have m: "(a, b) \<in> set m" "a < s" by simp_all
  then have B: "a + b \<le> B" "s + l \<le> B" using assms(1) by (auto simp: split_ok_def below_def)
  show ?thesis
  proof (cases "a + b = s")
    case True
    from split_ok_merge [OF assms(1) m(1)] True m(2) have "split_ok B W a (l + b) (btree_remove a m)" by (simp add: min_def)
    with B Some p True assms(2) show ?thesis by (simp add: merge_prev_def checked_add_def)
  qed (use B Some p assms in \<open>simp add: merge_prev_def checked_add_def\<close>)
qed (use assms in \<open>simp add: merge_prev_def\<close>)

lemma merge_next_ok:
  assumes "split_ok B W s l m" and "B < u32_limit"
  shows "\<exists>l' m'. merge_next s l m = Inr (l', m') \<and> split_ok B W s l' m'"
proof (cases "first_from s m")
  case (Some p)
  obtain a b where p: "p = (a, b)" by (cases p)
  with find_segment_mem [of _ m "(a, b)"] Some have m: "(a, b) \<in> set m" "s \<le> a" by (fastforce simp: first_from_def)+
  then have B: "a + b \<le> B" "s + l \<le> B" using assms(1) by (auto simp: split_ok_def below_def)
  show ?thesis
  proof (cases "s + l = a")
    case True
    from split_ok_merge [OF assms(1) m(1)] True m(2) have "split_ok B W s (l + b) (btree_remove a m)" by (simp add: min_def)
    with B Some p True assms(2) show ?thesis by (auto simp: merge_next_def checked_add_def)
  qed (use B Some p assms in \<open>simp add: merge_next_def checked_add_def\<close>)
qed (use assms in \<open>simp add: merge_next_def\<close>)

lemma insert_free_segment_ok:
  assumes "free_ok m" and "below B m" and "words_of s l \<inter> free_words m = {}" and "s + l \<le> B" and "B < u32_limit"
  shows "\<exists>m'. insert_free_segment m s l = Inr m' \<and> free_ok m' \<and> below B m' \<and> free_words m' = words_of s l \<union> free_words m"
proof (cases "l = 0")
  case False
  with assms have "split_ok B (words_of s l \<union> free_words m) s l m" by (simp add: split_ok_def)
  from merge_prev_ok [OF this assms(5)] obtain s1 l1 m1 where
    1: "merge_prev s l m = Inr (s1, l1, m1)" "split_ok B (words_of s l \<union> free_words m) s1 l1 m1" by blast
  from merge_next_ok [OF 1(2) assms(5)] obtain l2 m2 where
    2: "merge_next s1 l1 m1 = Inr (l2, m2)" "split_ok B (words_of s l \<union> free_words m) s1 l2 m2" by blast
  then have "free_ok (btree_insert s1 l2 m2) \<and> set (btree_insert s1 l2 m2) = insert (s1, l2) (set m2)"
    by (intro btree_insert_ok) (simp_all add: split_ok_def)
  with 1 2 False show ?thesis by (auto simp: insert_free_segment_def split_ok_def below_def free_words_def)
qed (use assms in \<open>simp add: insert_free_segment_def words_of_def\<close>)

lemma find_segment_ok:
  assumes "below B m" and "B < u32_limit" and "min_off + sz < u32_limit"
  shows "\<exists>r. find_segment m min_off sz = Inr r
    \<and> (case r of None \<Rightarrow> True | Some (s, l) \<Rightarrow> (s, l) \<in> set m \<and> max s min_off + sz \<le> s + l)"
proof -
  have f: "case find (\<lambda>(s, l). min_off \<le> s \<and> sz \<le> l) m of None \<Rightarrow> True | Some (s, l) \<Rightarrow> (s, l) \<in> set m \<and> max s min_off + sz \<le> s + l"
    by (auto split: option.split dest: find_segment_mem)
  show ?thesis
  proof (cases "last_upto min_off m")
    case (Some p)
    obtain a b where p: "p = (a, b)" by (cases p)
    with last_upto_mem [of min_off m a b] Some have m: "(a, b) \<in> set m" "a \<le> min_off" by simp_all
    then have "a + b < u32_limit" "max a min_off = min_off" using assms(1,2) by (auto simp: below_def)
    with Some p m f assms(3) show ?thesis by (simp add: find_segment_def checked_add_def max_def)
  qed (use f in \<open>simp add: find_segment_def\<close>)
qed

text \<open>An object takes words that were free, or words above all used so far.\<close>

lemma place_object_ok:
  assumes "free_ok m" and "below u m" and "0 < sz" and "max min_off u + sz < u32_limit"
  shows "\<exists>off m' u'. place_object m u min_off sz = Inr (off, m', u') \<and> free_ok m' \<and> below u' m' \<and> min_off \<le> off
    \<and> u \<le> u' \<and> off + sz \<le> u' \<and> u' \<le> max u (off + sz) \<and> u' \<le> max min_off u + sz
    \<and> words_of off sz \<inter> free_words m' = {} \<and> free_words m' \<subseteq> free_words m \<and> (words_of off sz \<subseteq> free_words m \<or> u \<le> off)"
proof -
  have B: "u < u32_limit" "min_off + sz < u32_limit" using assms(3,4) by (auto simp: max_def split: if_splits)
  from find_segment_ok [OF assms(2) B] obtain r where r: "find_segment m min_off sz = Inr r"
    "case r of None \<Rightarrow> True | Some (s, l) \<Rightarrow> (s, l) \<in> set m \<and> max s min_off + sz \<le> s + l" by blast
  show ?thesis
  proof (cases r)
    case None
    have "below (max min_off u + sz) m" using assms(2) by (fastforce simp: below_def)
    moreover have "words_of (max min_off u) sz \<inter> free_words m = {}"
      using assms(2) by (auto simp: words_of_def free_words_def below_def)
    ultimately show ?thesis using None r(1) assms by (simp add: place_object_def Let_def checked_add_def)
  next
    case (Some p)
    obtain s l where p: "p = (s, l)" by (cases p)
    let ?a = "max s min_off"
    from r(2) Some p have m: "(s, l) \<in> set m" "?a + sz \<le> s + l" by simp_all
    then have slu: "s + l \<le> u" using assms(2) by (auto simp: below_def)
    note rm = btree_remove_ok [OF assms(1) m(1)]
    have bm: "below u (btree_remove s m)" using rm(3) assms(2) by (auto simp: below_def)
    have w: "words_of s l = words_of s (?a - s) \<union> words_of ?a sz \<union> words_of (?a + sz) (s + l - (?a + sz))"
      using m(2) by (auto simp: words_of_def)
    have "words_of s (?a - s) \<inter> free_words (btree_remove s m) = {}" using rm(2) w by blast
    moreover have "s + (?a - s) = ?a" by simp
    then have "s + (?a - s) \<le> u" using m(2) slu by linarith
    ultimately obtain m1 where
      1: "insert_free_segment (btree_remove s m) s (?a - s) = Inr m1" "free_ok m1" "below u m1"
        "free_words m1 = words_of s (?a - s) \<union> (free_words m - words_of s l)" using insert_free_segment_ok [OF rm(1) bm _ _ B(1), of s "?a - s"] rm(2) by auto
    have "words_of (?a + sz) (s + l - (?a + sz)) \<inter> free_words m1 = {}"
      using 1(4) w by (auto simp: words_of_def)
    moreover have "?a + sz + (s + l - (?a + sz)) \<le> u" using m(2) slu by linarith
    ultimately obtain m2 where
      2: "insert_free_segment m1 (?a + sz) (s + l - (?a + sz)) = Inr m2" "free_ok m2" "below u m2"
        "free_words m2 = words_of (?a + sz) (s + l - (?a + sz)) \<union> free_words m1"
      using insert_free_segment_ok [OF 1(2,3) _ _ B(1), of "?a + sz" "s + l - (?a + sz)"] by auto
    have lt: "s + l < u32_limit" "?a + sz < u32_limit" using slu B(1) m(2) by linarith+
    have "take_segment m min_off sz (s, l) = Inr (?a, m2)"
      using lt m(2) 1(1) 2(1) by (simp add: take_segment_def checked_add_def checked_sub_def Let_def)
    then have "place_object m u min_off sz = Inr (?a, m2, u)"
      using r(1) Some p lt m(2) slu by (simp add: place_object_def checked_add_def max_def)
    moreover have "words_of ?a sz \<inter> free_words m2 = {}" using 2(4) 1(4) w by (auto simp: words_of_def)
    moreover have "free_words m2 \<subseteq> free_words m" "words_of ?a sz \<subseteq> free_words m"
      using 2(4) 1(4) w words_of_sub [OF m(1)] by auto
    ultimately show ?thesis using 2(2,3) m(2) slu by auto
  qed
qed

section \<open>The scan\<close>

text \<open>The words of an entry of the heap, and what is known of heap and free map: they share no words.\<close>

fun entry_words :: "nat \<times> nat \<times> nat \<times> nat \<Rightarrow> nat set" where
  "entry_words (fin, off, sz, oid) = words_of off sz"

definition act_ok :: "nat \<Rightarrow> active_heap \<Rightarrow> free_map \<Rightarrow> bool" where
  "act_ok u active free \<longleftrightarrow> free_ok free \<and> below u free \<and> distinct active
     \<and> (\<forall>(fin, off, sz, oid) \<in> set active. 0 < sz \<and> off + sz \<le> u \<and> words_of off sz \<inter> free_words free = {})
     \<and> (\<forall>x \<in> set active. \<forall>y \<in> set active. x \<noteq> y \<longrightarrow> entry_words x \<inter> entry_words y = {})"

lemma release_expired_ok:
  "act_ok u active free \<Longrightarrow> sorted active \<Longrightarrow> u < u32_limit \<Longrightarrow>
     \<exists>free'. release_expired t active free = Inr (filter (\<lambda>(fin, _). t < fin) active, free')
       \<and> act_ok u (filter (\<lambda>(fin, _). t < fin) active) free'"
proof (induction active arbitrary: free)
  case (Cons x active)
  obtain fin off sz oid where x: "x = (fin, off, sz, oid)" by (cases x)
  show ?case
  proof (cases "fin \<le> t")
    case True
    from Cons.prems(1) x have "free_ok free" "below u free" "words_of off sz \<inter> free_words free = {}" "off + sz \<le> u"
      by (auto simp: act_ok_def)
    from insert_free_segment_ok [OF this Cons.prems(3)] obtain free1 where
      1: "insert_free_segment free off sz = Inr free1" "free_ok free1" "below u free1" "free_words free1 = words_of off sz \<union> free_words free" by blast
    have a: "distinct active" "x \<notin> set active"
      "\<forall>(fin, off, sz, oid) \<in> set active. 0 < sz \<and> off + sz \<le> u \<and> words_of off sz \<inter> free_words free = {}"
      "\<forall>y \<in> set active. x \<noteq> y \<longrightarrow> entry_words x \<inter> entry_words y = {}"
      "\<forall>y \<in> set active. \<forall>z \<in> set active. y \<noteq> z \<longrightarrow> entry_words y \<inter> entry_words z = {}"
      using Cons.prems(1) by (simp_all add: act_ok_def)
    have "words_of off' sz' \<inter> free_words free1 = {}" if "(fin', off', sz', oid') \<in> set active" for fin' off' sz' oid'
    proof -
      have "words_of off sz \<inter> words_of off' sz' = {}" using a(2,4) that x by fastforce
      moreover have "words_of off' sz' \<inter> free_words free = {}" using a(3) that by blast
      ultimately show ?thesis using 1(4) by blast
    qed
    with a 1(2,3) have "act_ok u active free1" unfolding act_ok_def by fast
    from Cons.IH [OF this _ Cons.prems(3)] Cons.prems(2) 1(1) True x show ?thesis by simp
  next
    case False
    with Cons.prems(2) x have "\<forall>y \<in> set active. t < fst y" by (fastforce simp: less_eq_prod_def)
    then have "filter (\<lambda>(fin, _). t < fin) (x # active) = x # active" using False x by (auto simp: filter_id_conv split_beta)
    with False x Cons.prems(1) show ?thesis by simp
  qed
qed simp

definition entry_of :: "(StackObjId \<Rightarrow> nat option) \<Rightarrow> StackObj \<Rightarrow> nat \<times> nat \<times> nat \<times> nat" where
  "entry_of out ob = (iv_end (interval ob), the (out (so_id ob)), size_words ob, so_id ob)"

definition overlap :: "StackObj \<Rightarrow> StackObj \<Rightarrow> bool" where
  "overlap a b \<longleftrightarrow> size_words a \<noteq> 0 \<and> size_words b \<noteq> 0
     \<and> iv_start (interval b) < iv_end (interval a) \<and> iv_start (interval a) < iv_end (interval b)"

text \<open>
  What a packing promises: every object has an offset, within the extent and not below its bound; the extent is the end
  of an object; objects live at the same time share no word.
\<close>

definition placed :: "(StackObjId \<Rightarrow> nat option) \<Rightarrow> nat \<Rightarrow> StackObj set \<Rightarrow> bool" where
  "placed out u P \<longleftrightarrow>
     (\<forall>a \<in> P. \<exists>off. out (so_id a) = Some off \<and> off + size_words a \<le> u \<and> (if size_words a = 0 then off = 0 else min_offset_words a \<le> off))
   \<and> (u = 0 \<or> (\<exists>a \<in> P. the (out (so_id a)) + size_words a = u))
   \<and> (\<forall>a \<in> P. \<forall>b \<in> P. a \<noteq> b \<and> overlap a b \<longrightarrow> entry_words (entry_of out a) \<inter> entry_words (entry_of out b) = {})"

definition pack_inv :: "nat \<Rightarrow> active_heap \<Rightarrow> free_map \<Rightarrow> nat \<Rightarrow> (StackObjId \<Rightarrow> nat option) \<Rightarrow> StackObj set \<Rightarrow> bool" where
  "pack_inv t active free u out P \<longleftrightarrow> placed out u P \<and> act_ok u active free \<and> sorted active
     \<and> set active \<subseteq> entry_of out ` P
     \<and> (\<forall>a \<in> P. size_words a \<noteq> 0 \<and> t < iv_end (interval a) \<longrightarrow> entry_of out a \<in> set active)
     \<and> (\<forall>a \<in> P. iv_start (interval a) \<le> t)"

lemma entry_of_other: "so_id a \<noteq> i \<Longrightarrow> entry_of (out(i \<mapsto> off)) a = entry_of out a"
  by (simp add: entry_of_def)

lemma pack_inv_release:
  assumes "pack_inv t active free u out P" and "t \<le> t'" and "u < u32_limit"
  shows "\<exists>active' free'. release_expired t' active free = Inr (active', free') \<and> pack_inv t' active' free' u out P"
proof -
  from assms release_expired_ok [of u active free t'] obtain free' where
    r: "release_expired t' active free = Inr (filter (\<lambda>(fin, _). t' < fin) active, free')"
      "act_ok u (filter (\<lambda>(fin, _). t' < fin) active) free'" by (auto simp: pack_inv_def)
  moreover have "sorted (filter (\<lambda>(fin, _). t' < fin) active)" using assms(1) by (auto simp: pack_inv_def intro: sorted_wrt_filter)
  ultimately have "pack_inv t' (filter (\<lambda>(fin, _). t' < fin) active) free' u out P"
    using assms(1,2) by (fastforce simp: pack_inv_def entry_of_def)
  with r(1) show ?thesis by blast
qed

lemma placed_insert:
  assumes "placed out u P" and new: "so_id ob \<notin> so_id ` P" and "u \<le> u'" "off + size_words ob \<le> u'" "u' \<le> max u (off + size_words ob)"
    and "if size_words ob = 0 then off = 0 else min_offset_words ob \<le> off"
    and d: "\<And>a. a \<in> P \<Longrightarrow> overlap a ob \<Longrightarrow> entry_words (entry_of out a) \<inter> words_of off (size_words ob) = {}"
  shows "placed (out(so_id ob \<mapsto> off)) u' (insert ob P)"
proof -
  let ?out = "out(so_id ob \<mapsto> off)"
  have eo: "entry_of ?out a = entry_of out a" "?out (so_id a) = out (so_id a)" if "a \<in> P" for a
    using that new entry_of_other [of a "so_id ob" out off] by (auto simp: image_iff)
  have en: "entry_words (entry_of ?out ob) = words_of off (size_words ob)" by (simp add: entry_of_def)
  have sym: "overlap a b \<longleftrightarrow> overlap b a" for a b by (auto simp: overlap_def)
  have "\<exists>off'. ?out (so_id a) = Some off' \<and> off' + size_words a \<le> u' \<and> (if size_words a = 0 then off' = 0 else min_offset_words a \<le> off')"
    if "a \<in> insert ob P" for a
  proof (cases "a = ob")
    case False
    with that have a: "a \<in> P" by simp
    with assms(1) obtain off' where "out (so_id a) = Some off'" "off' + size_words a \<le> u"
      "if size_words a = 0 then off' = 0 else min_offset_words a \<le> off'" unfolding placed_def by blast
    with eo(2) [OF a] assms(3) show ?thesis by (intro exI [of _ off']) auto
  qed (use assms(4,6) in simp)
  moreover have "u' = 0 \<or> (\<exists>a \<in> insert ob P. the (?out (so_id a)) + size_words a = u')"
  proof (cases "u' = off + size_words ob")
    case False
    with assms(3-5) have "u' = u" by simp
    moreover from assms(1) have "u = 0 \<or> (\<exists>a \<in> P. the (out (so_id a)) + size_words a = u)" by (simp add: placed_def)
    ultimately show ?thesis using eo(2) by auto
  qed simp
  moreover have "entry_words (entry_of ?out a) \<inter> entry_words (entry_of ?out b) = {}"
    if ab: "a \<in> insert ob P" "b \<in> insert ob P" "a \<noteq> b" "overlap a b" for a b
  proof -
    consider "a = ob" "b \<in> P" | "b = ob" "a \<in> P" | "a \<in> P" "b \<in> P" using ab by blast
    then show ?thesis
    proof cases
      case 1
      then show ?thesis using d [of b] ab(4) sym eo(1) en by auto
    next
      case 2
      then show ?thesis using d [of a] ab(4) eo(1) en by auto
    next
      case 3
      with assms(1) ab eo(1) show ?thesis by (simp add: placed_def)
    qed
  qed
  ultimately show ?thesis unfolding placed_def by blast
qed

text \<open>An object of no size gets offset 0; any other goes through the free map and joins the heap.\<close>

lemma pack_inv_empty:
  assumes "pack_inv t active free u out P" and "so_id ob \<notin> so_id ` P" and "size_words ob = 0" and "iv_start (interval ob) = t"
  shows "pack_inv t active free u (out(so_id ob \<mapsto> 0)) (insert ob P)"
proof -
  let ?out = "out(so_id ob \<mapsto> 0)"
  have eo: "entry_of ?out a = entry_of out a" if "a \<in> P" for a
    using that assms(2) entry_of_other [of a "so_id ob" out 0] by (auto simp: image_iff)
  have "placed ?out u (insert ob P)"
    using assms placed_insert [of out u P ob u 0] by (auto simp: pack_inv_def overlap_def)
  moreover have "set active \<subseteq> entry_of ?out ` insert ob P" using assms(1) eo unfolding pack_inv_def by (auto simp: image_iff)
  ultimately show ?thesis using assms eo unfolding pack_inv_def by auto
qed

lemma pack_inv_place:
  assumes inv: "pack_inv t active free u out P" and new: "so_id ob \<notin> so_id ` P" and sz: "0 < size_words ob"
    and t: "iv_start (interval ob) = t" and B: "max (min_offset_words ob) u + size_words ob < u32_limit"
  shows "\<exists>off free' u'. place_object free u (min_offset_words ob) (size_words ob) = Inr (off, free', u')
    \<and> pack_inv t (insort (iv_end (interval ob), off, size_words ob, so_id ob) active) free' u' (out(so_id ob \<mapsto> off)) (insert ob P)
    \<and> u' \<le> max (min_offset_words ob) u + size_words ob"
proof -
  have ok: "placed out u P" "act_ok u active free" "sorted active" "set active \<subseteq> entry_of out ` P"
    "\<And>a. a \<in> P \<Longrightarrow> size_words a \<noteq> 0 \<Longrightarrow> t < iv_end (interval a) \<Longrightarrow> entry_of out a \<in> set active"
    "\<And>a. a \<in> P \<Longrightarrow> iv_start (interval a) \<le> t" using inv by (auto simp: pack_inv_def)
  from ok(2) have free: "free_ok free" "below u free" by (simp_all add: act_ok_def)
  from place_object_ok [OF free sz B] obtain off free' u' where
    p: "place_object free u (min_offset_words ob) (size_words ob) = Inr (off, free', u')" "free_ok free'" "below u' free'"
      "min_offset_words ob \<le> off" "u \<le> u'" "off + size_words ob \<le> u'" "u' \<le> max u (off + size_words ob)"
      "u' \<le> max (min_offset_words ob) u + size_words ob" "words_of off (size_words ob) \<inter> free_words free' = {}"
      "free_words free' \<subseteq> free_words free" "words_of off (size_words ob) \<subseteq> free_words free \<or> u \<le> off" by blast
  let ?out = "out(so_id ob \<mapsto> off)" and ?e = "(iv_end (interval ob), off, size_words ob, so_id ob)"
  have eo: "entry_of ?out a = entry_of out a" if "a \<in> P" for a
    using that new entry_of_other [of a "so_id ob" out off] by (auto simp: image_iff)
  have en: "entry_of ?out ob = ?e" by (simp add: entry_of_def)
  have aw: "entry_words x \<inter> words_of off (size_words ob) = {}" if "x \<in> set active" for x
  proof -
    obtain fin o' s' i' where x: "x = (fin, o', s', i')" by (cases x)
    with that ok(2) have "o' + s' \<le> u" "words_of o' s' \<inter> free_words free = {}" by (auto simp: act_ok_def)
    then have "words_of off (size_words ob) \<subseteq> free_words free \<Longrightarrow> ?thesis" using x by auto
    moreover have "u \<le> off \<Longrightarrow> ?thesis" using x \<open>o' + s' \<le> u\<close> by (auto simp: words_of_def)
    ultimately show ?thesis using p(11) by blast
  qed
  have "?e \<notin> set active" using new ok(4) by (auto simp: entry_of_def image_iff)
  then have "act_ok u' (insort ?e active) free'"
    using ok(2) p(2,3,5,6,9,10) sz aw unfolding act_ok_def set_insort_key distinct_insort by (auto simp: Int_commute) fastforce+
  moreover have "placed ?out u' (insert ob P)"
  proof (rule placed_insert [OF ok(1) new p(5-7)])
    fix a assume a: "a \<in> P" "overlap a ob"
    with ok(5) t have "entry_of out a \<in> set active" by (simp add: overlap_def)
    then show "entry_words (entry_of out a) \<inter> words_of off (size_words ob) = {}" by (rule aw)
  qed (use p(4) sz in simp)
  moreover have "set (insort ?e active) \<subseteq> entry_of ?out ` insert ob P" using ok(4) eo en by (auto simp: set_insort_key image_iff)
  moreover have "sorted (insort ?e active)" using ok(3) by (simp add: sorted_insort)
  ultimately have "pack_inv t (insort ?e active) free' u' ?out (insert ob P)"
    using ok(5,6) eo en t by (auto simp: pack_inv_def set_insort_key)
  with p(1,8) show ?thesis by blast
qed

lemma pack_loop_ok:
  assumes "pack_inv t active free u out P" and "u < u32_limit"
    and "sorted (map (\<lambda>ob. iv_start (interval ob)) objs)" and "\<forall>ob \<in> set objs. t \<le> iv_start (interval ob) \<and> min_offset_words ob \<le> M"
    and "distinct (map so_id objs)" and "so_id ` set objs \<inter> so_id ` P = {}" and "max M u + sum_list (map size_words objs) < u32_limit"
  shows "\<exists>out' u'. pack_loop objs active free u out = Inr (out', u') \<and> placed out' u' (P \<union> set objs) \<and> u' \<le> max M u + sum_list (map size_words objs)"
  using assms
proof (induction objs arbitrary: t active free u out P)
  case Nil
  then show ?case by (simp add: pack_inv_def)
next
  case (Cons ob objs)
  let ?t = "iv_start (interval ob)"
  from pack_inv_release [OF Cons.prems(1) _ Cons.prems(2), of ?t] Cons.prems(4) obtain active1 free1 where
    1: "release_expired ?t active free = Inr (active1, free1)" "pack_inv ?t active1 free1 u out P" by auto
  have new: "so_id ob \<notin> so_id ` P" using Cons.prems(6) by auto
  have rest: "sorted (map (\<lambda>ob. iv_start (interval ob)) objs)" "\<forall>a \<in> set objs. ?t \<le> iv_start (interval a) \<and> min_offset_words a \<le> M"
    "distinct (map so_id objs)" "so_id ` set objs \<inter> so_id ` insert ob P = {}" using Cons.prems(3-6) by auto
  show ?case
  proof (cases "size_words ob = 0")
    case True
    from pack_inv_empty [OF 1(2) new True refl] have "pack_inv ?t active1 free1 u (out(so_id ob \<mapsto> 0)) (insert ob P)" .
    moreover have "max M u + sum_list (map size_words objs) < u32_limit" using Cons.prems(7) by simp
    ultimately obtain out' u' where
      "pack_loop objs active1 free1 u (out(so_id ob \<mapsto> 0)) = Inr (out', u')" "placed out' u' (insert ob P \<union> set objs)" "u' \<le> max M u + sum_list (map size_words objs)"
      using Cons.IH [OF _ Cons.prems(2) rest] by blast
    with 1(1) True show ?thesis by simp
  next
    case False
    then have sz: "0 < size_words ob" by simp
    have B: "max (min_offset_words ob) u + size_words ob < u32_limit"
      using Cons.prems(4,7) by (auto simp: max_def split: if_splits)
    from pack_inv_place [OF 1(2) new sz refl B] obtain off free' u' where
      2: "place_object free1 u (min_offset_words ob) (size_words ob) = Inr (off, free', u')"
        "pack_inv ?t (insort (iv_end (interval ob), off, size_words ob, so_id ob) active1) free' u' (out(so_id ob \<mapsto> off)) (insert ob P)"
        "u' \<le> max (min_offset_words ob) u + size_words ob" by blast
    have "max M u' + sum_list (map size_words objs) < u32_limit"
      using 2(3) Cons.prems(4,7) by (auto simp: max_def split: if_splits)
    moreover have "u' < u32_limit" using 2(3) B by linarith
    ultimately obtain out' u2 where
      "pack_loop objs (insort (iv_end (interval ob), off, size_words ob, so_id ob) active1) free' u' (out(so_id ob \<mapsto> off)) = Inr (out', u2)"
      "placed out' u2 (insert ob P \<union> set objs)" "u2 \<le> max M u' + sum_list (map size_words objs)" using Cons.IH [OF 2(2) _ rest] by blast
    moreover have "max M u' \<le> max M u + size_words ob" using 2(3) Cons.prems(4) by (auto simp: max_def split: if_splits)
    ultimately have "u2 \<le> max M u + sum_list (map size_words (ob # objs))" unfolding list.map sum_list.Cons by linarith
    with \<open>pack_loop objs _ _ _ _ = _\<close> \<open>placed out' u2 _\<close> 1(1) 2(1) False show ?thesis by simp
  qed
qed

text \<open>The packing of a list of objects.\<close>

lemma pack_objects_ok:
  assumes "distinct (map so_id objs)" and "\<forall>ob \<in> set objs. min_offset_words ob \<le> M" and "M + sum_list (map size_words objs) < u32_limit"
  shows "\<exists>out u. pack_objects objs = Inr (out, u) \<and> placed out u (set objs) \<and> u \<le> M + sum_list (map size_words objs)"
proof -
  let ?key = "\<lambda>ob. (iv_start (interval ob), iv_end (interval ob), so_id ob)"
  let ?objs = "sort_key ?key objs"
  have "sorted (map ?key ?objs)" by simp
  then have "sorted (map fst (map ?key ?objs))" by (rule sorted_map_mono) (auto simp: mono_on_def less_eq_prod_def)
  then have st: "sorted (map (\<lambda>ob. iv_start (interval ob)) ?objs)" by (simp add: comp_def)
  have "mset (map so_id ?objs) = mset (map so_id objs)" "mset (map size_words ?objs) = mset (map size_words objs)" by simp_all
  then have d: "distinct (map so_id ?objs)" "sum_list (map size_words ?objs) = sum_list (map size_words objs)"
    using assms(1) by (metis mset_eq_imp_distinct_iff, metis sum_mset_sum_list)
  have "pack_inv 0 [] [] 0 Map.empty {}" by (simp add: pack_inv_def placed_def act_ok_def below_def)
  from pack_loop_ok [OF this _ st _ d(1), of M] assms(2,3) d(2) obtain out u where
    "pack_loop ?objs [] [] 0 Map.empty = Inr (out, u)" "placed out u (set objs)" "u \<le> M + sum_list (map size_words objs)" by (auto simp: u32_limit_def)
  then show ?thesis by (simp add: pack_objects_def)
qed

text \<open>With raised bounds, for the objects of a function.\<close>

lemma raise_min_offset_simps [simp]:
  "so_id (raise_min_offset mins ob) = so_id ob" "size_words (raise_min_offset mins ob) = size_words ob"
  "interval (raise_min_offset mins ob) = interval ob"
  "min_offset_words (raise_min_offset mins ob) = max (case mins (so_id ob) of Some k \<Rightarrow> k | None \<Rightarrow> 0) (min_offset_words ob)"
  by (simp_all add: raise_min_offset_def split: option.split)

definition objects_fit :: "nat \<Rightarrow> StackObj list \<Rightarrow> bool" where
  "objects_fit M objs \<longleftrightarrow> distinct (map so_id objs) \<and> (\<forall>ob \<in> set objs. min_offset_words ob \<le> M)
     \<and> M + sum_list (map size_words objs) < u32_limit"

lemma pack_with_min_offsets_ok:
  assumes "objects_fit M (so_objects stack)" and "\<forall>i k. mins i = Some k \<longrightarrow> k \<le> M"
  shows "\<exists>out u. pack_objects_with_min_offsets stack mins = Inr (out, u) \<and> placed out u (set (map (raise_min_offset mins) (so_objects stack)))
    \<and> u \<le> M + sum_list (map size_words (so_objects stack))"
proof -
  have "distinct (map so_id (map (raise_min_offset mins) (so_objects stack)))"
    "sum_list (map size_words (map (raise_min_offset mins) (so_objects stack))) = sum_list (map size_words (so_objects stack))"
    using assms(1) by (simp_all add: objects_fit_def comp_def)
  moreover have "\<forall>ob \<in> set (map (raise_min_offset mins) (so_objects stack)). min_offset_words ob \<le> M"
    using assms by (auto simp: objects_fit_def split: option.split)
  ultimately show ?thesis using pack_objects_ok [of "map (raise_min_offset mins) (so_objects stack)" M] assms(1)
    by (simp add: pack_objects_with_min_offsets_def objects_fit_def)
qed

text \<open>What a packing promises, stated of the objects of the function.\<close>

lemma placed_raised:
  assumes "placed out u (set (map (raise_min_offset mins) objs))" and "distinct (map so_id objs)"
  shows "\<forall>ob \<in> set objs. \<exists>off. out (so_id ob) = Some off \<and> off + size_words ob \<le> u
      \<and> (size_words ob = 0 \<longrightarrow> off = 0) \<and> (size_words ob \<noteq> 0 \<longrightarrow> min_offset_words ob \<le> off \<and> (\<forall>k. mins (so_id ob) = Some k \<longrightarrow> k \<le> off))"
    "u = 0 \<or> (\<exists>ob \<in> set objs. the (out (so_id ob)) + size_words ob = u)"
    "\<forall>a \<in> set objs. \<forall>b \<in> set objs. a \<noteq> b \<and> overlap a b \<longrightarrow>
       words_of (the (out (so_id a))) (size_words a) \<inter> words_of (the (out (so_id b))) (size_words b) = {}"
proof -
  have p: "\<forall>a \<in> raise_min_offset mins ` set objs. \<exists>off. out (so_id a) = Some off \<and> off + size_words a \<le> u
      \<and> (if size_words a = 0 then off = 0 else min_offset_words a \<le> off)"
    "u = 0 \<or> (\<exists>a \<in> raise_min_offset mins ` set objs. the (out (so_id a)) + size_words a = u)"
    "\<forall>a \<in> raise_min_offset mins ` set objs. \<forall>b \<in> raise_min_offset mins ` set objs. a \<noteq> b \<and> overlap a b \<longrightarrow>
       entry_words (entry_of out a) \<inter> entry_words (entry_of out b) = {}" using assms(1) by (simp_all add: placed_def)
  show "\<forall>ob \<in> set objs. \<exists>off. out (so_id ob) = Some off \<and> off + size_words ob \<le> u
      \<and> (size_words ob = 0 \<longrightarrow> off = 0) \<and> (size_words ob \<noteq> 0 \<longrightarrow> min_offset_words ob \<le> off \<and> (\<forall>k. mins (so_id ob) = Some k \<longrightarrow> k \<le> off))"
  proof
    fix ob assume "ob \<in> set objs"
    with bspec [OF p(1) imageI] obtain off where "out (so_id ob) = Some off" "off + size_words ob \<le> u"
      "if size_words ob = 0 then off = 0 else max (case mins (so_id ob) of Some k \<Rightarrow> k | None \<Rightarrow> 0) (min_offset_words ob) \<le> off"
      by (metis raise_min_offset_simps(1,2,4))
    then show "\<exists>off. out (so_id ob) = Some off \<and> off + size_words ob \<le> u
      \<and> (size_words ob = 0 \<longrightarrow> off = 0) \<and> (size_words ob \<noteq> 0 \<longrightarrow> min_offset_words ob \<le> off \<and> (\<forall>k. mins (so_id ob) = Some k \<longrightarrow> k \<le> off))"
      by (intro exI [of _ off]) auto
  qed
  from p(2) show "u = 0 \<or> (\<exists>ob \<in> set objs. the (out (so_id ob)) + size_words ob = u)" by auto
  show "\<forall>a \<in> set objs. \<forall>b \<in> set objs. a \<noteq> b \<and> overlap a b \<longrightarrow>
       words_of (the (out (so_id a))) (size_words a) \<inter> words_of (the (out (so_id b))) (size_words b) = {}"
  proof (intro ballI impI)
    fix a b assume ab: "a \<in> set objs" "b \<in> set objs" "a \<noteq> b \<and> overlap a b"
    have "so_id a \<noteq> so_id b" using ab assms(2) by (auto simp: distinct_map dest: inj_onD)
    then have "raise_min_offset mins a \<noteq> raise_min_offset mins b" using raise_min_offset_simps(1) by metis
    with p(3) ab show "words_of (the (out (so_id a))) (size_words a) \<inter> words_of (the (out (so_id b))) (size_words b) = {}"
      by (simp add: overlap_def entry_of_def)
  qed
qed

text \<open>Such offsets pass the verifier.\<close>

lemma verify_extents_ok:
  assumes "\<forall>ob \<in> set objs. \<exists>off. out (so_id ob) = Some off \<and> off + size_words ob \<le> u" and "u < u32_limit"
  shows "verify_extents out u objs m = Inr (fold (\<lambda>ob. max (the (out (so_id ob)) + size_words ob)) objs m)"
  using assms(1)
proof (induction objs arbitrary: m)
  case (Cons ob objs)
  then obtain off where "out (so_id ob) = Some off" "off + size_words ob \<le> u" by auto
  with Cons assms(2) show ?case by (simp add: checked_add_def max.commute)
qed simp

lemma fold_max_eq:
  fixes f :: "'a \<Rightarrow> nat"
  assumes "\<forall>x \<in> set xs. f x \<le> u" and "m \<le> u" and "m = u \<or> (\<exists>x \<in> set xs. f x = u)"
  shows "fold (\<lambda>x. max (f x)) xs m = u"
  using assms by (induction xs arbitrary: m) (auto simp: max_def)

lemma verify_pairs_ok:
  assumes "\<forall>a \<in> set objs. \<forall>b \<in> set objs. a \<noteq> b \<longrightarrow> verify_pair out a b = Inr ()" and "distinct objs"
  shows "verify_pairs out objs = Inr ()"
  using assms
proof (induction objs)
  case (Cons a objs)
  have "verify_against out a os = Inr ()" if "\<forall>b \<in> set os. verify_pair out a b = Inr ()" for os
    using that by (induction os) auto
  moreover have "\<forall>b \<in> set objs. verify_pair out a b = Inr ()" using Cons.prems by auto
  ultimately show ?case using Cons by auto
qed simp

lemma verify_packing_ok:
  assumes p: "\<forall>ob \<in> set (so_objects stack). \<exists>off. out (so_id ob) = Some off \<and> off + size_words ob \<le> u"
    "u = 0 \<or> (\<exists>ob \<in> set (so_objects stack). the (out (so_id ob)) + size_words ob = u)"
    "\<forall>a \<in> set (so_objects stack). \<forall>b \<in> set (so_objects stack). a \<noteq> b \<and> overlap a b \<longrightarrow>
       words_of (the (out (so_id a))) (size_words a) \<inter> words_of (the (out (so_id b))) (size_words b) = {}"
    and "distinct (map so_id (so_objects stack))" and u: "u < u32_limit"
  shows "verify_object_packing stack out u = Inr ()"
proof -
  let ?objs = "so_objects stack"
  have "fold (\<lambda>ob. max (the (out (so_id ob)) + size_words ob)) ?objs 0 = u"
    using p(1,2) by (intro fold_max_eq) fastforce+
  moreover have "verify_pair out a b = Inr ()" if ab: "a \<in> set ?objs" "b \<in> set ?objs" "a \<noteq> b" for a b
  proof -
    from p(1) ab obtain o1 o2 where o: "out (so_id a) = Some o1" "o1 + size_words a \<le> u" "out (so_id b) = Some o2" "o2 + size_words b \<le> u" by blast
    with p(3) ab have "overlap a b \<Longrightarrow> o1 + size_words a \<le> o2 \<or> o2 + size_words b \<le> o1"
      using words_of_disjoint [of "size_words a" "size_words b" o1 o2] by (fastforce simp: overlap_def)
    with o u show ?thesis by (auto simp: verify_pair_def overlap_def checked_add_def)
  qed
  then have "verify_pairs out ?objs = Inr ()" using assms(4) by (intro verify_pairs_ok) (auto simp: distinct_map)
  ultimately show ?thesis using verify_extents_ok [OF p(1) u] by (simp add: verify_object_packing_def)
qed

section \<open>The closure of allocas\<close>

definition edge_rel :: "(InstId \<Rightarrow> InstId list option) \<Rightarrow> (InstId \<times> InstId) set" where
  "edge_rel edges = {(a, b). \<exists>bs. edges a = Some bs \<and> b \<in> set bs}"

lemma push_new_ok:
  "push_new cs (work, out) = (work', out') \<Longrightarrow> finite A \<Longrightarrow> set cs \<subseteq> A \<Longrightarrow> out \<subseteq> A \<Longrightarrow>
     out' = out \<union> set cs \<and> set work' = set work \<union> (set cs - out) \<and> length work' + card (A - out') = length work + card (A - out)"
proof (induction cs arbitrary: work out)
  case (Cons c cs)
  show ?case
  proof (cases "c \<in> out")
    case True
    with Cons show ?thesis by (auto simp: insert_absorb)
  next
    case False
    have "card (A - out) = Suc (card (A - insert c out))"
    proof -
      have "A - out = insert c (A - insert c out)" using False Cons.prems(3) by auto
      then show ?thesis using Cons.prems(2) by (metis DiffE card_insert_disjoint finite_Diff insertI1)
    qed
    moreover from False Cons.prems have "push_new cs (c # work, insert c out) = (work', out')" "finite A" "set cs \<subseteq> A" "insert c out \<subseteq> A" by simp_all
    then have "out' = insert c out \<union> set cs" "set work' = set (c # work) \<union> (set cs - insert c out)"
      "length work' + card (A - out') = length (c # work) + card (A - insert c out)" by (rule Cons.IH [THEN conjunct1], rule Cons.IH [THEN conjunct2, THEN conjunct1], rule Cons.IH [THEN conjunct2, THEN conjunct2])
    ultimately show ?thesis using False by auto
  qed
qed simp

text \<open>
  In the loop everything found is reachable, and what is found but not on the work list has been expanded and is known.
\<close>

lemma closure_loop_ok:
  assumes "finite A" and "out \<subseteq> A" and "\<And>a b. a \<in> A \<Longrightarrow> (a, b) \<in> edge_rel edges \<Longrightarrow> b \<in> A"
    and "set work \<subseteq> out" and "out \<subseteq> (edge_rel edges)\<^sup>* `` R" and "R \<subseteq> out"
    and "\<forall>a \<in> out - set work. a \<notin> unknown \<and> (\<forall>b. (a, b) \<in> edge_rel edges \<longrightarrow> b \<in> out)"
  shows "closure_loop edges unknown (work, out) =
    Some (if unknown \<inter> (edge_rel edges)\<^sup>* `` R = {} then Some ((edge_rel edges)\<^sup>* `` R) else None)"
  using assms(2,4-7)
proof (induction "length work + card (A - out)" arbitrary: work out rule: less_induct)
  case less
  show ?case
  proof (cases work)
    case Nil
    have "b \<in> out" if "(a, b) \<in> (edge_rel edges)\<^sup>*" "a \<in> R" for a b
      using that(1) by (induction rule: rtrancl_induct) (use less.prems(4,5) that(2) Nil in auto)
    then have "(edge_rel edges)\<^sup>* `` R = out" using less.prems(3) by blast
    moreover have "unknown \<inter> out = {}" using less.prems(5) Nil by auto
    ultimately show ?thesis using Nil by (subst closure_loop.simps) simp
  next
    case (Cons base work')
    then have b: "base \<in> out" "base \<in> (edge_rel edges)\<^sup>* `` R" using less.prems(2,3) by auto
    show ?thesis
    proof (cases "base \<in> unknown")
      case True
      with b Cons show ?thesis by (subst closure_loop.simps) auto
    next
      case False
      define succs where "succs = (case edges base of Some bs \<Rightarrow> bs | None \<Rightarrow> [])"
      obtain work2 out2 where p: "push_new succs (work', out) = (work2, out2)" by fastforce
      have step: "closure_loop edges unknown (work, out) = closure_loop edges unknown (work2, out2)"
        using Cons False p by (subst closure_loop.simps) (auto simp: succs_def split: option.splits)
      have nx: "b \<in> set succs \<longleftrightarrow> (base, b) \<in> edge_rel edges" for b by (cases "edges base") (auto simp: succs_def edge_rel_def)
      then have A: "set succs \<subseteq> A" using assms(3) b(1) less.prems(1) by blast
      from push_new_ok [OF p assms(1) A less.prems(1)] have
        q: "out2 = out \<union> set succs" "set work2 = set work' \<union> (set succs - out)" "length work2 + card (A - out2) = length work' + card (A - out)" by blast+
      have "closure_loop edges unknown (work2, out2) =
          Some (if unknown \<inter> (edge_rel edges)\<^sup>* `` R = {} then Some ((edge_rel edges)\<^sup>* `` R) else None)"
      proof (rule less.hyps)
        show "length work2 + card (A - out2) < length work + card (A - out)" using q(3) Cons by simp
        show "out2 \<subseteq> A" using q(1) A less.prems(1) by blast
        show "set work2 \<subseteq> out2" using q(1,2) less.prems(2) Cons by auto
        from b(2) obtain r where r: "r \<in> R" "(r, base) \<in> (edge_rel edges)\<^sup>*" by blast
        have "c \<in> (edge_rel edges)\<^sup>* `` R" if "c \<in> set succs" for c
          using r(1) rtrancl_into_rtrancl [OF r(2)] nx that by blast
        then show "out2 \<subseteq> (edge_rel edges)\<^sup>* `` R" using q(1) less.prems(3) by blast
        show "R \<subseteq> out2" using q(1) less.prems(4) by blast
        show "\<forall>a \<in> out2 - set work2. a \<notin> unknown \<and> (\<forall>b. (a, b) \<in> edge_rel edges \<longrightarrow> b \<in> out2)"
        proof
          fix a assume a: "a \<in> out2 - set work2"
          then consider "a = base" | "a \<in> out - set work" using q(1,2) Cons by auto
          then show "a \<notin> unknown \<and> (\<forall>b. (a, b) \<in> edge_rel edges \<longrightarrow> b \<in> out2)"
          proof cases
            case 1
            then show ?thesis using False nx q(1) by simp
          next
            case 2
            then show ?thesis using less.prems(5) q(1) by simp
          qed
        qed
      qed
      with step show ?thesis by simp
    qed
  qed
qed

lemma closure_allocas_ok:
  assumes "finite A" and "set roots \<subseteq> A" and "\<And>a b. a \<in> A \<Longrightarrow> (a, b) \<in> edge_rel edges \<Longrightarrow> b \<in> A"
  shows "closure_allocas roots edges unknown =
    Some (if unknown \<inter> (edge_rel edges)\<^sup>* `` set roots = {} then Some ((edge_rel edges)\<^sup>* `` set roots) else None)"
proof -
  obtain work out where p: "push_new roots ([], {}) = (work, out)" by fastforce
  from push_new_ok [OF p assms(1,2)] have q: "out = set roots" "set work = set roots" by auto
  have "set roots \<subseteq> (edge_rel edges)\<^sup>* `` set roots" by blast
  then show ?thesis unfolding closure_allocas_def p using assms q
    by (intro closure_loop_ok [where A = A]) auto
qed

section \<open>Positions\<close>

definition numbered :: "InstId list \<Rightarrow> positions \<Rightarrow> bool" where
  "numbered order pos \<longleftrightarrow> distinct order \<and> (\<forall>k < length order. pos (order ! k) = Some k) \<and> dom pos = set order"

lemma numbered_snoc: "numbered order pos \<Longrightarrow> i \<notin> set order \<Longrightarrow> numbered (order @ [i]) (pos(i \<mapsto> length order))"
  by (auto simp: numbered_def nth_append less_Suc_eq)

lemma number_insts_ok:
  "numbered order pos \<Longrightarrow> distinct (order @ js) \<Longrightarrow> length order + length js < u32_limit \<Longrightarrow>
     \<exists>pos'. number_insts js (order, pos, length order) = Inr (order @ js, pos', length (order @ js)) \<and> numbered (order @ js) pos'"
proof (induction js arbitrary: order pos)
  case (Cons i js)
  then have "numbered (order @ [i]) (pos(i \<mapsto> length order))" by (intro numbered_snoc) auto
  moreover have "distinct ((order @ [i]) @ js)" "length (order @ [i]) + length js < u32_limit" using Cons.prems by simp_all
  ultimately obtain pos' where
    "number_insts js (order @ [i], pos(i \<mapsto> length order), length (order @ [i])) = Inr ((order @ [i]) @ js, pos', length ((order @ [i]) @ js))"
    "numbered ((order @ [i]) @ js) pos'" using Cons.IH by blast
  with Cons.prems(3) show ?case by (simp add: checked_add_def)
qed simp

lemma number_blocks_ok:
  assumes "function_ok func bs ins"
  shows "set cs \<subseteq> set bs \<Longrightarrow> numbered order pos \<Longrightarrow> distinct (order @ concat (map ins cs)) \<Longrightarrow>
      length order + length (concat (map ins cs)) < u32_limit \<Longrightarrow>
    \<exists>pos'. number_blocks func cs (order, pos, length order) = Inr (order @ concat (map ins cs), pos') \<and> numbered (order @ concat (map ins cs)) pos'"
proof (induction cs arbitrary: order pos)
  case (Cons c cs)
  have "distinct (order @ ins c)" "length order + length (ins c) < u32_limit" using Cons.prems by auto
  from number_insts_ok [OF Cons.prems(2) this] obtain pos1 where
    1: "number_insts (ins c) (order, pos, length order) = Inr (order @ ins c, pos1, length (order @ ins c))" "numbered (order @ ins c) pos1" by blast
  have "insts_of func c = Inr (ins c)" using insts_of_ok [OF assms] Cons.prems(1) by simp
  with Cons.IH [OF _ 1(2)] Cons.prems 1(1) show ?case by auto
qed simp

lemma keep_new_ok: "distinct (keep_new bs seen)" "set (keep_new bs seen) = set bs - seen"
  by (induction bs arbitrary: seen) auto

lemma distinct_block_insts:
  assumes "function_ok func bs ins" and "distinct cs"
  shows "distinct (concat (map ins cs))"
proof -
  note v = function_okD(1) [OF assms(1)]
  have "distinct (ins b)" for b using layout_view_inst_links(4) [OF v, of b] by (cases "ins b") fastforce+
  moreover have "b = c" if "i \<in> set (ins b)" "i \<in> set (ins c)" for i b c
    using that layout_view_inst_links(3) [OF v] by (metis option.inject split_list)
  ultimately show ?thesis using assms(2) by (induction cs) (auto simp: disjoint_iff)
qed

section \<open>The intervals of spilled values\<close>

definition latest :: "nat \<Rightarrow> nat set \<Rightarrow> nat \<Rightarrow> bool" where
  "latest e S r \<longleftrightarrow> e \<le> r \<and> (\<forall>x \<in> S. x \<le> r) \<and> (r = e \<or> r \<in> S)"

lemma latest_trans: "latest e S r \<Longrightarrow> latest r T r' \<Longrightarrow> latest e (S \<union> T) r'"
  by (auto simp: latest_def)

lemma latest_max: "latest e {n} (max e n)" "latest e {} e"
  by (auto simp: latest_def max_def)

lemma extend_ends_ok:
  "v \<in> set spilled \<Longrightarrow> fin v = Some e \<Longrightarrow>
     \<exists>r. fold (\<lambda>(v, n). extend_end spilled n v) xs fin v = Some r \<and> latest e {n. (v, n) \<in> set xs} r"
proof (induction xs arbitrary: fin e)
  case (Cons x xs)
  obtain w n where x: "x = (w, n)" by (cases x)
  show ?case
  proof (cases "w = v")
    case True
    then have "extend_end spilled n w fin v = Some (max e n)" using Cons.prems by (simp add: extend_end_def)
    from Cons.IH [where fin = "extend_end spilled n w fin" and e = "max e n", OF Cons.prems(1) this] obtain r where
      "fold (\<lambda>(v, n). extend_end spilled n v) xs (extend_end spilled n w fin) v = Some r" "latest (max e n) {n. (v, n) \<in> set xs} r" by blast
    with latest_trans [OF latest_max(1)] have "latest e ({n} \<union> {n. (v, n) \<in> set xs}) r" by blast
    moreover have "{n'. (v, n') \<in> set (x # xs)} = {n} \<union> {n. (v, n) \<in> set xs}" using x True by auto
    ultimately show ?thesis using x True \<open>fold _ _ _ _ = _\<close> by simp
  next
    case False
    then have "extend_end spilled n w fin v = Some e" using Cons.prems by (simp add: extend_end_def)
    from Cons.IH [where fin = "extend_end spilled n w fin" and e = e, OF Cons.prems(1) this] x False show ?thesis by simp
  qed
qed (simp add: latest_max)

text \<open>The positions at which a value is used by an instruction or live after it.\<close>

definition use_positions :: "Function \<Rightarrow> positions \<Rightarrow> (BlockId \<Rightarrow> nat option) \<Rightarrow> (InstId \<Rightarrow> ValueId set) \<Rightarrow> ValueId \<Rightarrow> InstId \<Rightarrow> nat set" where
  "use_positions func pos ends live v i =
     {n. (v, n) \<in> set (spill_uses (d_insts (f_dfg func) ! i) (pos_or_0 pos i) ends)} \<union> (if v \<in> live i then {pos_or_0 pos i} else {})"

lemma spill_ends_ok:
  "\<forall>i \<in> set js. i < length (d_insts (f_dfg func)) \<Longrightarrow> \<forall>v \<in> set spilled. fin v \<noteq> None \<Longrightarrow>
     \<exists>fin'. spill_ends func pos ends live spilled js fin = Inr fin'
       \<and> (\<forall>v \<in> set spilled. \<exists>r. fin' v = Some r \<and> latest (the (fin v)) (\<Union>i \<in> set js. use_positions func pos ends live v i) r)"
proof (induction js arbitrary: fin)
  case (Cons i js)
  let ?p = "pos_or_0 pos i" and ?data = "d_insts (f_dfg func) ! i"
  let ?f1 = "fold (\<lambda>(v, n). extend_end spilled n v) (spill_uses ?data ?p ends) fin"
  let ?f2 = "\<lambda>v. if v \<in> live i \<and> v \<in> set spilled then map_option (\<lambda>e. max e ?p) (?f1 v) else ?f1 v"
  have f2: "\<exists>r. ?f2 v = Some r \<and> latest (the (fin v)) (use_positions func pos ends live v i) r" if v: "v \<in> set spilled" for v
  proof -
    from Cons.prems(2) v obtain e where e: "fin v = Some e" by blast
    from extend_ends_ok [where fin = fin and xs = "spill_uses ?data ?p ends", OF v e] obtain r where
      r: "?f1 v = Some r" "latest e {n. (v, n) \<in> set (spill_uses ?data ?p ends)} r" by blast
    show ?thesis using r e v latest_trans [OF r(2) latest_max(1), of ?p] by (auto simp: use_positions_def)
  qed
  then have "\<forall>v \<in> set spilled. ?f2 v \<noteq> None" by fastforce
  from Cons.IH [OF _ this] Cons.prems(1) obtain fin' where
    i: "spill_ends func pos ends live spilled js ?f2 = Inr fin'"
      "\<forall>v \<in> set spilled. \<exists>r. fin' v = Some r \<and> latest (the (?f2 v)) (\<Union>i \<in> set js. use_positions func pos ends live v i) r" by auto
  have "\<exists>r. fin' v = Some r \<and> latest (the (fin v)) (\<Union>i \<in> set (i # js). use_positions func pos ends live v i) r" if v: "v \<in> set spilled" for v
  proof -
    from f2 [OF v] obtain r where r: "?f2 v = Some r" "latest (the (fin v)) (use_positions func pos ends live v i) r" by blast
    with i(2) v obtain r' where "fin' v = Some r'" "latest r (\<Union>i \<in> set js. use_positions func pos ends live v i) r'" by fastforce
    with latest_trans [OF r(2)] show ?thesis by auto
  qed
  moreover have "get_inst (f_dfg func) i = Inr ?data" using Cons.prems(1) by (simp add: get_inst_def index_list_def)
  ultimately show ?case using i(1) by (intro exI [of _ fin']) (simp add: Let_def)
qed (auto simp: latest_max)

lemma spill_starts_ok:
  "\<forall>v \<in> set vs. v < length (d_values (f_dfg func)) \<Longrightarrow>
     \<exists>m. spill_starts func pos vs = Inr m \<and> (\<forall>v \<in> set vs. \<exists>n. spill_start func pos v = Inr n \<and> m v = Some n)"
proof (induction vs)
  case (Cons v vs)
  then obtain m where m: "spill_starts func pos vs = Inr m" "\<forall>v \<in> set vs. \<exists>n. spill_start func pos v = Inr n \<and> m v = Some n" by auto
  from Cons.prems have "get_value (f_dfg func) v = Inr (d_values (f_dfg func) ! v)" by (simp add: get_value_def index_list_def)
  then obtain n where "spill_start func pos v = Inr n"
    by (cases "d_values (f_dfg func) ! v") (simp_all add: spill_start_def value_inst_def)
  with m show ?case by auto
qed simp

text \<open>Instructions are numbered block by block, each once: the blocks of the given order first, then the others in
  layout order; the position of an instruction is its place in the order.\<close>
lemma inst_order_correct:
  assumes "function_ok func bs ins" and "set block_order \<subseteq> set bs" and "length (concat (map ins bs)) < u32_limit"
  shows "\<exists>order pos bs'. compute_inst_order func block_order = Inr (order, pos) \<and> order = concat (map ins bs')
    \<and> distinct bs' \<and> set bs' = set bs \<and> distinct order \<and> (\<forall>k < length order. pos (order ! k) = Some k)
    \<and> (\<forall>i. pos i \<noteq> None \<longleftrightarrow> (\<exists>b. i \<in> set (ins b)))"
proof -
  note v = function_okD(1) [OF assms(1)]
  let ?cs = "keep_new (block_order @ bs) {}"
  have cs: "distinct ?cs" "set ?cs = set bs" using keep_new_ok [of "block_order @ bs" "{}"] assms(2) by auto
  have d: "distinct (concat (map ins ?cs))" "distinct (concat (map ins bs))"
    using distinct_block_insts [OF assms(1)] cs(1) layout_view_distinct [OF v] by blast+
  have "set (concat (map ins ?cs)) = set (concat (map ins bs))" using cs(2) by simp
  then have "length (concat (map ins ?cs)) < u32_limit" using assms(3) distinct_card [OF d(1)] distinct_card [OF d(2)] by simp
  with number_blocks_ok [OF assms(1), of ?cs "[]" Map.empty] d(1) cs(2) obtain pos where
    p: "number_blocks func ?cs ([], Map.empty, 0) = Inr (concat (map ins ?cs), pos)" "numbered (concat (map ins ?cs)) pos"
    by (auto simp: numbered_def)
  have "(\<exists>b. i \<in> set (ins b)) \<longleftrightarrow> i \<in> set (concat (map ins ?cs))" for i
  proof -
    have "b \<in> set bs" if "i \<in> set (ins b)" for b using layout_view_insts(4) [OF v, of b] that by (cases "ins b") auto
    then show ?thesis using cs(2) by auto
  qed
  moreover have "pos i \<noteq> None \<longleftrightarrow> i \<in> set (concat (map ins ?cs))" for i using p(2) by (auto simp: numbered_def)
  ultimately show ?thesis using p cs iter_block_view [OF v]
    by (intro exI [of _ "concat (map ins ?cs)"] exI [of _ pos] exI [of _ ?cs]) (simp add: compute_inst_order_def numbered_def)
qed

lemma block_ends_ok:
  assumes "function_ok func bs ins"
  shows "set cs \<subseteq> set bs \<Longrightarrow> block_ends func pos cs out
    = Inr (\<lambda>b. if b \<in> set cs then Some (case last_opt (ins b) of Some i \<Rightarrow> pos_or_0 pos i | None \<Rightarrow> 0) else out b)"
proof (induction cs arbitrary: out)
  case (Cons c cs)
  then have "insts_of func c = Inr (ins c)" using insts_of_ok [OF assms] by simp
  with Cons show ?case by (simp add: fun_eq_iff)
qed simp

text \<open>What the intervals are meant to cover, over the order of the instructions: a value starts at the instruction that
  defines it, or at 0 if it is an argument or comes from nowhere; it is needed where it is live after an
  instruction, where an instruction that is no phi uses it, and for a phi at the last instruction of the
  block the argument comes from.\<close>

definition starts_at :: "Function \<Rightarrow> InstId list \<Rightarrow> ValueId \<Rightarrow> nat \<Rightarrow> bool" where
  "starts_at func order v n \<longleftrightarrow> (case d_values (f_dfg func) ! v of
     V_Inst i _ \<Rightarrow> if i \<in> set order then n < length order \<and> order ! n = i else n = 0
   | _ \<Rightarrow> n = 0)"

inductive needed_at :: "Function \<Rightarrow> (BlockId \<Rightarrow> InstId list) \<Rightarrow> InstId list \<Rightarrow> (InstId \<Rightarrow> ValueId set) \<Rightarrow> ValueId \<Rightarrow> nat \<Rightarrow> bool"
  for func ins order live v where
  live_after: "n < length order \<Longrightarrow> v \<in> live (order ! n) \<Longrightarrow> needed_at func ins order live v n"
| used: "n < length order \<Longrightarrow> (\<forall>args. d_insts (f_dfg func) ! (order ! n) \<noteq> Phi args) \<Longrightarrow>
    v \<in> set (values_of (d_insts (f_dfg func) ! (order ! n))) \<Longrightarrow> needed_at func ins order live v n"
| used_by_phi: "k < length order \<Longrightarrow> d_insts (f_dfg func) ! (order ! k) = Phi args \<Longrightarrow> (v, p) \<in> set args \<Longrightarrow>
    ins p \<noteq> [] \<Longrightarrow> n < length order \<Longrightarrow> order ! n = last (ins p) \<Longrightarrow> needed_at func ins order live v n"

lemma latest_zeros: "N \<subseteq> U \<Longrightarrow> U \<subseteq> insert 0 N \<Longrightarrow> latest s U r \<Longrightarrow> latest s N r"
  unfolding latest_def by (metis insert_iff le_zero_eq subsetD zero_le)

lemma spill_start_at:
  assumes "numbered order pos" and "v < length (d_values (f_dfg func))" and "spill_start func pos v = Inr n"
  shows "starts_at func order v n"
proof -
  have p: "pos_or_0 pos i = k" if "k < length order" "order ! k = i" for i k
    using assms(1) that by (auto simp: numbered_def pos_or_0_def)
  have z: "pos_or_0 pos i = 0" if "i \<notin> set order" for i
    using assms(1) that by (auto simp: numbered_def pos_or_0_def split: option.split)
  show ?thesis
  proof (cases "d_values (f_dfg func) ! v")
    case (V_Inst i ty)
    with assms(2,3) have n: "n = pos_or_0 pos i" by (simp add: spill_start_def value_inst_def get_value_def index_list_def)
    show ?thesis
    proof (cases "i \<in> set order")
      case True
      then obtain k where "k < length order" "order ! k = i" by (auto simp: in_set_conv_nth)
      with n p V_Inst True show ?thesis by (simp add: starts_at_def)
    qed (use n z V_Inst in \<open>simp add: starts_at_def\<close>)
  qed (use assms(2,3) in \<open>simp_all add: starts_at_def spill_start_def value_inst_def get_value_def index_list_def\<close>)
qed

lemma use_positions_needed:
  assumes ok: "function_ok func bs ins" and num: "numbered order pos" and ord: "set order = (\<Union>b \<in> set bs. set (ins b))"
    and ends: "ends = (\<lambda>b. if b \<in> set bs then Some (case last_opt (ins b) of Some i \<Rightarrow> pos_or_0 pos i | None \<Rightarrow> 0) else None)"
  shows "{n. needed_at func ins order live v n} \<subseteq> (\<Union>i \<in> set order. use_positions func pos ends live v i)"
    and "(\<Union>i \<in> set order. use_positions func pos ends live v i) \<subseteq> insert 0 {n. needed_at func ins order live v n}"
proof -
  have p: "pos_or_0 pos (order ! k) = k" if "k < length order" for k
    using num that by (simp add: numbered_def pos_or_0_def)
  have block: "b \<in> set bs" if "ins b \<noteq> []" for b
    using layout_view_insts(4) [OF function_okD(1) [OF ok], of b] that by (cases "ins b") auto
  show "{n. needed_at func ins order live v n} \<subseteq> (\<Union>i \<in> set order. use_positions func pos ends live v i)"
  proof
    fix n assume "n \<in> {n. needed_at func ins order live v n}"
    then have "needed_at func ins order live v n" by simp
    then show "n \<in> (\<Union>i \<in> set order. use_positions func pos ends live v i)"
    proof cases
      case live_after
      with p have "n \<in> use_positions func pos ends live v (order ! n)" by (simp add: use_positions_def)
      with live_after(1) show ?thesis by (meson UN_I nth_mem)
    next
      case used
      then have "spill_uses (d_insts (f_dfg func) ! (order ! n)) n ends = map (\<lambda>v. (v, n)) (values_of (d_insts (f_dfg func) ! (order ! n)))"
        by (cases "d_insts (f_dfg func) ! (order ! n)") simp_all
      with p [OF used(1)] used(3) have "n \<in> use_positions func pos ends live v (order ! n)" by (auto simp: use_positions_def)
      with used(1) show ?thesis by (meson UN_I nth_mem)
    next
      case (used_by_phi k args b)
      have "ends b = Some n" using used_by_phi(4-6) p [of n] block [of b] by (simp add: ends last_opt_def)
      with used_by_phi(2,3) have "n \<in> use_positions func pos ends live v (order ! k)"
        by (force simp: use_positions_def image_iff)
      with used_by_phi(1) show ?thesis by (meson UN_I nth_mem)
    qed
  qed
  show "(\<Union>i \<in> set order. use_positions func pos ends live v i) \<subseteq> insert 0 {n. needed_at func ins order live v n}"
  proof
    fix n assume "n \<in> (\<Union>i \<in> set order. use_positions func pos ends live v i)"
    then obtain k where k: "k < length order" "n \<in> use_positions func pos ends live v (order ! k)" by (auto simp: in_set_conv_nth)
    then consider (live) "v \<in> live (order ! k)" "n = k" | (use) "(v, n) \<in> set (spill_uses (d_insts (f_dfg func) ! (order ! k)) k ends)"
      using p [OF k(1)] by (auto simp: use_positions_def split: if_splits)
    then show "n \<in> insert 0 {n. needed_at func ins order live v n}"
    proof cases
      case live
      with k(1) show ?thesis by (simp add: needed_at.live_after)
    next
      case use
      show ?thesis
      proof (cases "\<exists>args. d_insts (f_dfg func) ! (order ! k) = Phi args")
        case False
        then have "spill_uses (d_insts (f_dfg func) ! (order ! k)) k ends = map (\<lambda>v. (v, k)) (values_of (d_insts (f_dfg func) ! (order ! k)))"
          by (cases "d_insts (f_dfg func) ! (order ! k)") simp_all
        with use False k(1) show ?thesis by (auto intro: needed_at.used)
      next
        case True
        then obtain args b where a: "d_insts (f_dfg func) ! (order ! k) = Phi args" "(v, b) \<in> set args"
          "n = (case ends b of Some n \<Rightarrow> n | None \<Rightarrow> 0)" using use by auto
        show ?thesis
        proof (cases "b \<in> set bs \<and> ins b \<noteq> []")
          case True
          then have "last (ins b) \<in> set order" unfolding ord using last_in_set by blast
          then obtain m where m: "m < length order" "order ! m = last (ins b)" by (auto simp: in_set_conv_nth)
          with a(3) True p [OF m(1)] have "n = m" by (simp add: ends last_opt_def)
          with needed_at.used_by_phi [where ins = ins and p = b and func = func and order = order and live = live] k(1) a(1,2) m True
          show ?thesis by simp
        next
          case False
          with a(3) show ?thesis by (auto simp: ends last_opt_def)
        qed
      qed
    qed
  qed
qed

lemma compute_spill_intervals_ok:
  assumes "\<forall>i \<in> set order. i < length (d_insts (f_dfg func))" and "\<forall>v \<in> set spilled. v < length (d_values (f_dfg func))"
  shows "\<exists>ivs. compute_spill_intervals func order pos ends live spilled = Inr ivs
    \<and> (\<forall>v. ivs v \<noteq> None \<longleftrightarrow> v \<in> set spilled)
    \<and> (\<forall>v iv. ivs v = Some iv \<longrightarrow> spill_start func pos v = Inr (iv_start iv)
        \<and> latest (iv_start iv) (\<Union>i \<in> set order. use_positions func pos ends live v i) (iv_end iv))"
proof -
  from spill_starts_ok [OF assms(2), of pos] obtain start where
    s: "spill_starts func pos spilled = Inr start" "\<forall>v \<in> set spilled. \<exists>n. spill_start func pos v = Inr n \<and> start v = Some n" by blast
  then have "\<forall>v \<in> set spilled. start v \<noteq> None" by fastforce
  from spill_ends_ok [OF assms(1) this, of pos ends live] obtain fin where
    f: "spill_ends func pos ends live spilled order start = Inr fin"
      "\<forall>v \<in> set spilled. \<exists>r. fin v = Some r \<and> latest (the (start v)) (\<Union>i \<in> set order. use_positions func pos ends live v i) r" by blast
  let ?ivs = "\<lambda>v. if v \<in> set spilled then (let s = case start v of Some n \<Rightarrow> n | None \<Rightarrow> 0 in
      Some \<lparr>iv_start = s, iv_end = (case fin v of Some n \<Rightarrow> n | None \<Rightarrow> s)\<rparr>) else None"
  have "compute_spill_intervals func order pos ends live spilled = Inr ?ivs" by (simp add: compute_spill_intervals_def s(1) f(1))
  moreover have "\<forall>v iv. ?ivs v = Some iv \<longrightarrow> spill_start func pos v = Inr (iv_start iv)
      \<and> latest (iv_start iv) (\<Union>i \<in> set order. use_positions func pos ends live v i) (iv_end iv)"
    using s(2) f(2) by (auto simp: Let_def split: if_splits option.splits)
  ultimately show ?thesis by (intro exI [of _ ?ivs]) (simp add: Let_def)
qed

section \<open>Properties\<close>

text \<open>C10: packing never panics while the bounds and sizes fit in \<open>u32\<close>, the packing it returns passes the verifier, no
  two objects that are live at the same time share a word, every object that is not empty starts at or above the bound asked for it,
  and the reported extent is the end of the last object.\<close>
theorem static_arena_packing:
  assumes "objects_fit M (so_objects stack)" and "\<forall>i k. mins i = Some k \<longrightarrow> k \<le> M"
  shows "\<exists>offs u. pack_objects_with_min_offsets stack mins = Inr (offs, u) \<and> verify_object_packing stack offs u = Inr ()
    \<and> (\<forall>ob \<in> set (so_objects stack). \<exists>off. offs (so_id ob) = Some off \<and> off + size_words ob \<le> u
        \<and> (size_words ob \<noteq> 0 \<longrightarrow> min_offset_words ob \<le> off \<and> (\<forall>k. mins (so_id ob) = Some k \<longrightarrow> k \<le> off)))
    \<and> (\<forall>a \<in> set (so_objects stack). \<forall>b \<in> set (so_objects stack). a \<noteq> b \<and> overlap a b \<longrightarrow>
         words_of (the (offs (so_id a))) (size_words a) \<inter> words_of (the (offs (so_id b))) (size_words b) = {})"
proof -
  have d: "distinct (map so_id (so_objects stack))" using assms(1) by (simp add: objects_fit_def)
  from pack_with_min_offsets_ok [OF assms] obtain offs u where
    p: "pack_objects_with_min_offsets stack mins = Inr (offs, u)" "placed offs u (set (map (raise_min_offset mins) (so_objects stack)))"
      "u < u32_limit" using assms(1) unfolding objects_fit_def by (blast intro: le_less_trans)
  note r = placed_raised [OF p(2) d]
  have w: "\<exists>off. offs (so_id ob) = Some off \<and> off + size_words ob \<le> u
        \<and> (size_words ob \<noteq> 0 \<longrightarrow> min_offset_words ob \<le> off \<and> (\<forall>k. mins (so_id ob) = Some k \<longrightarrow> k \<le> off))"
    if "ob \<in> set (so_objects stack)" for ob using bspec [OF r(1) that] by blast
  then have "\<forall>ob \<in> set (so_objects stack). \<exists>off. offs (so_id ob) = Some off \<and> off + size_words ob \<le> u" by blast
  from verify_packing_ok [OF this r(2,3) d p(3)] p(1) w r(3) show ?thesis
    by (intro exI [of _ offs] exI [of _ u]) simp
qed

text \<open>C19: on a well-formed function, with the order, the positions and the ends of the blocks that the code computes,
  every spilled value gets an interval. It begins at the instruction that defines the value and ends at the latest
  position from there on at which the value is needed: where it is live after an instruction or used by one, a
  phi using its argument at the end of the block it comes from.\<close>
theorem spill_intervals_correct:
  assumes "function_ok func bs ins" and "set block_order \<subseteq> set bs" and "length (concat (map ins bs)) < u32_limit"
    and "\<forall>v \<in> set spilled. v < length (d_values (f_dfg func))"
  shows "\<exists>order pos ends ivs. compute_inst_order func block_order = Inr (order, pos) \<and> compute_block_end_pos func pos = Inr ends
    \<and> compute_spill_intervals func order pos ends live spilled = Inr ivs
    \<and> distinct order \<and> set order = (\<Union>b \<in> set bs. set (ins b))
    \<and> (\<forall>v. ivs v \<noteq> None \<longleftrightarrow> v \<in> set spilled)
    \<and> (\<forall>v iv. ivs v = Some iv \<longrightarrow> starts_at func order v (iv_start iv)
        \<and> latest (iv_start iv) {n. needed_at func ins order live v n} (iv_end iv))"
proof -
  from inst_order_correct [OF assms(1-3)] obtain order pos bs' where
    o: "compute_inst_order func block_order = Inr (order, pos)" "order = concat (map ins bs')" "set bs' = set bs"
      "distinct order" "\<forall>k < length order. pos (order ! k) = Some k" "\<forall>i. pos i \<noteq> None \<longleftrightarrow> (\<exists>b. i \<in> set (ins b))" by blast
  note v = function_okD(1) [OF assms(1)]
  have ord: "set order = (\<Union>b \<in> set bs. set (ins b))" using o(2,3) by auto
  have blk: "b \<in> set bs" if "i \<in> set (ins b)" for i b using layout_view_insts(4) [OF v, of b] that by (cases "ins b") auto
  have "dom pos = set order" 
  proof (rule set_eqI)
    fix i
    have "i \<in> dom pos \<longleftrightarrow> (\<exists>b. i \<in> set (ins b))" using o(6) by (simp add: dom_def)
    then show "i \<in> dom pos \<longleftrightarrow> i \<in> set order" using blk unfolding ord by blast
  qed
  with o(4,5) have num: "numbered order pos" by (simp add: numbered_def)
  let ?ends = "\<lambda>b. if b \<in> set bs then Some (case last_opt (ins b) of Some i \<Rightarrow> pos_or_0 pos i | None \<Rightarrow> 0) else None"
  have e: "compute_block_end_pos func pos = Inr ?ends"
    using block_ends_ok [OF assms(1) order_refl, of pos Map.empty] iter_block_view [OF v] by (simp add: compute_block_end_pos_def)
  have "\<forall>i \<in> set order. i < length (d_insts (f_dfg func))" using ord function_okD(3) [OF assms(1)] by auto
  from compute_spill_intervals_ok [OF this assms(4), of pos ?ends live] obtain ivs where
    c: "compute_spill_intervals func order pos ?ends live spilled = Inr ivs" "\<forall>v. ivs v \<noteq> None \<longleftrightarrow> v \<in> set spilled"
      "\<forall>v iv. ivs v = Some iv \<longrightarrow> spill_start func pos v = Inr (iv_start iv)
        \<and> latest (iv_start iv) (\<Union>i \<in> set order. use_positions func pos ?ends live v i) (iv_end iv)" by blast
  have "starts_at func order v (iv_start iv) \<and> latest (iv_start iv) {n. needed_at func ins order live v n} (iv_end iv)"
    if "ivs v = Some iv" for v iv
  proof -
    from c(2) that have "v \<in> set spilled" by (metis option.simps(3))
    with c(3) that assms(4) spill_start_at [OF num] latest_zeros [OF use_positions_needed [OF assms(1) num ord refl]]
    show ?thesis by blast
  qed
  with o(1,4) e c(1,2) ord show ?thesis by blast
qed

text \<open>C20: the closure of a set of allocas under stored pointers ends, and is the set of allocas reachable from them, unless
  one of these holds a pointer of unknown origin, which is reported.\<close>
theorem closure_allocas_correct:
  assumes "finite A" and "set roots \<subseteq> A" and "\<And>a b. a \<in> A \<Longrightarrow> (a, b) \<in> edge_rel edges \<Longrightarrow> b \<in> A"
  shows "closure_allocas roots edges unknown =
    Some (if unknown \<inter> (edge_rel edges)\<^sup>* `` set roots = {} then Some ((edge_rel edges)\<^sup>* `` set roots) else None)"
  by (rule closure_allocas_ok [OF assms])

definition sample_stack :: FuncStackObjects where
  "sample_stack = \<lparr>so_objects =
      [\<lparr>so_id = 0, so_kind = SpillObj 4, size_words = 1, interval = \<lparr>iv_start = 0, iv_end = 5\<rparr>, min_offset_words = 0\<rparr>,
       \<lparr>so_id = 1, so_kind = AllocaObj 2, size_words = 3, interval = \<lparr>iv_start = 2, iv_end = 4\<rparr>, min_offset_words = 0\<rparr>,
       \<lparr>so_id = 2, so_kind = AllocaObj 7, size_words = 2, interval = \<lparr>iv_start = 4, iv_end = 9\<rparr>, min_offset_words = 0\<rparr>],
     obj_size_words = [0 \<mapsto> 1, 1 \<mapsto> 3, 2 \<mapsto> 2], alloca_ids = [2 \<mapsto> 1, 7 \<mapsto> 2], fs_spill_obj = (\<lambda>v. if v = 4 then Some 0 else None),
     call_sites = [], requires_dynamic_frame = False\<rparr>"

theorem static_arena_packing_witness:
  "\<exists>offs u. pack_objects_with_min_offsets sample_stack [1 \<mapsto> 2] = Inr (offs, u) \<and> verify_object_packing sample_stack offs u = Inr ()
     \<and> (\<exists>off. offs 1 = Some off \<and> 2 \<le> off)"
proof -
  have "objects_fit 2 (so_objects sample_stack)" by (simp add: objects_fit_def sample_stack_def u32_limit_def)
  moreover have "\<forall>i k. [1 \<mapsto> 2] i = Some k \<longrightarrow> k \<le> (2 :: nat)" by simp
  ultimately obtain offs u where p: "pack_objects_with_min_offsets sample_stack [1 \<mapsto> 2] = Inr (offs, u)" "verify_object_packing sample_stack offs u = Inr ()"
    "\<forall>ob \<in> set (so_objects sample_stack). \<exists>off. offs (so_id ob) = Some off \<and> off + size_words ob \<le> u
        \<and> (size_words ob \<noteq> 0 \<longrightarrow> min_offset_words ob \<le> off \<and> (\<forall>k. [1 \<mapsto> 2] (so_id ob) = Some k \<longrightarrow> k \<le> off))"
    using static_arena_packing [of 2 sample_stack "[1 \<mapsto> 2]"] by blast
  from p(3) have "\<exists>off. offs 1 = Some off \<and> 2 \<le> off" by (auto simp: sample_stack_def)
  with p(1,2) show ?thesis by blast
qed

theorem spill_intervals_correct_witness:
  "\<exists>order pos ends ivs iv. compute_inst_order sample_func [0, 1] = Inr (order, pos) \<and> compute_block_end_pos sample_func pos = Inr ends
     \<and> compute_spill_intervals sample_func order pos ends (\<lambda>i. if i = 0 then {1} else {}) [1] = Inr ivs
     \<and> ivs 1 = Some iv \<and> order ! iv_start iv = 0 \<and> (\<exists>n. order ! n = 2 \<and> n \<le> iv_end iv)"
proof -
  have len: "length (concat (map sample_insts [0, 1])) < u32_limit" by (simp add: sample_insts_def u32_limit_def)
  have vs: "\<forall>v \<in> set [1]. v < length (d_values (f_dfg sample_func))" by (simp add: sample_func_def)
  from spill_intervals_correct [OF sample_func_ok _ len vs, of "[0, 1]" "\<lambda>i. if i = 0 then {1} else {}"] obtain order pos ends ivs where
    c: "compute_inst_order sample_func [0, 1] = Inr (order, pos)" "compute_block_end_pos sample_func pos = Inr ends"
      "compute_spill_intervals sample_func order pos ends (\<lambda>i. if i = 0 then {1} else {}) [1] = Inr ivs"
      "set order = (\<Union>b \<in> set [0, 1]. set (sample_insts b))" "ivs 1 \<noteq> None"
      "\<forall>iv. ivs 1 = Some iv \<longrightarrow> starts_at sample_func order 1 (iv_start iv)
        \<and> latest (iv_start iv) {n. needed_at sample_func sample_insts order (\<lambda>i. if i = 0 then {1} else {}) 1 n} (iv_end iv)" by auto
  from c(5) obtain iv where iv: "ivs 1 = Some iv" by blast
  have o: "set order = {0, 1, 2}" unfolding c(4) by (auto simp: sample_insts_def)
  then have "2 \<in> set order" by simp
  then obtain n where n: "n < length order" "order ! n = 2" by (auto simp: in_set_conv_nth)
  then have "needed_at sample_func sample_insts order (\<lambda>i. if i = 0 then {1} else {}) 1 n"
    by (intro needed_at.used) (simp_all add: sample_func_def)
  with c(6) iv have "starts_at sample_func order 1 (iv_start iv)" "n \<le> iv_end iv" by (auto simp: latest_def)
  then have "order ! iv_start iv = 0" "n \<le> iv_end iv" using o by (auto simp: starts_at_def sample_func_def)
  with c(1-3) iv n(2) show ?thesis by blast
qed

theorem closure_allocas_correct_witness: "closure_allocas [0] [0 \<mapsto> [1], 1 \<mapsto> [0]] {7} = Some (Some {0, 1})"
proof -
  have e: "edge_rel [0 \<mapsto> [1], 1 \<mapsto> [0]] = {(0, 1), (1, 0)}" by (auto simp: edge_rel_def split: if_splits)
  have "b \<in> {0, 1}" if "(0, b) \<in> {(0, 1), (1, 0)}\<^sup>*" for b :: nat using that by (induction rule: rtrancl_induct) auto
  moreover have "(0, 1) \<in> {(0, 1), (1, 0 :: nat)}\<^sup>*" by auto
  ultimately have r: "{(0, 1), (1, 0)}\<^sup>* `` {0} = {0, 1 :: nat}" by auto
  have "closure_allocas [0] [0 \<mapsto> [1], 1 \<mapsto> [0]] {7} = Some (if {7} \<inter> (edge_rel [0 \<mapsto> [1], 1 \<mapsto> [0]])\<^sup>* `` set [0] = {}
      then Some ((edge_rel [0 \<mapsto> [1], 1 \<mapsto> [0]])\<^sup>* `` set [0]) else None)"
    by (rule closure_allocas_correct [of "{0, 1}"]) (auto simp: edge_rel_def split: if_splits)
  also have "(edge_rel [0 \<mapsto> [1], 1 \<mapsto> [0]])\<^sup>* `` set [0] = {0, 1}" using r by (simp only: e list.set)
  finally have "closure_allocas [0] [0 \<mapsto> [1], 1 \<mapsto> [0]] {7} = Some (if {7} \<inter> {0, 1} = ({} :: nat set) then Some {0, 1} else None)" .
  moreover have "{7} \<inter> {0, 1} = ({} :: nat set)" by simp
  ultimately show ?thesis by (simp only: simp_thms if_True)
qed

end
