(* ===== verification/MemoryPlan.thy ===== *)
theory MemoryPlan
  imports StaticArena
begin

text \<open>
  \<open>crates/codegen/src/isa/evm/memory_plan.rs\<close>: how the stack objects of a function survive the calls it makes. A call may overwrite
  the first words of the static arena; an object live across it is either laid out above those words or saved around the call. The choice
  is a greedy search over a cost estimate; it is shown to return and, whatever it chooses, to preserve every word that is live.
\<close>

section \<open>Call graph components and plans\<close>

type_synonym SccRef = nat

record SccInfo =
  is_cycle :: bool
  components :: "FuncRef set"

record CallGraphSccs =
  scc_map :: "FuncRef \<Rightarrow> SccRef"
  scc_store :: "SccInfo list"

definition scc_ref :: "CallGraphSccs \<Rightarrow> FuncRef \<Rightarrow> SccRef" where
  "scc_ref scc f = scc_map scc f"

definition scc_info :: "CallGraphSccs \<Rightarrow> SccRef \<Rightarrow> fault + SccInfo" where
  "scc_info scc r = index_list (scc_store scc) r"

definition WORD_BYTES :: nat where
  "WORD_BYTES = 32"

definition STATIC_BASE :: nat where
  "STATIC_BASE = 0xc0"

datatype CallPreserveChoice = Layout_Choice | Save_Choice | Forced_Save

record CallSavePlan =
  save_word_offsets :: "nat list"
  sp_has_return :: bool

record ArenaCostModel =
  w_mem :: nat
  w_save :: nat
  w_code :: nat
  w_stack :: nat
  max_save_words_per_call :: nat

definition cost_model_default :: ArenaCostModel where
  "cost_model_default = \<lparr>w_mem = 1, w_save = 1, w_code = 200, w_stack = 0, max_save_words_per_call = 128\<rparr>"

record CallMeta =
  cm_inst :: InstId
  callee_need_words :: nat
  cm_has_return :: bool
  is_internal_scc_call :: bool
  cm_arg_count :: nat
  cm_live_out_objs :: "StackObjId list"
  cm_must_layout_objs :: "StackObjId list"

definition eligible_for_layout :: "CallMeta \<Rightarrow> bool" where
  "eligible_for_layout c \<longleftrightarrow> \<not> is_internal_scc_call c \<and> callee_need_words c \<noteq> 0"

section \<open>Words to save\<close>

text \<open>\<open>binary_search\<close> in the sorted list of objects that must be laid out is membership.\<close>

fun save_words :: "FuncStackObjects \<Rightarrow> (StackObjId \<Rightarrow> nat option) \<Rightarrow> StackObjId list \<Rightarrow> StackObjId list \<Rightarrow> nat \<Rightarrow> fault + nat list" where
  "save_words stack offs [] must need = Inr []"
| "save_words stack offs (ob # obs) must need =
     (if ob \<in> set must then save_words stack offs obs must need
      else case offs ob of
        None \<Rightarrow> Inl (Panic ''missing offset for obj'')
      | Some off \<Rightarrow> (case obj_size_words stack ob of
          None \<Rightarrow> Inl (Panic ''missing size for obj'')
        | Some sz \<Rightarrow>
            if sz = 0 \<or> need \<le> off then save_words stack offs obs must need
            else rbind (checked_add u32_limit ''object end words overflow'' off sz) (\<lambda>fin.
                 rbind (save_words stack offs obs must need) (\<lambda>ws. Inr ([off..<min fin need] @ ws)))))"

definition compute_call_save_word_offsets ::
    "FuncStackObjects \<Rightarrow> (StackObjId \<Rightarrow> nat option) \<Rightarrow> StackObjId list \<Rightarrow> StackObjId list \<Rightarrow> nat \<Rightarrow> fault + nat list" where
  "compute_call_save_word_offsets stack offs live must need =
     (if need = 0 then Inr [] else rbind (save_words stack offs live must need) (\<lambda>ws. Inr (remdups_adj (sort ws))))"

section \<open>Cost\<close>

definition mem_expansion_gas :: "nat \<Rightarrow> fault + nat" where
  "mem_expansion_gas words = checked_add u64_limit ''mem gas overflow'' (3 * words) (words * words div 512)"

fun bit_len :: "nat \<Rightarrow> nat" where
  "bit_len n = (if n = 0 then 0 else Suc (bit_len (n div 2)))"

definition push_imm_len_u32 :: "nat \<Rightarrow> nat" where
  "push_imm_len_u32 imm = (if imm = 0 then 0 else (bit_len imm + 7) div 8)"

definition mem_load_abs_bytes :: "nat \<Rightarrow> nat" where
  "mem_load_abs_bytes addr = 2 + push_imm_len_u32 addr"

definition mem_store_abs_bytes :: "nat \<Rightarrow> nat" where
  "mem_store_abs_bytes addr = 2 + push_imm_len_u32 addr"

definition div_ceil :: "nat \<Rightarrow> nat \<Rightarrow> nat" where
  "div_ceil a b = (a + b - 1) div b"

definition save_gas :: "nat \<Rightarrow> nat \<Rightarrow> bool \<Rightarrow> fault + nat" where
  "save_gas k arg_count has_return =
     (let swap_chunks = if has_return \<and> k \<noteq> 0 then div_ceil k 16 else 0; msg = ''save gas overflow'' in
      rbind (checked_mul u64_limit msg k 12) (\<lambda>g.
      rbind (checked_mul u64_limit msg k arg_count) (\<lambda>s.
      rbind (checked_mul u64_limit msg s 3) (\<lambda>s.
      rbind (checked_add u64_limit msg g s) (\<lambda>g.
      rbind (checked_mul u64_limit msg swap_chunks 3) (\<lambda>t.
        checked_add u64_limit msg g t))))))"

fun save_offsets_bytes :: "nat list \<Rightarrow> nat \<Rightarrow> fault + nat" where
  "save_offsets_bytes [] bytes = Inr bytes"
| "save_offsets_bytes (w # ws) bytes =
     rbind (checked_mul u32_limit ''save addr overflow'' w WORD_BYTES) (\<lambda>b.
     rbind (checked_add u32_limit ''save addr overflow'' STATIC_BASE b) (\<lambda>addr.
     rbind (checked_add u64_limit ''save bytes overflow'' bytes (mem_load_abs_bytes addr)) (\<lambda>b.
     rbind (checked_add u64_limit ''save bytes overflow'' b (mem_store_abs_bytes addr)) (\<lambda>b.
       save_offsets_bytes ws b))))"

definition save_code_bytes :: "nat list \<Rightarrow> nat \<Rightarrow> bool \<Rightarrow> fault + nat" where
  "save_code_bytes save_offsets arg_count has_return =
     rbind (save_offsets_bytes save_offsets 0) (\<lambda>bytes.
     let k = length save_offsets; msg = ''swap bytes overflow'' in
     rbind (checked_mul u64_limit msg k arg_count) (\<lambda>s.
     rbind (checked_add u64_limit msg bytes s) (\<lambda>bytes.
       if has_return \<and> k \<noteq> 0 then checked_add u64_limit msg bytes (div_ceil k 16) else Inr bytes)))"

definition save_cost :: "ArenaCostModel \<Rightarrow> nat list \<Rightarrow> CallMeta \<Rightarrow> nat \<Rightarrow> fault + nat" where
  "save_cost cm save_offsets c cost =
     (let k = length save_offsets in
      rbind (save_gas k (cm_arg_count c) (cm_has_return c)) (\<lambda>gas.
      rbind (save_code_bytes save_offsets (cm_arg_count c) (cm_has_return c)) (\<lambda>bytes.
      rbind (checked_mul u64_limit ''save cost overflow'' (w_save cm) gas) (\<lambda>a.
      rbind (checked_add u64_limit ''total cost overflow'' cost a) (\<lambda>cost.
      rbind (checked_mul u64_limit ''code cost overflow'' (w_code cm) bytes) (\<lambda>b.
      rbind (checked_add u64_limit ''total cost overflow'' cost b) (\<lambda>cost.
      rbind (checked_mul u64_limit ''stack cost overflow'' (w_stack cm) k) (\<lambda>s.
        checked_add u64_limit ''total cost overflow'' cost s))))))))"

text \<open>The saturating addition of a quarter of the range, for a call that would save too much.\<close>

definition add_penalty :: "nat \<Rightarrow> nat" where
  "add_penalty cost = min (u64_limit - 1) (cost + (u64_limit - 1) div 4)"

fun calls_cost :: "FuncStackObjects \<Rightarrow> (StackObjId \<Rightarrow> nat option) \<Rightarrow> nat \<Rightarrow> InstId set \<Rightarrow> ArenaCostModel \<Rightarrow> CallMeta list \<Rightarrow> nat
    \<Rightarrow> fault + nat option" where
  "calls_cost stack offs words layout_calls cm [] cost = Inr (Some cost)"
| "calls_cost stack offs words layout_calls cm (c # cs) cost =
     (if \<not> (is_internal_scc_call c \<or> callee_need_words c \<noteq> 0 \<and> cm_inst c \<notin> layout_calls)
      then calls_cost stack offs words layout_calls cm cs cost
      else rbind (compute_call_save_word_offsets stack offs (cm_live_out_objs c) (cm_must_layout_objs c)
                    (if is_internal_scc_call c then words else callee_need_words c)) (\<lambda>save_offsets.
        if max_save_words_per_call cm < length save_offsets
        then if is_internal_scc_call c then Inr None
             else calls_cost stack offs words layout_calls cm cs (add_penalty cost)
        else rbind (save_cost cm save_offsets c cost) (calls_cost stack offs words layout_calls cm cs)))"

definition raise_min :: "nat \<Rightarrow> StackObjId \<Rightarrow> (StackObjId \<Rightarrow> nat option) \<Rightarrow> StackObjId \<Rightarrow> nat option" where
  "raise_min need ob mins = mins(ob \<mapsto> (case mins ob of Some m \<Rightarrow> max m need | None \<Rightarrow> need))"

fun call_min_offsets :: "InstId set \<Rightarrow> CallMeta list \<Rightarrow> (StackObjId \<Rightarrow> nat option) \<Rightarrow> StackObjId \<Rightarrow> nat option" where
  "call_min_offsets layout_calls [] mins = mins"
| "call_min_offsets layout_calls (c # cs) mins =
     (let mins = fold (raise_min (callee_need_words c)) (cm_must_layout_objs c) mins in
      call_min_offsets layout_calls cs
        (if \<not> eligible_for_layout c \<or> cm_inst c \<notin> layout_calls then mins
         else fold (raise_min (callee_need_words c)) (cm_live_out_objs c) mins))"

definition evaluate :: "FuncStackObjects \<Rightarrow> CallMeta list \<Rightarrow> InstId set \<Rightarrow> nat \<Rightarrow> nat \<Rightarrow> ArenaCostModel
    \<Rightarrow> fault + (nat \<times> FuncObjectLayout) option" where
  "evaluate stack calls layout_calls child_need_max cap cm =
     rbind (pack_objects_with_min_offsets stack (call_min_offsets layout_calls calls Map.empty)) (\<lambda>(offs, words).
     let need_for_cost = max (max words child_need_max) cap in
     rbind (checked_add u32_limit ''mem words overflow'' (STATIC_BASE div WORD_BYTES) need_for_cost) (\<lambda>mem_words.
     rbind (mem_expansion_gas mem_words) (\<lambda>gas.
     rbind (checked_mul u64_limit ''mem cost overflow'' (w_mem cm) gas) (\<lambda>cost.
     rbind (calls_cost stack offs words layout_calls cm calls cost) (\<lambda>r.
       Inr (case r of None \<Rightarrow> None | Some cost \<Rightarrow> Some (cost, build_func_object_layout stack offs words)))))))"

section \<open>The search\<close>

text \<open>The calls of a function that may clobber; \<open>None\<close> where the function needs a dynamic frame.\<close>

fun call_metas :: "CallGraphSccs \<Rightarrow> SccRef \<Rightarrow> bool \<Rightarrow> (FuncRef \<Rightarrow> nat option) \<Rightarrow> CallSiteLiveObjects list \<Rightarrow> fault + CallMeta list option" where
  "call_metas scc r cyclic need_words [] = Inr (Some [])"
| "call_metas scc r cyclic need_words (site # sites) =
     (let internal = cyclic \<and> scc_ref scc (cs_callee site) = r in
      rbind (if internal then Inr 0 else case need_words (cs_callee site) of
               None \<Rightarrow> Inl (Panic ''callee missing need_words'') | Some n \<Rightarrow> Inr n) (\<lambda>need.
        if \<not> internal \<and> need = 0 then call_metas scc r cyclic need_words sites
        else if internal \<and> must_layout_objs site \<noteq> [] then Inr None
        else rbind (call_metas scc r cyclic need_words sites) (\<lambda>rest. Inr (case rest of None \<Rightarrow> None | Some cs \<Rightarrow>
          Some (\<lparr>cm_inst = cs_inst site, callee_need_words = need, cm_has_return = cs_has_return site, is_internal_scc_call = internal,
                 cm_arg_count = cs_arg_count site, cm_live_out_objs = live_out_objs site, cm_must_layout_objs = must_layout_objs site\<rparr> # cs)))))"

definition child_need_max :: "CallMeta list \<Rightarrow> nat" where
  "child_need_max calls = fold max (map callee_need_words (filter (\<lambda>c. \<not> is_internal_scc_call c) calls)) 0"

record best_so_far =
  best_improvement :: nat
  best_call :: "InstId option"
  best_candidate :: "(nat \<times> FuncObjectLayout) option"

definition candidates_of :: "CallMeta list \<Rightarrow> InstId set \<Rightarrow> InstId list" where
  "candidates_of calls layout_calls = sort (map cm_inst (filter (\<lambda>c. eligible_for_layout c \<and> cm_inst c \<notin> layout_calls) calls))"

fun try_candidates :: "(InstId set \<Rightarrow> fault + (nat \<times> FuncObjectLayout) option) \<Rightarrow> InstId set \<Rightarrow> nat \<Rightarrow> InstId list \<Rightarrow> best_so_far
    \<Rightarrow> fault + best_so_far" where
  "try_candidates eval layout_calls best_cost [] b = Inr b"
| "try_candidates eval layout_calls best_cost (inst # is) b =
     rbind (eval (insert inst layout_calls)) (\<lambda>r. case r of
       None \<Rightarrow> try_candidates eval layout_calls best_cost is b
     | Some (cost, layout) \<Rightarrow>
         if best_cost \<le> cost then try_candidates eval layout_calls best_cost is b
         else let improvement = best_cost - cost in
           if best_improvement b < improvement \<or>
              improvement = best_improvement b \<and> (case best_call b of Some prev \<Rightarrow> inst < prev | None \<Rightarrow> False)
           then try_candidates eval layout_calls best_cost is
                  \<lparr>best_improvement = improvement, best_call = Some inst, best_candidate = Some (cost, layout)\<rparr>
           else try_candidates eval layout_calls best_cost is b)"

record search_state =
  layout_calls :: "InstId set"
  best_cost :: nat
  best_layout :: FuncObjectLayout
  promotion_order :: "InstId list"

partial_function (option) promote :: "(InstId set \<Rightarrow> fault + (nat \<times> FuncObjectLayout) option) \<Rightarrow> CallMeta list \<Rightarrow> search_state
    \<Rightarrow> (fault + search_state) option" where
  "promote eval calls s =
     (case try_candidates eval (layout_calls s) (best_cost s) (candidates_of calls (layout_calls s))
             \<lparr>best_improvement = 0, best_call = None, best_candidate = None\<rparr> of
        Inl e \<Rightarrow> Some (Inl e)
      | Inr b \<Rightarrow> (case (best_call b, best_candidate b) of
            (Some call, Some (cost, layout)) \<Rightarrow>
              promote eval calls \<lparr>layout_calls = insert call (layout_calls s), best_cost = cost, best_layout = layout,
                promotion_order = promotion_order s @ [call]\<rparr>
          | _ \<Rightarrow> Some (Inr s)))"

fun demote :: "(InstId set \<Rightarrow> fault + (nat \<times> FuncObjectLayout) option) \<Rightarrow> InstId list \<Rightarrow> search_state \<Rightarrow> fault + search_state" where
  "demote eval [] s = Inr s"
| "demote eval (inst # is) s =
     (if inst \<notin> layout_calls s then demote eval is s
      else rbind (eval (layout_calls s - {inst})) (\<lambda>r. case r of
        None \<Rightarrow> demote eval is s
      | Some (cost, layout) \<Rightarrow>
          if cost < best_cost s
          then demote eval is (s\<lparr>layout_calls := layout_calls s - {inst}, best_cost := cost, best_layout := layout\<rparr>)
          else demote eval is s))"

fun choices :: "InstId set \<Rightarrow> CallMeta list \<Rightarrow> (InstId \<Rightarrow> CallPreserveChoice option) \<Rightarrow> InstId \<Rightarrow> CallPreserveChoice option" where
  "choices lc [] ch = ch"
| "choices lc (c # cs) ch = choices lc cs
     (if is_internal_scc_call c then ch(cm_inst c \<mapsto> Forced_Save)
      else if callee_need_words c = 0 then ch
      else ch(cm_inst c \<mapsto> if cm_inst c \<in> lc then Layout_Choice else Save_Choice))"

definition solve_call_preservation_for_func :: "FuncStackObjects \<Rightarrow> (FuncRef \<Rightarrow> nat option) \<Rightarrow> CallGraphSccs \<Rightarrow> SccRef \<Rightarrow> bool
    \<Rightarrow> ArenaCostModel \<Rightarrow> nat \<Rightarrow> fault + ((InstId \<Rightarrow> CallPreserveChoice option) \<times> FuncObjectLayout) option" where
  "solve_call_preservation_for_func stack need_words scc r cyclic cm cap =
     (if requires_dynamic_frame stack then Inr None
      else rbind (call_metas scc r cyclic need_words (call_sites stack)) (\<lambda>metas. case metas of
        None \<Rightarrow> Inr None
      | Some calls \<Rightarrow>
          let eval = (\<lambda>lc. evaluate stack calls lc (child_need_max calls) cap cm) in
          rbind (eval {}) (\<lambda>first. case first of
            None \<Rightarrow> Inr None
          | Some (cost, layout) \<Rightarrow>
              rbind (ended (promote eval calls \<lparr>layout_calls = {}, best_cost = cost, best_layout = layout, promotion_order = []\<rparr>)) (\<lambda>s.
              rbind (demote eval (rev (promotion_order s)) s) (\<lambda>s.
                Inr (Some (choices (layout_calls s) calls Map.empty, best_layout s)))))))"

section \<open>Save plans\<close>

fun save_plans :: "FuncStackObjects \<Rightarrow> (StackObjId \<Rightarrow> nat option) \<Rightarrow> (InstId \<Rightarrow> CallPreserveChoice option) \<Rightarrow> (FuncRef \<Rightarrow> nat option)
    \<Rightarrow> CallGraphSccs \<Rightarrow> SccRef \<Rightarrow> bool \<Rightarrow> nat \<Rightarrow> CallSiteLiveObjects list \<Rightarrow> (InstId \<Rightarrow> CallSavePlan option) \<Rightarrow> fault + (InstId \<Rightarrow> CallSavePlan option)" where
  "save_plans stack offs ch need_words scc r cyclic need_scc [] out = Inr out"
| "save_plans stack offs ch need_words scc r cyclic need_scc (site # sites) out =
     (case ch (cs_inst site) of
        None \<Rightarrow> save_plans stack offs ch need_words scc r cyclic need_scc sites out
      | Some Layout_Choice \<Rightarrow> save_plans stack offs ch need_words scc r cyclic need_scc sites out
      | Some _ \<Rightarrow>
          rbind (if cyclic \<and> scc_ref scc (cs_callee site) = r then Inr need_scc
                 else case need_words (cs_callee site) of None \<Rightarrow> Inl (Panic ''callee missing need_words'') | Some n \<Rightarrow> Inr n) (\<lambda>need.
            if need = 0 then save_plans stack offs ch need_words scc r cyclic need_scc sites out
            else rbind (compute_call_save_word_offsets stack offs (live_out_objs site) (must_layout_objs site) need) (\<lambda>ws.
              if ws = [] then save_plans stack offs ch need_words scc r cyclic need_scc sites out
              else save_plans stack offs ch need_words scc r cyclic need_scc sites
                     (out(cs_inst site \<mapsto> \<lparr>save_word_offsets = ws, sp_has_return = cs_has_return site\<rparr>)))))"

definition finalize_call_save_plans_for_func :: "FuncStackObjects \<Rightarrow> (StackObjId \<Rightarrow> nat option) \<Rightarrow> (InstId \<Rightarrow> CallPreserveChoice option)
    \<Rightarrow> (FuncRef \<Rightarrow> nat option) \<Rightarrow> CallGraphSccs \<Rightarrow> SccRef \<Rightarrow> nat \<Rightarrow> fault + (InstId \<Rightarrow> CallSavePlan option)" where
  "finalize_call_save_plans_for_func stack offs ch need_words scc r need_scc =
     rbind (scc_info scc r) (\<lambda>info. save_plans stack offs ch need_words scc r (is_cycle info) need_scc (call_sites stack) Map.empty)"

section \<open>Plans of the functions of a component\<close>

record StaticArenaFuncPlan =
  st_need_words :: nat
  call_choice :: "InstId \<Rightarrow> CallPreserveChoice option"
  call_saves :: "InstId \<Rightarrow> CallSavePlan option"

datatype MemScheme = StaticArena StaticArenaFuncPlan | DynamicFrame

record FuncMemPlan =
  scheme :: MemScheme
  static_clobber_words :: nat
  mp_obj_offset_words :: "StackObjId \<Rightarrow> nat option"
  mp_alloca_offset_words :: "InstId \<Rightarrow> nat option"
  mp_spill_obj :: "ValueId \<Rightarrow> StackObjId option"
  mp_locals_words :: nat
  malloc_future_static_words :: "InstId \<Rightarrow> nat option"
  transient_mallocs :: "InstId set"
  escaping_mallocs :: "InstId set"

definition func_plan_of :: "MemScheme \<Rightarrow> nat \<Rightarrow> FuncObjectLayout \<Rightarrow> FuncMemPlan" where
  "func_plan_of sch clobber layout = \<lparr>scheme = sch, static_clobber_words = clobber, mp_obj_offset_words = obj_offset_words layout,
     mp_alloca_offset_words = alloca_offset_words layout, mp_spill_obj = fl_spill_obj layout, mp_locals_words = locals_words layout,
     malloc_future_static_words = Map.empty, transient_mallocs = {}, escaping_mallocs = {}\<rparr>"

type_synonym planned_map = "FuncRef \<Rightarrow> ((InstId \<Rightarrow> CallPreserveChoice option) \<times> FuncObjectLayout) option"

text \<open>One pass over the functions of a component under a bound on the extents; \<open>None\<close> when one needs a dynamic frame.\<close>

fun plan_pass :: "(FuncRef \<Rightarrow> fault + ((InstId \<Rightarrow> CallPreserveChoice option) \<times> FuncObjectLayout) option) \<Rightarrow> FuncRef list \<Rightarrow> planned_map \<Rightarrow> nat
    \<Rightarrow> fault + (planned_map \<times> nat) option" where
  "plan_pass solve [] planned max_locals = Inr (Some (planned, max_locals))"
| "plan_pass solve (f # fs) planned max_locals = rbind (solve f) (\<lambda>r. case r of
       None \<Rightarrow> Inr None
     | Some (ch, layout) \<Rightarrow> plan_pass solve fs (planned(f \<mapsto> (ch, layout))) (max max_locals (locals_words layout)))"

partial_function (option) cap_loop :: "(nat \<Rightarrow> fault + (planned_map \<times> nat) option) \<Rightarrow> nat \<Rightarrow> nat \<Rightarrow> (fault + (planned_map \<times> nat) option) option" where
  "cap_loop pass ext cap = (case pass cap of
       Inl e \<Rightarrow> Some (Inl e)
     | Inr None \<Rightarrow> Some (Inr None)
     | Inr (Some (planned, max_locals)) \<Rightarrow>
         let new_cap = max ext max_locals in
         if new_cap = cap then Some (Inr (Some (planned, cap))) else cap_loop pass ext new_cap)"

fun dynamic_plans :: "(FuncRef \<Rightarrow> FuncStackObjects) \<Rightarrow> nat \<Rightarrow> FuncRef list \<Rightarrow> (FuncRef \<Rightarrow> FuncMemPlan option) \<Rightarrow> fault + (FuncRef \<Rightarrow> FuncMemPlan option)" where
  "dynamic_plans stacks ext [] plans = Inr plans"
| "dynamic_plans stacks ext (f # fs) plans = rbind (pack_objects_with_min_offsets (stacks f) Map.empty) (\<lambda>(offs, words).
     dynamic_plans stacks ext fs (plans(f \<mapsto> func_plan_of DynamicFrame ext (build_func_object_layout (stacks f) offs words))))"

definition static_plan :: "(FuncRef \<Rightarrow> FuncStackObjects) \<Rightarrow> (FuncRef \<Rightarrow> nat option) \<Rightarrow> CallGraphSccs \<Rightarrow> SccRef \<Rightarrow> nat \<Rightarrow> FuncRef
    \<Rightarrow> (InstId \<Rightarrow> CallPreserveChoice option) \<times> FuncObjectLayout \<Rightarrow> fault + FuncMemPlan" where
  "static_plan stacks need_words scc r need_scc f p = (case p of (ch, layout) \<Rightarrow>
     rbind (finalize_call_save_plans_for_func (stacks f) (obj_offset_words layout) ch need_words scc r need_scc) (\<lambda>saves.
       Inr (func_plan_of (StaticArena \<lparr>st_need_words = need_scc, call_choice = ch, call_saves = saves\<rparr>) need_scc layout)))"

fun static_plans :: "(FuncRef \<Rightarrow> FuncStackObjects) \<Rightarrow> (FuncRef \<Rightarrow> nat option) \<Rightarrow> CallGraphSccs \<Rightarrow> SccRef \<Rightarrow> nat \<Rightarrow> planned_map \<Rightarrow> FuncRef list
    \<Rightarrow> (FuncRef \<Rightarrow> FuncMemPlan option) \<Rightarrow> fault + (FuncRef \<Rightarrow> FuncMemPlan option)" where
  "static_plans stacks need_words scc r need_scc planned [] plans = Inr plans"
| "static_plans stacks need_words scc r need_scc planned (f # fs) plans = (case planned f of
       None \<Rightarrow> Inl (Panic ''missing planned func'')
     | Some p \<Rightarrow> rbind (static_plan stacks need_words scc r need_scc f p) (\<lambda>plan.
         static_plans stacks need_words scc r need_scc planned fs (plans(f \<mapsto> plan))))"

fun callee_needs :: "CallGraphSccs \<Rightarrow> SccRef \<Rightarrow> (FuncRef \<Rightarrow> nat option) \<Rightarrow> FuncRef list \<Rightarrow> nat \<Rightarrow> fault + nat" where
  "callee_needs scc r need_words [] m = Inr m"
| "callee_needs scc r need_words (callee # cs) m =
     (if scc_ref scc callee = r then callee_needs scc r need_words cs m
      else case need_words callee of
        None \<Rightarrow> Inl (Panic ''callee missing need_words'')
      | Some need \<Rightarrow> callee_needs scc r need_words cs (max m need))"

fun ext_need :: "(FuncRef \<Rightarrow> FuncRef list) \<Rightarrow> CallGraphSccs \<Rightarrow> SccRef \<Rightarrow> (FuncRef \<Rightarrow> nat option) \<Rightarrow> FuncRef list \<Rightarrow> nat \<Rightarrow> fault + nat" where
  "ext_need callees scc r need_words [] m = Inr m"
| "ext_need callees scc r need_words (f # fs) m = rbind (callee_needs scc r need_words (callees f) m) (ext_need callees scc r need_words fs)"

record plan_state =
  ps_need_words :: "FuncRef \<Rightarrow> nat option"
  static_max_words :: nat
  ps_plans :: "FuncRef \<Rightarrow> FuncMemPlan option"

text \<open>The body of the loop over the components; \<open>fs\<close> are the functions of the component in ascending order.\<close>

definition plan_component :: "(FuncRef \<Rightarrow> FuncStackObjects) \<Rightarrow> (FuncRef \<Rightarrow> FuncRef list) \<Rightarrow> CallGraphSccs \<Rightarrow> ArenaCostModel \<Rightarrow> SccRef \<Rightarrow> FuncRef list
    \<Rightarrow> plan_state \<Rightarrow> fault + plan_state" where
  "plan_component stacks callees scc cm r fs ps =
     rbind (scc_info scc r) (\<lambda>info.
     rbind (ext_need callees scc r (ps_need_words ps) fs 0) (\<lambda>ext.
     rbind (ended (cap_loop (\<lambda>cap. plan_pass (\<lambda>f. solve_call_preservation_for_func (stacks f) (ps_need_words ps) scc r (is_cycle info) cm cap) fs Map.empty 0)
              ext ext)) (\<lambda>res. case res of
       None \<Rightarrow>
         let needs = fold (\<lambda>f m. m(f \<mapsto> ext)) fs (ps_need_words ps) in
         rbind (dynamic_plans stacks ext fs (ps_plans ps)) (\<lambda>plans. Inr (ps\<lparr>ps_need_words := needs, ps_plans := plans\<rparr>))
     | Some (planned, cap) \<Rightarrow>
         let needs = fold (\<lambda>f m. m(f \<mapsto> cap)) fs (ps_need_words ps);
             smax = fold (\<lambda>_ m. max m cap) fs (static_max_words ps)
         in rbind (static_plans stacks needs scc r cap planned fs (ps_plans ps)) (\<lambda>plans.
              Inr (ps\<lparr>ps_need_words := needs, static_max_words := smax, ps_plans := plans\<rparr>)))))"

section \<open>The verifier of a plan\<close>

definition verify_save_words :: "FuncStackObjects \<Rightarrow> (StackObjId \<Rightarrow> nat option) \<Rightarrow> nat \<Rightarrow> StackObjId list \<Rightarrow> nat list \<Rightarrow> StackObjId \<Rightarrow> fault + unit" where
  "verify_save_words stack offs need must saved ob =
     (if ob \<in> set must then Inr ()
      else case (offs ob, obj_size_words stack ob) of
        (Some off, Some sz) \<Rightarrow>
          if sz = 0 \<or> need \<le> off then Inr ()
          else rbind (checked_add u32_limit ''obj end words overflow'' off sz) (\<lambda>fin.
               assert_that (\<forall>w \<in> set [off..<min fin need]. w \<in> set saved) ''StaticArena save plan missing word'')
      | _ \<Rightarrow> Inl (Panic ''missing offset or size for obj''))"

fun verify_above :: "(StackObjId \<Rightarrow> nat option) \<Rightarrow> nat \<Rightarrow> string \<Rightarrow> StackObjId list \<Rightarrow> fault + unit" where
  "verify_above offs need msg [] = Inr ()"
| "verify_above offs need msg (ob # obs) = (case offs ob of
       None \<Rightarrow> Inl (Panic ''missing offset for obj'')
     | Some off \<Rightarrow> if off < need then Inl (Panic msg) else verify_above offs need msg obs)"

fun verify_saved :: "FuncStackObjects \<Rightarrow> (StackObjId \<Rightarrow> nat option) \<Rightarrow> nat \<Rightarrow> StackObjId list \<Rightarrow> nat list \<Rightarrow> StackObjId list \<Rightarrow> fault + unit" where
  "verify_saved stack offs need must saved [] = Inr ()"
| "verify_saved stack offs need must saved (ob # obs) =
     rbind (verify_save_words stack offs need must saved ob) (\<lambda>_. verify_saved stack offs need must saved obs)"

definition verify_call_site :: "FuncStackObjects \<Rightarrow> (FuncRef \<Rightarrow> nat option) \<Rightarrow> CallGraphSccs \<Rightarrow> SccRef \<Rightarrow> bool \<Rightarrow> StaticArenaFuncPlan
    \<Rightarrow> (StackObjId \<Rightarrow> nat option) \<Rightarrow> CallSiteLiveObjects \<Rightarrow> fault + unit" where
  "verify_call_site stack clobber scc r cyclic st offs site =
     (case clobber (cs_callee site) of
        None \<Rightarrow> Inl (Panic ''missing memory plan for callee'')
      | Some n \<Rightarrow>
          let internal = cyclic \<and> scc_ref scc (cs_callee site) = r;
              need = if internal then st_need_words st else n
          in if need = 0 \<and> \<not> internal then Inr ()
             else case call_choice st (cs_inst site) of
               None \<Rightarrow> Inl (Panic ''StaticArena missing call_choice'')
             | Some choice \<Rightarrow>
                 rbind (assert_that (internal \<longrightarrow> choice = Forced_Save) ''StaticArena internal SCC call is not ForcedSave'') (\<lambda>_.
                 rbind (if choice = Layout_Choice then verify_above offs need ''StaticArena Layout violates min-offset'' (live_out_objs site) else Inr ()) (\<lambda>_.
                 rbind (verify_above offs need ''StaticArena call violates must-layout'' (must_layout_objs site)) (\<lambda>_.
                   if choice = Layout_Choice then Inr ()
                   else verify_saved stack offs need (must_layout_objs site)
                          (case call_saves st (cs_inst site) of Some p \<Rightarrow> save_word_offsets p | None \<Rightarrow> []) (live_out_objs site)))))"

fun verify_call_sites :: "FuncStackObjects \<Rightarrow> (FuncRef \<Rightarrow> nat option) \<Rightarrow> CallGraphSccs \<Rightarrow> SccRef \<Rightarrow> bool \<Rightarrow> StaticArenaFuncPlan
    \<Rightarrow> (StackObjId \<Rightarrow> nat option) \<Rightarrow> CallSiteLiveObjects list \<Rightarrow> fault + unit" where
  "verify_call_sites stack clobber scc r cyclic st offs [] = Inr ()"
| "verify_call_sites stack clobber scc r cyclic st offs (site # sites) =
     rbind (verify_call_site stack clobber scc r cyclic st offs site) (\<lambda>_. verify_call_sites stack clobber scc r cyclic st offs sites)"

text \<open>The check of one function with a static plan; \<open>clobber\<close> is what the plans of the callees say they overwrite.\<close>

definition verify_static_func :: "FuncStackObjects \<Rightarrow> (FuncRef \<Rightarrow> nat option) \<Rightarrow> CallGraphSccs \<Rightarrow> SccRef \<Rightarrow> FuncMemPlan \<Rightarrow> fault + unit" where
  "verify_static_func stack clobber scc r plan = (case scheme plan of
       DynamicFrame \<Rightarrow> Inr ()
     | StaticArena st \<Rightarrow>
         rbind (scc_info scc r) (\<lambda>info.
         rbind (verify_object_packing stack (mp_obj_offset_words plan) (mp_locals_words plan)) (\<lambda>_.
         rbind (finalize_call_save_plans_for_func stack (mp_obj_offset_words plan) (call_choice st) clobber scc r (st_need_words st)) (\<lambda>expected.
         rbind (assert_that (card (dom expected) = card (dom (call_saves st))) ''StaticArena call_saves mismatch: number of entries'') (\<lambda>_.
         rbind (assert_that (list_all (\<lambda>site. case expected (cs_inst site) of
               None \<Rightarrow> True
             | Some save \<Rightarrow> call_saves st (cs_inst site) = Some save) (call_sites stack)) ''StaticArena call_saves mismatch'') (\<lambda>_.
           verify_call_sites stack clobber scc r (is_cycle info) st (mp_obj_offset_words plan) (call_sites stack)))))))"

section \<open>Bounds\<close>

text \<open>
  A function fits if its objects and the words its callees may overwrite fit in \<open>arena_limit\<close> words, so that every address
  fits in \<open>u32\<close>, if all its objects together do not exceed the most that is saved at a call, and if its call sites name only
  objects of its own.
\<close>

definition arena_limit :: nat where
  "arena_limit = 2 ^ 26"

definition site_ok :: "FuncStackObjects \<Rightarrow> CallSiteLiveObjects \<Rightarrow> bool" where
  "site_ok stack site \<longleftrightarrow> set (live_out_objs site) \<union> set (must_layout_objs site) \<subseteq> so_id ` set (so_objects stack) \<and> cs_arg_count site < 256"

definition stack_fits :: "FuncStackObjects \<Rightarrow> nat \<Rightarrow> bool" where
  "stack_fits stack M \<longleftrightarrow> objects_fit M (so_objects stack) \<and> M + sum_list (map size_words (so_objects stack)) \<le> arena_limit
     \<and> sum_list (map size_words (so_objects stack)) \<le> 128
     \<and> (\<forall>ob \<in> set (so_objects stack). obj_size_words stack (so_id ob) = Some (size_words ob))
     \<and> (\<forall>site \<in> set (call_sites stack). site_ok stack site)
     \<and> distinct (map cs_inst (call_sites stack)) \<and> length (call_sites stack) \<le> 2 ^ 20"

text \<open>Offsets of the objects below the extent.\<close>

definition offsets_ok :: "FuncStackObjects \<Rightarrow> (StackObjId \<Rightarrow> nat option) \<Rightarrow> nat \<Rightarrow> bool" where
  "offsets_ok stack offs u \<longleftrightarrow> (\<forall>ob \<in> set (so_objects stack). \<exists>off. offs (so_id ob) = Some off \<and> off + size_words ob \<le> u)"

text \<open>The words of an object of the stack.\<close>

definition obj_words :: "FuncStackObjects \<Rightarrow> (StackObjId \<Rightarrow> nat option) \<Rightarrow> StackObjId \<Rightarrow> nat set" where
  "obj_words stack offs i = words_of (the (offs i)) (the (obj_size_words stack i))"

lemma save_words_ok:
  assumes "stack_fits stack M" and "offsets_ok stack offs u" and "u < u32_limit"
  shows "set live \<subseteq> so_id ` set (so_objects stack) \<Longrightarrow>
    \<exists>ws. save_words stack offs live must need = Inr ws
      \<and> set ws = {w. w < need \<and> (\<exists>i \<in> set live - set must. w \<in> obj_words stack offs i)}"
proof (induction live)
  case (Cons i live)
  then obtain ws where ws: "save_words stack offs live must need = Inr ws"
    "set ws = {w. w < need \<and> (\<exists>i \<in> set live - set must. w \<in> obj_words stack offs i)}" by auto
  from Cons.prems obtain ob where ob: "ob \<in> set (so_objects stack)" "so_id ob = i" by auto
  with assms(2) obtain off where off: "offs i = Some off" "off + size_words ob \<le> u" unfolding offsets_ok_def by blast
  have sz: "obj_size_words stack i = Some (size_words ob)" using assms(1) ob unfolding stack_fits_def by blast
  have w: "obj_words stack offs i = {off..<off + size_words ob}" using off sz by (simp add: obj_words_def words_of_def)
  have e: "{w. w < need \<and> (\<exists>j \<in> set (i # live) - set must. w \<in> obj_words stack offs j)}
      = (if i \<in> set must then {} else {off..<min (off + size_words ob) need}) \<union> set ws" (is "?l = ?r")
  proof (cases "i \<in> set must")
    case True
    then have "set (i # live) - set must = set live - set must" by auto
    with True ws(2) show ?thesis by simp
  next
    case False
    then have "set (i # live) - set must = insert i (set live - set must)" by auto
    then have "?l = {w. w < need \<and> w \<in> obj_words stack offs i} \<union> set ws" unfolding ws(2) by (simp only:) blast
    also have "{w. w < need \<and> w \<in> obj_words stack offs i} = {off..<min (off + size_words ob) need}" using w by auto
    finally show ?thesis using False by simp
  qed
  have "\<exists>xs. save_words stack offs (i # live) must need = Inr xs \<and> set xs = ?r"
    using ws(1) off sz assms(3) by (auto simp: checked_add_def)
  with e show ?case by simp
qed simp

lemma obj_words_card:
  assumes "stack_fits stack M" and "S \<subseteq> (\<Union>i \<in> so_id ` set (so_objects stack). obj_words stack offs i)"
  shows "card S \<le> sum_list (map size_words (so_objects stack))" "finite S"
proof -
  have c: "card (obj_words stack offs (so_id ob)) = size_words ob" "finite (obj_words stack offs (so_id ob))" if "ob \<in> set (so_objects stack)" for ob
    using assms(1) that by (auto simp: stack_fits_def obj_words_def words_of_def)
  have f: "finite (\<Union>i \<in> so_id ` set (so_objects stack). obj_words stack offs i)" using c(2) by auto
  show "finite S" by (rule finite_subset [OF assms(2) f])
  have "card S \<le> card (\<Union>ob \<in> set (so_objects stack). obj_words stack offs (so_id ob))" using assms(2) f by (intro card_mono) auto
  also have "\<dots> \<le> (\<Sum>ob \<in> set (so_objects stack). card (obj_words stack offs (so_id ob)))" by (rule card_UN_le) simp
  also have "\<dots> = (\<Sum>ob \<in> set (so_objects stack). size_words ob)" using c(1) by simp
  also have "\<dots> = sum_list (map size_words (so_objects stack))"
    using assms(1) by (intro sum_list_distinct_conv_sum_set [symmetric]) (auto simp: stack_fits_def objects_fit_def distinct_map)
  finally show "card S \<le> sum_list (map size_words (so_objects stack))" .
qed

lemma remdups_adj_sort: "distinct (remdups_adj (sort (xs :: nat list)))" "set (remdups_adj (sort (xs :: nat list))) = set xs"
proof -
  have d: "sorted ys \<Longrightarrow> distinct_adj ys \<Longrightarrow> distinct ys" for ys :: "nat list"
  proof (induction ys)
    case (Cons a ys)
    show ?case
    proof (cases ys)
      case (Cons b zs)
      with Cons.prems have "a < b" "\<forall>x \<in> set zs. b \<le> x" by (auto simp: distinct_adj_Cons)
      with Cons Cons.IH Cons.prems show ?thesis by (auto simp: distinct_adj_Cons)
    qed simp
  qed simp
  show "distinct (remdups_adj (sort xs))" by (rule d) simp_all
qed simp

lemma call_save_offsets_ok:
  assumes "stack_fits stack M" and "offsets_ok stack offs u" and "u \<le> arena_limit" and "set live \<subseteq> so_id ` set (so_objects stack)"
  shows "\<exists>ws. compute_call_save_word_offsets stack offs live must need = Inr ws
      \<and> set ws = {w. w < need \<and> (\<exists>i \<in> set live - set must. w \<in> obj_words stack offs i)} \<and> length ws \<le> 128 \<and> (\<forall>w \<in> set ws. w < arena_limit)"
proof -
  have u: "u < u32_limit" using assms(3) by (simp add: arena_limit_def u32_limit_def)
  from save_words_ok [OF assms(1,2) u assms(4)] obtain ws where
    ws: "save_words stack offs live must need = Inr ws" "set ws = {w. w < need \<and> (\<exists>i \<in> set live - set must. w \<in> obj_words stack offs i)}" by blast
  let ?ws = "remdups_adj (sort ws)"
  have "length ?ws = card (set ws)" using distinct_card [OF remdups_adj_sort(1), of ws] remdups_adj_sort(2) [of ws] by simp
  moreover have "set ws \<subseteq> (\<Union>i \<in> so_id ` set (so_objects stack). obj_words stack offs i)"
  proof
    fix w assume "w \<in> set ws"
    then obtain i where "i \<in> set live" "w \<in> obj_words stack offs i" unfolding ws(2) by blast
    with assms(4) show "w \<in> (\<Union>i \<in> so_id ` set (so_objects stack). obj_words stack offs i)" by blast
  qed
  then have "card (set ws) \<le> sum_list (map size_words (so_objects stack))" by (rule obj_words_card(1) [OF assms(1)])
  moreover have "sum_list (map size_words (so_objects stack)) \<le> 128" using assms(1) by (simp add: stack_fits_def)
  ultimately have l: "length ?ws \<le> 128" by linarith
  have "w < arena_limit" if w: "w \<in> set ws" for w
  proof -
    from w ws(2) obtain i where i: "i \<in> set live" "w \<in> obj_words stack offs i" by auto
    with assms(4) obtain ob where ob: "ob \<in> set (so_objects stack)" "so_id ob = i" by auto
    with assms(2) obtain off where "offs i = Some off" "off + size_words ob \<le> u" unfolding offsets_ok_def by blast
    moreover have "obj_size_words stack i = Some (size_words ob)" using assms(1) ob unfolding stack_fits_def by blast
    ultimately show ?thesis using i(2) assms(3) by (simp add: obj_words_def words_of_def)
  qed
  with l ws show ?thesis by (cases "need = 0") (auto simp: compute_call_save_word_offsets_def remdups_adj_sort)
qed

section \<open>The cost does not overflow\<close>

declare bit_len.simps [simp del]

lemma bit_len_le: "n < 2 ^ k \<Longrightarrow> bit_len n \<le> k"
proof (induction k arbitrary: n)
  case (Suc k)
  then have "n div 2 < 2 ^ k" by auto
  from Suc.IH [OF this] show ?case by (subst bit_len.simps) simp
qed (simp add: bit_len.simps)

lemma push_imm_len_le: "n < u32_limit \<Longrightarrow> push_imm_len_u32 n \<le> 4"
  using bit_len_le [of n 32] by (auto simp: push_imm_len_u32_def u32_limit_def)

lemma save_offsets_bytes_ok:
  "\<forall>w \<in> set ws. w < arena_limit \<Longrightarrow> b + 12 * length ws < u64_limit \<Longrightarrow>
     \<exists>b'. save_offsets_bytes ws b = Inr b' \<and> b' \<le> b + 12 * length ws"
proof (induction ws arbitrary: b)
  case (Cons w ws)
  let ?a = "STATIC_BASE + w * WORD_BYTES"
  have a: "?a < u32_limit" using Cons.prems(1) by (simp add: STATIC_BASE_def WORD_BYTES_def arena_limit_def u32_limit_def)
  have "mem_load_abs_bytes ?a \<le> 6" "mem_store_abs_bytes ?a \<le> 6"
    using push_imm_len_le [OF a] by (simp_all add: mem_load_abs_bytes_def mem_store_abs_bytes_def)
  moreover from this Cons.IH [of "b + mem_load_abs_bytes ?a + mem_store_abs_bytes ?a"] Cons.prems obtain b' where
    "save_offsets_bytes ws (b + mem_load_abs_bytes ?a + mem_store_abs_bytes ?a) = Inr b'"
    "b' \<le> b + mem_load_abs_bytes ?a + mem_store_abs_bytes ?a + 12 * length ws" by auto
  ultimately show ?case using a Cons.prems(2) by (auto simp: checked_add_def checked_mul_def)
qed simp

lemma div_ceil_le: "div_ceil k 16 \<le> k"
  by (simp add: div_ceil_def)

lemma save_cost_ok:
  assumes "length ws \<le> 128" and "\<forall>w \<in> set ws. w < arena_limit" and "cm_arg_count c < 256" and "cost + 2 ^ 25 < u64_limit"
  shows "\<exists>cost'. save_cost cost_model_default ws c cost = Inr cost' \<and> cost' \<le> cost + 2 ^ 25"
proof -
  let ?k = "length ws" and ?a = "cm_arg_count c"
  have ka: "?k * ?a \<le> 128 * 256" using assms(1,3) by (intro mult_mono) auto
  have dc: "div_ceil ?k 16 \<le> 128" using div_ceil_le [of ?k] assms(1) by simp
  have "\<exists>g. save_gas ?k ?a (cm_has_return c) = Inr g \<and> g \<le> 2 ^ 17"
    using ka dc assms(1) by (auto simp: save_gas_def checked_mul_def checked_add_def u64_limit_def Let_def)
  then obtain g where g: "save_gas ?k ?a (cm_has_return c) = Inr g" "g \<le> 2 ^ 17" by blast
  have "0 + 12 * length ws < u64_limit" using assms(1) by (simp add: u64_limit_def)
  from save_offsets_bytes_ok [OF assms(2) this] obtain b where b: "save_offsets_bytes ws 0 = Inr b" "b \<le> 12 * 128" using assms(1) by auto
  have "\<exists>b. save_code_bytes ws ?a (cm_has_return c) = Inr b \<and> b \<le> 2 ^ 16"
    using b ka dc by (auto simp: save_code_bytes_def checked_mul_def checked_add_def u64_limit_def Let_def)
  then obtain b where b: "save_code_bytes ws ?a (cm_has_return c) = Inr b" "b \<le> 2 ^ 16" by blast
  show ?thesis using g b assms(4) by (auto simp: save_cost_def cost_model_default_def checked_mul_def checked_add_def u64_limit_def Let_def)
qed

definition metas_ok :: "FuncStackObjects \<Rightarrow> nat \<Rightarrow> CallMeta list \<Rightarrow> bool" where
  "metas_ok stack M calls \<longleftrightarrow> (\<forall>c \<in> set calls. set (cm_live_out_objs c) \<union> set (cm_must_layout_objs c) \<subseteq> so_id ` set (so_objects stack)
     \<and> cm_arg_count c < 256 \<and> callee_need_words c \<le> M) \<and> distinct (map cm_inst calls) \<and> length calls \<le> 2 ^ 20"

lemma calls_cost_ok:
  assumes "stack_fits stack M" and "offsets_ok stack offs u" and "u \<le> arena_limit"
  shows "\<forall>c \<in> set calls. set (cm_live_out_objs c) \<union> set (cm_must_layout_objs c) \<subseteq> so_id ` set (so_objects stack) \<and> cm_arg_count c < 256 \<Longrightarrow>
    cost + length calls * 2 ^ 25 < u64_limit \<Longrightarrow>
    \<exists>cost'. calls_cost stack offs words lc cost_model_default calls cost = Inr (Some cost') \<and> cost' \<le> cost + length calls * 2 ^ 25"
proof (induction calls arbitrary: cost)
  case (Cons c cs)
  let ?need = "if is_internal_scc_call c then words else callee_need_words c"
  from Cons.prems call_save_offsets_ok [OF assms, of "cm_live_out_objs c" "cm_must_layout_objs c" ?need] obtain ws where
    ws: "compute_call_save_word_offsets stack offs (cm_live_out_objs c) (cm_must_layout_objs c) ?need = Inr ws"
      "length ws \<le> 128" "\<forall>w \<in> set ws. w < arena_limit" by auto
  from Cons.prems save_cost_ok [OF ws(2,3), of c cost] obtain cost1 where
    1: "save_cost cost_model_default ws c cost = Inr cost1" "cost1 \<le> cost + 2 ^ 25" by auto
  have "\<not> max_save_words_per_call cost_model_default < length ws" using ws(2) by (simp add: cost_model_default_def)
  with ws(1) 1(1) Cons.IH [of cost] Cons.IH [of cost1] 1(2) Cons.prems show ?case by auto
qed simp

section \<open>What a layout guarantees\<close>

definition at_least :: "(StackObjId \<Rightarrow> nat option) \<Rightarrow> StackObjId \<Rightarrow> nat \<Rightarrow> bool" where
  "at_least mins i n \<longleftrightarrow> (\<exists>m. mins i = Some m \<and> n \<le> m)"

definition bounded_by :: "nat \<Rightarrow> (StackObjId \<Rightarrow> nat option) \<Rightarrow> bool" where
  "bounded_by M mins \<longleftrightarrow> (\<forall>i k. mins i = Some k \<longrightarrow> k \<le> M)"

lemma raise_min_ok:
  "at_least (raise_min n ob mins) ob n" "at_least mins i k \<Longrightarrow> at_least (raise_min n ob mins) i k"
  "bounded_by M mins \<Longrightarrow> n \<le> M \<Longrightarrow> bounded_by M (raise_min n ob mins)"
  by (auto simp: at_least_def bounded_by_def raise_min_def split: option.split)

lemma fold_raise_min_ok:
  "at_least mins i k \<Longrightarrow> at_least (fold (raise_min n) obs mins) i k"
  "bounded_by M mins \<Longrightarrow> n \<le> M \<Longrightarrow> bounded_by M (fold (raise_min n) obs mins)"
  "ob \<in> set obs \<Longrightarrow> at_least (fold (raise_min n) obs mins) ob n"
proof -
  have keep: "at_least mins i k \<Longrightarrow> at_least (fold (raise_min n) obs mins) i k" for mins obs i k
    by (induction obs arbitrary: mins) (simp_all add: raise_min_ok)
  show "at_least mins i k \<Longrightarrow> at_least (fold (raise_min n) obs mins) i k" by (rule keep)
  show "bounded_by M mins \<Longrightarrow> n \<le> M \<Longrightarrow> bounded_by M (fold (raise_min n) obs mins)"
    by (induction obs arbitrary: mins) (simp_all add: raise_min_ok)
  show "ob \<in> set obs \<Longrightarrow> at_least (fold (raise_min n) obs mins) ob n"
    by (induction obs arbitrary: mins) (auto simp: raise_min_ok keep)
qed

lemma call_min_offsets_keep:
  "at_least mins i k \<Longrightarrow> at_least (call_min_offsets lc calls mins) i k"
  by (induction calls arbitrary: mins) (simp_all add: Let_def fold_raise_min_ok)

lemma call_min_offsets_ok:
  "c \<in> set calls \<Longrightarrow> i \<in> set (cm_must_layout_objs c) \<Longrightarrow> at_least (call_min_offsets lc calls mins) i (callee_need_words c)"
  "c \<in> set calls \<Longrightarrow> eligible_for_layout c \<Longrightarrow> cm_inst c \<in> lc \<Longrightarrow> i \<in> set (cm_live_out_objs c) \<Longrightarrow>
     at_least (call_min_offsets lc calls mins) i (callee_need_words c)"
  "bounded_by M mins \<Longrightarrow> \<forall>c \<in> set calls. callee_need_words c \<le> M \<Longrightarrow> bounded_by M (call_min_offsets lc calls mins)"
proof -
  show "c \<in> set calls \<Longrightarrow> i \<in> set (cm_must_layout_objs c) \<Longrightarrow> at_least (call_min_offsets lc calls mins) i (callee_need_words c)"
  proof (induction calls arbitrary: mins)
    case (Cons a calls)
    show ?case
    proof (cases "c = a")
      case True
      then have "at_least (fold (raise_min (callee_need_words a)) (cm_must_layout_objs a) mins) i (callee_need_words c)"
        using Cons.prems(2) by (simp add: fold_raise_min_ok)
      then show ?thesis by (simp add: Let_def fold_raise_min_ok call_min_offsets_keep)
    qed (use Cons in \<open>simp add: Let_def\<close>)
  qed simp
  show "c \<in> set calls \<Longrightarrow> eligible_for_layout c \<Longrightarrow> cm_inst c \<in> lc \<Longrightarrow> i \<in> set (cm_live_out_objs c) \<Longrightarrow>
     at_least (call_min_offsets lc calls mins) i (callee_need_words c)"
  proof (induction calls arbitrary: mins)
    case (Cons a calls)
    show ?case
    proof (cases "c = a")
      case True
      then show ?thesis using Cons.prems by (simp add: Let_def fold_raise_min_ok call_min_offsets_keep)
    qed (use Cons in \<open>simp add: Let_def\<close>)
  qed simp
  show "bounded_by M mins \<Longrightarrow> \<forall>c \<in> set calls. callee_need_words c \<le> M \<Longrightarrow> bounded_by M (call_min_offsets lc calls mins)"
    by (induction calls arbitrary: mins) (simp_all add: Let_def fold_raise_min_ok)
qed

definition sized :: "FuncStackObjects \<Rightarrow> StackObjId \<Rightarrow> bool" where
  "sized stack i \<longleftrightarrow> obj_size_words stack i \<noteq> Some 0"

definition good_layout :: "FuncStackObjects \<Rightarrow> CallMeta list \<Rightarrow> InstId set \<Rightarrow> FuncObjectLayout \<Rightarrow> bool" where
  "good_layout stack calls lc layout \<longleftrightarrow>
     offsets_ok stack (obj_offset_words layout) (locals_words layout) \<and> locals_words layout \<le> arena_limit
   \<and> verify_object_packing stack (obj_offset_words layout) (locals_words layout) = Inr ()
   \<and> (\<forall>i \<in> so_id ` set (so_objects stack). \<not> sized stack i \<longrightarrow> obj_offset_words layout i = Some 0)
   \<and> (\<forall>c \<in> set calls. \<forall>i. i \<in> set (cm_must_layout_objs c) \<or> eligible_for_layout c \<and> cm_inst c \<in> lc \<and> i \<in> set (cm_live_out_objs c)
        \<longrightarrow> sized stack i \<longrightarrow> callee_need_words c \<le> the (obj_offset_words layout i))"

lemma gas_bound: "(w :: nat) < 2 ^ 27 \<Longrightarrow> 3 * w + w * w div 512 < 2 ^ 60"
proof -
  assume w: "w < 2 ^ 27"
  then have "w * w \<le> 2 ^ 27 * 2 ^ 27" by (intro mult_mono) auto
  from div_le_mono [OF this, of 512] w show ?thesis by simp
qed

lemma evaluate_ok:
  assumes "stack_fits stack M" and "metas_ok stack M calls" and "cn \<le> M" and "cap \<le> arena_limit"
  shows "\<exists>cost layout. evaluate stack calls lc cn cap cost_model_default = Inr (Some (cost, layout)) \<and> good_layout stack calls lc layout"
proof -
  let ?mins = "call_min_offsets lc calls Map.empty"
  have fit: "objects_fit M (so_objects stack)" "M + sum_list (map size_words (so_objects stack)) \<le> arena_limit"
    using assms(1) by (simp_all add: stack_fits_def)
  have d: "distinct (map so_id (so_objects stack))" using fit(1) by (simp add: objects_fit_def)
  have "bounded_by M ?mins" using assms(2) by (intro call_min_offsets_ok(3)) (auto simp: bounded_by_def metas_ok_def)
  then have "\<forall>i k. ?mins i = Some k \<longrightarrow> k \<le> M" by (simp add: bounded_by_def)
  from pack_with_min_offsets_ok [OF fit(1) this] obtain offs u where
    p: "pack_objects_with_min_offsets stack ?mins = Inr (offs, u)" "placed offs u (set (map (raise_min_offset ?mins) (so_objects stack)))"
      "u \<le> M + sum_list (map size_words (so_objects stack))" by blast
  note pl = placed_raised [OF p(2) d]
  have u: "u \<le> arena_limit" using p(3) fit(2) by simp
  have oo: "offsets_ok stack offs u" using pl(1) unfolding offsets_ok_def by blast
  have ver: "verify_object_packing stack offs u = Inr ()"
    using pl oo u by (intro verify_packing_ok [OF _ pl(2,3) d]) (auto simp: offsets_ok_def arena_limit_def u32_limit_def)
  let ?need = "max (max u cn) cap"
  have need: "?need \<le> arena_limit" using u assms(3,4) fit(2) by auto
  let ?w = "6 + ?need"
  have w: "?w < 2 ^ 27" using need by (simp add: arena_limit_def)
  let ?g = "3 * ?w + ?w * ?w div 512"
  have g: "?g < 2 ^ 60" using w by (rule gas_bound)
  have "?g + length calls * 2 ^ 25 < u64_limit" using g assms(2) by (auto simp: metas_ok_def u64_limit_def)
  from calls_cost_ok [OF assms(1) oo u _ this, of u lc] assms(2) obtain cost where
    c: "calls_cost stack offs u lc cost_model_default calls ?g = Inr (Some cost)" by (auto simp: metas_ok_def)
  have "evaluate stack calls lc cn cap cost_model_default = Inr (Some (cost, build_func_object_layout stack offs u))"
    using p(1) c w g by (simp add: evaluate_def Let_def checked_add_def checked_mul_def mem_expansion_gas_def STATIC_BASE_def WORD_BYTES_def
        u32_limit_def u64_limit_def cost_model_default_def)
  moreover have "callee_need_words c \<le> the (offs i)"
    if "c \<in> set calls" "i \<in> set (cm_must_layout_objs c) \<or> eligible_for_layout c \<and> cm_inst c \<in> lc \<and> i \<in> set (cm_live_out_objs c)" "sized stack i" for c i
  proof -
    from that(1,2) call_min_offsets_ok(1,2) obtain k where k: "?mins i = Some k" "callee_need_words c \<le> k" unfolding at_least_def by blast
    from that(1,2) assms(2) have "i \<in> so_id ` set (so_objects stack)" unfolding metas_ok_def by blast
    then obtain ob where ob: "ob \<in> set (so_objects stack)" "so_id ob = i" by blast
    moreover have "size_words ob \<noteq> 0" using assms(1) ob that(3) unfolding stack_fits_def sized_def by force
    ultimately obtain off where "offs i = Some off" "k \<le> off" using pl(1) k(1) by metis
    with k(2) show ?thesis by simp
  qed
  moreover have "offs i = Some 0" if i: "i \<in> so_id ` set (so_objects stack)" "\<not> sized stack i" for i
  proof -
    from i(1) obtain ob where ob: "ob \<in> set (so_objects stack)" "so_id ob = i" by blast
    moreover have "size_words ob = 0" using assms(1) ob i(2) unfolding stack_fits_def sized_def by force
    ultimately show ?thesis using bspec [OF pl(1) ob(1)] by auto
  qed
  ultimately show ?thesis using oo u ver by (auto simp: good_layout_def build_func_object_layout_def)
qed

section \<open>The search ends\<close>

definition evals_ok :: "(InstId set \<Rightarrow> fault + (nat \<times> FuncObjectLayout) option) \<Rightarrow> bool" where
  "evals_ok eval \<longleftrightarrow> (\<forall>lc. \<exists>cost layout. eval lc = Inr (Some (cost, layout)))"

lemma try_candidates_ok:
  assumes "evals_ok eval"
  shows "(case best_call b of None \<Rightarrow> best_candidate b = None
      | Some i \<Rightarrow> \<exists>cost layout. best_candidate b = Some (cost, layout) \<and> eval (insert i lc) = Inr (Some (cost, layout)) \<and> i \<in> C) \<Longrightarrow> set js \<subseteq> C \<Longrightarrow>
    \<exists>b'. try_candidates eval lc bc js b = Inr b' \<and> (case best_call b' of None \<Rightarrow> best_candidate b' = None
      | Some i \<Rightarrow> \<exists>cost layout. best_candidate b' = Some (cost, layout) \<and> eval (insert i lc) = Inr (Some (cost, layout)) \<and> i \<in> C)"
proof (induction js arbitrary: b)
  case (Cons i js)
  from assms obtain cost layout where e: "eval (insert i lc) = Inr (Some (cost, layout))" unfolding evals_ok_def by blast
  let ?b = "\<lparr>best_improvement = bc - cost, best_call = Some i, best_candidate = Some (cost, layout)\<rparr>"
  have "\<exists>b'. try_candidates eval lc bc js ?b = Inr b' \<and> (case best_call b' of None \<Rightarrow> best_candidate b' = None
      | Some i \<Rightarrow> \<exists>cost layout. best_candidate b' = Some (cost, layout) \<and> eval (insert i lc) = Inr (Some (cost, layout)) \<and> i \<in> C)"
    using e Cons.prems(2) by (intro Cons.IH) auto
  moreover note Cons.IH [OF Cons.prems(1)]
  ultimately show ?case using e Cons.prems(2) by (simp add: Let_def)
qed simp

definition search_ok :: "(InstId set \<Rightarrow> fault + (nat \<times> FuncObjectLayout) option) \<Rightarrow> search_state \<Rightarrow> bool" where
  "search_ok eval s \<longleftrightarrow> eval (layout_calls s) = Inr (Some (best_cost s, best_layout s))"

lemma promote_ok:
  assumes "evals_ok eval"
  shows "search_ok eval s \<Longrightarrow> \<exists>s'. promote eval calls s = Some (Inr s') \<and> search_ok eval s'"
proof (induction "card (set (candidates_of calls (layout_calls s)))" arbitrary: s rule: less_induct)
  case less
  let ?lc = "layout_calls s" and ?is = "candidates_of calls (layout_calls s)"
  from try_candidates_ok [OF assms, where C = "set ?is" and lc = ?lc and bc = "best_cost s" and js = ?is
      and b = "\<lparr>best_improvement = 0, best_call = None, best_candidate = None\<rparr>"] obtain b where
    b: "try_candidates eval ?lc (best_cost s) ?is \<lparr>best_improvement = 0, best_call = None, best_candidate = None\<rparr> = Inr b"
      "case best_call b of None \<Rightarrow> best_candidate b = None
      | Some i \<Rightarrow> \<exists>cost layout. best_candidate b = Some (cost, layout) \<and> eval (insert i ?lc) = Inr (Some (cost, layout)) \<and> i \<in> set ?is" by auto
  show ?case
  proof (cases "best_call b")
    case None
    with b less.prems show ?thesis by (subst promote.simps) simp
  next
    case (Some i)
    with b(2) obtain cost layout where c: "best_candidate b = Some (cost, layout)" "eval (insert i ?lc) = Inr (Some (cost, layout))" "i \<in> set ?is" by auto
    let ?s = "\<lparr>layout_calls = insert i ?lc, best_cost = cost, best_layout = layout, promotion_order = promotion_order s @ [i]\<rparr>"
    have "set (candidates_of calls (layout_calls ?s)) = set ?is - {i}" by (auto simp: candidates_of_def)
    then have "card (set (candidates_of calls (layout_calls ?s))) < card (set ?is)" using card_Diff1_less [OF _ c(3)] by simp
    from less.hyps [OF this] c(2) obtain s' where "promote eval calls ?s = Some (Inr s')" "search_ok eval s'" by (auto simp: search_ok_def)
    with b(1) Some c(1) show ?thesis by (subst promote.simps) simp
  qed
qed

lemma demote_ok:
  assumes "evals_ok eval"
  shows "search_ok eval s \<Longrightarrow> \<exists>s'. demote eval is s = Inr s' \<and> search_ok eval s'"
proof (induction "is" arbitrary: s)
  case (Cons i "is")
  from assms obtain cost layout where e: "eval (layout_calls s - {i}) = Inr (Some (cost, layout))" unfolding evals_ok_def by blast
  have "search_ok eval (s\<lparr>layout_calls := layout_calls s - {i}, best_cost := cost, best_layout := layout\<rparr>)" using e by (simp add: search_ok_def)
  with e Cons.IH Cons.prems show ?case by simp
qed simp

section \<open>The search returns\<close>

definition internal :: "CallGraphSccs \<Rightarrow> SccRef \<Rightarrow> bool \<Rightarrow> CallSiteLiveObjects \<Rightarrow> bool" where
  "internal scc r cyclic site \<longleftrightarrow> cyclic \<and> scc_ref scc (cs_callee site) = r"

text \<open>The needs of all callees outside the component are known and bounded; calls inside pass no object that must be laid out.\<close>

definition calls_known :: "CallGraphSccs \<Rightarrow> SccRef \<Rightarrow> bool \<Rightarrow> (FuncRef \<Rightarrow> nat option) \<Rightarrow> nat \<Rightarrow> CallSiteLiveObjects list \<Rightarrow> bool" where
  "calls_known scc r cyclic need_words M sites \<longleftrightarrow> (\<forall>site \<in> set sites.
     if internal scc r cyclic site then must_layout_objs site = [] else \<exists>n. need_words (cs_callee site) = Some n \<and> n \<le> M)"

definition meta_need :: "CallGraphSccs \<Rightarrow> SccRef \<Rightarrow> bool \<Rightarrow> (FuncRef \<Rightarrow> nat option) \<Rightarrow> CallSiteLiveObjects \<Rightarrow> nat" where
  "meta_need scc r cyclic need_words site = (if internal scc r cyclic site then 0 else the (need_words (cs_callee site)))"

definition meta_of :: "CallGraphSccs \<Rightarrow> SccRef \<Rightarrow> bool \<Rightarrow> (FuncRef \<Rightarrow> nat option) \<Rightarrow> CallSiteLiveObjects \<Rightarrow> CallMeta" where
  "meta_of scc r cyclic need_words site = \<lparr>cm_inst = cs_inst site, callee_need_words = meta_need scc r cyclic need_words site,
     cm_has_return = cs_has_return site, is_internal_scc_call = internal scc r cyclic site,
     cm_arg_count = cs_arg_count site, cm_live_out_objs = live_out_objs site, cm_must_layout_objs = must_layout_objs site\<rparr>"

definition relevant :: "CallGraphSccs \<Rightarrow> SccRef \<Rightarrow> bool \<Rightarrow> (FuncRef \<Rightarrow> nat option) \<Rightarrow> CallSiteLiveObjects \<Rightarrow> bool" where
  "relevant scc r cyclic need_words site \<longleftrightarrow> internal scc r cyclic site \<or> meta_need scc r cyclic need_words site \<noteq> 0"

lemma call_metas_ok:
  "calls_known scc r cyclic need_words M sites \<Longrightarrow>
     call_metas scc r cyclic need_words sites =
       Inr (Some (map (meta_of scc r cyclic need_words) (filter (relevant scc r cyclic need_words) sites)))"
proof (induction sites)
  case (Cons site sites)
  then have ih: "call_metas scc r cyclic need_words sites =
       Inr (Some (map (meta_of scc r cyclic need_words) (filter (relevant scc r cyclic need_words) sites)))" by (simp add: calls_known_def)
  show ?case
  proof (cases "internal scc r cyclic site")
    case True
    with Cons.prems have "must_layout_objs site = []" by (simp add: calls_known_def)
    moreover have "relevant scc r cyclic need_words site"
      "meta_of scc r cyclic need_words site = \<lparr>cm_inst = cs_inst site, callee_need_words = 0, cm_has_return = cs_has_return site,
         is_internal_scc_call = True, cm_arg_count = cs_arg_count site, cm_live_out_objs = live_out_objs site, cm_must_layout_objs = must_layout_objs site\<rparr>"
      using True by (simp_all add: relevant_def meta_of_def meta_need_def)
    ultimately show ?thesis using True ih by (simp add: internal_def Let_def)
  next
    case False
    with Cons.prems obtain n where "need_words (cs_callee site) = Some n" by (auto simp: calls_known_def)
    moreover from this False have "relevant scc r cyclic need_words site \<longleftrightarrow> n \<noteq> 0"
      "meta_of scc r cyclic need_words site = \<lparr>cm_inst = cs_inst site, callee_need_words = n, cm_has_return = cs_has_return site,
         is_internal_scc_call = False, cm_arg_count = cs_arg_count site, cm_live_out_objs = live_out_objs site, cm_must_layout_objs = must_layout_objs site\<rparr>"
      by (simp_all add: relevant_def meta_of_def meta_need_def)
    moreover from False have nf: "\<not> (cyclic \<and> scc_ref scc (cs_callee site) = r)" by (simp add: internal_def)
    ultimately show ?thesis using ih by (simp add: nf Let_def)
  qed
qed simp

lemma choices_other: "inst \<notin> cm_inst ` set calls \<Longrightarrow> choices lc calls ch inst = ch inst"
  by (induction calls arbitrary: ch) auto

lemma choices_ok:
  "c \<in> set calls \<Longrightarrow> distinct (map cm_inst calls) \<Longrightarrow> choices lc calls ch (cm_inst c) =
     (if is_internal_scc_call c then Some Forced_Save else if callee_need_words c = 0 then ch (cm_inst c)
      else Some (if cm_inst c \<in> lc then Layout_Choice else Save_Choice))"
proof (induction calls arbitrary: ch)
  case (Cons a calls)
  show ?case
  proof (cases "c = a")
    case True
    with Cons.prems(2) show ?thesis by (simp add: choices_other)
  next
    case False
    with Cons.prems have "c \<in> set calls" "cm_inst c \<noteq> cm_inst a" by (auto simp: image_iff)
    with Cons.IH Cons.prems(2) show ?thesis by simp
  qed
qed simp

lemma child_need_max_le: "\<forall>c \<in> set calls. callee_need_words c \<le> M \<Longrightarrow> child_need_max calls \<le> M"
proof -
  have "\<forall>x \<in> set xs. x \<le> M \<Longrightarrow> m \<le> M \<Longrightarrow> fold max xs m \<le> M" for xs :: "nat list" and m
    by (induction xs arbitrary: m) auto
  then show "\<forall>c \<in> set calls. callee_need_words c \<le> M \<Longrightarrow> ?thesis" by (simp add: child_need_max_def)
qed

lemma metas_ok_of:
  assumes "stack_fits stack M" and "calls_known scc r cyclic need_words M (call_sites stack)"
  shows "metas_ok stack M (map (meta_of scc r cyclic need_words) (filter (relevant scc r cyclic need_words) (call_sites stack)))"
proof -
  have "meta_need scc r cyclic need_words site \<le> M" if "site \<in> set (call_sites stack)" for site
    using assms(2) that by (auto simp: calls_known_def meta_need_def split: if_splits)
  moreover have "length (filter (relevant scc r cyclic need_words) (call_sites stack)) \<le> 2 ^ 20"
    using assms(1) length_filter_le [of "relevant scc r cyclic need_words" "call_sites stack"] unfolding stack_fits_def by linarith
  moreover have "distinct (map cs_inst (filter (relevant scc r cyclic need_words) (call_sites stack)))"
    using assms(1) by (simp add: stack_fits_def distinct_map_filter)
  ultimately show ?thesis using assms(1)
    by (fastforce simp: metas_ok_def stack_fits_def site_ok_def meta_of_def comp_def)
qed

lemma solve_ok:
  assumes "stack_fits stack M" and "calls_known scc r cyclic need_words M (call_sites stack)" and "cap \<le> arena_limit" and "\<not> requires_dynamic_frame stack"
  defines "calls \<equiv> map (meta_of scc r cyclic need_words) (filter (relevant scc r cyclic need_words) (call_sites stack))"
  shows "\<exists>lc layout. solve_call_preservation_for_func stack need_words scc r cyclic cost_model_default cap
      = Inr (Some (choices lc calls Map.empty, layout)) \<and> good_layout stack calls lc layout"
proof -
  note m = metas_ok_of [OF assms(1,2), folded calls_def]
  let ?eval = "\<lambda>lc. evaluate stack calls lc (child_need_max calls) cap cost_model_default"
  have "child_need_max calls \<le> M" using m by (intro child_need_max_le) (auto simp: metas_ok_def)
  note ev = evaluate_ok [OF assms(1) m this assms(3)]
  then have ok: "evals_ok ?eval" unfolding evals_ok_def by blast
  from ev [of "{}"] obtain cost layout where e: "?eval {} = Inr (Some (cost, layout))" by blast
  let ?s = "\<lparr>layout_calls = {}, best_cost = cost, best_layout = layout, promotion_order = []\<rparr>"
  have "search_ok ?eval ?s" using e by (simp add: search_ok_def)
  from promote_ok [OF ok this] obtain s1 where 1: "promote ?eval calls ?s = Some (Inr s1)" "search_ok ?eval s1" by blast
  from demote_ok [OF ok 1(2)] obtain s2 where 2: "demote ?eval (rev (promotion_order s1)) s1 = Inr s2" "search_ok ?eval s2" by blast
  have "good_layout stack calls (layout_calls s2) (best_layout s2)" using 2(2) ev [of "layout_calls s2"] by (auto simp: search_ok_def)
  moreover have "solve_call_preservation_for_func stack need_words scc r cyclic cost_model_default cap
      = Inr (Some (choices (layout_calls s2) calls Map.empty, best_layout s2))"
    using assms(4) call_metas_ok [OF assms(2)] e 1(1) 2(1) by (simp add: solve_call_preservation_for_func_def calls_def [symmetric] Let_def)
  ultimately show ?thesis by blast
qed

section \<open>Plans verify\<close>

text \<open>What a call to the function of a call site may overwrite.\<close>

definition clobber_of :: "CallGraphSccs \<Rightarrow> SccRef \<Rightarrow> bool \<Rightarrow> (FuncRef \<Rightarrow> nat option) \<Rightarrow> nat \<Rightarrow> CallSiteLiveObjects \<Rightarrow> nat" where
  "clobber_of scc r cyclic need_words need_scc site = (if internal scc r cyclic site then need_scc else the (need_words (cs_callee site)))"

lemma save_plans_other: "save_plans stack offs ch need_words scc r cyclic need_scc sites out = Inr out' \<Longrightarrow> inst \<notin> cs_inst ` set sites \<Longrightarrow> out' inst = out inst"
  by (induction sites arbitrary: out) (auto split: option.splits CallPreserveChoice.splits if_splits)

lemma save_plans_ok:
  assumes fits: "stack_fits stack M" and offs: "offsets_ok stack offs u" "u \<le> arena_limit"
  shows "\<forall>site \<in> set sites. site_ok stack site \<and> (internal scc r cyclic site \<or> need_words (cs_callee site) \<noteq> None) \<Longrightarrow> distinct (map cs_inst sites) \<Longrightarrow>
    \<exists>out'. save_plans stack offs ch need_words scc r cyclic need_scc sites out = Inr out'
      \<and> (\<forall>site \<in> set sites. out (cs_inst site) = None \<longrightarrow> ch (cs_inst site) \<noteq> None \<and> ch (cs_inst site) \<noteq> Some Layout_Choice \<longrightarrow>
           set (case out' (cs_inst site) of Some p \<Rightarrow> save_word_offsets p | None \<Rightarrow> []) =
             {w. w < clobber_of scc r cyclic need_words need_scc site
                \<and> (\<exists>i \<in> set (live_out_objs site) - set (must_layout_objs site). w \<in> obj_words stack offs i)})"
proof (induction sites arbitrary: out)
  case (Cons site sites)
  have si: "site_ok stack site" "internal scc r cyclic site \<or> need_words (cs_callee site) \<noteq> None" using Cons.prems(1) by simp_all
  have rest: "\<forall>site \<in> set sites. site_ok stack site \<and> (internal scc r cyclic site \<or> need_words (cs_callee site) \<noteq> None)" "distinct (map cs_inst sites)"
    using Cons.prems by simp_all
  have new: "cs_inst site \<notin> cs_inst ` set sites" using Cons.prems(2) by simp
  let ?n = "clobber_of scc r cyclic need_words need_scc site"
  let ?W = "\<lambda>site. {w. w < clobber_of scc r cyclic need_words need_scc site
                \<and> (\<exists>i \<in> set (live_out_objs site) - set (must_layout_objs site). w \<in> obj_words stack offs i)}"
  have need: "(if cyclic \<and> scc_ref scc (cs_callee site) = r then Inr need_scc
      else case need_words (cs_callee site) of None \<Rightarrow> Inl (Panic ''callee missing need_words'') | Some n \<Rightarrow> Inr n) = Inr ?n"
    using si(2) by (auto simp: internal_def clobber_of_def)
  from call_save_offsets_ok [OF fits offs, of "live_out_objs site" "must_layout_objs site" ?n] si(1) obtain ws where
    ws: "compute_call_save_word_offsets stack offs (live_out_objs site) (must_layout_objs site) ?n = Inr ws" "set ws = ?W site"
    by (auto simp: site_ok_def)
  define saved where "saved = (case ch (cs_inst site) of None \<Rightarrow> False | Some c \<Rightarrow> c \<noteq> Layout_Choice \<and> ?n \<noteq> 0 \<and> ws \<noteq> [])"
  let ?out = "if saved then out(cs_inst site \<mapsto> \<lparr>save_word_offsets = ws, sp_has_return = cs_has_return site\<rparr>) else out"
  have step: "save_plans stack offs ch need_words scc r cyclic need_scc (site # sites) out = save_plans stack offs ch need_words scc r cyclic need_scc sites ?out"
    using need ws(1) by (auto simp: saved_def split: option.split CallPreserveChoice.split)
  from Cons.IH [OF rest, of ?out] obtain out' where
    o: "save_plans stack offs ch need_words scc r cyclic need_scc sites ?out = Inr out'"
      "\<forall>site \<in> set sites. ?out (cs_inst site) = None \<longrightarrow> ch (cs_inst site) \<noteq> None \<and> ch (cs_inst site) \<noteq> Some Layout_Choice \<longrightarrow>
           set (case out' (cs_inst site) of Some p \<Rightarrow> save_word_offsets p | None \<Rightarrow> []) = ?W site" by blast
  have own: "out' (cs_inst site) = ?out (cs_inst site)" using save_plans_other [OF o(1) new] .
  have "set (case out' (cs_inst s) of Some p \<Rightarrow> save_word_offsets p | None \<Rightarrow> []) = ?W s"
    if s: "s \<in> set (site # sites)" "out (cs_inst s) = None" "ch (cs_inst s) \<noteq> None \<and> ch (cs_inst s) \<noteq> Some Layout_Choice" for s
  proof (cases "s = site")
    case True
    show ?thesis
    proof (cases saved)
      case True
      with own ws(2) \<open>s = site\<close> show ?thesis by simp
    next
      case False
      with s(3) \<open>s = site\<close> have "?n = 0 \<or> ws = []" by (auto simp: saved_def)
      have "?W site = {}"
      proof (cases "?n = 0")
        case nz: False
        with \<open>?n = 0 \<or> ws = []\<close> ws(2) show ?thesis by simp
      qed simp
      with False own s(2) \<open>s = site\<close> show ?thesis by simp
    qed
  next
    case False
    with s have m: "s \<in> set sites" by simp
    with new have "?out (cs_inst s) = None" using s(2) by (auto simp: image_iff)
    with o(2) m s(3) show ?thesis by blast
  qed
  with step o(1) show ?case by (intro exI [of _ out']) simp
qed simp

text \<open>Every word of a live object that a call may overwrite is saved, or there is none.\<close>

definition preserved :: "FuncStackObjects \<Rightarrow> (StackObjId \<Rightarrow> nat option) \<Rightarrow> (InstId \<Rightarrow> CallSavePlan option) \<Rightarrow> nat \<Rightarrow> CallSiteLiveObjects \<Rightarrow> bool" where
  "preserved stack offs saves n site \<longleftrightarrow> (\<forall>i \<in> set (live_out_objs site). \<forall>w \<in> obj_words stack offs i.
     w < n \<longrightarrow> w \<in> set (case saves (cs_inst site) of Some p \<Rightarrow> save_word_offsets p | None \<Rightarrow> []))"

lemma verify_above_ok:
  "\<forall>i \<in> set obs. \<exists>off. offs i = Some off \<and> need \<le> off \<Longrightarrow> verify_above offs need msg obs = Inr ()"
  by (induction obs) auto

lemma sized_obj_words: "stack_fits stack M \<Longrightarrow> i \<in> so_id ` set (so_objects stack) \<Longrightarrow> \<not> sized stack i \<Longrightarrow> obj_words stack offs i = {}"
  by (simp add: sized_def obj_words_def words_of_def)

text \<open>The plan of one function with a static layout.\<close>

lemma static_func_ok:
  assumes fits: "stack_fits stack M" and known: "calls_known scc r cyclic need_words M (call_sites stack)"
    and calls: "calls = map (meta_of scc r cyclic need_words) (filter (relevant scc r cyclic need_words) (call_sites stack))"
    and lay: "good_layout stack calls lc layout" and ch: "ch = choices lc calls Map.empty"
  shows "\<exists>saves. save_plans stack (obj_offset_words layout) ch need_words scc r cyclic need_scc (call_sites stack) Map.empty = Inr saves
    \<and> (\<forall>site \<in> set (call_sites stack).
         preserved stack (obj_offset_words layout) saves (clobber_of scc r cyclic need_words need_scc site) site
       \<and> (\<forall>i \<in> set (must_layout_objs site). \<forall>w \<in> obj_words stack (obj_offset_words layout) i. clobber_of scc r cyclic need_words need_scc site \<le> w)
       \<and> (relevant scc r cyclic need_words site \<longrightarrow> ch (cs_inst site) = Some (if internal scc r cyclic site then Forced_Save
            else if cs_inst site \<in> lc then Layout_Choice else Save_Choice))
       \<and> (cs_inst site \<in> lc \<and> \<not> internal scc r cyclic site \<and> relevant scc r cyclic need_words site \<longrightarrow>
            (\<forall>i \<in> set (live_out_objs site). sized stack i \<longrightarrow> clobber_of scc r cyclic need_words need_scc site \<le> the (obj_offset_words layout i)))
       \<and> (\<forall>i \<in> set (must_layout_objs site). sized stack i \<longrightarrow> clobber_of scc r cyclic need_words need_scc site \<le> the (obj_offset_words layout i)))"
proof -
  let ?offs = "obj_offset_words layout"
  have oo: "offsets_ok stack ?offs (locals_words layout)" "locals_words layout \<le> arena_limit" using lay by (simp_all add: good_layout_def)
  have sites: "\<forall>site \<in> set (call_sites stack). site_ok stack site \<and> (internal scc r cyclic site \<or> need_words (cs_callee site) \<noteq> None)"
  proof
    fix site assume m: "site \<in> set (call_sites stack)"
    with fits have "site_ok stack site" by (simp add: stack_fits_def)
    moreover from known m have "if internal scc r cyclic site then must_layout_objs site = [] else \<exists>n. need_words (cs_callee site) = Some n \<and> n \<le> M"
      unfolding calls_known_def by (rule bspec)
    ultimately show "site_ok stack site \<and> (internal scc r cyclic site \<or> need_words (cs_callee site) \<noteq> None)" by (auto split: if_splits)
  qed
  have di: "distinct (map cs_inst (call_sites stack))" using fits by (simp add: stack_fits_def)
  from save_plans_ok [OF fits oo sites di, of ch need_scc Map.empty] obtain saves where
    s: "save_plans stack ?offs ch need_words scc r cyclic need_scc (call_sites stack) Map.empty = Inr saves"
      "\<forall>site \<in> set (call_sites stack). Map.empty (cs_inst site) = (None :: CallSavePlan option) \<longrightarrow> ch (cs_inst site) \<noteq> None \<and> ch (cs_inst site) \<noteq> Some Layout_Choice \<longrightarrow>
           set (case saves (cs_inst site) of Some p \<Rightarrow> save_word_offsets p | None \<Rightarrow> []) =
             {w. w < clobber_of scc r cyclic need_words need_scc site
                \<and> (\<exists>i \<in> set (live_out_objs site) - set (must_layout_objs site). w \<in> obj_words stack ?offs i)}" by blast
  have dm: "distinct (map cm_inst calls)" using metas_ok_of [OF fits known] calls by (simp add: metas_ok_def)
  have all: "preserved stack ?offs saves (clobber_of scc r cyclic need_words need_scc site) site
       \<and> (\<forall>i \<in> set (must_layout_objs site). \<forall>w \<in> obj_words stack ?offs i. clobber_of scc r cyclic need_words need_scc site \<le> w)
       \<and> (relevant scc r cyclic need_words site \<longrightarrow> ch (cs_inst site) = Some (if internal scc r cyclic site then Forced_Save
            else if cs_inst site \<in> lc then Layout_Choice else Save_Choice))
       \<and> (cs_inst site \<in> lc \<and> \<not> internal scc r cyclic site \<and> relevant scc r cyclic need_words site \<longrightarrow>
            (\<forall>i \<in> set (live_out_objs site). sized stack i \<longrightarrow> clobber_of scc r cyclic need_words need_scc site \<le> the (?offs i)))
       \<and> (\<forall>i \<in> set (must_layout_objs site). sized stack i \<longrightarrow> clobber_of scc r cyclic need_words need_scc site \<le> the (?offs i))"
    if site: "site \<in> set (call_sites stack)" for site
  proof (cases "relevant scc r cyclic need_words site")
    case False
    then have z: "clobber_of scc r cyclic need_words need_scc site = 0" by (auto simp: relevant_def clobber_of_def meta_need_def)
    with False show ?thesis by (simp add: preserved_def)
  next
    case True
    let ?c = "meta_of scc r cyclic need_words site" and ?n = "clobber_of scc r cyclic need_words need_scc site"
    have c: "?c \<in> set calls" using True site calls by simp
    have chc: "ch (cs_inst site) = Some (if internal scc r cyclic site then Forced_Save else if cs_inst site \<in> lc then Layout_Choice else Save_Choice)"
      using choices_ok [OF c dm, of lc Map.empty] True ch by (auto simp: meta_of_def relevant_def)
    have ids: "set (live_out_objs site) \<union> set (must_layout_objs site) \<subseteq> so_id ` set (so_objects stack)"
      using fits site by (simp add: stack_fits_def site_ok_def)
    have lower: "?n \<le> the (?offs i)"
      if "i \<in> set (must_layout_objs site) \<or> \<not> internal scc r cyclic site \<and> cs_inst site \<in> lc \<and> i \<in> set (live_out_objs site)" "sized stack i" for i
    proof -
      have ni: "\<not> internal scc r cyclic site" using that(1) known site by (auto simp: calls_known_def)
      then have "callee_need_words ?c = ?n" "eligible_for_layout ?c" using True
        by (simp_all add: meta_of_def meta_need_def clobber_of_def eligible_for_layout_def relevant_def)
      with lay c that show ?thesis unfolding good_layout_def by (auto simp: meta_of_def)
    qed
    have above: "?n \<le> w" if "i \<in> so_id ` set (so_objects stack)" "sized stack i \<Longrightarrow> ?n \<le> the (?offs i)" "w \<in> obj_words stack ?offs i" for i w
      using that sized_obj_words [OF fits that(1), of ?offs] by (cases "sized stack i") (auto simp: obj_words_def words_of_def)
    have must: "\<forall>i \<in> set (must_layout_objs site). \<forall>w \<in> obj_words stack ?offs i. ?n \<le> w" using above lower ids by blast
    have "preserved stack ?offs saves ?n site"
    proof (cases "ch (cs_inst site) = Some Layout_Choice")
      case True
      then have "\<not> internal scc r cyclic site" "cs_inst site \<in> lc" using chc by (auto split: if_splits)
      then have "\<forall>i \<in> set (live_out_objs site). \<forall>w \<in> obj_words stack ?offs i. ?n \<le> w" using above lower ids by blast
      then show ?thesis by (force simp: preserved_def)
    next
      case False
      with bspec [OF s(2) site] chc have "set (case saves (cs_inst site) of Some p \<Rightarrow> save_word_offsets p | None \<Rightarrow> []) =
          {w. w < ?n \<and> (\<exists>i \<in> set (live_out_objs site) - set (must_layout_objs site). w \<in> obj_words stack ?offs i)}" by simp
      note saved = this
      show ?thesis unfolding preserved_def
      proof (intro ballI impI)
        fix i w assume iw: "i \<in> set (live_out_objs site)" "w \<in> obj_words stack ?offs i" "w < ?n"
        with must have "i \<notin> set (must_layout_objs site)" by fastforce
        with iw show "w \<in> set (case saves (cs_inst site) of Some p \<Rightarrow> save_word_offsets p | None \<Rightarrow> [])" unfolding saved by blast
      qed
    qed
    with must chc lower show ?thesis by simp
  qed
  then show ?thesis using s(1) by (intro exI [of _ saves]) simp
qed

text \<open>Objects without words are at offset 0, which the verifier refuses: it accepts plans in which none is named at a call.\<close>

definition all_sized :: "FuncStackObjects \<Rightarrow> bool" where
  "all_sized stack \<longleftrightarrow> (\<forall>site \<in> set (call_sites stack). \<forall>i \<in> set (live_out_objs site) \<union> set (must_layout_objs site). sized stack i)"

lemma verify_saved_ok:
  assumes fits: "stack_fits stack M" and offs: "offsets_ok stack offs u" "u \<le> arena_limit"
  shows "set obs \<subseteq> so_id ` set (so_objects stack) \<Longrightarrow> \<forall>i \<in> set obs. \<forall>w \<in> obj_words stack offs i. w < need \<longrightarrow> w \<in> set saved \<Longrightarrow>
    verify_saved stack offs need must saved obs = Inr ()"
proof (induction obs)
  case (Cons i obs)
  from Cons.prems(1) obtain ob where ob: "ob \<in> set (so_objects stack)" "so_id ob = i" by auto
  with offs(1) obtain off where off: "offs i = Some off" "off + size_words ob \<le> u" unfolding offsets_ok_def by blast
  have sz: "obj_size_words stack i = Some (size_words ob)" using fits ob unfolding stack_fits_def by blast
  have "off + size_words ob < u32_limit" using off(2) offs(2) by (simp add: arena_limit_def u32_limit_def)
  moreover have "\<forall>w \<in> set [off..<min (off + size_words ob) need]. w \<in> set saved"
    using Cons.prems(2) off(1) sz by (auto simp: obj_words_def words_of_def)
  ultimately have "verify_save_words stack offs need must saved i = Inr ()"
    using off(1) sz by (simp add: verify_save_words_def checked_add_def)
  with Cons show ?case by simp
qed simp

lemma save_plans_cong:
  "\<forall>site \<in> set sites. internal scc r cyclic site \<or> need_words (cs_callee site) = needs (cs_callee site) \<Longrightarrow>
     save_plans stack offs ch need_words scc r cyclic need_scc sites out = save_plans stack offs ch needs scc r cyclic need_scc sites out"
proof (induction sites arbitrary: out)
  case (Cons site sites)
  then have "(if cyclic \<and> scc_ref scc (cs_callee site) = r then Inr need_scc
      else case need_words (cs_callee site) of None \<Rightarrow> Inl (Panic ''callee missing need_words'') | Some n \<Rightarrow> Inr n)
    = (if cyclic \<and> scc_ref scc (cs_callee site) = r then Inr need_scc
      else case needs (cs_callee site) of None \<Rightarrow> Inl (Panic ''callee missing need_words'') | Some n \<Rightarrow> Inr n)"
    by (auto simp: internal_def)
  note eq = this
  from Cons have ih: "save_plans stack offs ch need_words scc r cyclic need_scc sites = save_plans stack offs ch needs scc r cyclic need_scc sites"
    by (simp add: fun_eq_iff)
  show ?case by (simp only: save_plans.simps ih eq)
qed simp

lemma verify_static_func_ok:
  assumes fits: "stack_fits stack M" and known: "calls_known scc r (is_cycle info) need_words M (call_sites stack)"
    and info: "scc_info scc r = Inr info"
    and calls: "calls = map (meta_of scc r (is_cycle info) need_words) (filter (relevant scc r (is_cycle info) need_words) (call_sites stack))"
    and lay: "good_layout stack calls lc layout" and ch: "ch = choices lc calls Map.empty" and sized: "all_sized stack"
    and needs: "\<forall>site \<in> set (call_sites stack). if internal scc r (is_cycle info) site then needs (cs_callee site) \<noteq> None
      else needs (cs_callee site) = need_words (cs_callee site)"
    and stk: "stacks f = stack"
  shows "\<exists>plan. static_plan stacks needs scc r need_scc f (ch, layout) = Inr plan \<and> mp_locals_words plan = locals_words layout
    \<and> verify_static_func stack needs scc r plan = Inr ()"
proof -
  let ?cyc = "is_cycle info" and ?offs = "obj_offset_words layout"
  let ?n = "clobber_of scc r ?cyc need_words need_scc"
  from static_func_ok [OF fits known calls lay ch, of need_scc] obtain saves where
    s: "save_plans stack ?offs ch need_words scc r ?cyc need_scc (call_sites stack) Map.empty = Inr saves"
    and pr: "\<And>site. site \<in> set (call_sites stack) \<Longrightarrow> preserved stack ?offs saves (?n site) site"
    and chs: "\<And>site. site \<in> set (call_sites stack) \<Longrightarrow> relevant scc r ?cyc need_words site \<Longrightarrow>
       ch (cs_inst site) = Some (if internal scc r ?cyc site then Forced_Save else if cs_inst site \<in> lc then Layout_Choice else Save_Choice)"
    and low: "\<And>site i. site \<in> set (call_sites stack) \<Longrightarrow> cs_inst site \<in> lc \<Longrightarrow> \<not> internal scc r ?cyc site \<Longrightarrow> relevant scc r ?cyc need_words site \<Longrightarrow>
       i \<in> set (live_out_objs site) \<Longrightarrow> sized stack i \<Longrightarrow> ?n site \<le> the (?offs i)"
    and must: "\<And>site i. site \<in> set (call_sites stack) \<Longrightarrow> i \<in> set (must_layout_objs site) \<Longrightarrow> sized stack i \<Longrightarrow> ?n site \<le> the (?offs i)" by blast
  have oo: "offsets_ok stack ?offs (locals_words layout)" "locals_words layout \<le> arena_limit"
    "verify_object_packing stack ?offs (locals_words layout) = Inr ()" using lay by (simp_all add: good_layout_def)
  have cg: "save_plans stack ?offs ch needs scc r ?cyc need_scc (call_sites stack) Map.empty = Inr saves"
  proof -
    have "\<forall>site \<in> set (call_sites stack). internal scc r ?cyc site \<or> need_words (cs_callee site) = needs (cs_callee site)"
    proof
      fix site assume "site \<in> set (call_sites stack)"
      from bspec [OF needs this] show "internal scc r ?cyc site \<or> need_words (cs_callee site) = needs (cs_callee site)"
        by (cases "internal scc r ?cyc site") simp_all
    qed
    from save_plans_cong [OF this] s show ?thesis by simp
  qed
  then have fin: "finalize_call_save_plans_for_func stack ?offs ch needs scc r need_scc = Inr saves"
    by (simp add: finalize_call_save_plans_for_func_def info)
  let ?st = "\<lparr>st_need_words = need_scc, call_choice = ch, call_saves = saves\<rparr>"
  have above: "\<exists>off. ?offs i = Some off \<and> n \<le> off" if "i \<in> so_id ` set (so_objects stack)" "n \<le> the (?offs i)" for i n
    using that oo(1) unfolding offsets_ok_def by fastforce
  have site: "verify_call_site stack needs scc r ?cyc ?st ?offs site = Inr ()" if m: "site \<in> set (call_sites stack)" for site
  proof -
    have ids: "set (live_out_objs site) \<subseteq> so_id ` set (so_objects stack)" "set (must_layout_objs site) \<subseteq> so_id ` set (so_objects stack)"
      using fits m by (simp_all add: stack_fits_def site_ok_def)
    have sz: "\<forall>i \<in> set (live_out_objs site) \<union> set (must_layout_objs site). sized stack i" using sized m by (simp add: all_sized_def)
    from needs m have nd: "if internal scc r ?cyc site then needs (cs_callee site) \<noteq> None else needs (cs_callee site) = need_words (cs_callee site)" by (rule bspec)
    from known m have kn: "if internal scc r ?cyc site then must_layout_objs site = [] else \<exists>n. need_words (cs_callee site) = Some n \<and> n \<le> M"
      unfolding calls_known_def by (rule bspec)
    from nd kn obtain n where n: "needs (cs_callee site) = Some n" "(if internal scc r ?cyc site then need_scc else n) = ?n site"
      by (auto simp: clobber_of_def split: if_splits)
    have int: "(?cyc \<and> scc_ref scc (cs_callee site) = r) = internal scc r ?cyc site" by (simp add: internal_def)
    have rel: "relevant scc r ?cyc need_words site \<longleftrightarrow> \<not> (?n site = 0 \<and> \<not> internal scc r ?cyc site)"
      by (auto simp: relevant_def clobber_of_def meta_need_def)
    have mu: "verify_above ?offs (?n site) msg (must_layout_objs site) = Inr ()" for msg
    proof (rule verify_above_ok, rule ballI)
      fix i assume i: "i \<in> set (must_layout_objs site)"
      with ids(2) sz have "i \<in> so_id ` set (so_objects stack)" "sized stack i" by blast+
      with above [of i "?n site"] must [OF m i] show "\<exists>off. ?offs i = Some off \<and> ?n site \<le> off" by blast
    qed
    have sv: "verify_saved stack ?offs (?n site) (must_layout_objs site) (case saves (cs_inst site) of Some p \<Rightarrow> save_word_offsets p | None \<Rightarrow> []) (live_out_objs site) = Inr ()"
      using pr [OF m] ids(1) by (intro verify_saved_ok [OF fits oo(1,2)]) (auto simp: preserved_def)
    have lo: "verify_above ?offs (?n site) msg (live_out_objs site) = Inr ()"
      if "cs_inst site \<in> lc" "\<not> internal scc r ?cyc site" "relevant scc r ?cyc need_words site" for msg
    proof (rule verify_above_ok, rule ballI)
      fix i assume i: "i \<in> set (live_out_objs site)"
      with ids(1) sz have "i \<in> so_id ` set (so_objects stack)" "sized stack i" by blast+
      with above [of i "?n site"] low [OF m that i] show "\<exists>off. ?offs i = Some off \<and> ?n site \<le> off" by blast
    qed
    show ?thesis
    proof (cases "relevant scc r ?cyc need_words site")
      case False
      with rel have z: "?n site = 0" "\<not> internal scc r ?cyc site" by simp_all
      with n(2) have "n = 0" by simp
      with n(1) z(2) show ?thesis by (simp add: verify_call_site_def Let_def int)
    next
      case True
      note c = chs [OF m True]
      consider "internal scc r ?cyc site" | "\<not> internal scc r ?cyc site" "cs_inst site \<in> lc" | "\<not> internal scc r ?cyc site" "cs_inst site \<notin> lc" by blast
      then show ?thesis
      proof cases
        case 1
        with n(2) have "need_scc = ?n site" by simp
        with 1 n(1) c mu sv show ?thesis by (simp add: verify_call_site_def Let_def int)
      next
        case 2
        with n(2) have "n = ?n site" by simp
        with 2 n(1) c mu lo [OF 2(2,1) True] show ?thesis by (simp add: verify_call_site_def Let_def int)
      next
        case 3
        with n(2) have "n = ?n site" by simp
        with 3 n(1) c mu sv show ?thesis by (simp add: verify_call_site_def Let_def int)
      qed
    qed
  qed
  have "\<forall>site \<in> set sites. verify_call_site stack needs scc r ?cyc ?st ?offs site = Inr () \<Longrightarrow>
      verify_call_sites stack needs scc r ?cyc ?st ?offs sites = Inr ()" for sites by (induction sites) auto
  then have "verify_call_sites stack needs scc r ?cyc ?st ?offs (call_sites stack) = Inr ()" using site by blast
  then show ?thesis using fin stk oo(3) info
    by (simp add: static_plan_def func_plan_of_def verify_static_func_def list_all_iff split: option.split)
qed

text \<open>A pass over a component.\<close>

lemma plan_pass_max:
  "plan_pass solve fs planned m = Inr (Some (planned', m')) \<Longrightarrow> m \<le> B \<Longrightarrow>
    (\<And>f ch layout. f \<in> set fs \<Longrightarrow> solve f = Inr (Some (ch, layout)) \<Longrightarrow> locals_words layout \<le> B) \<Longrightarrow> m' \<le> B"
proof (induction fs arbitrary: planned m)
  case (Cons f fs)
  then obtain ch layout where f: "solve f = Inr (Some (ch, layout))"
      "plan_pass solve fs (planned(f \<mapsto> (ch, layout))) (max m (locals_words layout)) = Inr (Some (planned', m'))"
    by (auto split: option.splits prod.splits)
  from Cons.prems(3) [OF _ f(1)] Cons.prems(2) have "max m (locals_words layout) \<le> B" by simp
  from Cons.IH [OF f(2) this] Cons.prems(3) show ?case by (meson list.set_intros(2))
qed simp

lemma plan_pass_ok:
  "\<forall>f \<in> set fs. \<exists>p. solve f = Inr (Some p) \<Longrightarrow>
    \<exists>planned' m'. plan_pass solve fs planned m = Inr (Some (planned', m')) \<and> m \<le> m'
      \<and> (\<forall>f. if f \<in> set fs then \<exists>p. solve f = Inr (Some p) \<and> planned' f = Some p \<and> locals_words (snd p) \<le> m' else planned' f = planned f)"
proof (induction fs arbitrary: planned m)
  case (Cons f fs)
  then obtain ch layout where f: "solve f = Inr (Some (ch, layout))" by auto
  from Cons.IH [of "planned(f \<mapsto> (ch, layout))" "max m (locals_words layout)"] Cons.prems obtain planned' m' where
    i: "plan_pass solve fs (planned(f \<mapsto> (ch, layout))) (max m (locals_words layout)) = Inr (Some (planned', m'))" "max m (locals_words layout) \<le> m'"
      "\<And>g. if g \<in> set fs then \<exists>p. solve g = Inr (Some p) \<and> planned' g = Some p \<and> locals_words (snd p) \<le> m'
        else planned' g = (planned(f \<mapsto> (ch, layout))) g" by (metis list.set_intros(2))
  have "if g \<in> set (f # fs) then \<exists>p. solve g = Inr (Some p) \<and> planned' g = Some p \<and> locals_words (snd p) \<le> m' else planned' g = planned g" for g
  proof (cases "g \<in> set fs")
    case True
    with i(3) [of g] show ?thesis by simp
  next
    case False
    with i(3) [of g] i(2) f show ?thesis by auto
  qed
  note all = this
  show ?case
  proof (intro exI [of _ planned'] exI [of _ m'] conjI allI)
    show "plan_pass solve (f # fs) planned m = Inr (Some (planned', m'))" using f i(1) by simp
    show "m \<le> m'" using i(2) by simp
  qed (rule all)
qed simp

lemma static_plans_ok:
  "\<forall>f \<in> set fs. \<exists>p plan. planned f = Some p \<and> static_plan stacks needs scc r need_scc f p = Inr plan \<and> Q f plan \<Longrightarrow>
    \<exists>plans'. static_plans stacks needs scc r need_scc planned fs plans = Inr plans'
      \<and> (\<forall>f. if f \<in> set fs then \<exists>plan. plans' f = Some plan \<and> Q f plan else plans' f = plans f)"
proof (induction fs arbitrary: plans)
  case (Cons f fs)
  then obtain p plan where f: "planned f = Some p" "static_plan stacks needs scc r need_scc f p = Inr plan" "Q f plan" by auto
  from Cons.IH [of "plans(f \<mapsto> plan)"] Cons.prems obtain plans' where
    i: "static_plans stacks needs scc r need_scc planned fs (plans(f \<mapsto> plan)) = Inr plans'"
      "\<And>g. if g \<in> set fs then \<exists>plan. plans' g = Some plan \<and> Q g plan else plans' g = (plans(f \<mapsto> plan)) g" by (metis list.set_intros(2))
  have "if g \<in> set (f # fs) then \<exists>plan. plans' g = Some plan \<and> Q g plan else plans' g = plans g" for g
    using i(2) [of g] f(3) by (cases "g \<in> set fs") auto
  note all = this
  show ?case
  proof (intro exI [of _ plans'] conjI allI)
    show "static_plans stacks needs scc r need_scc planned (f # fs) plans = Inr plans'" using f i(1) by simp
  qed (rule all)
qed simp

text \<open>A site at which an object without words must be laid out is refused.\<close>

lemma verify_call_sites_Inl:
  "site \<in> set sites \<Longrightarrow> verify_call_site stack clobber scc r cyclic st offs site \<noteq> Inr () \<Longrightarrow>
     verify_call_sites stack clobber scc r cyclic st offs sites \<noteq> Inr ()"
  by (induction sites) (auto simp: rbind_eq_Inl)

lemma verify_above_Inl: "i \<in> set obs \<Longrightarrow> offs i = Some off \<Longrightarrow> off < need \<Longrightarrow> verify_above offs need msg obs \<noteq> Inr ()"
  by (induction obs) (auto split: option.split)

section \<open>Properties\<close>

text \<open>C9: for a function that fits, the choice of how objects survive calls always returns, its layout passes the
  verifier, and with the save plans derived from it no call destroys a live word: a word of an object live across a call that the callee may
  overwrite is among the saved ones, and no word of an object passed to the callee is overwritten at all.\<close>
theorem call_preservation_safe:
  assumes "stack_fits stack M" and "calls_known scc r (is_cycle info) need_words M (call_sites stack)" and "cap \<le> arena_limit"
    and "\<not> requires_dynamic_frame stack" and "scc_info scc r = Inr info"
  shows "\<exists>ch layout saves. solve_call_preservation_for_func stack need_words scc r (is_cycle info) cost_model_default cap = Inr (Some (ch, layout))
    \<and> verify_object_packing stack (obj_offset_words layout) (locals_words layout) = Inr ()
    \<and> finalize_call_save_plans_for_func stack (obj_offset_words layout) ch need_words scc r need_scc = Inr saves
    \<and> (\<forall>site \<in> set (call_sites stack).
         preserved stack (obj_offset_words layout) saves (clobber_of scc r (is_cycle info) need_words need_scc site) site
       \<and> (\<forall>i \<in> set (must_layout_objs site). \<forall>w \<in> obj_words stack (obj_offset_words layout) i.
            clobber_of scc r (is_cycle info) need_words need_scc site \<le> w))"
proof -
  from solve_ok [OF assms(1-4)] obtain lc layout where
    s: "solve_call_preservation_for_func stack need_words scc r (is_cycle info) cost_model_default cap = Inr (Some
          (choices lc (map (meta_of scc r (is_cycle info) need_words) (filter (relevant scc r (is_cycle info) need_words) (call_sites stack))) Map.empty, layout))"
    and g: "good_layout stack (map (meta_of scc r (is_cycle info) need_words) (filter (relevant scc r (is_cycle info) need_words) (call_sites stack))) lc layout" by blast
  from static_func_ok [OF assms(1,2) refl g refl, of need_scc] obtain saves where
    f: "save_plans stack (obj_offset_words layout) (choices lc (map (meta_of scc r (is_cycle info) need_words)
          (filter (relevant scc r (is_cycle info) need_words) (call_sites stack))) Map.empty) need_words scc r (is_cycle info) need_scc (call_sites stack) Map.empty = Inr saves"
    and p: "\<forall>site \<in> set (call_sites stack).
         preserved stack (obj_offset_words layout) saves (clobber_of scc r (is_cycle info) need_words need_scc site) site
       \<and> (\<forall>i \<in> set (must_layout_objs site). \<forall>w \<in> obj_words stack (obj_offset_words layout) i.
            clobber_of scc r (is_cycle info) need_words need_scc site \<le> w)" by blast
  have v: "verify_object_packing stack (obj_offset_words layout) (locals_words layout) = Inr ()" using g by (simp add: good_layout_def)
  show ?thesis
    by (intro exI conjI, rule s, rule v, simp add: finalize_call_save_plans_for_func_def assms(5), rule f, rule p)
qed

text \<open>C13: a pass over a component returns if its functions fit: no function has objects of more than 128 words in all (the
  most that is saved at a call), everything fits in the arena, and no call names an object without words. Its extents are then
  within the arena, and once they are within the bound the pass was given (the exit of the loop over passes) the plans made
  from it exist for every function and pass the verifier of the code.\<close>
theorem component_pass_verifies:
  assumes info: "scc_info scc r = Inr info" and cap: "cap \<le> arena_limit"
    and fits: "\<And>f. f \<in> set fs \<Longrightarrow> stack_fits (stacks f) M \<and> all_sized (stacks f) \<and> \<not> requires_dynamic_frame (stacks f)
      \<and> calls_known scc r (is_cycle info) need_words M (call_sites (stacks f))"
    and needs: "\<And>f site. f \<in> set fs \<Longrightarrow> site \<in> set (call_sites (stacks f)) \<Longrightarrow>
      (if internal scc r (is_cycle info) site then needs (cs_callee site) \<noteq> None else needs (cs_callee site) = need_words (cs_callee site))"
  shows "\<exists>planned m. plan_pass (\<lambda>f. solve_call_preservation_for_func (stacks f) need_words scc r (is_cycle info) cost_model_default cap) fs Map.empty 0
      = Inr (Some (planned, m)) \<and> m \<le> arena_limit
    \<and> (m \<le> cap \<longrightarrow> (\<exists>plans'. static_plans stacks needs scc r cap planned fs plans = Inr plans'
        \<and> (\<forall>f \<in> set fs. \<exists>plan. plans' f = Some plan \<and> mp_locals_words plan \<le> cap \<and> verify_static_func (stacks f) needs scc r plan = Inr ())))"
proof -
  let ?solve = "\<lambda>f. solve_call_preservation_for_func (stacks f) need_words scc r (is_cycle info) cost_model_default cap"
  let ?calls = "\<lambda>f. map (meta_of scc r (is_cycle info) need_words) (filter (relevant scc r (is_cycle info) need_words) (call_sites (stacks f)))"
  have sol: "\<exists>lc layout. ?solve f = Inr (Some (choices lc (?calls f) Map.empty, layout)) \<and> good_layout (stacks f) (?calls f) lc layout" if "f \<in> set fs" for f
    using fits [OF that] cap by (intro solve_ok [where M = M]) simp_all
  then have "\<forall>f \<in> set fs. \<exists>p. ?solve f = Inr (Some p)" by blast
  from plan_pass_ok [OF this, of Map.empty 0] obtain planned m where
    p: "plan_pass ?solve fs Map.empty 0 = Inr (Some (planned, m))"
      "\<And>f. f \<in> set fs \<Longrightarrow> \<exists>p. ?solve f = Inr (Some p) \<and> planned f = Some p \<and> locals_words (snd p) \<le> m" by (metis (no_types, lifting))
  have "\<exists>plans'. static_plans stacks needs scc r cap planned fs plans = Inr plans'
        \<and> (\<forall>f \<in> set fs. \<exists>plan. plans' f = Some plan \<and> mp_locals_words plan \<le> cap \<and> verify_static_func (stacks f) needs scc r plan = Inr ())"
    if "m \<le> cap"
  proof -
    have "\<exists>p plan. planned f = Some p \<and> static_plan stacks needs scc r cap f p = Inr plan
        \<and> (mp_locals_words plan \<le> cap \<and> verify_static_func (stacks f) needs scc r plan = Inr ())" if f: "f \<in> set fs" for f
    proof -
      from sol [OF f] obtain lc layout where
        s: "?solve f = Inr (Some (choices lc (?calls f) Map.empty, layout))" "good_layout (stacks f) (?calls f) lc layout" by blast
      with p(2) [OF f] have pl: "planned f = Some (choices lc (?calls f) Map.empty, layout)" "locals_words layout \<le> m" by auto
      from needs [OF f] have n: "\<forall>site \<in> set (call_sites (stacks f)). if internal scc r (is_cycle info) site then needs (cs_callee site) \<noteq> None
          else needs (cs_callee site) = need_words (cs_callee site)" by blast
      from fits [OF f] have ff: "stack_fits (stacks f) M" "calls_known scc r (is_cycle info) need_words M (call_sites (stacks f))" "all_sized (stacks f)" by simp_all
      from verify_static_func_ok [where stack = "stacks f" and stacks = stacks and f = f, OF ff(1,2) info refl s(2) refl ff(3) n refl, of cap] obtain plan where
        "static_plan stacks needs scc r cap f (choices lc (?calls f) Map.empty, layout) = Inr plan" "mp_locals_words plan = locals_words layout"
        "verify_static_func (stacks f) needs scc r plan = Inr ()" by blast
      with pl \<open>m \<le> cap\<close> show ?thesis by auto
    qed
    then have "\<forall>f \<in> set fs. \<exists>p plan. planned f = Some p \<and> static_plan stacks needs scc r cap f p = Inr plan
        \<and> (mp_locals_words plan \<le> cap \<and> verify_static_func (stacks f) needs scc r plan = Inr ())" by blast
    from static_plans_ok [OF this, of plans] obtain plans' where
      sp: "static_plans stacks needs scc r cap planned fs plans = Inr plans'"
      "\<forall>f. if f \<in> set fs then \<exists>plan. plans' f = Some plan \<and> mp_locals_words plan \<le> cap \<and> verify_static_func (stacks f) needs scc r plan = Inr ()
         else plans' f = plans f" by blast
    have "\<exists>plan. plans' f = Some plan \<and> mp_locals_words plan \<le> cap \<and> verify_static_func (stacks f) needs scc r plan = Inr ()" if "f \<in> set fs" for f
      using spec [OF sp(2), of f] that by simp
    with sp(1) show ?thesis by blast
  qed
  moreover have "m \<le> arena_limit"
  proof (rule plan_pass_max [OF p(1)])
    fix f ch layout assume f: "f \<in> set fs" and s: "?solve f = Inr (Some (ch, layout))"
    from sol [OF f] s show "locals_words layout \<le> arena_limit" by (auto simp: good_layout_def)
  qed simp
  ultimately show ?thesis using p(1) by blast
qed

text \<open>C15: the estimate panics on a function with four calls that would each save more than the limit, followed by one that saves
  a few words: the penalties saturate the cost, and the next cost is added with a check.\<close>
theorem penalty_overflows:
  assumes heavy: "\<And>c. c \<in> set heavy \<Longrightarrow> \<not> is_internal_scc_call c \<and> callee_need_words c \<noteq> 0 \<and> cm_inst c \<notin> lc
      \<and> (\<exists>ws. compute_call_save_word_offsets stack offs (cm_live_out_objs c) (cm_must_layout_objs c) (callee_need_words c) = Inr ws \<and> 128 < length ws)"
    and "4 \<le> length heavy" and "3 \<le> cost"
    and light: "\<not> is_internal_scc_call c" "callee_need_words c \<noteq> 0" "cm_inst c \<notin> lc" "cm_arg_count c < 256"
      "compute_call_save_word_offsets stack offs (cm_live_out_objs c) (cm_must_layout_objs c) (callee_need_words c) = Inr ws"
      "ws \<noteq> []" "length ws \<le> 128" "\<forall>w \<in> set ws. w < arena_limit"
  shows "calls_cost stack offs words lc cost_model_default (heavy @ c # rest) cost = Inl (Panic ''total cost overflow'')"
proof -
  have pen: "calls_cost stack offs words lc cost_model_default (hs @ cs) x
      = calls_cost stack offs words lc cost_model_default cs ((add_penalty ^^ length hs) x)" if "set hs \<subseteq> set heavy" for hs cs x
    using that
  proof (induction hs arbitrary: x)
    case (Cons h hs)
    from Cons.prems heavy [of h] obtain ws where "\<not> is_internal_scc_call h" "callee_need_words h \<noteq> 0" "cm_inst h \<notin> lc"
      "compute_call_save_word_offsets stack offs (cm_live_out_objs h) (cm_must_layout_objs h) (callee_need_words h) = Inr ws" "128 < length ws" by auto
    with Cons show ?case by (simp add: cost_model_default_def funpow_swap1)
  qed simp
  have eq: "add_penalty x = min 18446744073709551615 (x + 4611686018427387903)" for x by (simp add: add_penalty_def u64_limit_def)
  have "(add_penalty ^^ 4) cost = add_penalty (add_penalty (add_penalty (add_penalty cost)))" by (simp add: eval_nat_numeral)
  then have four: "(add_penalty ^^ 4) cost = u64_limit - 1" using assms(3) by (simp add: eq u64_limit_def min_def)
  have top: "(add_penalty ^^ n) (u64_limit - 1) = u64_limit - 1" for n by (induction n) (simp_all add: add_penalty_def)
  from assms(2) obtain n where "length heavy = n + 4" by (metis add.commute le_Suc_ex)
  then have sat: "(add_penalty ^^ length heavy) cost = u64_limit - 1" using four top [of n] by (simp add: funpow_add)
  let ?k = "length ws" and ?a = "cm_arg_count c"
  have ka: "?k * ?a \<le> 128 * 256" using light(4,7) by (intro mult_mono) auto
  have dc: "div_ceil ?k 16 \<le> 128" using div_ceil_le [of ?k] light(7) by simp
  have "\<exists>g. save_gas ?k ?a (cm_has_return c) = Inr g \<and> 0 < g \<and> g < u64_limit"
    using ka dc light(6,7) by (auto simp: save_gas_def checked_mul_def checked_add_def u64_limit_def Let_def)
  then obtain g where g: "save_gas ?k ?a (cm_has_return c) = Inr g" "0 < g" "g < u64_limit" by blast
  have "0 + 12 * length ws < u64_limit" using light(7) by (simp add: u64_limit_def)
  from save_offsets_bytes_ok [OF light(8) this] obtain b where b: "save_offsets_bytes ws 0 = Inr b" "b \<le> 12 * 128" using light(7) by auto
  have "\<exists>b. save_code_bytes ws ?a (cm_has_return c) = Inr b"
    using b ka dc by (auto simp: save_code_bytes_def checked_mul_def checked_add_def u64_limit_def Let_def)
  then obtain b where "save_code_bytes ws ?a (cm_has_return c) = Inr b" by blast
  then have "save_cost cost_model_default ws c (u64_limit - 1) = Inl (Panic ''total cost overflow'')"
  proof -
    have "\<not> u64_limit - 1 + g < u64_limit" using g(2) by (simp add: u64_limit_def)
    then have "checked_add u64_limit msg (u64_limit - 1) g = Inl (Panic msg)" for msg by (simp add: checked_add_def)
    moreover have "checked_mul u64_limit msg 1 g = Inr g" for msg using g(3) by (simp add: checked_mul_def)
    moreover have "w_save cost_model_default = 1" by (simp add: cost_model_default_def)
    ultimately show ?thesis using g(1) \<open>save_code_bytes _ _ _ = _\<close> by (simp only: save_cost_def Let_def rbind.simps)
  qed
  with light sat pen [of heavy "c # rest" cost] show ?thesis by (simp add: cost_model_default_def)
qed

text \<open>C18: a function with an object without words among those that must be laid out at a call that may overwrite
  something gets a plan, and the verifier of the code rejects this plan: such objects are always at offset 0.\<close>
theorem zero_size_refused:
  assumes "stack_fits stack M" and "calls_known scc r (is_cycle info) need_words M (call_sites stack)" and "cap \<le> arena_limit"
    and "\<not> requires_dynamic_frame stack" and "scc_info scc r = Inr info"
    and site: "site \<in> set (call_sites stack)" "\<not> internal scc r (is_cycle info) site" "need_words (cs_callee site) = Some n" "0 < n"
    and zero: "i \<in> set (must_layout_objs site)" "obj_size_words stack i = Some 0"
  shows "\<exists>p plan. solve_call_preservation_for_func stack need_words scc r (is_cycle info) cost_model_default cap = Inr (Some p)
    \<and> static_plan (\<lambda>_. stack) need_words scc r need_scc f p = Inr plan \<and> verify_static_func stack need_words scc r plan \<noteq> Inr ()"
proof -
  let ?cyc = "is_cycle info"
  define calls where "calls = map (meta_of scc r ?cyc need_words) (filter (relevant scc r ?cyc need_words) (call_sites stack))"
  from solve_ok [OF assms(1-4)] obtain lc layout where
    s: "solve_call_preservation_for_func stack need_words scc r ?cyc cost_model_default cap = Inr (Some (choices lc calls Map.empty, layout))"
      "good_layout stack calls lc layout" unfolding calls_def by blast
  from static_func_ok [OF assms(1,2) calls_def s(2) refl, of need_scc] obtain saves where
    f: "save_plans stack (obj_offset_words layout) (choices lc calls Map.empty) need_words scc r ?cyc need_scc (call_sites stack) Map.empty = Inr saves" by blast
  let ?st = "\<lparr>st_need_words = need_scc, call_choice = choices lc calls Map.empty, call_saves = saves\<rparr>"
  have fin: "finalize_call_save_plans_for_func stack (obj_offset_words layout) (choices lc calls Map.empty) need_words scc r need_scc = Inr saves"
    by (simp add: finalize_call_save_plans_for_func_def assms(5) f)
  have "i \<in> so_id ` set (so_objects stack)" using assms(1) site(1) zero(1) by (auto simp: stack_fits_def site_ok_def)
  then have off: "obj_offset_words layout i = Some 0" using s(2) zero(2) unfolding good_layout_def sized_def by blast
  have int: "\<not> (?cyc \<and> scc_ref scc (cs_callee site) = r)" using site(2) by (simp add: internal_def)
  have "verify_call_site stack need_words scc r ?cyc ?st (obj_offset_words layout) site \<noteq> Inr ()"
    using verify_above_Inl [where offs = "obj_offset_words layout", OF zero(1) off site(4)] site(3,4)
    by (auto simp: verify_call_site_def Let_def int split: option.split)
  then have "verify_call_sites stack need_words scc r ?cyc ?st (obj_offset_words layout) (call_sites stack) \<noteq> Inr ()"
    by (rule verify_call_sites_Inl [OF site(1)])
  then have "verify_static_func stack need_words scc r (func_plan_of (StaticArena ?st) need_scc layout) \<noteq> Inr ()"
    using fin s(2) by (simp add: verify_static_func_def func_plan_of_def assms(5) good_layout_def list_all_iff)
  moreover have "static_plan (\<lambda>_. stack) need_words scc r need_scc f (choices lc calls Map.empty, layout)
      = Inr (func_plan_of (StaticArena ?st) need_scc layout)" using fin by (simp add: static_plan_def)
  ultimately show ?thesis using s(1) by blast
qed

definition sample_caller :: FuncStackObjects where
  "sample_caller = sample_stack\<lparr>call_sites :=
     [\<lparr>cs_inst = 3, cs_callee = 1, cs_has_return = True, cs_arg_count = 2, live_out_objs = [0], must_layout_objs = [1]\<rparr>]\<rparr>"

definition sample_empty_object :: FuncStackObjects where
  "sample_empty_object = sample_stack\<lparr>so_objects :=
      [\<lparr>so_id = 0, so_kind = AllocaObj 2, size_words = 0, interval = \<lparr>iv_start = 2, iv_end = 4\<rparr>, min_offset_words = 0\<rparr>],
     obj_size_words := [0 \<mapsto> 0], call_sites :=
     [\<lparr>cs_inst = 3, cs_callee = 1, cs_has_return = True, cs_arg_count = 2, live_out_objs = [], must_layout_objs = [0]\<rparr>]\<rparr>"

definition sample_sccs :: CallGraphSccs where
  "sample_sccs = \<lparr>scc_map = (\<lambda>f. f), scc_store = [\<lparr>is_cycle = False, components = {0}\<rparr>, \<lparr>is_cycle = False, components = {1}\<rparr>]\<rparr>"

lemma sample_caller_ok:
  "stack_fits sample_caller 2" "calls_known sample_sccs 0 False [1 \<mapsto> 2] 2 (call_sites sample_caller)" "all_sized sample_caller"
  "\<not> requires_dynamic_frame sample_caller" "scc_info sample_sccs 0 = Inr \<lparr>is_cycle = False, components = {0}\<rparr>" "0 \<le> arena_limit"
  by (simp_all add: stack_fits_def objects_fit_def sample_caller_def sample_stack_def arena_limit_def u32_limit_def site_ok_def calls_known_def
      internal_def all_sized_def sized_def scc_info_def index_list_def sample_sccs_def)

theorem call_preservation_safe_witness:
  "\<exists>ch layout. solve_call_preservation_for_func sample_caller [1 \<mapsto> 2] sample_sccs 0 False cost_model_default 0 = Inr (Some (ch, layout))
     \<and> (\<forall>w \<in> obj_words sample_caller (obj_offset_words layout) 1. 2 \<le> w)"
proof -
  have "calls_known sample_sccs 0 (is_cycle \<lparr>is_cycle = False, components = {0}\<rparr>) [1 \<mapsto> 2] 2 (call_sites sample_caller)"
    using sample_caller_ok(2) by simp
  from call_preservation_safe [OF sample_caller_ok(1) this sample_caller_ok(6,4,5), of 0] obtain ch layout where
    s: "solve_call_preservation_for_func sample_caller [1 \<mapsto> 2] sample_sccs 0 False cost_model_default 0 = Inr (Some (ch, layout))"
      "\<forall>site \<in> set (call_sites sample_caller). \<forall>i \<in> set (must_layout_objs site). \<forall>w \<in> obj_words sample_caller (obj_offset_words layout) i.
            clobber_of sample_sccs 0 False [1 \<mapsto> 2] 0 site \<le> w" by auto
  have "\<forall>w \<in> obj_words sample_caller (obj_offset_words layout) 1. 2 \<le> w"
    using s(2) by (simp add: sample_caller_def clobber_of_def internal_def)
  with s(1) show ?thesis by blast
qed

theorem component_pass_verifies_witness:
  "\<exists>planned m plans' plan. plan_pass (\<lambda>f. solve_call_preservation_for_func sample_caller [1 \<mapsto> 2] sample_sccs 0 False cost_model_default arena_limit)
       [0] Map.empty 0 = Inr (Some (planned, m))
     \<and> static_plans (\<lambda>_. sample_caller) [1 \<mapsto> 2] sample_sccs 0 arena_limit planned [0] Map.empty = Inr plans'
     \<and> plans' 0 = Some plan \<and> verify_static_func sample_caller [1 \<mapsto> 2] sample_sccs 0 plan = Inr ()"
proof -
  let ?n = "[1 \<mapsto> 2] :: FuncRef \<Rightarrow> nat option" and ?info = "\<lparr>is_cycle = False, components = {0}\<rparr> :: SccInfo"
  have f: "stack_fits sample_caller 2 \<and> all_sized sample_caller \<and> \<not> requires_dynamic_frame sample_caller
      \<and> calls_known sample_sccs 0 (is_cycle ?info) ?n 2 (call_sites sample_caller)"
    using sample_caller_ok by simp
  have n: "if internal sample_sccs 0 (is_cycle ?info) site then ?n (cs_callee site) \<noteq> None else ?n (cs_callee site) = ?n (cs_callee site)" for site
    by (simp add: internal_def)
  from component_pass_verifies [where fs = "[0]" and stacks = "\<lambda>_. sample_caller" and need_words = ?n and needs = ?n and plans = Map.empty,
      OF sample_caller_ok(5) order_refl f n]
  obtain planned m where
    p: "plan_pass (\<lambda>f. solve_call_preservation_for_func sample_caller ?n sample_sccs 0 (is_cycle ?info) cost_model_default arena_limit) [0] Map.empty 0
      = Inr (Some (planned, m))" "m \<le> arena_limit" and
    v: "m \<le> arena_limit \<longrightarrow> (\<exists>plans'. static_plans (\<lambda>_. sample_caller) ?n sample_sccs 0 arena_limit planned [0] Map.empty = Inr plans'
        \<and> (\<forall>f \<in> set [0]. \<exists>plan. plans' f = Some plan \<and> mp_locals_words plan \<le> arena_limit
            \<and> verify_static_func sample_caller ?n sample_sccs 0 plan = Inr ()))" by blast
  from v p(2) obtain plans' where pl: "static_plans (\<lambda>_. sample_caller) ?n sample_sccs 0 arena_limit planned [0] Map.empty = Inr plans'"
    "\<forall>f \<in> set [0]. \<exists>plan. plans' f = Some plan \<and> mp_locals_words plan \<le> arena_limit \<and> verify_static_func sample_caller ?n sample_sccs 0 plan = Inr ()"
    by blast
  from pl(2) obtain plan where "plans' 0 = Some plan" "verify_static_func sample_caller ?n sample_sccs 0 plan = Inr ()" by auto
  with p(1) pl(1) show ?thesis by auto
qed

theorem zero_size_refused_witness:
  "\<exists>p plan. solve_call_preservation_for_func sample_empty_object [1 \<mapsto> 2] sample_sccs 0 False cost_model_default 0 = Inr (Some p)
     \<and> static_plan (\<lambda>_. sample_empty_object) [1 \<mapsto> 2] sample_sccs 0 2 0 p = Inr plan
     \<and> verify_static_func sample_empty_object [1 \<mapsto> 2] sample_sccs 0 plan \<noteq> Inr ()"
proof -
  let ?site = "\<lparr>cs_inst = 3, cs_callee = 1, cs_has_return = True, cs_arg_count = 2, live_out_objs = [], must_layout_objs = [0]\<rparr>"
  let ?info = "\<lparr>is_cycle = False, components = {0}\<rparr> :: SccInfo"
  have h: "stack_fits sample_empty_object 2" "calls_known sample_sccs 0 (is_cycle ?info) [1 \<mapsto> 2] 2 (call_sites sample_empty_object)"
    "\<not> requires_dynamic_frame sample_empty_object" "?site \<in> set (call_sites sample_empty_object)"
    "\<not> internal sample_sccs 0 (is_cycle ?info) ?site" "[1 \<mapsto> 2] (cs_callee ?site) = Some 2" "0 \<in> set (must_layout_objs ?site)"
    "obj_size_words sample_empty_object 0 = Some 0"
    by (simp_all add: stack_fits_def objects_fit_def sample_empty_object_def sample_stack_def arena_limit_def u32_limit_def site_ok_def calls_known_def internal_def)
  from zero_size_refused [where need_words = "[1 \<mapsto> 2]", OF h(1,2) sample_caller_ok(6) h(3) sample_caller_ok(5) h(4-6) _ h(7,8), of 2 0] show ?thesis by simp
qed

text \<open>Five calls that may overwrite 200 words, with an object of 129 words live across four of them.\<close>

definition sample_big :: FuncStackObjects where
  "sample_big = sample_stack\<lparr>obj_size_words := [0 \<mapsto> 129, 1 \<mapsto> 1]\<rparr>"

definition sample_meta :: "InstId \<Rightarrow> StackObjId \<Rightarrow> CallMeta" where
  "sample_meta inst i = \<lparr>cm_inst = inst, callee_need_words = 200, cm_has_return = False, is_internal_scc_call = False, cm_arg_count = 0,
     cm_live_out_objs = [i], cm_must_layout_objs = []\<rparr>"

theorem penalty_overflows_witness:
  "calls_cost sample_big [0 \<mapsto> 0, 1 \<mapsto> 129] 130 {} cost_model_default
     [sample_meta 0 0, sample_meta 1 0, sample_meta 2 0, sample_meta 3 0, sample_meta 4 1] 18 = Inl (Panic ''total cost overflow'')"
proof -
  have w: "compute_call_save_word_offsets sample_big [0 \<mapsto> 0, 1 \<mapsto> 129] [0] [] 200 = Inr (remdups_adj (sort [0..<129]))"
    "compute_call_save_word_offsets sample_big [0 \<mapsto> 0, 1 \<mapsto> 129] [1] [] 200 = Inr [129]"
    by (simp_all add: compute_call_save_word_offsets_def sample_big_def checked_add_def u32_limit_def)
  have l: "length (remdups_adj (sort [0..<129])) = 129"
    using distinct_card [OF remdups_adj_sort(1), of "[0..<129]"] by (simp add: remdups_adj_sort(2))
  have "calls_cost sample_big [0 \<mapsto> 0, 1 \<mapsto> 129] 130 {} cost_model_default
      ([sample_meta 0 0, sample_meta 1 0, sample_meta 2 0, sample_meta 3 0] @ sample_meta 4 1 # []) 18 = Inl (Panic ''total cost overflow'')"
  proof (rule penalty_overflows)
    fix c assume "c \<in> set [sample_meta 0 0, sample_meta 1 0, sample_meta 2 0, sample_meta 3 0]"
    then obtain k where c: "c = sample_meta k 0" by auto
    have "\<exists>ws. compute_call_save_word_offsets sample_big [0 \<mapsto> 0, 1 \<mapsto> 129] [0] [] 200 = Inr ws \<and> 128 < length ws"
      unfolding w(1) using l by simp
    then show "\<not> is_internal_scc_call c \<and> callee_need_words c \<noteq> 0 \<and> cm_inst c \<notin> {}
      \<and> (\<exists>ws. compute_call_save_word_offsets sample_big [0 \<mapsto> 0, 1 \<mapsto> 129] (cm_live_out_objs c) (cm_must_layout_objs c) (callee_need_words c) = Inr ws \<and> 128 < length ws)"
      unfolding c by (simp add: sample_meta_def)
  next
    show "compute_call_save_word_offsets sample_big [0 \<mapsto> 0, 1 \<mapsto> 129] (cm_live_out_objs (sample_meta 4 1)) (cm_must_layout_objs (sample_meta 4 1))
        (callee_need_words (sample_meta 4 1)) = Inr [129]" using w(2) by (simp add: sample_meta_def)
  qed (simp_all add: sample_meta_def arena_limit_def)
  then show ?thesis by simp
qed

end
