(* ===== verification/Opcodes.thy ===== *)
theory Opcodes
  imports Main "HOL-Library.Word"
begin

text \<open>
  \<open>crates/codegen/src/isa/evm/opcode.rs\<close>: the opcodes of the EVM. The enum is \<open>repr(u8)\<close> with every
  discriminant given, so an opcode is its byte.
\<close>

named_theorems opcode_defs

type_synonym OpCode = "8 word"

text \<open>\<open>as u8\<close>\<close>

definition op_byte :: "OpCode \<Rightarrow> 8 word" where
  "op_byte opc = opc"

definition OP_STOP :: OpCode where [opcode_defs]: "OP_STOP = 0x00"

definition OP_ADD :: OpCode where [opcode_defs]: "OP_ADD = 0x01"

definition OP_MUL :: OpCode where [opcode_defs]: "OP_MUL = 0x02"

definition OP_SUB :: OpCode where [opcode_defs]: "OP_SUB = 0x03"

definition OP_DIV :: OpCode where [opcode_defs]: "OP_DIV = 0x04"

definition OP_SDIV :: OpCode where [opcode_defs]: "OP_SDIV = 0x05"

definition OP_MOD :: OpCode where [opcode_defs]: "OP_MOD = 0x06"

definition OP_SMOD :: OpCode where [opcode_defs]: "OP_SMOD = 0x07"

definition OP_ADDMOD :: OpCode where [opcode_defs]: "OP_ADDMOD = 0x08"

definition OP_MULMOD :: OpCode where [opcode_defs]: "OP_MULMOD = 0x09"

definition OP_EXP :: OpCode where [opcode_defs]: "OP_EXP = 0x0A"

definition OP_SIGNEXTEND :: OpCode where [opcode_defs]: "OP_SIGNEXTEND = 0x0B"

definition OP_LT :: OpCode where [opcode_defs]: "OP_LT = 0x10"

definition OP_GT :: OpCode where [opcode_defs]: "OP_GT = 0x11"

definition OP_SLT :: OpCode where [opcode_defs]: "OP_SLT = 0x12"

definition OP_SGT :: OpCode where [opcode_defs]: "OP_SGT = 0x13"

definition OP_EQ :: OpCode where [opcode_defs]: "OP_EQ = 0x14"

definition OP_ISZERO :: OpCode where [opcode_defs]: "OP_ISZERO = 0x15"

definition OP_AND :: OpCode where [opcode_defs]: "OP_AND = 0x16"

definition OP_OR :: OpCode where [opcode_defs]: "OP_OR = 0x17"

definition OP_XOR :: OpCode where [opcode_defs]: "OP_XOR = 0x18"

definition OP_NOT :: OpCode where [opcode_defs]: "OP_NOT = 0x19"

definition OP_BYTE :: OpCode where [opcode_defs]: "OP_BYTE = 0x1A"

definition OP_SHL :: OpCode where [opcode_defs]: "OP_SHL = 0x1B"

definition OP_SHR :: OpCode where [opcode_defs]: "OP_SHR = 0x1C"

definition OP_SAR :: OpCode where [opcode_defs]: "OP_SAR = 0x1D"

definition OP_CLZ :: OpCode where [opcode_defs]: "OP_CLZ = 0x1E"

definition OP_KECCAK256 :: OpCode where [opcode_defs]: "OP_KECCAK256 = 0x20"

definition OP_ADDRESS :: OpCode where [opcode_defs]: "OP_ADDRESS = 0x30"

definition OP_BALANCE :: OpCode where [opcode_defs]: "OP_BALANCE = 0x31"

definition OP_ORIGIN :: OpCode where [opcode_defs]: "OP_ORIGIN = 0x32"

definition OP_CALLER :: OpCode where [opcode_defs]: "OP_CALLER = 0x33"

definition OP_CALLVALUE :: OpCode where [opcode_defs]: "OP_CALLVALUE = 0x34"

definition OP_CALLDATALOAD :: OpCode where [opcode_defs]: "OP_CALLDATALOAD = 0x35"

definition OP_CALLDATASIZE :: OpCode where [opcode_defs]: "OP_CALLDATASIZE = 0x36"

definition OP_CALLDATACOPY :: OpCode where [opcode_defs]: "OP_CALLDATACOPY = 0x37"

definition OP_CODESIZE :: OpCode where [opcode_defs]: "OP_CODESIZE = 0x38"

definition OP_CODECOPY :: OpCode where [opcode_defs]: "OP_CODECOPY = 0x39"

definition OP_GASPRICE :: OpCode where [opcode_defs]: "OP_GASPRICE = 0x3A"

definition OP_EXTCODESIZE :: OpCode where [opcode_defs]: "OP_EXTCODESIZE = 0x3B"

definition OP_EXTCODECOPY :: OpCode where [opcode_defs]: "OP_EXTCODECOPY = 0x3C"

definition OP_RETURNDATASIZE :: OpCode where [opcode_defs]: "OP_RETURNDATASIZE = 0x3D"

definition OP_RETURNDATACOPY :: OpCode where [opcode_defs]: "OP_RETURNDATACOPY = 0x3E"

definition OP_EXTCODEHASH :: OpCode where [opcode_defs]: "OP_EXTCODEHASH = 0x3F"

definition OP_BLOCKHASH :: OpCode where [opcode_defs]: "OP_BLOCKHASH = 0x40"

definition OP_COINBASE :: OpCode where [opcode_defs]: "OP_COINBASE = 0x41"

definition OP_TIMESTAMP :: OpCode where [opcode_defs]: "OP_TIMESTAMP = 0x42"

definition OP_NUMBER :: OpCode where [opcode_defs]: "OP_NUMBER = 0x43"

definition OP_PREVRANDAO :: OpCode where [opcode_defs]: "OP_PREVRANDAO = 0x44"

definition OP_GASLIMIT :: OpCode where [opcode_defs]: "OP_GASLIMIT = 0x45"

definition OP_CHAINID :: OpCode where [opcode_defs]: "OP_CHAINID = 0x46"

definition OP_SELFBALANCE :: OpCode where [opcode_defs]: "OP_SELFBALANCE = 0x47"

definition OP_BASEFEE :: OpCode where [opcode_defs]: "OP_BASEFEE = 0x48"

definition OP_BLOBHASH :: OpCode where [opcode_defs]: "OP_BLOBHASH = 0x49"

definition OP_BLOBBASEFEE :: OpCode where [opcode_defs]: "OP_BLOBBASEFEE = 0x4A"

definition OP_POP :: OpCode where [opcode_defs]: "OP_POP = 0x50"

definition OP_MLOAD :: OpCode where [opcode_defs]: "OP_MLOAD = 0x51"

definition OP_MSTORE :: OpCode where [opcode_defs]: "OP_MSTORE = 0x52"

definition OP_MSTORE8 :: OpCode where [opcode_defs]: "OP_MSTORE8 = 0x53"

definition OP_SLOAD :: OpCode where [opcode_defs]: "OP_SLOAD = 0x54"

definition OP_SSTORE :: OpCode where [opcode_defs]: "OP_SSTORE = 0x55"

definition OP_JUMP :: OpCode where [opcode_defs]: "OP_JUMP = 0x56"

definition OP_JUMPI :: OpCode where [opcode_defs]: "OP_JUMPI = 0x57"

definition OP_PC :: OpCode where [opcode_defs]: "OP_PC = 0x58"

definition OP_MSIZE :: OpCode where [opcode_defs]: "OP_MSIZE = 0x59"

definition OP_GAS :: OpCode where [opcode_defs]: "OP_GAS = 0x5A"

definition OP_JUMPDEST :: OpCode where [opcode_defs]: "OP_JUMPDEST = 0x5B"

definition OP_TLOAD :: OpCode where [opcode_defs]: "OP_TLOAD = 0x5C"

definition OP_TSTORE :: OpCode where [opcode_defs]: "OP_TSTORE = 0x5D"

definition OP_MCOPY :: OpCode where [opcode_defs]: "OP_MCOPY = 0x5E"

definition OP_PUSH0 :: OpCode where [opcode_defs]: "OP_PUSH0 = 0x5F"

definition OP_PUSH1 :: OpCode where [opcode_defs]: "OP_PUSH1 = 0x60"

definition OP_PUSH2 :: OpCode where [opcode_defs]: "OP_PUSH2 = 0x61"

definition OP_PUSH3 :: OpCode where [opcode_defs]: "OP_PUSH3 = 0x62"

definition OP_PUSH4 :: OpCode where [opcode_defs]: "OP_PUSH4 = 0x63"

definition OP_PUSH5 :: OpCode where [opcode_defs]: "OP_PUSH5 = 0x64"

definition OP_PUSH6 :: OpCode where [opcode_defs]: "OP_PUSH6 = 0x65"

definition OP_PUSH7 :: OpCode where [opcode_defs]: "OP_PUSH7 = 0x66"

definition OP_PUSH8 :: OpCode where [opcode_defs]: "OP_PUSH8 = 0x67"

definition OP_PUSH9 :: OpCode where [opcode_defs]: "OP_PUSH9 = 0x68"

definition OP_PUSH10 :: OpCode where [opcode_defs]: "OP_PUSH10 = 0x69"

definition OP_PUSH11 :: OpCode where [opcode_defs]: "OP_PUSH11 = 0x6A"

definition OP_PUSH12 :: OpCode where [opcode_defs]: "OP_PUSH12 = 0x6B"

definition OP_PUSH13 :: OpCode where [opcode_defs]: "OP_PUSH13 = 0x6C"

definition OP_PUSH14 :: OpCode where [opcode_defs]: "OP_PUSH14 = 0x6D"

definition OP_PUSH15 :: OpCode where [opcode_defs]: "OP_PUSH15 = 0x6E"

definition OP_PUSH16 :: OpCode where [opcode_defs]: "OP_PUSH16 = 0x6F"

definition OP_PUSH17 :: OpCode where [opcode_defs]: "OP_PUSH17 = 0x70"

definition OP_PUSH18 :: OpCode where [opcode_defs]: "OP_PUSH18 = 0x71"

definition OP_PUSH19 :: OpCode where [opcode_defs]: "OP_PUSH19 = 0x72"

definition OP_PUSH20 :: OpCode where [opcode_defs]: "OP_PUSH20 = 0x73"

definition OP_PUSH21 :: OpCode where [opcode_defs]: "OP_PUSH21 = 0x74"

definition OP_PUSH22 :: OpCode where [opcode_defs]: "OP_PUSH22 = 0x75"

definition OP_PUSH23 :: OpCode where [opcode_defs]: "OP_PUSH23 = 0x76"

definition OP_PUSH24 :: OpCode where [opcode_defs]: "OP_PUSH24 = 0x77"

definition OP_PUSH25 :: OpCode where [opcode_defs]: "OP_PUSH25 = 0x78"

definition OP_PUSH26 :: OpCode where [opcode_defs]: "OP_PUSH26 = 0x79"

definition OP_PUSH27 :: OpCode where [opcode_defs]: "OP_PUSH27 = 0x7A"

definition OP_PUSH28 :: OpCode where [opcode_defs]: "OP_PUSH28 = 0x7B"

definition OP_PUSH29 :: OpCode where [opcode_defs]: "OP_PUSH29 = 0x7C"

definition OP_PUSH30 :: OpCode where [opcode_defs]: "OP_PUSH30 = 0x7D"

definition OP_PUSH31 :: OpCode where [opcode_defs]: "OP_PUSH31 = 0x7E"

definition OP_PUSH32 :: OpCode where [opcode_defs]: "OP_PUSH32 = 0x7F"

definition OP_DUP1 :: OpCode where [opcode_defs]: "OP_DUP1 = 0x80"

definition OP_DUP2 :: OpCode where [opcode_defs]: "OP_DUP2 = 0x81"

definition OP_DUP3 :: OpCode where [opcode_defs]: "OP_DUP3 = 0x82"

definition OP_DUP4 :: OpCode where [opcode_defs]: "OP_DUP4 = 0x83"

definition OP_DUP5 :: OpCode where [opcode_defs]: "OP_DUP5 = 0x84"

definition OP_DUP6 :: OpCode where [opcode_defs]: "OP_DUP6 = 0x85"

definition OP_DUP7 :: OpCode where [opcode_defs]: "OP_DUP7 = 0x86"

definition OP_DUP8 :: OpCode where [opcode_defs]: "OP_DUP8 = 0x87"

definition OP_DUP9 :: OpCode where [opcode_defs]: "OP_DUP9 = 0x88"

definition OP_DUP10 :: OpCode where [opcode_defs]: "OP_DUP10 = 0x89"

definition OP_DUP11 :: OpCode where [opcode_defs]: "OP_DUP11 = 0x8A"

definition OP_DUP12 :: OpCode where [opcode_defs]: "OP_DUP12 = 0x8B"

definition OP_DUP13 :: OpCode where [opcode_defs]: "OP_DUP13 = 0x8C"

definition OP_DUP14 :: OpCode where [opcode_defs]: "OP_DUP14 = 0x8D"

definition OP_DUP15 :: OpCode where [opcode_defs]: "OP_DUP15 = 0x8E"

definition OP_DUP16 :: OpCode where [opcode_defs]: "OP_DUP16 = 0x8F"

definition OP_SWAP1 :: OpCode where [opcode_defs]: "OP_SWAP1 = 0x90"

definition OP_SWAP2 :: OpCode where [opcode_defs]: "OP_SWAP2 = 0x91"

definition OP_SWAP3 :: OpCode where [opcode_defs]: "OP_SWAP3 = 0x92"

definition OP_SWAP4 :: OpCode where [opcode_defs]: "OP_SWAP4 = 0x93"

definition OP_SWAP5 :: OpCode where [opcode_defs]: "OP_SWAP5 = 0x94"

definition OP_SWAP6 :: OpCode where [opcode_defs]: "OP_SWAP6 = 0x95"

definition OP_SWAP7 :: OpCode where [opcode_defs]: "OP_SWAP7 = 0x96"

definition OP_SWAP8 :: OpCode where [opcode_defs]: "OP_SWAP8 = 0x97"

definition OP_SWAP9 :: OpCode where [opcode_defs]: "OP_SWAP9 = 0x98"

definition OP_SWAP10 :: OpCode where [opcode_defs]: "OP_SWAP10 = 0x99"

definition OP_SWAP11 :: OpCode where [opcode_defs]: "OP_SWAP11 = 0x9A"

definition OP_SWAP12 :: OpCode where [opcode_defs]: "OP_SWAP12 = 0x9B"

definition OP_SWAP13 :: OpCode where [opcode_defs]: "OP_SWAP13 = 0x9C"

definition OP_SWAP14 :: OpCode where [opcode_defs]: "OP_SWAP14 = 0x9D"

definition OP_SWAP15 :: OpCode where [opcode_defs]: "OP_SWAP15 = 0x9E"

definition OP_SWAP16 :: OpCode where [opcode_defs]: "OP_SWAP16 = 0x9F"

definition OP_LOG0 :: OpCode where [opcode_defs]: "OP_LOG0 = 0xA0"

definition OP_LOG1 :: OpCode where [opcode_defs]: "OP_LOG1 = 0xA1"

definition OP_LOG2 :: OpCode where [opcode_defs]: "OP_LOG2 = 0xA2"

definition OP_LOG3 :: OpCode where [opcode_defs]: "OP_LOG3 = 0xA3"

definition OP_LOG4 :: OpCode where [opcode_defs]: "OP_LOG4 = 0xA4"

definition OP_CREATE :: OpCode where [opcode_defs]: "OP_CREATE = 0xF0"

definition OP_CALL :: OpCode where [opcode_defs]: "OP_CALL = 0xF1"

definition OP_CALLCODE :: OpCode where [opcode_defs]: "OP_CALLCODE = 0xF2"

definition OP_RETURN :: OpCode where [opcode_defs]: "OP_RETURN = 0xF3"

definition OP_DELEGATECALL :: OpCode where [opcode_defs]: "OP_DELEGATECALL = 0xF4"

definition OP_CREATE2 :: OpCode where [opcode_defs]: "OP_CREATE2 = 0xF5"

definition OP_STATICCALL :: OpCode where [opcode_defs]: "OP_STATICCALL = 0xFA"

definition OP_REVERT :: OpCode where [opcode_defs]: "OP_REVERT = 0xFD"

definition OP_INVALID :: OpCode where [opcode_defs]: "OP_INVALID = 0xFE"

definition OP_SELFDESTRUCT :: OpCode where [opcode_defs]: "OP_SELFDESTRUCT = 0xFF"

end
