(* ===== verification/Typing.thy ===== *)
theory Typing
  imports Eval
begin

text \<open>
  A typing of the instructions without side effects and its soundness for \<open>interpret/*.rs\<close>. The
  repository has no type checker: \<open>EvalValue::with_imm\<close> and the debug assertions of
  \<open>Immediate\<close> panic on ill-typed operands. \<open>result_ty\<close> gives the type of an instruction's result
  from those of its operands, for the instructions that work on scalars only: unary and binary
  arithmetic, logic, shifts, comparisons, casts, symbol references and the eight EVM operations
  that \<open>interpret/evm\<close> implements. It gives none to instructions on memory, aggregates and control
  flow (\<open>Gep\<close>, \<open>InsertValue\<close>, \<open>ExtractValue\<close> and \<open>Phi\<close> among them) nor to the other EVM
  instructions, whose \<open>Interpret\<close> panics. Well-typed instructions then evaluate without a panic
  to a value of that type, except where a signed division or remainder has the negative zero of
  \<open>I256\<close> as its result (\<open>imm_sdiv_srem\<close>).
\<close>

section \<open>Types of values and of instructions\<close>

text \<open>A pointer is an immediate of the pointer representation; an aggregate is no operand of these instructions.\<close>

fun repr_ty :: "IrType \<Rightarrow> IrType" where
  "repr_ty (Compound _) = evm_pointer_repl"
| "repr_ty ty = ty"

fun value_has_ty :: "EvalValue \<Rightarrow> IrType \<Rightarrow> bool" where
  "value_has_ty (EImm imm) ty \<longleftrightarrow> imm_ok imm \<and> imm_ty imm = repr_ty ty"
| "value_has_ty (Aggregate _ _) ty \<longleftrightarrow> False"
| "value_has_ty Undef ty \<longleftrightarrow> True"

lemma repr_ty_integral [simp]: "is_integral ty \<Longrightarrow> repr_ty ty = ty"
  by (cases ty) (auto simp: is_integral_def)

lemma value_has_ty_repr: "value_has_ty v ty \<Longrightarrow> repr_ty ty = repr_ty ty' \<Longrightarrow> value_has_ty v ty'"
  by (cases v) auto

lemma imm_ok_I1 [simp]: "imm_ok (Imm_I1 b)"
  by (simp add: imm_ok_def)

definition same_ty :: "(ValueId \<Rightarrow> IrType) \<Rightarrow> ValueId list \<Rightarrow> IrType \<Rightarrow> IrType option" where
  "same_ty vty vs ty = (if \<forall>v \<in> set vs. repr_ty (vty v) = repr_ty (vty (hd vs)) then Some ty else None)"

definition evm_result_ty :: "(ValueId \<Rightarrow> IrType) \<Rightarrow> EvmOp \<Rightarrow> ValueId list \<Rightarrow> IrType option" where
  "evm_result_ty vty op vs =
     (if length vs = 2 \<and> op \<in> {EvmUdiv, EvmUmod, EvmSdiv, EvmSmod, EvmExp, EvmByte}
         \<or> length vs = 3 \<and> op \<in> {EvmAddMod, EvmMulMod}
      then same_ty vty vs (vty (hd vs)) else None)"

fun result_ty :: "(ValueId \<Rightarrow> IrType) \<Rightarrow> inst \<Rightarrow> IrType option" where
  "result_ty vty (Neg a) = Some (vty a)"
| "result_ty vty (Not a) = Some (vty a)"
| "result_ty vty (IsZero a) = Some Ty_I1"
| "result_ty vty (Add a b) = same_ty vty [a, b] (vty a)"
| "result_ty vty (Sub a b) = same_ty vty [a, b] (vty a)"
| "result_ty vty (Mul a b) = same_ty vty [a, b] (vty a)"
| "result_ty vty (Sdiv a b) = same_ty vty [a, b] (vty a)"
| "result_ty vty (Udiv a b) = same_ty vty [a, b] (vty a)"
| "result_ty vty (Umod a b) = same_ty vty [a, b] (vty a)"
| "result_ty vty (Smod a b) = same_ty vty [a, b] (vty a)"
| "result_ty vty (And a b) = same_ty vty [a, b] (vty a)"
| "result_ty vty (Or a b) = same_ty vty [a, b] (vty a)"
| "result_ty vty (Xor a b) = same_ty vty [a, b] (vty a)"
| "result_ty vty (Shl bits a) = same_ty vty [bits, a] (vty a)"
| "result_ty vty (Shr bits a) = same_ty vty [bits, a] (vty a)"
| "result_ty vty (Sar bits a) = same_ty vty [bits, a] (vty a)"
| "result_ty vty (Lt a b) = same_ty vty [a, b] Ty_I1"
| "result_ty vty (Gt a b) = same_ty vty [a, b] Ty_I1"
| "result_ty vty (Le a b) = same_ty vty [a, b] Ty_I1"
| "result_ty vty (Ge a b) = same_ty vty [a, b] Ty_I1"
| "result_ty vty (Slt a b) = same_ty vty [a, b] Ty_I1"
| "result_ty vty (Sgt a b) = same_ty vty [a, b] Ty_I1"
| "result_ty vty (Sle a b) = same_ty vty [a, b] Ty_I1"
| "result_ty vty (Sge a b) = same_ty vty [a, b] Ty_I1"
| "result_ty vty (Eq a b) = same_ty vty [a, b] Ty_I1"
| "result_ty vty (Ne a b) = same_ty vty [a, b] Ty_I1"
| "result_ty vty (Sext a ty) = (if is_integral ty \<and> repr_ty (vty a) \<le> ty then Some ty else None)"
| "result_ty vty (Zext a ty) = (if is_integral ty \<and> repr_ty (vty a) \<le> ty then Some ty else None)"
| "result_ty vty (Trunc a ty) = (if is_integral ty \<and> ty \<le> repr_ty (vty a) then Some ty else None)"
| "result_ty vty (Bitcast a ty) = (if repr_ty (vty a) = repr_ty ty then Some ty else None)"
| "result_ty vty (IntToPtr a ty) = (if is_integral (vty a) \<and> repr_ty ty = evm_pointer_repl then Some ty else None)"
| "result_ty vty (PtrToInt a ty) = (if is_integral ty \<and> repr_ty (vty a) = evm_pointer_repl then Some ty else None)"
| "result_ty vty (GetFunctionPtr _) = Some evm_pointer_repl"
| "result_ty vty (SymAddr _) = Some evm_pointer_repl"
| "result_ty vty (SymSize _) = Some evm_pointer_repl"
| "result_ty vty (Evm op vs) = evm_result_ty vty op vs"
| "result_ty vty _ = None"

fun signed_division :: "inst \<Rightarrow> bool" where
  "signed_division (Sdiv _ _) = True"
| "signed_division (Smod _ _) = True"
| "signed_division (Evm op _) = (op \<in> {EvmSdiv, EvmSmod})"
| "signed_division _ = False"

text \<open>The signed divisions whose result is zero while the signs of the operands say negative.\<close>

fun divides_to_negative_zero :: "(int \<Rightarrow> int \<Rightarrow> bool) \<Rightarrow> EvalValue \<Rightarrow> EvalValue \<Rightarrow> bool" where
  "divides_to_negative_zero P (EImm x) (EImm y) \<longleftrightarrow> imm_sval y \<noteq> 0 \<and> P (imm_sval x) (imm_sval y)"
| "divides_to_negative_zero P _ _ \<longleftrightarrow> False"

fun negative_zero :: "(ValueId \<Rightarrow> EvalValue) \<Rightarrow> inst \<Rightarrow> bool" where
  "negative_zero env (Sdiv a b) \<longleftrightarrow> divides_to_negative_zero div_negative_zero (env a) (env b)"
| "negative_zero env (Smod a b) \<longleftrightarrow> divides_to_negative_zero rem_negative_zero (env a) (env b)"
| "negative_zero env (Evm op [a, b]) \<longleftrightarrow>
     op = EvmSdiv \<and> divides_to_negative_zero div_negative_zero (env a) (env b)
   \<or> op = EvmSmod \<and> divides_to_negative_zero rem_negative_zero (env a) (env b)"
| "negative_zero env _ \<longleftrightarrow> False"

fun is_cast :: "inst \<Rightarrow> bool" where
  "is_cast (Sext _ _) = True"
| "is_cast (Zext _ _) = True"
| "is_cast (Trunc _ _) = True"
| "is_cast (Bitcast _ _) = True"
| "is_cast (IntToPtr _ _) = True"
| "is_cast (PtrToInt _ _) = True"
| "is_cast _ = False"

section \<open>Operations on immediates of one type succeed\<close>

text \<open>\<open>gives ty r\<close>: an immediate of type \<open>ty\<close> and no panic.\<close>

definition gives :: "IrType \<Rightarrow> fault + Immediate \<Rightarrow> bool" where
  "gives ty r \<longleftrightarrow> (\<exists>imm. r = Inr imm \<and> imm_ok imm \<and> imm_ty imm = ty)"

lemma gives_Inr [simp]: "gives ty (Inr imm) \<longleftrightarrow> imm_ok imm \<and> imm_ty imm = ty"
  by (simp add: gives_def)

lemma gives_from_i256: "i256_ok i \<Longrightarrow> is_integral ty \<Longrightarrow> gives ty (from_i256 i ty)"
  using from_i256_int [of i ty] by (auto simp: gives_def)

lemma imm_is_zero_word: "imm_ok a \<Longrightarrow> imm_is_zero a \<longleftrightarrow> imm_word a = 0"
  by (simp add: imm_is_zero_def as_i256_eq)

lemma gives_raw: "imm_ok a \<Longrightarrow> imm_ok b \<Longrightarrow> imm_ty a = imm_ty b \<Longrightarrow>
    gives Ty_I1 (apply_binop_raw a b (u256_rel R)) \<and> gives Ty_I1 (apply_binop_raw a b (\<lambda>l r. Inr (Imm_I1 (Q l r))))"
  by (simp add: apply_binop_raw_eq u256_rel_def imm_ok_def)

lemma gives_binops:
  assumes "imm_ok a" "imm_ok b" "imm_ty a = imm_ty b"
  shows "gives (imm_ty a) (imm_add a b)" "gives (imm_ty a) (imm_sub a b)" "gives (imm_ty a) (imm_mul a b)"
    "gives (imm_ty a) (imm_and a b)" "gives (imm_ty a) (imm_or a b)" "gives (imm_ty a) (imm_xor a b)"
    "gives (imm_ty b) (imm_shl b a)" "gives (imm_ty b) (imm_shr b a)" "gives (imm_ty b) (sar_imm a b)"
    "imm_word b \<noteq> 0 \<Longrightarrow> gives (imm_ty a) (imm_udiv a b)" "imm_word b \<noteq> 0 \<Longrightarrow> gives (imm_ty a) (imm_urem a b)"
    "gives Ty_I1 (imm_lt a b)" "gives Ty_I1 (imm_gt a b)" "gives Ty_I1 (imm_le a b)" "gives Ty_I1 (imm_ge a b)"
    "gives Ty_I1 (imm_slt a b)" "gives Ty_I1 (imm_sgt a b)" "gives Ty_I1 (imm_sle a b)" "gives Ty_I1 (imm_sge a b)"
    "gives Ty_I1 (imm_eq a b)" "gives Ty_I1 (imm_ne a b)"
  using imm_ops_word [OF assms] imm_ops_word [OF assms(2,1) assms(3) [symmetric]] imm_div_word [OF assms] gives_raw [OF assms] assms(3)
  by (simp_all add: sar_imm_def imm_unops_word assert_that_def imm_lt_def imm_gt_def imm_le_def imm_ge_def imm_slt_def imm_sgt_def
      imm_sle_def imm_sge_def imm_eq_def imm_ne_def) 

lemma gives_unops:
  assumes "imm_ok a"
  shows "gives (imm_ty a) (imm_neg a)" "gives (imm_ty a) (imm_not a)"
    "is_integral ty \<Longrightarrow> imm_ty a \<le> ty \<Longrightarrow> gives ty (imm_sext a ty)"
    "is_integral ty \<Longrightarrow> imm_ty a \<le> ty \<Longrightarrow> gives ty (imm_zext a ty)"
    "is_integral ty \<Longrightarrow> ty \<le> imm_ty a \<Longrightarrow> gives ty (imm_trunc a ty)"
  using assms as_i256_int [OF assms] zext_i256_int [OF assms]
  by (simp_all add: imm_unops_word imm_sext_def imm_zext_def imm_trunc_def gives_from_i256)


lemma gives_ptr_casts:
  assumes "imm_ok a"
  shows "repr_ty ty = evm_pointer_repl \<Longrightarrow> gives evm_pointer_repl (int_to_ptr_imm ty a)"
    and "is_integral ty \<Longrightarrow> imm_ty a = evm_pointer_repl \<Longrightarrow> gives ty (ptr_to_int_imm ty a)"
proof -
  have repl: "is_integral evm_pointer_repl" "ty_bits evm_pointer_repl = 256" by (simp_all add: evm_pointer_repl_def is_integral_def)
  have le: "ty \<le> evm_pointer_repl" if "is_integral ty" for ty
    using that repl integral_bits [OF that] by (simp add: ty_le_bits)
  have not: "\<not> evm_pointer_repl < ty" if "repr_ty ty = evm_pointer_repl \<or> is_integral ty" for ty
    using that le [of ty] by (cases ty) (auto simp: evm_pointer_repl_def less_le_not_le ty_le_iff is_integral_def)
  show "repr_ty ty = evm_pointer_repl \<Longrightarrow> gives evm_pointer_repl (int_to_ptr_imm ty a)"
    using gives_unops(4) [OF assms repl(1) le] not by (simp add: int_to_ptr_imm_def)
  show "is_integral ty \<Longrightarrow> imm_ty a = evm_pointer_repl \<Longrightarrow> gives ty (ptr_to_int_imm ty a)"
    using gives_unops(5) [OF assms, of ty] not le by (simp add: ptr_to_int_imm_def)
qed

lemma imm_to_u256_total: "imm_ok a \<Longrightarrow> \<exists>w. imm_to_u256 a = Inr w"
  by (simp add: imm_to_u256_def as_i256_eq)

lemma gives_u256_to_imm: "is_integral ty \<Longrightarrow> gives ty (u256_to_imm w ty)"
  by (simp add: u256_to_imm_def gives_from_i256)

lemma evm_addmod_total: "\<exists>r. evm_addmod a b m = Inr r"
  using evm_addmod_spec [of m a b] by (cases "m = 0") (auto simp: evm_addmod_def)

lemma evm_mulmod_total: "\<exists>r. evm_mulmod a b m = Inr r"
  using mulmod_loop_spec [of m 0 "a mod m" "b mod m"] uint_ne_0 [of m] by (cases "m = 0") (auto simp: evm_mulmod_def)

section \<open>Evaluated operands\<close>

text \<open>\<open>evals ty r\<close>: a value of type \<open>ty\<close> and no panic.\<close>

definition evals :: "IrType \<Rightarrow> fault + EvalValue \<Rightarrow> bool" where
  "evals ty r \<longleftrightarrow> (\<exists>x. r = Inr x \<and> value_has_ty x ty)"

lemma evals_Inr [simp]: "evals ty (Inr x) \<longleftrightarrow> value_has_ty x ty"
  by (simp add: evals_def)

lemma evals_to_eval [intro]: "gives (repr_ty ty) r \<Longrightarrow> evals ty (to_eval r)"
  by (auto simp: gives_def evals_def to_eval_def)

lemma evals_with_imm:
  "value_has_ty v ta \<Longrightarrow> (\<And>a. imm_ok a \<Longrightarrow> imm_ty a = repr_ty ta \<Longrightarrow> evals ty (f a)) \<Longrightarrow> evals ty (with_imm v f)"
  by (cases v) auto

lemma evals_zip_with_imm:
  "value_has_ty v ta \<Longrightarrow> value_has_ty w tb \<Longrightarrow>
    (\<And>a b. imm_ok a \<Longrightarrow> imm_ok b \<Longrightarrow> imm_ty a = repr_ty ta \<Longrightarrow> imm_ty b = repr_ty tb \<Longrightarrow> evals ty (f a b)) \<Longrightarrow>
    evals ty (zip_with_imm v w f)"
  by (cases v; cases w) auto

lemma evals_divisions:
  assumes "imm_ok a" "imm_ok b" "imm_ty a = repr_ty ty" "imm_ty b = repr_ty ty"
  shows "evals ty (div_by imm_udiv a b)" "evals ty (div_by imm_urem a b)"
    "evals ty (zero_div_by imm_udiv a b)" "evals ty (zero_div_by imm_urem a b)"
  using assms gives_binops(10,11) [of a b] evals_to_eval [of ty]
  by (simp_all add: div_by_def zero_div_by_def imm_is_zero_word to_eval_def)

lemma evals_modular:
  assumes "value_has_ty u t" "value_has_ty v t'" "value_has_ty w t''" "repr_ty t' = repr_ty t" "repr_ty t'' = repr_ty t"
    and f: "\<And>x y z. \<exists>r. f x y z = Inr r"
  shows "evals t (modular_imm f u v w)"
proof (cases "\<exists>a b c. u = EImm a \<and> v = EImm b \<and> w = EImm c")
  case True
  then obtain a b c where abc: "u = EImm a" "v = EImm b" "w = EImm c" by blast
  with assms have ok: "imm_ok a" "imm_ok b" "imm_ok c" "imm_ty a = repr_ty t" "imm_ty b = repr_ty t" "imm_ty c = repr_ty t"
    by auto
  then obtain x y z where xyz: "imm_to_u256 a = Inr x" "imm_to_u256 b = Inr y" "imm_to_u256 c = Inr z"
    using imm_to_u256_total by meson
  obtain r where "f x y z = Inr r" using f by blast
  moreover have "evals t (to_eval (u256_to_imm r (imm_ty a)))"
    using gives_u256_to_imm [OF ty_bits_imm(3), of a] ok(4) by auto
  ultimately show ?thesis using abc ok xyz by (simp add: modular_imm_def assert_that_def)
next
  case False
  then show ?thesis by (auto simp: modular_imm_def split: EvalValue.split)
qed

lemma evals_exp_byte:
  assumes "value_has_ty u t" "value_has_ty v t'" "repr_ty t' = repr_ty t"
  shows "evals t (exp_imm u v)" "evals t (byte_imm u v)"
proof -
  have "evals t (exp_imm u v) \<and> evals t (byte_imm u v)"
  proof (cases "\<exists>a b. u = EImm a \<and> v = EImm b")
    case True
    then obtain a b where ab: "u = EImm a" "v = EImm b" by blast
    with assms have ok: "imm_ok a" "imm_ok b" "imm_ty a = repr_ty t" "imm_ty b = repr_ty t" by auto
    then obtain x y where xy: "imm_to_u256 a = Inr x" "imm_to_u256 b = Inr y" using imm_to_u256_total by meson
    have "evals t (to_eval (u256_to_imm r (imm_ty a)))" "evals t (to_eval (u256_to_imm r (imm_ty b)))" for r
      using gives_u256_to_imm [OF ty_bits_imm(3), of a] gives_u256_to_imm [OF ty_bits_imm(3), of b] ok by auto
    with ab ok xy show ?thesis by (simp add: exp_imm_def byte_imm_def assert_that_def)
  next
    case False
    then show ?thesis by (auto simp: exp_imm_def byte_imm_def split: EvalValue.split)
  qed
  then show "evals t (exp_imm u v)" "evals t (byte_imm u v)" by simp_all
qed

lemma same_ty_eq_Some [simp]:
  "same_ty vty vs t = Some ty \<longleftrightarrow> (\<forall>v \<in> set vs. repr_ty (vty v) = repr_ty (vty (hd vs))) \<and> t = ty"
  by (simp add: same_ty_def)

lemma evals_evm:
  assumes ty: "evm_result_ty vty op vs = Some ty" and op: "op \<notin> {EvmSdiv, EvmSmod}"
    and env: "\<forall>v \<in> set vs. value_has_ty (env v) (vty v)"
  shows "evals ty (pure_eval env (Evm op vs))"
proof -
  consider (two) a b where "vs = [a, b]" "op \<in> {EvmUdiv, EvmUmod, EvmExp, EvmByte}"
    | (three) a b c where "vs = [a, b, c]" "op \<in> {EvmAddMod, EvmMulMod}"
    using ty op by (auto simp: evm_result_ty_def length_Suc_conv numeral_2_eq_2 numeral_3_eq_3 split: if_splits)
  then show ?thesis
  proof cases
    case two
    with ty env have e: "ty = vty a" "repr_ty (vty b) = repr_ty (vty a)" "value_has_ty (env a) (vty a)" "value_has_ty (env b) (vty b)"
      by (auto simp: evm_result_ty_def split: if_splits)
    then have "evals ty (zip_with_imm (env a) (env b) (zero_div_by imm_udiv))"
      "evals ty (zip_with_imm (env a) (env b) (zero_div_by imm_urem))"
      by (auto intro!: evals_zip_with_imm evals_divisions)
    with two e evals_exp_byte [OF e(3,4,2)] show ?thesis by (auto simp: pure_eval_Evm)
  next
    case three
    with ty env have e: "ty = vty a" "repr_ty (vty b) = repr_ty (vty a)" "repr_ty (vty c) = repr_ty (vty a)"
      "value_has_ty (env a) (vty a)" "value_has_ty (env b) (vty b)" "value_has_ty (env c) (vty c)"
      by (auto simp: evm_result_ty_def split: if_splits)
    from evals_modular [OF e(4,5,6,2,3) evm_addmod_total] evals_modular [OF e(4,5,6,2,3) evm_mulmod_total] three e(1)
    show ?thesis by (auto simp: pure_eval_Evm)
  qed
qed

lemma gives_typed:
  assumes "imm_ok a"
  shows "imm_ok b \<Longrightarrow> imm_ty a = ty \<Longrightarrow> imm_ty b = ty \<Longrightarrow>
      gives ty (imm_add a b) \<and> gives ty (imm_sub a b) \<and> gives ty (imm_mul a b) \<and> gives ty (imm_and a b)
      \<and> gives ty (imm_or a b) \<and> gives ty (imm_xor a b) \<and> gives ty (imm_shl b a) \<and> gives ty (imm_shr b a) \<and> gives ty (sar_imm a b)"
    and "imm_ok b \<Longrightarrow> imm_ty a = ty \<Longrightarrow> imm_ty b = ty \<Longrightarrow>
      gives Ty_I1 (imm_lt a b) \<and> gives Ty_I1 (imm_gt a b) \<and> gives Ty_I1 (imm_le a b) \<and> gives Ty_I1 (imm_ge a b)
      \<and> gives Ty_I1 (imm_slt a b) \<and> gives Ty_I1 (imm_sgt a b) \<and> gives Ty_I1 (imm_sle a b) \<and> gives Ty_I1 (imm_sge a b)
      \<and> gives Ty_I1 (imm_eq a b) \<and> gives Ty_I1 (imm_ne a b)"
    and "imm_ty a = ty \<Longrightarrow> gives ty (imm_neg a) \<and> gives ty (imm_not a)"
  using gives_binops [OF assms, of b] gives_unops [OF assms] by auto

lemma evals_signed_divisions:
  assumes "imm_ok a" "imm_ok b" "imm_ty a = repr_ty ty" "imm_ty b = repr_ty ty"
  shows "evals ty (div_by imm_sdiv a b) \<longleftrightarrow> \<not> (imm_sval b \<noteq> 0 \<and> div_negative_zero (imm_sval a) (imm_sval b))"
    and "evals ty (div_by imm_srem a b) \<longleftrightarrow> \<not> (imm_sval b \<noteq> 0 \<and> rem_negative_zero (imm_sval a) (imm_sval b))"
    and "evals ty (zero_div_by imm_sdiv a b) \<longleftrightarrow> \<not> (imm_sval b \<noteq> 0 \<and> div_negative_zero (imm_sval a) (imm_sval b))"
    and "evals ty (zero_div_by imm_srem a b) \<longleftrightarrow> \<not> (imm_sval b \<noteq> 0 \<and> rem_negative_zero (imm_sval a) (imm_sval b))"
proof -
  have z: "imm_is_zero b \<longleftrightarrow> imm_sval b = 0"
    using imm_is_zero_word [OF assms(2)] sint_imm_word [OF assms(2)] by (metis signed_0 signed_eq_0_iff)
  have bad: "\<not> evals ty (to_eval (if imm_ty a = Ty_I256 then Inr (Imm_I256 (I256 True 0)) else Inl e))" for e
    by (simp add: to_eval_def evals_def imm_ok_def i256_ok_def)
  have good: "evals ty (to_eval (Inr q))" if "imm_ok q" "imm_ty q = imm_ty a" for q
    using that assms(3) by (simp add: to_eval_def)
  have c: "(if div_negative_zero (imm_sval a) (imm_sval b)
      then \<not> evals ty (to_eval (imm_sdiv a b)) else evals ty (to_eval (imm_sdiv a b)))
    \<and> (if rem_negative_zero (imm_sval a) (imm_sval b)
      then \<not> evals ty (to_eval (imm_srem a b)) else evals ty (to_eval (imm_srem a b)))" if "imm_sval b \<noteq> 0"
    using imm_sdiv_srem_cases [OF assms(1,2) _ that] assms(3,4) bad good by (auto split: if_split_asm)
  show "evals ty (div_by imm_sdiv a b) \<longleftrightarrow> \<not> (imm_sval b \<noteq> 0 \<and> div_negative_zero (imm_sval a) (imm_sval b))"
    "evals ty (div_by imm_srem a b) \<longleftrightarrow> \<not> (imm_sval b \<noteq> 0 \<and> rem_negative_zero (imm_sval a) (imm_sval b))"
    "evals ty (zero_div_by imm_sdiv a b) \<longleftrightarrow> \<not> (imm_sval b \<noteq> 0 \<and> div_negative_zero (imm_sval a) (imm_sval b))"
    "evals ty (zero_div_by imm_srem a b) \<longleftrightarrow> \<not> (imm_sval b \<noteq> 0 \<and> rem_negative_zero (imm_sval a) (imm_sval b))"
    using c z good [of b] assms by (auto simp: div_by_def zero_div_by_def split: if_splits)
qed

lemma evals_zip_divisions:
  assumes "value_has_ty v t" "value_has_ty w t'" "repr_ty t' = repr_ty t"
  shows "evals t (zip_with_imm v w (div_by imm_sdiv)) \<longleftrightarrow> \<not> divides_to_negative_zero div_negative_zero v w"
    and "evals t (zip_with_imm v w (div_by imm_srem)) \<longleftrightarrow> \<not> divides_to_negative_zero rem_negative_zero v w"
    and "evals t (zip_with_imm v w (zero_div_by imm_sdiv)) \<longleftrightarrow> \<not> divides_to_negative_zero div_negative_zero v w"
    and "evals t (zip_with_imm v w (zero_div_by imm_srem)) \<longleftrightarrow> \<not> divides_to_negative_zero rem_negative_zero v w"
  using assms evals_signed_divisions [where ty = t] by (cases v; cases w; simp)+

lemma evals_unsigned:
  assumes "result_ty vty i = Some ty" and "\<not> signed_division i"
    and "\<forall>v \<in> set (values_of i). value_has_ty (env v) (vty v)"
  shows "evals ty (pure_eval env i)"
proof (cases "(\<exists>op vs. i = Evm op vs) \<or> (\<exists>a t. i = Bitcast a t)")
  case True
  with assms evals_evm show ?thesis
    by (auto simp: pure_eval_def pure_ops pure_others split: if_splits intro: value_has_ty_repr)
next
  case False
  with assms show ?thesis
    by (cases i)
      (auto simp: pure_eval_def pure_ops pure_others gives_typed gives_unops gives_ptr_casts split: if_splits
        intro!: evals_with_imm evals_zip_with_imm evals_to_eval evals_divisions)
qed

lemma evals_signed:
  assumes "result_ty vty i = Some ty" and "signed_division i"
    and "\<forall>v \<in> set (values_of i). value_has_ty (env v) (vty v)"
  shows "evals ty (pure_eval env i) \<longleftrightarrow> \<not> negative_zero env i"
proof -
  note ops = pure_eval_def pure_ops pure_others
  consider (sdiv) a b where "i = Sdiv a b" | (smod) a b where "i = Smod a b"
    | (evm) op vs where "i = Evm op vs" "op \<in> {EvmSdiv, EvmSmod}"
    using assms(2) by (cases i) auto
  then show ?thesis
  proof cases
    case sdiv
    with assms show ?thesis using evals_zip_divisions(1) [of "env a" "vty a" "env b" "vty b"] by (auto simp: ops)
  next
    case smod
    with assms show ?thesis using evals_zip_divisions(2) [of "env a" "vty a" "env b" "vty b"] by (auto simp: ops)
  next
    case evm
    with assms(1) have e: "evm_result_ty vty op vs = Some ty" by simp
    with evm(2) have "length vs = 2" by (auto simp: evm_result_ty_def split: if_splits)
    then obtain a b where vs: "vs = [a, b]" by (auto simp: length_Suc_conv numeral_2_eq_2)
    from e evm(2) have t: "repr_ty (vty b) = repr_ty (vty a)" "ty = vty a"
      unfolding vs evm_result_ty_def by (simp_all split: if_splits)
    have v: "value_has_ty (env a) (vty a)" "value_has_ty (env b) (vty b)" using assms(3) unfolding evm(1) vs by simp_all
    from evals_zip_divisions(3,4) [OF v t(1)] evm(2) show ?thesis
      unfolding evm(1) vs t(2) pure_eval_Evm by (cases "op = EvmSdiv") simp_all
  qed
qed

text \<open>\<open>result_ty\<close> leaves out no instruction that the interpreter evaluates on scalars.\<close>

lemma pure_typed_or_unimplemented:
  assumes "is_pure j" and "\<not> is_cast j"
  shows "(\<exists>vty ty. result_ty vty j = Some ty) \<or> (\<forall>env. pure_eval env j = Inl (Panic ''`Interpret` is not yet implemented''))"
proof (cases "\<exists>op vs. j = Evm op vs")
  case True
  then obtain op vs where j: "j = Evm op vs" by blast
  show ?thesis
  proof (cases "evm_result_ty (\<lambda>_. Ty_I256) op vs")
    case None
    then have "pure_eval env j = Inl (Panic ''`Interpret` is not yet implemented'')" for env
      by (auto simp: j pure_eval_Evm evm_result_ty_def same_ty_def split: if_splits list.splits)
    then show ?thesis by blast
  next
    case (Some ty)
    then show ?thesis using j by (intro disjI1 exI [of _ "\<lambda>_. Ty_I256"] exI [of _ ty]) simp
  qed
next
  case False
  with assms have "\<exists>ty. result_ty (\<lambda>_. Ty_I256) j = Some ty" by (cases j) auto
  then show ?thesis by blast
qed

section \<open>Type soundness\<close>

text \<open>C3: evaluation is type sound on the scalar instructions: if the operands have their types and the
  instruction is well typed, evaluating it gives a value of the type of its result and does not
  panic, unless it is a signed division or remainder whose result is the negative zero; those do
  panic or give a value that is no proper immediate. The typing leaves nothing out: an instruction
  that is evaluated without memory, aggregates or control flow and is no cast is well typed for
  some types of its operands or is one whose evaluation is not implemented, as \<open>EvmClz\<close>.\<close>
theorem pure_type_sound:
  assumes "result_ty vty i = Some ty" and "\<forall>v \<in> set (values_of i). value_has_ty (env v) (vty v)"
  shows "((\<exists>x. pure_eval env i = Inr x \<and> value_has_ty x ty) \<longleftrightarrow> \<not> negative_zero env i)
       \<and> (\<forall>j. is_pure j \<and> \<not> is_cast j \<longrightarrow> (\<exists>vty ty. result_ty vty j = Some ty)
            \<or> (\<forall>env. pure_eval env j = Inl (Panic ''`Interpret` is not yet implemented'')))"
proof (rule conjI)
  have "negative_zero env i \<Longrightarrow> signed_division i" by (induction env i rule: negative_zero.induct) auto
  with evals_unsigned [OF assms(1) _ assms(2)] evals_signed [OF assms(1) _ assms(2)]
  show "(\<exists>x. pure_eval env i = Inr x \<and> value_has_ty x ty) \<longleftrightarrow> \<not> negative_zero env i"
    unfolding evals_def by blast
qed (use pure_typed_or_unimplemented in blast)

theorem pure_type_sound_witness:
  "(\<exists>x. pure_eval (\<lambda>v. EImm (if v = 0 then Imm_I8 200 else Imm_I8 100)) (Add 0 1) = Inr x \<and> value_has_ty x Ty_I8)
   \<and> \<not> (\<exists>x. pure_eval (\<lambda>v. EImm (if v = 0 then Imm_I8 (- 1) else Imm_I8 2)) (Sdiv 0 1) = Inr x \<and> value_has_ty x Ty_I8)"
  using pure_type_sound [of "\<lambda>_. Ty_I8" "Add 0 1" Ty_I8 "\<lambda>v. EImm (if v = 0 then Imm_I8 200 else Imm_I8 100)"]
    pure_type_sound [of "\<lambda>_. Ty_I8" "Sdiv 0 1" Ty_I8 "\<lambda>v. EImm (if v = 0 then Imm_I8 (- 1) else Imm_I8 2)"]
  by (simp add: imm_ok_def div_negative_zero_def)

end
