(* ===== verification/VCode.thy ===== *)
theory VCode
  imports SymStack Opcodes "HOL-Library.AList"
begin

text \<open>
  \<open>crates/codegen/src/machinst/vcode.rs\<close>, the context \<open>Lower\<close> of \<open>machinst/lower.rs\<close> that instructions
  are appended through, for the opcodes of the EVM. An opcode and its immediate
  or label form one item of a block's code; \<open>adds\<close> says that an operation appends given items to the
  current block and changes nothing else.
\<close>

section \<open>Virtual code\<close>

type_synonym VCodeInst = nat
type_synonym LabelId = nat

datatype Label = LInsn VCodeInst | LBlock BlockId | LFunction FuncRef

datatype SymFixupKind = FixAddr | FixSize

record SymFixup =
  fx_kind :: SymFixupKind
  fx_sym :: SymbolRef

datatype VCodeFixup = FixLabel LabelId | FixSym SymFixup

text \<open>
  A \<open>PrimaryMap\<close> is the list of its values, an \<open>EntityList\<close> a list, and a \<open>SparseMap\<close> an association
  list in the order of insertion; inserting a key again replaces its value in place (\<open>AList.update\<close>).
\<close>

record VCode =
  vc_insts :: "OpCode list"
  inst_ir :: "VCodeInst \<Rightarrow> InstId option"
  inst_imm_bytes :: "(VCodeInst \<times> 8 word list) list"
  fixups :: "(VCodeInst \<times> VCodeFixup) list"
  vc_labels :: "Label list"
  vc_blocks :: "BlockId \<Rightarrow> VCodeInst list"

definition vcode_default :: VCode where
  "vcode_default = \<lparr>vc_insts = [], inst_ir = (\<lambda>_. None), inst_imm_bytes = [], fixups = [], vc_labels = [], vc_blocks = (\<lambda>_. [])\<rparr>"

definition add_inst_to_block :: "OpCode \<Rightarrow> InstId option \<Rightarrow> BlockId \<Rightarrow> VCode \<Rightarrow> VCodeInst \<times> VCode" where
  "add_inst_to_block opc source block vc =
     (let i = length (vc_insts vc) in
      (i, vc\<lparr>vc_insts := vc_insts vc @ [opc], inst_ir := (inst_ir vc)(i := source),
             vc_blocks := (vc_blocks vc)(block := vc_blocks vc block @ [i])\<rparr>))"

definition block_insns :: "VCode \<Rightarrow> BlockId \<Rightarrow> VCodeInst list" where
  "block_insns vc block = vc_blocks vc block"

section \<open>The lowering context\<close>

record Lower =
  lw_module :: TypeStore
  lw_function :: Function
  lw_vcode :: VCode
  cur_insn :: "InstId option"
  cur_block :: "BlockId option"
  next_block_in_layout :: "(BlockId \<Rightarrow> BlockId option) option"

text \<open>The loop over \<open>block_order.windows(2)\<close>.\<close>

fun next_blocks :: "BlockId list \<Rightarrow> (BlockId \<Rightarrow> BlockId option) \<Rightarrow> BlockId \<Rightarrow> BlockId option" where
  "next_blocks (b # b' # bs) m = next_blocks (b' # bs) (m(b \<mapsto> b'))"
| "next_blocks _ m = m"

definition lower_new :: "TypeStore \<Rightarrow> Function \<Rightarrow> BlockId list \<Rightarrow> Lower" where
  "lower_new module func block_order =
     \<lparr>lw_module = module, lw_function = func, lw_vcode = vcode_default, cur_insn = None, cur_block = None,
      next_block_in_layout = Some (next_blocks block_order Map.empty)\<rparr>"

definition lw_push :: "OpCode \<Rightarrow> (Lower, VCodeInst) op" where
  "lw_push opc = (\<lambda>ctx. rbind (unwrap (cur_block ctx)) (\<lambda>block.
     let (i, vc) = add_inst_to_block opc (cur_insn ctx) block (lw_vcode ctx) in Inr (i, ctx\<lparr>lw_vcode := vc\<rparr>)))"

definition add_immediate :: "VCodeInst \<Rightarrow> 8 word list \<Rightarrow> (Lower, unit) op" where
  "add_immediate i bytes = (\<lambda>ctx. Inr ((),
     ctx\<lparr>lw_vcode := (lw_vcode ctx)\<lparr>inst_imm_bytes := AList.update i bytes (inst_imm_bytes (lw_vcode ctx))\<rparr>\<rparr>))"

definition add_label_reference :: "VCodeInst \<Rightarrow> Label \<Rightarrow> (Lower, unit) op" where
  "add_label_reference i dest = (\<lambda>ctx. let vc = lw_vcode ctx in Inr ((),
     ctx\<lparr>lw_vcode := vc\<lparr>vc_labels := vc_labels vc @ [dest], fixups := AList.update i (FixLabel (length (vc_labels vc))) (fixups vc)\<rparr>\<rparr>))"

definition add_sym_fixup :: "VCodeInst \<Rightarrow> SymFixup \<Rightarrow> (Lower, unit) op" where
  "add_sym_fixup i fixup = (\<lambda>ctx. Inr ((),
     ctx\<lparr>lw_vcode := (lw_vcode ctx)\<lparr>fixups := AList.update i (FixSym fixup) (fixups (lw_vcode ctx))\<rparr>\<rparr>))"

definition push_with_imm :: "OpCode \<Rightarrow> 8 word list \<Rightarrow> (Lower, unit) op" where
  "push_with_imm opc bytes = sbind (lw_push opc) (\<lambda>i. add_immediate i bytes)"

definition push_jump_target :: "OpCode \<Rightarrow> Label \<Rightarrow> (Lower, unit) op" where
  "push_jump_target opc dest = sbind (lw_push opc) (\<lambda>i. add_label_reference i dest)"

definition push_sym_fixup :: "OpCode \<Rightarrow> SymFixup \<Rightarrow> (Lower, VCodeInst) op" where
  "push_sym_fixup opc fixup =
     sbind (lw_push opc) (\<lambda>i. sbind (add_immediate i []) (\<lambda>_. sbind (add_sym_fixup i fixup) (\<lambda>_. sret i)))"

definition insn_data :: "InstId \<Rightarrow> Lower \<Rightarrow> fault + inst" where
  "insn_data i ctx = get_inst (f_dfg (lw_function ctx)) i"

definition lw_value_imm :: "ValueId \<Rightarrow> Lower \<Rightarrow> fault + Immediate option" where
  "lw_value_imm v ctx = value_imm (f_dfg (lw_function ctx)) v"

definition lw_value_ty :: "ValueId \<Rightarrow> Lower \<Rightarrow> fault + IrType" where
  "lw_value_ty v ctx = value_ty (f_dfg (lw_function ctx)) v"

definition insn_result :: "InstId \<Rightarrow> Lower \<Rightarrow> ValueId option" where
  "insn_result i ctx = inst_result (f_dfg (lw_function ctx)) i"

definition insn_block :: "InstId \<Rightarrow> Lower \<Rightarrow> fault + BlockId" where
  "insn_block i ctx = inst_block (f_layout (lw_function ctx)) i"

definition is_entry :: "BlockId \<Rightarrow> Lower \<Rightarrow> bool" where
  "is_entry block ctx = (entry_block (f_layout (lw_function ctx)) = Some block)"

definition is_next_block :: "BlockId \<Rightarrow> Lower \<Rightarrow> fault + bool" where
  "is_next_block block ctx = (case cur_block ctx of
       None \<Rightarrow> Inr False
     | Some cur \<Rightarrow> (case next_block_in_layout ctx of
           Some m \<Rightarrow> Inr (m cur = Some block)
         | None \<Rightarrow> rbind (next_block_of (f_layout (lw_function ctx)) cur) (\<lambda>b. Inr (b = Some block))))"

text \<open>
  \<open>Lower::lower\<close> with the operations of the backend and its allocator as arguments. The iterators
  over the layout end on a well-formed one (\<open>iter_block_view\<close>).
\<close>

record Backend =
  bk_enter_block :: "BlockId \<Rightarrow> (Lower, unit) op"
  bk_enter_function :: "(Lower, unit) op"
  bk_lower :: "InstId \<Rightarrow> (Lower, unit) op"

fun lower_insts :: "Backend \<Rightarrow> InstId list \<Rightarrow> (Lower, unit) op" where
  "lower_insts bk [] = sret ()"
| "lower_insts bk (i # js) = (\<lambda>ctx. sbind (bk_lower bk i) (\<lambda>_. lower_insts bk js) (ctx\<lparr>cur_insn := Some i\<rparr>))"

fun lower_blocks :: "Backend \<Rightarrow> BlockId option \<Rightarrow> BlockId list \<Rightarrow> (Lower, unit) op" where
  "lower_blocks bk entry [] = sret ()"
| "lower_blocks bk entry (b # bs) = (\<lambda>ctx.
     sbind (bk_enter_block bk b) (\<lambda>_.
     sbind (if entry = Some b then bk_enter_function bk else sret ()) (\<lambda>_. (\<lambda>ctx.
       rbind (iter_inst (f_layout (lw_function ctx)) b) (\<lambda>r. rbind (ended (map_option Inr r)) (\<lambda>js.
         sbind (lower_insts bk js) (\<lambda>_. lower_blocks bk entry bs) ctx)))))
       (ctx\<lparr>cur_block := Some b, cur_insn := None\<rparr>))"

definition lower_all :: "Backend \<Rightarrow> Lower \<Rightarrow> fault + VCode" where
  "lower_all bk ctx =
     (let l = f_layout (lw_function ctx) in
      rbind (ended (map_option Inr (iter_block l))) (\<lambda>bs.
      rbind (lower_blocks bk (entry_block l) bs ctx) (\<lambda>(_, ctx). Inr (lw_vcode ctx))))"

section \<open>Items of code\<close>

datatype Fixup = RLabel Label | RSym SymFixup

record item =
  it_id :: VCodeInst
  it_op :: OpCode
  it_imm :: "8 word list option"
  it_fix :: "Fixup option"

fun resolve_fixup :: "Label list \<Rightarrow> VCodeFixup \<Rightarrow> Fixup" where
  "resolve_fixup ls (FixLabel l) = RLabel (ls ! l)"
| "resolve_fixup ls (FixSym s) = RSym s"

definition vc_item_at :: "VCode \<Rightarrow> VCodeInst \<Rightarrow> item" where
  "vc_item_at vc i = \<lparr>it_id = i, it_op = vc_insts vc ! i, it_imm = map_of (inst_imm_bytes vc) i,
     it_fix = map_option (resolve_fixup (vc_labels vc)) (map_of (fixups vc) i)\<rparr>"

definition code_of :: "VCode \<Rightarrow> BlockId \<Rightarrow> item list" where
  "code_of vc block = map (vc_item_at vc) (vc_blocks vc block)"

abbreviation plain :: "VCodeInst \<Rightarrow> OpCode \<Rightarrow> item" where
  "plain i opc \<equiv> \<lparr>it_id = i, it_op = opc, it_imm = None, it_fix = None\<rparr>"

text \<open>Every reference is to an instruction or label that exists.\<close>

definition vc_ok :: "VCode \<Rightarrow> bool" where
  "vc_ok vc \<longleftrightarrow> (\<forall>b. \<forall>i \<in> set (vc_blocks vc b). i < length (vc_insts vc))
     \<and> (\<forall>i \<in> dom (map_of (inst_imm_bytes vc)). i < length (vc_insts vc))
     \<and> (\<forall>i \<in> dom (map_of (fixups vc)). i < length (vc_insts vc))
     \<and> (\<forall>i l. map_of (fixups vc) i = Some (FixLabel l) \<longrightarrow> l < length (vc_labels vc))"

definition next_insn :: "Lower \<Rightarrow> VCodeInst" where
  "next_insn ctx = length (vc_insts (lw_vcode ctx))"

definition adds :: "Lower \<Rightarrow> item list \<Rightarrow> Lower \<Rightarrow> bool" where
  "adds ctx its ctx' \<longleftrightarrow> (\<exists>b vc'. cur_block ctx = Some b \<and> ctx' = ctx\<lparr>lw_vcode := vc'\<rparr> \<and> vc_ok (lw_vcode ctx) \<and> vc_ok vc'
     \<and> map it_id its = [next_insn ctx ..< next_insn ctx + length its] \<and> length (vc_insts vc') = next_insn ctx + length its
     \<and> code_of vc' b = code_of (lw_vcode ctx) b @ its
     \<and> (\<forall>b'. b' \<noteq> b \<longrightarrow> code_of vc' b' = code_of (lw_vcode ctx) b'))"


section \<open>Appending code\<close>

lemma vc_okD: "vc_ok vc \<Longrightarrow> i \<in> set (vc_blocks vc b) \<Longrightarrow> i < length (vc_insts vc)"
  by (auto simp: vc_ok_def)

lemma vc_ok_fresh:
  "vc_ok vc \<Longrightarrow> length (vc_insts vc) \<le> i \<Longrightarrow> map_of (inst_imm_bytes vc) i = None \<and> map_of (fixups vc) i = None"
  unfolding vc_ok_def by (metis domIff leD)

lemma vc_ok_default [simp]: "vc_ok vcode_default"
  by (simp add: vc_ok_def vcode_default_def)

lemma addsD:
  assumes "adds ctx its ctx'"
  shows "cur_block ctx' = cur_block ctx" "lw_module ctx' = lw_module ctx" "lw_function ctx' = lw_function ctx"
    "cur_insn ctx' = cur_insn ctx" "next_block_in_layout ctx' = next_block_in_layout ctx"
    "next_insn ctx' = next_insn ctx + length its" "vc_ok (lw_vcode ctx)" "vc_ok (lw_vcode ctx')" "cur_block ctx \<noteq> None"
  using assms by (auto simp: adds_def next_insn_def)

lemma adds_refl: "vc_ok (lw_vcode ctx) \<Longrightarrow> cur_block ctx \<noteq> None \<Longrightarrow> adds ctx [] ctx"
  unfolding adds_def by (auto intro!: exI [of _ "lw_vcode ctx"] simp: next_insn_def)

lemma adds_trans:
  assumes "adds ctx its ctx'" "adds ctx' its' ctx''"
  shows "adds ctx (its @ its') ctx''"
proof -
  obtain b vc where 1: "cur_block ctx = Some b" "ctx' = ctx\<lparr>lw_vcode := vc\<rparr>" "vc_ok (lw_vcode ctx)"
      "map it_id its = [next_insn ctx ..< next_insn ctx + length its]" "length (vc_insts vc) = next_insn ctx + length its"
      "code_of vc b = code_of (lw_vcode ctx) b @ its" "\<And>b'. b' \<noteq> b \<Longrightarrow> code_of vc b' = code_of (lw_vcode ctx) b'"
    using assms(1) unfolding adds_def by blast
  obtain vc' where 2: "ctx'' = ctx'\<lparr>lw_vcode := vc'\<rparr>" "vc_ok vc'"
      "map it_id its' = [next_insn ctx' ..< next_insn ctx' + length its']" "length (vc_insts vc') = next_insn ctx' + length its'"
      "code_of vc' b = code_of vc b @ its'" "\<And>b'. b' \<noteq> b \<Longrightarrow> code_of vc' b' = code_of vc b'"
    using assms(2) 1(1,2) unfolding adds_def by auto
  have n: "next_insn ctx' = next_insn ctx + length its" using 1 by (simp add: next_insn_def)
  have ids: "map it_id (its @ its') = [next_insn ctx ..< next_insn ctx + length (its @ its')]"
    using 1(4) 2(3) n upt_add_eq_append [of "next_insn ctx" "next_insn ctx + length its" "length its'"] by (simp add: add.assoc)
  show ?thesis
    unfolding adds_def using 1 2 n ids by (intro exI [of _ b] exI [of _ vc']) auto
qed

lemma vc_item_at_cong:
  assumes "vc_insts vc' ! i = vc_insts vc ! i" "map_of (inst_imm_bytes vc') i = map_of (inst_imm_bytes vc) i"
    "map_of (fixups vc') i = map_of (fixups vc) i"
    "\<And>l. map_of (fixups vc) i = Some (FixLabel l) \<Longrightarrow> vc_labels vc' ! l = vc_labels vc ! l"
  shows "vc_item_at vc' i = vc_item_at vc i"
proof -
  have "resolve_fixup (vc_labels vc') x = resolve_fixup (vc_labels vc) x" if "map_of (fixups vc) i = Some x" for x
    using assms(4) that by (cases x) auto
  then show ?thesis using assms(1-3) by (cases "map_of (fixups vc) i") (auto simp: vc_item_at_def)
qed

lemma adds_push:
  assumes "vc_ok (lw_vcode ctx)" "cur_block ctx \<noteq> None"
  shows "\<exists>ctx'. lw_push opc ctx = Inr (next_insn ctx, ctx') \<and> adds ctx [plain (next_insn ctx) opc] ctx'"
proof -
  obtain b where b: "cur_block ctx = Some b" using assms(2) by blast
  let ?vc = "lw_vcode ctx" and ?n = "next_insn ctx"
  let ?vc' = "snd (add_inst_to_block opc (cur_insn ctx) b ?vc)"
  have n: "?n = length (vc_insts ?vc)" by (simp add: next_insn_def)
  note sel = add_inst_to_block_def Let_def
  have old: "vc_item_at ?vc' i = vc_item_at ?vc i" if "i < ?n" for i
    using that n by (intro vc_item_at_cong) (simp_all add: sel nth_append)
  have new: "vc_item_at ?vc' ?n = plain ?n opc"
    using vc_ok_fresh [OF assms(1), of ?n] n by (simp add: vc_item_at_def sel)
  have "vc_ok ?vc'"
    using assms(1) unfolding vc_ok_def by (auto simp: sel less_Suc_eq)
  moreover have "code_of ?vc' b' = code_of ?vc b'" if "b' \<noteq> b" for b'
    using that vc_okD [OF assms(1)] old n unfolding code_of_def by (auto simp: sel)
  moreover have "code_of ?vc' b = code_of ?vc b @ [plain ?n opc]"
    using vc_okD [OF assms(1)] old new n unfolding code_of_def by (auto simp: sel)
  moreover have "length (vc_insts ?vc') = ?n + 1" by (simp add: sel n)
  ultimately have "adds ctx [plain ?n opc] (ctx\<lparr>lw_vcode := ?vc'\<rparr>)"
    unfolding adds_def using b assms(1) by (intro exI [of _ b] exI [of _ ?vc']) auto
  moreover have "lw_push opc ctx = Inr (?n, ctx\<lparr>lw_vcode := ?vc'\<rparr>)"
    using b by (simp add: lw_push_def sel n)
  ultimately show ?thesis by blast
qed

text \<open>Changing an item that was just added: its immediate or its fixup.\<close>

lemma adds_patch:
  assumes a: "adds ctx its ctx'" and k: "k < length its" and vc': "vc' = lw_vcode ctx'"
    and vc: "vc_insts vc = vc_insts vc'" "vc_blocks vc = vc_blocks vc'"
    and imm: "map_of (inst_imm_bytes vc) = (map_of (inst_imm_bytes vc'))(i := ib)" and fx: "map_of (fixups vc) = (map_of (fixups vc'))(i := fb)"
    and ls: "vc_labels vc = vc_labels vc' @ ls" and fb: "\<And>l. fb = Some (FixLabel l) \<Longrightarrow> l < length (vc_labels vc)"
    and i: "i = next_insn ctx + k"
  shows "adds ctx (its[k := vc_item_at vc i]) (ctx'\<lparr>lw_vcode := vc\<rparr>)"
proof -
  obtain b where b: "cur_block ctx = Some b" "ctx' = ctx\<lparr>lw_vcode := vc'\<rparr>" "vc_ok (lw_vcode ctx)" "vc_ok vc'"
      "map it_id its = [next_insn ctx ..< next_insn ctx + length its]" "length (vc_insts vc') = next_insn ctx + length its"
      "code_of vc' b = code_of (lw_vcode ctx) b @ its" "\<And>b'. b' \<noteq> b \<Longrightarrow> code_of vc' b' = code_of (lw_vcode ctx) b'"
    using a vc' unfolding adds_def by auto
  have other: "vc_item_at vc j = vc_item_at vc' j" if "j \<noteq> i" for j
    using that vc imm fx ls b(4) by (intro vc_item_at_cong) (auto simp: vc_ok_def nth_append)
  have ids: "it_id (vc_item_at v j) = j" for v j by (simp add: vc_item_at_def)
  have len: "length (vc_blocks vc' b) = length (code_of (lw_vcode ctx) b) + length its"
    using b(7) by (simp add: code_of_def) (metis length_append length_map)
  have old: "vc_blocks vc' c = vc_blocks (lw_vcode ctx) c" if "c \<noteq> b" for c
    using arg_cong [OF b(8) [OF that], of "map it_id"] by (simp add: code_of_def ids comp_def)
  have cur: "vc_blocks vc' b = vc_blocks (lw_vcode ctx) b @ map it_id its"
    using arg_cong [OF b(7), of "map it_id"] by (simp add: code_of_def ids comp_def)
  have lt: "j < next_insn ctx" if "j \<in> set (vc_blocks (lw_vcode ctx) c)" for j c
    using vc_okD [OF b(3) that] by (simp add: next_insn_def)
  have c1: "code_of vc c = code_of (lw_vcode ctx) c" if "c \<noteq> b" for c
  proof -
    have "code_of vc c = code_of vc' c" unfolding code_of_def using other vc(2) old [OF that] lt i by fastforce
    then show ?thesis using b(8) [OF that] by simp
  qed
  have its: "its = map (vc_item_at vc') [next_insn ctx ..< next_insn ctx + length its]"
    and pre: "map (vc_item_at vc') (vc_blocks (lw_vcode ctx) b) = code_of (lw_vcode ctx) b"
    using b(7) cur b(5) by (auto simp: code_of_def)
  have "map (vc_item_at vc) (vc_blocks (lw_vcode ctx) b) = map (vc_item_at vc') (vc_blocks (lw_vcode ctx) b)"
    using other lt i by fastforce
  moreover have "map (vc_item_at vc) [next_insn ctx ..< next_insn ctx + length its] = its[k := vc_item_at vc i]"
  proof (rule nth_equalityI)
    fix j assume "j < length (map (vc_item_at vc) [next_insn ctx ..< next_insn ctx + length its])"
    then have j: "j < length its" by simp
    then have "its ! j = vc_item_at vc' (next_insn ctx + j)" by (subst its) simp
    with j k i other [of "next_insn ctx + j"]
    show "map (vc_item_at vc) [next_insn ctx ..< next_insn ctx + length its] ! j = its[k := vc_item_at vc i] ! j"
      by (cases "j = k") auto
  qed simp
  ultimately have c2: "code_of vc b = code_of (lw_vcode ctx) b @ its[k := vc_item_at vc i]"
    using cur vc(2) b(5) pre by (simp add: code_of_def)
  have "vc_ok vc"
    using b(4) vc imm fx ls fb k i b(6) unfolding vc_ok_def
    by (auto simp: dom_def split: if_splits) fastforce
  moreover have "map it_id (its[k := vc_item_at vc i]) = map it_id its"
    using k i b(5) by (simp add: map_update ids list_update_same_conv)
  ultimately show ?thesis
    unfolding adds_def using b c1 c2 vc by (intro exI [of _ b] exI [of _ vc]) auto
qed

lemma adds_nth:
  assumes "adds ctx its ctx'" "k < length its"
  shows "its ! k = vc_item_at (lw_vcode ctx') (next_insn ctx + k)"
proof -
  obtain b where b: "map it_id its = [next_insn ctx ..< next_insn ctx + length its]"
      "code_of (lw_vcode ctx') b = code_of (lw_vcode ctx) b @ its"
    using assms(1) unfolding adds_def by auto
  have "its ! k \<in> set (code_of (lw_vcode ctx') b)" using b(2) assms(2) by simp
  then obtain j where j: "its ! k = vc_item_at (lw_vcode ctx') j" by (auto simp: code_of_def)
  moreover have "it_id (its ! k) = next_insn ctx + k" using arg_cong [OF b(1), of "\<lambda>xs. xs ! k"] assms(2) by simp
  ultimately show ?thesis by (simp add: vc_item_at_def)
qed

lemma adds_label:
  assumes "adds ctx its ctx'" "k < length its" "i = next_insn ctx + k"
  shows "\<exists>ctx''. add_label_reference i dest ctx' = Inr ((), ctx'') \<and> adds ctx (its[k := (its ! k)\<lparr>it_fix := Some (RLabel dest)\<rparr>]) ctx''"
proof -
  let ?vc' = "lw_vcode ctx'"
  let ?vc = "?vc'\<lparr>vc_labels := vc_labels ?vc' @ [dest], fixups := AList.update i (FixLabel (length (vc_labels ?vc'))) (fixups ?vc')\<rparr>"
  have "adds ctx (its[k := vc_item_at ?vc i]) (ctx'\<lparr>lw_vcode := ?vc\<rparr>)"
    by (rule adds_patch [OF assms(1,2) refl, where ib = "map_of (inst_imm_bytes ?vc') i" and fb = "Some (FixLabel (length (vc_labels ?vc')))"])
      (simp_all add: update_conv' assms(3))
  moreover have "vc_item_at ?vc i = (its ! k)\<lparr>it_fix := Some (RLabel dest)\<rparr>"
    unfolding adds_nth [OF assms(1,2)] assms(3) [symmetric] by (simp add: vc_item_at_def update_conv')
  ultimately show ?thesis by (simp add: add_label_reference_def Let_def)
qed


text \<open>The operations of the context on code added so far.\<close>

lemma adds_push_more:
  assumes "adds ctx its ctx'"
  shows "\<exists>ctx''. lw_push opc ctx' = Inr (next_insn ctx + length its, ctx'') \<and> adds ctx (its @ [plain (next_insn ctx + length its) opc]) ctx''"
  using adds_push [OF addsD(8) [OF assms], of opc] addsD(1,6,9) [OF assms] adds_trans [OF assms] by metis

lemma adds_imm:
  assumes "adds ctx its ctx'" "k < length its" "i = next_insn ctx + k"
  shows "\<exists>ctx''. add_immediate i bytes ctx' = Inr ((), ctx'') \<and> adds ctx (its[k := (its ! k)\<lparr>it_imm := Some bytes\<rparr>]) ctx''"
proof -
  let ?vc' = "lw_vcode ctx'"
  let ?vc = "?vc'\<lparr>inst_imm_bytes := AList.update i bytes (inst_imm_bytes ?vc')\<rparr>"
  have "adds ctx (its[k := vc_item_at ?vc i]) (ctx'\<lparr>lw_vcode := ?vc\<rparr>)"
    by (rule adds_patch [OF assms(1,2) refl, where ib = "Some bytes" and fb = "map_of (fixups ?vc') i" and ls = "[]"])
      (use addsD(8) [OF assms(1)] in \<open>simp_all add: update_conv' assms(3) vc_ok_def\<close>)
  moreover have "vc_item_at ?vc i = (its ! k)\<lparr>it_imm := Some bytes\<rparr>"
    unfolding adds_nth [OF assms(1,2)] assms(3) [symmetric] by (simp add: vc_item_at_def update_conv')
  ultimately show ?thesis by (simp add: add_immediate_def)
qed

lemma adds_sym:
  assumes "adds ctx its ctx'" "k < length its" "i = next_insn ctx + k"
  shows "\<exists>ctx''. add_sym_fixup i fixup ctx' = Inr ((), ctx'') \<and> adds ctx (its[k := (its ! k)\<lparr>it_fix := Some (RSym fixup)\<rparr>]) ctx''"
proof -
  let ?vc' = "lw_vcode ctx'"
  let ?vc = "?vc'\<lparr>fixups := AList.update i (FixSym fixup) (fixups ?vc')\<rparr>"
  have "adds ctx (its[k := vc_item_at ?vc i]) (ctx'\<lparr>lw_vcode := ?vc\<rparr>)"
    by (rule adds_patch [OF assms(1,2) refl, where ib = "map_of (inst_imm_bytes ?vc') i" and fb = "Some (FixSym fixup)" and ls = "[]"])
      (simp_all add: update_conv' assms(3))
  moreover have "vc_item_at ?vc i = (its ! k)\<lparr>it_fix := Some (RSym fixup)\<rparr>"
    unfolding adds_nth [OF assms(1,2)] assms(3) [symmetric] by (simp add: vc_item_at_def update_conv')
  ultimately show ?thesis by (simp add: add_sym_fixup_def)
qed

end
