(* ===== verification/Spec2Isabelle.thy ===== *)
theory Spec2Isabelle
  imports BigInt Cfg Cursor Dfg DomTree EdgePlan Eval Immediates Insts IrTypes Iteration Layout Liveness Machine MemoryPlan Normalize Opcodes OperandPrep Planner Slots Sonatina_Prelude StaticArena SymStack Typing VCode 
begin

text \<open>Root theory.\<close>

end
